(* ===== verification/Prelude.thy ===== *)
theory Prelude
  imports Main "HOL-Library.Word" "HOL-Library.Monad_Syntax" "HOL-Library.Multiset"
begin

text \<open>
  Shared vocabulary of the development: the types that stand for C data, the integer
  operations whose C meaning differs from the HOL one, and the list lemmas that several
  components use.

  Conventions. A function that may stop the process (a failed \<^verbatim>\<open>assert\<close>, a call of
  \<^verbatim>\<open>abort\<close>, \<^verbatim>\<open>exit\<close> or \<^verbatim>\<open>fatal\<close>, a read outside an object) returns an option, and
  \<open>None\<close> is the stopped process. A C string is the list of its bytes before the
  terminator.
\<close>

named_theorems nr_defs \<open>unfolding rules of the small definitions of the development\<close>
named_theorems nr_inv \<open>preservation facts of the component invariants\<close>

type_synonym byte = "8 word"
type_synonym u16 = "16 word"
type_synonym u32 = "32 word"
type_synonym i32 = "32 word"

subsection \<open>C integers\<close>

definition INT_MAX :: nat where
  "INT_MAX = 2147483647"

definition c_div :: "int \<Rightarrow> int \<Rightarrow> int" where
  "c_div a b = sgn a * sgn b * (\<bar>a\<bar> div \<bar>b\<bar>)"

definition c_mod :: "int \<Rightarrow> int \<Rightarrow> int" where
  "c_mod a b = a - b * c_div a b"

lemma c_div_nonneg [simp]: "0 \<le> a \<Longrightarrow> 0 < b \<Longrightarrow> c_div a b = a div b"
  by (auto simp: c_div_def sgn_if)

lemma c_mod_nonneg [simp]: "0 \<le> a \<Longrightarrow> 0 < b \<Longrightarrow> c_mod a b = a mod b"
  by (simp add: c_mod_def minus_mult_div_eq_mod)

lemma c_mod_neg: "a < 0 \<Longrightarrow> 0 < b \<Longrightarrow> c_mod a b = - ((- a) mod b)"
  by (simp add: c_mod_def c_div_def minus_mult_div_eq_mod [symmetric])

lemma c_mod_bounds:
  assumes "0 < b"
  shows "- b < c_mod a b \<and> c_mod a b < b"
proof (cases "0 \<le> a")
  case True
  with assms have "c_mod a b = a mod b" by simp
  with assms show ?thesis
    using pos_mod_sign [of b a] pos_mod_bound [of b a] by linarith
next
  case False
  with assms have "c_mod a b = - ((- a) mod b)" by (simp add: c_mod_neg)
  with assms show ?thesis
    using pos_mod_sign [of b "- a"] pos_mod_bound [of b "- a"] by linarith
qed

definition signed_char :: "char \<Rightarrow> int" where
  "signed_char c = (let n = of_char c in if n < 128 then n else n - 256)"

lemma of_char_int_bounds: "0 \<le> (of_char c :: int) \<and> (of_char c :: int) < 256"
proof -
  have "(of_char c :: int) = int (of_char c)" by (rule of_nat_of_char [symmetric])
  moreover have "(of_char c :: nat) < 256" by simp
  ultimately show ?thesis by linarith
qed

lemma signed_char_bounds: "- 128 \<le> signed_char c \<and> signed_char c \<le> 127"
  using of_char_int_bounds [of c] by (simp add: signed_char_def Let_def)

subsection \<open>Integers in memory\<close>

text \<open>The bytes of a 32-bit and of a 16-bit integer in memory, least significant first.\<close>

definition le32 :: "32 word \<Rightarrow> byte list" where
  "le32 w = [ucast w, ucast (drop_bit 8 w), ucast (drop_bit 16 w), ucast (drop_bit 24 w)]"

definition of_le32 :: "byte list \<Rightarrow> 32 word" where
  "of_le32 bs =
     (case bs of [a, b, c, d] \<Rightarrow>
        or (ucast a) (or (push_bit 8 (ucast b)) (or (push_bit 16 (ucast c)) (push_bit 24 (ucast d))))
      | _ \<Rightarrow> 0)"

definition le16 :: "16 word \<Rightarrow> byte list" where
  "le16 w = [ucast w, ucast (drop_bit 8 w)]"

definition of_le16 :: "byte list \<Rightarrow> 16 word" where
  "of_le16 bs = (case bs of [a, b] \<Rightarrow> or (ucast a) (push_bit 8 (ucast b)) | _ \<Rightarrow> 0)"

lemma length_le32 [simp]: "length (le32 w) = 4"
  by (simp add: le32_def)

lemma length_le16 [simp]: "length (le16 w) = 2"
  by (simp add: le16_def)

lemma of_le32_le32 [simp]: "of_le32 (le32 w) = w"
proof (rule bit_word_eqI)
  fix n :: nat
  assume n: "n < LENGTH(32)"
  then consider "n < 8" | "8 \<le> n \<and> n < 16" | "16 \<le> n \<and> n < 24" | "24 \<le> n \<and> n < 32"
    by fastforce
  then show "bit (of_le32 (le32 w)) n = bit w n"
    by cases (auto simp: of_le32_def le32_def bit_simps)
qed

lemma of_le16_le16 [simp]: "of_le16 (le16 w) = w"
  by (rule bit_word_eqI)
    (auto simp: of_le16_def le16_def bit_simps)

lemma word_less_Suc:
  fixes k :: "'a::len word"
  assumes "k \<noteq> - 1"
  shows "k < k + 1"
proof -
  have "1 + k \<noteq> 0" using assms by (simp add: add_eq_0_iff)
  from unatSuc [OF this] show ?thesis by (simp add: word_less_nat_alt add.commute)
qed

subsection \<open>Lists\<close>

lemma take_Suc_snoc: "n < length xs \<Longrightarrow> take (Suc n) xs = take n xs @ [xs ! n]"
  by (simp add: take_Suc_conv_app_nth)

lemma concat_map_const_length:
  "(\<And>x. x \<in> set xs \<Longrightarrow> length (f x) = k) \<Longrightarrow> length (concat (map f xs)) = k * length xs"
  by (induction xs) auto

lemma drop_concat_map:
  "(\<And>x. x \<in> set xs \<Longrightarrow> length (f x) = k) \<Longrightarrow>
   drop (i * k) (concat (map f xs)) = concat (map f (drop i xs))"
proof (induction xs arbitrary: i)
  case Nil
  then show ?case by simp
next
  case (Cons x xs)
  then show ?case by (cases i) (simp_all add: drop_append)
qed

lemma take_drop_concat_map:
  assumes "\<And>x. x \<in> set xs \<Longrightarrow> length (f x) = k" and "i < length xs"
  shows "take k (drop (i * k) (concat (map f xs))) = f (xs ! i)"
proof -
  have "drop i xs = xs ! i # drop (Suc i) xs"
    using assms(2) by (simp add: Cons_nth_drop_Suc)
  moreover have "drop (i * k) (concat (map f xs)) = concat (map f (drop i xs))"
    using assms(1) by (rule drop_concat_map)
  moreover have "length (f (xs ! i)) = k"
    using assms by simp
  ultimately show ?thesis by simp
qed

lemma remove1_notin: "x \<notin> set xs \<Longrightarrow> remove1 x xs = xs"
  by (rule remove1_idem)

end
