(* ===== verification/Text_Util.thy ===== *)
theory Text_Util
  imports Prelude
begin

text \<open>
  The string, time and hashing helpers of \<^verbatim>\<open>network/util.c\<close>. The library functions they
  call (\<^verbatim>\<open>isspace\<close>, \<^verbatim>\<open>strchr\<close>, \<^verbatim>\<open>strtol\<close> in base 10) are modelled in the C locale, with
  64-bit \<^verbatim>\<open>long\<close>, 32-bit \<^verbatim>\<open>int\<close> and signed \<^verbatim>\<open>char\<close>. A string argument is the list of
  bytes before the terminator, so it holds no zero byte.
\<close>

abbreviation BSL :: char where "BSL \<equiv> CHR 0x5C"
abbreviation DQUOTE :: char where "DQUOTE \<equiv> CHR 0x22"
abbreviation SQUOTE :: char where "SQUOTE \<equiv> CHR 0x27"

subsection \<open>Escaping\<close>

definition escape_char :: "char \<Rightarrow> string" where
  "escape_char c =
     (if c = CHR 0x08 then [BSL, CHR ''b'']
      else if c = CHR 0x09 then [BSL, CHR ''t'']
      else if c = CHR 0x0A then [BSL, CHR ''n'']
      else if c = CHR 0x0C then [BSL, CHR ''f'']
      else if c = CHR 0x0D then [BSL, CHR ''r'']
      else if c = DQUOTE then [BSL, DQUOTE]
      else if c = SQUOTE then [BSL, SQUOTE]
      else if c = BSL then [BSL, BSL]
      else [c])"

fun escape :: "string \<Rightarrow> string" where
  "escape [] = []"
| "escape (c # chars) = escape_char c @ escape chars"

text \<open>The character stored for the one that follows a backslash; others store nothing.\<close>

definition unescape_char :: "char \<Rightarrow> string" where
  "unescape_char c =
     (if c = CHR ''b'' then [CHR 0x08]
      else if c = CHR ''t'' then [CHR 0x09]
      else if c = CHR ''n'' then [CHR 0x0A]
      else if c = CHR ''f'' then [CHR 0x0C]
      else if c = CHR ''r'' then [CHR 0x0D]
      else if c = DQUOTE then [DQUOTE]
      else if c = SQUOTE then [SQUOTE]
      else if c = BSL then [BSL]
      else [])"

fun unescape :: "string \<Rightarrow> string" where
  "unescape [] = []"
| "unescape [c] = (if c = BSL then [] else [c])"
| "unescape (c # d # chars) =
     (if c = BSL then unescape_char d @ unescape chars else c # unescape (d # chars))"

definition print_escaped_char :: "char \<Rightarrow> string" where
  "print_escaped_char c =
     (if c = CHR 0x0A then [BSL, CHR ''n'']
      else if c = CHR 0x0D then [BSL, CHR ''r'']
      else if c = CHR 0x09 then [BSL, CHR ''t'']
      else if c = DQUOTE then [BSL, DQUOTE]
      else [c])"

definition print_escaped :: "string \<Rightarrow> string" where
  "print_escaped str = concat (map print_escaped_char str)"

definition print_double_escaped_char :: "char \<Rightarrow> string" where
  "print_double_escaped_char c =
     (if c = CHR 0x0A then [BSL, BSL, CHR ''n'']
      else if c = CHR 0x0D then [BSL, BSL, CHR ''r'']
      else if c = CHR 0x09 then [BSL, BSL, CHR ''t'']
      else if c = DQUOTE then [BSL, BSL, BSL, DQUOTE]
      else [c])"

definition print_double_escaped :: "string \<Rightarrow> string" where
  "print_double_escaped str = concat (map print_double_escaped_char str)"

subsection \<open>Substrings\<close>

definition mkstring :: "string \<Rightarrow> nat \<Rightarrow> string option" where
  "mkstring bytes len = (if len \<le> length bytes then Some (take len bytes) else None)"

definition substring :: "string \<Rightarrow> nat \<Rightarrow> nat \<Rightarrow> string option" where
  "substring str frm til =
     (if frm \<le> length str \<and> til \<le> length str \<and> frm \<le> til
      then Some (take (til - frm) (drop frm str)) else None)"

subsection \<open>Time values\<close>

record timeval =
  tv_sec :: int
  tv_usec :: int

definition timeval_diff :: "timeval \<Rightarrow> timeval \<Rightarrow> timeval" where
  "timeval_diff from to =
     (let diff = \<lparr>tv_sec = tv_sec to - tv_sec from, tv_usec = tv_usec to - tv_usec from\<rparr>
      in if 0 > tv_usec diff
         then diff\<lparr>tv_sec := tv_sec diff - 1, tv_usec := tv_usec diff + 1000000\<rparr>
         else diff)"

definition timeval_diffms :: "timeval \<Rightarrow> timeval \<Rightarrow> int" where
  "timeval_diffms from to =
     (let diff = timeval_diff from to in tv_sec diff * 1000 + c_div (tv_usec diff) 1000)"

definition timeval_addms :: "timeval \<Rightarrow> int \<Rightarrow> timeval" where
  "timeval_addms t0 ms =
     (let t = t0\<lparr>tv_sec := tv_sec t0 + c_div ms 1000,
                 tv_usec := tv_usec t0 + c_mod ms 1000 * 1000\<rparr>
      in if tv_usec t \<ge> 1000000
         then t\<lparr>tv_usec := tv_usec t - 1000000, tv_sec := tv_sec t + 1\<rparr>
         else t)"

definition timeval_us :: "timeval \<Rightarrow> int" where
  "timeval_us t = tv_sec t * 1000000 + tv_usec t"

definition timeval_ok :: "timeval \<Rightarrow> bool" where
  "timeval_ok t \<longleftrightarrow> 0 \<le> tv_usec t \<and> tv_usec t < 1000000"

subsection \<open>Hashing\<close>

definition GLOBAL_HASH_SIZE :: int where
  "GLOBAL_HASH_SIZE = 4096"

fun hash_sum :: "int \<Rightarrow> string \<Rightarrow> int" where
  "hash_sum h [] = h"
| "hash_sum h (c # mem) = hash_sum (h + signed_char c) mem"

definition hash :: "string \<Rightarrow> int" where
  "hash mem =
     (let h = c_mod (hash_sum 0 mem) GLOBAL_HASH_SIZE
      in if 0 > h then h + GLOBAL_HASH_SIZE else h)"

subsection \<open>Command lines\<close>

definition isspace :: "char \<Rightarrow> bool" where
  "isspace c \<longleftrightarrow> c = CHR '' '' \<or> (of_char c :: nat) \<in> {9 .. 13}"

text \<open>
  Both loops of \<^verbatim>\<open>parse_cmdline\<close> look at the current character (or the terminator) and at
  the one before it: \<open>prev\<close> is \<open>None\<close> at the start of the line. In the second loop,
  \<open>cur\<close> is the text between \<^verbatim>\<open>start\<close> and \<^verbatim>\<open>c\<close>.
\<close>

definition word_ends :: "char option \<Rightarrow> bool" where
  "word_ends prev \<longleftrightarrow> (case prev of None \<Rightarrow> False | Some p \<Rightarrow> \<not> isspace p)"

fun cmdline_count :: "char option \<Rightarrow> string \<Rightarrow> nat" where
  "cmdline_count prev [] = (if word_ends prev then 1 else 0)"
| "cmdline_count prev (c # cs) =
     (if isspace c \<and> word_ends prev then 1 else 0) + cmdline_count (Some c) cs"

fun cmdline_args :: "char option \<Rightarrow> string \<Rightarrow> string \<Rightarrow> string list" where
  "cmdline_args prev cur [] = (if word_ends prev then [cur] else [])"
| "cmdline_args prev cur (c # cs) =
     (if isspace c \<and> word_ends prev then [cur] else []) @
     cmdline_args (Some c) (if isspace c then [] else cur @ [c]) cs"

definition parse_cmdline :: "string \<Rightarrow> nat \<times> string list" where
  "parse_cmdline line = (cmdline_count None line, cmdline_args None [] line)"

text \<open>Reference: the maximal runs of characters that are not white space.\<close>

fun words_from :: "string \<Rightarrow> string \<Rightarrow> string list" where
  "words_from cur [] = (if cur = [] then [] else [cur])"
| "words_from cur (c # cs) =
     (if isspace c then (if cur = [] then [] else [cur]) @ words_from [] cs
      else words_from (cur @ [c]) cs)"

subsection \<open>Addresses\<close>

definition isdigit :: "char \<Rightarrow> bool" where
  "isdigit c \<longleftrightarrow> (of_char c :: nat) \<in> {48 .. 57}"

fun digits_value :: "int \<Rightarrow> string \<Rightarrow> int" where
  "digits_value v [] = v"
| "digits_value v (c # cs) = digits_value (10 * v + (of_char c - 48)) cs"

definition clamp_long :: "int \<Rightarrow> int" where
  "clamp_long v = max (- (2 ^ 63)) (min (2 ^ 63 - 1) v)"

text \<open>
  \<^verbatim>\<open>strtol(s,&end,10)\<close>: the value and the rest of the string from \<^verbatim>\<open>end\<close>. Without a digit
  nothing is consumed.
\<close>

definition strtol :: "string \<Rightarrow> int \<times> string" where
  "strtol s =
     (let t = dropWhile isspace s;
          neg = (t \<noteq> [] \<and> hd t = CHR ''-'');
          u = (if t \<noteq> [] \<and> (hd t = CHR ''-'' \<or> hd t = CHR ''+'') then tl t else t);
          ds = takeWhile isdigit u;
          v = digits_value 0 ds
      in if ds = [] then (0, s)
         else (clamp_long (if neg then - v else v), dropWhile isdigit u))"

definition long_to_int :: "int \<Rightarrow> int" where
  "long_to_int v = (v + 2 ^ 31) mod 2 ^ 32 - 2 ^ 31"

definition parse_address :: "string \<Rightarrow> (string \<times> int) option" where
  "parse_address address =
     (case dropWhile (\<lambda>c. c \<noteq> CHR '':'') address of
        [] \<Rightarrow> None
      | colon # portstr \<Rightarrow>
          let (v, rest) = strtol portstr
          in if portstr = [] \<or> rest \<noteq> [] then None
             else Some (takeWhile (\<lambda>c. c \<noteq> CHR '':'') address, long_to_int v))"

subsection \<open>Escaping: lemmas\<close>

lemma unescape_Cons: "c \<noteq> BSL \<Longrightarrow> unescape (c # t) = c # unescape t"
  by (cases t) simp_all

lemma unescape_escape_char: "unescape (escape_char c @ t) = c # unescape t"
  by (auto simp: escape_char_def unescape_char_def unescape_Cons)

lemma escape_char_length: "length (escape_char c) \<le> 2"
  by (simp add: escape_char_def)

lemma unescape_char_length: "length (unescape_char c) \<le> 1"
  by (simp add: unescape_char_def)

lemma escape_length: "length (escape s) \<le> 2 * length s"
  by (induction s) (auto intro: add_mono [OF escape_char_length, simplified])

lemma unescape_length: "length (unescape s) \<le> length s"
proof (induction s rule: unescape.induct)
  case (3 c d chars)
  then show ?case using unescape_char_length [of d] by auto
qed auto

lemma unescape_escape_id: "unescape (escape s) = s"
  by (induction s) (simp_all add: unescape_escape_char)

subsection \<open>Hashing: lemmas\<close>

lemma hash_sum_eq: "hash_sum h mem = h + sum_list (map signed_char mem)"
  by (induction mem arbitrary: h) auto

lemma hash_sum_bound: "\<bar>hash_sum 0 mem\<bar> \<le> 128 * int (length mem)"
proof (induction mem)
  case (Cons c mem)
  have "hash_sum 0 (c # mem) = signed_char c + hash_sum 0 mem" by (simp add: hash_sum_eq)
  with Cons signed_char_bounds [of c] show ?case by (simp add: abs_le_iff)
qed simp

lemma hash_mod: "hash mem = sum_list (map signed_char mem) mod 4096"
proof -
  let ?x = "sum_list (map signed_char mem)"
  have "hash mem = (if 0 > c_mod ?x 4096 then c_mod ?x 4096 + 4096 else c_mod ?x 4096)"
    by (simp add: hash_def hash_sum_eq GLOBAL_HASH_SIZE_def Let_def)
  also have "\<dots> = ?x mod 4096"
  proof (cases "0 \<le> ?x")
    case True
    then show ?thesis by simp
  next
    case False
    then have "c_mod ?x 4096 = - ((- ?x) mod 4096)" by (simp add: c_mod_neg)
    moreover have "0 \<le> (- ?x) mod 4096" by simp
    moreover have "?x mod 4096 = (if (- ?x) mod 4096 = 0 then 0 else 4096 - (- ?x) mod 4096)"
      using zmod_zminus1_eq_if [of "- ?x" 4096] by simp
    ultimately show ?thesis by (auto simp del: pos_mod_sign)
  qed
  finally show ?thesis .
qed

lemma hash_range: "0 \<le> hash mem \<and> hash mem < 4096"
  by (simp add: hash_mod)

subsection \<open>Command lines: lemmas\<close>

lemma cmdline_count_args: "cmdline_count prev cs = length (cmdline_args prev cur cs)"
  by (induction cs arbitrary: prev cur) auto

lemma cmdline_args_words:
  "word_ends prev = (cur \<noteq> []) \<Longrightarrow> cmdline_args prev cur cs = words_from cur cs"
  by (induction cs arbitrary: prev cur) (auto simp: word_ends_def)

lemma parse_cmdline_words: "parse_cmdline line = (length (words_from [] line), words_from [] line)"
proof -
  have "cmdline_args None [] line = words_from [] line"
    by (rule cmdline_args_words) (simp add: word_ends_def)
  then show ?thesis
    by (simp add: parse_cmdline_def cmdline_count_args [of None line "[]"])
qed

lemma words_from_run: "\<forall>c \<in> set w. \<not> isspace c \<Longrightarrow> words_from cur (w @ cs) = words_from (cur @ w) cs"
  by (induction w arbitrary: cur) auto

fun join_args :: "string list \<Rightarrow> string" where
  "join_args [] = []"
| "join_args [w] = w"
| "join_args (w # ws) = w @ CHR '' '' # join_args ws"

lemma words_from_join:
  "\<forall>w \<in> set ws. w \<noteq> [] \<and> (\<forall>c \<in> set w. \<not> isspace c) \<Longrightarrow> words_from [] (join_args ws) = ws"
proof (induction ws rule: join_args.induct)
  case (2 w)
  then show ?case using words_from_run [of w "[]" "[]"] by simp
next
  case (3 w v ws)
  have "isspace (CHR '' '')" by (simp add: isspace_def)
  with 3 show ?case by (simp add: words_from_run)
qed simp

subsection \<open>Addresses: lemmas\<close>

lemma isdigit_not_space: "isdigit c \<Longrightarrow> \<not> isspace c"
  by (auto simp: isdigit_def isspace_def)

lemma strtol_digits:
  assumes "ds \<noteq> []" and "\<forall>c \<in> set ds. isdigit c"
  shows "strtol ds = (clamp_long (digits_value 0 ds), [])"
proof -
  have hd: "isdigit (hd ds)" using assms by simp
  have "\<not> isdigit (CHR ''-'')" "\<not> isdigit (CHR ''+'')" by (simp_all add: isdigit_def)
  with hd have sign: "hd ds \<noteq> CHR ''-''" "hd ds \<noteq> CHR ''+''" by metis+
  have sp: "dropWhile isspace ds = ds"
    using assms(1) isdigit_not_space [OF hd] by (cases ds) simp_all
  have tw: "takeWhile isdigit ds = ds" and dw: "dropWhile isdigit ds = []"
    using assms(2) by (simp_all add: takeWhile_eq_all_conv)
  show ?thesis using assms(1) sign by (simp add: strtol_def Let_def sp tw dw)
qed

lemma digits_value_append: "digits_value v (xs @ ys) = digits_value (digits_value v xs) ys"
  by (induction xs arbitrary: v) simp_all

text \<open>The decimal text of a number, as \<^verbatim>\<open>sprintf("%d")\<close> prints it.\<close>

fun decimal :: "nat \<Rightarrow> string" where
  "decimal n = (if n < 10 then [char_of (48 + n)] else decimal (n div 10) @ [char_of (48 + n mod 10)])"

declare decimal.simps [simp del]

lemma decimal_0: "decimal 0 = ''0''"
  by code_simp

lemma decimal_nonempty: "decimal n \<noteq> []"
  by (subst decimal.simps) simp

lemma decimal_digits: "\<forall>c \<in> set (decimal n). isdigit c"
proof (induction n rule: decimal.induct)
  case (1 n)
  have "48 + n mod 10 < 256" "n mod 10 < 10" by simp_all
  with 1 show ?case
    by (subst decimal.simps) (auto simp: isdigit_def of_char_of)
qed

lemma digits_value_decimal: "digits_value 0 (decimal n) = int n"
proof (induction n rule: decimal.induct)
  case (1 n)
  have "(of_char (char_of (48 + k)) :: int) = 48 + int k" if "k < 10" for k :: nat
  proof -
    have "(of_char (char_of (48 + k)) :: nat) = 48 + k" using that by (simp add: of_char_of)
    then have "int (of_char (char_of (48 + k))) = 48 + int k" by simp
    then show ?thesis by (simp only: of_nat_of_char)
  qed
  note digit = this
  show ?case
  proof (cases "n < 10")
    case True
    then show ?thesis by (subst decimal.simps) (simp add: digit)
  next
    case False
    then have "decimal n = decimal (n div 10) @ [char_of (48 + n mod 10)]"
      by (subst decimal.simps) simp
    then have "digits_value 0 (decimal n) = 10 * int (n div 10) + int (n mod 10)"
      using 1 [OF False] by (simp add: digits_value_append digit del: of_nat_mod of_nat_div)
    also have "\<dots> = int n" by presburger
    finally show ?thesis .
  qed
qed

lemma decimal_inject: "decimal m = decimal n \<longleftrightarrow> m = n"
  by (metis digits_value_decimal of_nat_eq_iff)

lemma long_to_int_id: "0 \<le> v \<Longrightarrow> v < 2 ^ 31 \<Longrightarrow> long_to_int v = v"
  by (simp add: long_to_int_def)

subsection \<open>Properties\<close>

text \<open>C36: Escaping a string and unescaping the result gives the string back, the escaped text
  never exceeds the \<^verbatim>\<open>len*2+1\<close> bytes that \<^verbatim>\<open>escape\<close> allocates, and unescaping any text
  (well escaped or not) stays within the \<^verbatim>\<open>len+1\<close> bytes that \<^verbatim>\<open>unescape\<close> allocates.\<close>

theorem escape_roundtrip:
  "unescape (escape s) = s \<and> length (escape s) + 1 \<le> length s * 2 + 1 \<and>
   length (unescape t) + 1 \<le> length t + 1"
  using escape_length [of s] unescape_length [of t] by (simp add: unescape_escape_id)

text \<open>C37: \<^verbatim>\<open>parse_cmdline\<close> inverts joining arguments with single spaces: a line made from
  non-empty arguments without white space is split into exactly those arguments, and the
  count of the first loop is the number of entries the second loop stores.\<close>

theorem parse_cmdline_join:
  assumes "\<forall>w \<in> set ws. w \<noteq> [] \<and> (\<forall>c \<in> set w. \<not> isspace c)"
  shows "parse_cmdline (join_args ws) = (length ws, ws)"
  using words_from_join [OF assms] by (simp add: parse_cmdline_words)

theorem parse_cmdline_join_witness:
  "parse_cmdline (join_args [''run'', ''a.elc'']) = (2, [''run'', ''a.elc''])"
proof -
  have "\<forall>w \<in> set [''run'', ''a.elc'']. w \<noteq> [] \<and> (\<forall>c \<in> set w. \<not> isspace c)"
    by (simp add: isspace_def)
  from parse_cmdline_join [OF this] show ?thesis by simp
qed

text \<open>C38: \<^verbatim>\<open>parse_address\<close> accepts \<^verbatim>\<open>host:port\<close> for every host without a colon and every
  port number that fits an \<^verbatim>\<open>int\<close>, and returns exactly that host and port.\<close>

theorem parse_address_roundtrip:
  assumes "CHR '':'' \<notin> set host" and "port < 2 ^ 31"
  shows "parse_address (host @ CHR '':'' # decimal port) = Some (host, int port)"
proof -
  have nc: "\<forall>c \<in> set host. c \<noteq> CHR '':''" using assms(1) by auto
  have port: "int port < 2 ^ 31" using assms(2) by simp
  have "strtol (decimal port) = (int port, [])"
    using strtol_digits [OF decimal_nonempty decimal_digits, of port] port
    by (simp add: digits_value_decimal clamp_long_def)
  then show ?thesis
    using nc port decimal_nonempty [of port]
    by (simp add: parse_address_def dropWhile_append2 takeWhile_append2 long_to_int_id)
qed

theorem parse_address_roundtrip_witness:
  "parse_address (''node7'' @ CHR '':'' # decimal 6879) = Some (''node7'', 6879)"
  using parse_address_roundtrip [of "''node7''" 6879] by simp

text \<open>C39: \<^verbatim>\<open>hash\<close> always yields a valid index of a \<^verbatim>\<open>GLOBAL_HASH_SIZE\<close> table: the byte sum
  modulo 4096, although C's remainder of a negative sum is negative; and for texts of up to
  16 million bytes no partial sum leaves the range of \<^verbatim>\<open>int\<close>.\<close>

theorem hash_index_in_range:
  "0 \<le> hash mem \<and> hash mem < GLOBAL_HASH_SIZE \<and>
   hash mem = sum_list (map signed_char mem) mod GLOBAL_HASH_SIZE \<and>
   (length mem \<le> 2 ^ 23 \<longrightarrow> \<bar>hash_sum 0 (take n mem)\<bar> \<le> int INT_MAX)"
proof -
  have "\<bar>hash_sum 0 (take n mem)\<bar> \<le> int INT_MAX" if "length mem \<le> 2 ^ 23"
    using hash_sum_bound [of "take n mem"] that by (simp add: INT_MAX_def min_def split: if_splits)
  then show ?thesis
    using hash_range [of mem] by (simp add: hash_mod GLOBAL_HASH_SIZE_def)
qed

theorem hash_index_in_range_witness:
  "length ''main'' \<le> 2 ^ 23 \<and> hash ''main'' < GLOBAL_HASH_SIZE \<and>
   \<bar>hash_sum 0 (take 2 ''main'')\<bar> \<le> int INT_MAX"
  using hash_index_in_range [of "''main''" 2] by simp

text \<open>C40: time arithmetic is exact on normalised times: \<^verbatim>\<open>timeval_diff\<close> is the difference in
  microseconds and is normalised again; adding a delay that is not negative (all delays of
  \<^verbatim>\<open>endpoint_receive\<close>) keeps the time normalised and moves it by that many milliseconds.\<close>

theorem timeval_arithmetic:
  assumes "timeval_ok a" and "timeval_ok b" and "0 \<le> ms"
  shows "timeval_ok (timeval_diff a b) \<and> timeval_us (timeval_diff a b) = timeval_us b - timeval_us a \<and>
         timeval_ok (timeval_addms a ms) \<and>
         timeval_us (timeval_addms a ms) = timeval_us a + 1000 * ms"
proof -
  have ms: "ms = 1000 * (ms div 1000) + ms mod 1000" "0 \<le> ms mod 1000" "ms mod 1000 < 1000"
    by simp_all
  have "timeval_ok (timeval_addms a ms)"
    using assms(1,3) ms by (auto simp: timeval_ok_def timeval_addms_def Let_def)
  moreover have "timeval_us (timeval_addms a ms) = timeval_us a + 1000 * ms"
  proof -
    have "ms div 1000 * 1000000 + ms mod 1000 * 1000 = 1000 * ms" using ms(1) by linarith
    with assms(3) show ?thesis by (simp add: timeval_us_def timeval_addms_def Let_def)
  qed
  ultimately show ?thesis
    using assms(1,2)
    by (auto simp: timeval_ok_def timeval_us_def timeval_diff_def Let_def)
qed

theorem timeval_arithmetic_witness:
  "timeval_us (timeval_addms \<lparr>tv_sec = 5, tv_usec = 999000\<rparr> 1001) = 7000000"
  using timeval_arithmetic [of "\<lparr>tv_sec = 5, tv_usec = 999000\<rparr>"
      "\<lparr>tv_sec = 6, tv_usec = 0\<rparr>" 1001]
  by (simp add: timeval_ok_def timeval_us_def)

text \<open>A negative delay leaves the microseconds negative: the borrow is missing.\<close>

lemma timeval_addms_negative: "\<not> timeval_ok (timeval_addms \<lparr>tv_sec = 5, tv_usec = 0\<rparr> (- 1))"
  by (simp add: timeval_ok_def timeval_addms_def c_div_def c_mod_def Let_def)

end
