(* ===== verification/Containers.thy ===== *)
theory Containers
  imports Prelude
begin

text \<open>
  The containers of \<^verbatim>\<open>network/util.c\<close>: growable byte arrays, singly linked lists and
  pointer stacks.

  An array keeps \<^verbatim>\<open>alloc\<close> bytes of storage of which the first \<^verbatim>\<open>nbytes\<close> hold data; the
  model's \<open>data\<close> is that initialised prefix, since no operation reads past it. A list is
  the sequence of its \<^verbatim>\<open>data\<close> fields along \<^verbatim>\<open>next\<close>. A stack keeps the slots written so
  far: lowering \<^verbatim>\<open>count\<close> leaves the slot in place, as the C code does.
\<close>

subsection \<open>Growable arrays\<close>

record array =
  elemsize :: nat
  alloc :: nat
  nbytes :: nat
  data :: "byte list"

definition array_new :: "nat \<Rightarrow> int \<Rightarrow> array" where
  "array_new es initroom =
     \<lparr>elemsize = es, alloc = (if 0 < initroom then es * nat initroom else 1024),
      nbytes = 0, data = []\<rparr>"

definition array_equals :: "array \<Rightarrow> array \<Rightarrow> bool" where
  "array_equals a b \<longleftrightarrow>
     elemsize a = elemsize b \<and> nbytes a = nbytes b \<and> data a = data b"

text \<open>
  The doubling loop of \<^verbatim>\<open>array_mkroom\<close>. It never ends when \<open>alloc\<close> is 0, and doubling
  past \<^verbatim>\<open>INT_MAX\<close> is a signed overflow; both are \<open>None\<close>.
\<close>

partial_function (option) grow_alloc :: "nat \<Rightarrow> nat \<Rightarrow> nat option" where
  "grow_alloc need al =
     (if need > al
      then (if al * 2 > INT_MAX then None else grow_alloc need (al * 2))
      else Some al)"

definition array_mkroom :: "array \<Rightarrow> nat \<Rightarrow> array option" where
  "array_mkroom arr sz =
     (if nbytes arr + sz > INT_MAX then None
      else if nbytes arr + sz > alloc arr
      then do { al \<leftarrow> grow_alloc (nbytes arr + sz) (alloc arr); Some (arr\<lparr>alloc := al\<rparr>) }
      else Some arr)"

definition array_append :: "array \<Rightarrow> byte list \<Rightarrow> array option" where
  "array_append arr bs =
     do { arr' \<leftarrow> array_mkroom arr (length bs);
          Some (arr'\<lparr>data := take (nbytes arr') (data arr') @ bs,
                     nbytes := nbytes arr' + length bs\<rparr>) }"

definition array_remove_data :: "array \<Rightarrow> nat \<Rightarrow> array option" where
  "array_remove_data arr n =
     (if n \<le> nbytes arr
      then Some (arr\<lparr>data := drop n (data arr), nbytes := nbytes arr - n\<rparr>)
      else None)"

definition array_remove_items :: "array \<Rightarrow> nat \<Rightarrow> array option" where
  "array_remove_items arr cnt = array_remove_data arr (cnt * elemsize arr)"

definition array_count :: "array \<Rightarrow> nat option" where
  "array_count arr = (if elemsize arr = 0 then None else Some (nbytes arr div elemsize arr))"

definition array_item :: "array \<Rightarrow> nat \<Rightarrow> byte list option" where
  "array_item arr i =
     (if i * elemsize arr + elemsize arr \<le> nbytes arr
      then Some (take (elemsize arr) (drop (i * elemsize arr) (data arr)))
      else None)"

definition array_wf :: "array \<Rightarrow> bool" where
  "array_wf arr \<longleftrightarrow>
     0 < elemsize arr \<and> 0 < alloc arr \<and> alloc arr \<le> INT_MAX \<and>
     length (data arr) = nbytes arr \<and> nbytes arr \<le> alloc arr"

subsection \<open>Linked lists\<close>

fun list_copy :: "('a \<Rightarrow> 'b) \<Rightarrow> 'a list \<Rightarrow> 'b list" where
  "list_copy copy [] = []"
| "list_copy copy (x # orig) = copy x # list_copy copy orig"

fun list_append :: "'a list \<Rightarrow> 'a \<Rightarrow> 'a list" where
  "list_append [] x = [x]"
| "list_append (y # ys) x = y # list_append ys x"

definition list_push :: "'a list \<Rightarrow> 'a \<Rightarrow> 'a list" where
  "list_push l x = x # l"

definition list_pop :: "'a list \<Rightarrow> 'a option \<times> 'a list" where
  "list_pop l = (case l of [] \<Rightarrow> (None, []) | x # xs \<Rightarrow> (Some x, xs))"

fun list_count_from :: "nat \<Rightarrow> 'a list \<Rightarrow> nat" where
  "list_count_from cnt [] = cnt"
| "list_count_from cnt (x # l) = list_count_from (cnt + 1) l"

definition list_count :: "'a list \<Rightarrow> nat" where
  "list_count l = list_count_from 0 l"

fun list_item :: "'a list \<Rightarrow> nat \<Rightarrow> 'a option" where
  "list_item [] item = None"
| "list_item (x # l) 0 = Some x"
| "list_item (x # l) (Suc item) = (if l = [] then None else list_item l item)"

fun list_contains_string :: "string option list \<Rightarrow> string option \<Rightarrow> bool" where
  "list_contains_string [] str = False"
| "list_contains_string (d # l) str =
     (if (str = None \<and> d = None) \<or> (str \<noteq> None \<and> d \<noteq> None \<and> the str = the d) then True
      else list_contains_string l str)"

fun list_contains_ptr :: "'a list \<Rightarrow> 'a \<Rightarrow> bool" where
  "list_contains_ptr [] p = False"
| "list_contains_ptr (d # l) p = (if d = p then True else list_contains_ptr l p)"

fun list_unlink_ptr :: "'a list \<Rightarrow> 'a \<Rightarrow> 'a list option" where
  "list_unlink_ptr [] p = None"
| "list_unlink_ptr (d # l) p =
     (if d \<noteq> p then map_option ((#) d) (list_unlink_ptr l p) else Some l)"

definition list_remove_ptr :: "'a list \<Rightarrow> 'a \<Rightarrow> 'a list option" where
  "list_remove_ptr l p = (if list_contains_ptr l p then list_unlink_ptr l p else None)"

subsection \<open>Pointer stacks\<close>

definition STACK_LIMIT :: int where
  "STACK_LIMIT = 10240"

record 'a stack =
  stk_alloc :: nat
  stk_count :: nat
  stk_limit :: int
  stk_data :: "'a list"

definition stack_new :: "'a stack" where
  "stack_new = \<lparr>stk_alloc = 1, stk_count = 0, stk_limit = STACK_LIMIT, stk_data = []\<rparr>"

definition stack_store :: "'a stack \<Rightarrow> 'a \<Rightarrow> 'a stack" where
  "stack_store s c =
     s\<lparr>stk_data := (if stk_count s < length (stk_data s)
                    then (stk_data s)[stk_count s := c] else stk_data s @ [c]),
       stk_count := stk_count s + 1\<rparr>"

definition stack_push :: "'a stack \<Rightarrow> 'a \<Rightarrow> 'a stack option" where
  "stack_push s c =
     (if stk_count s = stk_alloc s
      then (if 0 \<le> stk_limit s \<and> int (stk_count s) \<ge> stk_limit s then None
            else Some (stack_store (s\<lparr>stk_alloc := stk_alloc s * 2\<rparr>) c))
      else Some (stack_store s c))"

definition stack_pop :: "'a stack \<Rightarrow> ('a \<times> 'a stack) option" where
  "stack_pop s =
     (if 0 < stk_count s
      then Some (stk_data s ! (stk_count s - 1), s\<lparr>stk_count := stk_count s - 1\<rparr>)
      else None)"

definition stack_items :: "'a stack \<Rightarrow> 'a list" where
  "stack_items s = take (stk_count s) (stk_data s)"

definition stack_wf :: "'a stack \<Rightarrow> bool" where
  "stack_wf s \<longleftrightarrow>
     stk_count s \<le> length (stk_data s) \<and> length (stk_data s) \<le> stk_alloc s \<and>
     stk_limit s = STACK_LIMIT \<and> (\<exists>k \<le> 14. stk_alloc s = 2 ^ k)"

subsection \<open>Arrays: growth and contents\<close>

lemma grow_alloc_stop: "need \<le> al \<Longrightarrow> grow_alloc need al = Some al"
  by (simp add: grow_alloc.simps)

lemma grow_alloc_step:
  "al < need \<Longrightarrow> al * 2 \<le> INT_MAX \<Longrightarrow> grow_alloc need al = grow_alloc need (al * 2)"
  by (subst grow_alloc.simps) simp

lemma grow_alloc_returns:
  "0 < al \<Longrightarrow> al \<le> INT_MAX \<Longrightarrow> need \<le> 2 ^ 30 \<Longrightarrow>
   \<exists>k. grow_alloc need al = Some (al * 2 ^ k) \<and> need \<le> al * 2 ^ k \<and> al * 2 ^ k \<le> INT_MAX
       \<and> (\<forall>j < k. al * 2 ^ j < need)"
proof (induction "need - al" arbitrary: al rule: less_induct)
  case less
  show ?case
  proof (cases "need \<le> al")
    case True
    then show ?thesis using less.prems by (intro exI [of _ 0]) (simp add: grow_alloc_stop)
  next
    case False
    then have ub: "al * 2 \<le> INT_MAX"
      using less.prems(3) by (simp add: INT_MAX_def)
    have "need - al * 2 < need - al" and "0 < al * 2"
      using False less.prems(1) by simp_all
    from less.hyps [OF this ub less.prems(3)] obtain k where k:
      "grow_alloc need (al * 2) = Some (al * 2 * 2 ^ k)" "need \<le> al * 2 * 2 ^ k"
      "al * 2 * 2 ^ k \<le> INT_MAX" "\<forall>j < k. al * 2 * 2 ^ j < need"
      by blast
    have "\<forall>j < Suc k. al * 2 ^ j < need"
      using k(4) False by (auto simp: less_Suc_eq_0_disj mult.assoc)
    then show ?thesis
      using k False ub by (intro exI [of _ "Suc k"]) (simp add: grow_alloc_step mult.assoc)
  qed
qed

lemma array_mkroom_ok:
  assumes "array_wf arr" and "nbytes arr + sz \<le> 2 ^ 30"
  shows "\<exists>al. array_mkroom arr sz = Some (arr\<lparr>alloc := al\<rparr>) \<and>
              nbytes arr + sz \<le> al \<and> alloc arr \<le> al \<and> al \<le> INT_MAX"
proof -
  have al: "0 < alloc arr" "alloc arr \<le> INT_MAX"
    using assms(1) by (simp_all add: array_wf_def)
  have imx: "nbytes arr + sz \<le> INT_MAX"
    using assms(2) by (simp add: INT_MAX_def)
  obtain k where "grow_alloc (nbytes arr + sz) (alloc arr) = Some (alloc arr * 2 ^ k)"
    "nbytes arr + sz \<le> alloc arr * 2 ^ k" "alloc arr * 2 ^ k \<le> INT_MAX"
    using grow_alloc_returns [OF al assms(2)] by blast
  note grown = this
  show ?thesis
  proof (cases "nbytes arr + sz \<le> alloc arr")
    case True
    with imx al show ?thesis by (intro exI [of _ "alloc arr"]) (simp add: array_mkroom_def)
  next
    case False
    with imx al grown show ?thesis
      by (intro exI [of _ "alloc arr * 2 ^ k"]) (simp add: array_mkroom_def)
  qed
qed

lemma array_append_contents:
  assumes "array_wf arr" and "nbytes arr + length bs \<le> 2 ^ 30"
  shows "\<exists>arr'. array_append arr bs = Some arr' \<and> array_wf arr' \<and>
                data arr' = data arr @ bs \<and> elemsize arr' = elemsize arr"
proof -
  obtain al where "array_mkroom arr (length bs) = Some (arr\<lparr>alloc := al\<rparr>)"
    "nbytes arr + length bs \<le> al" "alloc arr \<le> al" "al \<le> INT_MAX"
    using array_mkroom_ok [OF assms] by blast
  then show ?thesis
    using assms(1) by (auto simp: array_append_def array_wf_def)
qed

lemma array_remove_data_ok:
  "array_wf arr \<Longrightarrow> n \<le> nbytes arr \<Longrightarrow>
   \<exists>arr'. array_remove_data arr n = Some arr' \<and> array_wf arr' \<and>
          data arr' = drop n (data arr) \<and> elemsize arr' = elemsize arr"
  by (auto simp: array_remove_data_def array_wf_def)

lemma array_new_wf: "0 < es \<Longrightarrow> es * nat initroom \<le> INT_MAX \<Longrightarrow> array_wf (array_new es initroom)"
  by (auto simp: array_wf_def array_new_def INT_MAX_def)

lemma array_count_items: "array_wf arr \<Longrightarrow> array_count arr = Some (length (data arr) div elemsize arr)"
  by (simp add: array_count_def array_wf_def)

text \<open>
  An array used with one element type: every element is written by the same fixed-width
  encoding, and the array then behaves as the list of its elements.
\<close>

definition array_holds :: "('a \<Rightarrow> byte list) \<Rightarrow> nat \<Rightarrow> array \<Rightarrow> 'a list \<Rightarrow> bool" where
  "array_holds enc k arr xs \<longleftrightarrow>
     array_wf arr \<and> elemsize arr = k \<and> data arr = concat (map enc xs)"

locale item_array =
  fixes enc :: "'a \<Rightarrow> byte list" and k :: nat
  assumes enc_length: "length (enc x) = k" and k_pos: "0 < k"
begin

lemma holds_nbytes: "array_holds enc k arr xs \<Longrightarrow> nbytes arr = k * length xs"
  by (auto simp: array_holds_def array_wf_def concat_map_const_length enc_length
      dest: sym)

lemma holds_new: "k * nat room \<le> INT_MAX \<Longrightarrow> array_holds enc k (array_new k room) []"
  using k_pos by (simp add: array_holds_def array_new_wf) (simp add: array_new_def)

lemma holds_append:
  assumes "array_holds enc k arr xs" and "k * (length xs + 1) \<le> 2 ^ 30"
  shows "\<exists>arr'. array_append arr (enc x) = Some arr' \<and> array_holds enc k arr' (xs @ [x])"
proof -
  have "nbytes arr + length (enc x) \<le> 2 ^ 30"
    using assms by (simp add: holds_nbytes enc_length)
  from array_append_contents [OF _ this] assms(1) show ?thesis
    by (auto simp: array_holds_def)
qed

lemma holds_count: "array_holds enc k arr xs \<Longrightarrow> array_count arr = Some (length xs)"
  using k_pos
  by (auto simp: array_holds_def array_count_items concat_map_const_length enc_length)

lemma holds_item:
  assumes "array_holds enc k arr xs" and "i < length xs"
  shows "array_item arr i = Some (enc (xs ! i))"
proof -
  have "i * k + k = (i + 1) * k" by simp
  also have "\<dots> \<le> length xs * k"
    using assms(2) by (intro mult_le_mono1) simp
  finally have "i * k + k \<le> nbytes arr"
    by (simp add: holds_nbytes [OF assms(1)] mult.commute)
  then show ?thesis
    using assms by (simp add: array_item_def array_holds_def take_drop_concat_map enc_length)
qed

lemma holds_remove_items:
  assumes "array_holds enc k arr xs" and "n \<le> length xs"
  shows "\<exists>arr'. array_remove_items arr n = Some arr' \<and> array_holds enc k arr' (drop n xs)"
proof -
  have n: "n * k \<le> nbytes arr"
    using assms by (simp add: holds_nbytes mult.commute)
  have arr: "elemsize arr = k" "array_wf arr" "drop (n * k) (data arr) = concat (map enc (drop n xs))"
    using assms(1) by (simp_all add: array_holds_def drop_concat_map enc_length)
  from array_remove_data_ok [OF arr(2) n] arr show ?thesis
    by (auto simp: array_remove_items_def array_holds_def)
qed

end

interpretation int_items: item_array le32 4
  by unfold_locales simp_all

subsection \<open>Lists: each routine against the list operation it implements\<close>

lemma list_copy_map [simp]: "list_copy f l = map f l"
  by (induction l) simp_all

lemma list_append_snoc [simp]: "list_append l x = l @ [x]"
  by (induction l) simp_all

lemma list_count_from_length: "list_count_from n l = n + length l"
  by (induction l arbitrary: n) simp_all

lemma list_count_length [simp]: "list_count l = length l"
  by (simp add: list_count_def list_count_from_length)

lemma list_item_nth: "list_item l i = (if i < length l then Some (l ! i) else None)"
  by (induction l i rule: list_item.induct) auto

lemma list_contains_string_iff [simp]: "list_contains_string l s \<longleftrightarrow> s \<in> set l"
  by (induction l) auto

lemma list_contains_ptr_iff [simp]: "list_contains_ptr l p \<longleftrightarrow> p \<in> set l"
  by (induction l) auto

lemma list_unlink_ptr_remove1: "p \<in> set l \<Longrightarrow> list_unlink_ptr l p = Some (remove1 p l)"
  by (induction l) auto

lemma list_remove_ptr_spec:
  "list_remove_ptr l p = (if p \<in> set l then Some (remove1 p l) else None)"
  by (simp add: list_remove_ptr_def list_unlink_ptr_remove1)

subsection \<open>Stacks: a bounded last-in first-out store\<close>

locale bounded_stack =
  fixes empty :: "'s" and push :: "'s \<Rightarrow> 'a \<Rightarrow> 's option" and pop :: "'s \<Rightarrow> ('a \<times> 's) option"
    and items :: "'s \<Rightarrow> 'a list" and inv :: "'s \<Rightarrow> bool" and cap :: nat
  assumes inv_empty: "inv empty"
    and items_empty: "items empty = []"
    and push_room: "inv s \<Longrightarrow> length (items s) < cap \<Longrightarrow>
          \<exists>s'. push s c = Some s' \<and> inv s' \<and> items s' = items s @ [c]"
    and push_full: "inv s \<Longrightarrow> cap \<le> length (items s) \<Longrightarrow> push s c = None"
    and pop_item: "inv s \<Longrightarrow> items s = xs @ [x] \<Longrightarrow>
          \<exists>s'. pop s = Some (x, s') \<and> inv s' \<and> items s' = xs"
    and pop_empty: "inv s \<Longrightarrow> items s = [] \<Longrightarrow> pop s = None"
begin

lemma push_fails_iff: "inv s \<Longrightarrow> push s c = None \<longleftrightarrow> cap \<le> length (items s)"
  using push_room push_full by (metis not_le option.distinct(1))

lemma push_then_pop:
  assumes "inv s" and "length (items s) < cap"
  shows "\<exists>s1 s2. push s c = Some s1 \<and> pop s1 = Some (c, s2) \<and> inv s2 \<and> items s2 = items s"
proof -
  obtain s1 where s1: "push s c = Some s1" "inv s1" "items s1 = items s @ [c]"
    using push_room [OF assms] by blast
  with pop_item [OF s1(2,3)] show ?thesis by blast
qed

end

lemma stack_store_items:
  "stk_count s \<le> length (stk_data s) \<Longrightarrow> stack_items (stack_store s c) = stack_items s @ [c]"
  by (auto simp: stack_items_def stack_store_def take_Suc_snoc)

lemma stack_items_length: "stack_wf s \<Longrightarrow> length (stack_items s) = stk_count s"
  by (simp add: stack_items_def stack_wf_def)

lemma stack_new_wf: "stack_wf stack_new"
  by (auto simp: stack_wf_def stack_new_def intro: exI [of _ 0])

lemma stack_store_wf:
  "stack_wf s \<Longrightarrow> stk_count s < stk_alloc s \<Longrightarrow> stack_wf (stack_store s c)"
  by (auto simp: stack_wf_def stack_store_def)

lemma stack_grow_wf:
  assumes "stack_wf s" and "int (stk_alloc s) < STACK_LIMIT"
  shows "stack_wf (s\<lparr>stk_alloc := stk_alloc s * 2\<rparr>)"
proof -
  obtain k where k: "k \<le> 14" "stk_alloc s = 2 ^ k"
    using assms(1) by (auto simp: stack_wf_def)
  with assms(2) have "k \<noteq> 14" by (auto simp: STACK_LIMIT_def)
  with k have "Suc k \<le> 14" "stk_alloc s * 2 = 2 ^ Suc k" by simp_all
  with assms(1) show ?thesis unfolding stack_wf_def by fastforce
qed

lemma stack_full_iff:
  assumes "stack_wf s"
  shows "stk_count s = stk_alloc s \<and> STACK_LIMIT \<le> int (stk_count s) \<longleftrightarrow> 16384 \<le> stk_count s"
proof -
  obtain k where k: "k \<le> 14" "stk_alloc s = 2 ^ k" and le: "stk_count s \<le> stk_alloc s"
    using assms by (auto simp: stack_wf_def)
  have "k = 14 \<or> (2::nat) ^ k \<le> 8192"
    using k(1) power_increasing [of k 13 "2::nat"] by fastforce
  then show ?thesis using k le by (auto simp: STACK_LIMIT_def)
qed

lemma stack_push_spec:
  assumes "stack_wf s"
  shows "if stk_count s < 16384
         then \<exists>s'. stack_push s c = Some s' \<and> stack_wf s' \<and> stack_items s' = stack_items s @ [c]
         else stack_push s c = None"
proof -
  have lim: "stk_limit s = STACK_LIMIT" "0 \<le> STACK_LIMIT"
    and le: "stk_count s \<le> length (stk_data s)" "stk_count s \<le> stk_alloc s"
    using assms by (auto simp: stack_wf_def STACK_LIMIT_def)
  show ?thesis
  proof (cases "stk_count s = stk_alloc s")
    case False
    with le have "stk_count s < stk_alloc s" by simp
    with assms le False stack_full_iff [OF assms] show ?thesis
      by (auto simp: stack_push_def stack_store_wf stack_store_items)
  next
    case True
    let ?s = "s\<lparr>stk_alloc := stk_alloc s * 2\<rparr>"
    have wf: "stack_wf ?s" if "int (stk_alloc s) < STACK_LIMIT"
      using assms that by (rule stack_grow_wf)
    have room: "stk_count ?s < stk_alloc ?s"
      using True assms by (auto simp: stack_wf_def)
    from True lim stack_full_iff [OF assms] wf room le show ?thesis
      by (auto simp: stack_push_def stack_store_wf stack_store_items)
        (simp_all add: stack_items_def)
  qed
qed

lemma stack_pop_spec:
  "stack_wf s \<Longrightarrow> stack_items s = xs @ [x] \<Longrightarrow>
   \<exists>s'. stack_pop s = Some (x, s') \<and> stack_wf s' \<and> stack_items s' = xs"
  by (cases "stk_count s")
    (auto simp: stack_pop_def stack_wf_def stack_items_def take_Suc_snoc)

interpretation stk: bounded_stack stack_new stack_push stack_pop stack_items stack_wf 16384
proof (unfold_locales, goal_cases)
  case 1 show ?case by (rule stack_new_wf)
next
  case 2 show ?case by (simp add: stack_items_def stack_new_def)
next
  case (3 s c) then show ?case using stack_push_spec [of s c] by (simp add: stack_items_length)
next
  case (4 s c) then show ?case using stack_push_spec [of s c] by (simp add: stack_items_length)
next
  case (5 s xs x) then show ?case by (rule stack_pop_spec)
next
  case (6 s) then show ?case by (simp add: stack_pop_def stack_items_length [symmetric])
qed

text \<open>The compiler passes keep the names in scope on such stacks, and leave a scope by setting the count
  back. They use a stack as the list of its items, the last one first: pushing fails at the limit,
  whatever the allocated size was before.\<close>

definition STACK_MAX :: int where
  "STACK_MAX = 16384"

definition stack_room :: "nat \<Rightarrow> bool" where
  "stack_room n \<longleftrightarrow> int n \<le> STACK_MAX"

definition push_item :: "'a list \<Rightarrow> 'a \<Rightarrow> 'a list option" where
  "push_item xs x = (if stack_room (Suc (length xs)) then Some (x # xs) else None)"

fun push_items :: "'a list \<Rightarrow> 'a list \<Rightarrow> 'a list option" where
  "push_items xs [] = Some xs"
| "push_items xs (y # ys) = Option.bind (push_item xs y) (\<lambda>xs1. push_items xs1 ys)"

lemma push_item_refines:
  assumes "stack_wf s" and "stack_items s = rev xs"
  shows "case push_item xs c of
      Some ys \<Rightarrow> \<exists>s'. stack_push s c = Some s' \<and> stack_wf s' \<and> stack_items s' = rev ys
    | None \<Rightarrow> stack_push s c = None"
  using stk.push_room [OF assms(1), of c] stk.push_full [OF assms(1), of c] assms(2)
  by (simp add: push_item_def stack_room_def STACK_MAX_def)

lemma stack_cut_back:
  "stack_wf s \<Longrightarrow> n \<le> stk_count s \<Longrightarrow> stack_wf (s\<lparr>stk_count := n\<rparr>) \<and> stack_items (s\<lparr>stk_count := n\<rparr>) = take n (stack_items s)"
  by (auto simp: stack_wf_def stack_items_def min_def)

lemma stack_room_mono: "stack_room n \<Longrightarrow> m \<le> n \<Longrightarrow> stack_room m"
  by (simp add: stack_room_def)

lemma stack_room_small [simp]: "stack_room 0" "stack_room (Suc 0)"
  by (simp_all add: stack_room_def STACK_MAX_def)

lemma push_item_room: "stack_room (length xs + Suc n) \<Longrightarrow> push_item xs x = Some (x # xs)"
  by (simp add: push_item_def stack_room_def)

lemma push_item_Some: "push_item xs x = Some ys \<longleftrightarrow> stack_room (Suc (length xs)) \<and> ys = x # xs"
  by (auto simp: push_item_def)

lemma push_items_Some: "stack_room (length xs) \<Longrightarrow> push_items xs ys = Some zs \<longleftrightarrow> stack_room (length xs + length ys) \<and> zs = rev ys @ xs"
proof (induction ys arbitrary: xs)
  case (Cons y ys)
  show ?case
  proof (cases "stack_room (Suc (length xs))")
    case True
    then show ?thesis using Cons.IH [of "y # xs"] by (simp add: push_item_def)
  next
    case False
    then show ?thesis by (auto simp: push_item_def dest: stack_room_mono [of _ "Suc (length xs)"])
  qed
qed auto

lemma push_items_room: "stack_room (length xs + length ys + n) \<Longrightarrow> push_items xs ys = Some (rev ys @ xs)"
  using push_items_Some [of xs ys "rev ys @ xs"] stack_room_mono by (metis add.assoc le_add1)

lemma push_items_None: "stack_room (length xs) \<Longrightarrow> push_items xs ys = None \<longleftrightarrow> \<not> stack_room (length xs + length ys)"
  using push_items_Some [of xs ys] by (cases "push_items xs ys") auto

end
