(* ===== verification/Builtin_Table.thy ===== *)
theory Builtin_Table
  imports Prelude
begin

text \<open>
  The table of built-in functions of \<^verbatim>\<open>runtime/builtins.c\<close> and the \<^verbatim>\<open>B_\<close> constants of
  \<^verbatim>\<open>runtime/runtime.h\<close> that index it. The compiler passes read the name, the number of
  arguments and the number of leading strict arguments; of the last column of the C table, the
  implementing function, the model keeps the name.
\<close>

datatype reteval = ALWAYS_VALUE | MAYBE_UNEVAL

datatype rettrue = ALWAYS_TRUE | MAYBE_FALSE

datatype purity = PURE | IMPURE

record builtin =
  bi_name :: string
  bi_nargs :: nat
  bi_nstrict :: nat
  bi_reteval :: reteval
  bi_rettrue :: rettrue
  bi_purity :: purity
  bi_f :: string

definition builtin_row :: "string \<Rightarrow> nat \<Rightarrow> nat \<Rightarrow> reteval \<Rightarrow> rettrue \<Rightarrow> purity \<Rightarrow> string \<Rightarrow> builtin" where
  "builtin_row name nargs nstrict re rt pu f =
     \<lparr>bi_name = name, bi_nargs = nargs, bi_nstrict = nstrict,
      bi_reteval = re, bi_rettrue = rt, bi_purity = pu, bi_f = f\<rparr>"

definition builtin_info :: "builtin list" where
  "builtin_info =
    [builtin_row ''+'' 2 2 ALWAYS_VALUE ALWAYS_TRUE PURE ''b_add'',
     builtin_row ''-'' 2 2 ALWAYS_VALUE ALWAYS_TRUE PURE ''b_subtract'',
     builtin_row ''*'' 2 2 ALWAYS_VALUE ALWAYS_TRUE PURE ''b_multiply'',
     builtin_row ''/'' 2 2 ALWAYS_VALUE ALWAYS_TRUE PURE ''b_divide'',
     builtin_row ''%'' 2 2 ALWAYS_VALUE ALWAYS_TRUE PURE ''b_mod'',
     builtin_row ''=='' 2 2 ALWAYS_VALUE MAYBE_FALSE PURE ''b_eq'',
     builtin_row ''!='' 2 2 ALWAYS_VALUE MAYBE_FALSE PURE ''b_ne'',
     builtin_row ''<'' 2 2 ALWAYS_VALUE MAYBE_FALSE PURE ''b_lt'',
     builtin_row ''<='' 2 2 ALWAYS_VALUE MAYBE_FALSE PURE ''b_le'',
     builtin_row ''>'' 2 2 ALWAYS_VALUE MAYBE_FALSE PURE ''b_gt'',
     builtin_row ''>='' 2 2 ALWAYS_VALUE MAYBE_FALSE PURE ''b_ge'',
     builtin_row ''<<'' 2 2 ALWAYS_VALUE ALWAYS_TRUE PURE ''b_bitshl'',
     builtin_row ''>>'' 2 2 ALWAYS_VALUE ALWAYS_TRUE PURE ''b_bitshr'',
     builtin_row ''&'' 2 2 ALWAYS_VALUE ALWAYS_TRUE PURE ''b_bitand'',
     builtin_row ''|'' 2 2 ALWAYS_VALUE ALWAYS_TRUE PURE ''b_bitor'',
     builtin_row ''^'' 2 2 ALWAYS_VALUE ALWAYS_TRUE PURE ''b_bitxor'',
     builtin_row ''~'' 1 1 ALWAYS_VALUE ALWAYS_TRUE PURE ''b_bitnot'',
     builtin_row ''sqrt'' 1 1 ALWAYS_VALUE ALWAYS_TRUE PURE ''b_sqrt'',
     builtin_row ''floor'' 1 1 ALWAYS_VALUE ALWAYS_TRUE PURE ''b_floor'',
     builtin_row ''ceil'' 1 1 ALWAYS_VALUE ALWAYS_TRUE PURE ''b_ceil'',
     builtin_row ''ntos'' 1 1 ALWAYS_VALUE ALWAYS_TRUE PURE ''b_ntos'',
     builtin_row ''_ston'' 1 1 ALWAYS_VALUE ALWAYS_TRUE PURE ''b_ston'',
     builtin_row ''if'' 3 1 MAYBE_UNEVAL MAYBE_FALSE PURE ''b_if'',
     builtin_row ''and'' 2 2 ALWAYS_VALUE MAYBE_FALSE PURE ''b_and'',
     builtin_row ''or'' 2 2 ALWAYS_VALUE MAYBE_FALSE PURE ''b_or'',
     builtin_row ''not'' 1 1 ALWAYS_VALUE MAYBE_FALSE PURE ''b_not'',
     builtin_row ''cons'' 2 0 ALWAYS_VALUE ALWAYS_TRUE PURE ''b_cons'',
     builtin_row ''head'' 1 1 MAYBE_UNEVAL MAYBE_FALSE PURE ''b_head'',
     builtin_row ''tail'' 1 1 MAYBE_UNEVAL MAYBE_FALSE PURE ''b_tail'',
     builtin_row ''arraysize'' 1 1 MAYBE_UNEVAL ALWAYS_TRUE PURE ''b_arraysize'',
     builtin_row ''arrayskip'' 2 2 MAYBE_UNEVAL MAYBE_FALSE PURE ''b_arrayskip'',
     builtin_row ''arrayitem'' 2 2 MAYBE_UNEVAL MAYBE_FALSE PURE ''b_arrayitem'',
     builtin_row ''arrayprefix'' 3 2 MAYBE_UNEVAL MAYBE_FALSE PURE ''b_arrayprefix'',
     builtin_row ''arraystrcmp'' 2 2 ALWAYS_VALUE MAYBE_FALSE PURE ''b_arraystrcmp'',
     builtin_row ''teststring'' 1 0 ALWAYS_VALUE ALWAYS_TRUE PURE ''b_teststring'',
     builtin_row ''testarray'' 2 0 ALWAYS_VALUE ALWAYS_TRUE PURE ''b_testarray'',
     builtin_row ''seq'' 2 1 MAYBE_UNEVAL MAYBE_FALSE IMPURE ''b_seq'',
     builtin_row ''par'' 2 0 MAYBE_UNEVAL MAYBE_FALSE IMPURE ''b_par'',
     builtin_row ''parhead'' 2 1 MAYBE_UNEVAL MAYBE_FALSE IMPURE ''b_parhead'',
     builtin_row ''openfd'' 1 1 MAYBE_UNEVAL MAYBE_FALSE IMPURE ''b_openfd'',
     builtin_row ''readchunk'' 2 1 MAYBE_UNEVAL MAYBE_FALSE IMPURE ''b_readchunk'',
     builtin_row ''_readdir'' 1 1 MAYBE_UNEVAL MAYBE_FALSE IMPURE ''b_readdir'',
     builtin_row ''_exists'' 1 1 ALWAYS_VALUE MAYBE_FALSE IMPURE ''b_exists'',
     builtin_row ''_isdir'' 1 1 ALWAYS_VALUE MAYBE_FALSE IMPURE ''b_isdir'',
     builtin_row ''_connect'' 3 2 ALWAYS_VALUE MAYBE_FALSE IMPURE ''b_connect'',
     builtin_row ''readcon'' 2 1 ALWAYS_VALUE MAYBE_FALSE IMPURE ''b_readcon'',
     builtin_row ''_listen'' 1 1 ALWAYS_VALUE MAYBE_FALSE IMPURE ''b_listen'',
     builtin_row ''accept'' 2 1 ALWAYS_VALUE MAYBE_FALSE IMPURE ''b_accept'',
     builtin_row ''nchars'' 1 1 ALWAYS_VALUE MAYBE_FALSE PURE ''b_nchars'',
     builtin_row ''print'' 2 2 MAYBE_UNEVAL MAYBE_FALSE IMPURE ''b_print'',
     builtin_row ''printarray'' 3 3 MAYBE_UNEVAL MAYBE_FALSE IMPURE ''b_printarray'',
     builtin_row ''printend'' 1 1 MAYBE_UNEVAL MAYBE_FALSE IMPURE ''b_printend'',
     builtin_row ''_error'' 1 1 ALWAYS_VALUE MAYBE_FALSE IMPURE ''b_error'',
     builtin_row ''getoutput'' 1 1 ALWAYS_VALUE MAYBE_FALSE IMPURE ''b_getoutput'',
     builtin_row ''genid'' 1 1 ALWAYS_VALUE ALWAYS_TRUE IMPURE ''b_genid'',
     builtin_row ''exit'' 1 1 ALWAYS_VALUE MAYBE_FALSE IMPURE ''b_exit'',
     builtin_row ''abs'' 1 1 ALWAYS_VALUE ALWAYS_TRUE PURE ''b_abs'',
     builtin_row ''_jnew'' 2 2 ALWAYS_VALUE MAYBE_FALSE IMPURE ''b_jnew'',
     builtin_row ''_jcall'' 3 3 ALWAYS_VALUE MAYBE_FALSE IMPURE ''b_jcall'',
     builtin_row ''iscons'' 1 1 ALWAYS_VALUE MAYBE_FALSE PURE ''b_iscons'',
     builtin_row ''_cxslt'' 2 2 ALWAYS_VALUE MAYBE_FALSE PURE ''b_cxslt'',
     builtin_row ''_cache'' 2 1 ALWAYS_VALUE MAYBE_FALSE IMPURE ''b_cache'',
     builtin_row ''connpair'' 1 1 ALWAYS_VALUE MAYBE_FALSE IMPURE ''b_connpair'',
     builtin_row ''mkconn'' 1 1 ALWAYS_VALUE MAYBE_FALSE IMPURE ''b_mkconn'',
     builtin_row ''_spawn'' 2 2 ALWAYS_VALUE MAYBE_FALSE IMPURE ''b_spawn'',
     builtin_row ''_compile'' 2 2 ALWAYS_VALUE MAYBE_FALSE PURE ''b_compile'',
     builtin_row ''isspace'' 1 1 ALWAYS_VALUE MAYBE_FALSE PURE ''b_isspace'',
     builtin_row ''lcons'' 2 0 ALWAYS_VALUE ALWAYS_TRUE PURE ''b_cons'',
     builtin_row ''restring'' 1 1 ALWAYS_VALUE MAYBE_FALSE PURE ''b_restring'',
     builtin_row ''buildarray'' 3 2 ALWAYS_VALUE MAYBE_FALSE PURE ''b_buildarray'',
     builtin_row ''parsexmlfile'' 1 1 ALWAYS_VALUE MAYBE_FALSE PURE ''b_parsexmlfile'',
     builtin_row ''genstring'' 1 1 ALWAYS_VALUE MAYBE_FALSE PURE ''b_genstring'']"

definition NUM_BUILTINS :: nat where
  "NUM_BUILTINS = 72"

fun find_builtin :: "nat \<Rightarrow> builtin list \<Rightarrow> string \<Rightarrow> int" where
  "find_builtin i [] name = - 1"
| "find_builtin i (b # bs) name = (if name = bi_name b then int i else find_builtin (i + 1) bs name)"

definition get_builtin :: "string \<Rightarrow> int" where
  "get_builtin name = find_builtin 0 builtin_info name"

text \<open>All of the constants, by what follows \<^verbatim>\<open>B_\<close> in their names; those that the compiler passes use
  have definitions of their own.\<close>

definition builtin_numbers :: "(string \<times> nat) list" where
  "builtin_numbers =
    [(''ADD'', 0), (''SUBTRACT'', 1), (''MULTIPLY'', 2), (''DIVIDE'', 3), (''MOD'', 4),
     (''EQ'', 5), (''NE'', 6), (''LT'', 7), (''LE'', 8), (''GT'', 9),
     (''GE'', 10), (''BITSHL'', 11), (''BITSHR'', 12), (''BITAND'', 13), (''BITOR'', 14),
     (''BITXOR'', 15), (''BITNOT'', 16), (''SQRT'', 17), (''FLOOR'', 18), (''CEIL'', 19),
     (''NTOS'', 20), (''STON'', 21), (''IF'', 22), (''AND'', 23), (''OR'', 24),
     (''NOT'', 25), (''CONS'', 26), (''HEAD'', 27), (''TAIL'', 28), (''ARRAYSIZE'', 29),
     (''ARRAYSKIP'', 30), (''ARRAYITEM'', 31), (''ARRAYPREFIX'', 32), (''STRCMP1'', 33), (''TESTSTRING'', 34),
     (''TESTARRAY'', 35), (''SEQ'', 36), (''PAR'', 37), (''PARHEAD'', 38), (''OPENFD'', 39),
     (''READCHUNK'', 40), (''READDIR1'', 41), (''FEXISTS'', 42), (''FISDIR'', 43), (''OPENCON'', 44),
     (''READCON'', 45), (''STARTLISTEN'', 46), (''ACCEPT'', 47), (''NCHARS'', 48), (''PRINT'', 49),
     (''PRINTARRAY'', 50), (''PRINTEND'', 51), (''ERROR'', 52), (''GETOUTPUT'', 53), (''GENID'', 54),
     (''EXIT'', 55), (''ABS'', 56), (''JNEW'', 57), (''JCALL'', 58), (''ISCONS'', 59),
     (''CXSLT1'', 60), (''CACHE'', 61), (''CONNPAIR'', 62), (''MKCONN'', 63), (''SPAWN'', 64),
     (''COMPILE'', 65), (''ISSPACE'', 66), (''LCONS'', 67), (''RESTRING'', 68), (''BUILDARRAY'', 69),
     (''PARSEXMLFILE'', 70), (''GENSTRING'', 71)]"

definition B_IF :: nat where
  "B_IF = 22"

definition B_CONS :: nat where
  "B_CONS = 26"

definition B_HEAD :: nat where
  "B_HEAD = 27"

definition B_SEQ :: nat where
  "B_SEQ = 36"

definition B_PAR :: nat where
  "B_PAR = 37"

definition B_LCONS :: nat where
  "B_LCONS = 67"

definition B_BUILDARRAY :: nat where
  "B_BUILDARRAY = 69"

subsection \<open>Lookup\<close>

lemma length_builtin_info [simp]: "length builtin_info = NUM_BUILTINS"
  by (simp add: builtin_info_def NUM_BUILTINS_def)

lemma find_builtin_Some:
  "find_builtin i bs name = int j \<Longrightarrow> i \<le> j \<and> j < i + length bs \<and> bi_name (bs ! (j - i)) = name"
proof (induction bs arbitrary: i)
  case (Cons b bs)
  show ?case
  proof (cases "name = bi_name b")
    case True
    with Cons.prems show ?thesis by simp
  next
    case False
    with Cons.prems have "find_builtin (i + 1) bs name = int j" by simp
    from Cons.IH [OF this] have j: "i + 1 \<le> j" "j < i + 1 + length bs" "bi_name (bs ! (j - (i + 1))) = name"
      by simp_all
    then have "(b # bs) ! (j - i) = bs ! (j - (i + 1))"
      by (simp add: nth_Cons')
    with j show ?thesis by simp
  qed
qed simp

lemma find_builtin_range: "find_builtin i bs name = - 1 \<or> (\<exists>j. find_builtin i bs name = int j)"
  by (induction bs arbitrary: i) auto

lemma find_builtin_None: "find_builtin i bs name = - 1 \<longleftrightarrow> name \<notin> bi_name ` set bs"
  by (induction bs arbitrary: i) auto

lemma builtin_names_distinct: "distinct (map bi_name builtin_info)"
  by (simp add: builtin_info_def builtin_row_def)

lemma get_builtin_row:
  assumes "0 \<le> get_builtin name"
  shows "nat (get_builtin name) < NUM_BUILTINS \<and> bi_name (builtin_info ! nat (get_builtin name)) = name"
proof -
  obtain j where j: "get_builtin name = int j"
    using find_builtin_range [of 0 builtin_info name] assms by (auto simp: get_builtin_def)
  then have "j < NUM_BUILTINS \<and> bi_name (builtin_info ! j) = name"
    using find_builtin_Some [of 0 builtin_info name j] by (simp add: get_builtin_def)
  with j show ?thesis by simp
qed

subsection \<open>Properties\<close>

text \<open>The function that implements a built-in function is called after its constant, with eight
  exceptions. A letter (which has bit 6) becomes a small letter by its bit 5; a digit stays.\<close>

fun lower_char :: "char \<Rightarrow> char" where
  "lower_char (Char b0 b1 b2 b3 b4 b5 b6 b7) = Char b0 b1 b2 b3 b4 (b5 \<or> b6) b6 b7"

definition handler_exceptions :: "(string \<times> string) list" where
  "handler_exceptions =
    [(''STRCMP1'', ''b_arraystrcmp''), (''READDIR1'', ''b_readdir''), (''FEXISTS'', ''b_exists''), (''FISDIR'', ''b_isdir''),
     (''OPENCON'', ''b_connect''), (''STARTLISTEN'', ''b_listen''), (''CXSLT1'', ''b_cxslt''), (''LCONS'', ''b_cons'')]"

definition handler_name :: "string \<Rightarrow> string" where
  "handler_name c = (case map_of handler_exceptions c of Some f \<Rightarrow> f | None \<Rightarrow> ''b_'' @ map lower_char c)"

lemma builtin_numbers_rows: "map bi_f builtin_info = map (\<lambda>(c, n). handler_name c) builtin_numbers"
  by code_simp

lemma builtin_numbers_all: "map snd builtin_numbers = [0..<NUM_BUILTINS]"
  by code_simp

lemma builtin_constants:
  "list_all (\<lambda>p. p \<in> set builtin_numbers) [(''IF'', B_IF), (''CONS'', B_CONS), (''HEAD'', B_HEAD), (''SEQ'', B_SEQ), (''PAR'', B_PAR),
     (''LCONS'', B_LCONS), (''BUILDARRAY'', B_BUILDARRAY)]"
  by code_simp

lemma get_builtin_nth:
  assumes i: "i < NUM_BUILTINS"
  shows "get_builtin (bi_name (builtin_info ! i)) = int i"
proof -
  let ?n = "bi_name (builtin_info ! i)"
  have "?n \<in> bi_name ` set builtin_info" using i by simp
  then have "0 \<le> get_builtin ?n"
    using find_builtin_None [of 0 builtin_info ?n] find_builtin_range [of 0 builtin_info ?n]
    by (auto simp: get_builtin_def)
  then have r: "nat (get_builtin ?n) < NUM_BUILTINS" "bi_name (builtin_info ! nat (get_builtin ?n)) = ?n"
    using get_builtin_row by simp_all
  then have "nat (get_builtin ?n) = i"
    using builtin_names_distinct i by (metis distinct_conv_nth length_builtin_info length_map nth_map)
  with \<open>0 \<le> get_builtin ?n\<close> show ?thesis by simp
qed



end
