(* ===== verification/Syntax_Tree.thy ===== *)
theory Syntax_Tree
  imports Text_Util Containers Builtin_Table
begin

text \<open>
  The syntax trees of \<^verbatim>\<open>compiler/source.h\<close>, the \<^verbatim>\<open>source\<close> state that the passes share, and
  the state-changing helpers of \<^verbatim>\<open>compiler/source.c\<close> that do not parse.

  A pointer to a supercombinator is its position in the \<^verbatim>\<open>scombs\<close> array (its \<^verbatim>\<open>index\<close>
  field), so updating a supercombinator through any reference is one update of the array.
  A bucket of \<^verbatim>\<open>schash\<close> is the chain of supercombinators along \<^verbatim>\<open>hashnext\<close>, first element
  first. The links \<^verbatim>\<open>parent\<close>, \<^verbatim>\<open>nextuser\<close> and \<^verbatim>\<open>users\<close>, which only the sinking pass uses,
  are left out. A floating-point constant is its 64 bits.
\<close>

subsection \<open>Trees\<close>

record sourceloc =
  fileno :: int
  lineno :: int

abbreviation noloc :: sourceloc where
  "noloc \<equiv> \<lparr>fileno = - 1, lineno = - 1\<rparr>"

datatype snode =
    Empty sourceloc
  | Application sourceloc bool snode snode
  | Lambda sourceloc string snode
  | Builtin sourceloc nat
  | Symbol sourceloc string
  | LetrecNode sourceloc "letrec list" snode
  | Scref sourceloc nat
  | NilNode sourceloc
  | Number sourceloc "64 word"
  | StringNode sourceloc string
  | Wrap sourceloc snode
and letrec = Letrec (rec_name: string) (rec_value: snode) (rec_strict: bool) (rec_sc: "nat option")

primrec sl :: "snode \<Rightarrow> sourceloc" where
  "sl (Empty l) = l"
| "sl (Application l s a b) = l"
| "sl (Lambda l x b) = l"
| "sl (Builtin l f) = l"
| "sl (Symbol l x) = l"
| "sl (LetrecNode l rs b) = l"
| "sl (Scref l i) = l"
| "sl (NilNode l) = l"
| "sl (Number l d) = l"
| "sl (StringNode l v) = l"
| "sl (Wrap l t) = l"

record scomb =
  sc_name :: string
  sc_argnames :: "string list"
  sc_body :: "snode option"
  sc_strictin :: "bool list option"
  sc_lazyin :: "bool list option"
  sc_sl :: sourceloc
  sc_modname :: "string option"
  sc_nospark :: bool
  sc_doesappend :: bool
  sc_appendver :: "nat option"
  sc_caninline :: bool

abbreviation sc_nargs :: "scomb \<Rightarrow> nat" where
  "sc_nargs sc \<equiv> length (sc_argnames sc)"

text \<open>\<^verbatim>\<open>calloc(1,sizeof(scomb))\<close>\<close>

definition scomb_zero :: scomb where
  "scomb_zero =
     \<lparr>sc_name = [], sc_argnames = [], sc_body = None, sc_strictin = None, sc_lazyin = None,
      sc_sl = \<lparr>fileno = 0, lineno = 0\<rparr>, sc_modname = None, sc_nospark = False,
      sc_doesappend = False, sc_appendver = None, sc_caninline = False\<rparr>"

record source =
  schash :: "nat \<Rightarrow> nat list"
  varno :: nat
  scombs :: "scomb list"
  oldnames :: "string list"
  parsedfiles :: "string list"
  src_imports :: "string list"
  src_newimports :: "string list"

definition source_new :: source where
  "source_new =
     \<lparr>schash = (\<lambda>_. []), varno = 0, scombs = [], oldnames = [], parsedfiles = [],
      src_imports = [], src_newimports = [''prelude'']\<rparr>"

subsection \<open>Names\<close>

definition GENVAR_PREFIX :: string where
  "GENVAR_PREFIX = ''_v''"

definition has_genvar_prefix :: "string \<Rightarrow> bool" where
  "has_genvar_prefix s \<longleftrightarrow> take (length GENVAR_PREFIX) s = GENVAR_PREFIX"

definition make_varname :: "string \<Rightarrow> string" where
  "make_varname want = (if has_genvar_prefix want then want @ ''_'' else want)"

definition genvar :: "nat \<Rightarrow> string" where
  "genvar k = GENVAR_PREFIX @ decimal k"

definition next_var :: "source \<Rightarrow> string \<Rightarrow> string \<times> source" where
  "next_var src oldname =
     (genvar (varno src),
      src\<lparr>varno := varno src + 1, oldnames := oldnames src @ [oldname]\<rparr>)"

text \<open>\<^verbatim>\<open>atoi\<close> of the digits after the prefix\<close>

definition real_varname :: "source \<Rightarrow> string \<Rightarrow> string option" where
  "real_varname src s =
     (if has_genvar_prefix s
      then let n = long_to_int (fst (strtol (drop 2 s)))
           in if n < 0 then None
              else if nat n < length (oldnames src) then Some (oldnames src ! nat n) else None
      else Some s)"

subsection \<open>Files and imports\<close>

definition add_parsedfile :: "source \<Rightarrow> string \<Rightarrow> nat \<times> source" where
  "add_parsedfile src filename =
     (let files = parsedfiles src @ [filename]
      in (length files - 1, src\<lparr>parsedfiles := files\<rparr>))"

definition lookup_parsedfile :: "source \<Rightarrow> int \<Rightarrow> string option" where
  "lookup_parsedfile src n =
     (if parsedfiles src = [] then None
      else if 0 \<le> n \<and> nat n < length (parsedfiles src) then Some (parsedfiles src ! nat n)
      else None)"

definition is_from_prelude :: "source \<Rightarrow> scomb \<Rightarrow> bool option" where
  "is_from_prelude src sc =
     (if 0 \<le> fileno (sc_sl sc)
      then map_option (\<lambda>f. f = ''(module) prelude.elc'') (lookup_parsedfile src (fileno (sc_sl sc)))
      else Some False)"

definition add_import :: "source \<Rightarrow> string \<Rightarrow> source" where
  "add_import src name =
     (if name \<in> set (src_imports src) then src
      else if name \<in> set (src_newimports src) then src
      else src\<lparr>src_newimports := list_push (src_newimports src) name\<rparr>)"

text \<open>How many variables are in scope at the innermost point of a tree, beside those that are in
  scope at its root.\<close>

fun scope_depth :: "snode \<Rightarrow> nat" and scope_depth_recs :: "letrec list \<Rightarrow> nat" where
  "scope_depth (Application l s a b) = max (scope_depth a) (scope_depth b)"
| "scope_depth (Lambda l x b) = Suc (scope_depth b)"
| "scope_depth (LetrecNode l rs b) = length rs + max (scope_depth_recs rs) (scope_depth b)"
| "scope_depth (Wrap l t) = scope_depth t"
| "scope_depth e = 0"
| "scope_depth_recs [] = 0"
| "scope_depth_recs (Letrec n v st sc # rs) = max (scope_depth v) (scope_depth_recs rs)"

definition sc_depth :: "scomb \<Rightarrow> nat" where
  "sc_depth sc = sc_nargs sc + (case sc_body sc of None \<Rightarrow> 0 | Some e \<Rightarrow> scope_depth e)"

end
