(* ===== verification/Supercombinators.thy ===== *)
theory Supercombinators
  imports Syntax_Tree
begin

text \<open>
  The supercombinator table of \<^verbatim>\<open>compiler/super.c\<close>: an array of supercombinators and a
  hash table over their names, with \<^verbatim>\<open>create_scomb\<close> and \<^verbatim>\<open>check_for_main\<close> of
  \<^verbatim>\<open>compiler/source.c\<close>, its two clients in the parser and driver. The invariant
  \<open>source_ok\<close> says that the chains hold exactly the array, every entry in the bucket of its
  name, and that no two supercombinators share a name.
\<close>

subsection \<open>Lookup and insertion\<close>

definition bucket :: "string \<Rightarrow> nat" where
  "bucket name = nat (hash name)"

definition get_scomb_index :: "source \<Rightarrow> nat \<Rightarrow> scomb option" where
  "get_scomb_index src i = (if i < length (scombs src) then Some (scombs src ! i) else None)"

fun chain_find :: "scomb list \<Rightarrow> nat list \<Rightarrow> string \<Rightarrow> nat option" where
  "chain_find scs [] name = None"
| "chain_find scs (i # chain) name =
     (if i < length scs \<and> sc_name (scs ! i) = name then Some i else chain_find scs chain name)"

definition get_scomb :: "source \<Rightarrow> string \<Rightarrow> nat option" where
  "get_scomb src name = chain_find (scombs src) (schash src (bucket name)) name"

fun argname_index :: "nat \<Rightarrow> string list \<Rightarrow> string \<Rightarrow> int" where
  "argname_index i [] name = - 1"
| "argname_index i (a # as) name = (if a = name then int i else argname_index (i + 1) as name)"

definition get_scomb_var :: "scomb \<Rightarrow> string \<Rightarrow> int" where
  "get_scomb_var sc name = argname_index 0 (sc_argnames sc) name"

definition scname_candidate :: "string \<Rightarrow> nat \<Rightarrow> string" where
  "scname_candidate name num = (if 0 < num then name @ ''#'' @ decimal num else name)"

lemma chain_find_name:
  "chain_find scs chain name = Some i \<Longrightarrow> i \<in> set chain \<and> i < length scs \<and> sc_name (scs ! i) = name"
  by (induction chain) (auto split: if_splits)

lemma scname_candidate_inject: "scname_candidate b m = scname_candidate b n \<longleftrightarrow> m = n"
  by (auto simp: scname_candidate_def decimal_inject)

definition taken_from :: "scomb list \<Rightarrow> string \<Rightarrow> nat \<Rightarrow> nat set" where
  "taken_from scs name num = {k. num \<le> k \<and> scname_candidate name k \<in> sc_name ` set scs}"

lemma finite_taken_from: "finite (taken_from scs name num)"
proof -
  have "inj (scname_candidate name)"
    by (auto simp: inj_def scname_candidate_inject)
  then have "finite (scname_candidate name -` (sc_name ` set scs))"
    by (intro finite_vimageI) simp_all
  then show ?thesis
    by (rule finite_subset [rotated]) (auto simp: taken_from_def)
qed

lemma get_scomb_taken: "get_scomb src name = Some i \<Longrightarrow> name \<in> sc_name ` set (scombs src)"
  by (auto simp: get_scomb_def dest!: chain_find_name)

text \<open>The search of \<^verbatim>\<open>add_scomb\<close> for an unused name ends since only finitely many are taken.\<close>

function free_scname :: "source \<Rightarrow> string \<Rightarrow> nat \<Rightarrow> string" where
  "free_scname src name num =
     (if get_scomb src (scname_candidate name num) = None then scname_candidate name num
      else free_scname src name (num + 1))"
  by pat_completeness auto
termination
proof (relation "measure (\<lambda>(src, name, num). card (taken_from (scombs src) name num))")
  fix src :: source and name :: string and num :: nat
  assume "get_scomb src (scname_candidate name num) \<noteq> None"
  then have "num \<in> taken_from (scombs src) name num"
    by (auto simp: taken_from_def dest: get_scomb_taken)
  moreover have "num \<notin> taken_from (scombs src) name (num + 1)"
    and "taken_from (scombs src) name (num + 1) \<subseteq> taken_from (scombs src) name num"
    by (auto simp: taken_from_def)
  ultimately have "taken_from (scombs src) name (num + 1) \<subset> taken_from (scombs src) name num"
    by blast
  then show "((src, name, num + 1), (src, name, num))
             \<in> measure (\<lambda>(src, name, num). card (taken_from (scombs src) name num))"
    by (simp add: psubset_card_mono finite_taken_from)
qed simp

declare free_scname.simps [simp del]

definition add_scomb :: "source \<Rightarrow> string \<Rightarrow> nat \<times> source" where
  "add_scomb src name1 =
     (let name = takeWhile (\<lambda>c. c \<noteq> CHR ''#'') name1;
          scname = free_scname src name 0;
          idx = length (scombs src);
          h = bucket scname
      in (idx,
          src\<lparr>scombs := scombs src @ [scomb_zero\<lparr>sc_name := scname, sc_sl := noloc\<rparr>],
              schash := (schash src)(h := idx # schash src h)\<rparr>))"

fun rebuild_from :: "(nat \<Rightarrow> nat list) \<Rightarrow> nat \<Rightarrow> scomb list \<Rightarrow> (nat \<Rightarrow> nat list)" where
  "rebuild_from tbl i [] = tbl"
| "rebuild_from tbl i (sc # scs) =
     rebuild_from (tbl(bucket (sc_name sc) := i # tbl (bucket (sc_name sc)))) (i + 1) scs"

definition schash_rebuild :: "source \<Rightarrow> source" where
  "schash_rebuild src = src\<lparr>schash := rebuild_from (\<lambda>_. []) 0 (scombs src)\<rparr>"

text \<open>The check does not ask whether a supercombinator in a chain is in the array; one that is not
  has an index beyond its end, and a name that is not known here.\<close>

definition schash_check :: "source \<Rightarrow> bool" where
  "schash_check src \<longleftrightarrow>
     list_all (\<lambda>h. list_all (\<lambda>i. bucket (sc_name (scombs src ! i)) = h) (schash src h)) [0 ..< nat GLOBAL_HASH_SIZE] \<and>
     list_all (\<lambda>i. i \<in> set (schash src (bucket (sc_name (scombs src ! i))))) [0 ..< length (scombs src)]"

subsection \<open>Clients in the driver\<close>

datatype compile_error =
    DuplicateScomb string
  | MainTooManyArgs
  | NoMain
  | UnboundVariables "(sourceloc \<times> string) list"

definition strip_argname :: "string \<Rightarrow> string" where
  "strip_argname a = (if a \<noteq> [] \<and> (hd a = CHR ''!'' \<or> hd a = CHR 0x40) then tl a else a)"

definition marked_with :: "char \<Rightarrow> string \<Rightarrow> bool" where
  "marked_with c a \<longleftrightarrow> a \<noteq> [] \<and> hd a = c"

definition qualified_name :: "string \<Rightarrow> string \<Rightarrow> string" where
  "qualified_name modname name = (if 0 < length modname then modname @ ''::'' @ name else name)"

definition update_scomb :: "source \<Rightarrow> nat \<Rightarrow> (scomb \<Rightarrow> scomb) \<Rightarrow> source" where
  "update_scomb src i f = src\<lparr>scombs := (scombs src)[i := f (scombs src ! i)]\<rparr>"

definition create_scomb ::
  "source \<Rightarrow> string \<Rightarrow> string \<Rightarrow> string list \<Rightarrow> snode \<Rightarrow> int \<Rightarrow> int \<Rightarrow> compile_error + source" where
  "create_scomb src modname name argnames body fno lno =
     (let scname = qualified_name modname name
      in if get_scomb src scname \<noteq> None then Inl (DuplicateScomb name)
         else let (i, src') = add_scomb src scname
              in Inr (update_scomb src' i (\<lambda>sc. sc
                   \<lparr>sc_sl := \<lparr>fileno = fno, lineno = lno\<rparr>,
                    sc_argnames := map strip_argname argnames,
                    sc_strictin := Some (map (marked_with (CHR ''!'')) argnames),
                    sc_lazyin := Some (map (marked_with (CHR 0x40)) argnames),
                    sc_modname := (if 0 < length modname then Some modname else None),
                    sc_body := Some body\<rparr>)))"

definition pad_main :: "scomb \<Rightarrow> scomb" where
  "pad_main sc =
     sc\<lparr>sc_argnames := [if sc_nargs sc = 1 then sc_argnames sc ! 0 else ''__args'', ''__stdin''],
        sc_strictin := Some [sc_nargs sc = 1 \<and> (case sc_strictin sc of Some (s # _) \<Rightarrow> s | _ \<Rightarrow> False),
                             False],
        sc_lazyin := Some [False, False]\<rparr>"

fun check_for_main_from :: "bool \<Rightarrow> scomb list \<Rightarrow> compile_error + (bool \<times> scomb list)" where
  "check_for_main_from gotmain [] = Inr (gotmain, [])"
| "check_for_main_from gotmain (sc # scs) =
     (if sc_name sc = ''main''
      then (if 2 < sc_nargs sc then Inl MainTooManyArgs
            else map_sum id (map_prod id ((#) (if 2 > sc_nargs sc then pad_main sc else sc)))
                   (check_for_main_from True scs))
      else map_sum id (map_prod id ((#) sc)) (check_for_main_from gotmain scs))"

definition check_for_main :: "source \<Rightarrow> compile_error + source" where
  "check_for_main src =
     (case check_for_main_from False (scombs src) of
        Inl e \<Rightarrow> Inl e
      | Inr (gotmain, scs) \<Rightarrow> if gotmain then Inr (src\<lparr>scombs := scs\<rparr>) else Inl NoMain)"

subsection \<open>The invariant of the table\<close>

abbreviation sc_names :: "source \<Rightarrow> string list" where
  "sc_names src \<equiv> map sc_name (scombs src)"

definition chains_ok :: "(nat \<Rightarrow> nat list) \<Rightarrow> string list \<Rightarrow> bool" where
  "chains_ok tbl names \<longleftrightarrow> (\<forall>h i. i \<in> set (tbl h) \<longleftrightarrow> i < length names \<and> bucket (names ! i) = h)"

definition source_ok :: "source \<Rightarrow> bool" where
  "source_ok src \<longleftrightarrow> chains_ok (schash src) (sc_names src) \<and> distinct (sc_names src)"

lemma chain_find_iff:
  assumes "distinct (map sc_name scs)"
  shows "chain_find scs chain name = Some i \<longleftrightarrow>
         i \<in> set chain \<and> i < length scs \<and> sc_name (scs ! i) = name"
proof
  assume "i \<in> set chain \<and> i < length scs \<and> sc_name (scs ! i) = name"
  then have i: "i < length scs" "sc_name (scs ! i) = name" and "i \<in> set chain" by simp_all
  have uniq: "j = i" if "j < length scs" "sc_name (scs ! j) = name" for j
    using that i assms by (metis distinct_conv_nth length_map nth_map)
  show "chain_find scs chain name = Some i"
    using \<open>i \<in> set chain\<close>
  proof (induction chain)
    case (Cons j chain)
    show ?case
    proof (cases "j < length scs \<and> sc_name (scs ! j) = name")
      case True
      then have "j = i" using uniq by blast
      with True show ?thesis by simp
    next
      case False
      with i have "i \<noteq> j" by blast
      with Cons False show ?thesis by simp
    qed
  qed simp
qed (rule chain_find_name)

lemma get_scomb_iff:
  assumes "source_ok src"
  shows "get_scomb src name = Some i \<longleftrightarrow> i < length (scombs src) \<and> sc_names src ! i = name"
  using assms by (auto simp: get_scomb_def source_ok_def chain_find_iff chains_ok_def)

lemma get_scomb_None_iff:
  assumes "source_ok src"
  shows "get_scomb src name = None \<longleftrightarrow> name \<notin> set (sc_names src)"
proof -
  have "get_scomb src name \<noteq> None \<longleftrightarrow> (\<exists>i < length (sc_names src). sc_names src ! i = name)"
    using get_scomb_iff [OF assms] by fastforce
  then show ?thesis by (metis in_set_conv_nth)
qed

lemma free_scname_free: "get_scomb src (free_scname src name num) = None"
  by (induction src name num rule: free_scname.induct) (subst free_scname.simps, simp)

lemma free_scname_candidate:
  "\<exists>k \<ge> num. free_scname src name num = scname_candidate name k \<and>
     (\<forall>j. num \<le> j \<and> j < k \<longrightarrow> get_scomb src (scname_candidate name j) \<noteq> None)"
proof (induction src name num rule: free_scname.induct)
  case (1 src name num)
  show ?case
  proof (cases "get_scomb src (scname_candidate name num) = None")
    case True
    then have "free_scname src name num = scname_candidate name num"
      by (subst free_scname.simps) simp
    then show ?thesis by (intro exI [of _ num]) auto
  next
    case False
    with 1 obtain k where k: "k \<ge> num + 1" "free_scname src name (num + 1) = scname_candidate name k"
      "\<forall>j. num + 1 \<le> j \<and> j < k \<longrightarrow> get_scomb src (scname_candidate name j) \<noteq> None" by blast
    have "free_scname src name num = free_scname src name (num + 1)"
      using False by (simp only: free_scname.simps [of src name num] if_False)
    with k False show ?thesis
      by (intro exI [of _ k]) (metis Suc_eq_plus1 Suc_leD Suc_leI le_eq_less_or_eq)
  qed
qed

lemma chains_ok_add:
  assumes "chains_ok tbl names"
  shows "chains_ok (tbl(bucket x := length names # tbl (bucket x))) (names @ [x])"
  using assms unfolding chains_ok_def
  by (auto simp: nth_append less_Suc_eq)

lemma sc_names_add:
  "add_scomb src name1 = (i, src') \<Longrightarrow>
   \<exists>x. sc_names src' = sc_names src @ [x] \<and> i = length (sc_names src) \<and>
       get_scomb src x = None \<and>
       schash src' = (schash src)(bucket x := i # schash src (bucket x))"
  using free_scname_free by (auto simp: add_scomb_def Let_def)

lemma source_new_ok: "source_ok source_new"
  by (simp add: source_ok_def chains_ok_def source_new_def)

subsection \<open>The table as a symbol table\<close>

locale symbol_table =
  fixes lookup :: "'s \<Rightarrow> string \<Rightarrow> nat option" and add :: "'s \<Rightarrow> string \<Rightarrow> nat \<times> 's"
    and names :: "'s \<Rightarrow> string list" and inv :: "'s \<Rightarrow> bool"
  assumes lookup_iff: "inv s \<Longrightarrow> lookup s x = Some i \<longleftrightarrow> i < length (names s) \<and> names s ! i = x"
    and add_names: "inv s \<Longrightarrow> add s x = (i, s') \<Longrightarrow>
          inv s' \<and> (\<exists>y. y \<notin> set (names s) \<and> names s' = names s @ [y] \<and> i = length (names s))"
begin

lemma lookup_stable:
  assumes "inv s" and "add s x = (i, s')" and "lookup s y = Some j"
  shows "lookup s' y = Some j"
proof -
  obtain z where "inv s'" "names s' = names s @ [z]" using add_names [OF assms(1,2)] by blast
  with assms show ?thesis by (auto simp: lookup_iff nth_append)
qed

lemma lookup_new:
  assumes "inv s" and "add s x = (i, s')"
  shows "lookup s (names s' ! i) = None \<and> lookup s' (names s' ! i) = Some i"
proof -
  obtain z where z: "inv s'" "names s' = names s @ [z]" "i = length (names s)" "z \<notin> set (names s)"
    using add_names [OF assms] by blast
  then have "lookup s' z = Some i" by (simp add: lookup_iff)
  moreover have "lookup s z = None"
  proof (rule ccontr)
    assume "lookup s z \<noteq> None"
    then obtain j where "lookup s z = Some j" by blast
    with assms(1) have "j < length (names s)" "names s ! j = z" by (simp_all add: lookup_iff)
    with z(4) show False by (metis nth_mem)
  qed
  ultimately show ?thesis using z by simp
qed

end

interpretation sct: symbol_table get_scomb add_scomb sc_names source_ok
proof unfold_locales
  fix s x i
  assume "source_ok s"
  then show "get_scomb s x = Some i \<longleftrightarrow> i < length (sc_names s) \<and> sc_names s ! i = x"
    using get_scomb_iff by simp
next
  fix s x i s'
  assume ok: "source_ok s" and add: "add_scomb s x = (i, s')"
  from sc_names_add [OF add] obtain y where y: "sc_names s' = sc_names s @ [y]"
    "i = length (sc_names s)" "get_scomb s y = None"
    "schash s' = (schash s)(bucket y := i # schash s (bucket y))" by blast
  then have fresh: "y \<notin> set (sc_names s)" using get_scomb_None_iff [OF ok] by simp
  have "chains_ok (schash s') (sc_names s')"
    using ok y chains_ok_add [of "schash s" "sc_names s" y] by (simp add: source_ok_def)
  with ok y fresh show "source_ok s' \<and> (\<exists>y. y \<notin> set (sc_names s) \<and> sc_names s' = sc_names s @ [y] \<and>
      i = length (sc_names s))"
    by (auto simp: source_ok_def)
qed

subsection \<open>Rebuilding and checking the hash table\<close>

lemma rebuild_from_set:
  "i \<in> set (rebuild_from tbl n scs h) \<longleftrightarrow>
   i \<in> set (tbl h) \<or> (n \<le> i \<and> i < n + length scs \<and> bucket (sc_name (scs ! (i - n))) = h)"
proof (induction scs arbitrary: tbl n)
  case (Cons sc scs)
  have "(n + 1 \<le> i \<and> i < n + 1 + length scs \<and> bucket (sc_name (scs ! (i - (n + 1)))) = h) \<longleftrightarrow>
        (n < i \<and> i < n + length (sc # scs) \<and> bucket (sc_name ((sc # scs) ! (i - n))) = h)"
    by (auto simp: nth_Cons')
  with Cons show ?case by (auto simp: nth_Cons')
qed auto

lemma schash_rebuild_ok: "distinct (sc_names src) \<Longrightarrow> source_ok (schash_rebuild src)"
  by (auto simp: source_ok_def schash_rebuild_def chains_ok_def rebuild_from_set)

lemma bucket_bound: "bucket name < nat GLOBAL_HASH_SIZE"
  using hash_range [of name] by (auto simp: bucket_def GLOBAL_HASH_SIZE_def nat_less_iff)

lemma schash_check_iff:
  assumes "\<forall>h \<ge> nat GLOBAL_HASH_SIZE. schash src h = []" and "\<forall>h. \<forall>i \<in> set (schash src h). i < length (scombs src)"
  shows "schash_check src \<longleftrightarrow> chains_ok (schash src) (sc_names src)"
proof
  assume check: "schash_check src"
  show "chains_ok (schash src) (sc_names src)"
    unfolding chains_ok_def
  proof (intro allI)
    fix h i
    show "i \<in> set (schash src h) \<longleftrightarrow> i < length (sc_names src) \<and> bucket (sc_names src ! i) = h"
      using check assms bucket_bound
      by (cases "h < nat GLOBAL_HASH_SIZE") (auto simp: schash_check_def list_all_iff)
  qed
next
  assume "chains_ok (schash src) (sc_names src)"
  then show "schash_check src"
    by (auto simp: schash_check_def list_all_iff chains_ok_def)
qed

lemma schash_check_members:
  assumes "schash_check src" and "i < length (scombs src)" and "h < nat GLOBAL_HASH_SIZE"
  shows "i \<in> set (schash src h) \<longleftrightarrow> h = bucket (sc_names src ! i)"
proof -
  have "\<forall>i \<in> set (schash src h). bucket (sc_name (scombs src ! i)) = h"
    using assms(1,3) unfolding schash_check_def list_all_iff by simp
  moreover have "i \<in> set (schash src (bucket (sc_name (scombs src ! i))))"
    using assms(1,2) unfolding schash_check_def list_all_iff by simp
  ultimately show ?thesis using assms(2) by auto
qed

subsection \<open>Declarations and the main function\<close>

lemma add_scomb_keeps:
  "add_scomb src x = (i, src') \<Longrightarrow>
   i = length (scombs src) \<and> length (scombs src') = length (scombs src) + 1 \<and>
   take (length (scombs src)) (scombs src') = scombs src \<and> varno src' = varno src"
  by (auto simp: add_scomb_def Let_def)

lemma sc_names_update:
  "i < length (scombs src) \<Longrightarrow> sc_name (f (scombs src ! i)) = sc_name (scombs src ! i) \<Longrightarrow>
   sc_names (update_scomb src i f) = sc_names src"
  by (simp add: update_scomb_def map_update) (metis length_map list_update_id nth_map)

lemma update_scomb_schash [simp]: "schash (update_scomb src i f) = schash src"
  by (simp add: update_scomb_def)

lemma update_scomb_nth: "i < length (scombs src) \<Longrightarrow> scombs (update_scomb src i f) ! i = f (scombs src ! i)"
  by (simp add: update_scomb_def)

lemma source_ok_update:
  "source_ok src \<Longrightarrow> i < length (scombs src) \<Longrightarrow> sc_name (f (scombs src ! i)) = sc_name (scombs src ! i) \<Longrightarrow>
   source_ok (update_scomb src i f)"
  by (metis sc_names_update source_ok_def update_scomb_schash)

lemma add_scomb_exact_name:
  assumes "source_ok src" and "CHR ''#'' \<notin> set x" and "get_scomb src x = None"
    and "add_scomb src x = (i, src')"
  shows "sc_names src' ! i = x"
proof -
  have base: "takeWhile (\<lambda>c. c \<noteq> CHR ''#'') x = x"
    by (rule takeWhile_eq_all_conv [THEN iffD2]) (use assms(2) in auto)
  have name: "free_scname src x 0 = x"
    using assms(3) by (simp add: free_scname.simps [of src x 0] scname_candidate_def)
  show ?thesis using assms(4) by (auto simp: add_scomb_def Let_def nth_append base name)
qed

lemma check_for_main_from_eq:
  "check_for_main_from g scs =
   (if \<exists>sc \<in> set scs. sc_name sc = ''main'' \<and> 2 < sc_nargs sc then Inl MainTooManyArgs
    else Inr (g \<or> ''main'' \<in> sc_name ` set scs,
              map (\<lambda>sc. if sc_name sc = ''main'' \<and> sc_nargs sc < 2 then pad_main sc else sc) scs))"
  by (induction scs arbitrary: g) auto

subsection \<open>Properties\<close>

text \<open>C19: the supercombinator table is a faithful dictionary. With the table invariant,
  \<^verbatim>\<open>get_scomb\<close> finds a name exactly when some supercombinator has it; \<^verbatim>\<open>add_scomb\<close> always
  returns, keeps the invariant, appends one supercombinator under a name nobody had (the
  first free one of \<open>base\<close>, \<open>base#1\<close>, \<open>base#2\<close>, ...), and every name found before is still
  found at the same place.\<close>

theorem add_scomb_correct:
  assumes "source_ok src" and "add_scomb src x = (i, src')"
  shows "source_ok src' \<and> get_scomb src' (sc_names src' ! i) = Some i \<and>
         get_scomb src (sc_names src' ! i) = None \<and>
         (\<forall>y j. get_scomb src y = Some j \<longrightarrow> get_scomb src' y = Some j) \<and>
         (\<exists>k. sc_names src' ! i = scname_candidate (takeWhile (\<lambda>c. c \<noteq> CHR ''#'') x) k \<and>
              (\<forall>j < k. scname_candidate (takeWhile (\<lambda>c. c \<noteq> CHR ''#'') x) j \<in> set (sc_names src)))"
proof -
  let ?b = "takeWhile (\<lambda>c. c \<noteq> CHR ''#'') x"
  have "sc_names src' ! i = free_scname src ?b 0"
    using assms(2) by (auto simp: add_scomb_def Let_def nth_append)
  with free_scname_candidate [of 0 src ?b] get_scomb_None_iff [OF assms(1)]
  have "\<exists>k. sc_names src' ! i = scname_candidate ?b k \<and> (\<forall>j < k. scname_candidate ?b j \<in> set (sc_names src))"
    by auto
  moreover have "\<forall>y j. get_scomb src y = Some j \<longrightarrow> get_scomb src' y = Some j"
    using sct.lookup_stable [OF assms] by blast
  ultimately show ?thesis
    using sct.lookup_new [OF assms] sct.add_names [OF assms] by blast
qed

theorem add_scomb_correct_witness:
  "source_ok (snd (add_scomb (snd (add_scomb source_new ''f'')) ''f''))"
proof -
  let ?p = "add_scomb source_new ''f''"
  let ?q = "add_scomb (snd ?p) ''f''"
  have "source_ok (snd ?p)"
    using add_scomb_correct [OF source_new_ok, of "''f''" "fst ?p" "snd ?p"] by simp
  from add_scomb_correct [OF this, of "''f''" "fst ?q" "snd ?q"] show ?thesis by simp
qed

text \<open>C34: \<^verbatim>\<open>schash_rebuild\<close> restores the table invariant from any state of the hash table as long
  as the names are distinct. Whatever table the check \<^verbatim>\<open>schash_check\<close> accepts, each supercombinator of
  the array is in the chain of the bucket of its name and in no other; and of the tables whose chains
  hold only supercombinators of the array, which the check does not test, it accepts exactly those
  that are consistent.\<close>

theorem schash_rebuild_check:
  assumes "distinct (sc_names src)"
  shows "source_ok (schash_rebuild src) \<and> schash_check (schash_rebuild src) \<and>
         (\<forall>src2. schash_check src2 \<longrightarrow> (\<forall>i < length (scombs src2). \<forall>h < nat GLOBAL_HASH_SIZE.
            i \<in> set (schash src2 h) \<longleftrightarrow> h = bucket (sc_names src2 ! i))) \<and>
         (\<forall>src2. (\<forall>h \<ge> nat GLOBAL_HASH_SIZE. schash src2 h = []) \<and> (\<forall>h. \<forall>i \<in> set (schash src2 h). i < length (scombs src2)) \<longrightarrow>
            schash_check src2 = chains_ok (schash src2) (sc_names src2))"
proof (intro conjI)
  have ok: "source_ok (schash_rebuild src)" using assms by (rule schash_rebuild_ok)
  then show "source_ok (schash_rebuild src)" .
  then show "schash_check (schash_rebuild src)"
    by (auto simp: schash_check_def list_all_iff chains_ok_def source_ok_def)
  show "\<forall>src2. schash_check src2 \<longrightarrow> (\<forall>i < length (scombs src2). \<forall>h < nat GLOBAL_HASH_SIZE.
      i \<in> set (schash src2 h) \<longleftrightarrow> h = bucket (sc_names src2 ! i))"
    using schash_check_members by blast
  show "\<forall>src2. (\<forall>h \<ge> nat GLOBAL_HASH_SIZE. schash src2 h = []) \<and> (\<forall>h. \<forall>i \<in> set (schash src2 h). i < length (scombs src2)) \<longrightarrow>
      schash_check src2 = chains_ok (schash src2) (sc_names src2)"
    using schash_check_iff by blast
qed

theorem schash_rebuild_check_witness:
  "let src = source_new\<lparr>scombs := [scomb_zero\<lparr>sc_name := ''f''\<rparr>, scomb_zero\<lparr>sc_name := ''g''\<rparr>]\<rparr> in
     schash_check (schash_rebuild (src\<lparr>schash := (\<lambda>h. [1, 0])\<rparr>)) \<and> \<not> schash_check src"
proof -
  let ?src = "source_new\<lparr>scombs := [scomb_zero\<lparr>sc_name := ''f''\<rparr>, scomb_zero\<lparr>sc_name := ''g''\<rparr>]\<rparr>"
  note r = schash_rebuild_check [of "?src\<lparr>schash := (\<lambda>h. [1, 0])\<rparr>", simplified]
  have "schash ?src h = []" for h by (simp add: source_new_def)
  then have "schash_check ?src = chains_ok (\<lambda>h. []) [''f'', ''g'']" using r by (simp add: source_new_def)
  also have "chains_ok (\<lambda>h. []) [''f'', ''g''] \<longleftrightarrow> False" by (auto simp: chains_ok_def intro!: exI [of _ 0])
  finally show ?thesis using r by (simp add: Let_def)
qed

text \<open>C31: \<^verbatim>\<open>create_scomb\<close> refuses a definition exactly when the qualified name is already
  defined; otherwise the new supercombinator is found under that name, with the \<^verbatim>\<open>!\<close> and \<^verbatim>\<open>@\<close>
  marks stripped from its arguments and recorded as strict and lazy flags of the same
  length, and all earlier definitions are still found.\<close>

theorem create_scomb_correct:
  assumes ok: "source_ok src" and nh: "CHR ''#'' \<notin> set (qualified_name m n)"
  shows "((\<exists>e. create_scomb src m n as body fno lno = Inl e) \<longleftrightarrow> qualified_name m n \<in> set (sc_names src)) \<and>
         (\<forall>src'. create_scomb src m n as body fno lno = Inr src' \<longrightarrow>
            source_ok src' \<and>
            (\<exists>i. get_scomb src' (qualified_name m n) = Some i \<and>
               sc_argnames (scombs src' ! i) = map strip_argname as \<and>
               sc_body (scombs src' ! i) = Some body \<and>
               sc_strictin (scombs src' ! i) = Some (map (marked_with (CHR ''!'')) as) \<and>
               sc_lazyin (scombs src' ! i) = Some (map (marked_with (CHR 0x40)) as)) \<and>
            (\<forall>y j. get_scomb src y = Some j \<longrightarrow> get_scomb src' y = Some j))"
proof -
  let ?q = "qualified_name m n"
  obtain i s1 where add: "add_scomb src ?q = (i, s1)" by fastforce
  have s1: "source_ok s1" and i: "i < length (scombs s1)"
    using sct.add_names [OF ok add] add_scomb_keeps [OF add] by auto
  have lookup: "get_scomb (update_scomb s1 i f) y = get_scomb s1 y"
    if "\<And>sc. sc_name (f sc) = sc_name sc" for f y
  proof -
    have "get_scomb (update_scomb s1 i f) y = Some j \<longleftrightarrow> get_scomb s1 y = Some j" for j
      using source_ok_update [OF s1 i] sc_names_update [OF i] that
      by (simp add: get_scomb_iff s1) (simp add: update_scomb_def)
    then show ?thesis by (metis option.exhaust)
  qed
  have dup: "get_scomb src ?q \<noteq> None \<longleftrightarrow> ?q \<in> set (sc_names src)"
    using get_scomb_None_iff [OF ok, of ?q] by argo
  have name: "get_scomb s1 ?q = Some i" if "get_scomb src ?q = None"
    using add_scomb_exact_name [OF ok nh that add] i s1 by (simp add: get_scomb_iff)
  show ?thesis
    using dup name source_ok_update [OF s1 i] lookup sct.lookup_stable [OF ok add]
    by (auto simp: create_scomb_def Let_def add update_scomb_nth [OF i])
qed

theorem create_scomb_correct_witness:
  "\<exists>src'. create_scomb source_new [] ''f'' [''!x'', ''y''] (NilNode noloc) 0 1 = Inr src' \<and>
     source_ok src' \<and>
     (\<exists>i. get_scomb src' ''f'' = Some i \<and> sc_argnames (scombs src' ! i) = [''x'', ''y''] \<and>
          sc_strictin (scombs src' ! i) = Some [True, False])"
proof -
  let ?r = "create_scomb source_new [] ''f'' [''!x'', ''y''] (NilNode noloc) 0 1"
  have h: "CHR ''#'' \<notin> set (qualified_name [] ''f'')" by (simp add: qualified_name_def)
  note c = create_scomb_correct [OF source_new_ok h,
      of "[''!x'', ''y'']" "NilNode noloc" 0 1]
  then have "\<not> (\<exists>e. ?r = Inl e)" by (simp add: source_new_def)
  then obtain src' where r: "?r = Inr src'" by (cases ?r) auto
  with c show ?thesis
    by (auto simp: qualified_name_def strip_argname_def marked_with_def)
qed

text \<open>C32: \<^verbatim>\<open>check_for_main\<close> accepts a program exactly when it defines \<^verbatim>\<open>main\<close> with at most two
  arguments; it then gives \<^verbatim>\<open>main\<close> exactly two arguments and changes no other
  supercombinator and no name.\<close>

theorem check_for_main_correct:
  assumes "distinct (sc_names src)"
  shows "((\<exists>src'. check_for_main src = Inr src') \<longleftrightarrow>
            (\<exists>sc \<in> set (scombs src). sc_name sc = ''main'' \<and> sc_nargs sc \<le> 2)) \<and>
         (\<forall>src'. check_for_main src = Inr src' \<longrightarrow>
            sc_names src' = sc_names src \<and> schash src' = schash src \<and>
            (\<forall>i < length (scombs src).
               (sc_names src ! i = ''main'' \<longrightarrow> sc_nargs (scombs src' ! i) = 2) \<and>
               (sc_names src ! i \<noteq> ''main'' \<longrightarrow> scombs src' ! i = scombs src ! i)))"
proof -
  have uniq: "\<forall>a \<in> set (scombs src). \<forall>b \<in> set (scombs src). sc_name a = sc_name b \<longrightarrow> a = b"
    using assms by (auto simp: distinct_map inj_on_def)
  let ?scs = "map (\<lambda>sc. if sc_name sc = ''main'' \<and> sc_nargs sc < 2 then pad_main sc else sc) (scombs src)"
  have eq: "check_for_main src =
      (if \<exists>sc \<in> set (scombs src). sc_name sc = ''main'' \<and> 2 < sc_nargs sc then Inl MainTooManyArgs
       else if ''main'' \<in> sc_name ` set (scombs src) then Inr (src\<lparr>scombs := ?scs\<rparr>) else Inl NoMain)"
    by (simp add: check_for_main_def check_for_main_from_eq)
  have acc: "(\<exists>src'. check_for_main src = Inr src') \<longleftrightarrow>
        (\<exists>sc \<in> set (scombs src). sc_name sc = ''main'' \<and> sc_nargs sc \<le> 2)"
  proof
    assume "\<exists>sc \<in> set (scombs src). sc_name sc = ''main'' \<and> sc_nargs sc \<le> 2"
    then obtain sc where sc: "sc \<in> set (scombs src)" "sc_name sc = ''main''" "sc_nargs sc \<le> 2" by blast
    have "\<not> 2 < sc_nargs sc'" if "sc' \<in> set (scombs src)" "sc_name sc' = ''main''" for sc'
    proof -
      have "sc' = sc" using uniq that sc(1,2) by force
      with sc(3) show ?thesis by simp
    qed
    moreover have "''main'' \<in> sc_name ` set (scombs src)" using sc(1,2) by force
    ultimately show "\<exists>src'. check_for_main src = Inr src'" by (auto simp: eq)
  next
    assume "\<exists>src'. check_for_main src = Inr src'"
    then show "\<exists>sc \<in> set (scombs src). sc_name sc = ''main'' \<and> sc_nargs sc \<le> 2"
      by (force simp: eq not_less split: if_splits)
  qed
  have "sc_names src' = sc_names src \<and> schash src' = schash src \<and>
      (\<forall>i < length (scombs src).
         (sc_names src ! i = ''main'' \<longrightarrow> sc_nargs (scombs src' ! i) = 2) \<and>
         (sc_names src ! i \<noteq> ''main'' \<longrightarrow> scombs src' ! i = scombs src ! i))"
    if r: "check_for_main src = Inr src'" for src'
  proof -
    have src': "src' = src\<lparr>scombs := ?scs\<rparr>"
      and le: "\<forall>sc \<in> set (scombs src). sc_name sc = ''main'' \<longrightarrow> sc_nargs sc \<le> 2"
      using r by (auto simp: eq not_less split: if_splits)
    have pad: "sc_name (pad_main sc) = sc_name sc \<and> sc_nargs (pad_main sc) = 2" for sc
      by (simp add: pad_main_def)
    have "sc_nargs (scombs src ! i) = 2"
      if "i < length (scombs src)" "sc_name (scombs src ! i) = ''main''" "\<not> sc_nargs (scombs src ! i) < 2" for i
      using le that by (meson le_antisym not_le nth_mem)
    then show ?thesis by (simp add: src' pad o_def if_distrib cong: if_cong)
  qed
  with acc show ?thesis by blast
qed

theorem check_for_main_correct_witness:
  "\<exists>src'. check_for_main (snd (add_scomb source_new ''main'')) = Inr src' \<and>
          sc_nargs (scombs src' ! 0) = 2"
proof -
  let ?src = "snd (add_scomb source_new ''main'')"
  have sc: "scombs ?src = [scomb_zero\<lparr>sc_name := ''main'', sc_sl := noloc\<rparr>]"
    by (simp add: add_scomb_def Let_def free_scname.simps [of source_new "''main''" 0] get_scomb_def
        scname_candidate_def) (simp_all add: source_new_def)
  have "distinct (sc_names ?src)" by (simp add: sc)
  from check_for_main_correct [OF this] show ?thesis by (auto simp: sc scomb_zero_def)
qed

text \<open>Padding a one-argument \<^verbatim>\<open>main\<close> keeps its strict mark but loses its lazy mark.\<close>

lemma pad_main_drops_lazy:
  "sc_nargs sc = 1 \<Longrightarrow> sc_strictin sc = Some [s] \<Longrightarrow> sc_lazyin sc = Some [True] \<Longrightarrow>
   sc_strictin (pad_main sc) = Some [s, False] \<and> sc_lazyin (pad_main sc) = Some [False, False]"
  by (simp add: pad_main_def)

end
