(* ===== verification/Renaming.thy ===== *)
theory Renaming
  imports Supercombinators
begin

text \<open>
  The variable renaming pass of \<^verbatim>\<open>compiler/renaming.c\<close>. Every bound variable gets a
  generated name \<^verbatim>\<open>_v0\<close>, \<^verbatim>\<open>_v1\<close>, \<dots>; the names they replace are kept in \<^verbatim>\<open>oldnames\<close>.

  The stack of mappings is a list with the top first (\<^verbatim>\<open>data[count-1]\<close>), and the program exits
  when it is full. The scan for a
  symbol does not stop at the first match: \<open>rename_symbol\<close> goes on with the new name, as the
  code does. That this is harmless is part of what is proved.

  The reference is the nameless form \<open>anon\<close> of a tree, in which a variable is the number of
  binders between its use and its binding: renaming must not change it.
\<close>

subsection \<open>The pass\<close>

fun rename_symbol :: "(string \<times> string) list \<Rightarrow> string \<Rightarrow> string" where
  "rename_symbol [] name = name"
| "rename_symbol ((frm, to) # mappings) name =
     rename_symbol mappings (if frm = name then to else name)"

fun rename_binders ::
  "source \<Rightarrow> letrec list \<Rightarrow> (string \<times> string) list \<Rightarrow>
   (source \<times> string list \<times> (string \<times> string) list) option" where
  "rename_binders src [] ms = Some (src, [], ms)"
| "rename_binders src (r # rs) ms =
     (let (newname, src1) = next_var src (rec_name r)
      in do { ms1 \<leftarrow> push_item ms (rec_name r, newname);
              (src2, ys, ms2) \<leftarrow> rename_binders src1 rs ms1;
              Some (src2, newname # ys, ms2) })"

fun rename_variables_r :: "source \<Rightarrow> snode \<Rightarrow> (string \<times> string) list \<Rightarrow> (source \<times> snode) option"
  and rename_values :: "source \<Rightarrow> letrec list \<Rightarrow> string list \<Rightarrow> (string \<times> string) list \<Rightarrow>
                        (source \<times> letrec list) option" where
  "rename_variables_r src (Application l s a b) ms =
     do { (src1, a') \<leftarrow> rename_variables_r src a ms;
          (src2, b') \<leftarrow> rename_variables_r src1 b ms;
          Some (src2, Application l s a' b') }"
| "rename_variables_r src (Lambda l x b) ms =
     (let (newname, src1) = next_var src x
      in do { ms1 \<leftarrow> push_item ms (x, newname);
              (src2, b') \<leftarrow> rename_variables_r src1 b ms1;
              Some (src2, Lambda l newname b') })"
| "rename_variables_r src (LetrecNode l rs b) ms =
     do { (src1, ys, ms1) \<leftarrow> rename_binders src rs ms;
          (src2, rs') \<leftarrow> rename_values src1 rs ys ms1;
          (src3, b') \<leftarrow> rename_variables_r src2 b ms1;
          Some (src3, LetrecNode l rs' b') }"
| "rename_variables_r src (Symbol l x) ms = Some (src, Symbol l (rename_symbol ms x))"
| "rename_variables_r src (Builtin l f) ms = Some (src, Builtin l f)"
| "rename_variables_r src (Scref l i) ms = Some (src, Scref l i)"
| "rename_variables_r src (NilNode l) ms = Some (src, NilNode l)"
| "rename_variables_r src (Number l d) ms = Some (src, Number l d)"
| "rename_variables_r src (StringNode l v) ms = Some (src, StringNode l v)"
| "rename_variables_r src (Empty l) ms = None"
| "rename_variables_r src (Wrap l t) ms = None"
| "rename_values src (Letrec n v st sc # rs) (y # ys) ms =
     do { (src1, v') \<leftarrow> rename_variables_r src v ms;
          (src2, rs') \<leftarrow> rename_values src1 rs ys ms;
          Some (src2, Letrec y v' st sc # rs') }"
| "rename_values src rs ys ms = Some (src, [])"

definition rename_sc_body_variables ::
  "source \<Rightarrow> snode \<Rightarrow> string list \<Rightarrow> string list \<Rightarrow> (source \<times> snode) option" where
  "rename_sc_body_variables src body oldargnames newargnames =
     do { mappings \<leftarrow> push_items [] (zip oldargnames newargnames); rename_variables_r src body mappings }"

fun next_vars :: "source \<Rightarrow> string list \<Rightarrow> string list \<times> source" where
  "next_vars src [] = ([], src)"
| "next_vars src (a # as) =
     (let (y, src1) = next_var src a; (ys, src2) = next_vars src1 as in (y # ys, src2))"

definition rename_variables :: "source \<Rightarrow> nat \<Rightarrow> source option" where
  "rename_variables src i =
     (let sc = scombs src ! i; (newargnames, src1) = next_vars src (sc_argnames sc)
      in do { body \<leftarrow> sc_body sc;
              (src2, body') \<leftarrow> rename_sc_body_variables src1 body (sc_argnames sc) newargnames;
              Some (update_scomb src2 i (\<lambda>sc. sc\<lparr>sc_body := Some body', sc_argnames := newargnames\<rparr>)) })"

subsection \<open>Names in a tree, and the nameless form\<close>

fun binders :: "snode \<Rightarrow> string list" and binders_recs :: "letrec list \<Rightarrow> string list" where
  "binders (Application l s a b) = binders a @ binders b"
| "binders (Lambda l x b) = x # binders b"
| "binders (LetrecNode l rs b) = map rec_name rs @ binders_recs rs @ binders b"
| "binders (Wrap l t) = binders t"
| "binders e = []"
| "binders_recs [] = []"
| "binders_recs (Letrec n v st sc # rs) = binders v @ binders_recs rs"

fun symbols :: "snode \<Rightarrow> string set" and symbols_recs :: "letrec list \<Rightarrow> string set" where
  "symbols (Application l s a b) = symbols a \<union> symbols b"
| "symbols (Lambda l x b) = symbols b"
| "symbols (LetrecNode l rs b) = symbols_recs rs \<union> symbols b"
| "symbols (Wrap l t) = symbols t"
| "symbols (Symbol l x) = {x}"
| "symbols e = {}"
| "symbols_recs [] = {}"
| "symbols_recs (Letrec n v st sc # rs) = symbols v \<union> symbols_recs rs"

text \<open>Trees without the node types on which the passes call \<^verbatim>\<open>abort\<close>.\<close>

fun plain :: "snode \<Rightarrow> bool" and plain_recs :: "letrec list \<Rightarrow> bool" where
  "plain (Application l s a b) \<longleftrightarrow> plain a \<and> plain b"
| "plain (Lambda l x b) \<longleftrightarrow> plain b"
| "plain (LetrecNode l rs b) \<longleftrightarrow> plain_recs rs \<and> plain b"
| "plain (Wrap l t) \<longleftrightarrow> False"
| "plain (Empty l) \<longleftrightarrow> False"
| "plain e \<longleftrightarrow> True"
| "plain_recs [] \<longleftrightarrow> True"
| "plain_recs (Letrec n v st sc # rs) \<longleftrightarrow> plain v \<and> plain_recs rs"

datatype dterm =
    DApp sourceloc bool dterm dterm
  | DLam sourceloc dterm
  | DVar sourceloc "nat + string"
  | DLetrec sourceloc "(dterm \<times> bool \<times> nat option) list" dterm
  | DLeaf snode

fun var_index :: "string list \<Rightarrow> string \<Rightarrow> nat option" where
  "var_index [] x = None"
| "var_index (y # ys) x = (if x = y then Some 0 else map_option Suc (var_index ys x))"

definition anon_var :: "string list \<Rightarrow> string \<Rightarrow> nat + string" where
  "anon_var env x = (case var_index env x of Some i \<Rightarrow> Inl i | None \<Rightarrow> Inr x)"

fun anon :: "string list \<Rightarrow> snode \<Rightarrow> dterm"
  and anon_recs :: "string list \<Rightarrow> letrec list \<Rightarrow> (dterm \<times> bool \<times> nat option) list" where
  "anon env (Application l s a b) = DApp l s (anon env a) (anon env b)"
| "anon env (Lambda l x b) = DLam l (anon (x # env) b)"
| "anon env (LetrecNode l rs b) =
     DLetrec l (anon_recs (rev (map rec_name rs) @ env) rs) (anon (rev (map rec_name rs) @ env) b)"
| "anon env (Symbol l x) = DVar l (anon_var env x)"
| "anon env e = DLeaf e"
| "anon_recs env [] = []"
| "anon_recs env (Letrec n v st sc # rs) = (anon env v, st, sc) # anon_recs env rs"

subsection \<open>The pass returns and numbers the binders consecutively\<close>

lemma next_var_simps [simp]:
  "next_var src x = (y, src') \<longleftrightarrow>
   y = genvar (varno src) \<and> src' = src\<lparr>varno := varno src + 1, oldnames := oldnames src @ [x]\<rparr>"
  by (auto simp: next_var_def)

lemma genvar_inject [simp]: "genvar m = genvar n \<longleftrightarrow> m = n"
  by (simp add: genvar_def decimal_inject)

fun genvars :: "nat \<Rightarrow> nat \<Rightarrow> string list" where
  "genvars v 0 = []"
| "genvars v (Suc n) = genvar v # genvars (Suc v) n"

lemma length_genvars [simp]: "length (genvars v n) = n"
  by (induction n arbitrary: v) simp_all

lemma genvars_add: "genvars v (m + n) = genvars v m @ genvars (v + m) n"
  by (induction m arbitrary: v) simp_all

lemma in_genvars: "x \<in> set (genvars v n) \<longleftrightarrow> (\<exists>k. v \<le> k \<and> k < v + n \<and> x = genvar k)"
  by (induction n arbitrary: v) (auto simp: Suc_le_eq less_Suc_eq_le dest: le_neq_implies_less)

lemma distinct_genvars: "distinct (genvars v n)"
  by (induction n arbitrary: v) (auto simp: in_genvars)

lemma genvars_nth: "i < n \<Longrightarrow> genvars v n ! i = genvar (v + i)"
  by (induction n arbitrary: v i) (auto simp: nth_Cons split: nat.splits)

definition add_vars :: "string list \<Rightarrow> source \<Rightarrow> source" where
  "add_vars xs src = src\<lparr>varno := varno src + length xs, oldnames := oldnames src @ xs\<rparr>"

lemma add_vars_simps [simp]:
  "varno (add_vars xs src) = varno src + length xs"
  "add_vars [] src = src"
  "add_vars ys (add_vars xs src) = add_vars (xs @ ys) src"
  "src\<lparr>varno := Suc (varno src), oldnames := oldnames src @ [x]\<rparr> = add_vars [x] src"
  "scombs (add_vars xs src) = scombs src"
  "oldnames (add_vars xs src) = oldnames src @ xs"
  by (simp_all add: add_vars_def)

lemma next_vars_eq: "next_vars src as = (genvars (varno src) (length as), add_vars as src)"
  by (induction as arbitrary: src) (simp_all add: next_var_def Let_def)

lemma rename_binders_eq:
  "stack_room (length ms) \<Longrightarrow> rename_binders src rs ms =
   (if stack_room (length ms + length rs)
    then Some (add_vars (map rec_name rs) src, genvars (varno src) (length rs),
      rev (zip (map rec_name rs) (genvars (varno src) (length rs))) @ ms)
    else None)"
proof (induction rs arbitrary: src ms)
  case (Cons r rs)
  show ?case
  proof (cases "stack_room (Suc (length ms))")
    case True
    then show ?thesis using Cons.IH [of "(rec_name r, genvar (varno src)) # ms" "add_vars [rec_name r] src"]
      by (simp add: next_var_def push_item_def)
  next
    case False
    then have "\<not> stack_room (length ms + length (r # rs))" using stack_room_mono by fastforce
    then show ?thesis using False by (simp add: next_var_def push_item_def)
  qed
qed simp

lemma rename_binders_room:
  "stack_room (length ms + length rs + n) \<Longrightarrow> rename_binders src rs ms =
   Some (add_vars (map rec_name rs) src, genvars (varno src) (length rs),
      rev (zip (map rec_name rs) (genvars (varno src) (length rs))) @ ms)"
  using rename_binders_eq [of ms src rs] stack_room_mono [of "length ms + length rs + n"] by simp

lemma rename_total:
  "plain e \<Longrightarrow> stack_room (length ms + scope_depth e) \<Longrightarrow>
   \<exists>e'. rename_variables_r src e ms = Some (add_vars (binders e) src, e') \<and>
     binders e' = genvars (varno src) (length (binders e)) \<and> plain e' \<and> scope_depth e' = scope_depth e"
  "plain_recs rs \<Longrightarrow> length ys = length rs \<Longrightarrow> stack_room (length ms + scope_depth_recs rs) \<Longrightarrow>
   \<exists>rs'. rename_values src rs ys ms = Some (add_vars (binders_recs rs) src, rs') \<and>
     binders_recs rs' = genvars (varno src) (length (binders_recs rs)) \<and>
     map rec_name rs' = ys \<and> plain_recs rs' \<and> scope_depth_recs rs' = scope_depth_recs rs"
proof (induction e and rs arbitrary: src ms and src ms ys rule: plain_plain_recs.induct)
  case (1 l s a b)
  have room: "stack_room (length ms + scope_depth a)" "stack_room (length ms + scope_depth b)"
    using "1.prems"(2) by (auto elim: stack_room_mono)
  then obtain a' where a': "rename_variables_r src a ms = Some (add_vars (binders a) src, a')"
    "binders a' = genvars (varno src) (length (binders a))" "plain a'" "scope_depth a' = scope_depth a" using 1 by fastforce
  from 1 room obtain b' where "rename_variables_r (add_vars (binders a) src) b ms =
      Some (add_vars (binders b) (add_vars (binders a) src), b')"
    "binders b' = genvars (varno src + length (binders a)) (length (binders b))" "plain b'" "scope_depth b' = scope_depth b" by fastforce
  with a' show ?case by (simp add: genvars_add)
next
  case (2 l x b)
  have room: "push_item ms (x, genvar (varno src)) = Some ((x, genvar (varno src)) # ms)"
    using "2.prems"(2) push_item_room [of ms "scope_depth b"] by simp
  from "2.IH" [of "(x, genvar (varno src)) # ms" "add_vars [x] src"] "2.prems"
  obtain b' where "rename_variables_r (add_vars [x] src) b ((x, genvar (varno src)) # ms) =
      Some (add_vars (binders b) (add_vars [x] src), b')"
    "binders b' = genvars (varno src + 1) (length (binders b))" "plain b'" "scope_depth b' = scope_depth b"
    by auto
  then show ?case using room by (simp add: next_var_def)
next
  case (3 l rs b)
  let ?src = "add_vars (map rec_name rs) src" and ?ys = "genvars (varno src) (length rs)"
  let ?ms = "rev (zip (map rec_name rs) ?ys) @ ms"
  have room: "stack_room (length ?ms + scope_depth_recs rs)" "stack_room (length ?ms + scope_depth b)"
    using "3.prems"(2) by (auto elim: stack_room_mono)
  from "3.IH"(1) [of ?ys ?ms ?src] "3.prems" room obtain rs' where rs': "rename_values ?src rs ?ys ?ms = Some (add_vars (binders_recs rs) ?src, rs')"
    "binders_recs rs' = genvars (varno src + length rs) (length (binders_recs rs))"
    "map rec_name rs' = ?ys" "plain_recs rs'" "scope_depth_recs rs' = scope_depth_recs rs"
    by auto
  from "3.IH"(2) [of ?ms "add_vars (binders_recs rs) ?src"] "3.prems" room obtain b' where "rename_variables_r (add_vars (binders_recs rs) ?src) b ?ms =
      Some (add_vars (binders b) (add_vars (binders_recs rs) ?src), b')"
    "binders b' = genvars (varno src + length rs + length (binders_recs rs)) (length (binders b))" "plain b'" "scope_depth b' = scope_depth b"
    by (auto simp: add.assoc)
  moreover have "length rs' = length rs" using rs'(3) by (metis length_genvars length_map)
  ultimately show ?case using rs' rename_binders_room [of ms rs _ src] "3.prems"(2) by (simp add: genvars_add add.assoc)
next
  case (8 n v st sc rs)
  then obtain y zs where ys: "ys = y # zs" by (cases ys) auto
  have room: "stack_room (length ms + scope_depth v)" "stack_room (length ms + scope_depth_recs rs)"
    using "8.prems"(3) by (auto elim: stack_room_mono)
  from "8.IH"(1) [of ms src] "8.prems" room obtain v' where v': "rename_variables_r src v ms = Some (add_vars (binders v) src, v')"
    "binders v' = genvars (varno src) (length (binders v))" "plain v'" "scope_depth v' = scope_depth v" by auto
  from "8.IH"(2) [of zs ms "add_vars (binders v) src"] "8.prems" ys room obtain rs' where "rename_values (add_vars (binders v) src) rs zs ms =
      Some (add_vars (binders_recs rs) (add_vars (binders v) src), rs')"
    "binders_recs rs' = genvars (varno src + length (binders v)) (length (binders_recs rs))"
    "map rec_name rs' = zs" "plain_recs rs'" "scope_depth_recs rs' = scope_depth_recs rs" by auto
  with v' ys show ?case by (simp add: genvars_add)
qed auto

text \<open>Where more names are in scope than the stack holds, the pass exits.\<close>

lemma rename_exits:
  "stack_room (length ms) \<Longrightarrow> \<not> stack_room (length ms + scope_depth e) \<Longrightarrow> rename_variables_r src e ms = None"
  "stack_room (length ms) \<Longrightarrow> length ys = length rs \<Longrightarrow> \<not> stack_room (length ms + scope_depth_recs rs) \<Longrightarrow> rename_values src rs ys ms = None"
proof (induction src e ms and src rs ys ms rule: rename_variables_r_rename_values.induct)
  case (1 src l s a b ms)
  then have "\<not> stack_room (length ms + scope_depth a) \<or> \<not> stack_room (length ms + scope_depth b)" by (auto simp: max_def split: if_splits)
  then show ?case using 1 by (cases "rename_variables_r src a ms") auto
next
  case (2 src l x b ms)
  then show ?case by (cases "stack_room (Suc (length ms))") (auto simp: next_var_def push_item_def)
next
  case (3 src l rs b ms)
  show ?case
  proof (cases "stack_room (length ms + length rs)")
    case True
    let ?src = "add_vars (map rec_name rs) src" and ?ys = "genvars (varno src) (length rs)"
    let ?ms = "rev (zip (map rec_name rs) ?ys) @ ms"
    have b: "rename_binders src rs ms = Some (?src, ?ys, ?ms)" using True rename_binders_eq [OF 3(3)] by simp
    have len: "length ?ms = length ms + length rs" by simp
    consider (recs) "\<not> stack_room (length ?ms + scope_depth_recs rs)" | (body) "\<not> stack_room (length ?ms + scope_depth b)"
      using 3(4) by (auto simp: max_def add_ac split: if_splits)
    then show ?thesis
    proof cases
      case recs
      then have "rename_values ?src rs ?ys ?ms = None" using 3(1) [OF b refl refl] True len by (simp add: add.commute)
      then show ?thesis using b by simp
    next
      case body
      then have "rename_variables_r src2 b ?ms = None" if "rename_values ?src rs ?ys ?ms = Some (src2, rs')" for src2 rs'
        using 3(2) [OF b refl refl that refl] True len by (simp add: add.commute)
      then show ?thesis using b by (cases "rename_values ?src rs ?ys ?ms") auto
    qed
  next
    case False
    then show ?thesis using rename_binders_eq [OF 3(3)] by simp
  qed
next
  case (12 src n v st sc rs y ys ms)
  then have "\<not> stack_room (length ms + scope_depth v) \<or> \<not> stack_room (length ms + scope_depth_recs rs)" by (auto simp: max_def split: if_splits)
  then show ?case using 12 by (cases "rename_variables_r src v ms") auto
qed auto

subsection \<open>Renaming keeps the nameless form\<close>

text \<open>
  \<open>stale v x\<close>: the name is none of those generated from counter value \<open>v\<close> on. The mappings
  in force while a body is renamed lead from stale names to distinct generated ones.
\<close>

definition stale :: "nat \<Rightarrow> string \<Rightarrow> bool" where
  "stale v x \<longleftrightarrow> (\<forall>k \<ge> v. x \<noteq> genvar k)"

definition maps_ok :: "nat \<Rightarrow> nat \<Rightarrow> (string \<times> string) list \<Rightarrow> bool" where
  "maps_ok v0 v ms \<longleftrightarrow>
     distinct (map snd ms) \<and> (\<forall>(f, t) \<in> set ms. stale v0 f \<and> (\<exists>k. t = genvar k \<and> v0 \<le> k \<and> k < v))"

lemma maps_ok_mono: "maps_ok v0 v ms \<Longrightarrow> v \<le> v' \<Longrightarrow> maps_ok v0 v' ms"
  by (fastforce simp: maps_ok_def)

lemma maps_ok_push:
  assumes "maps_ok v0 v ms" and "v0 \<le> v" and "\<forall>x \<in> set xs. stale v0 x" and "length xs = n"
  shows "maps_ok v0 (v + n) (rev (zip xs (genvars v n)) @ ms)"
proof -
  have "map snd (rev (zip xs (genvars v n)) @ ms) = rev (genvars v n) @ map snd ms"
    using assms(4) by (simp add: rev_map [symmetric])
  moreover have "set (genvars v n) \<inter> set (map snd ms) = {}"
    using assms(1) by (fastforce simp: in_genvars maps_ok_def)
  ultimately have "distinct (map snd (rev (zip xs (genvars v n)) @ ms))"
    using assms(1) by (simp add: maps_ok_def distinct_genvars)
  moreover have "stale v0 f \<and> (\<exists>k. t = genvar k \<and> v0 \<le> k \<and> k < v + n)"
    if "(f, t) \<in> set (rev (zip xs (genvars v n)) @ ms)" for f t
  proof -
    have "(f, t) \<in> set ms \<or> (f \<in> set xs \<and> t \<in> set (genvars v n))"
      using that by (auto dest: set_zip_leftD set_zip_rightD)
    then show ?thesis
    proof
      assume "(f, t) \<in> set ms"
      with assms(1) have "stale v0 f" "\<exists>k. t = genvar k \<and> v0 \<le> k \<and> k < v"
        by (auto simp: maps_ok_def)
      then show ?thesis by auto
    next
      assume "f \<in> set xs \<and> t \<in> set (genvars v n)"
      with assms(2,3) show ?thesis by (auto simp: in_genvars)
    qed
  qed
  ultimately show ?thesis by (auto simp: maps_ok_def)
qed

lemma rename_symbol_fresh: "x \<notin> fst ` set ms \<Longrightarrow> rename_symbol ms x = x"
  by (induction ms) auto

lemma rename_symbol_cases:
  "rename_symbol ms x = x \<or> rename_symbol ms x \<in> snd ` set ms"
proof (induction ms arbitrary: x)
  case (Cons m ms)
  then show ?case using Cons [of x] Cons [of "snd m"] by (cases m) auto
qed simp

lemma rename_symbol_index:
  "maps_ok v0 v ms \<Longrightarrow> stale v0 x \<Longrightarrow>
   anon_var (map snd ms) (rename_symbol ms x) = anon_var (map fst ms) x"
proof (induction ms)
  case (Cons m ms)
  obtain f t where m: "m = (f, t)" by (cases m)
  have ok: "maps_ok v0 v ms" and t: "t \<notin> snd ` set ms" "\<exists>k \<ge> v0. t = genvar k"
    and froms: "\<forall>g \<in> fst ` set ms. stale v0 g"
    using Cons.prems(1) by (auto simp: maps_ok_def m)
  show ?case
  proof (cases "x = f")
    case True
    have "t \<notin> fst ` set ms" using froms t(2) by (force simp: stale_def)
    with True show ?thesis by (simp add: m rename_symbol_fresh anon_var_def)
  next
    case False
    have "x \<noteq> t" using Cons.prems(2) t(2) by (auto simp: stale_def)
    then have "rename_symbol ms x \<noteq> t" using rename_symbol_cases [of ms x] t(1) by auto
    with False Cons.IH [OF ok Cons.prems(2)] show ?thesis
      by (auto simp: m anon_var_def split: option.splits)
  qed
qed (simp add: anon_var_def)

lemma rename_anon:
  "rename_variables_r src e ms = Some (src', e') \<Longrightarrow> plain e \<Longrightarrow> maps_ok v0 (varno src) ms \<Longrightarrow>
   v0 \<le> varno src \<Longrightarrow> \<forall>x \<in> symbols e \<union> set (binders e). stale v0 x \<Longrightarrow> stack_room (length ms + scope_depth e) \<Longrightarrow>
   anon (map snd ms) e' = anon (map fst ms) e"
  "rename_values src rs ys ms = Some (src', rs') \<Longrightarrow> plain_recs rs \<Longrightarrow> length ys = length rs \<Longrightarrow>
   maps_ok v0 (varno src) ms \<Longrightarrow> v0 \<le> varno src \<Longrightarrow>
   \<forall>x \<in> symbols_recs rs \<union> set (binders_recs rs). stale v0 x \<Longrightarrow> stack_room (length ms + scope_depth_recs rs) \<Longrightarrow>
   anon_recs (map snd ms) rs' = anon_recs (map fst ms) rs"
proof (induction e and rs arbitrary: src ms src' e' and src ms ys src' rs' rule: plain_plain_recs.induct)
  case (1 l s a b)
  let ?src = "add_vars (binders a) src"
  have room: "stack_room (length ms + scope_depth a)" "stack_room (length ms + scope_depth b)"
    using "1.prems"(6) by (auto elim: stack_room_mono)
  from 1 rename_total(1) [of a ms src] rename_total(1) [of b ms ?src] room
  obtain a' b' where r: "rename_variables_r src a ms = Some (?src, a')"
    "rename_variables_r ?src b ms = Some (src', b')" "e' = Application l s a' b'"
    by auto
  have "maps_ok v0 (varno ?src) ms" using "1.prems"(3) by (rule maps_ok_mono) simp
  with "1.IH"(1) [OF r(1)] "1.IH"(2) [OF r(2)] "1.prems" r(3) room show ?case by auto
next
  case (2 l x b)
  let ?src = "add_vars [x] src" and ?ms = "(x, genvar (varno src)) # ms"
  from 2 obtain b' where r: "rename_variables_r ?src b ?ms = Some (src', b')"
    "e' = Lambda l (genvar (varno src)) b'"
    by (auto simp: next_var_def Let_def push_item_Some split: Option.bind_split_asm)
  have "maps_ok v0 (varno ?src) ?ms"
    using maps_ok_push [of v0 "varno src" ms "[x]" 1] "2.prems" by simp
  with "2.IH" [OF r(1)] "2.prems" r(2) show ?case by simp
next
  case (3 l rs b)
  let ?ys = "genvars (varno src) (length rs)" and ?src = "add_vars (map rec_name rs) src"
  let ?ms = "rev (zip (map rec_name rs) ?ys) @ ms" and ?src2 = "add_vars (binders_recs rs) ?src"
  have room: "stack_room (length ?ms + scope_depth_recs rs)" "stack_room (length ?ms + scope_depth b)"
    using "3.prems"(6) by (auto elim: stack_room_mono)
  have "plain_recs rs" using "3.prems"(2) by simp
  from rename_total(2) [OF this _ room(1), of ?ys ?src] obtain rs' where
    r: "rename_values ?src rs ?ys ?ms = Some (?src2, rs')" and names: "map rec_name rs' = ?ys"
    by auto
  from "3.prems"(1) r obtain b' where b': "rename_variables_r ?src2 b ?ms = Some (src', b')"
    "e' = LetrecNode l rs' b'"
    using rename_binders_room [of ms rs "max (scope_depth_recs rs) (scope_depth b)" src] "3.prems"(6)
    by (auto simp: add.assoc split: Option.bind_split_asm)
  have ok: "maps_ok v0 (varno src + length rs) ?ms"
    using "3.prems" by (intro maps_ok_push) auto
  then have ok2: "maps_ok v0 (varno ?src2) ?ms" by (rule maps_ok_mono) simp
  have maps: "map snd ?ms = rev ?ys @ map snd ms" "map fst ?ms = rev (map rec_name rs) @ map fst ms"
    by (simp_all add: rev_map [symmetric])
  have "anon_recs (map snd ?ms) rs' = anon_recs (map fst ?ms) rs"
    using "3.IH"(1) [OF r _ _ _ _ _ room(1)] "3.prems" ok by auto
  moreover have "anon (map snd ?ms) b' = anon (map fst ?ms) b"
    using "3.IH"(2) [OF b'(1) _ _ _ _ room(2)] "3.prems" ok2 by auto
  ultimately show ?case using b'(2) names maps by simp
next
  case "6_2"
  then show ?case by (auto simp: rename_symbol_index)
next
  case (8 n v st sc rs)
  then obtain y zs where ys: "ys = y # zs" by (cases ys) auto
  let ?src = "add_vars (binders v) src"
  have room: "stack_room (length ms + scope_depth v)" "stack_room (length ms + scope_depth_recs rs)"
    using "8.prems"(7) by (auto elim: stack_room_mono)
  from 8 ys rename_total(1) [of v ms src] rename_total(2) [of rs zs ms ?src] room
  obtain v' rs'' where r: "rename_variables_r src v ms = Some (?src, v')"
    "rename_values ?src rs zs ms = Some (src', rs'')" "rs' = Letrec y v' st sc # rs''"
    by auto
  have "maps_ok v0 (varno ?src) ms" using "8.prems"(4) by (rule maps_ok_mono) simp
  with "8.IH"(1) [OF r(1)] "8.IH"(2) [OF r(2)] "8.prems" ys r(3) room show ?case by auto
qed auto

subsection \<open>Generated names and the names they replaced\<close>

lemma strtol_decimal: "k < 2 ^ 31 \<Longrightarrow> long_to_int (fst (strtol (decimal k))) = int k"
proof -
  assume "k < 2 ^ 31"
  then have k: "int k < 2 ^ 31" by simp
  then have "fst (strtol (decimal k)) = int k"
    using strtol_digits [OF decimal_nonempty decimal_digits, of k]
    by (simp add: digits_value_decimal clamp_long_def)
  with k show ?thesis by (simp add: long_to_int_id)
qed

lemma real_varname_genvar:
  "k < length (oldnames src) \<Longrightarrow> length (oldnames src) \<le> 2 ^ 31 \<Longrightarrow>
   real_varname src (genvar k) = Some (oldnames src ! k)"
  by (simp add: real_varname_def has_genvar_prefix_def genvar_def GENVAR_PREFIX_def strtol_decimal
      Let_def)

lemma make_varname_stale: "stale v (make_varname x)"
proof -
  have "x @ ''_'' \<noteq> genvar k" for k
  proof
    assume eq: "x @ ''_'' = genvar k"
    have "last (genvar k) \<in> set (decimal k)"
      using decimal_nonempty [of k] by (simp add: genvar_def)
    moreover have "last (genvar k) = CHR ''_''" by (simp add: eq [symmetric])
    ultimately have "isdigit (CHR ''_'')" using decimal_digits by metis
    then show False by (simp add: isdigit_def)
  qed
  moreover have "has_genvar_prefix (genvar k)" for k
    by (simp add: has_genvar_prefix_def genvar_def)
  ultimately show ?thesis by (auto simp: stale_def make_varname_def)
qed

lemma stale_mono: "stale v x \<Longrightarrow> v \<le> v' \<Longrightarrow> stale v' x"
  by (simp add: stale_def)

definition body_names :: "scomb \<Rightarrow> string set" where
  "body_names sc = set (sc_argnames sc) \<union>
     (case sc_body sc of None \<Rightarrow> {} | Some e \<Rightarrow> symbols e \<union> set (binders e))"

lemma rename_variables_eq:
  assumes "i < length (scombs src)" and "sc_body (scombs src ! i) = Some e" and "plain e"
    and "stack_room (sc_depth (scombs src ! i))"
  shows "\<exists>e'. rename_variables src i =
     Some (update_scomb (add_vars (sc_argnames (scombs src ! i) @ binders e) src) i
            (\<lambda>sc. sc\<lparr>sc_body := Some e',
                    sc_argnames := genvars (varno src) (sc_nargs (scombs src ! i))\<rparr>)) \<and>
     rename_sc_body_variables (add_vars (sc_argnames (scombs src ! i)) src) e (sc_argnames (scombs src ! i))
       (genvars (varno src) (sc_nargs (scombs src ! i))) =
       Some (add_vars (sc_argnames (scombs src ! i) @ binders e) src, e') \<and>
     binders e' = genvars (varno src + sc_nargs (scombs src ! i)) (length (binders e)) \<and> plain e' \<and> scope_depth e' = scope_depth e"
proof -
  let ?as = "sc_argnames (scombs src ! i)"
  let ?ms = "zip ?as (genvars (varno src) (length ?as))"
  have room: "stack_room (length (rev ?ms) + scope_depth e)" using assms(2,4) by (simp add: sc_depth_def)
  then have "push_items [] ?ms = Some (rev ?ms)" using push_items_room [of "[]" ?ms "scope_depth e"] by simp
  then show ?thesis using rename_total(1) [OF assms(3) room, of "add_vars ?as src"] assms(2)
    by (auto simp: rename_variables_def next_vars_eq rename_sc_body_variables_def Let_def)
qed

lemma rename_variables_exits:
  assumes "sc_body (scombs src ! i) = Some e" and "\<not> stack_room (sc_depth (scombs src ! i))"
  shows "rename_variables src i = None"
proof -
  let ?as = "sc_argnames (scombs src ! i)" and ?src = "add_vars (sc_argnames (scombs src ! i)) src"
  let ?ms = "zip ?as (genvars (varno src) (length ?as))"
  have "rename_sc_body_variables ?src e ?as (genvars (varno src) (length ?as)) = None"
  proof (cases "stack_room (length ?ms)")
    case True
    then have "push_items [] ?ms = Some (rev ?ms)" by (simp add: push_items_Some)
    then show ?thesis using rename_exits(1) [of "rev ?ms" e ?src] True assms by (simp add: rename_sc_body_variables_def sc_depth_def)
  next
    case False
    then show ?thesis using push_items_None [of "[]" ?ms] by (simp add: rename_sc_body_variables_def)
  qed
  then show ?thesis using assms(1) by (simp add: rename_variables_def next_vars_eq Let_def)
qed

lemma rename_body_ok:
  assumes "i < length (scombs src)" and "sc_body (scombs src ! i) = Some e" and "plain e"
    and "\<forall>x \<in> body_names (scombs src ! i). stale (varno src) x" and "stack_room (sc_depth (scombs src ! i))"
  shows "\<exists>src' e'. rename_variables src i = Some src' \<and> sc_body (scombs src' ! i) = Some e' \<and>
     sc_argnames (scombs src' ! i) @ binders e' =
       genvars (varno src) (sc_nargs (scombs src ! i) + length (binders e)) \<and>
     distinct (sc_argnames (scombs src' ! i) @ binders e') \<and>
     anon (rev (sc_argnames (scombs src' ! i))) e' = anon (rev (sc_argnames (scombs src ! i))) e"
proof -
  let ?sc = "scombs src ! i" and ?v = "varno src"
  let ?as = "sc_argnames ?sc" and ?ys = "genvars ?v (sc_nargs ?sc)"
  let ?ms = "rev (zip ?as ?ys)"
  from rename_variables_eq [OF assms(1-3,5)] obtain e' where
    r: "rename_variables src i = Some (update_scomb (add_vars (?as @ binders e) src) i
          (\<lambda>sc. sc\<lparr>sc_body := Some e', sc_argnames := ?ys\<rparr>))"
    and body: "rename_sc_body_variables (add_vars ?as src) e ?as ?ys = Some (add_vars (?as @ binders e) src, e')"
    and bs: "binders e' = genvars (?v + sc_nargs ?sc) (length (binders e))"
    by blast
  have st: "\<forall>x \<in> set ?as. stale ?v x" "\<forall>x \<in> symbols e \<union> set (binders e). stale ?v x"
    using assms(2,4) by (auto simp: body_names_def)
  have "maps_ok ?v (?v + sc_nargs ?sc) (?ms @ [])"
    by (rule maps_ok_push) (use st in \<open>auto simp: maps_ok_def\<close>)
  moreover have room: "stack_room (length ?ms + scope_depth e)" using assms(2,5) by (simp add: sc_depth_def)
  moreover have "push_items [] (zip ?as ?ys) = Some ?ms" using push_items_room [of "[]" "zip ?as ?ys" "scope_depth e"] room by simp
  then have "rename_variables_r (add_vars ?as src) e ?ms = Some (add_vars (?as @ binders e) src, e')"
    using body by (simp add: rename_sc_body_variables_def)
  ultimately have "anon (map snd ?ms) e' = anon (map fst ?ms) e"
    using rename_anon(1) [OF _ assms(3), of "add_vars ?as src" ?ms _ _ ?v] st(2) by simp
  then have an: "anon (rev ?ys) e' = anon (rev ?as) e"
    by (simp add: rev_map [symmetric])
  show ?thesis
    using r bs an assms(1) distinct_genvars [of ?v "sc_nargs ?sc + length (binders e)"]
    by (simp add: update_scomb_def genvars_add)
qed

subsection \<open>Properties\<close>

text \<open>C17: the renaming pass is correct. For a supercombinator whose names are none of the names
  still to be generated, \<^verbatim>\<open>rename_variables\<close> returns exactly if no more names are in scope anywhere
  in the body than the stack of mappings holds; otherwise the program exits. When it returns,
  arguments and all binders of the new body are consecutive generated names, hence pairwise
  different; and the new body under the new arguments has the same nameless form as the old
  body under the old arguments: every variable still refers to the same binder, shadowing
  included, although the scan over the mappings does not stop at its first match.\<close>

theorem rename_variables_correct:
  assumes "i < length (scombs src)" and "sc_body (scombs src ! i) = Some e" and "plain e"
    and "\<forall>x \<in> body_names (scombs src ! i). stale (varno src) x"
  shows "if stack_room (sc_depth (scombs src ! i)) then
     \<exists>src' e'. rename_variables src i = Some src' \<and> sc_body (scombs src' ! i) = Some e' \<and>
     sc_argnames (scombs src' ! i) @ binders e' =
       genvars (varno src) (sc_nargs (scombs src ! i) + length (binders e)) \<and>
     distinct (sc_argnames (scombs src' ! i) @ binders e') \<and>
     anon (rev (sc_argnames (scombs src' ! i))) e' = anon (rev (sc_argnames (scombs src ! i))) e
   else rename_variables src i = None"
  using rename_body_ok [OF assms] rename_variables_exits [OF assms(2)] by simp

theorem rename_variables_correct_witness:
  "\<exists>src e src' e'.
     sc_body (scombs src ! 0) = Some e \<and> rename_variables src 0 = Some src' \<and>
     sc_body (scombs src' ! 0) = Some e' \<and> distinct (sc_argnames (scombs src' ! 0) @ binders e') \<and>
     anon (rev (sc_argnames (scombs src' ! 0))) e' = anon [''x''] e"
proof -
  let ?e = "Application noloc False (Symbol noloc ''x'')
              (LetrecNode noloc [Letrec ''x'' (Lambda noloc ''x'' (Symbol noloc ''x'')) False None]
                (Symbol noloc ''x''))"
  let ?sc = "scomb_zero\<lparr>sc_name := ''f'', sc_argnames := [''x''], sc_body := Some ?e\<rparr>"
  let ?src = "source_new\<lparr>scombs := [?sc]\<rparr>"
  have "stale 0 (make_varname ''x'')" by (rule make_varname_stale)
  then have st: "stale 0 ''x''" by (simp add: make_varname_def has_genvar_prefix_def GENVAR_PREFIX_def)
  have h: "0 < length (scombs ?src)" "sc_body (scombs ?src ! 0) = Some ?e" "plain ?e"
    "\<forall>x \<in> body_names (scombs ?src ! 0). stale (varno ?src) x"
    using st by (simp_all add: body_names_def source_new_def)
  have "stack_room (sc_depth (scombs ?src ! 0))" by (simp add: sc_depth_def stack_room_def STACK_MAX_def)
  with rename_variables_correct [OF h] obtain src' e' where
    "rename_variables ?src 0 = Some src'" "sc_body (scombs src' ! 0) = Some e'"
    "distinct (sc_argnames (scombs src' ! 0) @ binders e')"
    "anon (rev (sc_argnames (scombs src' ! 0))) e' = anon (rev (sc_argnames (scombs ?src ! 0))) ?e"
    by auto
  then show ?thesis
    using h(2) by (intro exI [of _ ?src] exI [of _ ?e] exI [of _ src'] exI [of _ e']) simp
qed

text \<open>C33: names that come from the parser can never collide with generated ones, and the
  source name behind a generated name is never lost: \<^verbatim>\<open>make_varname\<close> output is stale for
  every counter value, \<^verbatim>\<open>next_var\<close> keeps one recorded name per counter value, and
  \<^verbatim>\<open>real_varname\<close> of each generated name returns the name it replaced.\<close>

theorem generated_names_traceable:
  assumes "length (oldnames src) = varno src" and "varno src < 2 ^ 31"
    and "next_var src x = (y, src')"
  shows "stale v (make_varname x) \<and> length (oldnames src') = varno src' \<and>
         real_varname src' y = Some x \<and>
         (\<forall>k < varno src. real_varname src' (genvar k) = real_varname src (genvar k))"
proof -
  have src': "y = genvar (varno src)" "oldnames src' = oldnames src @ [x]" "varno src' = varno src + 1"
    using assms(3) by simp_all
  have "real_varname src' y = Some x"
    using real_varname_genvar [of "varno src" src'] assms(1,2) src' by (simp add: nth_append)
  moreover have "real_varname src' (genvar k) = real_varname src (genvar k)" if "k < varno src" for k
    using real_varname_genvar [of k src'] real_varname_genvar [of k src] that assms(1,2) src'
    by (simp add: nth_append)
  ultimately show ?thesis using make_varname_stale src' assms(1) by simp
qed

theorem generated_names_traceable_witness:
  "real_varname (snd (next_var source_new ''xs'')) ''_v0'' = Some ''xs''"
proof -
  have "next_var source_new ''xs'' = (''_v0'', snd (next_var source_new ''xs''))"
    by (simp add: next_var_def source_new_def genvar_def GENVAR_PREFIX_def decimal_0)
  from generated_names_traceable [OF _ _ this] show ?thesis by (simp add: source_new_def)
qed

end
