(* ===== verification/Resolve.thy ===== *)
theory Resolve
  imports Renaming
begin

text \<open>
  Symbol resolution (\<^verbatim>\<open>compiler/resolve.c\<close>) and the stages of \<^verbatim>\<open>source_process\<close>
  (\<^verbatim>\<open>compiler/source.c\<close>) from the check for \<^verbatim>\<open>main\<close> to symbol resolution.

  Resolution replaces each symbol that no enclosing binder binds by a reference to a
  supercombinator (the one of the same module first) or to a built-in function, and records
  the symbols that denote neither. It runs once on freshly parsed trees: a tree that already
  holds a reference makes it abort.
\<close>

subsection \<open>The pass\<close>

type_synonym unboundvar = "sourceloc \<times> string"

fun has_colons :: "string \<Rightarrow> bool" where
  "has_colons (c # d # s) = ((c = CHR '':'' \<and> d = CHR '':'') \<or> has_colons (d # s))"
| "has_colons s = False"

definition find_scomb :: "source \<Rightarrow> string option \<Rightarrow> string \<Rightarrow> nat option" where
  "find_scomb src modname x =
     (case (case modname of
              Some m \<Rightarrow> if \<not> has_colons x then get_scomb src (m @ ''::'' @ x) else None
            | None \<Rightarrow> None) of
        Some i \<Rightarrow> Some i
      | None \<Rightarrow> get_scomb src x)"

fun resolve_refs_r :: "source \<Rightarrow> snode \<Rightarrow> string list \<Rightarrow> unboundvar list \<Rightarrow> string option \<Rightarrow>
                       (snode \<times> unboundvar list) option"
  and resolve_recs :: "source \<Rightarrow> letrec list \<Rightarrow> string list \<Rightarrow> unboundvar list \<Rightarrow> string option \<Rightarrow>
                       (letrec list \<times> unboundvar list) option" where
  "resolve_refs_r src (Application l s a b) bound ub md =
     do { (a', ub1) \<leftarrow> resolve_refs_r src a bound ub md;
          (b', ub2) \<leftarrow> resolve_refs_r src b bound ub1 md;
          Some (Application l s a' b', ub2) }"
| "resolve_refs_r src (Lambda l x b) bound ub md =
     do { bound1 \<leftarrow> push_item bound x;
          (b', ub1) \<leftarrow> resolve_refs_r src b bound1 ub md;
          Some (Lambda l x b', ub1) }"
| "resolve_refs_r src (Symbol l x) bound ub md =
     (if x \<in> set bound then Some (Symbol l x, ub)
      else case find_scomb src md x of
             Some i \<Rightarrow> Some (Scref l i, ub)
           | None \<Rightarrow> let bif = get_builtin x
                     in if 0 \<le> bif then Some (Builtin l (nat bif), ub)
                        else Some (Symbol l x, list_append ub (l, x)))"
| "resolve_refs_r src (LetrecNode l rs b) bound ub md =
     do { bound1 \<leftarrow> push_items bound (map rec_name rs);
          (rs', ub1) \<leftarrow> resolve_recs src rs bound1 ub md;
          (b', ub2) \<leftarrow> resolve_refs_r src b bound1 ub1 md;
          Some (LetrecNode l rs' b', ub2) }"
| "resolve_refs_r src (NilNode l) bound ub md = Some (NilNode l, ub)"
| "resolve_refs_r src (Number l d) bound ub md = Some (Number l d, ub)"
| "resolve_refs_r src (StringNode l v) bound ub md = Some (StringNode l v, ub)"
| "resolve_refs_r src (Builtin l f) bound ub md = None"
| "resolve_refs_r src (Scref l i) bound ub md = None"
| "resolve_refs_r src (Empty l) bound ub md = None"
| "resolve_refs_r src (Wrap l t) bound ub md = None"
| "resolve_recs src [] bound ub md = Some ([], ub)"
| "resolve_recs src (Letrec n v st sc # rs) bound ub md =
     do { (v', ub1) \<leftarrow> resolve_refs_r src v bound ub md;
          (rs', ub2) \<leftarrow> resolve_recs src rs bound ub1 md;
          Some (Letrec n v' st sc # rs', ub2) }"

definition resolve_refs :: "source \<Rightarrow> nat \<Rightarrow> unboundvar list \<Rightarrow> (source \<times> unboundvar list) option" where
  "resolve_refs src i ub =
     (let sc = scombs src ! i
      in do { bound \<leftarrow> push_items [] (sc_argnames sc);
              body \<leftarrow> sc_body sc;
              (body', ub') \<leftarrow> resolve_refs_r src body bound ub (sc_modname sc);
              Some (update_scomb src i (\<lambda>sc. sc\<lparr>sc_body := Some body'\<rparr>), ub') })"

subsection \<open>The driver up to symbol resolution\<close>

definition handle_unbound :: "unboundvar list \<Rightarrow> int" where
  "handle_unbound unbound = (if list_count unbound = 0 then 0 else - 1)"

fun rename_all :: "source \<Rightarrow> nat list \<Rightarrow> source option" where
  "rename_all src [] = Some src"
| "rename_all src (i # is) = do { src1 \<leftarrow> rename_variables src i; rename_all src1 is }"

fun resolve_all :: "source \<Rightarrow> nat list \<Rightarrow> unboundvar list \<Rightarrow> (source \<times> unboundvar list) option" where
  "resolve_all src [] ub = Some (src, ub)"
| "resolve_all src (i # is) ub = do { (src1, ub1) \<leftarrow> resolve_refs src i ub; resolve_all src1 is ub1 }"

definition force_strict :: "scomb \<Rightarrow> scomb" where
  "force_strict sc =
     sc\<lparr>sc_strictin :=
          (case (sc_strictin sc, sc_lazyin sc) of
             (Some st, Some la) \<Rightarrow> Some (map (\<lambda>(s, z). \<not> z \<or> s) (zip st la))
           | (st, _) \<Rightarrow> st)\<rparr>"

definition compile_stage :: "source \<Rightarrow> unit option" where
  "compile_stage src = (if schash_check src then Some () else None)"

definition process_front :: "bool \<Rightarrow> source \<Rightarrow> (compile_error + source) option" where
  "process_front strict_evaluation src =
     (case check_for_main src of
        Inl e \<Rightarrow> Some (Inl e)
      | Inr src0 \<Rightarrow>
          (let sccount = length (scombs src0);
               src1 = (if strict_evaluation then src0\<lparr>scombs := map force_strict (scombs src0)\<rparr> else src0)
           in do { compile_stage src1;
                   src2 \<leftarrow> rename_all src1 [0 ..< sccount];
                   compile_stage src2;
                   (src3, unbound) \<leftarrow> resolve_all src2 [0 ..< sccount] [];
                   Some (if handle_unbound unbound \<noteq> 0 then Inl (UnboundVariables unbound)
                         else Inr src3) }))"

subsection \<open>Free symbols, in the order of the traversal\<close>

fun free_syms :: "string list \<Rightarrow> snode \<Rightarrow> unboundvar list"
  and free_syms_recs :: "string list \<Rightarrow> letrec list \<Rightarrow> unboundvar list" where
  "free_syms bound (Application l s a b) = free_syms bound a @ free_syms bound b"
| "free_syms bound (Lambda l x b) = free_syms (x # bound) b"
| "free_syms bound (Symbol l x) = (if x \<in> set bound then [] else [(l, x)])"
| "free_syms bound (LetrecNode l rs b) =
     free_syms_recs (rev (map rec_name rs) @ bound) rs @ free_syms (rev (map rec_name rs) @ bound) b"
| "free_syms bound (Wrap l t) = free_syms bound t"
| "free_syms bound e = []"
| "free_syms_recs bound [] = []"
| "free_syms_recs bound (Letrec n v st sc # rs) = free_syms bound v @ free_syms_recs bound rs"

text \<open>Trees as the parser builds them: no abort, no reference yet.\<close>

fun parsed :: "snode \<Rightarrow> bool" and parsed_recs :: "letrec list \<Rightarrow> bool" where
  "parsed (Application l s a b) \<longleftrightarrow> parsed a \<and> parsed b"
| "parsed (Lambda l x b) \<longleftrightarrow> parsed b"
| "parsed (LetrecNode l rs b) \<longleftrightarrow> parsed_recs rs \<and> parsed b"
| "parsed (Symbol l x) \<longleftrightarrow> True"
| "parsed (NilNode l) \<longleftrightarrow> True"
| "parsed (Number l d) \<longleftrightarrow> True"
| "parsed (StringNode l v) \<longleftrightarrow> True"
| "parsed e \<longleftrightarrow> False"
| "parsed_recs [] \<longleftrightarrow> True"
| "parsed_recs (Letrec n v st sc # rs) \<longleftrightarrow> parsed v \<and> parsed_recs rs"

text \<open>References that denote something: supercombinators below \<open>n\<close>, rows of the builtin table.\<close>

fun refs_ok :: "nat \<Rightarrow> snode \<Rightarrow> bool" and refs_ok_recs :: "nat \<Rightarrow> letrec list \<Rightarrow> bool" where
  "refs_ok n (Application l s a b) \<longleftrightarrow> refs_ok n a \<and> refs_ok n b"
| "refs_ok n (Lambda l x b) \<longleftrightarrow> refs_ok n b"
| "refs_ok n (LetrecNode l rs b) \<longleftrightarrow> refs_ok_recs n rs \<and> refs_ok n b"
| "refs_ok n (Wrap l t) \<longleftrightarrow> refs_ok n t"
| "refs_ok n (Scref l i) \<longleftrightarrow> i < n"
| "refs_ok n (Builtin l f) \<longleftrightarrow> f < NUM_BUILTINS"
| "refs_ok n e \<longleftrightarrow> True"
| "refs_ok_recs n [] \<longleftrightarrow> True"
| "refs_ok_recs n (Letrec x v st sc # rs) \<longleftrightarrow> refs_ok n v \<and> refs_ok_recs n rs"

definition denotes :: "source \<Rightarrow> string option \<Rightarrow> string \<Rightarrow> bool" where
  "denotes src md x \<longleftrightarrow>
     (\<exists>m. md = Some m \<and> \<not> has_colons x \<and> m @ ''::'' @ x \<in> set (sc_names src)) \<or>
     x \<in> set (sc_names src) \<or> x \<in> set (map bi_name builtin_info)"

definition unresolved :: "source \<Rightarrow> string option \<Rightarrow> unboundvar list \<Rightarrow> unboundvar list" where
  "unresolved src md fs = filter (\<lambda>(l, x). \<not> denotes src md x) fs"

lemma unresolved_append [simp]: "unresolved src md (xs @ ys) = unresolved src md xs @ unresolved src md ys"
  by (simp add: unresolved_def)

lemma unresolved_Nil [simp]: "unresolved src md [] = []"
  by (simp add: unresolved_def)

lemma find_scomb_bound:
  "source_ok src \<Longrightarrow> find_scomb src md x = Some i \<Longrightarrow> i < length (scombs src)"
  by (auto simp: find_scomb_def get_scomb_iff split: option.splits if_splits)

lemma denotes_iff: "source_ok src \<Longrightarrow> denotes src md x \<longleftrightarrow> find_scomb src md x \<noteq> None \<or> 0 \<le> get_builtin x"
proof -
  assume "source_ok src"
  note get = get_scomb_None_iff [OF this]
  have "0 \<le> get_builtin x \<longleftrightarrow> x \<in> set (map bi_name builtin_info)"
    using find_builtin_None [of 0 builtin_info x] find_builtin_range [of 0 builtin_info x] by (auto simp: get_builtin_def)
  then show ?thesis
    using get [of x] get [of "the md @ ''::'' @ x"] by (cases md) (auto simp: denotes_def find_scomb_def simp del: set_map split: option.splits)
qed

lemma resolve_correct:
  "parsed e \<Longrightarrow> source_ok src \<Longrightarrow> stack_room (length bound + scope_depth e) \<Longrightarrow>
   \<exists>e'. resolve_refs_r src e bound ub md = Some (e', ub @ unresolved src md (free_syms bound e)) \<and>
     free_syms bound e' = unresolved src md (free_syms bound e) \<and> binders e' = binders e \<and>
     refs_ok (length (scombs src)) e' \<and> plain e'"
  "parsed_recs rs \<Longrightarrow> source_ok src \<Longrightarrow> stack_room (length bound + scope_depth_recs rs) \<Longrightarrow>
   \<exists>rs'. resolve_recs src rs bound ub md = Some (rs', ub @ unresolved src md (free_syms_recs bound rs)) \<and>
     free_syms_recs bound rs' = unresolved src md (free_syms_recs bound rs) \<and>
     binders_recs rs' = binders_recs rs \<and> map rec_name rs' = map rec_name rs \<and>
     refs_ok_recs (length (scombs src)) rs' \<and> plain_recs rs'"
proof (induction e and rs arbitrary: bound ub and bound ub rule: parsed_parsed_recs.induct)
  case (1 l s a b)
  have room: "stack_room (length bound + scope_depth a)" "stack_room (length bound + scope_depth b)"
    using "1.prems"(3) by (auto elim: stack_room_mono)
  from "1.IH"(1) [OF _ _ room(1), of ub] "1.prems" obtain a' where a':
    "resolve_refs_r src a bound ub md = Some (a', ub @ unresolved src md (free_syms bound a))"
    "free_syms bound a' = unresolved src md (free_syms bound a)" "binders a' = binders a"
    "refs_ok (length (scombs src)) a'" "plain a'" by auto
  from "1.IH"(2) [OF _ _ room(2), of "ub @ unresolved src md (free_syms bound a)"] "1.prems" a' show ?case
    by auto
next
  case (2 l x b)
  have "push_item bound x = Some (x # bound)" using "2.prems"(3) push_item_room [of bound "scope_depth b"] by simp
  with "2.IH" [of "x # bound" ub] "2.prems" show ?case by auto
next
  case (3 l rs b)
  let ?bd = "rev (map rec_name rs) @ bound"
  have room: "stack_room (length ?bd + scope_depth_recs rs)" "stack_room (length ?bd + scope_depth b)"
    using "3.prems"(3) by (auto elim: stack_room_mono)
  have push: "push_items bound (map rec_name rs) = Some ?bd"
    using push_items_room [of bound "map rec_name rs" "max (scope_depth_recs rs) (scope_depth b)"] "3.prems"(3) by (simp add: add.assoc)
  from "3.IH"(1) [OF _ _ room(1), of ub] "3.prems" obtain rs' where rs':
    "resolve_recs src rs ?bd ub md = Some (rs', ub @ unresolved src md (free_syms_recs ?bd rs))"
    "free_syms_recs ?bd rs' = unresolved src md (free_syms_recs ?bd rs)"
    "binders_recs rs' = binders_recs rs" "map rec_name rs' = map rec_name rs"
    "refs_ok_recs (length (scombs src)) rs'" "plain_recs rs'" by auto
  from "3.IH"(2) [OF _ _ room(2), of "ub @ unresolved src md (free_syms_recs ?bd rs)"] "3.prems" rs' push show ?case
    by auto
next
  case (4 l x)
  then show ?case
    using get_builtin_row [of x] find_scomb_bound [of src md x]
    by (cases "find_scomb src md x") (auto simp: unresolved_def denotes_iff Let_def)
next
  case (10 n v st sc rs)
  have room: "stack_room (length bound + scope_depth v)" "stack_room (length bound + scope_depth_recs rs)"
    using "10.prems"(3) by (auto elim: stack_room_mono)
  from "10.IH"(1) [OF _ _ room(1), of ub] "10.prems" obtain v' where v':
    "resolve_refs_r src v bound ub md = Some (v', ub @ unresolved src md (free_syms bound v))"
    "free_syms bound v' = unresolved src md (free_syms bound v)" "binders v' = binders v"
    "refs_ok (length (scombs src)) v'" "plain v'" by auto
  from "10.IH"(2) [OF _ _ room(2), of "ub @ unresolved src md (free_syms bound v)"] "10.prems" v' show ?case
    by auto
qed auto

subsection \<open>Free symbols are part of the nameless form\<close>

fun dfree :: "dterm \<Rightarrow> unboundvar list" where
  "dfree (DApp l s a b) = dfree a @ dfree b"
| "dfree (DLam l b) = dfree b"
| "dfree (DVar l v) = (case v of Inl i \<Rightarrow> [] | Inr x \<Rightarrow> [(l, x)])"
| "dfree (DLetrec l rs b) = concat (map (\<lambda>(t, st, sc). dfree t) rs) @ dfree b"
| "dfree (DLeaf e) = []"

lemma var_index_None: "var_index env x = None \<longleftrightarrow> x \<notin> set env"
  by (induction env) auto

lemma dfree_anon_var:
  "dfree (DVar l (anon_var env x)) = (if x \<in> set env then [] else [(l, x)])"
  using var_index_None [of env x] by (cases "var_index env x") (auto simp: anon_var_def)

lemma free_syms_anon:
  "plain e \<Longrightarrow> free_syms env e = dfree (anon env e)"
  "plain_recs rs \<Longrightarrow> free_syms_recs env rs = concat (map (\<lambda>(t, st, sc). dfree t) (anon_recs env rs))"
  by (induction e and rs arbitrary: env and env rule: plain_plain_recs.induct)
    (simp_all add: dfree_anon_var del: dfree.simps(3))

lemma parsed_plain: "parsed e \<Longrightarrow> plain e" "parsed_recs rs \<Longrightarrow> plain_recs rs"
  by (induction e and rs rule: parsed_parsed_recs.induct) auto

lemma rename_parsed:
  "parsed e \<Longrightarrow> rename_variables_r src e ms = Some (src', e') \<Longrightarrow> parsed e'"
  "parsed_recs rs \<Longrightarrow> rename_values src rs ys ms = Some (src', rs') \<Longrightarrow> parsed_recs rs'"
  by (induction src e ms and src rs ys ms arbitrary: src' e' and src' rs'
      rule: rename_variables_r_rename_values.induct)
    (auto simp: Let_def split: Option.bind_split_asm prod.splits)

subsection \<open>Lookups depend on the names and the chains only\<close>

lemma chain_find_cong: "map sc_name scs = map sc_name scs' \<Longrightarrow> chain_find scs c x = chain_find scs' c x"
proof (induction c)
  case (Cons i c)
  have "length scs = length scs'" using Cons.prems by (metis length_map)
  moreover have "sc_name (scs ! i) = sc_name (scs' ! i)" if "i < length scs"
    using Cons.prems that calculation by (metis nth_map)
  ultimately show ?case using Cons by auto
qed simp

lemma get_scomb_cong:
  "sc_names src = sc_names src' \<Longrightarrow> schash src = schash src' \<Longrightarrow> get_scomb src = get_scomb src'"
  by (rule ext) (metis chain_find_cong get_scomb_def)

lemma denotes_cong:
  "sc_names src = sc_names src' \<Longrightarrow> schash src = schash src' \<Longrightarrow>
   denotes src = denotes src' \<and> unresolved src = unresolved src' \<and> source_ok src = source_ok src'"
proof -
  assume eq: "sc_names src = sc_names src'" "schash src = schash src'"
  have "denotes src = denotes src'"
    unfolding denotes_def by (simp only: eq)
  moreover from this have "unresolved src = unresolved src'" by (simp add: fun_eq_iff unresolved_def)
  moreover have "source_ok src = source_ok src'" unfolding source_ok_def by (simp only: eq)
  ultimately show ?thesis by simp
qed

subsection \<open>Renaming all supercombinators\<close>

text \<open>What one supercombinator becomes: \<open>v\<close> is the counter before, \<open>sc'\<close> the result.\<close>

definition renamed :: "nat \<Rightarrow> scomb \<Rightarrow> scomb \<Rightarrow> bool" where
  "renamed v sc sc' \<longleftrightarrow>
     (\<exists>e e'. sc_body sc = Some e \<and> sc' = sc\<lparr>sc_body := Some e', sc_argnames := sc_argnames sc'\<rparr> \<and>
        parsed e' \<and> sc_depth sc' = sc_depth sc \<and> sc_argnames sc' @ binders e' = genvars v (sc_nargs sc + length (binders e)) \<and>
        free_syms (rev (sc_argnames sc')) e' = free_syms (rev (sc_argnames sc)) e)"

definition to_rename :: "nat \<Rightarrow> scomb \<Rightarrow> bool" where
  "to_rename v sc \<longleftrightarrow> (\<exists>e. sc_body sc = Some e \<and> parsed e) \<and> (\<forall>x \<in> body_names sc. stale v x)"

lemma to_rename_mono: "to_rename v sc \<Longrightarrow> v \<le> v' \<Longrightarrow> to_rename v' sc"
  by (auto simp: to_rename_def intro: stale_mono)

lemma rename_variables_step:
  assumes "i < length (scombs src)" and "to_rename (varno src) (scombs src ! i)" and room: "stack_room (sc_depth (scombs src ! i))"
  shows "\<exists>src' sc'. rename_variables src i = Some src' \<and> renamed (varno src) (scombs src ! i) sc' \<and>
     scombs src' = (scombs src)[i := sc'] \<and> schash src' = schash src \<and> varno src \<le> varno src'"
proof -
  let ?sc = "scombs src ! i"
  obtain e where e: "sc_body ?sc = Some e" "parsed e" using assms(2) by (auto simp: to_rename_def)
  have st: "\<forall>x \<in> body_names ?sc. stale (varno src) x" using assms(2) by (simp add: to_rename_def)
  note pl = parsed_plain(1) [OF e(2)]
  obtain e1 where r: "rename_variables src i =
      Some (update_scomb (add_vars (sc_argnames ?sc @ binders e) src) i
        (\<lambda>sc. sc\<lparr>sc_body := Some e1, sc_argnames := genvars (varno src) (sc_nargs ?sc)\<rparr>))"
    and b: "rename_sc_body_variables (add_vars (sc_argnames ?sc) src) e (sc_argnames ?sc)
       (genvars (varno src) (sc_nargs ?sc)) = Some (add_vars (sc_argnames ?sc @ binders e) src, e1)"
    and pl1: "plain e1" and d1: "scope_depth e1 = scope_depth e"
    using rename_variables_eq [OF assms(1) e(1) pl room] by blast
  let ?sc' = "?sc\<lparr>sc_body := Some e1, sc_argnames := genvars (varno src) (sc_nargs ?sc)\<rparr>"
  obtain src' e' where c: "rename_variables src i = Some src'" "sc_body (scombs src' ! i) = Some e'"
     "sc_argnames (scombs src' ! i) @ binders e' = genvars (varno src) (sc_nargs ?sc + length (binders e))"
     "anon (rev (sc_argnames (scombs src' ! i))) e' = anon (rev (sc_argnames ?sc)) e"
    using rename_body_ok [OF assms(1) e(1) pl st room] by blast
  have src': "scombs src' ! i = ?sc'" "e' = e1" "scombs src' = (scombs src)[i := ?sc']"
    "schash src' = schash src" "varno src \<le> varno src'"
    using c(1,2) r assms(1) by (auto simp: update_scomb_def add_vars_def)
  have "parsed e1"
    using rename_parsed(1) [OF e(2)] b by (auto simp: rename_sc_body_variables_def split: Option.bind_split_asm)
  moreover have "free_syms (rev (sc_argnames ?sc')) e1 = free_syms (rev (sc_argnames ?sc)) e"
    using c(4) src'(1,2) free_syms_anon(1) [OF pl] free_syms_anon(1) [OF pl1] by simp
  ultimately have "renamed (varno src) ?sc ?sc'"
    unfolding renamed_def using e(1) c(3) src'(1,2) d1
    by (intro exI [of _ e] exI [of _ e1]) (simp add: sc_depth_def)
  with c(1) src'(3-5) show ?thesis by blast
qed

lemma rename_all_ok:
  "distinct is \<Longrightarrow> \<forall>i \<in> set is. i < length (scombs src) \<and> to_rename (varno src) (scombs src ! i) \<and> stack_room (sc_depth (scombs src ! i)) \<Longrightarrow>
   \<exists>src'. rename_all src is = Some src' \<and> length (scombs src') = length (scombs src) \<and>
     schash src' = schash src \<and>
     (\<forall>i. i \<notin> set is \<longrightarrow> scombs src' ! i = scombs src ! i) \<and>
     (\<forall>i \<in> set is. \<exists>v. renamed v (scombs src ! i) (scombs src' ! i))"
proof (induction "is" arbitrary: src)
  case (Cons i "is")
  then have i: "i < length (scombs src)" "to_rename (varno src) (scombs src ! i)" "stack_room (sc_depth (scombs src ! i))" by auto
  from rename_variables_step [OF i] obtain src1 sc1 where
    s1: "rename_variables src i = Some src1" "renamed (varno src) (scombs src ! i) sc1"
      "scombs src1 = (scombs src)[i := sc1]" "schash src1 = schash src" "varno src \<le> varno src1" by blast
  have other: "scombs src1 ! j = scombs src ! j" if "j \<in> set is" for j
    using that Cons.prems(1) s1(3) by (metis distinct.simps(2) nth_list_update_neq)
  then have "\<forall>j \<in> set is. j < length (scombs src1) \<and> to_rename (varno src1) (scombs src1 ! j) \<and> stack_room (sc_depth (scombs src1 ! j))"
    using Cons.prems s1(3,5) by (auto intro: to_rename_mono)
  from Cons.IH [OF _ this] Cons.prems(1) obtain src' where
    r: "rename_all src1 is = Some src'" "length (scombs src') = length (scombs src1)"
    "schash src' = schash src1" "\<forall>j. j \<notin> set is \<longrightarrow> scombs src' ! j = scombs src1 ! j"
    "\<forall>j \<in> set is. \<exists>v. renamed v (scombs src1 ! j) (scombs src' ! j)" by auto
  have "scombs src' ! i = sc1" "\<forall>j. j \<notin> set (i # is) \<longrightarrow> scombs src' ! j = scombs src ! j"
    using r(4) Cons.prems(1) s1(3) i(1) by auto
  moreover have "\<forall>j \<in> set is. \<exists>v. renamed v (scombs src ! j) (scombs src' ! j)"
    using r(5) other by auto
  ultimately show ?case using s1 r(1-3) by auto
qed simp

lemma rename_all_exits:
  "distinct is \<Longrightarrow> \<forall>i \<in> set is. i < length (scombs src) \<and> to_rename (varno src) (scombs src ! i) \<Longrightarrow>
   \<exists>i \<in> set is. \<not> stack_room (sc_depth (scombs src ! i)) \<Longrightarrow> rename_all src is = None"
proof (induction "is" arbitrary: src)
  case (Cons i "is")
  then have i: "i < length (scombs src)" "to_rename (varno src) (scombs src ! i)" by auto
  show ?case
  proof (cases "stack_room (sc_depth (scombs src ! i))")
    case True
    from rename_variables_step [OF i True] obtain src1 sc1 where
      s1: "rename_variables src i = Some src1" "scombs src1 = (scombs src)[i := sc1]" "varno src \<le> varno src1" by blast
    have other: "scombs src1 ! j = scombs src ! j" if "j \<in> set is" for j
      using that Cons.prems(1) s1(2) by (metis distinct.simps(2) nth_list_update_neq)
    then have "\<forall>j \<in> set is. j < length (scombs src1) \<and> to_rename (varno src1) (scombs src1 ! j)"
      using Cons.prems s1(2,3) by (auto intro: to_rename_mono)
    moreover have "\<exists>j \<in> set is. \<not> stack_room (sc_depth (scombs src1 ! j))" using Cons.prems(3) True other by auto
    ultimately show ?thesis using Cons.IH [of src1] Cons.prems(1) s1(1) by simp
  next
    case False
    then show ?thesis using rename_variables_exits i(2) by (auto simp: to_rename_def)
  qed
qed simp

subsection \<open>Resolving all supercombinators\<close>

definition sc_free :: "scomb \<Rightarrow> unboundvar list" where
  "sc_free sc = (case sc_body sc of None \<Rightarrow> [] | Some e \<Rightarrow> free_syms (rev (sc_argnames sc)) e)"

definition sc_unresolved :: "source \<Rightarrow> scomb \<Rightarrow> unboundvar list" where
  "sc_unresolved src sc = unresolved src (sc_modname sc) (sc_free sc)"

definition to_resolve :: "scomb \<Rightarrow> bool" where
  "to_resolve sc \<longleftrightarrow> (\<exists>e. sc_body sc = Some e \<and> parsed e) \<and> stack_room (sc_depth sc)"

definition resolved :: "source \<Rightarrow> scomb \<Rightarrow> scomb \<Rightarrow> bool" where
  "resolved src sc sc' \<longleftrightarrow>
     (\<exists>e e'. sc_body sc = Some e \<and> sc' = sc\<lparr>sc_body := Some e'\<rparr> \<and> plain e' \<and>
        refs_ok (length (scombs src)) e' \<and> binders e' = binders e \<and>
        sc_free sc' = sc_unresolved src sc)"

lemma resolve_refs_step:
  assumes "i < length (scombs src)" and "to_resolve (scombs src ! i)" and "source_ok src"
  shows "\<exists>src' sc'. resolve_refs src i ub = Some (src', ub @ sc_unresolved src (scombs src ! i)) \<and>
     resolved src (scombs src ! i) sc' \<and> scombs src' = (scombs src)[i := sc'] \<and>
     sc_names src' = sc_names src \<and> schash src' = schash src"
proof -
  let ?sc = "scombs src ! i"
  obtain e where e: "sc_body ?sc = Some e" "parsed e" using assms(2) by (auto simp: to_resolve_def)
  have room: "stack_room (length (rev (sc_argnames ?sc)) + scope_depth e)" using assms(2) e(1) by (simp add: to_resolve_def sc_depth_def)
  have push: "push_items [] (sc_argnames ?sc) = Some (rev (sc_argnames ?sc))"
    using push_items_room [of "[]" "sc_argnames ?sc" "scope_depth e"] room by simp
  from resolve_correct(1) [OF e(2) assms(3) room, of ub "sc_modname ?sc"]
  obtain e' where e': "resolve_refs_r src e (rev (sc_argnames ?sc)) ub (sc_modname ?sc) =
      Some (e', ub @ sc_unresolved src ?sc)"
    "free_syms (rev (sc_argnames ?sc)) e' = sc_unresolved src ?sc" "binders e' = binders e"
    "refs_ok (length (scombs src)) e'" "plain e'"
    using e(1) by (auto simp: sc_unresolved_def sc_free_def)
  let ?f = "\<lambda>sc. sc\<lparr>sc_body := Some e'\<rparr>"
  have "resolve_refs src i ub = Some (update_scomb src i ?f, ub @ sc_unresolved src ?sc)"
    using e(1) e'(1) push by (simp add: resolve_refs_def Let_def)
  moreover have "resolved src ?sc (?f ?sc)"
    using e(1) e' by (auto simp: resolved_def sc_free_def)
  moreover have "sc_names (update_scomb src i ?f) = sc_names src"
    using assms(1) by (rule sc_names_update) simp
  ultimately show ?thesis by (auto simp: update_scomb_def)
qed

lemma resolved_cong: "sc_names src = sc_names src' \<Longrightarrow> schash src = schash src' \<Longrightarrow> resolved src = resolved src'"
  using denotes_cong [of src src']
  by (auto simp: fun_eq_iff resolved_def sc_unresolved_def) (metis length_map)+

lemma resolve_all_ok:
  "distinct is \<Longrightarrow> \<forall>i \<in> set is. i < length (scombs src) \<and> to_resolve (scombs src ! i) \<Longrightarrow> source_ok src \<Longrightarrow>
   \<exists>src'. resolve_all src is ub =
       Some (src', ub @ concat (map (\<lambda>i. sc_unresolved src (scombs src ! i)) is)) \<and>
     sc_names src' = sc_names src \<and> schash src' = schash src \<and>
     (\<forall>i. i \<notin> set is \<longrightarrow> scombs src' ! i = scombs src ! i) \<and>
     (\<forall>i \<in> set is. resolved src (scombs src ! i) (scombs src' ! i))"
proof (induction "is" arbitrary: src ub)
  case (Cons i "is")
  then have i: "i < length (scombs src)" "to_resolve (scombs src ! i)" by auto
  from resolve_refs_step [OF i Cons.prems(3), of ub] obtain src1 sc1 where
    s1: "resolve_refs src i ub = Some (src1, ub @ sc_unresolved src (scombs src ! i))"
      "resolved src (scombs src ! i) sc1" "scombs src1 = (scombs src)[i := sc1]"
      "sc_names src1 = sc_names src" "schash src1 = schash src" by blast
  have ok1: "source_ok src1" and un: "sc_unresolved src1 = sc_unresolved src" and rs: "resolved src1 = resolved src"
    using denotes_cong [OF s1(4,5)] Cons.prems(3) resolved_cong [OF s1(4,5)]
    by (auto simp: fun_eq_iff sc_unresolved_def)
  have other: "scombs src1 ! j = scombs src ! j" if "j \<in> set is" for j
    using that Cons.prems(1) s1(3) by (metis distinct.simps(2) nth_list_update_neq)
  have "\<forall>j \<in> set is. j < length (scombs src1) \<and> to_resolve (scombs src1 ! j)"
    using Cons.prems(2) s1(3) other by auto
  from Cons.IH [OF _ this ok1, of "ub @ sc_unresolved src (scombs src ! i)"] Cons.prems(1)
  obtain src' where r: "resolve_all src1 is (ub @ sc_unresolved src (scombs src ! i)) =
      Some (src', ub @ sc_unresolved src (scombs src ! i) @
        concat (map (\<lambda>i. sc_unresolved src1 (scombs src1 ! i)) is))"
    "sc_names src' = sc_names src1" "schash src' = schash src1"
    "\<forall>j. j \<notin> set is \<longrightarrow> scombs src' ! j = scombs src1 ! j"
    "\<forall>j \<in> set is. resolved src1 (scombs src1 ! j) (scombs src' ! j)" by auto
  have un': "map (\<lambda>i. sc_unresolved src1 (scombs src1 ! i)) is = map (\<lambda>i. sc_unresolved src (scombs src ! i)) is"
    using other by (simp add: un)
  have "scombs src' ! i = sc1" "\<forall>j. j \<notin> set (i # is) \<longrightarrow> scombs src' ! j = scombs src ! j"
    using r(4) Cons.prems(1) s1(3) i(1) by auto
  moreover have "\<forall>j \<in> set is. resolved src (scombs src ! j) (scombs src' ! j)"
    using r(5) rs other by auto
  ultimately show ?case using s1 r(1) [unfolded un'] r(2,3) by auto
qed simp

subsection \<open>The driver\<close>

lemma stale_no_prefix: "\<not> has_genvar_prefix x \<Longrightarrow> stale v x"
  using make_varname_stale [of v x] by (simp add: make_varname_def)

lemma to_rename_pad_main:
  assumes "to_rename v sc"
  shows "to_rename v (pad_main sc)"
proof -
  have "stale v ''__args''" "stale v ''__stdin''"
    by (simp_all add: stale_no_prefix has_genvar_prefix_def GENVAR_PREFIX_def)
  moreover have "stale v (sc_argnames sc ! 0)" if "sc_nargs sc = 1"
    using assms that by (simp add: to_rename_def body_names_def)
  ultimately show ?thesis using assms
    by (auto simp: to_rename_def body_names_def pad_main_def)
qed

lemma to_rename_force_strict: "to_rename v (force_strict sc) = to_rename v sc"
  by (simp add: to_rename_def body_names_def force_strict_def)

lemma check_for_main_keeps:
  assumes "check_for_main src = Inr src0" and "\<forall>sc \<in> set (scombs src). to_rename v sc"
  shows "sc_names src0 = sc_names src \<and> schash src0 = schash src \<and> varno src0 = varno src \<and>
         (\<forall>sc \<in> set (scombs src0). to_rename v sc)"
  using assms
  by (auto simp: check_for_main_def check_for_main_from_eq pad_main_def [THEN arg_cong, of sc_name]
      to_rename_pad_main split: if_splits)

lemma renamed_keeps: "renamed v sc sc' \<Longrightarrow> sc_name sc' = sc_name sc \<and> sc_modname sc' = sc_modname sc \<and>
    sc_free sc' = sc_free sc \<and> (stack_room (sc_depth sc) \<longrightarrow> to_resolve sc')"
proof -
  assume "renamed v sc sc'"
  then obtain e e' where r: "sc_body sc = Some e" "sc' = sc\<lparr>sc_body := Some e', sc_argnames := sc_argnames sc'\<rparr>"
    "parsed e'" "free_syms (rev (sc_argnames sc')) e' = free_syms (rev (sc_argnames sc)) e" "sc_depth sc' = sc_depth sc"
    by (auto simp: renamed_def)
  have "sc_body sc' = Some e'" "sc_name sc' = sc_name sc" "sc_modname sc' = sc_modname sc"
    by (subst r(2), simp)+
  with r(1,3,4,5) show ?thesis by (auto simp: sc_free_def to_resolve_def)
qed

text \<open>What the later stages may rely on for each supercombinator.\<close>

definition closed_scomb :: "nat \<Rightarrow> scomb \<Rightarrow> bool" where
  "closed_scomb n sc \<longleftrightarrow>
     (\<exists>e. sc_body sc = Some e \<and> plain e \<and> refs_ok n e \<and> free_syms (rev (sc_argnames sc)) e = [] \<and>
          distinct (sc_argnames sc @ binders e))"

lemma renamed_resolved_closed:
  assumes "renamed v sc sc1" and "resolved src sc1 sc2" and "sc_unresolved src sc1 = []"
  shows "closed_scomb (length (scombs src)) sc2"
proof -
  obtain e1 where e1: "sc_body sc1 = Some e1" "distinct (sc_argnames sc1 @ binders e1)"
  proof -
    from assms(1) obtain e e1 where "sc1 = sc\<lparr>sc_body := Some e1, sc_argnames := sc_argnames sc1\<rparr>"
      "sc_argnames sc1 @ binders e1 = genvars v (sc_nargs sc + length (binders e))"
      by (auto simp: renamed_def)
    moreover from this(1) have "sc_body sc1 = Some e1" by (metis scomb.select_convs(3) scomb.surjective
        scomb.update_convs(2) scomb.update_convs(3))
    ultimately show ?thesis using that distinct_genvars by metis
  qed
  with assms(2,3) show ?thesis by (auto simp: resolved_def closed_scomb_def sc_free_def)
qed

lemma resolve_names_eq:
  assumes "length scs' = length scs" and "\<And>i. i < length scs \<Longrightarrow> f (scs' ! i) = f (scs ! i)"
  shows "map f scs' = map f scs"
  using assms by (auto simp: list_eq_iff_nth_eq)

lemma compile_stage_ok: "source_ok src \<Longrightarrow> compile_stage src = Some ()"
  by (auto simp: compile_stage_def schash_check_def source_ok_def chains_ok_def list_all_iff)

lemma rename_resolve_all:
  assumes ok: "source_ok src" and todo: "\<forall>sc \<in> set (scombs src). to_rename (varno src) sc"
    and room: "\<forall>sc \<in> set (scombs src). stack_room (sc_depth sc)"
  defines "n \<equiv> length (scombs src)"
  defines "ub \<equiv> concat (map (sc_unresolved src) (scombs src))"
  shows "\<exists>src2 src3. rename_all src [0 ..< n] = Some src2 \<and> resolve_all src2 [0 ..< n] [] = Some (src3, ub) \<and>
     compile_stage src2 = Some () \<and> sc_names src3 = sc_names src \<and> schash src3 = schash src \<and>
     (ub = [] \<longrightarrow> (\<forall>sc \<in> set (scombs src3). closed_scomb n sc))"
proof -
  have "\<forall>i \<in> set [0 ..< n]. i < length (scombs src) \<and> to_rename (varno src) (scombs src ! i) \<and> stack_room (sc_depth (scombs src ! i))"
    using todo room by (simp add: n_def)
  from rename_all_ok [OF distinct_upt this] obtain src2 where
    r: "rename_all src [0 ..< n] = Some src2" "length (scombs src2) = n" "schash src2 = schash src"
      "\<forall>i < n. \<exists>v. renamed v (scombs src ! i) (scombs src2 ! i)" by (auto simp: n_def)
  have keep: "sc_name (scombs src2 ! i) = sc_name (scombs src ! i)"
    "sc_unresolved src2 (scombs src2 ! i) = sc_unresolved src2 (scombs src ! i)"
    "to_resolve (scombs src2 ! i)" if "i < n" for i
  proof -
    obtain v where "renamed v (scombs src ! i) (scombs src2 ! i)" using r(4) \<open>i < n\<close> by blast
    from renamed_keeps [OF this]
    show "sc_name (scombs src2 ! i) = sc_name (scombs src ! i)" "to_resolve (scombs src2 ! i)"
      "sc_unresolved src2 (scombs src2 ! i) = sc_unresolved src2 (scombs src ! i)"
      using room \<open>i < n\<close> by (simp_all add: sc_unresolved_def n_def)
  qed
  have names2: "sc_names src2 = sc_names src"
    using r(2) keep(1) by (intro resolve_names_eq) (auto simp: n_def)
  note eq2 = denotes_cong [OF names2 r(3)]
  have un: "sc_unresolved src2 = sc_unresolved src"
    using eq2 by (simp add: fun_eq_iff sc_unresolved_def)
  have ok2: "source_ok src2" using ok eq2 by simp
  have "\<forall>i \<in> set [0 ..< n]. i < length (scombs src2) \<and> to_resolve (scombs src2 ! i)"
    using keep(3) r(2) by simp
  from resolve_all_ok [OF distinct_upt this ok2, of "[]"] obtain src3 where
    s: "resolve_all src2 [0 ..< n] [] = Some (src3, concat (map (\<lambda>i. sc_unresolved src2 (scombs src2 ! i)) [0 ..< n]))"
      "sc_names src3 = sc_names src2" "schash src3 = schash src2"
      "\<forall>i < n. resolved src2 (scombs src2 ! i) (scombs src3 ! i)" by auto
  have "map (\<lambda>i. sc_unresolved src2 (scombs src2 ! i)) [0 ..< n] = map (sc_unresolved src) (scombs src)"
    using keep(2) by (intro nth_equalityI) (simp_all add: un n_def)
  then have ub: "concat (map (\<lambda>i. sc_unresolved src2 (scombs src2 ! i)) [0 ..< n]) = ub"
    by (simp add: ub_def)
  have "closed_scomb n (scombs src3 ! i)" if "ub = []" "i < n" for i
  proof -
    obtain v where "renamed v (scombs src ! i) (scombs src2 ! i)" using r(4) \<open>i < n\<close> by blast
    moreover have "sc_unresolved src2 (scombs src2 ! i) = []"
      using that ub by auto
    ultimately show ?thesis using renamed_resolved_closed s(4) that(2) r(2) by metis
  qed
  moreover have "length (scombs src3) = n" using s(2) r(2) by (metis length_map)
  ultimately have "ub = [] \<longrightarrow> (\<forall>sc \<in> set (scombs src3). closed_scomb n sc)"
    by (metis in_set_conv_nth)
  with r(1,3) s ub names2 compile_stage_ok [OF ok2] show ?thesis by auto
qed

lemma force_strict_fields [simp]: "sc_name (force_strict sc) = sc_name sc"
  "sc_argnames (force_strict sc) = sc_argnames sc" "sc_body (force_strict sc) = sc_body sc"
  "sc_modname (force_strict sc) = sc_modname sc"
  by (simp_all add: force_strict_def)

lemma force_strict_keeps:
  "sc_name (force_strict sc) = sc_name sc \<and> sc_unresolved src (force_strict sc) = sc_unresolved src sc"
  by (simp add: sc_unresolved_def sc_free_def split: option.split)

subsection \<open>Properties\<close>

text \<open>C4: the front half of the compiler is correct. For a consistent source whose trees come
  from the parser and which passes the check for \<^verbatim>\<open>main\<close>, renaming and symbol resolution
  return, with or without strict evaluation: no \<^verbatim>\<open>abort\<close> is reached and the table passes the check
  before each stage, unless some supercombinator has more names in scope than a stack holds,
  and then the program exits. They report exactly the free symbols that denote no
  supercombinator (of the own module or global) and no built-in, in program order; when there
  is none, every supercombinator ends up closed: all remaining symbols are bound by its
  arguments or an enclosing binder, all binders have different names, all references point
  into the tables, and the name table is unchanged.\<close>

theorem process_front_correct:
  assumes "source_ok src" and "\<forall>sc \<in> set (scombs src). to_rename (varno src) sc"
    and "check_for_main src = Inr src0"
  shows "if \<exists>sc \<in> set (scombs src0). \<not> stack_room (sc_depth sc) then process_front se src = None
    else \<exists>r. process_front se src = Some r \<and>
     (let ub = concat (map (sc_unresolved src0) (scombs src0))
      in if ub \<noteq> [] then r = Inl (UnboundVariables ub)
         else \<exists>src'. r = Inr src' \<and> source_ok src' \<and> sc_names src' = sc_names src \<and>
                (\<forall>sc \<in> set (scombs src'). closed_scomb (length (scombs src')) sc))"
proof -
  let ?src1 = "if se then src0\<lparr>scombs := map force_strict (scombs src0)\<rparr> else src0"
  let ?n = "length (scombs src0)" and ?ub = "concat (map (sc_unresolved src0) (scombs src0))"
  have k: "sc_names src0 = sc_names src" "schash src0 = schash src" "varno src0 = varno src"
    "\<forall>sc \<in> set (scombs src0). to_rename (varno src0) sc"
    using check_for_main_keeps [OF assms(3,2)] by simp_all
  have ok0: "source_ok src0" using denotes_cong [OF k(1,2)] assms(1) by simp
  have names1: "sc_names ?src1 = sc_names src0" "schash ?src1 = schash src0" "varno ?src1 = varno src0"
    by (simp_all add: force_strict_keeps)
  have ok1: "source_ok ?src1" using denotes_cong [OF names1(1,2)] ok0 by simp
  have todo: "\<forall>sc \<in> set (scombs ?src1). to_rename (varno ?src1) sc"
    using k(4) by (auto simp: to_rename_force_strict)
  have deep: "(\<exists>sc \<in> set (scombs ?src1). \<not> stack_room (sc_depth sc)) \<longleftrightarrow> (\<exists>sc \<in> set (scombs src0). \<not> stack_room (sc_depth sc))"
    by (auto simp: sc_depth_def)
  show ?thesis
  proof (cases "\<exists>sc \<in> set (scombs src0). \<not> stack_room (sc_depth sc)")
    case True
    then have "\<exists>i \<in> set [0 ..< ?n]. \<not> stack_room (sc_depth (scombs ?src1 ! i))"
      using deep by (auto simp: in_set_conv_nth Bex_def split: if_splits)
    with rename_all_exits [OF distinct_upt, of 0 ?n ?src1] todo have "rename_all ?src1 [0 ..< ?n] = None" by auto
    then show ?thesis using True assms(3) compile_stage_ok [OF ok1] by (simp add: process_front_def Let_def)
  next
    case False
    have "sc_unresolved ?src1 = sc_unresolved src0"
      using denotes_cong [OF names1(1,2)] by (simp add: fun_eq_iff sc_unresolved_def)
    then have ub1: "concat (map (sc_unresolved ?src1) (scombs ?src1)) = ?ub"
      by (auto simp: force_strict_keeps comp_def)
    have room: "\<forall>sc \<in> set (scombs ?src1). stack_room (sc_depth sc)" using False deep by blast
    from rename_resolve_all [OF ok1 todo room] obtain src2 src3 where
      r: "rename_all ?src1 [0 ..< ?n] = Some src2" "resolve_all src2 [0 ..< ?n] [] = Some (src3, ?ub)" "compile_stage src2 = Some ()"
        "sc_names src3 = sc_names ?src1" "schash src3 = schash ?src1"
        "?ub = [] \<longrightarrow> (\<forall>sc \<in> set (scombs src3). closed_scomb ?n sc)"
      unfolding ub1 by (auto split: if_splits)
    have "source_ok src3" using denotes_cong [OF r(4,5)] ok1 by simp
    moreover have "length (scombs src3) = ?n" using r(4) names1(1) by (metis length_map)
    moreover have "process_front se src = Some (if ?ub \<noteq> [] then Inl (UnboundVariables ?ub) else Inr src3)"
      using r(1,2,3) assms(3) compile_stage_ok [OF ok1] by (simp add: process_front_def handle_unbound_def Let_def)
    ultimately show ?thesis using r(4,6) names1(1) k(1) False by (auto simp: Let_def)
  qed
qed

theorem process_front_correct_witness:
  "\<exists>src src'. process_front True src = Some (Inr src') \<and> source_ok src' \<and>
     (\<forall>sc \<in> set (scombs src'). closed_scomb 1 sc)"
proof -
  let ?e = "Application noloc False (Application noloc False (Symbol noloc ''main'') (Symbol noloc ''args''))
              (Symbol noloc ''stdin'')"
  let ?sc = "scomb_zero\<lparr>sc_name := ''main'', sc_argnames := [''args'', ''stdin''], sc_body := Some ?e\<rparr>"
  let ?src = "source_new\<lparr>scombs := [?sc], schash := (\<lambda>h. if h = bucket ''main'' then [0] else [])\<rparr>"
  have h: "source_ok ?src" "\<forall>sc \<in> set (scombs ?src). to_rename (varno ?src) sc"
    by (auto simp: source_ok_def chains_ok_def to_rename_def body_names_def
        stale_no_prefix has_genvar_prefix_def GENVAR_PREFIX_def)
  have main: "check_for_main ?src = Inr ?src"
    by (simp add: check_for_main_def scomb_zero_def)
  have g: "get_scomb ?src ''main'' = Some 0" by (simp add: get_scomb_def)
  have "denotes ?src None ''main''" "sc_modname scomb_zero = None"
    by (simp add: denotes_def) (simp add: scomb_zero_def)
  then have "sc_unresolved ?src ?sc = []"
    by (simp add: sc_unresolved_def sc_free_def unresolved_def)
  moreover have "stack_room (sc_depth ?sc)" by (simp add: sc_depth_def stack_room_def STACK_MAX_def)
  ultimately obtain src' where
    "process_front True ?src = Some (Inr src')" "source_ok src'" "sc_names src' = sc_names ?src"
    "\<forall>sc \<in> set (scombs src'). closed_scomb (length (scombs src')) sc"
    using process_front_correct [OF h main, of True] by (auto simp: Let_def)
  moreover from arg_cong [OF this(3), of length] have "length (scombs src') = 1" by simp
  ultimately show ?thesis by (intro exI [of _ ?src] exI [of _ src']) simp
qed

end
