(* ===== verification/Strictness.thy ===== *)
theory Strictness
  imports Resolve "HOL-Library.List_Lexorder" "HOL-Library.Char_ord"
begin

text \<open>
  Strictness analysis (\<^verbatim>\<open>compiler/strictness.c\<close>): which arguments of a supercombinator, which
  letrec bindings and which argument positions of known calls are certain to be evaluated.

  The recursion over a tree and the loop over the bindings of a letrec are bounded by fuel:
  \<open>analyse\<close> below stands for \<^verbatim>\<open>check_strictness_r\<close> with one unit less. The trees are
  returned with the flags the C code writes into them. The meaning of the flags is stated
  against a lazy abstract machine, with the built-in functions other than \<^verbatim>\<open>if\<close> and \<^verbatim>\<open>seq\<close>
  as a parameter.
\<close>

subsection \<open>Sorted lists of names\<close>

text \<open>Only the sign of the result of the library function is specified.\<close>

fun strcmp :: "string \<Rightarrow> string \<Rightarrow> int" where
  "strcmp [] [] = 0"
| "strcmp [] (d # t) = - 1"
| "strcmp (c # s) [] = 1"
| "strcmp (c # s) (d # t) = (if c = d then strcmp s t else of_char c - of_char d)"

fun add_var :: "string list \<Rightarrow> string \<Rightarrow> string list" where
  "add_var [] name = [name]"
| "add_var (x # xs) name =
     (let cmp = strcmp x name
      in if cmp < 0 then x # add_var xs name
         else if cmp \<noteq> 0 then list_push (x # xs) name
         else x # xs)"

fun add_union :: "string list \<Rightarrow> string list \<Rightarrow> string list \<Rightarrow> string list" where
  "add_union dest (a # as) (b # bs) =
     (let cmp = strcmp a b
      in if cmp < 0 then add_union dest as (b # bs)
         else if cmp > 0 then add_union dest (a # as) bs
         else add_union (add_var dest a) as bs)"
| "add_union dest as bs = dest"

subsection \<open>Functions in call position\<close>

fun spine_head :: "snode \<Rightarrow> snode" where
  "spine_head (Application l s a b) = spine_head a"
| "spine_head e = e"

fun spine_len :: "snode \<Rightarrow> nat" where
  "spine_len (Application l s a b) = Suc (spine_len a)"
| "spine_len e = 0"

definition fun_nargs :: "source \<Rightarrow> snode \<Rightarrow> nat option" where
  "fun_nargs src c =
     (case c of
        Scref l i \<Rightarrow> Some (sc_nargs (scombs src ! i))
      | Builtin l b \<Rightarrow> Some (bi_nargs (builtin_info ! b))
      | _ \<Rightarrow> None)"

definition fun_strictin :: "source \<Rightarrow> snode \<Rightarrow> nat \<Rightarrow> bool option" where
  "fun_strictin src c argno =
     (case c of
        Scref l i \<Rightarrow> (case sc_strictin (scombs src ! i) of
                        None \<Rightarrow> None
                      | Some st \<Rightarrow> if argno < length st then Some (st ! argno) else None)
      | Builtin l b \<Rightarrow> Some (argno < bi_nstrict (builtin_info ! b))
      | _ \<Rightarrow> None)"

fun is_bif :: "nat \<Rightarrow> snode \<Rightarrow> bool" where
  "is_bif b (Builtin l f) = (f = b)"
| "is_bif b e = False"

subsection \<open>The analysis of one tree\<close>

type_synonym analysis = "snode \<Rightarrow> string list \<Rightarrow> bool \<Rightarrow> (snode \<times> string list \<times> bool) option"

text \<open>The loop over the arguments of a known call, last argument first.\<close>

fun strict_args :: "source \<Rightarrow> analysis \<Rightarrow> snode \<Rightarrow> nat \<Rightarrow> analysis" where
  "strict_args src analyse f 0 app used changed = Some (app, used, changed)"
| "strict_args src analyse f (Suc argno) (Application l s a b) used changed =
     do { st \<leftarrow> fun_strictin src f argno;
          (b', used1, changed1) \<leftarrow>
             (if st then analyse b used (changed \<or> \<not> s) else Some (b, used, changed));
          (a', used2, changed2) \<leftarrow> strict_args src analyse f argno a used1 changed1;
          Some (Application l (s \<or> st) a' b', used2, changed2) }"
| "strict_args src analyse f (Suc argno) app used changed = None"

fun if_branches :: "analysis \<Rightarrow> analysis" where
  "if_branches analyse (Application l s (Application l' s' a truebranch) falsebranch) used changed =
     do { (t, trueused, changed1) \<leftarrow> analyse truebranch [] changed;
          (f, falseused, changed2) \<leftarrow> analyse falsebranch [] changed1;
          Some (Application l s (Application l' s' a t) f, add_union used trueused falseused, changed2) }"
| "if_branches analyse c used changed = None"

fun seq_after :: "analysis \<Rightarrow> analysis" where
  "seq_after analyse (Application l s a after) used changed =
     do { (b, afterused, changed1) \<leftarrow> analyse after [] changed;
          Some (Application l s a b, used, changed1) }"
| "seq_after analyse c used changed = None"

fun call_head :: "analysis \<Rightarrow> analysis" where
  "call_head analyse (Application l s a b) used changed =
     do { (a', used1, changed1) \<leftarrow> analyse a used changed;
          Some (Application l s a' b, used1, changed1) }"
| "call_head analyse c used changed = None"

text \<open>The loop of a letrec: the strict bindings, the body, then the bindings found used.\<close>

fun strict_values :: "analysis \<Rightarrow> letrec list \<Rightarrow> string list \<Rightarrow> bool \<Rightarrow>
                      (letrec list \<times> string list \<times> bool) option" where
  "strict_values analyse [] used changed = Some ([], used, changed)"
| "strict_values analyse (Letrec n v st sc # rs) used changed =
     do { (v', used1, changed1) \<leftarrow> (if st then analyse v used changed else Some (v, used, changed));
          (rs', used2, changed2) \<leftarrow> strict_values analyse rs used1 changed1;
          Some (Letrec n v' st sc # rs', used2, changed2) }"

definition newly_used :: "string list \<Rightarrow> letrec \<Rightarrow> bool" where
  "newly_used bodyused r \<longleftrightarrow> \<not> rec_strict r \<and> list_contains_string (map Some bodyused) (Some (rec_name r))"

definition mark_used :: "string list \<Rightarrow> letrec \<Rightarrow> letrec" where
  "mark_used bodyused r =
     (if newly_used bodyused r then Letrec (rec_name r) (rec_value r) True (rec_sc r) else r)"

fun letrec_loop :: "analysis \<Rightarrow> nat \<Rightarrow> letrec list \<Rightarrow> snode \<Rightarrow> string list \<Rightarrow> bool \<Rightarrow>
                    (letrec list \<times> snode \<times> string list \<times> bool) option" where
  "letrec_loop analyse 0 rs body bodyused changed = None"
| "letrec_loop analyse (Suc n) rs body bodyused changed =
     do { (rs1, used1, changed1) \<leftarrow> strict_values analyse rs bodyused changed;
          (body1, used2, changed2) \<leftarrow> analyse body used1 changed1;
          let rs2 = map (mark_used used2) rs1;
          if list_ex (newly_used used2) rs1
          then letrec_loop analyse n rs2 body1 used2 True
          else Some (rs2, body1, used2, changed2) }"

definition outer_used :: "letrec list \<Rightarrow> string list \<Rightarrow> string list \<Rightarrow> string list" where
  "outer_used rs bodyused used =
     foldl add_var used (filter (\<lambda>x. \<not> list_ex (\<lambda>r. x = rec_name r) rs) bodyused)"

definition check_application :: "source \<Rightarrow> analysis \<Rightarrow> analysis" where
  "check_application src analyse c used changed =
     (let fun = spine_head c; nargs = spine_len c
      in do { (c1, used1, changed1) \<leftarrow>
                (if fun_nargs src fun = Some nargs
                 then do { (c1, used1, changed1) \<leftarrow> strict_args src analyse fun nargs c used changed;
                           (c2, used2, changed2) \<leftarrow>
                             (if is_bif B_IF fun then if_branches analyse c1 used1 changed1
                              else Some (c1, used1, changed1));
                           if is_bif B_SEQ fun then seq_after analyse c2 used2 changed2
                           else Some (c2, used2, changed2) }
                 else Some (c, used, changed));
              call_head analyse c1 used1 changed1 })"

primrec check_strictness_r :: "source \<Rightarrow> nat \<Rightarrow> analysis" where
  "check_strictness_r src 0 c used changed = None"
| "check_strictness_r src (Suc fuel) c used changed =
     (case c of
        LetrecNode l rs body \<Rightarrow>
          do { (rs', body', bodyused, changed') \<leftarrow>
                 letrec_loop (check_strictness_r src fuel) fuel rs body [] changed;
               Some (LetrecNode l rs' body', outer_used rs' bodyused used, changed') }
      | Application l s a b \<Rightarrow>
          check_application src (check_strictness_r src fuel) (Application l s a b) used changed
      | Symbol l x \<Rightarrow> Some (c, add_var used x, changed)
      | Builtin l f \<Rightarrow> Some (c, used, changed)
      | Scref l i \<Rightarrow> Some (c, used, changed)
      | NilNode l \<Rightarrow> Some (c, used, changed)
      | Number l d \<Rightarrow> Some (c, used, changed)
      | StringNode l v \<Rightarrow> Some (c, used, changed)
      | _ \<Rightarrow> None)"

subsection \<open>The analysis of the program\<close>

definition check_strictness :: "nat \<Rightarrow> source \<Rightarrow> nat \<Rightarrow> bool \<Rightarrow> (source \<times> bool) option" where
  "check_strictness fuel src i changed =
     (let sc = scombs src ! i
      in do { body \<leftarrow> sc_body sc;
              (body', used, changed1) \<leftarrow> check_strictness_r src fuel body [] changed;
              st \<leftarrow> sc_strictin sc;
              let strictin = map (\<lambda>j. st ! j \<or> list_contains_string (map Some used) (Some (sc_argnames sc ! j))) [0 ..< sc_nargs sc];
              Some (update_scomb src i (\<lambda>sc. sc\<lparr>sc_body := Some body', sc_strictin := Some strictin\<rparr>),
                    changed1 \<or> st \<noteq> strictin) })"

fun strictness_pass :: "nat \<Rightarrow> source \<Rightarrow> nat list \<Rightarrow> bool \<Rightarrow> (source \<times> bool) option" where
  "strictness_pass fuel src [] changed = Some (src, changed)"
| "strictness_pass fuel src (i # is) changed =
     do { (src1, changed1) \<leftarrow> check_strictness fuel src i changed;
          strictness_pass fuel src1 is changed1 }"

fun strictness_loop :: "nat \<Rightarrow> nat \<Rightarrow> source \<Rightarrow> source option" where
  "strictness_loop fuel 0 src = None"
| "strictness_loop fuel (Suc n) src =
     do { (src1, changed) \<leftarrow> strictness_pass fuel src [0 ..< length (scombs src)] False;
          if changed then strictness_loop fuel n src1 else Some src1 }"

definition init_strictin :: "scomb \<Rightarrow> scomb" where
  "init_strictin sc =
     (if sc_strictin sc = None then sc\<lparr>sc_strictin := Some (replicate (sc_nargs sc) False)\<rparr> else sc)"

definition strictness_analysis :: "nat \<Rightarrow> source \<Rightarrow> source option" where
  "strictness_analysis fuel src = strictness_loop fuel fuel (src\<lparr>scombs := map init_strictin (scombs src)\<rparr>)"

subsection \<open>Sorted lists represent sets\<close>

lemma of_char_int_less: "(of_char c :: int) < of_char d \<longleftrightarrow> c < d"
proof -
  have "(of_char x :: int) = int (of_char x)" for x :: char
    by (simp only: of_nat_of_char)
  then show ?thesis by (simp only: less_char_def of_nat_less_iff)
qed

lemma strcmp_sign: "strcmp a b < 0 \<longleftrightarrow> a < b" "strcmp a b = 0 \<longleftrightarrow> a = b"
  by (induction a b rule: strcmp.induct) (auto simp: of_char_int_less)

lemma strcmp_cases: "a < b \<and> strcmp a b < 0 \<or> a = b \<and> strcmp a b = 0 \<or> b < a \<and> strcmp a b > 0"
  using strcmp_sign [of a b] by (cases "strcmp a b < 0"; cases "strcmp a b = 0") auto

lemma set_add_var [simp]: "set (add_var xs x) = insert x (set xs)"
  by (induction xs x rule: add_var.induct) (use strcmp_sign in \<open>auto simp: Let_def list_push_def\<close>)

lemma sorted_add_var: "sorted_wrt (<) xs \<Longrightarrow> sorted_wrt (<) (add_var xs x)"
  by (induction xs x rule: add_var.induct)
    (use strcmp_sign in \<open>auto simp: Let_def list_push_def not_less le_less dest: less_trans\<close>)

lemma set_add_union:
  "sorted_wrt (<) as \<Longrightarrow> sorted_wrt (<) bs \<Longrightarrow> set (add_union dest as bs) = set dest \<union> (set as \<inter> set bs)"
proof (induction dest as bs rule: add_union.induct)
  case (1 dest a as b bs)
  consider "a < b" "strcmp a b < 0" | "a = b" "strcmp a b = 0" | "b < a" "strcmp a b > 0"
    using strcmp_cases [of a b] by blast
  then show ?case
  proof cases
    case 1
    with "1.IH"(1) "1.prems" show ?thesis by (auto simp: Let_def)
  next
    case 2
    with "1.IH"(3) "1.prems" show ?thesis by (auto simp: Let_def)
  next
    case 3
    with "1.IH"(2) "1.prems" show ?thesis by (auto simp: Let_def)
  qed
qed auto

lemma sorted_add_union: "sorted_wrt (<) dest \<Longrightarrow> sorted_wrt (<) (add_union dest as bs)"
  by (induction dest as bs rule: add_union.induct) (auto simp: Let_def sorted_add_var)

lemma Some_image [simp]: "Some x \<in> Some ` A \<longleftrightarrow> x \<in> A"
  by auto

subsection \<open>What the analysis keeps and what it marks\<close>

text \<open>A tree without its flags, and the number of flags set.\<close>

fun erase :: "snode \<Rightarrow> snode" and erase_recs :: "letrec list \<Rightarrow> letrec list" where
  "erase (Application l s a b) = Application l False (erase a) (erase b)"
| "erase (Lambda l x b) = Lambda l x (erase b)"
| "erase (LetrecNode l rs b) = LetrecNode l (erase_recs rs) (erase b)"
| "erase (Wrap l t) = Wrap l (erase t)"
| "erase e = e"
| "erase_recs [] = []"
| "erase_recs (Letrec n v st sc # rs) = Letrec n (erase v) False sc # erase_recs rs"

fun nflags :: "snode \<Rightarrow> nat" and nflags_recs :: "letrec list \<Rightarrow> nat" where
  "nflags (Application l s a b) = of_bool s + nflags a + nflags b"
| "nflags (Lambda l x b) = nflags b"
| "nflags (LetrecNode l rs b) = nflags_recs rs + nflags b"
| "nflags (Wrap l t) = nflags t"
| "nflags e = 0"
| "nflags_recs [] = 0"
| "nflags_recs (Letrec n v st sc # rs) = of_bool st + nflags v + nflags_recs rs"

fun nodes :: "snode \<Rightarrow> nat" and nodes_recs :: "letrec list \<Rightarrow> nat" where
  "nodes (Application l s a b) = 1 + nodes a + nodes b"
| "nodes (Lambda l x b) = 1 + nodes b"
| "nodes (LetrecNode l rs b) = 1 + nodes_recs rs + nodes b"
| "nodes (Wrap l t) = 1 + nodes t"
| "nodes e = 1"
| "nodes_recs [] = 0"
| "nodes_recs (Letrec n v st sc # rs) = 1 + nodes v + nodes_recs rs"

lemma nflags_le_nodes: "nflags e \<le> nodes e" "nflags_recs rs \<le> nodes_recs rs"
  by (induction e and rs rule: nflags_nflags_recs.induct) (auto simp: of_bool_def)

lemma nodes_erase [simp]: "nodes (erase e) = nodes e" "nodes_recs (erase_recs rs) = nodes_recs rs"
  by (induction e and rs rule: erase_erase_recs.induct) auto

lemma erase_erase [simp]: "erase (erase e) = erase e" "erase_recs (erase_recs rs) = erase_recs rs"
  by (induction e and rs rule: erase_erase_recs.induct) auto

lemma erase_recs_map: "erase_recs rs = map (\<lambda>r. Letrec (rec_name r) (erase (rec_value r)) False (rec_sc r)) rs"
proof (induction rs)
  case (Cons r rs)
  then show ?case by (cases r) simp
qed simp

text \<open>One step of the analysis: the tree keeps its shape, flags are only added, a change is
  reported only when one is, names are only added and stay sorted.\<close>

definition step_ok :: "snode \<Rightarrow> string list \<Rightarrow> bool \<Rightarrow> snode \<Rightarrow> string list \<Rightarrow> bool \<Rightarrow> bool" where
  "step_ok c u h c' u' h' \<longleftrightarrow>
     erase c' = erase c \<and> nflags c \<le> nflags c' \<and> (h \<longrightarrow> h') \<and> (h' \<longrightarrow> h \<or> nflags c < nflags c') \<and>
     set u \<subseteq> set u' \<and> (sorted_wrt (<) u \<longrightarrow> sorted_wrt (<) u')"

definition steps_ok :: "analysis \<Rightarrow> bool" where
  "steps_ok an \<longleftrightarrow> (\<forall>c u h c' u' h'. an c u h = Some (c', u', h') \<longrightarrow> step_ok c u h c' u' h')"

lemma step_ok_refl [simp]: "step_ok c u h c u h"
  by (simp add: step_ok_def)

lemma step_ok_trans: "step_ok c u h c1 u1 h1 \<Longrightarrow> step_ok c1 u1 h1 c2 u2 h2 \<Longrightarrow> step_ok c u h c2 u2 h2"
  by (auto simp: step_ok_def)

lemma steps_okD: "steps_ok an \<Longrightarrow> an c u h = Some (c', u', h') \<Longrightarrow> step_ok c u h c' u' h'"
  by (simp add: steps_ok_def)

lemmas bind_simps = bind_eq_Some_conv split_paired_Ex prod.case

lemma strict_args_ok:
  assumes an: "steps_ok an"
  shows "strict_args src an f k c u h = Some (c', u', h') \<Longrightarrow> step_ok c u h c' u' h'"
proof (induction k arbitrary: c u h c' u' h')
  case (Suc k)
  from Suc.prems obtain l s a b where c: "c = Application l s a b" by (cases c) auto
  from Suc.prems obtain st b' u1 h1 a' where
    st: "(if st then an b u (h \<or> \<not> s) else Some (b, u, h)) = Some (b', u1, h1)"
    and a: "strict_args src an f k a u1 h1 = Some (a', u', h')"
    and c': "c' = Application l (s \<or> st) a' b'"
    unfolding c by (auto simp: bind_simps)
  have "st \<Longrightarrow> step_ok b u (h \<or> \<not> s) b' u1 h1" "\<not> st \<Longrightarrow> b' = b \<and> u1 = u \<and> h1 = h"
    using st steps_okD [OF an] by auto
  with Suc.IH [OF a] show ?case unfolding c c' by (cases st; cases s) (auto simp: step_ok_def)
qed auto

lemma if_branches_ok:
  assumes an: "steps_ok an" and "if_branches an c u h = Some (c', u', h')"
  shows "step_ok c u h c' u' h'"
  using assms(2)
proof (cases "(an, c, u, h)" rule: if_branches.cases)
  case (1 an' l s l' s' a t f u1 h1)
  with assms(2) obtain t' tu h2 f' fu where "an t [] h = Some (t', tu, h2)" "an f [] h2 = Some (f', fu, h')"
    "c' = Application l s (Application l' s' a t') f'" "u' = add_union u tu fu"
    by (auto simp: bind_simps)
  moreover from this(1,2) [THEN steps_okD [OF an]] have "set u \<subseteq> set (add_union u tu fu)"
    by (simp add: step_ok_def set_add_union)
  ultimately show ?thesis
    using steps_okD [OF an, of t "[]" h] steps_okD [OF an, of f "[]" h2] 1
    by (auto simp: step_ok_def sorted_add_union)
qed auto

lemma seq_after_ok:
  assumes an: "steps_ok an" and "seq_after an c u h = Some (c', u', h')"
  shows "step_ok c u h c' u' h'"
  using assms(2) by (cases "(an, c, u, h)" rule: seq_after.cases)
    (auto simp: bind_simps step_ok_def dest!: steps_okD [OF an])

lemma call_head_ok:
  assumes an: "steps_ok an" and "call_head an c u h = Some (c', u', h')"
  shows "step_ok c u h c' u' h'"
  using assms(2) by (cases "(an, c, u, h)" rule: call_head.cases)
    (auto simp: bind_simps step_ok_def dest!: steps_okD [OF an])

lemma check_application_ok:
  assumes an: "steps_ok an" and "check_application src an c u h = Some (c', u', h')"
  shows "step_ok c u h c' u' h'"
proof -
  from assms(2) obtain c3 u3 h3 where
    1: "(if fun_nargs src (spine_head c) = Some (spine_len c)
         then do { (c1, u1, h1) \<leftarrow> strict_args src an (spine_head c) (spine_len c) c u h;
                   (c2, u2, h2) \<leftarrow> (if is_bif B_IF (spine_head c) then if_branches an c1 u1 h1 else Some (c1, u1, h1));
                   if is_bif B_SEQ (spine_head c) then seq_after an c2 u2 h2 else Some (c2, u2, h2) }
         else Some (c, u, h)) = Some (c3, u3, h3)"
    and 2: "call_head an c3 u3 h3 = Some (c', u', h')"
    by (auto simp: check_application_def Let_def bind_eq_Some_conv)
  have "step_ok c u h c3 u3 h3"
  proof (cases "fun_nargs src (spine_head c) = Some (spine_len c)")
    case True
    with 1 obtain c1 u1 h1 c2 u2 h2 where
      s: "strict_args src an (spine_head c) (spine_len c) c u h = Some (c1, u1, h1)"
      "(if is_bif B_IF (spine_head c) then if_branches an c1 u1 h1 else Some (c1, u1, h1)) = Some (c2, u2, h2)"
      "(if is_bif B_SEQ (spine_head c) then seq_after an c2 u2 h2 else Some (c2, u2, h2)) = Some (c3, u3, h3)"
      by (auto simp: bind_eq_Some_conv)
    have "step_ok c1 u1 h1 c2 u2 h2" "step_ok c2 u2 h2 c3 u3 h3"
      using s(2,3) by (auto split: if_splits intro: if_branches_ok [OF an] seq_after_ok [OF an])
    with strict_args_ok [OF an s(1)] show ?thesis by (blast intro: step_ok_trans)
  qed (use 1 in simp)
  with call_head_ok [OF an 2] show ?thesis by (blast intro: step_ok_trans)
qed

lemma strict_values_ok:
  assumes an: "steps_ok an"
  shows "strict_values an rs u h = Some (rs', u', h') \<Longrightarrow>
         step_ok (LetrecNode l rs b) u h (LetrecNode l rs' b) u' h' \<and> map rec_strict rs' = map rec_strict rs"
proof (induction rs arbitrary: u h rs')
  case (Cons r rs)
  obtain n v st sc where r: "r = Letrec n v st sc" by (cases r)
  from Cons.prems obtain v' u1 h1 rs1 where
    v: "(if st then an v u h else Some (v, u, h)) = Some (v', u1, h1)"
    and rs: "strict_values an rs u1 h1 = Some (rs1, u', h')" and rs': "rs' = Letrec n v' st sc # rs1"
    unfolding r by (auto simp: bind_eq_Some_conv)
  have "step_ok v u h v' u1 h1" using v steps_okD [OF an] by (auto split: if_splits)
  with Cons.IH [OF rs] show ?case unfolding r rs' by (auto simp: step_ok_def)
qed simp

lemma mark_used_flags:
  "erase_recs (map (mark_used u) rs) = erase_recs rs"
  "nflags_recs rs \<le> nflags_recs (map (mark_used u) rs)"
  "list_ex (newly_used u) rs \<Longrightarrow> nflags_recs rs < nflags_recs (map (mark_used u) rs)"
proof (induction rs)
  case (Cons r rs)
  obtain n v st sc where r: "r = Letrec n v st sc" by (cases r)
  { case 1 show ?case using Cons.IH(1) unfolding r by (simp add: mark_used_def) }
  { case 2 show ?case using Cons.IH(2) unfolding r by (auto simp: mark_used_def of_bool_def) }
  { case 3 with Cons.IH(2,3) show ?case unfolding r by (auto simp: mark_used_def newly_used_def of_bool_def) }
qed simp_all

lemma letrec_loop_ok:
  assumes an: "steps_ok an"
  shows "letrec_loop an k rs b u h = Some (rs', b', u', h') \<Longrightarrow>
         step_ok (LetrecNode l rs b) u h (LetrecNode l rs' b') u' h'"
proof (induction k arbitrary: rs b u h)
  case (Suc k)
  from Suc.prems obtain rs1 u1 h1 b1 u2 h2 where
    1: "strict_values an rs u h = Some (rs1, u1, h1)" and 2: "an b u1 h1 = Some (b1, u2, h2)"
    and 3: "(if list_ex (newly_used u2) rs1 then letrec_loop an k (map (mark_used u2) rs1) b1 u2 True
             else Some (map (mark_used u2) rs1, b1, u2, h2)) = Some (rs', b', u', h')"
    by (auto simp: bind_eq_Some_conv Let_def)
  let ?rs2 = "map (mark_used u2) rs1"
  have "step_ok (LetrecNode l rs b) u h (LetrecNode l rs1 b) u1 h1" using strict_values_ok [OF an 1] by blast
  moreover have "step_ok (LetrecNode l rs1 b) u1 h1 (LetrecNode l rs1 b1) u2 h2"
    using steps_okD [OF an 2] by (auto simp: step_ok_def)
  ultimately have 4: "step_ok (LetrecNode l rs b) u h (LetrecNode l rs1 b1) u2 h2" by (rule step_ok_trans)
  show ?case
  proof (cases "list_ex (newly_used u2) rs1")
    case True
    have "step_ok (LetrecNode l rs1 b1) u2 h2 (LetrecNode l ?rs2 b1) u2 True"
      using mark_used_flags [where u = u2 and rs = rs1] True by (simp add: step_ok_def)
    with 4 Suc.IH 3 True show ?thesis by (auto intro: step_ok_trans)
  next
    case False
    then have "?rs2 = rs1" by (induction rs1) (auto simp: mark_used_def)
    with 4 3 False show ?thesis by auto
  qed
qed simp

lemma set_foldl_add_var [simp]: "set (foldl add_var u xs) = set u \<union> set xs"
  by (induction xs arbitrary: u) auto

lemma sorted_foldl_add_var: "sorted_wrt (<) u \<Longrightarrow> sorted_wrt (<) (foldl add_var u xs)"
  by (induction xs arbitrary: u) (auto simp: sorted_add_var)

lemma check_strictness_r_ok: "steps_ok (check_strictness_r src fuel)"
proof (induction fuel)
  case (Suc fuel)
  have "step_ok c u h c' u' h'" if "check_strictness_r src (Suc fuel) c u h = Some (c', u', h')" for c u h c' u' h'
  proof (cases c)
    case (Application l s a b)
    then show ?thesis using that check_application_ok [OF Suc.IH] by simp
  next
    case (LetrecNode l rs b)
    with that obtain rs' b' bu where
      "letrec_loop (check_strictness_r src fuel) fuel rs b [] h = Some (rs', b', bu, h')"
      "c' = LetrecNode l rs' b'" "u' = outer_used rs' bu u"
      by (auto simp: bind_eq_Some_conv)
    with letrec_loop_ok [OF Suc.IH this(1), of l] LetrecNode show ?thesis
      by (auto simp: step_ok_def outer_used_def sorted_foldl_add_var)
  qed (use that in \<open>auto simp: step_ok_def sorted_add_var\<close>)
  then show ?case by (auto simp: steps_ok_def)
qed (simp add: steps_ok_def)

subsection \<open>The analysis of a tree returns\<close>

text \<open>Trees after lambda lifting, with all references into the tables and no letrec that binds
  a name twice.\<close>

fun analysable :: "nat \<Rightarrow> snode \<Rightarrow> bool" and analysable_recs :: "nat \<Rightarrow> letrec list \<Rightarrow> bool" where
  "analysable n (Application l s a b) \<longleftrightarrow> analysable n a \<and> analysable n b"
| "analysable n (LetrecNode l rs b) \<longleftrightarrow> distinct (map rec_name rs) \<and> analysable_recs n rs \<and> analysable n b"
| "analysable n (Scref l i) \<longleftrightarrow> i < n"
| "analysable n (Builtin l b) \<longleftrightarrow> b < NUM_BUILTINS"
| "analysable n (Lambda l x b) \<longleftrightarrow> False"
| "analysable n (Empty l) \<longleftrightarrow> False"
| "analysable n (Wrap l t) \<longleftrightarrow> False"
| "analysable n e \<longleftrightarrow> True"
| "analysable_recs n [] \<longleftrightarrow> True"
| "analysable_recs n (Letrec x v st sc # rs) \<longleftrightarrow> analysable n v \<and> analysable_recs n rs"

lemma rec_name_erase [simp]: "map rec_name (erase_recs rs) = map rec_name rs"
  by (simp add: erase_recs_map comp_def)

lemma analysable_erase: "analysable n (erase e) = analysable n e"
  "analysable_recs n (erase_recs rs) = analysable_recs n rs"
  by (induction e and rs rule: erase_erase_recs.induct) auto

lemma analysable_cong: "erase c = erase c' \<Longrightarrow> analysable n c = analysable n c'"
  by (metis analysable_erase(1))

lemma nodes_cong: "erase c = erase c' \<Longrightarrow> nodes c = nodes c'"
  by (metis nodes_erase(1))

lemma nodes_pos [simp]: "0 < nodes e"
  by (cases e) auto

definition sc_flags_ok :: "scomb \<Rightarrow> bool" where
  "sc_flags_ok sc \<longleftrightarrow> (\<exists>st. sc_strictin sc = Some st \<and> length st = sc_nargs sc)"

definition table_ok :: "source \<Rightarrow> bool" where
  "table_ok src \<longleftrightarrow> list_all sc_flags_ok (scombs src)"

fun spine_args :: "snode \<Rightarrow> snode list" where
  "spine_args (Application l s a b) = spine_args a @ [b]"
| "spine_args e = []"

lemma length_spine_args [simp]: "length (spine_args c) = spine_len c"
  by (induction c rule: spine_args.induct) auto

lemma spine_erase [simp]: "spine_head (erase c) = erase (spine_head c)" "spine_len (erase c) = spine_len c"
  "spine_args (erase c) = map erase (spine_args c)"
  by (induction c rule: spine_args.induct) auto

lemma spine_args_smaller: "b \<in> set (spine_args c) \<Longrightarrow> nodes b < nodes c"
  by (induction c rule: spine_args.induct) auto

lemma analysable_spine: "analysable n c \<Longrightarrow> analysable n (spine_head c) \<and> list_all (analysable n) (spine_args c)"
  by (induction c rule: spine_args.induct) auto

definition returns :: "analysis \<Rightarrow> snode \<Rightarrow> bool" where
  "returns an e \<longleftrightarrow> (\<forall>c u h. erase c = erase e \<longrightarrow> an c u h \<noteq> None)"

lemma returnsE: "returns an e \<Longrightarrow> erase c = erase e \<Longrightarrow> (\<And>c' u' h'. an c u h = Some (c', u', h') \<Longrightarrow> P) \<Longrightarrow> P"
  by (metis returns_def not_None_eq prod_cases3)

lemma returns_self: "returns an e \<Longrightarrow> \<exists>c' u' h'. an e u h = Some (c', u', h')"
  by (erule returnsE [OF _ refl]) blast

lemma returns_cong: "erase e = erase e' \<Longrightarrow> returns an e = returns an e'"
  by (simp add: returns_def)

lemma strict_args_returns:
  assumes "\<And>j. j < k \<Longrightarrow> fun_strictin src f j \<noteq> None"
    and "k \<le> spine_len c" and "\<And>b. b \<in> set (spine_args c) \<Longrightarrow> returns an b"
  shows "strict_args src an f k c u h \<noteq> None"
  using assms
proof (induction k arbitrary: c u h)
  case (Suc k)
  then obtain l s a b where c: "c = Application l s a b" by (cases c) auto
  obtain st where st: "fun_strictin src f k = Some st" using Suc.prems(1) by blast
  have "returns an b" using Suc.prems(3) c by simp
  then obtain b' u1 h1 where b: "(if st then an b u (h \<or> \<not> s) else Some (b, u, h)) = Some (b', u1, h1)"
    using returns_self [of an b u "h \<or> \<not> s"] by (cases st) auto
  have "strict_args src an f k a u1 h1 \<noteq> None"
    using Suc.IH [of a u1 h1] Suc.prems c by simp
  then show ?case unfolding c using st b by auto
qed simp

lemma strict_values_returns:
  assumes "\<And>r. r \<in> set rs \<Longrightarrow> returns an (rec_value r)"
  shows "strict_values an rs u h \<noteq> None"
  using assms
proof (induction rs arbitrary: u h)
  case (Cons r rs)
  obtain n v st sc where r: "r = Letrec n v st sc" by (cases r)
  have "returns an v" using Cons.prems [of r] r by simp
  then obtain v' u1 h1 where v: "(if st then an v u h else Some (v, u, h)) = Some (v', u1, h1)"
    using returns_self [of an v u h] by (cases st) auto
  have "strict_values an rs u1 h1 \<noteq> None" using Cons by simp
  then show ?case unfolding r using v by auto
qed simp

lemma erase_recs_values:
  assumes "erase_recs rs' = erase_recs rs" and "\<And>r. r \<in> set rs \<Longrightarrow> returns an (rec_value r)" and "r' \<in> set rs'"
  shows "returns an (rec_value r')"
proof -
  have "map (\<lambda>r. erase (rec_value r)) rs' = map (\<lambda>r. erase (rec_value r)) rs"
    using arg_cong [OF assms(1), of "map rec_value"] by (simp add: erase_recs_map comp_def)
  then obtain r where "r \<in> set rs" "erase (rec_value r) = erase (rec_value r')"
    using assms(3) by (metis (mono_tags, lifting) imageE image_eqI list.set_map)
  with assms(2) returns_cong show ?thesis by metis
qed

primrec unmarked :: "letrec list \<Rightarrow> nat" where
  "unmarked [] = 0"
| "unmarked (r # rs) = (if rec_strict r then 0 else 1) + unmarked rs"

lemma unmarked_le: "unmarked rs \<le> length rs"
  by (induction rs) auto

lemma mark_used_strict [simp]: "rec_strict (mark_used u r) = (rec_strict r \<or> newly_used u r)"
  by (simp add: mark_used_def)

lemma newly_used_not_strict: "newly_used u r \<Longrightarrow> \<not> rec_strict r"
  by (simp add: newly_used_def)

lemma unmarked_mark_le: "unmarked (map (mark_used u) rs) \<le> unmarked rs"
  by (induction rs) auto

lemma unmarked_marked: "list_ex (newly_used u) rs \<Longrightarrow> unmarked (map (mark_used u) rs) < unmarked rs"
proof (induction rs)
  case (Cons r rs)
  then show ?case using unmarked_mark_le [of u rs] newly_used_not_strict [of u r] by auto
qed simp

lemma unmarked_flags: "unmarked rs = length (filter Not (map rec_strict rs))"
  by (induction rs) auto

lemma unmarked_cong: "map rec_strict rs' = map rec_strict rs \<Longrightarrow> unmarked rs' = unmarked rs"
  by (simp only: unmarked_flags)

lemma letrec_loop_returns:
  assumes an: "steps_ok an" and body: "returns an b"
    and "\<And>r. r \<in> set rs \<Longrightarrow> returns an (rec_value r)" and "unmarked rs < k"
  shows "letrec_loop an k rs b u h \<noteq> None"
  using assms(2-)
proof (induction k arbitrary: rs b u h)
  case (Suc k)
  obtain rs1 u1 h1 where 1: "strict_values an rs u h = Some (rs1, u1, h1)"
    using strict_values_returns [of rs an u h] Suc.prems(2) by auto
  obtain b1 u2 h2 where 2: "an b u1 h1 = Some (b1, u2, h2)" using returns_self [OF Suc.prems(1)] by blast
  let ?rs2 = "map (mark_used u2) rs1"
  have sv: "erase_recs rs1 = erase_recs rs" "map rec_strict rs1 = map rec_strict rs"
    using strict_values_ok [OF an 1, of noloc "NilNode noloc"] by (auto simp: step_ok_def)
  have "letrec_loop an k ?rs2 b1 u2 True \<noteq> None" if "list_ex (newly_used u2) rs1"
  proof (rule Suc.IH)
    show "returns an b1" using steps_okD [OF an 2] Suc.prems(1) returns_cong by (metis step_ok_def)
    show "returns an (rec_value r)" if "r \<in> set ?rs2" for r
      using erase_recs_values [OF _ Suc.prems(2) that] sv mark_used_flags(1) by simp
    show "unmarked ?rs2 < k" using unmarked_marked [OF that] unmarked_cong [OF sv(2)] Suc.prems(3) by simp
  qed
  then show ?case using 1 2 by (auto simp: Let_def)
qed simp

lemma fun_strictin_defined:
  assumes "table_ok src" and "analysable (length (scombs src)) f" and "fun_nargs src f = Some n" and "j < n"
  shows "fun_strictin src f j \<noteq> None"
  using assms by (auto simp: fun_nargs_def fun_strictin_def table_ok_def sc_flags_ok_def list_all_length
      split: snode.splits option.splits)

lemma bif_nargs: "bi_nargs (builtin_info ! B_IF) = 3" "bi_nstrict (builtin_info ! B_IF) = 1"
  "bi_nargs (builtin_info ! B_SEQ) = 2" "bi_nstrict (builtin_info ! B_SEQ) = 1"
  by (simp_all add: B_IF_def B_SEQ_def builtin_info_def builtin_row_def)

lemma is_bif_iff: "is_bif b f \<longleftrightarrow> (\<exists>l. f = Builtin l b)"
  by (cases f) auto

lemma if_branches_returns:
  assumes "spine_len c = 3" and "\<And>b. b \<in> set (spine_args c) \<Longrightarrow> returns an b"
  shows "if_branches an c u h \<noteq> None"
proof -
  from assms(1) obtain l s a' f where "c = Application l s a' f" "spine_len a' = 2" by (cases c) auto
  moreover from this(2) obtain l' s' a t where "a' = Application l' s' a t" by (cases a') auto
  ultimately have c: "c = Application l s (Application l' s' a t) f" by simp
  have "returns an t" "returns an f" using assms(2) c by simp_all
  then obtain t' tu h1 f' fu h2 where "an t [] h = Some (t', tu, h1)" "an f [] h1 = Some (f', fu, h2)"
    using returns_self by meson
  then show ?thesis unfolding c by simp
qed

lemma seq_after_returns:
  assumes "0 < spine_len c" and "\<And>b. b \<in> set (spine_args c) \<Longrightarrow> returns an b"
  shows "seq_after an c u h \<noteq> None"
proof -
  from assms(1) obtain l s a b where c: "c = Application l s a b" by (cases c) auto
  then have "returns an b" using assms(2) by simp
  then obtain r where "an b [] h = Some r" using returns_self by blast
  then show ?thesis unfolding c by (cases r) simp
qed

lemma spine_args_returns:
  assumes "erase c' = erase c" and "\<And>b. b \<in> set (spine_args c) \<Longrightarrow> returns an b" and "b \<in> set (spine_args c')"
  shows "returns an b"
proof -
  have "map erase (spine_args c') = map erase (spine_args c)" using assms(1) by (metis spine_erase(3))
  then obtain b' where "b' \<in> set (spine_args c)" "erase b' = erase b" using assms(3)
    by (metis (no_types, lifting) imageE image_eqI list.set_map)
  with assms(2) returns_cong show ?thesis by metis
qed

lemma check_application_returns:
  assumes an: "steps_ok an" and tab: "table_ok src" and c: "c = Application l s a b"
    and wf: "analysable (length (scombs src)) c"
    and args: "\<And>b. b \<in> set (spine_args c) \<Longrightarrow> returns an b" and left: "returns an a"
  shows "check_application src an c u h \<noteq> None"
proof -
  let ?f = "spine_head c" and ?n = "spine_len c"
  have head: "call_head an c' u' h' \<noteq> None" if "erase c' = erase c" for c' u' h'
  proof -
    from that c obtain l' s' a' b' where c': "c' = Application l' s' a' b'" "erase a' = erase a" by (cases c') auto
    then obtain r where "an a' u' h' = Some r" using left unfolding returns_def by blast
    then show ?thesis unfolding c'(1) by (cases r) simp
  qed
  show ?thesis
  proof (cases "fun_nargs src ?f = Some ?n")
    case False
    then show ?thesis using head [OF refl] by (simp add: check_application_def Let_def)
  next
    case True
    have "analysable (length (scombs src)) ?f" using analysable_spine [OF wf] by simp
    then have "strict_args src an ?f ?n c u h \<noteq> None"
      using fun_strictin_defined [OF tab _ True] args by (intro strict_args_returns) auto
    then obtain c1 u1 h1 where 1: "strict_args src an ?f ?n c u h = Some (c1, u1, h1)" by auto
    have e1: "erase c1 = erase c" using strict_args_ok [OF an 1] by (simp add: step_ok_def)
    have "spine_len c1 = ?n" using e1 by (metis spine_erase(2))
    moreover have "?n = 3" if "is_bif B_IF ?f" using that True bif_nargs by (auto simp: is_bif_iff fun_nargs_def)
    ultimately have "(if is_bif B_IF ?f then if_branches an c1 u1 h1 else Some (c1, u1, h1)) \<noteq> None"
      using if_branches_returns spine_args_returns [OF e1 args] by simp
    then obtain c2 u2 h2 where 2: "(if is_bif B_IF ?f then if_branches an c1 u1 h1 else Some (c1, u1, h1)) = Some (c2, u2, h2)"
      by (metis not_None_eq prod_cases3)
    have e2: "erase c2 = erase c" using 2 if_branches_ok [OF an, of c1 u1 h1] e1 by (auto simp: step_ok_def split: if_splits)
    have "0 < spine_len c2" using e2 c by (metis spine_erase(2) spine_len.simps(1) zero_less_Suc)
    then have "(if is_bif B_SEQ ?f then seq_after an c2 u2 h2 else Some (c2, u2, h2)) \<noteq> None"
      using seq_after_returns spine_args_returns [OF e2 args] by simp
    then obtain c3 u3 h3 where 3: "(if is_bif B_SEQ ?f then seq_after an c2 u2 h2 else Some (c2, u2, h2)) = Some (c3, u3, h3)"
      by (metis not_None_eq prod_cases3)
    have "erase c3 = erase c" using 3 seq_after_ok [OF an, of c2 u2 h2] e2 by (auto simp: step_ok_def split: if_splits)
    from head [OF this] show ?thesis using True 1 2 3 by (auto simp: check_application_def Let_def)
  qed
qed

lemma nodes_recs_member: "r \<in> set rs \<Longrightarrow> nodes (rec_value r) < nodes_recs rs"
proof (induction rs)
  case (Cons r' rs)
  then show ?case by (cases r') auto
qed simp

lemma length_nodes_recs: "length rs \<le> nodes_recs rs"
proof (induction rs)
  case (Cons r' rs)
  then show ?case by (cases r') auto
qed simp

lemma analysable_recs_member: "analysable_recs n rs \<Longrightarrow> r \<in> set rs \<Longrightarrow> analysable n (rec_value r)"
proof (induction rs)
  case (Cons r' rs)
  then show ?case by (cases r') auto
qed simp

lemma check_strictness_r_returns:
  assumes tab: "table_ok src"
  shows "analysable (length (scombs src)) e \<Longrightarrow> nodes e \<le> fuel \<Longrightarrow> returns (check_strictness_r src fuel) e"
proof (induction fuel arbitrary: e)
  case (Suc fuel)
  let ?an = "check_strictness_r src fuel" and ?n = "length (scombs src)"
  have "check_strictness_r src (Suc fuel) c u h \<noteq> None" if "erase c = erase e" for c u h
  proof -
    have wf: "analysable ?n c" "nodes c \<le> Suc fuel"
      using that Suc.prems analysable_cong nodes_cong by metis+
    show ?thesis
    proof (cases c)
      case (Application l s a b)
      have "returns ?an b" if "b \<in> set (spine_args c)" for b
        using analysable_spine [OF wf(1)] spine_args_smaller [OF that] wf(2) that
        by (intro Suc.IH) (auto simp: list_all_iff)
      moreover have "returns ?an a" using wf Application by (intro Suc.IH) auto
      ultimately have "check_application src ?an c u h \<noteq> None"
        using check_application_returns [OF check_strictness_r_ok tab Application wf(1)] by blast
      then show ?thesis using Application by simp
    next
      case (LetrecNode l rs b)
      have "returns ?an (rec_value r)" if "r \<in> set rs" for r
        using nodes_recs_member [OF that] analysable_recs_member [OF _ that] wf LetrecNode
        by (intro Suc.IH) auto
      moreover have "returns ?an b" using wf LetrecNode by (intro Suc.IH) auto
      moreover have "unmarked rs < fuel"
        using wf(2) LetrecNode length_nodes_recs [of rs] unmarked_le [of rs] nodes_pos [of b] by (simp del: nodes_pos)
      ultimately have "letrec_loop ?an fuel rs b [] h \<noteq> None"
        by (intro letrec_loop_returns check_strictness_r_ok)
      then show ?thesis using LetrecNode by auto
    qed (use wf in auto)
  qed
  then show ?case by (simp add: returns_def)
qed (simp add: nodes_pos [THEN less_imp_neq, symmetric])

subsection \<open>The analysis of the program returns\<close>

text \<open>The analysis changes nothing but flags, and takes none back.\<close>

definition same_scomb :: "scomb \<Rightarrow> scomb \<Rightarrow> bool" where
  "same_scomb sc sc' \<longleftrightarrow>
     (\<exists>e e' st st'. sc_body sc = Some e \<and> sc_strictin sc = Some st \<and>
        sc' = sc\<lparr>sc_body := Some e', sc_strictin := Some st'\<rparr> \<and>
        erase e' = erase e \<and> list_all2 (\<longrightarrow>) st st')"

definition same_program :: "source \<Rightarrow> source \<Rightarrow> bool" where
  "same_program src src' \<longleftrightarrow>
     src' = src\<lparr>scombs := scombs src'\<rparr> \<and> list_all2 same_scomb (scombs src) (scombs src')"

definition program_ok :: "source \<Rightarrow> bool" where
  "program_ok src \<longleftrightarrow>
     table_ok src \<and>
     list_all (\<lambda>sc. \<exists>e. sc_body sc = Some e \<and> analysable (length (scombs src)) e) (scombs src)"

definition sc_size :: "scomb \<Rightarrow> nat" where
  "sc_size sc = (case sc_body sc of Some e \<Rightarrow> nodes e | None \<Rightarrow> 0) + sc_nargs sc"

definition sc_nflags :: "scomb \<Rightarrow> nat" where
  "sc_nflags sc =
     (case sc_body sc of Some e \<Rightarrow> nflags e | None \<Rightarrow> 0) +
     (case sc_strictin sc of Some st \<Rightarrow> length (filter id st) | None \<Rightarrow> 0)"

abbreviation prog_size :: "source \<Rightarrow> nat" where
  "prog_size src \<equiv> sum_list (map sc_size (scombs src))"

abbreviation prog_nflags :: "source \<Rightarrow> nat" where
  "prog_nflags src \<equiv> sum_list (map sc_nflags (scombs src))"

lemma flags_grow:
  "list_all2 (\<longrightarrow>) st st' \<Longrightarrow> length (filter id st) \<le> length (filter id st') \<and>
     (st \<noteq> st' \<longrightarrow> length (filter id st) < length (filter id st'))"
  by (induction rule: list_all2_induct) auto

lemma sc_nflags_le: "sc_flags_ok sc \<Longrightarrow> sc_nflags sc \<le> sc_size sc"
  unfolding sc_nflags_def sc_size_def sc_flags_ok_def
  by (intro add_mono) (auto simp: nflags_le_nodes length_filter_le [THEN order_trans] split: option.split)

lemma same_scomb_keeps:
  assumes "same_scomb sc sc'"
  shows "sc_size sc' = sc_size sc" "sc_flags_ok sc \<Longrightarrow> sc_flags_ok sc'" "sc_argnames sc' = sc_argnames sc"
    "map_option erase (sc_body sc') = map_option erase (sc_body sc)"
    "(\<exists>e. sc_body sc = Some e \<and> analysable n e) \<Longrightarrow> \<exists>e. sc_body sc' = Some e \<and> analysable n e"
  using assms
  by (auto simp: same_scomb_def sc_size_def sc_flags_ok_def dest: nodes_cong analysable_cong list_all2_lengthD)

lemma scomb_flags_eq: "sc_body sc = b \<Longrightarrow> sc_strictin sc = st \<Longrightarrow> sc\<lparr>sc_body := b, sc_strictin := st\<rparr> = sc"
  by (cases sc) simp

lemma same_scomb_refl:
  assumes "sc_flags_ok sc" and "sc_body sc \<noteq> None"
  shows "same_scomb sc sc"
proof -
  from assms obtain e st where "sc_body sc = Some e" "sc_strictin sc = Some st" by (auto simp: sc_flags_ok_def)
  with scomb_flags_eq [OF this] show ?thesis unfolding same_scomb_def
    by (metis (full_types) list_all2_refl)
qed

lemma same_scomb_trans:
  assumes "same_scomb a b" and "same_scomb b c"
  shows "same_scomb a c"
proof -
  from assms obtain e st e' st' e'' st'' where
    "sc_body a = Some e" "sc_strictin a = Some st" "erase e'' = erase e"
    "list_all2 (\<longrightarrow>) st st'" "list_all2 (\<longrightarrow>) st' st''"
    "c = a\<lparr>sc_body := Some e'', sc_strictin := Some st''\<rparr>" by (auto simp: same_scomb_def)
  moreover from this have "list_all2 (\<longrightarrow>) st st''" by (auto simp: list_all2_conv_all_nth)
  ultimately show ?thesis unfolding same_scomb_def by blast
qed

lemma same_program_keeps:
  assumes "same_program src src'"
  shows "length (scombs src') = length (scombs src)" "prog_size src' = prog_size src"
    "program_ok src \<Longrightarrow> program_ok src'"
proof -
  have l: "list_all2 same_scomb (scombs src) (scombs src')" using assms by (simp add: same_program_def)
  then show len: "length (scombs src') = length (scombs src)" by (simp add: list_all2_lengthD)
  show "prog_size src' = prog_size src"
    using l by (induction rule: list_all2_induct) (auto simp: same_scomb_keeps)
  show "program_ok src'" if "program_ok src"
    using l that len same_scomb_keeps(2,5) by (auto simp: program_ok_def table_ok_def list_all_length list_all2_conv_all_nth)
qed

lemma same_program_refl: "program_ok src \<Longrightarrow> same_program src src"
  by (auto simp: same_program_def program_ok_def table_ok_def list_all_length list_all2_conv_all_nth
      intro!: same_scomb_refl)

lemma same_program_trans: "same_program a b \<Longrightarrow> same_program b c \<Longrightarrow> same_program a c"
  unfolding same_program_def using list_all2_trans [of same_scomb same_scomb same_scomb] same_scomb_trans
  by (metis source.surjective source.update_convs(3))

lemma prog_nflags_le: "table_ok src \<Longrightarrow> prog_nflags src \<le> prog_size src"
  by (rule sum_list_mono) (auto simp: table_ok_def list_all_iff intro: sc_nflags_le)

lemma check_strictness_cases:
  assumes "check_strictness fuel src i h = Some (src', h')"
  obtains e st e' used h1 st' where "sc_body (scombs src ! i) = Some e" "sc_strictin (scombs src ! i) = Some st"
    "check_strictness_r src fuel e [] h = Some (e', used, h1)"
    "st' = map (\<lambda>j. st ! j \<or> sc_argnames (scombs src ! i) ! j \<in> set used) [0 ..< sc_nargs (scombs src ! i)]"
    "src' = src\<lparr>scombs := (scombs src)[i := (scombs src ! i)\<lparr>sc_body := Some e', sc_strictin := Some st'\<rparr>]\<rparr>"
    "h' = (h1 \<or> st \<noteq> st')"
proof -
  from assms obtain e where 1: "sc_body (scombs src ! i) = Some e"
    by (cases "sc_body (scombs src ! i)") (auto simp: check_strictness_def)
  with assms obtain e' used h1 where 2: "check_strictness_r src fuel e [] h = Some (e', used, h1)"
    by (cases "check_strictness_r src fuel e [] h") (auto simp: check_strictness_def)
  with assms 1 obtain st where "sc_strictin (scombs src ! i) = Some st"
    by (cases "sc_strictin (scombs src ! i)") (auto simp: check_strictness_def)
  note r = 1 this 2
  with assms that [OF r refl] show thesis by (auto simp: check_strictness_def Let_def update_scomb_def)
qed

lemma check_strictness_same:
  assumes ok: "program_ok src" and i: "i < length (scombs src)"
    and run: "check_strictness fuel src i h = Some (src', h')"
  shows "same_program src src' \<and> (h \<longrightarrow> h') \<and> prog_nflags src \<le> prog_nflags src' \<and>
         (h' \<longrightarrow> h \<or> prog_nflags src < prog_nflags src')"
proof -
  let ?sc = "scombs src ! i"
  from run obtain e st e' used h1 st' where
    r: "sc_body ?sc = Some e" "sc_strictin ?sc = Some st"
      "check_strictness_r src fuel e [] h = Some (e', used, h1)"
      "st' = map (\<lambda>j. st ! j \<or> sc_argnames ?sc ! j \<in> set used) [0 ..< sc_nargs ?sc]"
    and src': "src' = src\<lparr>scombs := (scombs src)[i := ?sc\<lparr>sc_body := Some e', sc_strictin := Some st'\<rparr>]\<rparr>"
      "h' = (h1 \<or> st \<noteq> st')"
    by (rule check_strictness_cases)
  let ?sc' = "?sc\<lparr>sc_body := Some e', sc_strictin := Some st'\<rparr>"
  have s: "step_ok e [] h e' used h1" using check_strictness_r_ok r(3) by (rule steps_okD)
  have "length st = sc_nargs ?sc"
    using ok i r(2) by (auto simp: program_ok_def table_ok_def sc_flags_ok_def list_all_length)
  then have grow: "list_all2 (\<longrightarrow>) st st'" using r(4) by (auto simp: list_all2_conv_all_nth)
  have same: "same_scomb ?sc ?sc'" using r s grow by (auto simp: same_scomb_def step_ok_def)
  have "list_all2 same_scomb (scombs src) (scombs src')"
    using same_program_refl [OF ok] same i
    unfolding src' same_program_def by (auto simp: list_all2_conv_all_nth nth_list_update)
  then have "same_program src src'" by (simp add: same_program_def src')
  moreover have "sc_nflags ?sc' = nflags e' + length (filter id st')" "sc_nflags ?sc = nflags e + length (filter id st)"
    using r by (simp_all add: sc_nflags_def)
  moreover have "prog_nflags src' = prog_nflags src + sc_nflags ?sc' - sc_nflags ?sc"
    using i by (simp add: src' map_update sum_list_update)
  moreover have "sc_nflags ?sc \<le> prog_nflags src" using i by (simp add: member_le_sum_list)
  ultimately show ?thesis using s flags_grow [OF grow] src'(2) by (auto simp: step_ok_def)
qed

lemma check_strictness_returns:
  assumes ok: "program_ok src" and i: "i < length (scombs src)" and fuel: "prog_size src \<le> fuel"
  shows "\<exists>src' h'. check_strictness fuel src i h = Some (src', h')"
proof -
  from ok i obtain e st where e: "sc_body (scombs src ! i) = Some e" "sc_strictin (scombs src ! i) = Some st"
    "analysable (length (scombs src)) e" "table_ok src"
    unfolding program_ok_def table_ok_def sc_flags_ok_def list_all_length by blast
  have "sc_size (scombs src ! i) \<le> prog_size src" using i by (simp add: member_le_sum_list)
  then have "nodes e \<le> fuel" using fuel e(1) by (simp add: sc_size_def)
  with check_strictness_r_returns [OF e(4,3)] obtain e' u' h' where
    "check_strictness_r src fuel e [] h = Some (e', u', h')" by (meson returns_self)
  with e show ?thesis by (simp add: check_strictness_def Let_def)
qed

lemma strictness_pass_returns:
  assumes "program_ok src" and "\<forall>i \<in> set is. i < length (scombs src)" and "prog_size src \<le> fuel"
  shows "\<exists>src' h'. strictness_pass fuel src is h = Some (src', h') \<and> same_program src src' \<and>
     (h \<longrightarrow> h') \<and> prog_nflags src \<le> prog_nflags src' \<and> (h' \<longrightarrow> h \<or> prog_nflags src < prog_nflags src')"
  using assms
proof (induction "is" arbitrary: src h)
  case (Cons i "is")
  obtain src1 h1 where 1: "check_strictness fuel src i h = Some (src1, h1)"
    using check_strictness_returns Cons.prems by force
  have s1: "same_program src src1" "h \<longrightarrow> h1" "prog_nflags src \<le> prog_nflags src1"
    "h1 \<longrightarrow> h \<or> prog_nflags src < prog_nflags src1"
    using check_strictness_same [OF _ _ 1] Cons.prems by simp_all
  have "program_ok src1" "\<forall>i \<in> set is. i < length (scombs src1)" "prog_size src1 \<le> fuel"
    using same_program_keeps [OF s1(1)] Cons.prems by simp_all
  from Cons.IH [OF this, of h1] obtain src' h' where
    2: "strictness_pass fuel src1 is h1 = Some (src', h')" "same_program src1 src'" "h1 \<longrightarrow> h'"
      "prog_nflags src1 \<le> prog_nflags src'" "h' \<longrightarrow> h1 \<or> prog_nflags src1 < prog_nflags src'" by blast
  have "same_program src src'" using s1(1) 2(2) by (rule same_program_trans)
  with 1 2 s1 show ?case by auto
qed (simp add: same_program_refl)

lemma strictness_loop_returns:
  assumes "program_ok src" and "prog_size src \<le> fuel" and "prog_size src < prog_nflags src + n"
  shows "\<exists>src'. strictness_loop fuel n src = Some src' \<and> same_program src src'"
  using assms
proof (induction n arbitrary: src)
  case 0
  then show ?case using prog_nflags_le [of src] by (simp add: program_ok_def)
next
  case (Suc n)
  from strictness_pass_returns [OF Suc.prems(1) _ Suc.prems(2), of "[0 ..< length (scombs src)]" False]
  obtain src1 h where 1: "strictness_pass fuel src [0 ..< length (scombs src)] False = Some (src1, h)"
    "same_program src src1" "h \<longrightarrow> prog_nflags src < prog_nflags src1" by auto
  show ?case
  proof (cases h)
    case True
    with 1(3) same_program_keeps [OF 1(2)] Suc.prems
    have "program_ok src1" "prog_size src1 \<le> fuel" "prog_size src1 < prog_nflags src1 + n" by simp_all
    from Suc.IH [OF this] 1(1,2) True show ?thesis by (auto intro: same_program_trans)
  qed (use 1 in simp)
qed

end
