(* ===== verification/Lazy_Machine.thy ===== *)
theory Lazy_Machine
  imports Syntax_Tree
begin

text \<open>
  The meaning of lambda-lifted programs, as the specification that the strictness analysis is
  measured against: a call-by-name machine with an argument stack. A supercombinator with
  enough arguments on the stack continues with its body; a built-in function first evaluates
  its leading strict arguments (the \<^verbatim>\<open>nstrict\<close> column of the table). \<^verbatim>\<open>if\<close> and \<^verbatim>\<open>seq\<close> then
  continue as \<^verbatim>\<open>b_if\<close> and \<^verbatim>\<open>b_seq\<close> of \<^verbatim>\<open>runtime/builtins.c\<close> do; every other built-in function
  is a parameter \<open>delta\<close>, which may fail, return a value or continue with a suspended
  expression. A supercombinator argument the programmer marked strict is evaluated before the
  call. The machine runs on fuel; a result exists when some fuel is enough.
\<close>

datatype clo = Clo snode "(string \<times> clo) list"

type_synonym env = "(string \<times> clo) list"

datatype val =
    VNil
  | VNumber "64 word"
  | VString string
  | VCell nat "clo list"
  | VFun snode "clo list"

type_synonym builtins = "nat \<Rightarrow> val list \<Rightarrow> clo list \<Rightarrow> (val + clo) option"

record fundef =
  fd_args :: "string list"
  fd_body :: snode
  fd_marks :: "bool list"

type_synonym evaluator = "env \<Rightarrow> snode \<Rightarrow> clo list \<Rightarrow> val option"

fun enter :: "evaluator \<Rightarrow> clo \<Rightarrow> clo list \<Rightarrow> val option" where
  "enter E (Clo e \<rho>) stk = E \<rho> e stk"

definition rec_env :: "letrec list \<Rightarrow> env \<Rightarrow> env" where
  "rec_env rs \<rho> = map (\<lambda>r. (rec_name r, Clo (LetrecNode noloc rs (rec_value r)) \<rho>)) rs @ \<rho>"

fun apply_val :: "evaluator \<Rightarrow> val \<Rightarrow> clo list \<Rightarrow> val option" where
  "apply_val E v [] = Some v"
| "apply_val E (VFun f args) stk = E [] f (args @ stk)"
| "apply_val E v stk = None"

definition call_scomb :: "evaluator \<Rightarrow> fundef \<Rightarrow> clo list \<Rightarrow> val option" where
  "call_scomb E fd stk =
     (let n = length (fd_args fd)
      in if list_all (\<lambda>j. fd_marks fd ! j \<longrightarrow> enter E (stk ! j) [] \<noteq> None) [0 ..< n]
         then E (zip (fd_args fd) (take n stk)) (fd_body fd) (drop n stk)
         else None)"

definition call_builtin :: "builtins \<Rightarrow> evaluator \<Rightarrow> nat \<Rightarrow> clo list \<Rightarrow> val option" where
  "call_builtin delta E b stk =
     (let n = bi_nargs (builtin_info ! b); k = bi_nstrict (builtin_info ! b); rest = drop n stk
      in do { vs \<leftarrow> those (map (\<lambda>c. enter E c []) (take k stk));
              if b = B_IF then enter E (if hd vs = VNil then stk ! 2 else stk ! 1) rest
              else if b = B_SEQ then enter E (stk ! 1) rest
              else do { r \<leftarrow> delta b vs (drop k (take n stk));
                        case r of Inl v \<Rightarrow> apply_val E v rest | Inr c \<Rightarrow> enter E c rest } })"

definition machine_step :: "fundef list \<Rightarrow> builtins \<Rightarrow> evaluator \<Rightarrow> evaluator" where
  "machine_step prog delta E \<rho> e stk =
     (case e of
        Application l s a b \<Rightarrow> E \<rho> a (Clo b \<rho> # stk)
      | Symbol l x \<Rightarrow> do { c \<leftarrow> map_of \<rho> x; enter E c stk }
      | LetrecNode l rs b \<Rightarrow> E (rec_env rs \<rho>) b stk
      | Scref l i \<Rightarrow> if length stk < length (fd_args (prog ! i)) then Some (VFun e stk)
                     else call_scomb E (prog ! i) stk
      | Builtin l b \<Rightarrow> if NUM_BUILTINS \<le> b then None
                       else if length stk < bi_nargs (builtin_info ! b) then Some (VFun e stk)
                       else call_builtin delta E b stk
      | NilNode l \<Rightarrow> apply_val E VNil stk
      | Number l d \<Rightarrow> apply_val E (VNumber d) stk
      | StringNode l v \<Rightarrow> apply_val E (VString v) stk
      | _ \<Rightarrow> None)"

primrec eval :: "fundef list \<Rightarrow> builtins \<Rightarrow> nat \<Rightarrow> evaluator" where
  "eval prog delta 0 = (\<lambda>\<rho> e stk. None)"
| "eval prog delta (Suc n) = machine_step prog delta (eval prog delta n)"

text \<open>\<open>conv prog delta n \<rho> e stk\<close>: fuel \<open>n\<close> is enough to evaluate \<open>e\<close> applied to the stack.\<close>

abbreviation conv :: "fundef list \<Rightarrow> builtins \<Rightarrow> nat \<Rightarrow> env \<Rightarrow> snode \<Rightarrow> clo list \<Rightarrow> bool" where
  "conv prog delta n \<rho> e stk \<equiv> eval prog delta n \<rho> e stk \<noteq> None"

subsection \<open>More fuel gives the same result\<close>

definition below :: "evaluator \<Rightarrow> evaluator \<Rightarrow> bool" where
  "below E E' \<longleftrightarrow> (\<forall>\<rho> e stk v. E \<rho> e stk = Some v \<longrightarrow> E' \<rho> e stk = Some v)"

lemma belowD: "below E E' \<Longrightarrow> E \<rho> e stk = Some v \<Longrightarrow> E' \<rho> e stk = Some v"
  by (simp add: below_def)

lemma enter_below: "below E E' \<Longrightarrow> enter E c stk = Some v \<Longrightarrow> enter E' c stk = Some v"
  by (cases c) (simp add: belowD)

lemma apply_val_below: "below E E' \<Longrightarrow> apply_val E v stk = Some r \<Longrightarrow> apply_val E' v stk = Some r"
  by (cases "(E, v, stk)" rule: apply_val.cases) (auto simp: belowD)

lemma those_below: "below E E' \<Longrightarrow> those (map (\<lambda>c. enter E c []) cs) = Some vs \<Longrightarrow>
    those (map (\<lambda>c. enter E' c []) cs) = Some vs"
  by (induction cs arbitrary: vs) (auto dest: enter_below split: option.splits)

lemma call_scomb_below: "below E E' \<Longrightarrow> call_scomb E fd stk = Some v \<Longrightarrow> call_scomb E' fd stk = Some v"
  by (fastforce simp: call_scomb_def Let_def list_all_iff dest: enter_below belowD split: if_splits)

lemma call_builtin_below:
  assumes "below E E'" and "call_builtin delta E b stk = Some v"
  shows "call_builtin delta E' b stk = Some v"
proof -
  from assms(2) obtain vs where vs: "those (map (\<lambda>c. enter E c []) (take (bi_nstrict (builtin_info ! b)) stk)) = Some vs"
    by (auto simp: call_builtin_def Let_def bind_eq_Some_conv)
  from assms(2) show ?thesis
    using vs those_below [OF assms(1) vs] enter_below [OF assms(1)] apply_val_below [OF assms(1)]
    by (auto simp: call_builtin_def Let_def bind_eq_Some_conv split: if_splits sum.splits)
qed

lemma machine_step_below:
  assumes "below E E'"
  shows "below (machine_step prog delta E) (machine_step prog delta E')"
  unfolding below_def machine_step_def
  using assms call_scomb_below [OF assms] call_builtin_below [OF assms] enter_below [OF assms]
    apply_val_below [OF assms] belowD [OF assms]
  by (auto simp: bind_eq_Some_conv split: snode.splits if_splits)

lemma eval_below: "below (eval prog delta n) (eval prog delta (Suc n))"
proof (induction n)
  case 0
  show ?case by (simp add: below_def)
next
  case (Suc n)
  then show ?case by (simp only: eval.simps machine_step_below)
qed

lemma eval_mono: "n \<le> m \<Longrightarrow> eval prog delta n \<rho> e stk = Some v \<Longrightarrow> eval prog delta m \<rho> e stk = Some v"
proof (induction m)
  case (Suc m)
  then show ?case using belowD [OF eval_below, of prog delta m] by (cases "n = Suc m") auto
qed simp

lemma conv_mono: "n \<le> m \<Longrightarrow> conv prog delta n \<rho> e stk \<Longrightarrow> conv prog delta m \<rho> e stk"
  using eval_mono by blast

subsection \<open>What is evaluated with arguments is evaluated without\<close>

definition prefix_closed :: "evaluator \<Rightarrow> bool" where
  "prefix_closed E \<longleftrightarrow> (\<forall>\<rho> e s1 s2. E \<rho> e (s1 @ s2) \<noteq> None \<longrightarrow> E \<rho> e s1 \<noteq> None)"

lemma prefix_closedD: "prefix_closed E \<Longrightarrow> E \<rho> e (s1 @ s2) = Some v \<Longrightarrow> \<exists>v. E \<rho> e s1 = Some v"
  by (metis prefix_closed_def not_None_eq)

lemma enter_prefix: "prefix_closed E \<Longrightarrow> enter E c (s1 @ s2) = Some v \<Longrightarrow> \<exists>v. enter E c s1 = Some v"
  by (cases c) (auto dest: prefix_closedD)

lemma apply_val_prefix: "prefix_closed E \<Longrightarrow> apply_val E v (s1 @ s2) = Some r \<Longrightarrow> \<exists>r. apply_val E v s1 = Some r"
proof (cases s1)
  case (Cons c cs)
  assume "prefix_closed E" "apply_val E v (s1 @ s2) = Some r"
  with Cons prefix_closedD [of E "[]" _ "_ @ c # cs" s2] show ?thesis by (cases v) auto
qed simp

lemma call_scomb_prefix:
  assumes "prefix_closed E" and "call_scomb E fd (s1 @ s2) = Some v" and "length (fd_args fd) \<le> length s1"
  shows "\<exists>v. call_scomb E fd s1 = Some v"
  using assms by (auto simp: call_scomb_def Let_def list_all_iff nth_append dest: prefix_closedD split: if_splits)

lemma call_builtin_prefix:
  assumes "prefix_closed E" and "call_builtin delta E b (s1 @ s2) = Some v"
    and "bi_nargs (builtin_info ! b) \<le> length s1" and "bi_nstrict (builtin_info ! b) \<le> bi_nargs (builtin_info ! b)"
    and "b = B_IF \<Longrightarrow> 2 < length s1" and "b = B_SEQ \<Longrightarrow> 1 < length s1"
  shows "\<exists>v. call_builtin delta E b s1 = Some v"
proof -
  let ?n = "bi_nargs (builtin_info ! b)" and ?k = "bi_nstrict (builtin_info ! b)"
  have eqs: "take ?k (s1 @ s2) = take ?k s1" "take ?n (s1 @ s2) = take ?n s1" "drop ?n (s1 @ s2) = drop ?n s1 @ s2"
    "b = B_IF \<Longrightarrow> (s1 @ s2) ! 2 = s1 ! 2 \<and> (s1 @ s2) ! 1 = s1 ! 1" "b = B_SEQ \<Longrightarrow> (s1 @ s2) ! 1 = s1 ! 1"
    using assms(3-) by (auto simp: nth_append)
  from assms(2) obtain vs where vs: "those (map (\<lambda>c. enter E c []) (take ?k s1)) = Some vs"
    by (auto simp: call_builtin_def Let_def bind_eq_Some_conv eqs simp del: take_append drop_append)
  consider "b = B_IF" | "b \<noteq> B_IF" "b = B_SEQ" | "b \<noteq> B_IF" "b \<noteq> B_SEQ" by blast
  then show ?thesis
  proof cases
    case 3
    with assms(2) vs obtain r where "delta b vs (drop ?k (take ?n s1)) = Some r"
      "(case r of Inl v \<Rightarrow> apply_val E v (drop ?n s1 @ s2) | Inr c \<Rightarrow> enter E c (drop ?n s1 @ s2)) = Some v"
      by (auto simp: call_builtin_def Let_def bind_eq_Some_conv eqs simp del: take_append drop_append)
    with 3 vs enter_prefix [OF assms(1)] apply_val_prefix [OF assms(1)] show ?thesis
      by (auto simp: call_builtin_def Let_def split: sum.splits)
  qed (use assms(2) vs eqs enter_prefix [OF assms(1)] in
      \<open>auto simp: call_builtin_def Let_def simp del: take_append drop_append\<close>)
qed

lemma nstrict_le_nargs: "b < NUM_BUILTINS \<Longrightarrow> bi_nstrict (builtin_info ! b) \<le> bi_nargs (builtin_info ! b)"
proof -
  have "list_all (\<lambda>bi. bi_nstrict bi \<le> bi_nargs bi) builtin_info"
    by (simp add: builtin_info_def builtin_row_def)
  then show "b < NUM_BUILTINS \<Longrightarrow> ?thesis" by (simp add: list_all_length)
qed

lemma if_seq_rows: "bi_nargs (builtin_info ! B_IF) = 3" "bi_nstrict (builtin_info ! B_IF) = 1"
  "bi_nargs (builtin_info ! B_SEQ) = 2" "bi_nstrict (builtin_info ! B_SEQ) = 1" "B_IF \<noteq> B_SEQ"
  "B_IF < NUM_BUILTINS" "B_SEQ < NUM_BUILTINS"
  by (simp_all add: B_IF_def B_SEQ_def NUM_BUILTINS_def builtin_info_def builtin_row_def)

lemma machine_step_prefix:
  assumes E: "prefix_closed E"
  shows "prefix_closed (machine_step prog delta E)"
proof -
  have "\<exists>v. machine_step prog delta E \<rho> e s1 = Some v" if run: "machine_step prog delta E \<rho> e (s1 @ s2) = Some v"
    for \<rho> e s1 s2 v
  proof (cases e)
    case (Application l s a b)
    then show ?thesis using run prefix_closedD [OF E, of \<rho> a "Clo b \<rho> # s1" s2] by (simp add: machine_step_def)
  next
    case (Scref l i)
    then show ?thesis using run call_scomb_prefix [OF E, of "prog ! i" s1 s2 v]
      by (auto simp: machine_step_def split: if_splits)
  next
    case (Builtin l b)
    show ?thesis
    proof (cases "length s1 < bi_nargs (builtin_info ! b)")
      case False
      with Builtin run have "b < NUM_BUILTINS" "call_builtin delta E b (s1 @ s2) = Some v"
        by (auto simp: machine_step_def split: if_splits)
      with False if_seq_rows nstrict_le_nargs call_builtin_prefix [OF E this(2)] show ?thesis
        by (fastforce simp: machine_step_def Builtin)
    qed (use run in \<open>simp add: machine_step_def Builtin split: if_splits\<close>)
  qed (use run apply_val_prefix [OF E] prefix_closedD [OF E] enter_prefix [OF E] in
      \<open>auto simp: machine_step_def bind_eq_Some_conv\<close>)
  then show ?thesis by (auto simp: prefix_closed_def)
qed

lemma eval_prefix_closed: "prefix_closed (eval prog delta n)"
  by (induction n) (simp_all add: machine_step_prefix, simp add: prefix_closed_def)

lemma conv_head: "conv prog delta n \<rho> e stk \<Longrightarrow> conv prog delta n \<rho> e []"
  using eval_prefix_closed [of prog delta n] unfolding prefix_closed_def by (metis append_Nil)

end
