(* ===== verification/Strictness_Sound.thy ===== *)
theory Strictness_Sound
  imports Strictness Lazy_Machine
begin

text \<open>
  Soundness of the strictness analysis: an argument the analysis marks is evaluated by every
  call that returns, so evaluating it before the call does not change which programs
  terminate. The same holds for the letrec bindings it marks. The invariant is kept by every
  single step of the analysis, so it holds of intermediate results as well.
\<close>

subsection \<open>Needed variables and sound flags\<close>

definition needs :: "fundef list \<Rightarrow> builtins \<Rightarrow> snode \<Rightarrow> string \<Rightarrow> bool" where
  "needs P D e x \<longleftrightarrow> (\<forall>n \<rho> stk. conv P D n \<rho> (erase e) stk \<longrightarrow> conv P D n \<rho> (Symbol noloc x) [])"

definition binding_needed :: "fundef list \<Rightarrow> builtins \<Rightarrow> letrec list \<Rightarrow> snode \<Rightarrow> string \<Rightarrow> bool" where
  "binding_needed P D rs b x \<longleftrightarrow>
     (\<forall>n \<rho> stk. conv P D n (rec_env (erase_recs rs) \<rho>) (erase b) stk \<longrightarrow>
        conv P D n (rec_env (erase_recs rs) \<rho>) (Symbol noloc x) [])"

fun flags_sound :: "fundef list \<Rightarrow> builtins \<Rightarrow> snode \<Rightarrow> bool"
  and flags_sound_recs :: "fundef list \<Rightarrow> builtins \<Rightarrow> letrec list \<Rightarrow> bool" where
  "flags_sound P D (Application l s a b) \<longleftrightarrow> flags_sound P D a \<and> flags_sound P D b"
| "flags_sound P D (LetrecNode l rs b) \<longleftrightarrow>
     flags_sound_recs P D rs \<and> flags_sound P D b \<and>
     (\<forall>r \<in> set rs. rec_strict r \<longrightarrow> binding_needed P D rs b (rec_name r))"
| "flags_sound P D e \<longleftrightarrow> True"
| "flags_sound_recs P D [] \<longleftrightarrow> True"
| "flags_sound_recs P D (Letrec n v st sc # rs) \<longleftrightarrow> flags_sound P D v \<and> flags_sound_recs P D rs"

definition arg_needed :: "fundef list \<Rightarrow> builtins \<Rightarrow> nat \<Rightarrow> nat \<Rightarrow> bool" where
  "arg_needed P D i j \<longleftrightarrow>
     (\<forall>n \<rho> l stk. length (fd_args (P ! i)) \<le> length stk \<longrightarrow> conv P D n \<rho> (Scref l i) stk \<longrightarrow>
        enter (eval P D n) (stk ! j) [] \<noteq> None)"

definition strictin_sound :: "fundef list \<Rightarrow> builtins \<Rightarrow> source \<Rightarrow> bool" where
  "strictin_sound P D src \<longleftrightarrow>
     (\<forall>i < length (scombs src). \<forall>st j. sc_strictin (scombs src ! i) = Some st \<longrightarrow> j < length st \<longrightarrow> st ! j \<longrightarrow>
        arg_needed P D i j)"

text \<open>The same for the supercombinators a program \<open>P\<close> has, where the table may already hold more of them.\<close>

definition calls_sound :: "fundef list \<Rightarrow> builtins \<Rightarrow> source \<Rightarrow> bool" where
  "calls_sound P D src \<longleftrightarrow> length P \<le> length (scombs src) \<and>
     (\<forall>i < length P. fd_args (P ! i) = sc_argnames (scombs src ! i) \<and>
        (\<forall>st j. sc_strictin (scombs src ! i) = Some st \<longrightarrow> j < length st \<longrightarrow> st ! j \<longrightarrow> arg_needed P D i j))"

lemma strictin_calls_sound:
  assumes "strictin_sound P D src" and P: "map fd_args P = map sc_argnames (scombs src)"
  shows "calls_sound P D src" "length P = length (scombs src)"
proof -
  show len: "length P = length (scombs src)" using arg_cong [OF P, of length] by simp
  have "fd_args (P ! i) = sc_argnames (scombs src ! i)" if "i < length P" for i
    using arg_cong [OF P, of "\<lambda>xs. xs ! i"] that len by simp
  then show "calls_sound P D src" using assms(1) len by (simp add: calls_sound_def strictin_sound_def)
qed

text \<open>The program the machine runs: the bodies without flags, the marks of the programmer.\<close>

definition program_of :: "source \<Rightarrow> fundef list" where
  "program_of src =
     map (\<lambda>sc. \<lparr>fd_args = sc_argnames sc,
               fd_body = (case sc_body sc of Some e \<Rightarrow> erase e | None \<Rightarrow> Empty noloc),
               fd_marks = (case sc_strictin sc of Some st \<Rightarrow> st | None \<Rightarrow> replicate (sc_nargs sc) False)\<rparr>) (scombs src)"

lemma needs_cong: "erase e = erase e' \<Longrightarrow> needs P D e = needs P D e'"
  by (simp add: fun_eq_iff needs_def)

lemma needsD: "needs P D e x \<Longrightarrow> conv P D n \<rho> (erase e) stk \<Longrightarrow> conv P D n \<rho> (Symbol noloc x) []"
  unfolding needs_def by blast

lemma conv_Suc: "conv P D n \<rho> e stk \<Longrightarrow> \<exists>m. n = Suc m \<and> machine_step P D (eval P D m) \<rho> e stk \<noteq> None"
  by (cases n) auto

lemma enter_mono: "m \<le> n \<Longrightarrow> enter (eval P D m) c stk \<noteq> None \<Longrightarrow> enter (eval P D n) c stk \<noteq> None"
  by (cases c) (simp add: conv_mono)

lemma conv_application:
  assumes "conv P D n \<rho> (Application l s a b) stk"
  shows "conv P D n \<rho> a (Clo b \<rho> # stk)"
proof -
  from conv_Suc [OF assms] obtain m where "n = Suc m" "conv P D m \<rho> a (Clo b \<rho> # stk)"
    by (auto simp: machine_step_def)
  then show ?thesis using conv_mono [of m n] by simp
qed

lemma conv_letrec:
  assumes "conv P D n \<rho> (LetrecNode l rs b) stk"
  shows "conv P D n (rec_env rs \<rho>) b stk"
proof -
  from conv_Suc [OF assms] obtain m where "n = Suc m" "conv P D m (rec_env rs \<rho>) b stk"
    by (auto simp: machine_step_def)
  then show ?thesis using conv_mono [of m n] by simp
qed

lemma conv_spine:
  "conv P D n \<rho> (erase c) stk \<Longrightarrow>
   conv P D n \<rho> (erase (spine_head c)) (map (\<lambda>a. Clo (erase a) \<rho>) (spine_args c) @ stk)"
proof (induction c arbitrary: stk rule: spine_args.induct)
  case (1 l s a b)
  from "1.IH" [OF conv_application [OF "1.prems" [unfolded erase.simps]]] show ?case by simp
qed auto

lemma conv_builtin:
  assumes "conv P D n \<rho> (Builtin l b) stk" and "bi_nargs (builtin_info ! b) \<le> length stk"
  obtains m where "n = Suc m" "call_builtin D (eval P D m) b stk \<noteq> None" "b < NUM_BUILTINS"
  using conv_Suc [OF assms(1)] assms(2) that by (auto simp: machine_step_def split: if_splits)

lemma those_some: "those xs = Some ys \<Longrightarrow> x \<in> set xs \<Longrightarrow> x \<noteq> None"
  by (induction xs arbitrary: ys) (auto split: option.splits)

lemma builtin_arg_needed:
  assumes c: "conv P D n \<rho> (Builtin l b) stk" and len: "bi_nargs (builtin_info ! b) \<le> length stk"
    and j: "j < bi_nstrict (builtin_info ! b)"
  shows "enter (eval P D n) (stk ! j) [] \<noteq> None"
proof -
  from conv_builtin [OF c len] obtain m where m: "n = Suc m" "call_builtin D (eval P D m) b stk \<noteq> None" "b < NUM_BUILTINS" .
  let ?k = "bi_nstrict (builtin_info ! b)"
  from m(2) obtain vs where vs: "those (map (\<lambda>c. enter (eval P D m) c []) (take ?k stk)) = Some vs"
    by (auto simp: call_builtin_def Let_def bind_eq_Some_conv)
  have "j < length (take ?k stk)" using j len nstrict_le_nargs [OF m(3)] by simp
  from nth_mem [OF this] have "stk ! j \<in> set (take ?k stk)" using j by simp
  then have "enter (eval P D m) (stk ! j) [] \<in> set (map (\<lambda>c. enter (eval P D m) c []) (take ?k stk))"
    by (simp add: image_eqI)
  from those_some [OF vs this] enter_mono [of m n] m(1) show ?thesis by simp
qed

lemma if_branch_needed:
  assumes "conv P D n \<rho> (Builtin l B_IF) ([c, t, f] @ stk)"
  shows "enter (eval P D n) t stk \<noteq> None \<or> enter (eval P D n) f stk \<noteq> None"
proof -
  from conv_builtin [OF assms] obtain m where "n = Suc m" "call_builtin D (eval P D m) B_IF ([c, t, f] @ stk) \<noteq> None"
    by (auto simp: if_seq_rows)
  then have "enter (eval P D m) t stk \<noteq> None \<or> enter (eval P D m) f stk \<noteq> None"
    by (auto simp: call_builtin_def if_seq_rows Let_def bind_eq_Some_conv split: if_splits)
  then show ?thesis using enter_mono [of m n] \<open>n = Suc m\<close> by (metis le_Suc_eq le_refl)
qed

subsection \<open>Each step of the analysis is sound\<close>

definition step_sound :: "fundef list \<Rightarrow> builtins \<Rightarrow> snode \<Rightarrow> string list \<Rightarrow> snode \<Rightarrow> string list \<Rightarrow> bool" where
  "step_sound P D c u c' u' \<longleftrightarrow> flags_sound P D c' \<and> (\<forall>x \<in> set u'. x \<in> set u \<or> needs P D c x)"

definition steps_sound :: "nat \<Rightarrow> fundef list \<Rightarrow> builtins \<Rightarrow> analysis \<Rightarrow> bool" where
  "steps_sound N P D an \<longleftrightarrow>
     (\<forall>c u h c' u' h'. an c u h = Some (c', u', h') \<longrightarrow> analysable N c \<longrightarrow> flags_sound P D c \<longrightarrow>
        step_sound P D c u c' u')"

lemma steps_soundD: "steps_sound N P D an \<Longrightarrow> an c u h = Some (c', u', h') \<Longrightarrow> analysable N c \<Longrightarrow> flags_sound P D c \<Longrightarrow> step_sound P D c u c' u'"
  unfolding steps_sound_def by blast

lemma strict_args_sound:
  assumes an: "steps_sound N P D an"
  shows "strict_args src an f k c u h = Some (c', u', h') \<Longrightarrow> k = spine_len c \<Longrightarrow> analysable N c \<Longrightarrow> flags_sound P D c \<Longrightarrow>
    flags_sound P D c' \<and>
    (\<forall>x \<in> set u'. x \<in> set u \<or> (\<exists>j < k. fun_strictin src f j = Some True \<and> needs P D (spine_args c ! j) x))"
proof (induction k arbitrary: c u h c' u' h')
  case (Suc k)
  from Suc.prems obtain l s a b where c: "c = Application l s a b" by (cases c) auto
  from Suc.prems obtain st b' u1 h1 a' where
    st: "fun_strictin src f k = Some st" "(if st then an b u (h \<or> \<not> s) else Some (b, u, h)) = Some (b', u1, h1)"
    and a: "strict_args src an f k a u1 h1 = Some (a', u', h')"
    and c': "c' = Application l (s \<or> st) a' b'"
    unfolding c by (auto simp: bind_simps)
  have k: "k = spine_len a" "analysable N a" "flags_sound P D a" "analysable N b" "flags_sound P D b"
    using Suc.prems(2-) c by simp_all
  have b: "flags_sound P D b' \<and> (\<forall>x \<in> set u1. x \<in> set u \<or> (st \<and> needs P D b x))"
    using st(2) k(4,5) steps_soundD [OF an] by (cases st) (auto simp: step_sound_def)
  have nth: "spine_args c ! k = b" "\<And>j. j < k \<Longrightarrow> spine_args c ! j = spine_args a ! j"
    using c k(1) by (simp_all add: nth_append)
  have "x \<in> set u \<or> (\<exists>j < Suc k. fun_strictin src f j = Some True \<and> needs P D (spine_args c ! j) x)"
    if xu: "x \<in> set u'" for x
  proof -
    consider "x \<in> set u1" | j where "j < k" "fun_strictin src f j = Some True" "needs P D (spine_args a ! j) x"
      using Suc.IH [OF a k(1-3)] xu by blast
    then show ?thesis
    proof cases
      case 1
      with b st(1) nth(1) show ?thesis by auto
    next
      case (2 j)
      with nth(2) show ?thesis by (metis less_SucI)
    qed
  qed
  with Suc.IH [OF a k(1-3)] b show ?case unfolding c' by simp
qed simp

lemma call_arg_needed:
  assumes sound: "calls_sound P D src" and wf: "analysable (length P) c"
    and n: "fun_nargs src (spine_head c) = Some (spine_len c)" and j: "j < spine_len c"
    and st: "fun_strictin src (spine_head c) j = Some True" and x: "needs P D (spine_args c ! j) x"
  shows "needs P D c x"
proof -
  have "conv P D n \<rho> (Symbol noloc x) []" if c: "conv P D n \<rho> (erase c) stk" for n \<rho> stk
  proof -
    let ?stk = "map (\<lambda>a. Clo (erase a) \<rho>) (spine_args c) @ stk"
    have h: "conv P D n \<rho> (erase (spine_head c)) ?stk" using conv_spine [OF c] .
    have nth: "?stk ! j = Clo (erase (spine_args c ! j)) \<rho>" using j by (simp add: nth_append)
    have "enter (eval P D n) (?stk ! j) [] \<noteq> None"
    proof (cases "spine_head c")
      case (Scref l i)
      then have i: "i < length P" using analysable_spine [OF wf] by simp
      then have "fd_args (P ! i) = sc_argnames (scombs src ! i)" using sound by (simp add: calls_sound_def)
      moreover have "arg_needed P D i j"
        using sound i st Scref by (auto simp: calls_sound_def fun_strictin_def split: option.splits if_splits)
      ultimately show ?thesis using h n Scref unfolding arg_needed_def by (auto simp: fun_nargs_def)
    next
      case (Builtin l b)
      then show ?thesis using builtin_arg_needed [of P D n \<rho> l b ?stk j] h n st
        by (simp add: fun_nargs_def fun_strictin_def)
    qed (use n in \<open>simp_all add: fun_nargs_def\<close>)
    then show ?thesis using needsD [OF x] unfolding nth enter.simps by blast
  qed
  then show ?thesis by (simp add: needs_def)
qed

lemma if_needed:
  assumes c: "c = Application l s (Application l' s' a t) f" and h: "spine_head c = Builtin l'' B_IF" "spine_len c = 3"
    and "needs P D t x" and "needs P D f x"
  shows "needs P D c x"
proof -
  have "length (spine_args a) = Suc 0" using h(2) c by simp
  then obtain b where args: "spine_args c = [b, t, f]" using c
    by (auto simp: length_Suc_conv simp del: length_spine_args)
  have "conv P D n \<rho> (Symbol noloc x) []" if "conv P D n \<rho> (erase c) stk" for n \<rho> stk
  proof -
    from conv_spine [OF that] have
      "conv P D n \<rho> (Builtin l'' B_IF) ([Clo (erase b) \<rho>, Clo (erase t) \<rho>, Clo (erase f) \<rho>] @ stk)"
      by (simp add: args h(1))
    from if_branch_needed [OF this] show ?thesis
      using needsD [OF assms(4)] needsD [OF assms(5)] unfolding enter.simps by blast
  qed
  then show ?thesis by (simp add: needs_def)
qed

lemma head_needed: "needs P D a x \<Longrightarrow> needs P D (Application l s a b) x"
  unfolding needs_def erase.simps using conv_application by blast

lemma step_sound_trans:
  "step_sound P D c u c1 u1 \<Longrightarrow> erase c1 = erase c \<Longrightarrow> step_sound P D c1 u1 c2 u2 \<Longrightarrow> step_sound P D c u c2 u2"
  using needs_cong [of c1 c P D] by (auto simp: step_sound_def)

lemma call_head_sound:
  assumes an: "steps_sound N P D an" and run: "call_head an c u h = Some (c', u', h')"
    and "analysable N c" and "flags_sound P D c"
  shows "step_sound P D c u c' u'"
proof -
  from run obtain l s a b where c: "c = Application l s a b" by (cases c) auto
  with run obtain a' where a: "an a u h = Some (a', u', h')" "c' = Application l s a' b"
    by (auto simp: bind_simps)
  with steps_soundD [OF an a(1)] assms(3,4) c show ?thesis by (auto simp: step_sound_def intro: head_needed)
qed

lemma seq_after_sound:
  assumes an: "steps_sound N P D an" and run: "seq_after an c u h = Some (c', u', h')"
    and "analysable N c" and "flags_sound P D c"
  shows "step_sound P D c u c' u'"
proof -
  from run obtain l s a b where c: "c = Application l s a b" by (cases c) auto
  with run obtain b' u1 where b: "an b [] h = Some (b', u1, h')" "c' = Application l s a b'" "u' = u"
    by (auto simp: bind_simps)
  with steps_soundD [OF an b(1)] assms(3,4) c show ?thesis by (auto simp: step_sound_def)
qed

lemma if_branches_sound:
  assumes an: "steps_sound N P D an" and ok: "steps_ok an" and run: "if_branches an c u h = Some (c', u', h')"
    and wf: "analysable N c" "flags_sound P D c" and h: "spine_head c = Builtin l'' B_IF" "spine_len c = 3"
  shows "step_sound P D c u c' u'"
proof -
  from run obtain l s l' s' a t f where c: "c = Application l s (Application l' s' a t) f"
    by (cases "(an, c, u, h)" rule: if_branches.cases) auto
  with run obtain t' tu h1 f' fu where b: "an t [] h = Some (t', tu, h1)" "an f [] h1 = Some (f', fu, h')"
    "c' = Application l s (Application l' s' a t') f'" "u' = add_union u tu fu"
    by (auto simp: bind_simps)
  have "sorted_wrt (<) tu" "sorted_wrt (<) fu" using b(1,2) [THEN steps_okD [OF ok]] by (simp_all add: step_ok_def)
  then have u': "set u' = set u \<union> (set tu \<inter> set fu)" by (simp add: b(4) set_add_union)
  have "step_sound P D t [] t' tu" "step_sound P D f [] f' fu"
    using steps_soundD [OF an b(1)] steps_soundD [OF an b(2)] wf c by simp_all
  then show ?thesis using if_needed [OF c h] wf c u' b(3) by (auto simp: step_sound_def)
qed

lemma is_bif_erase: "is_bif b (erase f) = is_bif b f"
  by (cases f) auto

lemma spine_cong:
  assumes "erase c1 = erase c"
  shows "spine_len c1 = spine_len c" "is_bif b (spine_head c1) = is_bif b (spine_head c)"
  using arg_cong [OF assms, of spine_len] arg_cong [OF assms, of "\<lambda>c. is_bif b (spine_head c)"]
  by (simp_all add: is_bif_erase)

lemma check_application_sound:
  assumes an: "steps_sound (length P) P D an" and ok: "steps_ok an" and sound: "calls_sound P D src"
    and wf: "analysable (length P) c" "flags_sound P D c"
    and run: "check_application src an c u h = Some (c', u', h')"
  shows "step_sound P D c u c' u'"
proof -
  let ?f = "spine_head c" and ?n = "spine_len c" and ?N = "length P"
  have eqs: "analysable ?N c1" "spine_len c1 = ?n" "is_bif b (spine_head c1) = is_bif b ?f" if "erase c1 = erase c" for c1 b
    using wf(1) analysable_cong [OF that] spine_cong [OF that] by (blast, blast, blast)
  have head: "step_sound P D c u c' u'"
    if "step_sound P D c u c3 u3" "erase c3 = erase c" "call_head an c3 u3 h3 = Some (c', u', h')" for c3 u3 h3
    using step_sound_trans [OF that(1,2)] call_head_sound [OF an that(3)] eqs(1) [OF that(2)] that(1)
    by (simp add: step_sound_def)
  show ?thesis
  proof (cases "fun_nargs src ?f = Some ?n")
    case False
    then show ?thesis using run wf(2) call_head_sound [OF an _ wf] by (simp add: check_application_def Let_def)
  next
    case True
    with run obtain c1 u1 h1 c2 u2 h2 c3 u3 h3 where
      1: "strict_args src an ?f ?n c u h = Some (c1, u1, h1)" and
      2: "(if is_bif B_IF ?f then if_branches an c1 u1 h1 else Some (c1, u1, h1)) = Some (c2, u2, h2)" and
      3: "(if is_bif B_SEQ ?f then seq_after an c2 u2 h2 else Some (c2, u2, h2)) = Some (c3, u3, h3)" and
      4: "call_head an c3 u3 h3 = Some (c', u', h')"
      by (auto simp: check_application_def Let_def bind_eq_Some_conv)
    have s1: "step_sound P D c u c1 u1"
      using strict_args_sound [OF an 1 refl wf] call_arg_needed [OF sound wf(1) True]
      unfolding step_sound_def by blast
    have e1: "erase c1 = erase c" using strict_args_ok [OF ok 1] by (simp add: step_ok_def)
    have "step_sound P D c1 u1 c2 u2 \<and> erase c2 = erase c1"
    proof (cases "is_bif B_IF ?f")
      case True
      with \<open>fun_nargs src ?f = Some ?n\<close> have "?n = 3" by (auto simp: is_bif_iff fun_nargs_def if_seq_rows)
      moreover obtain l where "spine_head c1 = Builtin l B_IF" using True eqs(3) [OF e1] by (auto simp: is_bif_iff)
      ultimately show ?thesis using 2 True s1 eqs [OF e1] if_branches_sound [OF an ok] if_branches_ok [OF ok]
        by (auto simp: step_sound_def step_ok_def)
    qed (use 2 s1 in \<open>simp add: step_sound_def\<close>)
    with s1 e1 have s2: "step_sound P D c u c2 u2" "erase c2 = erase c" by (auto intro: step_sound_trans)
    have "step_sound P D c2 u2 c3 u3 \<and> erase c3 = erase c2"
      using 3 s2 eqs(1) [OF s2(2)] seq_after_sound [OF an, of c2 u2 h2] seq_after_ok [OF ok, of c2 u2 h2]
      by (auto simp: step_sound_def step_ok_def split: if_splits)
    with s2 have "step_sound P D c u c3 u3" "erase c3 = erase c" by (auto intro: step_sound_trans)
    from head [OF this 4] show ?thesis .
  qed
qed

subsection \<open>Letrec\<close>

lemma map_of_rec_env:
  assumes "distinct (map rec_name rs)" and "r \<in> set rs"
  shows "map_of (rec_env rs \<rho>) (rec_name r) = Some (Clo (LetrecNode noloc rs (rec_value r)) \<rho>)"
proof -
  have "map_of (map (\<lambda>r. (rec_name r, f r)) rs) (rec_name r) = Some (f r)" for f :: "letrec \<Rightarrow> clo"
    using assms by (intro map_of_is_SomeI) (auto simp: comp_def)
  then show ?thesis by (simp add: rec_env_def)
qed

lemma map_of_rec_env_other: "x \<notin> rec_name ` set rs \<Longrightarrow> map_of (rec_env rs \<rho>) x = map_of \<rho> x"
  by (auto simp: rec_env_def map_add_def split: option.split dest!: map_of_SomeD)

lemma conv_symbol:
  assumes "conv P D n \<rho> (Symbol l x) stk"
  obtains e \<rho>' where "map_of \<rho> x = Some (Clo e \<rho>')" "conv P D n \<rho>' e stk"
proof -
  from conv_Suc [OF assms] obtain m c where m: "n = Suc m" "map_of \<rho> x = Some c" "enter (eval P D m) c stk \<noteq> None"
    by (auto simp: machine_step_def bind_eq_Some_conv)
  obtain e \<rho>' where "c = Clo e \<rho>'" by (cases c)
  with m that conv_mono [of m n] show thesis by simp
qed

lemma conv_symbol_cong:
  assumes "map_of \<rho> x = map_of \<rho>' x" and "conv P D n \<rho> (Symbol l x) stk"
  shows "conv P D n \<rho>' (Symbol l x) stk"
proof -
  from conv_Suc [OF assms(2)] obtain m where "n = Suc m" "machine_step P D (eval P D m) \<rho> (Symbol l x) stk \<noteq> None" by blast
  then show ?thesis using assms(1) by (simp add: machine_step_def)
qed

lemma binding_needed_value:
  assumes "distinct (map rec_name rs)" and r: "r \<in> set rs" and "binding_needed P D rs b (rec_name r)"
    and "needs P D (rec_value r) x"
  shows "binding_needed P D rs b x"
proof -
  let ?r = "Letrec (rec_name r) (erase (rec_value r)) False (rec_sc r)"
  have r': "?r \<in> set (erase_recs rs)" using r by (auto simp: erase_recs_map)
  have "conv P D n (rec_env (erase_recs rs) \<rho>) (Symbol noloc x) []"
    if "conv P D n (rec_env (erase_recs rs) \<rho>) (erase b) stk" for n \<rho> stk
  proof -
    have "conv P D n (rec_env (erase_recs rs) \<rho>) (Symbol noloc (rec_name r)) []"
      using assms(3) that unfolding binding_needed_def by blast
    moreover have "map_of (rec_env (erase_recs rs) \<rho>) (rec_name r) =
        Some (Clo (LetrecNode noloc (erase_recs rs) (erase (rec_value r))) \<rho>)"
      using map_of_rec_env [OF _ r'] assms(1) by simp
    ultimately have "conv P D n \<rho> (LetrecNode noloc (erase_recs rs) (erase (rec_value r))) []"
      by (elim conv_symbol) simp
    from conv_letrec [OF this] needsD [OF assms(4)] show ?thesis by blast
  qed
  then show ?thesis by (simp add: binding_needed_def)
qed

lemma binding_needed_cong:
  "erase_recs rs = erase_recs rs' \<Longrightarrow> erase b = erase b' \<Longrightarrow> binding_needed P D rs b = binding_needed P D rs' b'"
  by (simp add: fun_eq_iff binding_needed_def)

lemma flags_sound_recs_iff: "flags_sound_recs P D rs \<longleftrightarrow> (\<forall>r \<in> set rs. flags_sound P D (rec_value r))"
proof (induction rs)
  case (Cons r rs)
  then show ?case by (cases r) simp
qed simp

lemma analysable_recs_iff: "analysable_recs n rs \<longleftrightarrow> (\<forall>r \<in> set rs. analysable n (rec_value r))"
proof (induction rs)
  case (Cons r rs)
  then show ?case by (cases r) simp
qed simp

lemma strict_values_sound:
  assumes an: "steps_sound N P D an"
  shows "strict_values an rs u h = Some (rs', u', h') \<Longrightarrow> analysable_recs N rs \<Longrightarrow> flags_sound_recs P D rs \<Longrightarrow>
    flags_sound_recs P D rs' \<and>
    (\<forall>x \<in> set u'. x \<in> set u \<or> (\<exists>r \<in> set rs. rec_strict r \<and> needs P D (rec_value r) x))"
proof (induction rs arbitrary: u h rs')
  case (Cons r rs)
  obtain n v st sc where r: "r = Letrec n v st sc" by (cases r)
  from Cons.prems(1) obtain v' u1 h1 rs1 where
    v: "(if st then an v u h else Some (v, u, h)) = Some (v', u1, h1)"
    and rs: "strict_values an rs u1 h1 = Some (rs1, u', h')" and rs': "rs' = Letrec n v' st sc # rs1"
    unfolding r by (auto simp: bind_eq_Some_conv)
  have "flags_sound P D v' \<and> (\<forall>x \<in> set u1. x \<in> set u \<or> st \<and> needs P D v x)"
    using v steps_soundD [OF an, of v u h] Cons.prems(2,3) r by (auto simp: step_sound_def split: if_splits)
  moreover have "flags_sound_recs P D rs1 \<and>
      (\<forall>x \<in> set u'. x \<in> set u1 \<or> (\<exists>r \<in> set rs. rec_strict r \<and> needs P D (rec_value r) x))"
    using Cons.IH [OF rs] Cons.prems(2,3) r by simp
  ultimately show ?case unfolding r rs' by auto
qed simp

lemma mark_used_fields [simp]: "rec_name (mark_used u r) = rec_name r" "rec_value (mark_used u r) = rec_value r"
  by (simp_all add: mark_used_def)

lemma letrec_loop_sound:
  assumes an: "steps_sound N P D an" and ok: "steps_ok an"
  shows "letrec_loop an k rs b u h = Some (rs', b', u', h') \<Longrightarrow> analysable N (LetrecNode l rs b) \<Longrightarrow>
    flags_sound P D (LetrecNode l rs b) \<Longrightarrow> \<forall>x \<in> set u. binding_needed P D rs b x \<Longrightarrow>
    flags_sound P D (LetrecNode l rs' b') \<and> (\<forall>x \<in> set u'. binding_needed P D rs b x)"
proof (induction k arbitrary: rs b u h)
  case (Suc k)
  from Suc.prems(1) obtain rs1 u1 h1 b1 u2 h2 where
    1: "strict_values an rs u h = Some (rs1, u1, h1)" and 2: "an b u1 h1 = Some (b1, u2, h2)"
    and 3: "(if list_ex (newly_used u2) rs1 then letrec_loop an k (map (mark_used u2) rs1) b1 u2 True
             else Some (map (mark_used u2) rs1, b1, u2, h2)) = Some (rs', b', u', h')"
    by (auto simp: bind_eq_Some_conv Let_def)
  let ?rs2 = "map (mark_used u2) rs1"
  have wf: "distinct (map rec_name rs)" "analysable_recs N rs" "analysable N b" "flags_sound_recs P D rs" "flags_sound P D b"
    "\<forall>r \<in> set rs. rec_strict r \<longrightarrow> binding_needed P D rs b (rec_name r)"
    using Suc.prems(2,3) by simp_all
  have s1: "flags_sound_recs P D rs1" "\<forall>x \<in> set u1. binding_needed P D rs b x"
    using strict_values_sound [OF an 1 wf(2,4)] Suc.prems(4) wf(6) binding_needed_value [OF wf(1)] by blast+
  have s2: "flags_sound P D b1" "\<forall>x \<in> set u2. binding_needed P D rs b x"
    using steps_soundD [OF an 2 wf(3,5)] s1(2) unfolding step_sound_def needs_def binding_needed_def by blast+
  have e1: "erase_recs rs1 = erase_recs rs" "erase b1 = erase b" "map rec_strict rs1 = map rec_strict rs"
    using strict_values_ok [OF ok 1, of noloc b] steps_okD [OF ok 2] by (simp_all add: step_ok_def)
  have e2: "erase_recs ?rs2 = erase_recs rs" using e1(1) by (simp add: mark_used_flags)
  note bn = binding_needed_cong [OF e2 e1(2), of P D]
  have names: "map rec_name rs1 = map rec_name rs" using arg_cong [OF e1(1), of "map rec_name"] by simp
  have old: "binding_needed P D rs b (rec_name r)" if r: "r \<in> set rs1" "rec_strict r" for r
  proof -
    obtain i where "i < length rs1" "rs1 ! i = r" using r(1) by (auto simp: in_set_conv_nth)
    with r(2) names e1(3) have "i < length rs" "rec_name (rs ! i) = rec_name r" "rec_strict (rs ! i)"
      by (metis length_map nth_map)+
    with wf(6) nth_mem show ?thesis by metis
  qed
  have new: "binding_needed P D ?rs2 b1 (rec_name r)" if "r \<in> set ?rs2" "rec_strict r" for r
    using that old s2(2) unfolding bn by (auto simp: newly_used_def)
  have "flags_sound_recs P D ?rs2" using s1(1) by (simp add: flags_sound_recs_iff)
  with new s2(1) have fs: "flags_sound P D (LetrecNode l ?rs2 b1)" by simp
  have u2: "\<forall>x \<in> set u2. binding_needed P D ?rs2 b1 x" using s2(2) bn by simp
  have wf2: "analysable N (LetrecNode l ?rs2 b1)"
    using Suc.prems(2) analysable_cong [of "LetrecNode l ?rs2 b1" "LetrecNode l rs b"] e1(2) e2 by simp
  show ?case
  proof (cases "list_ex (newly_used u2) rs1")
    case True
    with 3 have "letrec_loop an k ?rs2 b1 u2 True = Some (rs', b', u', h')" by simp
    from Suc.IH [OF this wf2 fs u2] show ?thesis unfolding bn .
  qed (use 3 fs s2(2) in auto)
qed simp

lemma letrec_needed:
  assumes "binding_needed P D rs b x" and "x \<notin> rec_name ` set rs"
  shows "needs P D (LetrecNode l rs b) x"
proof -
  have "conv P D n \<rho> (Symbol noloc x) []" if "conv P D n \<rho> (erase (LetrecNode l rs b)) stk" for n \<rho> stk
  proof -
    from that have "conv P D n (rec_env (erase_recs rs) \<rho>) (erase b) stk" by (simp add: conv_letrec)
    then have "conv P D n (rec_env (erase_recs rs) \<rho>) (Symbol noloc x) []"
      using assms(1) unfolding binding_needed_def by blast
    moreover have "x \<notin> rec_name ` set (erase_recs rs)"
      using assms(2) by (metis list.set_map rec_name_erase)
    ultimately show ?thesis using conv_symbol_cong [OF map_of_rec_env_other] by blast
  qed
  then show ?thesis by (simp add: needs_def)
qed

lemma symbol_needed: "needs P D (Symbol l x) x"
proof -
  have "eval P D n \<rho> (Symbol l x) [] = eval P D n \<rho> (Symbol noloc x) []" for n \<rho>
    by (cases n) (simp_all add: machine_step_def)
  then show ?thesis unfolding needs_def erase.simps using conv_head by metis
qed

lemma check_strictness_r_sound:
  assumes sound: "calls_sound P D src"
  shows "steps_sound (length P) P D (check_strictness_r src fuel)"
proof (induction fuel)
  case (Suc fuel)
  let ?N = "length P"
  have "step_sound P D c u c' u'" if run: "check_strictness_r src (Suc fuel) c u h = Some (c', u', h')"
    and wf: "analysable ?N c" "flags_sound P D c" for c u h c' u' h'
  proof (cases c)
    case (Application l s a b)
    then show ?thesis using run check_application_sound [OF Suc.IH check_strictness_r_ok sound wf] by simp
  next
    case (LetrecNode l rs b)
    with run obtain rs' b' bu where
      r: "letrec_loop (check_strictness_r src fuel) fuel rs b [] h = Some (rs', b', bu, h')"
      "c' = LetrecNode l rs' b'" "u' = outer_used rs' bu u"
      by (auto simp: bind_eq_Some_conv)
    have s: "flags_sound P D c'" "\<forall>x \<in> set bu. binding_needed P D rs b x"
      using letrec_loop_sound [OF Suc.IH check_strictness_r_ok r(1), of l] wf LetrecNode r(2) by simp_all
    have "erase_recs rs' = erase_recs rs"
      using letrec_loop_ok [OF check_strictness_r_ok r(1), of l] by (simp add: step_ok_def)
    then have "map rec_name rs' = map rec_name rs" by (metis rec_name_erase)
    then have "rec_name ` set rs' = rec_name ` set rs" by (metis list.set_map)
    then have "set u' = set u \<union> {x \<in> set bu. x \<notin> rec_name ` set rs}"
      by (auto simp: r(3) outer_used_def list_ex_iff)
    with s letrec_needed LetrecNode show ?thesis by (auto simp: step_sound_def)
  qed (use run wf in \<open>auto simp: step_sound_def symbol_needed\<close>)
  then show ?case by (simp add: steps_sound_def)
qed (simp add: steps_sound_def)

subsection \<open>The program\<close>

definition sound_program :: "fundef list \<Rightarrow> builtins \<Rightarrow> source \<Rightarrow> bool" where
  "sound_program P D src \<longleftrightarrow>
     map fd_args P = map sc_argnames (scombs src) \<and>
     map (\<lambda>fd. Some (fd_body fd)) P = map (\<lambda>sc. map_option erase (sc_body sc)) (scombs src) \<and>
     strictin_sound P D src \<and>
     (\<forall>sc \<in> set (scombs src). distinct (sc_argnames sc) \<and> (\<forall>e. sc_body sc = Some e \<longrightarrow> flags_sound P D e))"

lemma sound_programD:
  assumes "sound_program P D src" and i: "i < length (scombs src)"
  shows "fd_args (P ! i) = sc_argnames (scombs src ! i)"
    "Some (fd_body (P ! i)) = map_option erase (sc_body (scombs src ! i))" "length P = length (scombs src)"
proof -
  have 1: "map fd_args P = map sc_argnames (scombs src)"
    "map (\<lambda>fd. Some (fd_body fd)) P = map (\<lambda>sc. map_option erase (sc_body sc)) (scombs src)"
    using assms(1) by (simp_all add: sound_program_def)
  from 1(1) show l: "length P = length (scombs src)" by (metis length_map)
  show "fd_args (P ! i) = sc_argnames (scombs src ! i)"
    using arg_cong [OF 1(1), of "\<lambda>xs. xs ! i"] l i by simp
  show "Some (fd_body (P ! i)) = map_option erase (sc_body (scombs src ! i))"
    using arg_cong [OF 1(2), of "\<lambda>xs. xs ! i"] l i by simp
qed

lemma used_arg_needed:
  assumes sp: "sound_program P D src" and i: "i < length (scombs src)" and e: "sc_body (scombs src ! i) = Some e"
    and j: "j < sc_nargs (scombs src ! i)" and x: "needs P D e (sc_argnames (scombs src ! i) ! j)"
  shows "arg_needed P D i j"
proof -
  let ?args = "sc_argnames (scombs src ! i)"
  note P = sound_programD [OF sp i]
  have body: "fd_body (P ! i) = erase e" using P(2) e by simp
  have dist: "distinct ?args" using sp nth_mem [OF i] by (simp add: sound_program_def)
  have "enter (eval P D n) (stk ! j) [] \<noteq> None"
    if stk: "length ?args \<le> length stk" "conv P D n \<rho> (Scref l i) stk" for n \<rho> l stk
  proof -
    let ?\<rho> = "zip ?args (take (length ?args) stk)"
    from conv_Suc [OF stk(2)] obtain m where m: "n = Suc m" "call_scomb (eval P D m) (P ! i) stk \<noteq> None"
      using stk(1) P(1) by (auto simp: machine_step_def)
    then have "conv P D m ?\<rho> (erase e) (drop (length ?args) stk)"
      by (auto simp: call_scomb_def Let_def P(1) body split: if_splits)
    from needsD [OF x this] obtain e' \<rho>' where
      l: "map_of ?\<rho> (?args ! j) = Some (Clo e' \<rho>')" "conv P D m \<rho>' e' []" by (rule conv_symbol)
    have "map_of ?\<rho> (?args ! j) = Some (stk ! j)"
      using dist j stk(1) by (subst map_of_zip_nth) auto
    then have "stk ! j = Clo e' \<rho>'" using l(1) by simp
    then have "enter (eval P D m) (stk ! j) [] \<noteq> None" using l(2) by simp
    then show ?thesis using enter_mono [of m n] m(1) by simp
  qed
  then show ?thesis by (simp add: arg_needed_def P(1))
qed

lemma check_strictness_sound:
  assumes ok: "program_ok src" and sp: "sound_program P D src" and i: "i < length (scombs src)"
    and run: "check_strictness fuel src i h = Some (src', h')"
  shows "sound_program P D src'"
proof -
  let ?sc = "scombs src ! i"
  from run obtain e st e' used h1 st' where
    r: "sc_body ?sc = Some e" "sc_strictin ?sc = Some st"
      "check_strictness_r src fuel e [] h = Some (e', used, h1)"
      "st' = map (\<lambda>j. st ! j \<or> sc_argnames ?sc ! j \<in> set used) [0 ..< sc_nargs ?sc]"
    and src': "src' = src\<lparr>scombs := (scombs src)[i := ?sc\<lparr>sc_body := Some e', sc_strictin := Some st'\<rparr>]\<rparr>"
    by (rule check_strictness_cases)
  have ss: "strictin_sound P D src" and P: "map fd_args P = map sc_argnames (scombs src)"
    using sp by (simp_all add: sound_program_def)
  have e: "analysable (length (scombs src)) e" "flags_sound P D e" "length st = sc_nargs ?sc"
    using ok sp i r(1,2) nth_mem [OF i]
    by (auto simp: program_ok_def table_ok_def sc_flags_ok_def list_all_length sound_program_def)
  have s: "step_sound P D e [] e' used"
    by (rule steps_soundD [OF check_strictness_r_sound [OF strictin_calls_sound(1) [OF ss P]] r(3)]) (use e in \<open>simp_all add: strictin_calls_sound(2) [OF ss P]\<close>)
  have "erase e' = erase e" using steps_okD [OF check_strictness_r_ok r(3)] by (simp add: step_ok_def)
  then have bodies: "map (\<lambda>sc. map_option erase (sc_body sc)) (scombs src') = map (\<lambda>sc. map_option erase (sc_body sc)) (scombs src)"
    using r(1) i by (simp add: src' map_update list_update_same_conv)
  have args: "map sc_argnames (scombs src') = map sc_argnames (scombs src)"
    using i by (simp add: src' map_update list_update_same_conv)
  have "arg_needed P D i j" if "j < length st'" "st' ! j" for j
  proof (cases "st ! j")
    case True
    then show ?thesis using ss i r(2,4) e(3) that by (simp add: strictin_sound_def)
  next
    case False
    then have "needs P D e (sc_argnames ?sc ! j)" using that r(4) s by (simp add: step_sound_def)
    then show ?thesis using used_arg_needed [OF sp i r(1)] that r(4) by simp
  qed
  then have "strictin_sound P D src'"
    using ss i by (auto simp: strictin_sound_def src' nth_list_update split: if_splits)
  moreover have "distinct (sc_argnames sc) \<and> (\<forall>e. sc_body sc = Some e \<longrightarrow> flags_sound P D e)" if "sc \<in> set (scombs src')" for sc
  proof -
    have "sc \<in> set (scombs src) \<or> sc = ?sc\<lparr>sc_body := Some e', sc_strictin := Some st'\<rparr>"
      using that set_update_subset_insert [of "scombs src" i] by (auto simp: src')
    then show ?thesis using sp s nth_mem [OF i] by (auto simp: sound_program_def step_sound_def)
  qed
  ultimately show ?thesis using sp args bodies by (simp add: sound_program_def)
qed

lemma strictness_pass_sound:
  "strictness_pass fuel src is h = Some (src', h') \<Longrightarrow> program_ok src \<Longrightarrow> sound_program P D src \<Longrightarrow>
   \<forall>i \<in> set is. i < length (scombs src) \<Longrightarrow> program_ok src' \<and> sound_program P D src'"
proof (induction "is" arbitrary: src h)
  case (Cons i "is")
  then obtain src1 h1 where 1: "check_strictness fuel src i h = Some (src1, h1)"
    "strictness_pass fuel src1 is h1 = Some (src', h')" by (auto simp: bind_eq_Some_conv)
  have "same_program src src1" using check_strictness_same [OF Cons.prems(2) _ 1(1)] Cons.prems(4) by simp
  with same_program_keeps [OF this] Cons.IH [OF 1(2)] check_strictness_sound [OF Cons.prems(2,3) _ 1(1)] Cons.prems
  show ?case by simp
qed simp

lemma strictness_loop_sound:
  "strictness_loop fuel n src = Some src' \<Longrightarrow> program_ok src \<Longrightarrow> sound_program P D src \<Longrightarrow> sound_program P D src'"
proof (induction n arbitrary: src)
  case (Suc n)
  then obtain src1 h where 1: "strictness_pass fuel src [0 ..< length (scombs src)] False = Some (src1, h)"
    "(if h then strictness_loop fuel n src1 else Some src1) = Some src'" by (auto simp: bind_eq_Some_conv)
  from strictness_pass_sound [OF 1(1) Suc.prems(2,3)] have "program_ok src1 \<and> sound_program P D src1" by simp
  with 1(2) Suc.IH show ?case by (auto split: if_splits)
qed simp

subsection \<open>Properties\<close>

text \<open>Trees on which no letrec binding is marked yet, as the earlier passes leave them.\<close>

fun unmarked_recs :: "snode \<Rightarrow> bool" and unmarked_list :: "letrec list \<Rightarrow> bool" where
  "unmarked_recs (Application l s a b) \<longleftrightarrow> unmarked_recs a \<and> unmarked_recs b"
| "unmarked_recs (LetrecNode l rs b) \<longleftrightarrow> unmarked_list rs \<and> unmarked_recs b"
| "unmarked_recs e \<longleftrightarrow> True"
| "unmarked_list [] \<longleftrightarrow> True"
| "unmarked_list (Letrec n v st sc # rs) \<longleftrightarrow> \<not> st \<and> unmarked_recs v \<and> unmarked_list rs"

lemma unmarked_list_iff: "unmarked_list rs \<longleftrightarrow> (\<forall>r \<in> set rs. \<not> rec_strict r \<and> unmarked_recs (rec_value r))"
proof (induction rs)
  case (Cons r rs)
  then show ?case by (cases r) auto
qed simp

lemma unmarked_flags_sound: "unmarked_recs e \<Longrightarrow> flags_sound P D e" "unmarked_list rs \<Longrightarrow> flags_sound_recs P D rs"
  by (induction e and rs rule: unmarked_recs_unmarked_list.induct) (auto simp: unmarked_list_iff)

text \<open>What the analysis relies on: a lifted program with different argument names.\<close>

definition ready_scomb :: "nat \<Rightarrow> scomb \<Rightarrow> bool" where
  "ready_scomb n sc \<longleftrightarrow>
     (case sc_body sc of Some e \<Rightarrow> analysable n e \<and> unmarked_recs e | None \<Rightarrow> False) \<and>
     (case sc_strictin sc of Some st \<Rightarrow> length st = sc_nargs sc | None \<Rightarrow> True) \<and> distinct (sc_argnames sc)"

definition ready_program :: "source \<Rightarrow> bool" where
  "ready_program src \<longleftrightarrow> list_all (ready_scomb (length (scombs src))) (scombs src)"

lemma init_strictin_fields [simp]: "sc_body (init_strictin sc) = sc_body sc" "sc_argnames (init_strictin sc) = sc_argnames sc"
  by (simp_all add: init_strictin_def)

lemma init_strictin_flags: "sc_strictin (init_strictin sc) =
    Some (case sc_strictin sc of Some st \<Rightarrow> st | None \<Rightarrow> replicate (sc_nargs sc) False)"
  by (auto simp: init_strictin_def)

lemma sc_size_init [simp]: "sc_size (init_strictin sc) = sc_size sc"
  by (simp add: sc_size_def)

lemma init_program:
  assumes "ready_program src"
  defines "src0 \<equiv> src\<lparr>scombs := map init_strictin (scombs src)\<rparr>"
  shows "program_ok src0" "sound_program (program_of src) D src0" "prog_size src0 = prog_size src"
proof -
  let ?P = "program_of src"
  have sc: "ready_scomb (length (scombs src)) sc" if "sc \<in> set (scombs src)" for sc
    using assms(1) that by (simp add: ready_program_def list_all_iff)
  show "program_ok src0"
    using sc by (fastforce simp: program_ok_def table_ok_def sc_flags_ok_def src0_def ready_scomb_def
        init_strictin_flags list_all_iff split: option.splits)
  have "strictin_sound ?P D src0"
    unfolding strictin_sound_def arg_needed_def
  proof (intro allI impI)
    fix i st j n \<rho> l stk
    assume h: "i < length (scombs src0)" "sc_strictin (scombs src0 ! i) = Some st" "j < length st" "st ! j"
      "length (fd_args (?P ! i)) \<le> length stk" "conv ?P D n \<rho> (Scref l i) stk"
    have i: "i < length (scombs src)" using h(1) by (simp add: src0_def)
    have "fd_marks (?P ! i) = st" "length st = length (fd_args (?P ! i))"
      using h(2) i sc [OF nth_mem [OF i]]
      by (auto simp: src0_def init_strictin_flags program_of_def ready_scomb_def split: option.splits)
    moreover from conv_Suc [OF h(6)] obtain m where m: "n = Suc m" "call_scomb (eval ?P D m) (?P ! i) stk \<noteq> None"
      using h(5) by (auto simp: machine_step_def)
    ultimately have "enter (eval ?P D m) (stk ! j) [] \<noteq> None"
      using h(3,4) by (auto simp: call_scomb_def Let_def list_all_iff split: if_splits)
    then show "enter (eval ?P D n) (stk ! j) [] \<noteq> None" using enter_mono [of m n] m(1) by simp
  qed
  then show "sound_program ?P D src0"
    using sc by (fastforce simp: sound_program_def src0_def program_of_def ready_scomb_def
        unmarked_flags_sound split: option.splits)
  show "prog_size src0 = prog_size src" by (simp add: src0_def comp_def)
qed

text \<open>C1: strictness analysis terminates and is sound. With fuel above the number of tree nodes
  and arguments of the program, the analysis of a lambda-lifted program returns; it changes
  nothing but flags and takes no flag back. Whatever the built-in functions other than \<^verbatim>\<open>if\<close>
  and \<^verbatim>\<open>seq\<close> do, every argument it marks strict is evaluated in every call of the
  supercombinator that returns a value, and every letrec binding it marks is evaluated whenever
  the body of the letrec is: evaluating them early never makes a terminating program diverge.\<close>

theorem strictness_analysis_sound:
  assumes "ready_program src" and "prog_size src < fuel"
  shows "\<exists>src'. strictness_analysis fuel src = Some src' \<and>
     same_program (src\<lparr>scombs := map init_strictin (scombs src)\<rparr>) src' \<and>
     (\<forall>i < length (scombs src'). \<forall>st j. sc_strictin (scombs src' ! i) = Some st \<longrightarrow> j < length st \<longrightarrow> st ! j \<longrightarrow>
        arg_needed (program_of src) D i j) \<and>
     (\<forall>sc \<in> set (scombs src'). \<forall>e. sc_body sc = Some e \<longrightarrow> flags_sound (program_of src) D e)"
proof -
  let ?src0 = "src\<lparr>scombs := map init_strictin (scombs src)\<rparr>"
  note init = init_program [OF assms(1)]
  obtain src' where r: "strictness_loop fuel fuel ?src0 = Some src'" "same_program ?src0 src'"
    using strictness_loop_returns [OF init(1), of fuel fuel] init(3) assms(2) by auto
  have "sound_program (program_of src) D src'"
    by (rule strictness_loop_sound [OF r(1) init(1,2)])
  then show ?thesis
    using r by (auto simp: strictness_analysis_def sound_program_def strictin_sound_def)
qed

text \<open>\<^verbatim>\<open>f a b c = if a (+ b b) (- b c)\<close> is strict in \<^verbatim>\<open>a\<close> and \<^verbatim>\<open>b\<close>, but not in \<^verbatim>\<open>c\<close>.\<close>

definition strict_example :: source where
  "strict_example =
     (let app = Application noloc False; var = Symbol noloc;
          call = (\<lambda>f x y. app (app (Builtin noloc f) x) y);
          e = app (call B_IF (var ''a'') (call 0 (var ''b'') (var ''b''))) (call 1 (var ''b'') (var ''c''))
      in source_new\<lparr>scombs := [scomb_zero\<lparr>sc_name := ''f'', sc_argnames := [''a'', ''b'', ''c''], sc_body := Some e\<rparr>]\<rparr>)"

lemma strict_example_run:
  "map_option (\<lambda>src. map sc_strictin (scombs src)) (strictness_analysis 20 strict_example) = Some [Some [True, True, False]]"
  by code_simp

theorem strictness_analysis_sound_witness:
  "\<exists>src'. strictness_analysis 20 strict_example = Some src' \<and>
     map sc_strictin (scombs src') = [Some [True, True, False]] \<and>
     arg_needed (program_of strict_example) (\<lambda>b vs cs. None) 0 1"
proof -
  have h: "ready_program strict_example" "prog_size strict_example < 20" by code_simp+
  from strictness_analysis_sound [OF h, of "\<lambda>b vs cs. None"] obtain src' where
    s: "strictness_analysis 20 strict_example = Some src'"
      "\<forall>i < length (scombs src'). \<forall>st j. sc_strictin (scombs src' ! i) = Some st \<longrightarrow> j < length st \<longrightarrow> st ! j \<longrightarrow>
        arg_needed (program_of strict_example) (\<lambda>b vs cs. None) i j" by blast
  with strict_example_run have m: "map sc_strictin (scombs src') = [Some [True, True, False]]" by simp
  then have "0 < length (scombs src')" "sc_strictin (scombs src' ! 0) = Some [True, True, False]" by auto
  moreover have "1 < length [True, True, False]" "[True, True, False] ! 1" by simp_all
  ultimately have "arg_needed (program_of strict_example) (\<lambda>b vs cs. None) 0 1" by (rule s(2) [rule_format])
  with s(1) m show ?thesis by (intro exI conjI)
qed

end
