(* ===== verification/Simulation.thy ===== *)
theory Simulation
  imports Lazy_Machine
begin

text \<open>
  When two programs have the same meaning, as the specification of the passes that rewrite
  lambda-lifted trees. \<open>tr P P' e e'\<close> relates an expression of program \<open>P\<close> with its translation
  for \<open>P'\<close>: the same expression with translated parts; a letrec whose bindings were permuted or,
  when nothing needs them, dropped; a letrec moved out of the head of an application; and an
  expression moved into a new supercombinator of \<open>P'\<close> that is applied to its free variables and
  evaluates those first which the expression itself demands.
  The theorems at the end say that related programs return the same results: whenever one
  of the two machines returns, so does the other, with a related result.
\<close>

subsection \<open>Free variables and applications\<close>

fun fv :: "snode \<Rightarrow> string set" and fv_recs :: "letrec list \<Rightarrow> string set" where
  "fv (Application l s a b) = fv a \<union> fv b"
| "fv (Lambda l x b) = fv b - {x}"
| "fv (Symbol l x) = {x}"
| "fv (LetrecNode l rs b) = (fv_recs rs \<union> fv b) - set (map rec_name rs)"
| "fv (Wrap l t) = fv t"
| "fv _ = {}"
| "fv_recs [] = {}"
| "fv_recs (Letrec x v s c # rs) = fv v \<union> fv_recs rs"

lemma fv_recs_iff: "x \<in> fv_recs rs \<longleftrightarrow> (\<exists>r \<in> set rs. x \<in> fv (rec_value r))"
proof (induction rs)
  case (Cons r rs)
  then show ?case by (cases r) auto
qed simp

fun apps :: "snode \<Rightarrow> (sourceloc \<times> bool \<times> snode) list \<Rightarrow> snode" where
  "apps h [] = h"
| "apps h ((l, s, a) # as) = apps (Application l s h a) as"

abbreviation operands :: "(sourceloc \<times> bool \<times> snode) list \<Rightarrow> snode list" where
  "operands as \<equiv> map (\<lambda>(l, s, a). a) as"

lemma fv_apps [simp]: "fv (apps h as) = fv h \<union> \<Union> (fv ` set (operands as))"
  by (induction h as rule: apps.induct) auto

lemma apps_append: "apps h (as @ bs) = apps (apps h as) bs"
  by (induction h as rule: apps.induct) auto

lemma eval_apps: "eval P d (n + length as) \<rho> (apps h as) stk = eval P d n \<rho> h (map (\<lambda>a. Clo a \<rho>) (operands as) @ stk)"
proof (induction h as arbitrary: n rule: apps.induct)
  case (2 h l s a as)
  have "eval P d (Suc n + length as) \<rho> (apps (Application l s h a) as) stk =
      eval P d n \<rho> h (Clo a \<rho> # map (\<lambda>a. Clo a \<rho>) (operands as) @ stk)"
    by (subst 2) (simp add: machine_step_def)
  then show ?case by simp
qed simp

lemma eval_apps_Some:
  assumes "eval P d m \<rho> (apps h as) stk = Some v"
  obtains n where "m = n + length as" "eval P d n \<rho> h (map (\<lambda>a. Clo a \<rho>) (operands as) @ stk) = Some v"
proof -
  have "length as \<le> m" using assms
  proof (induction h as arbitrary: m rule: apps.induct)
    case (2 h l s a as)
    then have "length as \<le> m" by simp
    moreover have "m \<noteq> length as"
    proof
      assume "m = length as"
      then show False using 2(2) eval_apps [of P d 0 as \<rho> "Application l s h a" stk] by simp
    qed
    ultimately show ?case by simp
  qed simp
  then show ?thesis using assms eval_apps [of P d "m - length as" as \<rho> h stk] that [of "m - length as"] by simp
qed

subsection \<open>Related expressions, closures and values\<close>

definition binding_of :: "letrec list \<Rightarrow> string \<Rightarrow> snode option" where
  "binding_of rs = map_of (map (\<lambda>r. (rec_name r, rec_value r)) rs)"

definition demands :: "fundef list \<Rightarrow> snode \<Rightarrow> string \<Rightarrow> bool" where
  "demands P e x \<longleftrightarrow> (\<forall>d n \<rho> stk. conv P d n \<rho> e stk \<longrightarrow> conv P d n \<rho> (Symbol noloc x) [])"

inductive tr :: "fundef list \<Rightarrow> fundef list \<Rightarrow> snode \<Rightarrow> snode \<Rightarrow> bool" for P P' where
  app: "tr P P' a a' \<Longrightarrow> tr P P' b b' \<Longrightarrow> tr P P' (Application l s a b) (Application l' s' a' b')"
| sym: "tr P P' (Symbol l x) (Symbol l' x)"
| recs: "tr P P' (apps b as) t' \<Longrightarrow>
    (\<forall>x v'. binding_of rs' x = Some v' \<longrightarrow> (\<exists>v. binding_of rs x = Some v \<and> tr P P' v v')) \<Longrightarrow>
    (fv t' \<union> fv_recs rs') \<inter> set (map rec_name rs) \<subseteq> set (map rec_name rs') \<Longrightarrow> fv_recs rs' \<subseteq> fv_recs rs \<Longrightarrow>
    \<Union> (fv ` set (operands as)) \<inter> set (map rec_name rs) = {} \<Longrightarrow>
    tr P P' (apps (LetrecNode l rs b) as) (LetrecNode l' rs' t')"
| scref: "i < length P \<Longrightarrow> tr P P' (Scref l i) (Scref l' i)"
| builtin: "tr P P' (Builtin l b) (Builtin l' b)"
| null: "tr P P' (NilNode l) (NilNode l')"
| number: "tr P P' (Number l d) (Number l' d)"
| string: "tr P P' (StringNode l t) (StringNode l' t)"
| lifted: "tr P P' e (fd_body (P' ! i)) \<Longrightarrow> fv (fd_body (P' ! i)) = set (fd_args (P' ! i)) \<Longrightarrow>
    (\<forall>j < length (fd_args (P' ! i)). fd_marks (P' ! i) ! j \<longrightarrow> demands P e (fd_args (P' ! i) ! j)) \<Longrightarrow>
    list_all2 (\<lambda>x a. \<exists>l'. a = Symbol l' x) (fd_args (P' ! i)) (operands as) \<Longrightarrow>
    tr P P' e (apps (Scref l i) as)"

inductive crel :: "fundef list \<Rightarrow> fundef list \<Rightarrow> clo \<Rightarrow> clo \<Rightarrow> bool" for P P' where
  clo: "tr P P' e e' \<Longrightarrow> (\<forall>x \<in> fv e'. \<exists>c c'. map_of \<rho> x = Some c \<and> map_of \<rho>' x = Some c' \<and> crel P P' c c') \<Longrightarrow>
    crel P P' (Clo e \<rho>) (Clo e' \<rho>')"
| via: "map_of \<rho>' x = Some c' \<Longrightarrow> crel P P' c c' \<Longrightarrow> crel P P' c (Clo (Symbol l x) \<rho>')"

text \<open>Values are related when they agree up to a relation on the suspended expressions and one on
  the functions in them. A built-in function is \<open>black_box\<close> when it treats suspended
  expressions and functions as black boxes.\<close>

inductive val_rel :: "(clo \<Rightarrow> clo \<Rightarrow> bool) \<Rightarrow> (snode \<Rightarrow> snode \<Rightarrow> bool) \<Rightarrow> val \<Rightarrow> val \<Rightarrow> bool" for R S where
  "val_rel R S VNil VNil"
| "val_rel R S (VNumber d) (VNumber d)"
| "val_rel R S (VString t) (VString t)"
| "list_all2 R cs cs' \<Longrightarrow> val_rel R S (VCell t cs) (VCell t cs')"
| "S f f' \<Longrightarrow> list_all2 R cs cs' \<Longrightarrow> val_rel R S (VFun f cs) (VFun f' cs')"

inductive_simps val_rel_iff [simp]:
  "val_rel R S VNil v" "val_rel R S v VNil" "val_rel R S (VNumber d) v" "val_rel R S v (VNumber d)" "val_rel R S (VString t) v"
  "val_rel R S v (VString t)" "val_rel R S (VCell t cs) v" "val_rel R S v (VCell t cs)" "val_rel R S (VFun f cs) v" "val_rel R S v (VFun f cs)"

definition black_box :: "builtins \<Rightarrow> bool" where
  "black_box delta \<longleftrightarrow>
     (\<forall>R S b vs vs' cs cs'. list_all2 (val_rel R S) vs vs' \<longrightarrow> list_all2 R cs cs' \<longrightarrow>
        rel_option (rel_sum (val_rel R S) R) (delta b vs cs) (delta b vs' cs'))"

fun fun_rel :: "nat \<Rightarrow> snode \<Rightarrow> snode \<Rightarrow> bool" where
  "fun_rel n (Scref l i) (Scref l' j) = (i = j \<and> i < n)"
| "fun_rel n (Builtin l a) (Builtin l' b) = (a = b)"
| "fun_rel n e e' = False"

definition prog_sim :: "fundef list \<Rightarrow> fundef list \<Rightarrow> bool" where
  "prog_sim P P' \<longleftrightarrow> (\<forall>i < length P. fd_args (P' ! i) = fd_args (P ! i) \<and> fd_marks (P' ! i) = fd_marks (P ! i) \<and>
     tr P P' (fd_body (P ! i)) (fd_body (P' ! i)) \<and> fv (fd_body (P' ! i)) \<subseteq> set (fd_args (P ! i)))"

subsection \<open>Evaluation steps of related states\<close>

lemma binding_of_None [simp]: "binding_of rs x = None \<longleftrightarrow> x \<notin> set (map rec_name rs)"
  by (auto simp: binding_of_def map_of_eq_None_iff image_image)

lemma rec_env_lookup:
  "map_of (rec_env rs \<rho>) x = (case binding_of rs x of Some v \<Rightarrow> Some (Clo (LetrecNode noloc rs v) \<rho>) | None \<Rightarrow> map_of \<rho> x)"
proof -
  have "map_of (map (\<lambda>r. (rec_name r, Clo (LetrecNode noloc rs0 (rec_value r)) \<rho>)) rs) x =
      map_option (\<lambda>v. Clo (LetrecNode noloc rs0 v) \<rho>) (binding_of rs x)" for rs0
    by (induction rs) (simp_all add: binding_of_def)
  then show ?thesis by (simp add: rec_env_def map_add_def del: binding_of_None split: option.splits)
qed

lemma zip_lookup:
  "list_all2 R cs cs' \<Longrightarrow> length xs = length cs \<Longrightarrow> x \<in> set xs \<Longrightarrow>
   \<exists>c c'. map_of (zip xs cs) x = Some c \<and> map_of (zip xs cs') x = Some c' \<and> R c c'"
proof (induction arbitrary: xs rule: list_all2_induct)
  case (Cons c cs c' cs')
  then show ?case by (cases xs) auto
qed simp

lemma enter_more: "n \<le> m \<Longrightarrow> enter (eval P d n) c stk = Some v \<Longrightarrow> enter (eval P d m) c stk = Some v"
  by (cases c) (simp add: eval_mono)

lemma apply_val_more: "n \<le> m \<Longrightarrow> apply_val (eval P d n) w stk = Some v \<Longrightarrow> apply_val (eval P d m) w stk = Some v"
  by (cases "(eval P d n, w, stk)" rule: apply_val.cases) (simp_all add: eval_mono)

lemma those_length: "those xs = Some ys \<Longrightarrow> length ys = length xs"
  by (induction xs arbitrary: ys) (auto split: option.splits)

lemma those_more: "n \<le> m \<Longrightarrow> those (map (\<lambda>c. enter (eval P d n) c []) cs) = Some vs \<Longrightarrow> those (map (\<lambda>c. enter (eval P d m) c []) cs) = Some vs"
  by (induction cs arbitrary: vs) (auto simp: enter_more split: option.splits)

text \<open>\<open>matches E Q d R S\<close>: what evaluator \<open>E\<close> returns, program \<open>Q\<close> returns too on related arguments.\<close>

definition matches :: "evaluator \<Rightarrow> fundef list \<Rightarrow> builtins \<Rightarrow> (clo \<Rightarrow> clo \<Rightarrow> bool) \<Rightarrow> (snode \<Rightarrow> snode \<Rightarrow> bool) \<Rightarrow> bool" where
  "matches E Q d R S \<longleftrightarrow>
     (\<forall>c c' stk stk' v. R c c' \<longrightarrow> list_all2 R stk stk' \<longrightarrow> enter E c stk = Some v \<longrightarrow>
        (\<exists>m v'. enter (eval Q d m) c' stk' = Some v' \<and> val_rel R S v v')) \<and>
     (\<forall>f f'. S f f' \<longrightarrow> R (Clo f []) (Clo f' []))"

lemma matchesD:
  assumes "matches E Q d R S" "R c c'" "list_all2 R stk stk'" "enter E c stk = Some v"
  shows "\<exists>m v'. enter (eval Q d m) c' stk' = Some v' \<and> val_rel R S v v'"
  using assms by (simp add: matches_def)

lemma apply_val_matches:
  assumes M: "matches E Q d R S" and "val_rel R S v v'" "list_all2 R stk stk'" "apply_val E v stk = Some r"
  shows "\<exists>m r'. apply_val (eval Q d m) v' stk' = Some r' \<and> val_rel R S r r'"
  using assms(2)
proof cases
  case (5 f f' cs cs')
  show ?thesis
  proof (cases stk)
    case (Cons c cs0)
    then obtain c0 cs1 where c: "stk' = c0 # cs1" using assms(3) by (auto simp: list_all2_Cons1)
    have "R (Clo f []) (Clo f' [])" "list_all2 R (cs @ stk) (cs' @ stk')" "enter E (Clo f []) (cs @ stk) = Some r"
      using M 5 assms(3,4) Cons by (auto simp: matches_def intro: list_all2_appendI)
    from matchesD [OF M this] show ?thesis by (simp add: 5 c)
  qed (use assms 5 in auto)
qed (use assms in \<open>cases stk; auto\<close>)+

lemma constant_matches:
  assumes M: "matches E Q d R S" and "val_rel R S w w" "list_all2 R stk stk'" "apply_val E w stk = Some r"
    and step: "\<And>m. eval Q d (Suc m) \<rho> e stk' = apply_val (eval Q d m) w stk'"
  shows "\<exists>m r'. eval Q d m \<rho> e stk' = Some r' \<and> val_rel R S r r'"
proof -
  from apply_val_matches [OF M assms(2-4)] obtain m r' where "apply_val (eval Q d m) w stk' = Some r'" "val_rel R S r r'" by blast
  then show ?thesis unfolding step [symmetric] by blast
qed

lemma those_matches:
  assumes M: "matches E Q d R S" and "list_all2 R cs cs'" "those (map (\<lambda>c. enter E c []) cs) = Some vs"
  shows "\<exists>m vs'. those (map (\<lambda>c. enter (eval Q d m) c []) cs') = Some vs' \<and> list_all2 (val_rel R S) vs vs'"
  using assms(2,3)
proof (induction arbitrary: vs rule: list_all2_induct)
  case (Cons c cs c' cs')
  from Cons.prems obtain v ws where v: "enter E c [] = Some v" "those (map (\<lambda>c. enter E c []) cs) = Some ws" "vs = v # ws"
    by (auto split: option.splits)
  from Cons.IH [OF v(2)] obtain m ws' where W: "those (map (\<lambda>c. enter (eval Q d m) c []) cs') = Some ws'" "list_all2 (val_rel R S) ws ws'" by blast
  from matchesD [OF M Cons.hyps(1) list_all2_Nil [THEN iffD2] v(1)]
  obtain k v' where V: "enter (eval Q d k) c' [] = Some v'" "val_rel R S v v'" by auto
  have "those (map (\<lambda>c. enter (eval Q d (max m k)) c []) (c' # cs')) = Some (v' # ws')"
    using those_more [OF _ W(1), of "max m k"] enter_more [OF _ V(1), of "max m k"] by simp
  then show ?case using V(2) W(2) v(3) by blast
qed simp

lemma common_fuel:
  fixes k :: nat
  assumes "\<And>j. j < k \<Longrightarrow> M j \<Longrightarrow> \<exists>m. enter (eval Q d m) (c j) [] \<noteq> None"
  shows "\<exists>m. \<forall>j < k. M j \<longrightarrow> enter (eval Q d m) (c j) [] \<noteq> None"
  using assms
proof (induction k)
  case (Suc k)
  then obtain m where m: "\<forall>j < k. M j \<longrightarrow> enter (eval Q d m) (c j) [] \<noteq> None" by auto
  obtain m' where m': "M k \<longrightarrow> enter (eval Q d m') (c k) [] \<noteq> None" using Suc.prems [of k] by (cases "M k") auto
  have "\<forall>j < Suc k. M j \<longrightarrow> enter (eval Q d (max m m')) (c j) [] \<noteq> None"
    using m m' enter_more [of m "max m m'" Q d] enter_more [of m' "max m m'" Q d] by (auto simp: less_Suc_eq)
  then show ?case ..
qed simp

lemma call_scomb_matches:
  assumes M: "matches E Q d R S" and args: "fd_args fd' = fd_args fd" "fd_marks fd' = fd_marks fd" and stk: "list_all2 R stk stk'"
    and enough: "length (fd_args fd) \<le> length stk"
    and body: "\<And>cs cs'. list_all2 R cs cs' \<Longrightarrow> length cs = length (fd_args fd) \<Longrightarrow>
      R (Clo (fd_body fd) (zip (fd_args fd) cs)) (Clo (fd_body fd') (zip (fd_args fd) cs'))"
    and run: "call_scomb E fd stk = Some v"
  shows "\<exists>m v'. call_scomb (eval Q d m) fd' stk' = Some v' \<and> val_rel R S v v'"
proof -
  let ?n = "length (fd_args fd)"
  have len: "length stk' = length stk" using stk by (simp add: list_all2_lengthD)
  have marks: "\<And>j. j < ?n \<Longrightarrow> fd_marks fd ! j \<Longrightarrow> enter E (stk ! j) [] \<noteq> None"
    and run': "enter E (Clo (fd_body fd) (zip (fd_args fd) (take ?n stk))) (drop ?n stk) = Some v"
    using run by (auto simp: call_scomb_def Let_def list_all_iff split: if_splits)
  have "\<exists>m. enter (eval Q d m) (stk' ! j) [] \<noteq> None" if j: "j < ?n" "fd_marks fd ! j" for j
  proof -
    obtain w where "enter E (stk ! j) [] = Some w" using marks [OF j] by auto
    from matchesD [OF M list_all2_nthD [OF stk] list_all2_Nil [THEN iffD2] this] show ?thesis using j(1) enough by auto
  qed
  then obtain m where m: "\<forall>j < ?n. fd_marks fd ! j \<longrightarrow> enter (eval Q d m) (stk' ! j) [] \<noteq> None"
    using common_fuel [of ?n "\<lambda>j. fd_marks fd ! j" Q d "\<lambda>j. stk' ! j"] by blast
  have "R (Clo (fd_body fd) (zip (fd_args fd) (take ?n stk))) (Clo (fd_body fd') (zip (fd_args fd) (take ?n stk')))"
    using body stk enough by simp
  from matchesD [OF M this list_all2_dropI [OF stk] run'] obtain k v' where
    k: "enter (eval Q d k) (Clo (fd_body fd') (zip (fd_args fd) (take ?n stk'))) (drop ?n stk') = Some v'" "val_rel R S v v'" by auto
  have "call_scomb (eval Q d (max m k)) fd' stk' = Some v'"
    using m enter_more [of m "max m k" Q d] enter_more [OF _ k(1), of "max m k"] by (auto simp: call_scomb_def Let_def list_all_iff args)
  then show ?thesis using k(2) by blast
qed

lemma call_builtin_matches:
  assumes M: "matches E Q d R S" and bb: "black_box d" and stk: "list_all2 R stk stk'" and b: "b < NUM_BUILTINS"
    and enough: "bi_nargs (builtin_info ! b) \<le> length stk" and run: "call_builtin d E b stk = Some v"
  shows "\<exists>m v'. call_builtin d (eval Q d m) b stk' = Some v' \<and> val_rel R S v v'"
proof -
  let ?n = "bi_nargs (builtin_info ! b)" and ?k = "bi_nstrict (builtin_info ! b)"
  from run obtain vs where vs: "those (map (\<lambda>c. enter E c []) (take ?k stk)) = Some vs"
    by (auto simp: call_builtin_def Let_def bind_eq_Some_conv)
  from those_matches [OF M list_all2_takeI [OF stk] vs] obtain m vs' where
    m: "those (map (\<lambda>c. enter (eval Q d m) c []) (take ?k stk')) = Some vs'" "list_all2 (val_rel R S) vs vs'" by blast
  have rest: "list_all2 R (drop ?n stk) (drop ?n stk')" using stk by (rule list_all2_dropI)
  have nth: "j < ?n \<Longrightarrow> R (stk ! j) (stk' ! j)" for j using stk enough by (simp add: list_all2_nthD)
  note up = those_more [OF max.cobounded1 m(1)]
  consider (cond) "b = B_IF" | (seq) "b \<noteq> B_IF" "b = B_SEQ" | (other) "b \<noteq> B_IF" "b \<noteq> B_SEQ" by blast
  then show ?thesis
  proof cases
    case cond
    have "length vs = 1" using vs enough if_seq_rows cond those_length [OF vs] by simp
    then obtain w where "vs = [w]" by (auto simp: length_Suc_conv)
    then have hd: "hd vs' = VNil \<longleftrightarrow> hd vs = VNil" using m(2) by (auto simp: list_all2_Cons1)
    have "R (if hd vs = VNil then stk ! 2 else stk ! 1) (if hd vs' = VNil then stk' ! 2 else stk' ! 1)"
      using nth if_seq_rows cond hd by simp
    moreover have "enter E (if hd vs = VNil then stk ! 2 else stk ! 1) (drop ?n stk) = Some v" using run vs cond by (simp add: call_builtin_def Let_def)
    ultimately obtain k v' where "enter (eval Q d k) (if hd vs' = VNil then stk' ! 2 else stk' ! 1) (drop ?n stk') = Some v'" "val_rel R S v v'"
      using matchesD [OF M _ rest] by blast
    then show ?thesis using up [of k] enter_more [of k "max m k" Q d] cond by (intro exI [of _ "max m k"]) (auto simp: call_builtin_def Let_def)
  next
    case seq
    have "enter E (stk ! 1) (drop ?n stk) = Some v" using run vs seq by (simp add: call_builtin_def Let_def)
    from matchesD [OF M nth rest this] obtain k v' where "enter (eval Q d k) (stk' ! 1) (drop ?n stk') = Some v'" "val_rel R S v v'"
      using if_seq_rows seq by auto
    then show ?thesis using up [of k] enter_more [of k "max m k" Q d] seq by (intro exI [of _ "max m k"]) (auto simp: call_builtin_def Let_def)
  next
    case other
    from run vs other obtain r where r: "d b vs (drop ?k (take ?n stk)) = Some r"
      and next_: "(case r of Inl w \<Rightarrow> apply_val E w (drop ?n stk) | Inr c \<Rightarrow> enter E c (drop ?n stk)) = Some v"
      by (auto simp: call_builtin_def Let_def bind_eq_Some_conv)
    have "rel_option (rel_sum (val_rel R S) R) (d b vs (drop ?k (take ?n stk))) (d b vs' (drop ?k (take ?n stk')))"
      using bb m(2) list_all2_dropI [OF list_all2_takeI [OF stk]] unfolding black_box_def by blast
    then obtain r' where r': "d b vs' (drop ?k (take ?n stk')) = Some r'" "rel_sum (val_rel R S) R r r'"
      by (auto simp: r option_rel_Some1)
    have "\<exists>k v'. (case r' of Inl w \<Rightarrow> apply_val (eval Q d k) w (drop ?n stk') | Inr c \<Rightarrow> enter (eval Q d k) c (drop ?n stk')) = Some v' \<and> val_rel R S v v'"
      using r'(2) next_ apply_val_matches [OF M _ rest] matchesD [OF M _ rest] by (cases r; cases r') auto
    then obtain k v' where k: "(case r' of Inl w \<Rightarrow> apply_val (eval Q d k) w (drop ?n stk') | Inr c \<Rightarrow> enter (eval Q d k) c (drop ?n stk')) = Some v'" "val_rel R S v v'"
      by blast
    then show ?thesis using up [of k] enter_more [of k "max m k" Q d] apply_val_more [of k "max m k" Q d] other r'(1)
      by (intro exI [of _ "max m k"]) (auto simp: call_builtin_def Let_def split: sum.splits)
  qed
qed

definition env_rel :: "fundef list \<Rightarrow> fundef list \<Rightarrow> env \<Rightarrow> env \<Rightarrow> string set \<Rightarrow> bool" where
  "env_rel P P' \<rho> \<rho>' X \<longleftrightarrow> (\<forall>x \<in> X. \<exists>c c'. map_of \<rho> x = Some c \<and> map_of \<rho>' x = Some c' \<and> crel P P' c c')"

lemma crel_clo: "tr P P' e e' \<Longrightarrow> env_rel P P' \<rho> \<rho>' (fv e') \<Longrightarrow> crel P P' (Clo e \<rho>) (Clo e' \<rho>')"
  by (rule crel.clo) (simp_all add: env_rel_def)

lemma env_rel_mono: "env_rel P P' \<rho> \<rho>' X \<Longrightarrow> Y \<subseteq> X \<Longrightarrow> env_rel P P' \<rho> \<rho>' Y"
  by (auto simp: env_rel_def)

lemma fun_rel_crel: "fun_rel (length P) f f' \<Longrightarrow> crel P P' (Clo f []) (Clo f' [])"
  by (cases "(length P, f, f')" rule: fun_rel.cases) (auto intro!: crel.clo tr.scref tr.builtin)

text \<open>Under related letrecs the bodies run in related environments, and the operands that were moved
  inside still mean the same.\<close>

definition recs_rel :: "fundef list \<Rightarrow> fundef list \<Rightarrow> letrec list \<Rightarrow> letrec list \<Rightarrow> string set \<Rightarrow> bool" where
  "recs_rel P P' rs rs' X \<longleftrightarrow>
     (\<forall>x v'. binding_of rs' x = Some v' \<longrightarrow> (\<exists>v. binding_of rs x = Some v \<and> tr P P' v v')) \<and>
     (X \<union> fv_recs rs') \<inter> set (map rec_name rs) \<subseteq> set (map rec_name rs') \<and> fv_recs rs' \<subseteq> fv_recs rs"

lemma fv_binding: "binding_of rs x = Some v \<Longrightarrow> fv v \<subseteq> fv_recs rs"
  by (auto simp: binding_of_def fv_recs_iff dest!: map_of_SomeD)

lemma recs_binding:
  assumes rs: "recs_rel P P' rs rs' X" and \<rho>: "env_rel P P' \<rho> \<rho>' (fv_recs rs' - set (map rec_name rs'))" and x: "binding_of rs' x = Some v'"
  shows "\<exists>v. binding_of rs x = Some v \<and> crel P P' (Clo (LetrecNode noloc rs v) \<rho>) (Clo (LetrecNode noloc rs' v') \<rho>')"
proof -
  from rs x obtain v where v: "binding_of rs x = Some v" "tr P P' v v'" unfolding recs_rel_def by blast
  have sub: "fv v' \<subseteq> fv_recs rs'" by (rule fv_binding [OF x])
  have "tr P P' (apps (LetrecNode noloc rs v) []) (LetrecNode noloc rs' v')"
    using v(2) rs sub by (intro tr.recs) (auto simp: recs_rel_def)
  moreover have "fv (LetrecNode noloc rs' v') \<subseteq> fv_recs rs' - set (map rec_name rs')" using sub by auto
  ultimately show ?thesis using v(1) crel_clo env_rel_mono [OF \<rho>] by auto
qed

lemma recs_env:
  assumes rs: "recs_rel P P' rs rs' X" and \<rho>: "env_rel P P' \<rho> \<rho>' ((fv_recs rs' \<union> X) - set (map rec_name rs'))"
  shows "env_rel P P' (rec_env rs \<rho>) (rec_env rs' \<rho>') X"
  unfolding env_rel_def
proof
  fix x assume X: "x \<in> X"
  show "\<exists>c c'. map_of (rec_env rs \<rho>) x = Some c \<and> map_of (rec_env rs' \<rho>') x = Some c' \<and> crel P P' c c'"
  proof (cases "binding_of rs' x")
    case None
    then have "x \<notin> set (map rec_name rs')" "x \<notin> set (map rec_name rs)" using X rs by (auto simp: recs_rel_def)
    then have "binding_of rs' x = None" "binding_of rs x = None" "x \<in> (fv_recs rs' \<union> X) - set (map rec_name rs')"
      using X by (simp_all del: set_map)
    with \<rho> show ?thesis by (auto simp: rec_env_lookup env_rel_def simp del: binding_of_None)
  next
    case (Some v')
    have "env_rel P P' \<rho> \<rho>' (fv_recs rs' - set (map rec_name rs'))" by (rule env_rel_mono [OF \<rho>]) auto
    from recs_binding [OF rs this Some] show ?thesis by (auto simp: rec_env_lookup Some)
  qed
qed

text \<open>A call of a new supercombinator with its free variables runs its body.\<close>

lemma eval_lifted:
  assumes "length (fd_args (P' ! i)) = length as"
  shows "eval P' d (Suc m + length as) \<rho>' (apps (Scref l i) as) stk =
    (if \<forall>j < length as. fd_marks (P' ! i) ! j \<longrightarrow> conv P' d m \<rho>' (operands as ! j) []
     then eval P' d m (zip (fd_args (P' ! i)) (map (\<lambda>a. Clo a \<rho>') (operands as))) (fd_body (P' ! i)) stk else None)"
proof -
  have "(map (\<lambda>a. Clo a \<rho>') (operands as) @ stk) ! j = Clo (operands as ! j) \<rho>'" if "j < length as" for j
    using that by (simp add: nth_append)
  then have "call_scomb (eval P' d m) (P' ! i) (map (\<lambda>a. Clo a \<rho>') (operands as) @ stk) =
      (if \<forall>j < length as. fd_marks (P' ! i) ! j \<longrightarrow> conv P' d m \<rho>' (operands as ! j) []
       then eval P' d m (zip (fd_args (P' ! i)) (map (\<lambda>a. Clo a \<rho>') (operands as))) (fd_body (P' ! i)) stk else None)"
    by (simp add: call_scomb_def Let_def list_all_iff assms cong: conj_cong if_cong) auto
  then show ?thesis by (subst eval_apps) (simp add: machine_step_def assms)
qed

lemma fv_symbols: "list_all2 (\<lambda>x a. \<exists>l'. a = Symbol l' x) xs bs \<Longrightarrow> \<Union> (fv ` set bs) = set xs"
  by (induction rule: list_all2_induct) auto

lemma lifted_env:
  assumes "list_all2 (\<lambda>x a. \<exists>l'. a = Symbol l' x) xs (operands as)" "env_rel P P' \<rho> \<rho>' (set xs)"
  shows "env_rel P P' \<rho> (zip xs (map (\<lambda>a. Clo a \<rho>') (operands as))) (set xs)"
  unfolding env_rel_def
proof
  fix x assume x: "x \<in> set xs"
  have "\<exists>l'. map_of (zip xs (map (\<lambda>a. Clo a \<rho>') (operands as))) x = Some (Clo (Symbol l' x) \<rho>')"
    using assms(1) x by (induction xs "operands as" arbitrary: as rule: list_all2_induct) auto
  moreover obtain c c' where "map_of \<rho> x = Some c" "map_of \<rho>' x = Some c'" "crel P P' c c'" using assms(2) x by (auto simp: env_rel_def)
  ultimately show "\<exists>c c'. map_of \<rho> x = Some c \<and> map_of (zip xs (map (\<lambda>a. Clo a \<rho>') (operands as))) x = Some c' \<and> crel P P' c c'"
    by (blast intro: crel.via)
qed

subsection \<open>Variables an expression does not mention\<close>

text \<open>\<open>weak\<close>: the same suspended expression in environments that agree on its free variables. It makes
  no difference for the machine, not even in the fuel.\<close>

inductive weak :: "clo \<Rightarrow> clo \<Rightarrow> bool" where
  "(\<forall>x \<in> fv e. map_of \<rho> x = None \<and> map_of \<rho>' x = None \<or> (\<exists>c c'. map_of \<rho> x = Some c \<and> map_of \<rho>' x = Some c' \<and> weak c c')) \<Longrightarrow>
   weak (Clo e \<rho>) (Clo e \<rho>')"

inductive_cases weakE: "weak (Clo e \<rho>) c"

definition env_weak :: "env \<Rightarrow> env \<Rightarrow> string set \<Rightarrow> bool" where
  "env_weak \<rho> \<rho>' X \<longleftrightarrow> (\<forall>x \<in> X. rel_option weak (map_of \<rho> x) (map_of \<rho>' x))"

lemma weak_iff: "weak (Clo e \<rho>) c \<longleftrightarrow> (\<exists>\<rho>'. c = Clo e \<rho>' \<and> env_weak \<rho> \<rho>' (fv e))"
proof
  assume "weak (Clo e \<rho>) c"
  then show "\<exists>\<rho>'. c = Clo e \<rho>' \<and> env_weak \<rho> \<rho>' (fv e)" by (rule weakE) (fastforce simp: env_weak_def)
next
  assume "\<exists>\<rho>'. c = Clo e \<rho>' \<and> env_weak \<rho> \<rho>' (fv e)"
  then obtain \<rho>' where "c = Clo e \<rho>'" and w: "\<forall>x \<in> fv e. rel_option weak (map_of \<rho> x) (map_of \<rho>' x)" by (auto simp: env_weak_def)
  moreover from w have "\<forall>x \<in> fv e. map_of \<rho> x = None \<and> map_of \<rho>' x = None \<or> (\<exists>c c'. map_of \<rho> x = Some c \<and> map_of \<rho>' x = Some c' \<and> weak c c')"
    by (auto simp: rel_option_iff split: option.splits)
  ultimately show "weak (Clo e \<rho>) c" by (simp add: weak.intros)
qed

lemma weak_refl: "weak c c"
proof (induction c)
  case (Clo e \<rho>)
  then have "rel_option weak (map_of \<rho> x) (map_of \<rho> x)" for x by (cases "map_of \<rho> x") (auto dest!: map_of_SomeD)
  then show ?case by (simp add: weak_iff env_weak_def)
qed

lemma weak_sym: "weak c c' \<Longrightarrow> weak c' c"
  by (induction rule: weak.induct) (auto intro!: weak.intros)

lemma env_weak_mono: "env_weak \<rho> \<rho>' X \<Longrightarrow> Y \<subseteq> X \<Longrightarrow> env_weak \<rho> \<rho>' Y"
  by (auto simp: env_weak_def)

lemma env_weak_rec:
  assumes "env_weak \<rho> \<rho>' ((fv_recs rs \<union> X) - set (map rec_name rs))"
  shows "env_weak (rec_env rs \<rho>) (rec_env rs \<rho>') X"
  unfolding env_weak_def
proof
  fix x assume x: "x \<in> X"
  show "rel_option weak (map_of (rec_env rs \<rho>) x) (map_of (rec_env rs \<rho>') x)"
  proof (cases "binding_of rs x")
    case None
    then have "x \<in> (fv_recs rs \<union> X) - set (map rec_name rs)" using x by simp
    then show ?thesis using assms None by (simp add: rec_env_lookup env_weak_def del: binding_of_None)
  next
    case (Some v)
    have "env_weak \<rho> \<rho>' (fv (LetrecNode noloc rs v))" by (rule env_weak_mono [OF assms]) (use fv_binding [OF Some] in auto)
    then show ?thesis by (simp add: rec_env_lookup weak_iff Some)
  qed
qed

abbreviation vweak :: "val \<Rightarrow> val \<Rightarrow> bool" where
  "vweak \<equiv> val_rel weak (=)"

definition level :: "evaluator \<Rightarrow> bool" where
  "level E \<longleftrightarrow> (\<forall>c c' stk stk'. weak c c' \<longrightarrow> list_all2 weak stk stk' \<longrightarrow> rel_option vweak (enter E c stk) (enter E c' stk'))"

lemma levelD: "level E \<Longrightarrow> weak c c' \<Longrightarrow> list_all2 weak stk stk' \<Longrightarrow> rel_option vweak (enter E c stk) (enter E c' stk')"
  by (simp add: level_def)

lemma apply_val_level:
  assumes "level E" "vweak v v'" "list_all2 weak stk stk'"
  shows "rel_option vweak (apply_val E v stk) (apply_val E v' stk')"
  using assms(2)
proof cases
  case (5 f f' cs cs')
  with assms(3) levelD [OF assms(1), of "Clo f []" "Clo f []" "cs @ stk" "cs' @ stk'"] weak_refl show ?thesis
    by (cases stk; cases stk') (auto intro: list_all2_appendI)
qed (use assms(3) in \<open>cases stk; cases stk'; auto\<close>)+

lemma those_level:
  assumes "level E" "list_all2 weak cs cs'"
  shows "rel_option (list_all2 vweak) (those (map (\<lambda>c. enter E c []) cs)) (those (map (\<lambda>c. enter E c []) cs'))"
  using assms(2)
proof (induction rule: list_all2_induct)
  case (Cons c cs c' cs')
  from levelD [OF assms(1) Cons(1) list_all2_Nil [THEN iffD2]] Cons.IH show ?case
    by (cases "enter E c []"; cases "enter E c' []"; cases "those (map (\<lambda>c. enter E c []) cs)"; cases "those (map (\<lambda>c. enter E c []) cs')") auto
qed simp

lemma call_scomb_level:
  assumes E: "level E" and stk: "list_all2 weak stk stk'" and n: "length (fd_args fd) \<le> length stk"
  shows "rel_option vweak (call_scomb E fd stk) (call_scomb E fd stk')"
proof -
  let ?n = "length (fd_args fd)"
  have "(enter E (stk ! j) [] = None) = (enter E (stk' ! j) [] = None)" if "j < ?n" for j
    using levelD [OF E list_all2_nthD [OF stk] list_all2_Nil [THEN iffD2], of j] that n
    by (cases "enter E (stk ! j) []"; cases "enter E (stk' ! j) []") auto
  then have marks: "list_all (\<lambda>j. fd_marks fd ! j \<longrightarrow> enter E (stk ! j) [] \<noteq> None) [0 ..< ?n] =
      list_all (\<lambda>j. fd_marks fd ! j \<longrightarrow> enter E (stk' ! j) [] \<noteq> None) [0 ..< ?n]" unfolding list_all_iff by auto
  have "env_weak (zip (fd_args fd) (take ?n stk)) (zip (fd_args fd) (take ?n stk')) (fv (fd_body fd))"
    unfolding env_weak_def
  proof
    fix x
    have len: "length (fd_args fd) = length (take ?n stk)" "length (take ?n stk') = length (take ?n stk)"
      using n stk by (simp_all add: list_all2_lengthD)
    show "rel_option weak (map_of (zip (fd_args fd) (take ?n stk)) x) (map_of (zip (fd_args fd) (take ?n stk')) x)"
    proof (cases "x \<in> set (fd_args fd)")
      case True
      from zip_lookup [OF list_all2_takeI [OF stk] len(1) True] show ?thesis by auto
    next
      case False
      then have "map_of (zip (fd_args fd) (take ?n stk)) x = None" "map_of (zip (fd_args fd) (take ?n stk')) x = None"
        using len by (simp_all add: map_of_zip_is_None)
      then show ?thesis by simp
    qed
  qed
  then have "weak (Clo (fd_body fd) (zip (fd_args fd) (take ?n stk))) (Clo (fd_body fd) (zip (fd_args fd) (take ?n stk')))" by (simp add: weak_iff)
  from levelD [OF E this list_all2_dropI [OF stk]] have
    "rel_option vweak (E (zip (fd_args fd) (take ?n stk)) (fd_body fd) (drop ?n stk)) (E (zip (fd_args fd) (take ?n stk')) (fd_body fd) (drop ?n stk'))" by simp
  then show ?thesis unfolding call_scomb_def Let_def marks by simp
qed

lemma call_builtin_level:
  assumes E: "level E" and bb: "black_box d" and stk: "list_all2 weak stk stk'" and n: "bi_nargs (builtin_info ! b) \<le> length stk"
  shows "rel_option vweak (call_builtin d E b stk) (call_builtin d E b stk')"
proof -
  let ?n = "bi_nargs (builtin_info ! b)" and ?k = "bi_nstrict (builtin_info ! b)"
  have rest: "list_all2 weak (drop ?n stk) (drop ?n stk')" using stk by (rule list_all2_dropI)
  have nth: "j < ?n \<Longrightarrow> weak (stk ! j) (stk' ! j)" for j using stk n by (simp add: list_all2_nthD)
  note T = those_level [OF E list_all2_takeI [OF stk], of ?k]
  show ?thesis
  proof (cases "those (map (\<lambda>c. enter E c []) (take ?k stk))")
    case None
    with T show ?thesis by (simp add: call_builtin_def Let_def)
  next
    case (Some vs)
    with T obtain vs' where vs': "those (map (\<lambda>c. enter E c []) (take ?k stk')) = Some vs'" "list_all2 vweak vs vs'" by (auto simp: option_rel_Some1)
    have B: "rel_option (rel_sum vweak weak) (d b vs (drop ?k (take ?n stk))) (d b vs' (drop ?k (take ?n stk')))"
      using bb vs'(2) list_all2_dropI [OF list_all2_takeI [OF stk]] unfolding black_box_def by blast
    consider (cond) "b = B_IF" | (seq) "b \<noteq> B_IF" "b = B_SEQ" | (other) "b \<noteq> B_IF" "b \<noteq> B_SEQ" by blast
    then show ?thesis
    proof cases
      case cond
      have "length vs = 1" using n if_seq_rows cond those_length [OF Some] by simp
      then obtain w where "vs = [w]" by (auto simp: length_Suc_conv)
      then have hd: "hd vs' = VNil \<longleftrightarrow> hd vs = VNil" using vs'(2) by (auto simp: list_all2_Cons1)
      have "weak (if hd vs = VNil then stk ! 2 else stk ! 1) (if hd vs' = VNil then stk' ! 2 else stk' ! 1)" using nth if_seq_rows cond hd by simp
      from levelD [OF E this rest] show ?thesis using cond Some vs'(1) by (simp add: call_builtin_def Let_def)
    next
      case seq
      from levelD [OF E nth rest, of 1] show ?thesis using seq if_seq_rows Some vs'(1) by (simp add: call_builtin_def Let_def)
    next
      case other
      show ?thesis
      proof (cases "d b vs (drop ?k (take ?n stk))")
        case None
        with B show ?thesis using other Some vs'(1) by (simp add: call_builtin_def Let_def)
      next
        case (Some r)
        with B obtain r' where r': "d b vs' (drop ?k (take ?n stk')) = Some r'" "rel_sum vweak weak r r'" by (auto simp: option_rel_Some1)
        have "rel_option vweak (case r of Inl w \<Rightarrow> apply_val E w (drop ?n stk) | Inr c \<Rightarrow> enter E c (drop ?n stk))
            (case r' of Inl w \<Rightarrow> apply_val E w (drop ?n stk') | Inr c \<Rightarrow> enter E c (drop ?n stk'))"
          using r'(2) apply_val_level [OF E _ rest] levelD [OF E _ rest] by (cases r; cases r') auto
        then show ?thesis using other Some r'(1) \<open>those (map (\<lambda>c. enter E c []) (take ?k stk)) = Some vs\<close> vs'(1) by (simp add: call_builtin_def Let_def)
      qed
    qed
  qed
qed

lemma eval_level: "black_box d \<Longrightarrow> level (eval P d n)"
proof (induction n)
  case 0
  have "enter (eval P d 0) c stk = None" for c stk by (cases c) simp
  then show ?case by (simp add: level_def)
next
  case (Suc n)
  have E: "level (eval P d n)" using Suc by simp
  have "rel_option vweak (eval P d (Suc n) \<rho> e stk) (eval P d (Suc n) \<rho>' e stk')"
    if \<rho>: "env_weak \<rho> \<rho>' (fv e)" and stk: "list_all2 weak stk stk'" for e \<rho> \<rho>' stk stk'
  proof (cases e)
    case (Application l s a b)
    have "weak (Clo a \<rho>) (Clo a \<rho>')" "weak (Clo b \<rho>) (Clo b \<rho>')" using \<rho> Application by (auto simp: weak_iff elim: env_weak_mono)
    with levelD [OF E, of "Clo a \<rho>" "Clo a \<rho>'" "Clo b \<rho> # stk" "Clo b \<rho>' # stk'"] stk show ?thesis by (simp add: machine_step_def Application)
  next
    case (Symbol l x)
    with \<rho> have "rel_option weak (map_of \<rho> x) (map_of \<rho>' x)" by (simp add: env_weak_def)
    with levelD [OF E _ stk] show ?thesis by (cases "map_of \<rho> x"; cases "map_of \<rho>' x") (auto simp: machine_step_def Symbol)
  next
    case (LetrecNode l rs b)
    have "env_weak (rec_env rs \<rho>) (rec_env rs \<rho>') (fv b)" using \<rho> LetrecNode by (intro env_weak_rec) simp
    with levelD [OF E, of "Clo b (rec_env rs \<rho>)" "Clo b (rec_env rs \<rho>')"] stk show ?thesis by (simp add: machine_step_def LetrecNode weak_iff)
  next
    case (Scref l i)
    with call_scomb_level [OF E stk] list_all2_lengthD [OF stk] stk show ?thesis by (simp add: machine_step_def)
  next
    case (Builtin l b)
    with call_builtin_level [OF E Suc.prems stk] list_all2_lengthD [OF stk] stk show ?thesis by (simp add: machine_step_def)
  qed (use apply_val_level [OF E _ stk] in \<open>simp_all add: machine_step_def\<close>)
  then show ?case unfolding level_def by (metis clo.exhaust enter.simps weak_iff)
qed

subsection \<open>Related programs return the same results\<close>

lemma prog_sim_body:
  assumes "prog_sim P P'" "i < length P" "list_all2 (crel P P') cs cs'" "length cs = length (fd_args (P ! i))"
  shows "crel P P' (Clo (fd_body (P ! i)) (zip (fd_args (P ! i)) cs)) (Clo (fd_body (P' ! i)) (zip (fd_args (P ! i)) cs'))"
proof (rule crel_clo)
  show "tr P P' (fd_body (P ! i)) (fd_body (P' ! i))" using assms(1,2) by (simp add: prog_sim_def)
  have "fv (fd_body (P' ! i)) \<subseteq> set (fd_args (P ! i))" using assms(1,2) by (simp add: prog_sim_def)
  then show "env_rel P P' (zip (fd_args (P ! i)) cs) (zip (fd_args (P ! i)) cs') (fv (fd_body (P' ! i)))"
    using zip_lookup [OF assms(3) assms(4) [symmetric]] unfolding env_rel_def by blast
qed

lemma letrec_state:
  assumes "tr P P' (apps b as) t'" "recs_rel P P' rs rs' (fv t')" and \<rho>: "env_rel P P' \<rho> \<rho>' (fv (LetrecNode l rs' t'))"
  shows "crel P P' (Clo (apps b as) (rec_env rs \<rho>)) (Clo t' (rec_env rs' \<rho>'))"
  using env_rel_mono [OF \<rho>] by (intro crel_clo assms(1) recs_env [OF assms(2)]) auto

lemma eval_letrec: "eval P d (Suc m) \<rho> (LetrecNode l rs b) stk = eval P d m (rec_env rs \<rho>) b stk"
  by (simp add: machine_step_def)

text \<open>Moving a letrec out of the head of an application.\<close>

lemma weak_operand: "fv a \<inter> set (map rec_name rs) = {} \<Longrightarrow> weak (Clo a \<rho>) (Clo a (rec_env rs \<rho>))"
proof -
  assume *: "fv a \<inter> set (map rec_name rs) = {}"
  have "map_of (rec_env rs \<rho>) x = map_of \<rho> x" if "x \<in> fv a" for x
  proof -
    have "binding_of rs x = None" using that * by auto
    then show ?thesis by (simp add: rec_env_lookup del: binding_of_None)
  qed
  moreover have "rel_option weak (map_of \<rho> x) (map_of \<rho> x)" for x by (cases "map_of \<rho> x") (simp_all add: weak_refl)
  ultimately show ?thesis by (simp add: weak_iff env_weak_def)
qed

lemma eval_float:
  assumes "black_box d" "\<Union> (fv ` set (operands as)) \<inter> set (map rec_name rs) = {}"
  shows "rel_option vweak (eval P d (Suc j + length as) \<rho> (apps (LetrecNode l rs b) as) stk) (eval P d (j + length as) (rec_env rs \<rho>) (apps b as) stk)"
proof -
  have "list_all2 weak (map (\<lambda>a. Clo a \<rho>) (operands as)) (map (\<lambda>a. Clo a (rec_env rs \<rho>)) (operands as))"
    using assms(2) by (induction as) (auto intro!: weak_operand)
  then have "list_all2 weak (map (\<lambda>a. Clo a \<rho>) (operands as) @ stk) (map (\<lambda>a. Clo a (rec_env rs \<rho>)) (operands as) @ stk)"
    by (rule list_all2_appendI) (simp add: list_all2_refl weak_refl)
  from levelD [OF eval_level [OF assms(1)] weak_refl this, of P j "Clo b (rec_env rs \<rho>)"] show ?thesis
    by (simp only: eval_apps eval_letrec enter.simps)
qed

lemma float_run:
  assumes "black_box d" "\<Union> (fv ` set (operands as)) \<inter> set (map rec_name rs) = {}" "eval P d n \<rho> (apps (LetrecNode l rs b) as) stk = Some v"
  obtains j v2 where "n = Suc (j + length as)" "eval P d (j + length as) (rec_env rs \<rho>) (apps b as) stk = Some v2" "vweak v v2"
proof -
  obtain k where k: "n = k + length as" "eval P d k \<rho> (LetrecNode l rs b) (map (\<lambda>a. Clo a \<rho>) (operands as) @ stk) = Some v"
    by (rule eval_apps_Some [OF assms(3)])
  then obtain j where "k = Suc j" by (cases k) auto
  with k(1) eval_float [OF assms(1,2), of P j \<rho> l b stk] assms(3) that show ?thesis by (auto simp: option_rel_Some1 simp del: eval.simps(2))
qed

lemma float_run_back:
  assumes "black_box d" "\<Union> (fv ` set (operands as)) \<inter> set (map rec_name rs) = {}" "eval P d m (rec_env rs \<rho>) (apps b as) stk = Some v2"
  obtains k v where "eval P d k \<rho> (apps (LetrecNode l rs b) as) stk = Some v" "vweak v v2"
proof -
  obtain k where k: "m = k + length as" by (rule eval_apps_Some [OF assms(3)])
  with eval_float [OF assms(1,2), of P k \<rho> l b stk] assms(3) that show ?thesis by (auto simp: option_rel_Some2 simp del: eval.simps(2))
qed

lemma tr_fv: "tr P P' e e' \<Longrightarrow> fv e' \<subseteq> fv e"
proof (induction rule: tr.induct)
  case (recs b as t' rs' rs l l')
  have "x \<in> fv (apps (LetrecNode l rs b) as)" if x: "x \<in> fv (LetrecNode l' rs' t')" for x
  proof -
    have "x \<notin> set (map rec_name rs)" using x recs.hyps(2) by auto
    moreover have "x \<in> fv_recs rs \<union> fv (apps b as)" using x recs.IH(1) recs.hyps(3) by auto
    ultimately show ?thesis by auto
  qed
  then show ?case by blast
next
  case (lifted e i as l)
  then show ?case using fv_symbols [OF lifted.hyps(4)] by simp
qed auto

lemma crel_weak: "crel P P' c c' \<Longrightarrow> weak c0 c \<Longrightarrow> crel P P' c0 c'"
proof (induction arbitrary: c0 rule: crel.induct)
  case (clo e e' \<rho> \<rho>')
  obtain \<rho>0 where c0: "c0 = Clo e \<rho>0" "env_weak \<rho>0 \<rho> (fv e)"
    using weak_sym [OF clo.prems] weak_sym by (metis clo.exhaust clo.inject clo.prems weak_iff)
  have "\<exists>c c'. map_of \<rho>0 x = Some c \<and> map_of \<rho>' x = Some c' \<and> crel P P' c c'" if x: "x \<in> fv e'" for x
  proof -
    from x clo.IH obtain c c' where c: "map_of \<rho> x = Some c" "map_of \<rho>' x = Some c'" "\<And>c0. weak c0 c \<Longrightarrow> crel P P' c0 c'" by blast
    moreover have "x \<in> fv e" using x tr_fv [OF clo.hyps] by blast
    then have "rel_option weak (map_of \<rho>0 x) (map_of \<rho> x)" using c0(2) by (simp add: env_weak_def)
    ultimately show ?thesis by (auto simp: option_rel_Some2)
  qed
  then show ?case using clo.hyps c0(1) by (simp add: crel.clo)
next
  case (via \<rho>' x c' c l)
  then show ?case by (blast intro: crel.via)
qed

lemma val_rel_weak: "vweak v0 v \<Longrightarrow> val_rel (crel P P') S v v' \<Longrightarrow> val_rel (crel P P') S v0 v'"
proof -
  have *: "list_all2 weak cs0 cs \<Longrightarrow> list_all2 (crel P P') cs cs' \<Longrightarrow> list_all2 (crel P P') cs0 cs'" for cs0 cs cs'
    by (rule list_all2_trans [of weak "crel P P'" "crel P P'"]) (auto intro: crel_weak)
  show "vweak v0 v \<Longrightarrow> val_rel (crel P P') S v v' \<Longrightarrow> ?thesis" by (erule val_rel.cases) (auto intro: *)
qed

lemma val_rel_conv: "val_rel (\<lambda>c' c. R c c') (\<lambda>f' f. S f f') v' v \<longleftrightarrow> val_rel R S v v'"
  by (cases v; cases v') (auto simp: list_all2_conv_all_nth)

lemma forward_tr:
  assumes sim: "prog_sim P P'" and bb: "black_box d"
    and IH: "\<And>m. m < n \<Longrightarrow> matches (eval P d m) P' d (crel P P') (fun_rel (length P))"
    and "tr P P' e e'" "env_rel P P' \<rho> \<rho>' (fv e')" "list_all2 (crel P P') stk stk'" "eval P d n \<rho> e stk = Some v"
  shows "\<exists>m v'. eval P' d m \<rho>' e' stk' = Some v' \<and> val_rel (crel P P') (fun_rel (length P)) v v'"
  using assms(4-)
proof (induction arbitrary: \<rho> \<rho>' stk stk' v rule: tr.induct)
  case (app a a' b b' l s l' s')
  from app.prems(3) obtain k where k: "n = Suc k" "eval P d k \<rho> a (Clo b \<rho> # stk) = Some v"
    by (cases n) (auto simp: machine_step_def)
  have "crel P P' (Clo a \<rho>) (Clo a' \<rho>')" "crel P P' (Clo b \<rho>) (Clo b' \<rho>')"
    using app.hyps app.prems(1) by (auto intro!: crel_clo elim: env_rel_mono)
  then obtain m v' where "eval P' d m \<rho>' a' (Clo b' \<rho>' # stk') = Some v'" "val_rel (crel P P') (fun_rel (length P)) v v'"
    using matchesD [OF IH, of k "Clo a \<rho>" "Clo a' \<rho>'" "Clo b \<rho> # stk" "Clo b' \<rho>' # stk'"] k app.prems(2) by auto
  then show ?case by (intro exI [of _ "Suc m"]) (simp add: machine_step_def)
next
  case (sym l x l')
  then obtain k c c' where k: "n = Suc k" "map_of \<rho> x = Some c" "map_of \<rho>' x = Some c'" "crel P P' c c'" "enter (eval P d k) c stk = Some v"
    by (cases n) (auto simp: machine_step_def env_rel_def)
  from matchesD [OF IH k(4) sym.prems(2) k(5)] k(1) obtain m v' where "enter (eval P' d m) c' stk' = Some v'"
    "val_rel (crel P P') (fun_rel (length P)) v v'" by auto
  then show ?case by (intro exI [of _ "Suc m"]) (simp add: machine_step_def k(3))
next
  case (recs b as t' rs' rs l l')
  have rs: "recs_rel P P' rs rs' (fv t')" unfolding recs_rel_def using recs.IH(2) recs.hyps(2,3) by blast
  obtain j v2 where j: "n = Suc (j + length as)" "eval P d (j + length as) (rec_env rs \<rho>) (apps b as) stk = Some v2" "val_rel weak (=) v v2"
    by (rule float_run [OF bb recs.hyps(4) recs.prems(3)])
  from matchesD [OF IH letrec_state [OF recs.hyps(1) rs recs.prems(1)] recs.prems(2), of "j + length as"] j(1,2) obtain m v' where
    m: "eval P' d m (rec_env rs' \<rho>') t' stk' = Some v'" "val_rel (crel P P') (fun_rel (length P)) v2 v'" by auto
  have "eval P' d (Suc m) \<rho>' (LetrecNode l' rs' t') stk' = Some v'" using m(1) by (simp only: eval_letrec)
  then show ?case using val_rel_weak [OF j(3) m(2)] by blast
next
  case (scref i l l')
  then obtain k where k: "n = Suc k" by (cases n) auto
  have eq: "fd_args (P' ! i) = fd_args (P ! i)" "fd_marks (P' ! i) = fd_marks (P ! i)" "length stk' = length stk"
    using sim scref by (auto simp: prog_sim_def list_all2_lengthD)
  show ?case
  proof (cases "length stk < length (fd_args (P ! i))")
    case True
    then show ?thesis using scref k eq by (intro exI [of _ 1]) (auto simp: machine_step_def)
  next
    case False
    then have "call_scomb (eval P d k) (P ! i) stk = Some v" using scref k by (simp add: machine_step_def)
    from call_scomb_matches [OF IH eq(1,2) scref.prems(2) _ prog_sim_body [OF sim scref.hyps] this] k False
    obtain m v' where "call_scomb (eval P' d m) (P' ! i) stk' = Some v'" "val_rel (crel P P') (fun_rel (length P)) v v'" by auto
    then show ?thesis using False eq by (intro exI [of _ "Suc m"]) (simp add: machine_step_def)
  qed
next
  case (builtin l b l')
  then obtain k where k: "n = Suc k" by (cases n) auto
  have len: "length stk' = length stk" using builtin by (simp add: list_all2_lengthD)
  show ?case
  proof (cases "b < NUM_BUILTINS \<and> bi_nargs (builtin_info ! b) \<le> length stk")
    case True
    then have "call_builtin d (eval P d k) b stk = Some v" using builtin k by (simp add: machine_step_def)
    from call_builtin_matches [OF IH bb builtin.prems(2) _ _ this] k True
    obtain m v' where "call_builtin d (eval P' d m) b stk' = Some v'" "val_rel (crel P P') (fun_rel (length P)) v v'" by auto
    then show ?thesis using True len by (intro exI [of _ "Suc m"]) (simp add: machine_step_def)
  qed (use builtin k len in \<open>intro exI [of _ 1], auto simp: machine_step_def split: if_splits\<close>)
next
  case (lifted e i as l)
  let ?xs = "fd_args (P' ! i)" and ?\<rho> = "zip (fd_args (P' ! i)) (map (\<lambda>a. Clo a \<rho>') (operands as))"
  have len: "length ?xs = length as" using lifted.hyps by (auto dest: list_all2_lengthD)
  have "fv (apps (Scref l i) as) = set ?xs" using fv_symbols [OF lifted.hyps(4)] by simp
  with lifted.prems(1) have env: "env_rel P P' \<rho> \<rho>' (set ?xs)" by simp
  from lifted_env [OF lifted.hyps(4) this] have "env_rel P P' \<rho> ?\<rho> (fv (fd_body (P' ! i)))" by (simp add: lifted.hyps(2))
  from lifted.IH [OF this lifted.prems(2,3)] obtain k v' where
    k: "eval P' d k ?\<rho> (fd_body (P' ! i)) stk' = Some v'" "val_rel (crel P P') (fun_rel (length P)) v v'" by blast
  have "\<exists>m. enter (eval P' d m) (Clo (operands as ! j) \<rho>') [] \<noteq> None" if j: "j < length as" "fd_marks (P' ! i) ! j" for j
  proof -
    obtain l' where op: "operands as ! j = Symbol l' (?xs ! j)" using lifted.hyps(4) len j(1) by (auto simp: list_all2_conv_all_nth)
    have "conv P d n \<rho> (Symbol noloc (?xs ! j)) []" using lifted.hyps(3) lifted.prems(3) len j unfolding demands_def by fastforce
    moreover have "\<exists>c c'. map_of \<rho> (?xs ! j) = Some c \<and> map_of \<rho>' (?xs ! j) = Some c' \<and> crel P P' c c'"
      using env len j(1) by (auto simp: env_rel_def)
    ultimately obtain q c c' w where q: "n = Suc q" "map_of \<rho>' (?xs ! j) = Some c'" "crel P P' c c'" "enter (eval P d q) c [] = Some w"
      by (cases n) (auto simp: machine_step_def)
    from matchesD [OF IH q(3) list_all2_Nil [THEN iffD2] q(4)] q(1) obtain m w' where "enter (eval P' d m) c' [] = Some w'" by auto
    then show ?thesis using q(2) by (intro exI [of _ "Suc m"]) (simp add: op machine_step_def)
  qed
  from common_fuel [of "length as" "\<lambda>j. fd_marks (P' ! i) ! j" P' d "\<lambda>j. Clo (operands as ! j) \<rho>'"] this obtain m where
    m: "\<forall>j < length as. fd_marks (P' ! i) ! j \<longrightarrow> conv P' d m \<rho>' (operands as ! j) []" by auto
  have "eval P' d (Suc (max m k) + length as) \<rho>' (apps (Scref l i) as) stk' = Some v'"
    unfolding eval_lifted [OF len] using m enter_more [of m "max m k" P' d "Clo _ \<rho>'"] enter_more [of k "max m k" P' d "Clo _ ?\<rho>"] k(1) by auto
  then show ?case using k(2) by blast
next
  case (null l l')
  then obtain k where "k < n" "apply_val (eval P d k) VNil stk = Some v" by (cases n) (auto simp: machine_step_def)
  from constant_matches [OF IH [OF this(1)] _ null.prems(2) this(2)] show ?case by (simp add: machine_step_def)
next
  case (number l x l')
  then obtain k where "k < n" "apply_val (eval P d k) (VNumber x) stk = Some v" by (cases n) (auto simp: machine_step_def)
  from constant_matches [OF IH [OF this(1)] _ number.prems(2) this(2)] show ?case by (simp add: machine_step_def)
next
  case (string l t l')
  then obtain k where "k < n" "apply_val (eval P d k) (VString t) stk = Some v" by (cases n) (auto simp: machine_step_def)
  from constant_matches [OF IH [OF this(1)] _ string.prems(2) this(2)] show ?case by (simp add: machine_step_def)
qed

lemma forward:
  assumes sim: "prog_sim P P'" and bb: "black_box d"
  shows "matches (eval P d n) P' d (crel P P') (fun_rel (length P))"
proof (induction n rule: less_induct)
  case (less n)
  have "\<exists>m v'. enter (eval P' d m) c' stk' = Some v' \<and> val_rel (crel P P') (fun_rel (length P)) v v'"
    if "crel P P' c c'" "list_all2 (crel P P') stk stk'" "enter (eval P d n) c stk = Some v" for c c' stk stk' v
    using that
  proof (induction rule: crel.induct)
    case (clo e e' \<rho> \<rho>')
    have "env_rel P P' \<rho> \<rho>' (fv e')" using clo.IH unfolding env_rel_def by blast
    from forward_tr [OF sim bb less clo.hyps this clo.prems(1)] clo.prems(2) show ?case by simp
  next
    case (via \<rho>' x c' c l)
    then obtain m v' where "enter (eval P' d m) c' stk' = Some v'" "val_rel (crel P P') (fun_rel (length P)) v v'" by blast
    then show ?case using via.hyps(1) by (intro exI [of _ "Suc m"]) (simp add: machine_step_def)
  qed
  then show ?case by (auto simp: matches_def fun_rel_crel)
qed

lemma backward_tr:
  assumes sim: "prog_sim P P'" and bb: "black_box d"
    and IH: "\<And>m. m < n \<Longrightarrow> matches (eval P' d m) P d (\<lambda>c' c. crel P P' c c') (\<lambda>f' f. fun_rel (length P) f f')"
    and tr: "tr P P' e e'" and \<rho>: "env_rel P P' \<rho> \<rho>' (fv e')" and stk: "list_all2 (\<lambda>c' c. crel P P' c c') stk' stk"
    and run: "eval P' d n \<rho>' e' stk' = Some v'"
  shows "\<exists>m v. eval P d m \<rho> e stk = Some v \<and> val_rel (\<lambda>c' c. crel P P' c c') (\<lambda>f' f. fun_rel (length P) f f') v' v"
  using tr
proof cases
  case (app a a' b b' l s l' s')
  from run obtain k where k: "n = Suc k" "eval P' d k \<rho>' a' (Clo b' \<rho>' # stk') = Some v'"
    by (cases n) (auto simp: machine_step_def app)
  have "crel P P' (Clo a \<rho>) (Clo a' \<rho>')" "crel P P' (Clo b \<rho>) (Clo b' \<rho>')"
    using app \<rho> by (auto intro!: crel_clo elim: env_rel_mono)
  then obtain m v where "eval P d m \<rho> a (Clo b \<rho> # stk) = Some v" "val_rel (\<lambda>c' c. crel P P' c c') (\<lambda>f' f. fun_rel (length P) f f') v' v"
    using matchesD [OF IH, of k "Clo a \<rho>" "Clo a' \<rho>'" "Clo b' \<rho>' # stk'" "Clo b \<rho> # stk"] k stk by auto
  then show ?thesis by (intro exI [of _ "Suc m"]) (simp add: machine_step_def app)
next
  case (sym l x l')
  with run \<rho> obtain k c c' where k: "n = Suc k" "map_of \<rho> x = Some c" "map_of \<rho>' x = Some c'" "crel P P' c c'" "enter (eval P' d k) c' stk' = Some v'"
    by (cases n) (auto simp: machine_step_def env_rel_def)
  from matchesD [OF IH k(4) stk k(5)] k(1) obtain m v where "enter (eval P d m) c stk = Some v"
    "val_rel (\<lambda>c' c. crel P P' c c') (\<lambda>f' f. fun_rel (length P) f f') v' v" by auto
  then show ?thesis by (intro exI [of _ "Suc m"]) (simp add: machine_step_def k(2) sym)
next
  case (recs b as t' rs' rs l l')
  have rs: "recs_rel P P' rs rs' (fv t')" unfolding recs_rel_def using recs(4-6) by blast
  have \<rho>': "env_rel P P' \<rho> \<rho>' (fv (LetrecNode l' rs' t'))" using \<rho> by (simp add: recs)
  from run obtain j where j: "n = Suc j" "eval P' d j (rec_env rs' \<rho>') t' stk' = Some v'"
    unfolding recs(2) by (cases n) (simp_all add: eval_letrec del: eval.simps(2))
  from matchesD [OF IH letrec_state [OF recs(3) rs \<rho>'] stk, of j] j obtain m v2 where
    m: "eval P d m (rec_env rs \<rho>) (apps b as) stk = Some v2" "val_rel (\<lambda>c' c. crel P P' c c') (\<lambda>f' f. fun_rel (length P) f f') v' v2" by auto
  obtain k v where k: "eval P d k \<rho> (apps (LetrecNode l rs b) as) stk = Some v" "val_rel weak (=) v v2"
    by (rule float_run_back [OF bb recs(7) m(1)])
  have "val_rel (\<lambda>c' c. crel P P' c c') (\<lambda>f' f. fun_rel (length P) f f') v' v"
    by (rule val_rel_conv [THEN iffD2, OF val_rel_weak [OF k(2) val_rel_conv [THEN iffD1, OF m(2)]]])
  then show ?thesis using k(1) unfolding recs(1) by blast
next
  case (scref i l l')
  from run obtain k where k: "n = Suc k" by (cases n) auto
  have eq: "fd_args (P ! i) = fd_args (P' ! i)" "fd_marks (P ! i) = fd_marks (P' ! i)" "length stk = length stk'"
    using sim scref stk by (auto simp: prog_sim_def dest: list_all2_lengthD)
  show ?thesis
  proof (cases "length stk' < length (fd_args (P' ! i))")
    case True
    then show ?thesis using run stk scref k eq by (intro exI [of _ 1]) (auto simp: machine_step_def)
  next
    case False
    then have call: "call_scomb (eval P' d k) (P' ! i) stk' = Some v'" using run scref k by (simp add: machine_step_def)
    have "crel P P' (Clo (fd_body (P ! i)) (zip (fd_args (P' ! i)) cs)) (Clo (fd_body (P' ! i)) (zip (fd_args (P' ! i)) cs'))"
      if "list_all2 (\<lambda>c' c. crel P P' c c') cs' cs" "length cs' = length (fd_args (P' ! i))" for cs cs'
    proof -
      have "list_all2 (crel P P') cs cs'" "length cs = length (fd_args (P ! i))" using that eq(1) by (auto simp: list_all2_conv_all_nth)
      from prog_sim_body [OF sim scref(3) this] show ?thesis by (simp add: eq(1))
    qed
    from call_scomb_matches [OF IH eq(1,2) stk _ this call] k False
    obtain m v where "call_scomb (eval P d m) (P ! i) stk = Some v" "val_rel (\<lambda>c' c. crel P P' c c') (\<lambda>f' f. fun_rel (length P) f f') v' v" by auto
    then show ?thesis using False eq scref by (intro exI [of _ "Suc m"]) (simp add: machine_step_def)
  qed
next
  case (builtin l b l')
  from run obtain k where k: "n = Suc k" by (cases n) auto
  have len: "length stk' = length stk" using stk by (simp add: list_all2_lengthD)
  show ?thesis
  proof (cases "b < NUM_BUILTINS \<and> bi_nargs (builtin_info ! b) \<le> length stk'")
    case True
    then have "call_builtin d (eval P' d k) b stk' = Some v'" using run builtin k by (simp add: machine_step_def)
    from call_builtin_matches [OF IH bb stk _ _ this] k True
    obtain m v where "call_builtin d (eval P d m) b stk = Some v" "val_rel (\<lambda>c' c. crel P P' c c') (\<lambda>f' f. fun_rel (length P) f f') v' v" by auto
    then show ?thesis using True len builtin by (intro exI [of _ "Suc m"]) (simp add: machine_step_def)
  qed (use run builtin k len stk in \<open>intro exI [of _ 1], auto simp: machine_step_def split: if_splits\<close>)
next
  case (null l l')
  with run obtain k where "k < n" "apply_val (eval P' d k) VNil stk' = Some v'" by (cases n) (auto simp: machine_step_def)
  from constant_matches [OF IH [OF this(1)] _ stk this(2)] show ?thesis by (simp add: machine_step_def null)
next
  case (number l x l')
  with run obtain k where "k < n" "apply_val (eval P' d k) (VNumber x) stk' = Some v'" by (cases n) (auto simp: machine_step_def)
  from constant_matches [OF IH [OF this(1)] _ stk this(2)] show ?thesis by (simp add: machine_step_def number)
next
  case (string l t l')
  with run obtain k where "k < n" "apply_val (eval P' d k) (VString t) stk' = Some v'" by (cases n) (auto simp: machine_step_def)
  from constant_matches [OF IH [OF this(1)] _ stk this(2)] show ?thesis by (simp add: machine_step_def string)
next
  case (lifted i as l)
  let ?xs = "fd_args (P' ! i)" and ?\<rho> = "zip (fd_args (P' ! i)) (map (\<lambda>a. Clo a \<rho>') (operands as))"
  have len: "length ?xs = length as" using lifted by (auto dest: list_all2_lengthD)
  have "env_rel P P' \<rho> \<rho>' (set ?xs)" using \<rho> fv_symbols [OF lifted(5)] by (simp add: lifted(1))
  from lifted_env [OF lifted(5) this] have "crel P P' (Clo e \<rho>) (Clo (fd_body (P' ! i)) ?\<rho>)"
    by (intro crel_clo lifted(2)) (simp add: lifted(3))
  moreover from run obtain k where "n = k + length as" "eval P' d k \<rho>' (Scref l i) (map (\<lambda>a. Clo a \<rho>') (operands as) @ stk') = Some v'"
    unfolding lifted(1) by (rule eval_apps_Some)
  moreover from this obtain j where "k = Suc j" by (cases k) auto
  ultimately have j: "j < n" "eval P' d (Suc j + length as) \<rho>' (apps (Scref l i) as) stk' = Some v'" "crel P P' (Clo e \<rho>) (Clo (fd_body (P' ! i)) ?\<rho>)"
    using run by (simp_all add: lifted(1))
  moreover have "eval P' d j ?\<rho> (fd_body (P' ! i)) stk' = Some v'" using j(2) unfolding eval_lifted [OF len] by (meson option.distinct(1))
  ultimately
  show ?thesis using matchesD [OF IH, of j "Clo e \<rho>" "Clo (fd_body (P' ! i)) ?\<rho>" stk' stk v'] stk by simp
qed

lemma backward:
  assumes sim: "prog_sim P P'" and bb: "black_box d"
  shows "matches (eval P' d n) P d (\<lambda>c' c. crel P P' c c') (\<lambda>f' f. fun_rel (length P) f f')"
proof (induction n rule: less_induct)
  case (less n)
  have "\<exists>m v. enter (eval P d m) c stk = Some v \<and> val_rel (\<lambda>c' c. crel P P' c c') (\<lambda>f' f. fun_rel (length P) f f') v' v"
    if "crel P P' c c'" and stk: "list_all2 (\<lambda>c' c. crel P P' c c') stk' stk" and run: "enter (eval P' d n) c' stk' = Some v'" for c c' stk stk' v'
    using that(1)
  proof cases
    case (clo e e' \<rho> \<rho>')
    have "env_rel P P' \<rho> \<rho>' (fv e')" using clo unfolding env_rel_def by blast
    from backward_tr [OF sim bb less clo(3) this stk] run show ?thesis by (simp add: clo)
  next
    case (via \<rho>' x c0 l)
    with run obtain k where k: "n = Suc k" "enter (eval P' d k) c0 stk' = Some v'" by (cases n) (auto simp: machine_step_def)
    from matchesD [OF less [of k] via(3) stk k(2)] k(1) show ?thesis by simp
  qed
  then show ?case by (auto simp: matches_def fun_rel_crel)
qed

text \<open>The observable result of an expression: a value that holds no suspended expression.\<close>

fun ground :: "val \<Rightarrow> bool" where
  "ground VNil = True"
| "ground (VNumber d) = True"
| "ground (VString t) = True"
| "ground (VCell t cs) = False"
| "ground (VFun f cs) = False"

definition same_results :: "fundef list \<Rightarrow> fundef list \<Rightarrow> snode \<Rightarrow> snode \<Rightarrow> bool" where
  "same_results P P' e e' \<longleftrightarrow>
     (\<forall>d v. black_box d \<longrightarrow> ground v \<longrightarrow> (\<exists>n. eval P d n [] e [] = Some v) = (\<exists>n. eval P' d n [] e' [] = Some v))"

lemma same_results_trans: "same_results P P' e e' \<Longrightarrow> same_results P' P'' e' e'' \<Longrightarrow> same_results P P'' e e''"
  by (simp add: same_results_def)

lemma ground_val_rel: "val_rel R S v v' \<Longrightarrow> ground v \<or> ground v' \<Longrightarrow> v' = v"
  by (cases v) auto

theorem simulation:
  assumes "prog_sim P P'" "tr P P' e e'" "fv e' = {}"
  shows "same_results P P' e e'"
  unfolding same_results_def
proof (intro allI impI iffI)
  fix d v assume bb: "black_box d" and g: "ground v"
  have c: "crel P P' (Clo e []) (Clo e' [])" using assms(2,3) by (auto intro: crel.clo)
  { assume "\<exists>n. eval P d n [] e [] = Some v"
    then obtain n where "enter (eval P d n) (Clo e []) [] = Some v" by auto
    from matchesD [OF forward [OF assms(1) bb] c list_all2_Nil [THEN iffD2] this]
    show "\<exists>n. eval P' d n [] e' [] = Some v" using ground_val_rel g by fastforce }
  { assume "\<exists>n. eval P' d n [] e' [] = Some v"
    then obtain n where "enter (eval P' d n) (Clo e' []) [] = Some v" by auto
    from matchesD [OF backward [OF assms(1) bb] c list_all2_Nil [THEN iffD2] this]
    show "\<exists>n. eval P d n [] e [] = Some v" using ground_val_rel g by fastforce }
qed

end
