(* ===== verification/Reorder.thy ===== *)
theory Reorder
  imports Strictness_Sound Simulation
begin

text \<open>
  The letrec reordering pass, \<^verbatim>\<open>compiler/reorder.c\<close>. The stack \<^verbatim>\<open>bound\<close> holds the binding lists of
  the enclosing letrecs, innermost first; a symbol that is met for the first time makes the
  pass rewrite the value it is bound to, in place, so the lists on the stack are part of the
  result. The program exits when the stack is full. The theorems show that the pass ends, keeps only and all bindings the body needs and
  does not change what the program computes.
\<close>

subsection \<open>The pass\<close>

fun bound_value :: "letrec list list \<Rightarrow> string \<Rightarrow> snode option" where
  "bound_value [] x = None"
| "bound_value (rs # B) x = (case binding_of rs x of Some v \<Rightarrow> Some v | None \<Rightarrow> bound_value B x)"

fun set_value :: "letrec list \<Rightarrow> string \<Rightarrow> snode \<Rightarrow> letrec list" where
  "set_value [] x v = []"
| "set_value (Letrec n w st sc # rs) x v =
     (if n = x then Letrec n v st sc # rs else Letrec n w st sc # set_value rs x v)"

fun store_value :: "letrec list list \<Rightarrow> string \<Rightarrow> snode \<Rightarrow> letrec list list" where
  "store_value [] x v = []"
| "store_value (rs # B) x v =
     (if x \<in> set (map rec_name rs) then set_value rs x v # B else rs # store_value B x v)"

text \<open>The loop over the used names: bindings are moved to the new list in the order of that list,
  and their names leave it.\<close>

fun take_used :: "string list \<Rightarrow> letrec list \<Rightarrow> letrec list \<times> string list" where
  "take_used [] rs = ([], [])"
| "take_used (u # us) rs =
     (case List.extract (\<lambda>r. rec_name r = u) rs of
        Some (rs1, r, rs2) \<Rightarrow> let (newrecs, used) = take_used us (rs1 @ rs2) in (r # newrecs, used)
      | None \<Rightarrow> let (newrecs, used) = take_used us rs in (newrecs, u # used))"

partial_function (option) reorder_letrecs_r ::
  "snode \<Rightarrow> string list \<Rightarrow> letrec list list \<Rightarrow> (snode \<times> string list \<times> letrec list list) option" where
  "reorder_letrecs_r c used bound =
     (case c of
        Application l s a b \<Rightarrow>
          do { (a', used1, bound1) \<leftarrow> reorder_letrecs_r a used bound;
               (b', used2, bound2) \<leftarrow> reorder_letrecs_r b used1 bound1;
               Some (Application l s a' b', used2, bound2) }
      | LetrecNode l rs b \<Rightarrow>
          do { bound0 \<leftarrow> push_item bound rs;
               (b', used1, bound1) \<leftarrow> reorder_letrecs_r b used bound0;
               let (newrecs, used2) = take_used used1 (hd bound1);
               Some (LetrecNode l newrecs b', used2, tl bound1) }
      | Symbol l x \<Rightarrow>
          if list_contains_string (map Some used) (Some x) then Some (c, used, bound)
          else (case bound_value bound x of
                  None \<Rightarrow> Some (c, x # used, bound)
                | Some v \<Rightarrow>
                    do { (v', used1, bound1) \<leftarrow> reorder_letrecs_r v (x # used) bound;
                         Some (c, used1, store_value bound1 x v') })
      | _ \<Rightarrow> Some (c, used, bound))"

declare reorder_letrecs_r.simps [code]

definition reorder_letrecs :: "snode \<Rightarrow> snode option" where
  "reorder_letrecs c = map_option fst (reorder_letrecs_r c [] [])"

subsection \<open>Bindings on the stack\<close>

lemma binding_of_append: "binding_of (rs @ ss) x = (case binding_of rs x of Some v \<Rightarrow> Some v | None \<Rightarrow> binding_of ss x)"
  by (simp add: binding_of_def map_add_def split: option.splits)

lemma bound_value_concat: "bound_value B x = binding_of (concat B) x"
  by (induction B) (simp add: binding_of_def, simp add: binding_of_append del: binding_of_None split: option.splits)

lemma binding_of_mem: "distinct (map rec_name rs) \<Longrightarrow> binding_of rs x = Some v \<longleftrightarrow> (\<exists>r \<in> set rs. rec_name r = x \<and> rec_value r = v)"
  by (auto simp: binding_of_def comp_def)

lemma binding_of_erase: "binding_of (erase_recs rs) x = map_option erase (binding_of rs x)"
  by (induction rs) (simp_all add: binding_of_def erase_recs_map)

lemma fv_erase [simp]: "fv (erase e) = fv e" "fv_recs (erase_recs rs) = fv_recs rs"
proof (induction e and rs rule: erase_erase_recs.induct)
  case (3 l rs b)
  have "rec_name ` set (erase_recs rs) = rec_name ` set rs" by (auto simp: erase_recs_map image_image)
  with 3 show ?case by simp
qed auto

text \<open>The names of the bindings, with the binders inside the values not yet visited.\<close>

definition white :: "string list \<Rightarrow> letrec list \<Rightarrow> string list" where
  "white u rs = concat (map (\<lambda>r. rec_name r # (if rec_name r \<in> set u then [] else binders (rec_value r))) rs)"

definition wsize :: "string list \<Rightarrow> letrec list \<Rightarrow> nat" where
  "wsize u rs = sum_list (map (\<lambda>r. if rec_name r \<in> set u then 0 else nodes (rec_value r)) rs)"

text \<open>The letrec expressions of a tree, and those inside the values not yet visited.\<close>

fun letrecs :: "snode \<Rightarrow> nat" and letrecs_recs :: "letrec list \<Rightarrow> nat" where
  "letrecs (Application l s a b) = letrecs a + letrecs b"
| "letrecs (Lambda l x b) = letrecs b"
| "letrecs (LetrecNode l rs b) = 1 + letrecs_recs rs + letrecs b"
| "letrecs (Wrap l t) = letrecs t"
| "letrecs e = 0"
| "letrecs_recs [] = 0"
| "letrecs_recs (Letrec n v st sc # rs) = letrecs v + letrecs_recs rs"

definition lsize :: "string list \<Rightarrow> letrec list \<Rightarrow> nat" where
  "lsize u rs = sum_list (map (\<lambda>r. if rec_name r \<in> set u then 0 else letrecs (rec_value r)) rs)"

lemma letrecs_recs_sum: "letrecs_recs rs = sum_list (map (\<lambda>r. letrecs (rec_value r)) rs)"
proof (induction rs)
  case (Cons r rs)
  then show ?case by (cases r) simp
qed simp

lemma lsize_simps [simp]: "lsize u [] = 0" "lsize u (r # rs) = (if rec_name r \<in> set u then 0 else letrecs (rec_value r)) + lsize u rs"
  "lsize u (rs @ ss) = lsize u rs + lsize u ss"
  by (simp_all add: lsize_def)

lemma lsize_le: "lsize u rs \<le> letrecs_recs rs"
  by (induction rs) (simp_all add: letrecs_recs_sum)

abbreviation bnames :: "letrec list list \<Rightarrow> string list" where
  "bnames B \<equiv> map rec_name (concat B)"

fun scoped :: "string set \<Rightarrow> letrec list list \<Rightarrow> bool" where
  "scoped A [] \<longleftrightarrow> True"
| "scoped A (rs # B) \<longleftrightarrow> fv_recs rs \<subseteq> set (bnames (rs # B)) \<union> A \<and> scoped A B"

lemma white_simps [simp]: "white u [] = []"
  "white u (r # rs) = rec_name r # (if rec_name r \<in> set u then [] else binders (rec_value r)) @ white u rs"
  "white u (rs @ ss) = white u rs @ white u ss"
  by (simp_all add: white_def)

lemma wsize_simps [simp]: "wsize u [] = 0" "wsize u (r # rs) = (if rec_name r \<in> set u then 0 else nodes (rec_value r)) + wsize u rs"
  "wsize u (rs @ ss) = wsize u rs + wsize u ss"
  by (simp_all add: wsize_def)

lemma names_white: "set (map rec_name rs) \<subseteq> set (white u rs)" "distinct (white u rs) \<Longrightarrow> distinct (map rec_name rs)"
proof -
  show *: "set (map rec_name rs) \<subseteq> set (white u rs)" for rs by (induction rs) auto
  show "distinct (white u rs) \<Longrightarrow> distinct (map rec_name rs)"
  proof (induction rs)
    case (Cons r rs)
    then show ?case using * [of rs] by auto
  qed simp
qed

lemma white_fresh: "set u \<inter> set (map rec_name rs) = {} \<Longrightarrow> mset (white u rs) = mset (map rec_name rs @ binders_recs rs)"
  "set u \<inter> set (map rec_name rs) = {} \<Longrightarrow> wsize u rs \<le> nodes_recs rs"
proof (induction rs)
  case (Cons r rs)
  { case 1 then show ?case using Cons by (cases r) auto }
  { case 2 then show ?case using Cons by (cases r) auto }
qed simp_all

lemma distinct_sub:
  assumes "distinct xs" "mset ys \<subseteq># mset xs"
  shows "distinct ys"
  unfolding distinct_count_atmost_1
proof
  fix a
  have "count (mset ys) a \<le> count (mset xs) a" by (rule mset_subset_eq_count [OF assms(2)])
  also have "count (mset xs) a \<le> 1" using assms(1) by (simp add: distinct_count_atmost_1)
  finally have "count (mset ys) a \<le> 1" .
  moreover have "1 \<le> count (mset ys) a" if "a \<in> set ys" using that by (simp only: count_greater_eq_one_iff set_mset_mset)
  ultimately show "count (mset ys) a = (if a \<in> set ys then 1 else 0)" by (cases "a \<in> set ys") (auto intro: le_antisym simp: count_mset_0_iff)
qed

lemma set_sub: "mset ys \<subseteq># mset xs \<Longrightarrow> set ys \<subseteq> set xs"
  by (metis set_mset_mono set_mset_mset)

lemma scoped_fv: "scoped A B \<Longrightarrow> fv_recs (concat B) \<subseteq> set (bnames B) \<union> A"
proof (induction B)
  case (Cons rs B)
  have "fv_recs (rs @ concat B) = fv_recs rs \<union> fv_recs (concat B)" unfolding set_eq_iff Un_iff fv_recs_iff set_append by blast
  with Cons show ?case by auto
qed simp

lemma white_visit:
  assumes "distinct (map rec_name rs)" "binding_of rs x = Some v" "x \<notin> set u"
  shows "mset (white u rs) = mset (binders v @ white (x # u) rs)" "wsize u rs = nodes v + wsize (x # u) rs" "lsize u rs = letrecs v + lsize (x # u) rs"
  using assms(1,2)
proof (induction rs)
  case (Cons r rs)
  have no: "x \<notin> set (map rec_name rs) \<Longrightarrow> white (x # u) rs = white u rs \<and> wsize (x # u) rs = wsize u rs \<and> lsize (x # u) rs = lsize u rs" for rs
    by (induction rs) auto
  { case 1 then show ?case using Cons no [of rs] assms(3) by (auto simp: binding_of_def split: if_splits) }
  { case 2 then show ?case using Cons no [of rs] assms(3) by (auto simp: binding_of_def split: if_splits) }
  { case 3 then show ?case using Cons no [of rs] assms(3) by (auto simp: binding_of_def split: if_splits) }
qed (simp_all add: binding_of_def)

subsection \<open>What a visit achieves\<close>

definition good :: "fundef list \<Rightarrow> fundef list \<Rightarrow> snode \<Rightarrow> snode \<Rightarrow> bool" where
  "good P P' e e' \<longleftrightarrow> tr P P' (erase e) (erase e') \<and> fv e' \<subseteq> fv e \<and> mset (binders e') \<subseteq># mset (binders e) \<and> analysable (length P) e' \<and> letrecs e' \<le> letrecs e"

definition adv :: "fundef list \<Rightarrow> fundef list \<Rightarrow> string set \<Rightarrow> string set \<Rightarrow> letrec \<Rightarrow> letrec \<Rightarrow> bool" where
  "adv P P' X N r r' \<longleftrightarrow>
     rec_name r' = rec_name r \<and> rec_strict r' = rec_strict r \<and> rec_sc r' = rec_sc r \<and>
     (rec_name r \<notin> N \<longrightarrow> r' = r) \<and> (rec_name r \<in> N \<longrightarrow> good P P' (rec_value r) (rec_value r') \<and> fv (rec_value r') \<subseteq> X)"

abbreviation advs :: "fundef list \<Rightarrow> fundef list \<Rightarrow> string set \<Rightarrow> string set \<Rightarrow> letrec list list \<Rightarrow> letrec list list \<Rightarrow> bool" where
  "advs P P' X N B B' \<equiv> list_all2 (list_all2 (adv P P' X N)) B B'"

lemma advs_refl: "advs P P' X {} B B"
  by (intro list.rel_refl_strong) (simp add: adv_def)

lemma adv_trans: "adv P P' X N r r' \<Longrightarrow> adv P P' Y M r' r'' \<Longrightarrow> X \<subseteq> Y \<Longrightarrow> N \<inter> M = {} \<Longrightarrow> adv P P' Y (N \<union> M) r r''"
  by (auto simp: adv_def)

lemma advs_trans:
  assumes "advs P P' X N B B'" "advs P P' Y M B' B''" "X \<subseteq> Y" "N \<inter> M = {}"
  shows "advs P P' Y (N \<union> M) B B''"
proof (rule list_all2_trans [OF _ assms(1,2)])
  show "list_all2 (adv P P' Y (N \<union> M)) a c" if "list_all2 (adv P P' X N) a b" "list_all2 (adv P P' Y M) b c" for a b c
    by (rule list_all2_trans [OF _ that]) (rule adv_trans [OF _ _ assms(3,4)])
qed

lemma advs_concat: "advs P P' X N B B' \<Longrightarrow> list_all2 (adv P P' X N) (concat B) (concat B')"
  by (induction rule: list_all2_induct) (auto intro: list_all2_appendI)

lemma adv_names: "list_all2 (adv P P' X N) rs rs' \<Longrightarrow> map rec_name rs' = map rec_name rs"
  by (induction rule: list_all2_induct) (auto simp: adv_def)

lemma advs_names: "advs P P' X N B B' \<Longrightarrow> bnames B' = bnames B"
  by (rule adv_names [OF advs_concat])

lemma adv_white:
  assumes "list_all2 (adv P P' X (set N)) rs rs'"
  shows "mset (white (N @ u) rs') \<subseteq># mset (white u rs)" "wsize (N @ u) rs' \<le> wsize u rs" "lsize (N @ u) rs' \<le> lsize u rs"
  using assms by (induction rule: list_all2_induct) (auto simp: adv_def intro: subset_mset.add_mono subset_mset.add_increasing)

lemma adv_fv: "list_all2 (adv P P' X N) rs rs' \<Longrightarrow> fv_recs rs' \<subseteq> fv_recs rs"
proof (induction rule: list_all2_induct)
  case (Cons r rs r' rs')
  have "fv (rec_value r') \<subseteq> fv (rec_value r)" using Cons(1) by (auto simp: adv_def good_def)
  with Cons show ?case by (cases r; cases r') auto
qed simp

lemma advs_scoped: "advs P P' X N B B' \<Longrightarrow> scoped A B \<Longrightarrow> scoped A B'"
proof (induction rule: list_all2_induct)
  case (Cons rs B rs' B')
  have "bnames (rs' # B') = bnames (rs # B)" by (rule advs_names) (use Cons in simp)
  with Cons adv_fv [OF Cons(1)] show ?case by (auto simp del: concat.simps map_append set_map)
qed simp

lemma adv_other: "list_all2 (adv P P' X N) rs rs' \<Longrightarrow> x \<notin> set (map rec_name rs) \<Longrightarrow> list_all2 (adv P P' X (insert x N)) rs rs'"
  by (induction rule: list_all2_induct) (auto simp: adv_def)

lemma advs_other: "advs P P' X N B B' \<Longrightarrow> x \<notin> set (bnames B) \<Longrightarrow> advs P P' X (insert x N) B B'"
  by (induction rule: list_all2_induct) (auto intro: adv_other)

lemma adv_set_value:
  assumes "list_all2 (adv P P' X N) rs rs'" "distinct (map rec_name rs)" "x \<notin> N"
    "binding_of rs x = Some v" "good P P' v v'" "fv v' \<subseteq> X"
  shows "list_all2 (adv P P' X (insert x N)) rs (set_value rs' x v')"
proof -
  show ?thesis using assms(1,2,4)
  proof (induction rule: list_all2_induct)
    case (Cons r rs r' rs')
    obtain n w st sc where r': "r' = Letrec n w st sc" by (cases r')
    have n: "n = rec_name r" "st = rec_strict r" "sc = rec_sc r" using Cons(1) by (auto simp: adv_def r')
    show ?case
    proof (cases "rec_name r = x")
      case True
      with Cons.prems have "v = rec_value r" by (simp add: binding_of_def)
      with True n assms(3,5,6) have "adv P P' X (insert x N) r (Letrec n v' st sc)" by (simp add: adv_def)
      moreover have "list_all2 (adv P P' X (insert x N)) rs rs'" using Cons True by (intro adv_other) auto
      ultimately show ?thesis using True n by (simp add: r')
    next
      case False
      with Cons have "list_all2 (adv P P' X (insert x N)) rs (set_value rs' x v')" by (simp add: binding_of_def)
      moreover have "adv P P' X (insert x N) r r'" using Cons(1) False by (simp add: adv_def)
      ultimately show ?thesis using False n by (simp add: r')
    qed
  qed (simp add: binding_of_def)
qed

lemma advs_store_value:
  assumes "advs P P' X N B B'" "distinct (bnames B)" "x \<notin> N" "bound_value B x = Some v" "good P P' v v'" "fv v' \<subseteq> X"
  shows "advs P P' X (insert x N) B (store_value B' x v')"
proof -
  show ?thesis using assms(1,2,4)
  proof (induction rule: list_all2_induct)
    case (Cons rs B rs' B')
    have nm: "set (map rec_name rs') = set (map rec_name rs)" using adv_names [OF Cons(1)] by simp
    show ?case
    proof (cases "binding_of rs x")
      case (Some w)
      then have x: "x \<in> set (map rec_name rs)" using binding_of_None [of rs x] by (simp del: binding_of_None)
      then have "x \<notin> set (bnames B)" using Cons.prems(1) by auto
      with Cons Some x nm advs_other [OF Cons(2), of x] adv_set_value [OF Cons(1) _ assms(3) Some _ assms(6)] assms(5) show ?thesis by simp
    next
      case None
      then have x: "x \<notin> set (map rec_name rs)" by simp
      with Cons.prems None have "bound_value B x = Some v" by (simp del: binding_of_None)
      moreover have "list_all2 (adv P P' X (insert x N)) rs rs'" using x Cons(1) by (intro adv_other)
      ultimately show ?thesis using Cons x nm by simp
    qed
  qed simp
qed

subsection \<open>A visit returns\<close>

definition ready :: "string set \<Rightarrow> nat \<Rightarrow> snode \<Rightarrow> string list \<Rightarrow> letrec list list \<Rightarrow> bool" where
  "ready A n e u B \<longleftrightarrow>
     analysable n e \<and> (\<forall>r \<in> set (concat B). rec_name r \<notin> set u \<longrightarrow> analysable n (rec_value r)) \<and>
     distinct (binders e @ white u (concat B)) \<and> fv e \<subseteq> set (bnames B) \<union> A \<and> scoped A B \<and>
     A \<inter> set (binders e @ white u (concat B)) = {} \<and> set u \<subseteq> set (bnames B) \<union> A \<and> distinct u \<and>
     stack_room (length B + letrecs e + lsize u (concat B))"

definition visit_ok :: "string set \<Rightarrow> fundef list \<Rightarrow> fundef list \<Rightarrow> snode \<Rightarrow> string list \<Rightarrow> letrec list list \<Rightarrow> bool" where
  "visit_ok A P P' e u B \<longleftrightarrow>
     (\<exists>e' N B'. reorder_letrecs_r e u B = Some (e', N @ u, B') \<and> good P P' e e' \<and> fv e' \<subseteq> set (N @ u) \<and> distinct (N @ u) \<and>
        set N \<subseteq> set (bnames B) \<union> A \<and> advs P P' (set (N @ u)) (set N) B B')"

lemma visit_okI:
  assumes "reorder_letrecs_r e u B = Some (e', N @ u, B')" "good P P' e e'" "fv e' \<subseteq> set (N @ u)" "distinct (N @ u)"
    "set N \<subseteq> set (bnames B) \<union> A" "advs P P' (set (N @ u)) (set N) B B'"
  shows "visit_ok A P P' e u B"
  using assms unfolding visit_ok_def by blast

lemma ready_next:
  assumes r: "ready A n (Application l s a b) u B" and adv: "advs P P' X (set N) B B'" and N: "set N \<subseteq> set (bnames B) \<union> A" "distinct (N @ u)"
  shows "ready A n b (N @ u) B'" "nodes b + wsize (N @ u) (concat B') < nodes (Application l s a b) + wsize u (concat B)"
proof -
  note w = adv_white [OF advs_concat [OF adv], of u]
  have sub: "mset (binders b @ white (N @ u) (concat B')) \<subseteq># mset (binders a @ binders b @ white u (concat B))"
    using w(1) by (simp add: add.left_commute subset_mset.add_increasing)
  have an: "analysable n (rec_value r')" if "r' \<in> set (concat B')" "rec_name r' \<notin> set (N @ u)" for r'
  proof -
    from that(1) obtain i where i: "i < length (concat B')" "r' = concat B' ! i" by (metis in_set_conv_nth)
    with list_all2_nthD2 [OF advs_concat [OF adv] i(1)] have "adv P P' X (set N) (concat B ! i) r'" by simp
    moreover have "concat B ! i \<in> set (concat B)" using i(1) list_all2_lengthD [OF advs_concat [OF adv]] by (intro nth_mem) simp
    ultimately have "r' \<in> set (concat B)" using that(2) by (auto simp: adv_def)
    then show ?thesis using that(2) r unfolding ready_def by auto
  qed
  have room: "stack_room (length B' + letrecs b + lsize (N @ u) (concat B'))"
    by (rule stack_room_mono [of "length B + letrecs (Application l s a b) + lsize u (concat B)"])
      (use r w(3) list_all2_lengthD [OF adv] in \<open>auto simp: ready_def\<close>)
  show "ready A n b (N @ u) B'"
    using room r N distinct_sub [OF _ sub] set_sub [OF sub] advs_scoped [OF adv] an
    unfolding ready_def advs_names [OF adv] by auto
  show "nodes b + wsize (N @ u) (concat B') < nodes (Application l s a b) + wsize u (concat B)" using w(2) by simp
qed

lemma visit_application:
  assumes r: "ready A (length P) (Application l s a b) u B"
    and a: "visit_ok A P P' a u B" and b: "\<And>u' B'. ready A (length P) b u' B' \<Longrightarrow>
      nodes b + wsize u' (concat B') < nodes (Application l s a b) + wsize u (concat B) \<Longrightarrow> visit_ok A P P' b u' B'"
  shows "visit_ok A P P' (Application l s a b) u B"
proof -
  obtain a' N B1 where A: "reorder_letrecs_r a u B = Some (a', N @ u, B1)" "good P P' a a'" "fv a' \<subseteq> set (N @ u)" "distinct (N @ u)"
    "set N \<subseteq> set (bnames B) \<union> A" "advs P P' (set (N @ u)) (set N) B B1" using a unfolding visit_ok_def by blast
  from b [OF ready_next [OF r A(6,5,4)]] obtain b' M B2 where
    B: "reorder_letrecs_r b (N @ u) B1 = Some (b', M @ N @ u, B2)" "good P P' b b'" "fv b' \<subseteq> set (M @ N @ u)" "distinct (M @ N @ u)"
    "set M \<subseteq> set (bnames B1) \<union> A" "advs P P' (set (M @ N @ u)) (set M) B1 B2" unfolding visit_ok_def by blast
  have "advs P P' (set (M @ N @ u)) (set N \<union> set M) B B2" using B(4) by (intro advs_trans [OF A(6) B(6)]) auto
  then have "advs P P' (set ((M @ N) @ u)) (set (M @ N)) B B2" by (simp add: Un_commute Un_left_commute)
  moreover have "reorder_letrecs_r (Application l s a b) u B = Some (Application l s a' b', (M @ N) @ u, B2)"
    by (subst reorder_letrecs_r.simps) (simp add: A(1) B(1))
  moreover have "good P P' (Application l s a b) (Application l s a' b')"
    using A(2) B(2) by (auto simp: good_def intro: tr.app subset_mset.add_mono)
  moreover have "fv (Application l s a' b') \<subseteq> set ((M @ N) @ u)" using A(3) B(3) by auto
  moreover have "distinct ((M @ N) @ u)" "set (M @ N) \<subseteq> set (bnames B) \<union> A" using B(4,5) A(5) by (auto simp: advs_names [OF A(6)])
  ultimately show ?thesis unfolding visit_ok_def by blast
qed

lemma good_leaf: "tr P P' (erase e) (erase e) \<Longrightarrow> analysable (length P) e \<Longrightarrow> good P P' e e"
  by (simp add: good_def)

lemma visit_symbol:
  assumes r: "ready A (length P) (Symbol l x) u B"
    and v: "\<And>v. bound_value B x = Some v \<Longrightarrow> ready A (length P) v (x # u) B \<Longrightarrow>
      nodes v + wsize (x # u) (concat B) < nodes (Symbol l x) + wsize u (concat B) \<Longrightarrow> visit_ok A P P' v (x # u) B"
  shows "visit_ok A P P' (Symbol l x) u B"
proof -
  have g: "good P P' (Symbol l x) (Symbol l x)" by (rule good_leaf) (simp_all add: tr.sym)
  have d: "distinct (bnames B)" using r names_white(2) [of u "concat B"] by (simp add: ready_def)
  consider (seen) "x \<in> set u" | (arg) "x \<notin> set u" "bound_value B x = None" | (rec) v where "x \<notin> set u" "bound_value B x = Some v" by fastforce
  then show ?thesis
  proof cases
    case seen
    then have "reorder_letrecs_r (Symbol l x) u B = Some (Symbol l x, [] @ u, B)" by (subst reorder_letrecs_r.simps) auto
    then show ?thesis using g by (rule visit_okI) (use seen r in \<open>auto simp: ready_def advs_refl\<close>)
  next
    case arg
    then have "reorder_letrecs_r (Symbol l x) u B = Some (Symbol l x, [x] @ u, B)" by (subst reorder_letrecs_r.simps) auto
    note run = this
    have x: "x \<notin> set (bnames B)" "x \<in> A" using arg(2) r by (auto simp: bound_value_concat ready_def)
    have "advs P P' (set ([x] @ u)) (set [x]) B B" using advs_other [OF advs_refl x(1)] by simp
    from visit_okI [OF run g _ _ _ this] show ?thesis using arg r x by (auto simp: ready_def)
  next
    case rec
    have b: "binding_of (concat B) x = Some v" using rec(2) by (simp add: bound_value_concat)
    note w = white_visit [OF d b rec(1)]
    from b d obtain rc where rc: "rc \<in> set (concat B)" "rec_name rc = x" "rec_value rc = v" by (auto simp: binding_of_mem)
    have eq: "mset (binders v @ white (x # u) (concat B)) = mset (white u (concat B))" using w(1) by simp
    have "fv v \<subseteq> fv_recs (concat B)" by (rule fv_binding [OF b])
    then have fv: "fv v \<subseteq> set (bnames B) \<union> A" using scoped_fv [of A B] r by (auto simp: ready_def)
    have "stack_room (length B + letrecs v + lsize (x # u) (concat B))" using r w(3) by (simp add: ready_def add.assoc)
    then have "ready A (length P) v (x # u) B"
      using r rc rec(1) fv mset_eq_setD [OF eq] distinct_sub [of "white u (concat B)" "binders v @ white (x # u) (concat B)"] eq
      unfolding ready_def by (auto simp: binding_of_mem)
    then have "visit_ok A P P' v (x # u) B" using v rec w(2) by simp
    then obtain v' N B1 where V: "reorder_letrecs_r v (x # u) B = Some (v', N @ x # u, B1)" "good P P' v v'" "fv v' \<subseteq> set (N @ x # u)"
      "distinct (N @ x # u)" "set N \<subseteq> set (bnames B) \<union> A" "advs P P' (set (N @ x # u)) (set N) B B1" unfolding visit_ok_def by blast
    have "x \<in> set (bnames B)" using rc(1,2) by auto
    have "advs P P' (set (N @ x # u)) (insert x (set N)) B (store_value B1 x v')"
      using V d rec by (intro advs_store_value) auto
    then have "advs P P' (set ((N @ [x]) @ u)) (set (N @ [x])) B (store_value B1 x v')" by simp
    note adv = this
    have "reorder_letrecs_r (Symbol l x) u B = Some (Symbol l x, (N @ [x]) @ u, store_value B1 x v')"
      using rec by (subst reorder_letrecs_r.simps) (auto simp: V(1))
    from visit_okI [OF this g _ _ _ adv] show ?thesis using V(3-5) \<open>x \<in> set (bnames B)\<close> by auto
  qed
qed

lemma take_used_spec:
  assumes "distinct us" "distinct (map rec_name rs)" "take_used us rs = (new, rest)"
  shows "rest = filter (\<lambda>u. u \<notin> set (map rec_name rs)) us" "map rec_name new = filter (\<lambda>u. u \<in> set (map rec_name rs)) us" "set new \<subseteq> set rs"
proof -
  have "rest = filter (\<lambda>u. u \<notin> set (map rec_name rs)) us \<and> map rec_name new = filter (\<lambda>u. u \<in> set (map rec_name rs)) us \<and> set new \<subseteq> set rs"
    using assms
  proof (induction us arbitrary: rs new rest)
    case (Cons u us)
    show ?case
    proof (cases "List.extract (\<lambda>r. rec_name r = u) rs")
      case None
      then have "u \<notin> set (map rec_name rs)" by (auto simp: extract_None_iff)
      moreover obtain new1 rest1 where t: "take_used us rs = (new1, rest1)" by (cases "take_used us rs")
      ultimately show ?thesis using Cons.prems None Cons.IH [OF _ _ t] by auto
    next
      case (Some p)
      then obtain rs1 r rs2 where p: "List.extract (\<lambda>r. rec_name r = u) rs = Some (rs1, r, rs2)" by (cases p) auto
      then have r: "rs = rs1 @ r # rs2" "rec_name r = u" by (auto simp: extract_Some_iff)
      obtain new1 rest1 where t: "take_used us (rs1 @ rs2) = (new1, rest1)" by (cases "take_used us (rs1 @ rs2)")
      have "distinct (map rec_name (rs1 @ rs2))" using Cons.prems(2) r by auto
      from Cons.IH [OF _ this t] have IH: "rest1 = filter (\<lambda>u. u \<notin> set (map rec_name (rs1 @ rs2))) us"
        "map rec_name new1 = filter (\<lambda>u. u \<in> set (map rec_name (rs1 @ rs2))) us" "set new1 \<subseteq> set (rs1 @ rs2)" using Cons.prems(1) by auto
      have eq: "w \<in> set (map rec_name (rs1 @ rs2)) \<longleftrightarrow> w \<in> set (map rec_name rs)" if "w \<in> set us" for w
        using that Cons.prems(1) r by auto
      have "new = r # new1" "rest = rest1" using Cons.prems(3) p t by auto
      moreover have "rest1 = filter (\<lambda>u. u \<notin> set (map rec_name rs)) us" "map rec_name new1 = filter (\<lambda>u. u \<in> set (map rec_name rs)) us"
        unfolding IH(1,2) using eq by (auto intro!: filter_cong simp del: set_map map_append)
      ultimately show ?thesis using IH(3) r by auto
    qed
  qed simp
  then show "rest = filter (\<lambda>u. u \<notin> set (map rec_name rs)) us" "map rec_name new = filter (\<lambda>u. u \<in> set (map rec_name rs)) us" "set new \<subseteq> set rs" by auto
qed

lemma mset_binders_recs: "mset (binders_recs rs) = (\<Sum>r \<in># mset rs. mset (binders (rec_value r)))"
proof (induction rs)
  case (Cons r rs)
  then show ?case by (cases r) simp
qed simp

lemma binders_recs_mono: "mset rs \<subseteq># mset ss \<Longrightarrow> mset (binders_recs rs) \<subseteq># mset (binders_recs ss)"
  by (auto simp: mset_binders_recs mset_subset_eq_exists_conv)

lemma adv_binders: "list_all2 (adv P P' X N) rs rs' \<Longrightarrow> mset (binders_recs rs') \<subseteq># mset (binders_recs rs)"
proof (induction rule: list_all2_induct)
  case (Cons r rs r' rs')
  have "mset (binders (rec_value r')) \<subseteq># mset (binders (rec_value r))" using Cons(1) by (auto simp: adv_def good_def)
  with Cons show ?case by (cases r; cases r') (auto intro: subset_mset.add_mono)
qed simp

lemma letrecs_recs_mono: "mset rs \<subseteq># mset ss \<Longrightarrow> letrecs_recs rs \<le> letrecs_recs ss"
proof -
  have eq: "letrecs_recs rs = (\<Sum>r \<in># mset rs. letrecs (rec_value r))" for rs unfolding letrecs_recs_sum sum_mset_sum_list [symmetric] by simp
  assume "mset rs \<subseteq># mset ss"
  then show ?thesis unfolding eq by (auto simp: mset_subset_eq_exists_conv)
qed

lemma adv_letrecs: "list_all2 (adv P P' X N) rs rs' \<Longrightarrow> letrecs_recs rs' \<le> letrecs_recs rs"
proof (induction rule: list_all2_induct)
  case (Cons r rs r' rs')
  have "letrecs (rec_value r') \<le> letrecs (rec_value r)" using Cons(1) by (auto simp: adv_def good_def)
  with Cons show ?case by (simp add: letrecs_recs_sum)
qed simp

lemma analysable_recs_all: "analysable_recs n rs \<longleftrightarrow> (\<forall>r \<in> set rs. analysable n (rec_value r))"
proof (induction rs)
  case (Cons r rs)
  then show ?case by (cases r) auto
qed simp

lemma ready_letrec:
  assumes r: "ready A n (LetrecNode l rs b) u B"
  shows "ready A n b u (rs # B)" "nodes b + wsize u (concat (rs # B)) < nodes (LetrecNode l rs b) + wsize u (concat B)"
    "set u \<inter> set (map rec_name rs) = {}" "set (map rec_name rs) \<inter> (set (bnames B) \<union> A) = {}" "distinct (map rec_name rs)"
    "push_item B rs = Some (rs # B)"
proof -
  show names: "set (map rec_name rs) \<inter> (set (bnames B) \<union> A) = {}" "distinct (map rec_name rs)"
    using r names_white(1) [of "concat B" u] unfolding ready_def by (auto simp del: set_map)
  show fresh: "set u \<inter> set (map rec_name rs) = {}" using r names(1) unfolding ready_def by blast
  have eq: "mset (binders b @ white u (concat (rs # B))) = mset (binders (LetrecNode l rs b) @ white u (concat B))"
    using white_fresh(1) [OF fresh] by simp
  have "\<forall>r \<in> set (concat (rs # B)). rec_name r \<notin> set u \<longrightarrow> analysable n (rec_value r)"
    using r unfolding ready_def by (auto simp: analysable_recs_all)
  moreover have "fv b \<subseteq> set (bnames (rs # B)) \<union> A" "scoped A (rs # B)" "set u \<subseteq> set (bnames (rs # B)) \<union> A"
    using r unfolding ready_def by auto
  moreover have "distinct (binders b @ white u (concat (rs # B)))"
    by (rule distinct_sub [of "binders (LetrecNode l rs b) @ white u (concat B)"]) (use r eq in \<open>simp_all add: ready_def\<close>)
  moreover have "A \<inter> set (binders b @ white u (concat (rs # B))) = {}" unfolding mset_eq_setD [OF eq] using r by (simp only: ready_def)
  moreover have room: "stack_room (length (rs # B) + letrecs b + lsize u (concat (rs # B)))"
    by (rule stack_room_mono [of "length B + letrecs (LetrecNode l rs b) + lsize u (concat B)"])
      (use r lsize_le [of u rs] in \<open>auto simp: ready_def\<close>)
  ultimately show "ready A n b u (rs # B)" using r by (simp add: ready_def del: concat.simps)
  show "push_item B rs = Some (rs # B)" using push_item_room [of B "letrecs b + lsize u (concat (rs # B))"] room by (simp add: add.assoc)
  show "nodes b + wsize u (concat (rs # B)) < nodes (LetrecNode l rs b) + wsize u (concat B)"
    using white_fresh(2) [OF fresh] by simp
qed

lemma visit_letrec:
  assumes r: "ready A (length P) (LetrecNode l rs b) u B" and b: "visit_ok A P P' b u (rs # B)"
  shows "visit_ok A P P' (LetrecNode l rs b) u B"
proof -
  note R = ready_letrec [OF r]
  let ?names = "set (map rec_name rs)"
  obtain b' N rs1 B1 where V: "reorder_letrecs_r b u (rs # B) = Some (b', N @ u, rs1 # B1)" "good P P' b b'" "fv b' \<subseteq> set (N @ u)" "distinct (N @ u)"
      "set N \<subseteq> set (bnames (rs # B)) \<union> A" and lev: "list_all2 (adv P P' (set (N @ u)) (set N)) rs rs1" and adv: "advs P P' (set (N @ u)) (set N) B B1"
    using b unfolding visit_ok_def by (auto simp: list_all2_Cons1)
  have nm: "map rec_name rs1 = map rec_name rs" by (rule adv_names [OF lev])
  obtain new rest where t: "take_used (N @ u) rs1 = (new, rest)" by (cases "take_used (N @ u) rs1")
  note T = take_used_spec [OF V(4) _ t, unfolded nm, OF R(5)]
  let ?N = "filter (\<lambda>x. x \<notin> ?names) N"
  have rest: "rest = ?N @ u" unfolding T(1) using R(3) by (auto simp: filter_id_conv)
  have newnames: "set (map rec_name new) = set N \<inter> ?names" unfolding T(2) using R(3) by auto
  have newdist: "distinct (map rec_name new)" unfolding T(2) using V(4) by (intro distinct_filter)
  have val: "\<exists>r \<in> set rs. rec_name r = rec_name r' \<and> good P P' (rec_value r) (rec_value r') \<and> fv (rec_value r') \<subseteq> set (N @ u)" if "r' \<in> set new" for r'
  proof -
    from that T(3) obtain i where i: "i < length rs1" "r' = rs1 ! i" by (metis in_set_conv_nth subsetD)
    with list_all2_nthD2 [OF lev i(1)] have "adv P P' (set (N @ u)) (set N) (rs ! i) r'" by simp
    moreover have "rec_name r' \<in> set N" using that newnames by auto
    moreover have "rs ! i \<in> set rs" using i(1) list_all2_lengthD [OF lev] by simp
    ultimately show ?thesis unfolding adv_def by auto
  qed
  have fvnew: "fv_recs new \<subseteq> set (N @ u)" "fv_recs new \<subseteq> fv_recs rs"
    using val unfolding good_def by (fastforce simp: fv_recs_iff)+
  have "tr P P' (apps (LetrecNode l (erase_recs rs) (erase b)) []) (LetrecNode l (erase_recs new) (erase b'))"
  proof (rule tr.recs)
    show "tr P P' (apps (erase b) []) (erase b')" using V(2) by (simp add: good_def)
    show "fv_recs (erase_recs new) \<subseteq> fv_recs (erase_recs rs)" using fvnew(2) by simp
    show "\<forall>x v'. binding_of (erase_recs new) x = Some v' \<longrightarrow> (\<exists>v. binding_of (erase_recs rs) x = Some v \<and> tr P P' v v')"
      using val by (fastforce simp: binding_of_erase binding_of_mem newdist R(5) good_def)
    show "(fv (erase b') \<union> fv_recs (erase_recs new)) \<inter> set (map rec_name (erase_recs rs)) \<subseteq> set (map rec_name (erase_recs new))"
      using V(3) fvnew(1) newnames R(3) by (auto simp del: set_map)
  qed simp_all
  moreover have "fv (LetrecNode l new b') \<subseteq> fv (LetrecNode l rs b)"
    using V(2,3) fvnew newnames R(3) unfolding good_def by (auto simp del: set_map)
  moreover have sub: "mset new \<subseteq># mset rs1"
    by (rule mset_subset_eqI) (metis T(3) count_mset_0_iff distinct_count_atmost_1 distinct_map le_zero_eq linear newdist nm R(5) subsetD)
  moreover have "mset (binders (LetrecNode l new b')) \<subseteq># mset (binders (LetrecNode l rs b))"
  proof -
    have "mset (map rec_name new) \<subseteq># mset (map rec_name rs)"
      unfolding mset_set_set [OF newdist, symmetric] mset_set_set [OF R(5), symmetric] using newnames by (simp add: subset_imp_msubset_mset_set)
    moreover have "mset (binders_recs new) \<subseteq># mset (binders_recs rs)"
      by (rule subset_mset.order_trans [OF binders_recs_mono [OF sub] adv_binders [OF lev]])
    ultimately show ?thesis using V(2) by (auto simp: good_def intro!: subset_mset.add_mono)
  qed
  moreover have "letrecs (LetrecNode l new b') \<le> letrecs (LetrecNode l rs b)"
    using letrecs_recs_mono [OF sub] adv_letrecs [OF lev] V(2) by (simp add: good_def)
  moreover have "analysable (length P) (LetrecNode l new b')"
    using V(2) newdist val by (auto simp: good_def analysable_recs_all)
  ultimately have g: "good P P' (LetrecNode l rs b) (LetrecNode l new b')" by (simp add: good_def)
  have out: "advs P P' (set (?N @ u)) (set ?N) B B1"
  proof (rule list.rel_mono_strong [OF adv])
    fix ss ss' assume ss: "ss \<in> set B" "ss' \<in> set B1" "list_all2 (adv P P' (set (N @ u)) (set N)) ss ss'"
    show "list_all2 (adv P P' (set (?N @ u)) (set ?N)) ss ss'"
    proof (rule list.rel_mono_strong [OF ss(3)])
      fix q q' assume q: "q \<in> set ss" "q' \<in> set ss'" "adv P P' (set (N @ u)) (set N) q q'"
      have "rec_name q \<in> set (bnames B)" "fv (rec_value q) \<subseteq> fv_recs (concat B)"
        using q(1) ss(1) by (auto, unfold fv_recs_iff set_concat) blast
      moreover have "fv_recs (concat B) \<subseteq> set (bnames B) \<union> A" using r scoped_fv [of A B] by (simp add: ready_def)
      ultimately have "rec_name q \<notin> ?names" "fv (rec_value q) \<inter> ?names = {}" using R(4) by blast+
      with q(3) R(3) show "adv P P' (set (?N @ u)) (set ?N) q q'" unfolding adv_def good_def by (auto simp del: set_map)
    qed
  qed
  have "reorder_letrecs_r (LetrecNode l rs b) u B = Some (LetrecNode l new b', ?N @ u, B1)"
    by (subst reorder_letrecs_r.simps) (simp add: R(6) V(1) t rest del: set_map)
  then show ?thesis
    by (rule visit_okI [OF _ g _ _ _ out]) (use V(3-5) fvnew newnames R(3) in \<open>auto simp del: set_map\<close>)
qed

lemma visit_returns:
  "ready A (length P) e u B \<Longrightarrow> visit_ok A P P' e u B"
proof (induction "nodes e + wsize u (concat B)" arbitrary: e u B rule: less_induct)
  case less
  have leaf: "visit_ok A P P' e u B"
    if "reorder_letrecs_r e u B = Some (e, u, B)" "tr P P' (erase e) (erase e)" "fv e = {}"
    by (rule visit_okI [where N = "[]"]) (use that less.prems in \<open>auto simp: ready_def good_leaf advs_refl\<close>)
  show ?case
  proof (cases e)
    case (Application l s a b)
    note r = less.prems [unfolded Application]
    have "ready A (length P) a u B"
      using r stack_room_mono [of "length B + (letrecs a + letrecs b) + lsize u (concat B)" "length B + letrecs a + lsize u (concat B)"]
      by (auto simp: ready_def)
    moreover have "nodes a + wsize u (concat B) < nodes e + wsize u (concat B)" by (simp add: Application)
    ultimately have "visit_ok A P P' a u B" by (rule less.hyps [rotated])
    then show ?thesis unfolding Application by (rule visit_application [OF r]) (use less.hyps Application in blast)
  next
    case (Symbol l x)
    show ?thesis unfolding Symbol by (rule visit_symbol [OF less.prems [unfolded Symbol]]) (use less.hyps Symbol in blast)
  next
    case (LetrecNode l rs b)
    note r = less.prems [unfolded LetrecNode]
    have "visit_ok A P P' b u (rs # B)" by (rule less.hyps) (use ready_letrec [OF r] LetrecNode in simp_all)
    then show ?thesis unfolding LetrecNode by (rule visit_letrec [OF r])
  qed (rule leaf; use less.prems in \<open>auto simp: ready_def reorder_letrecs_r.simps intro: tr.scref tr.builtin tr.null tr.number tr.string\<close>)+
qed

text \<open>The bodies the pass is run on: lambda-lifted, all binders different from each other and from
  the arguments, no free variable but the arguments.\<close>

definition reorderable :: "nat \<Rightarrow> string list \<Rightarrow> snode \<Rightarrow> bool" where
  "reorderable n args e \<longleftrightarrow> analysable n e \<and> distinct (args @ binders e) \<and> fv e \<subseteq> set args"

lemma reorder_letrecs_good:
  assumes "reorderable (length P) args e" "stack_room (letrecs e)"
  shows "\<exists>e'. reorder_letrecs e = Some e' \<and> good P P' e e'"
proof -
  have "ready (set args) (length P) e [] []" using assms by (auto simp: ready_def reorderable_def)
  from visit_returns [OF this, of P'] show ?thesis unfolding visit_ok_def reorder_letrecs_def by auto
qed

subsection \<open>The pass over a program\<close>

definition reorder_scomb :: "scomb \<Rightarrow> scomb option" where
  "reorder_scomb sc =
     do { body \<leftarrow> sc_body sc; body' \<leftarrow> reorder_letrecs body; Some (sc\<lparr>sc_body := Some body'\<rparr>) }"

definition reorder_all :: "source \<Rightarrow> source option" where
  "reorder_all src = do { scs \<leftarrow> those (map reorder_scomb (scombs src)); Some (src\<lparr>scombs := scs\<rparr>) }"

definition letrecs_fit :: "source \<Rightarrow> bool" where
  "letrecs_fit src \<longleftrightarrow> list_all (\<lambda>sc. case sc_body sc of Some e \<Rightarrow> stack_room (letrecs e) | None \<Rightarrow> True) (scombs src)"

definition reorderable_program :: "source \<Rightarrow> bool" where
  "reorderable_program src \<longleftrightarrow>
     list_all (\<lambda>sc. case sc_body sc of Some e \<Rightarrow> reorderable (length (scombs src)) (sc_argnames sc) e | None \<Rightarrow> False) (scombs src)"

lemma those_map_Some: "(\<And>x. x \<in> set xs \<Longrightarrow> \<exists>y. f x = Some y \<and> R x y) \<Longrightarrow> \<exists>ys. those (map f xs) = Some ys \<and> list_all2 R xs ys"
proof (induction xs)
  case (Cons x xs)
  then obtain y ys where "f x = Some y" "R x y" "those (map f xs) = Some ys" "list_all2 R xs ys" by fastforce
  then show ?case by auto
qed simp

lemma tr_refl: "analysable (length P) e \<Longrightarrow> tr P P' (erase e) (erase e)"
  "analysable_recs (length P) rs \<Longrightarrow> distinct (map rec_name rs) \<Longrightarrow> binding_of (erase_recs rs) x = Some v \<Longrightarrow> tr P P' v v"
proof (induction e and rs arbitrary: and x v rule: erase_erase_recs.induct)
  case (3 l rs b)
  have "tr P P' (apps (LetrecNode l (erase_recs rs) (erase b)) []) (LetrecNode l (erase_recs rs) (erase b))"
    using 3 by (intro tr.recs) auto
  then show ?case by simp
qed (auto intro: tr.app tr.sym tr.scref tr.builtin tr.null tr.number tr.string simp: binding_of_def split: if_splits)

lemma good_reorderable: "good P P' e e' \<Longrightarrow> reorderable (length P) args e \<Longrightarrow> reorderable (length P) args e'"
  using distinct_sub [of "binders e" "binders e'"] set_sub [of "binders e'" "binders e"] by (auto simp: good_def reorderable_def)

text \<open>What the pass leaves of a supercombinator: everything but the body, and a body that is
  equivalent and again in the form the pass expects.\<close>

definition reordered :: "nat \<Rightarrow> fundef list \<Rightarrow> fundef list \<Rightarrow> scomb \<Rightarrow> scomb \<Rightarrow> bool" where
  "reordered n P P' sc sc' \<longleftrightarrow>
     (\<exists>e e'. sc_body sc = Some e \<and> sc' = sc\<lparr>sc_body := Some e'\<rparr> \<and> reorder_letrecs e = Some e' \<and> good P P' e e' \<and>
        reorderable n (sc_argnames sc) e')"

lemma reorder_all_returns:
  assumes "reorderable_program src" "letrecs_fit src"
  shows "\<exists>scs. reorder_all src = Some (src\<lparr>scombs := scs\<rparr>) \<and>
    list_all2 (reordered (length (scombs src)) (program_of src) (program_of (src\<lparr>scombs := scs\<rparr>))) (scombs src) scs"
proof -
  let ?n = "length (scombs src)"
  have len: "length (program_of src) = ?n" by (simp add: program_of_def)
  have one: "\<exists>sc'. reorder_scomb sc = Some sc' \<and> (\<forall>P'. reordered ?n (program_of src) P' sc sc')" if sc: "sc \<in> set (scombs src)" for sc
  proof -
    obtain e where e: "sc_body sc = Some e" "reorderable (length (program_of src)) (sc_argnames sc) e" "stack_room (letrecs e)"
      using assms sc unfolding len by (auto simp: reorderable_program_def letrecs_fit_def list_all_iff split: option.splits)
    from reorder_letrecs_good [OF e(2,3)] obtain e' where e': "reorder_letrecs e = Some e'" by blast
    have "good (program_of src) P' e e'" for P' using reorder_letrecs_good [OF e(2,3), of P'] e' by simp
    then show ?thesis using e e' good_reorderable [OF _ e(2)] unfolding reordered_def reorder_scomb_def len by auto
  qed
  from those_map_Some [of "scombs src" reorder_scomb "\<lambda>sc sc'. \<forall>P'. reordered ?n (program_of src) P' sc sc'"] one
  obtain scs where "those (map reorder_scomb (scombs src)) = Some scs" "list_all2 (\<lambda>sc sc'. \<forall>P'. reordered ?n (program_of src) P' sc sc') (scombs src) scs" by blast
  then show ?thesis by (auto simp: reorder_all_def elim!: list.rel_mono_strong)
qed

lemma reordered_prog_sim:
  assumes "list_all2 (reordered (length (scombs src)) (program_of src) (program_of src')) (scombs src) (scombs src')"
  shows "prog_sim (program_of src) (program_of src')"
  unfolding prog_sim_def
proof (intro allI impI)
  fix i assume "i < length (program_of src)"
  then have i: "i < length (scombs src)" by (simp add: program_of_def)
  with assms obtain e e' where e: "sc_body (scombs src ! i) = Some e" "scombs src' ! i = (scombs src ! i)\<lparr>sc_body := Some e'\<rparr>"
    "good (program_of src) (program_of src') e e'" "reorderable (length (scombs src)) (sc_argnames (scombs src ! i)) e'"
    by (auto simp: list_all2_conv_all_nth reordered_def)
  moreover have "i < length (scombs src')" using i assms by (simp add: list_all2_lengthD)
  ultimately show "fd_args (program_of src' ! i) = fd_args (program_of src ! i) \<and> fd_marks (program_of src' ! i) = fd_marks (program_of src ! i) \<and>
      tr (program_of src) (program_of src') (fd_body (program_of src ! i)) (fd_body (program_of src' ! i)) \<and>
      fv (fd_body (program_of src' ! i)) \<subseteq> set (fd_args (program_of src ! i))"
    using i by (simp add: program_of_def good_def reorderable_def split: option.splits)
qed

text \<open>C16: for a program in which no body holds more than 16384 letrec expressions, which is what the
  stack of enclosing letrecs can hold, letrec reordering ends. It changes nothing but the bodies, which stay well formed,
  and the program computes the same results: an expression over the supercombinators
  evaluates to a number, a string or nil after the pass exactly when it did before.\<close>

theorem reorder_letrecs_correct:
  assumes "reorderable_program src" "letrecs_fit src"
  shows "\<exists>scs. reorder_all src = Some (src\<lparr>scombs := scs\<rparr>) \<and> length scs = length (scombs src) \<and>
    (\<forall>i < length scs. \<exists>e'. scs ! i = (scombs src ! i)\<lparr>sc_body := Some e'\<rparr>) \<and>
    reorderable_program (src\<lparr>scombs := scs\<rparr>) \<and> letrecs_fit (src\<lparr>scombs := scs\<rparr>) \<and>
    (\<forall>e. analysable (length scs) e \<and> fv e = {} \<longrightarrow> same_results (program_of src) (program_of (src\<lparr>scombs := scs\<rparr>)) (erase e) (erase e))"
proof -
  from reorder_all_returns [OF assms] obtain scs where R: "reorder_all src = Some (src\<lparr>scombs := scs\<rparr>)"
    "list_all2 (reordered (length (scombs src)) (program_of src) (program_of (src\<lparr>scombs := scs\<rparr>))) (scombs src) scs" by blast
  let ?P = "program_of src" and ?P' = "program_of (src\<lparr>scombs := scs\<rparr>)"
  have len: "length scs = length (scombs src)" "length ?P = length scs" using R(2) by (simp_all add: list_all2_lengthD program_of_def)
  have "same_results ?P ?P' (erase e) (erase e)" if "analysable (length scs) e" "fv e = {}" for e
    using that len(2) reordered_prog_sim [of src "src\<lparr>scombs := scs\<rparr>"] R(2) by (intro simulation tr_refl) auto
  moreover have "reorderable_program (src\<lparr>scombs := scs\<rparr>)" unfolding reorderable_program_def list_all_length
    using R(2) len(1) by (fastforce simp: list_all2_conv_all_nth reordered_def)
  moreover have "letrecs_fit (src\<lparr>scombs := scs\<rparr>)" unfolding letrecs_fit_def list_all_length
    using R(2) len(1) assms(2) stack_room_mono by (fastforce simp: list_all2_conv_all_nth reordered_def good_def letrecs_fit_def list_all_length)
  moreover have "\<exists>e'. scs ! i = (scombs src ! i)\<lparr>sc_body := Some e'\<rparr>" if "i < length scs" for i
    using R(2) that by (auto simp: list_all2_conv_all_nth reordered_def)
  ultimately show ?thesis using R(1) len(1) by blast
qed

text \<open>\<^verbatim>\<open>f x = letrec c = + b 4; b = + a 3; a = + 1 2; d = c in * c x\<close>\<close>

definition reorder_example :: source where
  "reorder_example =
     (let call = (\<lambda>f a b. Application noloc False (Application noloc False (Builtin noloc f) a) b); var = Symbol noloc; num = Number noloc;
          rs = [Letrec ''c'' (call 0 (var ''b'') (num 4)) False None, Letrec ''b'' (call 0 (var ''a'') (num 3)) False None,
                Letrec ''a'' (call 0 (num 1) (num 2)) False None, Letrec ''d'' (var ''c'') False None]
      in source_new\<lparr>scombs := [scomb_zero\<lparr>sc_name := ''f'', sc_argnames := [''x''],
           sc_body := Some (LetrecNode noloc rs (call 2 (var ''c'') (var ''x'')))\<rparr>]\<rparr>)"

definition letrec_names :: "snode \<Rightarrow> string list" where
  "letrec_names e = (case e of LetrecNode l rs b \<Rightarrow> map rec_name rs | _ \<Rightarrow> [])"

theorem reorder_letrecs_correct_witness:
  "\<exists>scs. reorder_all reorder_example = Some (reorder_example\<lparr>scombs := scs\<rparr>) \<and> map (\<lambda>sc. map_option letrec_names (sc_body sc)) scs = [Some [''a'', ''b'', ''c'']] \<and>
     same_results (program_of reorder_example) (program_of (reorder_example\<lparr>scombs := scs\<rparr>))
       (Application noloc False (Scref noloc 0) (Number noloc 5)) (Application noloc False (Scref noloc 0) (Number noloc 5))"
proof -
  have h: "reorderable_program reorder_example" "letrecs_fit reorder_example" by code_simp+
  from reorder_letrecs_correct [OF h] obtain scs where
    R: "reorder_all reorder_example = Some (reorder_example\<lparr>scombs := scs\<rparr>)" "length scs = length (scombs reorder_example)"
      "\<And>e. analysable (length scs) e \<Longrightarrow> fv e = {} \<Longrightarrow> same_results (program_of reorder_example) (program_of (reorder_example\<lparr>scombs := scs\<rparr>)) (erase e) (erase e)"
    by blast
  have names: "map_option (\<lambda>s. map (\<lambda>sc. map_option letrec_names (sc_body sc)) (scombs s)) (reorder_all reorder_example) = Some [Some [''a'', ''b'', ''c'']]" by code_simp
  have "length (scombs reorder_example) = 1" by code_simp
  then have "same_results (program_of reorder_example) (program_of (reorder_example\<lparr>scombs := scs\<rparr>))
      (Application noloc False (Scref noloc 0) (Number noloc 5)) (Application noloc False (Scref noloc 0) (Number noloc 5))"
    using R(2) R(3) [of "Application noloc False (Scref noloc 0) (Number noloc 5)"] by simp
  with R(1) names show ?thesis by auto
qed

text \<open>The new order is the reverse of the order in which the traversal meets the names. It is not
  an order of dependencies: in \<^verbatim>\<open>letrec a = + 1 2; b = + a 3 in * a b\<close> the binding of \<^verbatim>\<open>b\<close>, which
  needs \<^verbatim>\<open>a\<close>, is moved before that of \<^verbatim>\<open>a\<close>.\<close>

lemma reorder_not_dependency_order:
  "map_option letrec_names (reorder_letrecs
     (let call = (\<lambda>f a b. Application noloc False (Application noloc False (Builtin noloc f) a) b); var = Symbol noloc; num = Number noloc
      in LetrecNode noloc [Letrec ''a'' (call 0 (num 1) (num 2)) False None, Letrec ''b'' (call 0 (var ''a'') (num 3)) False None]
           (call 2 (var ''a'') (var ''b'')))) = Some [''b'', ''a'']"
  by code_simp

end
