(* ===== verification/App_Lifting.thy ===== *)
theory App_Lifting
  imports Reorder "HOL-Library.Sublist"
begin

text \<open>
  Moving expressions into supercombinators of their own, the second half of \<^verbatim>\<open>compiler/lifting.c\<close>:
  \<^verbatim>\<open>lift_expr\<close> and the two passes that use it, application lifting (\<^verbatim>\<open>applift\<close>), which also moves
  letrecs out of the heads of applications, and the lifting of non-strict expressions
  (\<^verbatim>\<open>nonstrict_lift\<close>). A pointer to the place of an expression becomes a returned expression; the
  test whether that place is the body of the supercombinator is the flag \<open>root\<close>. The names to ignore
  are a bounded stack: more than \<^const>\<open>STACK_MAX\<close> of them in scope end the process (\<open>None\<close>).
\<close>

subsection \<open>Moving one expression\<close>

fun find_vars :: "snode \<Rightarrow> string list \<Rightarrow> string list \<Rightarrow> string list option"
  and find_vars_recs :: "letrec list \<Rightarrow> string list \<Rightarrow> string list \<Rightarrow> string list option" where
  "find_vars (Application l s a b) names ignore = do { names1 \<leftarrow> find_vars a names ignore; find_vars b names1 ignore }"
| "find_vars (Symbol l x) names ignore =
     (if list_contains_string (map Some names) (Some x) then Some names
      else if x \<in> set ignore then Some names
      else Some (list_push names x))"
| "find_vars (LetrecNode l rs b) names ignore =
     do { ignore1 \<leftarrow> push_items ignore (map rec_name rs);
          names1 \<leftarrow> find_vars_recs rs names ignore1;
          find_vars b names1 ignore1 }"
| "find_vars (Builtin l b) names ignore = Some names"
| "find_vars (Scref l i) names ignore = Some names"
| "find_vars (NilNode l) names ignore = Some names"
| "find_vars (Number l d) names ignore = Some names"
| "find_vars (StringNode l t) names ignore = Some names"
| "find_vars (Lambda l x b) names ignore = None"
| "find_vars (Empty l) names ignore = None"
| "find_vars (Wrap l t) names ignore = None"
| "find_vars_recs [] names ignore = Some names"
| "find_vars_recs (Letrec n v st sc # rs) names ignore = do { names1 \<leftarrow> find_vars v names ignore; find_vars_recs rs names1 ignore }"

text \<open>The call that replaces the expression: the new supercombinator applied to its arguments.\<close>

fun apply_vars :: "sourceloc \<Rightarrow> snode \<Rightarrow> string list \<Rightarrow> snode" where
  "apply_vars l e [] = e"
| "apply_vars l e (x # xs) = apply_vars l (Application l False e (Symbol l x)) xs"

definition lift_expr :: "source \<Rightarrow> nat \<Rightarrow> snode \<Rightarrow> (nat \<times> snode \<times> source) option" where
  "lift_expr src sci k =
     do { sc \<leftarrow> get_scomb_index src sci;
          let (i, src1) = add_scomb src (sc_name sc);
          vars \<leftarrow> find_vars k [] [];
          let args = rev vars;
          Some (i, apply_vars (sl k) (Scref (sl k) i) args,
                update_scomb src1 i (\<lambda>sc. sc\<lparr>sc_body := Some k, sc_sl := sl k, sc_argnames := args\<rparr>)) }"

definition set_body :: "source \<Rightarrow> nat \<Rightarrow> snode \<Rightarrow> source" where
  "set_body src i e = update_scomb src i (\<lambda>sc. sc\<lparr>sc_body := Some e\<rparr>)"

subsection \<open>Application lifting\<close>

fun replace_head :: "snode \<Rightarrow> snode \<Rightarrow> snode" where
  "replace_head (Application l s a b) h = Application l s (replace_head a h) b"
| "replace_head e h = h"

fun letrec_head :: "snode \<Rightarrow> (sourceloc \<times> letrec list \<times> snode) option" where
  "letrec_head (Application l s a b) = letrec_head a"
| "letrec_head (LetrecNode l rs b) = Some (l, rs, b)"
| "letrec_head e = None"

definition must_lift :: "source \<Rightarrow> snode \<Rightarrow> nat \<Rightarrow> bool option" where
  "must_lift src head nargs =
     (case head of
        Symbol l x \<Rightarrow> Some True
      | Scref l i \<Rightarrow> map_option (\<lambda>sc. sc_nargs sc < nargs) (get_scomb_index src i)
      | Builtin l b \<Rightarrow> if b < NUM_BUILTINS then Some (bi_nargs (builtin_info ! b) < nargs) else None
      | _ \<Rightarrow> Some False)"

lemma nodes_replace_head: "nodes (replace_head e h) + nodes (spine_head e) = nodes e + nodes h"
  by (induction e h rule: replace_head.induct) auto

lemma letrec_head_iff: "letrec_head e = Some (l, rs, b) \<longleftrightarrow> spine_head e = LetrecNode l rs b"
  by (induction e rule: letrec_head.induct) auto

lemma nodes_float: "letrec_head e = Some (l, rs, b) \<Longrightarrow> nodes (LetrecNode l rs (replace_head e b)) = nodes e"
  using nodes_replace_head [of e b] by (simp add: letrec_head_iff)

function (sequential) applift_r :: "source \<Rightarrow> nat \<Rightarrow> bool \<Rightarrow> snode \<Rightarrow> (source \<times> snode) option"
  and applift_args :: "source \<Rightarrow> nat \<Rightarrow> snode \<Rightarrow> (source \<times> snode) option"
  and applift_recs :: "source \<Rightarrow> nat \<Rightarrow> letrec list \<Rightarrow> (source \<times> letrec list) option" where
  "applift_r src sci root (Application l s a b) =
     (case letrec_head (Application l s a b) of
        Some (l1, rs, b1) \<Rightarrow> applift_r src sci root (LetrecNode l1 rs (replace_head (Application l s a b) b1))
      | None \<Rightarrow>
          do { lifting \<leftarrow> must_lift src (spine_head a) (Suc (spine_len a));
               if lifting then
                 if root then applift_args src sci (Application l s a b)
                 else do { (i, k, src1) \<leftarrow> lift_expr src sci (Application l s a b);
                           (src2, body) \<leftarrow> applift_r src1 i True (Application l s a b);
                           Some (set_body src2 i body, k) }
               else do { (src1, a') \<leftarrow> applift_r src sci False a;
                         (src2, b') \<leftarrow> applift_r src1 sci False b;
                         Some (src2, Application l s a' b') } })"
| "applift_r src sci root (LetrecNode l rs b) =
     do { (src1, rs') \<leftarrow> applift_recs src sci rs;
          (src2, b') \<leftarrow> applift_r src1 sci False b;
          Some (src2, LetrecNode l rs' b') }"
| "applift_r src sci root e = Some (src, e)"
| "applift_args src sci (Application l s a b) =
     do { (src1, b') \<leftarrow> applift_r src sci False b;
          (src2, a') \<leftarrow> applift_args src1 sci a;
          Some (src2, Application l s a' b') }"
| "applift_args src sci e = Some (src, e)"
| "applift_recs src sci [] = Some (src, [])"
| "applift_recs src sci (Letrec n v st sc # rs) =
     do { (src1, v') \<leftarrow> applift_r src sci False v;
          (src2, rs') \<leftarrow> applift_recs src1 sci rs;
          Some (src2, Letrec n v' st sc # rs') }"
  by pat_completeness auto

termination
  by (relation "measure (case_sum (\<lambda>(src, sci, root, e). 4 * nodes e + (if root then 0 else 2) + (case e of Application l s a b \<Rightarrow> 1 | _ \<Rightarrow> 0))
       (case_sum (\<lambda>(src, sci, e). 4 * nodes e) (\<lambda>(src, sci, rs). 4 * nodes_recs rs)))")
    (auto dest!: nodes_float split: snode.splits)

definition applift :: "source \<Rightarrow> nat \<Rightarrow> source option" where
  "applift src sci =
     do { sc \<leftarrow> get_scomb_index src sci;
          body \<leftarrow> sc_body sc;
          (src1, body') \<leftarrow> applift_r src sci True body;
          Some (set_body src1 sci body') }"

fun applift_all :: "source \<Rightarrow> nat list \<Rightarrow> source option" where
  "applift_all src [] = Some src"
| "applift_all src (i # is) = do { src1 \<leftarrow> applift src i; applift_all src1 is }"

subsection \<open>Trees as heads and operands\<close>

fun spine_ops :: "snode \<Rightarrow> (sourceloc \<times> bool \<times> snode) list" where
  "spine_ops (Application l s a b) = spine_ops a @ [(l, s, b)]"
| "spine_ops e = []"

lemma apps_spine: "apps (spine_head e) (spine_ops e) = e"
  by (induction e rule: spine_ops.induct) (simp_all add: apps_append)

lemma replace_head_apps: "replace_head e h = apps h (spine_ops e)"
  by (induction e h rule: replace_head.induct) (simp_all add: apps_append)

lemma erase_apps: "erase (apps h as) = apps (erase h) (map (\<lambda>(l, s, a). (l, False, erase a)) as)"
  by (induction h as rule: apps.induct) auto

lemma binders_apps: "mset (binders (apps h as)) = mset (binders h) + mset (concat (map binders (operands as)))"
  by (induction h as rule: apps.induct) auto

lemma analysable_apps: "analysable n (apps h as) \<longleftrightarrow> analysable n h \<and> list_all (analysable n) (operands as)"
  by (induction h as rule: apps.induct) auto

lemma apply_vars_apps: "apply_vars l e xs = apps e (map (\<lambda>x. (l, False, Symbol l x)) xs)"
  by (induction l e xs rule: apply_vars.induct) auto

text \<open>Different binders, none of them free: what moving letrecs outwards needs; and few enough for the stack of \<^const>\<open>find_vars\<close>.\<close>

definition clean :: "snode \<Rightarrow> bool" where
  "clean e \<longleftrightarrow> distinct (binders e) \<and> set (binders e) \<inter> fv e = {} \<and> stack_room (length (binders e))"

definition clean_recs :: "letrec list \<Rightarrow> bool" where
  "clean_recs rs \<longleftrightarrow> distinct (binders_recs rs) \<and> set (binders_recs rs) \<inter> fv_recs rs = {} \<and> stack_room (length (binders_recs rs))"

lemma clean_letrec: "clean (LetrecNode l rs b) \<Longrightarrow> clean_recs rs \<and> clean b"
proof -
  assume c: "clean (LetrecNode l rs b)"
  define N where "N = set (map rec_name rs)"
  from c have "distinct (binders_recs rs)" "distinct (binders b)" "N \<inter> (set (binders_recs rs) \<union> set (binders b)) = {}"
    "(set (binders_recs rs) \<union> set (binders b)) \<inter> ((fv_recs rs \<union> fv b) - N) = {}"
    by (auto simp: clean_def N_def)
  moreover have "stack_room (length (binders_recs rs))" "stack_room (length (binders b))"
    using c stack_room_mono [of "length (binders (LetrecNode l rs b))"] by (simp_all add: clean_def)
  ultimately show ?thesis unfolding clean_def clean_recs_def by blast
qed

lemma clean_parts:
  "clean (Application l s a b) \<Longrightarrow> clean a \<and> clean b"
  "clean_recs (Letrec n v st sc # rs) \<Longrightarrow> clean v \<and> clean_recs rs"
  by (auto simp: clean_def clean_recs_def elim: stack_room_mono)

lemma clean_float:
  assumes "letrec_head e = Some (l, rs, b)" "clean e"
  shows "\<Union> (fv ` set (operands (spine_ops e))) \<inter> set (map rec_name rs) = {}" "clean (LetrecNode l rs (replace_head e b))"
    "fv (LetrecNode l rs (replace_head e b)) = fv e" "mset (binders (LetrecNode l rs (replace_head e b))) = mset (binders e)"
    "analysable n e \<Longrightarrow> analysable n (LetrecNode l rs (replace_head e b))"
proof -
  have e: "e = apps (LetrecNode l rs b) (spine_ops e)" using apps_spine [of e] assms(1) by (simp add: letrec_head_iff)
  have fv: "fv e = fv (LetrecNode l rs b) \<union> \<Union> (fv ` set (operands (spine_ops e)))" by (subst e) simp
  have bd: "mset (binders e) = mset (binders (LetrecNode l rs b)) + mset (concat (map binders (operands (spine_ops e))))"
    by (subst e) (rule binders_apps)
  then have names: "set (map rec_name rs) \<subseteq> set (binders e)" using set_sub [of "map rec_name rs" "binders e"] by (simp del: set_map)
  then show disj: "\<Union> (fv ` set (operands (spine_ops e))) \<inter> set (map rec_name rs) = {}" using assms(2) fv unfolding clean_def by blast
  show fv': "fv (LetrecNode l rs (replace_head e b)) = fv e" unfolding fv replace_head_apps using disj by (auto simp del: set_map)
  show eq: "mset (binders (LetrecNode l rs (replace_head e b))) = mset (binders e)" unfolding bd by (simp add: replace_head_apps binders_apps)
  have "distinct (binders (LetrecNode l rs (replace_head e b)))" by (rule distinct_sub [of "binders e"]) (use assms(2) eq in \<open>simp_all only: clean_def subset_mset.order_refl\<close>)
  then show "clean (LetrecNode l rs (replace_head e b))" using assms(2) unfolding clean_def fv' mset_eq_setD [OF eq] mset_eq_length [OF eq] by blast
  show "analysable n e \<Longrightarrow> analysable n (LetrecNode l rs (replace_head e b))"
    by (subst (asm) e) (simp add: analysable_apps replace_head_apps)
qed

lemma tr_letrec_inv:
  assumes "tr P P' (LetrecNode l rs b) (LetrecNode l' rs' t')"
  shows "tr P P' b t'" "recs_rel P P' rs rs' (fv t')"
proof -
  have no_app: "apps (LetrecNode l1 rs1 b1) as = LetrecNode l rs b \<Longrightarrow> as = [] \<and> l1 = l \<and> rs1 = rs \<and> b1 = b" for l1 rs1 b1 as
  proof (induction as rule: rev_induct)
    case (snoc a as)
    then show ?case by (cases a) (simp add: apps_append)
  qed simp
  have no_call: "apps (Scref l1 i) as \<noteq> LetrecNode l' rs' t'" for l1 i as
  proof (induction as rule: rev_induct)
    case (snoc a as)
    then show ?case by (cases a) (simp add: apps_append)
  qed simp
  from assms have "tr P P' b t' \<and> recs_rel P P' rs rs' (fv t')"
  proof cases
    case (recs b1 as rs1 l1)
    with no_app [of l1 rs1 b1 as] show ?thesis unfolding recs_rel_def by auto
  qed (use no_call in metis)+
  then show "tr P P' b t'" "recs_rel P P' rs rs' (fv t')" by auto
qed

lemma tr_float:
  assumes "tr P P' (LetrecNode l rs (apps b as)) (LetrecNode l' rs' t')" "\<Union> (fv ` set (operands as)) \<inter> set (map rec_name rs) = {}"
  shows "tr P P' (apps (LetrecNode l rs b) as) (LetrecNode l' rs' t')"
  using tr_letrec_inv [OF assms(1)] assms(2) unfolding recs_rel_def by (intro tr.recs) auto

subsection \<open>The new supercombinator\<close>

lemma find_vars_spec:
  "analysable n e \<Longrightarrow> stack_room (length ignore + length (binders e)) \<Longrightarrow> \<exists>names'. find_vars e names ignore = Some names' \<and> set names' = set names \<union> (fv e - set ignore) \<and>
     (distinct names \<longrightarrow> distinct names')"
  "analysable_recs n rs \<Longrightarrow> stack_room (length ignore + length (binders_recs rs)) \<Longrightarrow> \<exists>names'. find_vars_recs rs names ignore = Some names' \<and> set names' = set names \<union> (fv_recs rs - set ignore) \<and>
     (distinct names \<longrightarrow> distinct names')"
proof (induction e names ignore and rs names ignore rule: find_vars_find_vars_recs.induct)
  case (1 l s a b names ignore)
  have room: "stack_room (length ignore + length (binders a))" "stack_room (length ignore + length (binders b))"
    using stack_room_mono [OF "1.prems"(2)] by simp_all
  with 1 obtain n1 where n1: "find_vars a names ignore = Some n1" "set n1 = set names \<union> (fv a - set ignore)" "distinct names \<longrightarrow> distinct n1" by auto
  with 1 room obtain n2 where "find_vars b n1 ignore = Some n2" "set n2 = set n1 \<union> (fv b - set ignore)" "distinct n1 \<longrightarrow> distinct n2" by fastforce
  with n1 show ?case by auto
next
  case (3 l rs b names ignore)
  let ?ign = "rev (map rec_name rs) @ ignore"
  have push: "push_items ignore (map rec_name rs) = Some ?ign"
    by (rule push_items_room [of _ _ "length (binders_recs rs) + length (binders b)"]) (use "3.prems"(2) in \<open>simp add: add.assoc\<close>)
  have room: "stack_room (length ?ign + length (binders_recs rs))" "stack_room (length ?ign + length (binders b))"
    using stack_room_mono [OF "3.prems"(2)] by simp_all
  from "3.IH"(1) [OF push _ room(1)] "3.prems"(1) obtain n1 where n1: "find_vars_recs rs names ?ign = Some n1"
    "set n1 = set names \<union> (fv_recs rs - set ?ign)" "distinct names \<longrightarrow> distinct n1" by auto
  from "3.IH"(2) [OF push n1(1) _ room(2)] "3.prems"(1) obtain n2 where "find_vars b n1 ?ign = Some n2"
    "set n2 = set n1 \<union> (fv b - set ?ign)" "distinct n1 \<longrightarrow> distinct n2" by auto
  with n1 push show ?case by auto
next
  case (13 x v st sc rs names ignore)
  have room: "stack_room (length ignore + length (binders v))" "stack_room (length ignore + length (binders_recs rs))"
    using stack_room_mono [OF "13.prems"(2)] by simp_all
  with 13 obtain n1 where n1: "find_vars v names ignore = Some n1" "set n1 = set names \<union> (fv v - set ignore)" "distinct names \<longrightarrow> distinct n1" by auto
  with 13 room obtain n2 where "find_vars_recs rs n1 ignore = Some n2" "set n2 = set n1 \<union> (fv_recs rs - set ignore)" "distinct n1 \<longrightarrow> distinct n2" by fastforce
  with n1 show ?case by auto
qed (auto simp: list_push_def)

lemma lift_expr_spec:
  assumes "source_ok src" "sci < length (scombs src)" "analysable n k" "clean k"
  obtains args sc src1 where
    "lift_expr src sci k = Some (length (scombs src), apply_vars (sl k) (Scref (sl k) (length (scombs src))) args, src1)"
    "scombs src1 = scombs src @ [sc]" "source_ok src1" "sc_argnames sc = args" "sc_body sc = Some k" "sc_strictin sc = None" "sc_lazyin sc = None"
    "distinct args" "set args = fv k" "sc_sl sc = sl k"
proof -
  let ?n = "length (scombs src)"
  let ?name = "sc_name (scombs src ! sci)"
  obtain i src0 where add: "add_scomb src ?name = (i, src0)" by (cases "add_scomb src ?name")
  obtain vars where vars: "find_vars k [] [] = Some vars" "set vars = fv k" "distinct vars" using find_vars_spec(1) [OF assms(3), of "[]" "[]"] assms(4) by (auto simp: clean_def)
  let ?f = "\<lambda>sc. sc\<lparr>sc_body := Some k, sc_sl := sl k, sc_argnames := rev vars\<rparr>"
  have "i = ?n" and "\<exists>nm. scombs src0 = scombs src @ [scomb_zero\<lparr>sc_name := nm, sc_sl := noloc\<rparr>]" using add by (auto simp: add_scomb_def Let_def)
  then obtain nm where s0: "scombs src0 = scombs src @ [scomb_zero\<lparr>sc_name := nm, sc_sl := noloc\<rparr>]" by blast
  have ok0: "source_ok src0" using sct.add_names [OF assms(1) add] by blast
  show ?thesis
  proof (rule that [of "rev vars" "update_scomb src0 ?n ?f" "?f (scomb_zero\<lparr>sc_name := nm, sc_sl := noloc\<rparr>)"])
    show "lift_expr src sci k = Some (?n, apply_vars (sl k) (Scref (sl k) ?n) (rev vars), update_scomb src0 ?n ?f)"
      using assms(2) add \<open>i = ?n\<close> vars(1) by (simp add: lift_expr_def get_scomb_index_def Let_def)
    show "source_ok (update_scomb src0 ?n ?f)" by (rule source_ok_update [OF ok0]) (simp_all add: s0)
  qed (use s0 vars in \<open>simp_all add: update_scomb_def scomb_zero_def\<close>)
qed

subsection \<open>The form of the trees afterwards\<close>

text \<open>Arguments, bindings and letrec bodies only hold calls of a known function with at most as many
  arguments as it takes; only the body of a supercombinator may be another application.\<close>

lemma letrec_head_None: "letrec_head e = None \<longleftrightarrow> (\<forall>l rs b. spine_head e \<noteq> LetrecNode l rs b)"
  by (induction e rule: letrec_head.induct) auto

definition head_ok :: "source \<Rightarrow> snode \<Rightarrow> nat \<Rightarrow> bool" where
  "head_ok src head nargs =
     (case head of
        Scref l i \<Rightarrow> i < length (scombs src) \<and> nargs \<le> length (sc_argnames (scombs src ! i))
      | Builtin l b \<Rightarrow> b < NUM_BUILTINS \<and> nargs \<le> bi_nargs (builtin_info ! b)
      | Symbol l x \<Rightarrow> False
      | LetrecNode l rs b \<Rightarrow> False
      | _ \<Rightarrow> True)"

lemma head_ok_iff: "head_ok src (spine_head a) m \<longleftrightarrow> letrec_head a = None \<and> must_lift src (spine_head a) m = Some False"
  unfolding letrec_head_None by (cases "spine_head a") (auto simp: head_ok_def must_lift_def get_scomb_index_def)

fun arg_form :: "source \<Rightarrow> snode \<Rightarrow> bool" and recs_form :: "source \<Rightarrow> letrec list \<Rightarrow> bool" where
  "arg_form src (Application l s a b) \<longleftrightarrow> head_ok src (spine_head a) (Suc (spine_len a)) \<and> arg_form src a \<and> arg_form src b"
| "arg_form src (LetrecNode l rs b) \<longleftrightarrow> recs_form src rs \<and> arg_form src b"
| "arg_form src e \<longleftrightarrow> True"
| "recs_form src [] \<longleftrightarrow> True"
| "recs_form src (Letrec n v st sc # rs) \<longleftrightarrow> arg_form src v \<and> recs_form src rs"

definition body_form :: "source \<Rightarrow> snode \<Rightarrow> bool" where
  "body_form src e \<longleftrightarrow> arg_form src e \<or> (letrec_head e = None \<and> list_all (arg_form src) (spine_args e))"

definition wider :: "source \<Rightarrow> source \<Rightarrow> bool" where
  "wider src src' \<longleftrightarrow> prefix (map sc_argnames (scombs src)) (map sc_argnames (scombs src'))"

lemma wider_nth:
  assumes "wider src src'" "i < length (scombs src)"
  shows "i < length (scombs src')" "sc_argnames (scombs src' ! i) = sc_argnames (scombs src ! i)"
proof -
  obtain z where z: "map sc_argnames (scombs src') = map sc_argnames (scombs src) @ z" using assms(1) by (auto simp: wider_def prefix_def)
  from arg_cong [OF z, of length] show i: "i < length (scombs src')" using assms(2) by simp
  from arg_cong [OF z, of "\<lambda>xs. xs ! i"] show "sc_argnames (scombs src' ! i) = sc_argnames (scombs src ! i)" using assms(2) i by (simp add: nth_append)
qed

lemma wider_trans: "wider a b \<Longrightarrow> wider b c \<Longrightarrow> wider a c"
  unfolding wider_def by (rule prefix_order.trans)

lemma wider_length: "wider a b \<Longrightarrow> length (scombs a) \<le> length (scombs b)"
  unfolding wider_def by (drule prefix_length_le) simp

lemma prefix_wider: "prefix (scombs src) (scombs src') \<Longrightarrow> wider src src'"
  by (auto simp: wider_def prefix_def)

lemma set_body_wider: "i < length (scombs src) \<Longrightarrow> map sc_argnames (scombs (set_body src i e)) = map sc_argnames (scombs src)"
  by (simp add: set_body_def update_scomb_def map_update) (metis length_map list_update_id nth_map)

lemma must_lift_wider: "wider src src' \<Longrightarrow> must_lift src h m = Some b \<Longrightarrow> must_lift src' h m = Some b"
  by (auto simp: must_lift_def get_scomb_index_def wider_nth split: snode.splits if_splits)

lemma arg_form_wider: "wider src src' \<Longrightarrow> arg_form src e \<Longrightarrow> arg_form src' e"
  "wider src src' \<Longrightarrow> recs_form src rs \<Longrightarrow> recs_form src' rs"
  by (induction src e and src rs rule: arg_form_recs_form.induct) (auto simp: head_ok_iff dest: must_lift_wider)

lemma body_form_wider: "wider src src' \<Longrightarrow> body_form src e \<Longrightarrow> body_form src' e"
  by (auto simp: body_form_def list_all_iff arg_form_wider)

lemma analysable_mono: "analysable n e \<Longrightarrow> n \<le> m \<Longrightarrow> analysable m e" "analysable_recs n rs \<Longrightarrow> n \<le> m \<Longrightarrow> analysable_recs m rs"
  by (induction n e and n rs rule: analysable_analysable_recs.induct) auto

lemma analysable_head: "analysable n e \<Longrightarrow> analysable n (spine_head e)"
  by (induction e rule: spine_ops.induct) simp_all

lemma must_lift_total: "analysable n (spine_head e) \<Longrightarrow> n \<le> length (scombs src) \<Longrightarrow> \<exists>b. must_lift src (spine_head e) m = Some b"
  by (cases "spine_head e") (auto simp: must_lift_def get_scomb_index_def)

lemma must_lift_fewer: "must_lift src h (Suc m) = Some False \<Longrightarrow> must_lift src h m = Some False"
  by (auto simp: must_lift_def split: snode.splits if_splits)

subsection \<open>What the passes achieve\<close>

definition fundef_of :: "scomb \<Rightarrow> fundef" where
  "fundef_of sc =
     \<lparr>fd_args = sc_argnames sc, fd_body = (case sc_body sc of Some e \<Rightarrow> erase e | None \<Rightarrow> Empty noloc),
      fd_marks = (case sc_strictin sc of Some st \<Rightarrow> st | None \<Rightarrow> replicate (sc_nargs sc) False)\<rparr>"

lemma program_of_nth: "i < length (scombs src) \<Longrightarrow> program_of src ! i = fundef_of (scombs src ! i)"
  by (simp add: program_of_def fundef_of_def)

definition agrees :: "source \<Rightarrow> source \<Rightarrow> fundef list \<Rightarrow> bool" where
  "agrees src src' P' \<longleftrightarrow> (\<forall>i. length (scombs src) \<le> i \<and> i < length (scombs src') \<longrightarrow> P' ! i = fundef_of (scombs src' ! i))"

definition closed_sc :: "nat \<Rightarrow> scomb \<Rightarrow> bool" where
  "closed_sc n sc \<longleftrightarrow> (\<exists>e. sc_body sc = Some e \<and> analysable n e \<and> fv e = set (sc_argnames sc) \<and> distinct (sc_argnames sc @ binders e) \<and> stack_room (length (binders e)))"

text \<open>\<open>Q\<close> says what else is known of the new supercombinators.\<close>

definition lasting :: "(source \<Rightarrow> scomb \<Rightarrow> bool) \<Rightarrow> bool" where
  "lasting Q \<longleftrightarrow> (\<forall>src src' sc. wider src src' \<longrightarrow> Q src sc \<longrightarrow> Q src' sc)"

definition grows :: "(source \<Rightarrow> scomb \<Rightarrow> bool) \<Rightarrow> source \<Rightarrow> source \<Rightarrow> bool" where
  "grows Q src src' \<longleftrightarrow> prefix (scombs src) (scombs src') \<and> source_ok src' \<and>
     list_all (\<lambda>sc. closed_sc (length (scombs src')) sc \<and> Q src' sc) (drop (length (scombs src)) (scombs src'))"

definition translates :: "fundef list \<Rightarrow> source \<Rightarrow> source \<Rightarrow> snode \<Rightarrow> snode \<Rightarrow> bool" where
  "translates P src src' e e' \<longleftrightarrow> fv e' = fv e \<and> analysable (length (scombs src')) e' \<and> mset (binders e') \<subseteq># mset (binders e) \<and>
     (\<forall>P'. agrees src src' P' \<longrightarrow> tr P P' (erase e) (erase e'))"

lemma closed_sc_mono: "closed_sc n sc \<Longrightarrow> n \<le> m \<Longrightarrow> closed_sc m sc"
  unfolding closed_sc_def using analysable_mono(1) by blast

lemma growsD: "grows Q src src' \<Longrightarrow> wider src src' \<and> source_ok src' \<and> length (scombs src) \<le> length (scombs src')"
  by (auto simp: grows_def prefix_wider prefix_length_le)

lemma grows_refl: "source_ok src \<Longrightarrow> grows Q src src"
  by (simp add: grows_def)

lemma grows_trans:
  assumes "lasting Q" "grows Q a b" "grows Q b c"
  shows "grows Q a c"
proof -
  obtain x y where x: "scombs b = scombs a @ x" "scombs c = (scombs a @ x) @ y" using assms(2,3) by (auto simp: grows_def prefix_def)
  moreover have "Q b sc \<Longrightarrow> Q c sc" for sc using assms(1) growsD [OF assms(3)] by (auto simp: lasting_def)
  ultimately show "grows Q a c" using assms(2,3) by (auto simp: grows_def list_all_iff intro: closed_sc_mono)
qed

text \<open>A new supercombinator whose body is then rewritten, which may add more of them.\<close>

lemma grows_lifted:
  assumes "lasting Q" "scombs src1 = scombs src @ [sc]" "grows Q src1 src2" "src3 = update_scomb src2 (length (scombs src)) f"
    "sc_name (f sc) = sc_name sc" "sc_argnames (f sc) = sc_argnames sc" "closed_sc (length (scombs src2)) (f sc)" "Q src3 (f sc)"
  obtains z where "scombs src2 = scombs src @ sc # z" "scombs src3 = scombs src @ f sc # z" "grows Q src src3" "wider src2 src3"
proof -
  let ?i = "length (scombs src)"
  from assms(2,3) obtain z where z: "scombs src2 = scombs src @ sc # z" by (auto simp: grows_def prefix_def)
  have z3: "scombs src3 = scombs src @ f sc # z" by (simp add: assms(4) update_scomb_def z)
  have w: "wider src2 src3" by (simp add: wider_def z z3 assms(6))
  have "source_ok src3" unfolding assms(4) by (rule source_ok_update) (use assms(3,5) z in \<open>simp_all add: grows_def\<close>)
  moreover have "Q src2 q \<Longrightarrow> Q src3 q" for q using assms(1) w by (auto simp: lasting_def)
  moreover have "length (scombs src3) = length (scombs src2)" by (simp add: z z3)
  ultimately have g: "grows Q src src3" using assms(2,3,7,8) z3 z by (auto simp: grows_def list_all_iff)
  show ?thesis by (rule that [OF z z3 g w])
qed

lemma agrees_sub:
  assumes "agrees a c P'" "prefix (scombs a) (scombs b)" "prefix (scombs b) (scombs c)"
  shows "agrees a b P'" "agrees b c P'"
proof -
  obtain x y where x: "scombs b = scombs a @ x" "scombs c = (scombs a @ x) @ y" using assms(2,3) by (auto simp: prefix_def)
  show "agrees b c P'" using assms(1) x by (auto simp: agrees_def)
  show "agrees a b P'" unfolding agrees_def
  proof (intro allI impI)
    fix i assume i: "length (scombs a) \<le> i \<and> i < length (scombs b)"
    then have "scombs c ! i = scombs b ! i" "i < length (scombs c)" unfolding x by (auto simp: nth_append)
    with i assms(1) show "P' ! i = fundef_of (scombs b ! i)" by (simp add: agrees_def)
  qed
qed

lemma translates_later: "translates P a b e e' \<Longrightarrow> grows Q a b \<Longrightarrow> grows Q b c \<Longrightarrow> translates P a c e e'"
  unfolding translates_def using analysable_mono(1) agrees_sub(1) growsD by (metis grows_def)

lemma translates_earlier: "translates P b c e e' \<Longrightarrow> grows Q a b \<Longrightarrow> grows Q b c \<Longrightarrow> translates P a c e e'"
  unfolding translates_def using agrees_sub(2) by (metis grows_def)

lemma translates_leaf: "analysable (length P) e \<Longrightarrow> length P \<le> length (scombs src) \<Longrightarrow> translates P src src e e"
  unfolding translates_def using tr_refl(1) analysable_mono(1) by blast

lemma translates_app:
  "translates P src src' a a' \<Longrightarrow> translates P src src' b b' \<Longrightarrow> translates P src src' (Application l s a b) (Application l' s' a' b')"
  by (auto simp: translates_def intro: tr.app subset_mset.add_mono)

definition recs_to :: "fundef list \<Rightarrow> source \<Rightarrow> source \<Rightarrow> letrec list \<Rightarrow> letrec list \<Rightarrow> bool" where
  "recs_to P src src' = list_all2 (\<lambda>r r'. rec_name r' = rec_name r \<and> translates P src src' (rec_value r) (rec_value r'))"

lemma recs_to_names: "recs_to P src src' rs rs' \<Longrightarrow> map rec_name rs' = map rec_name rs"
  unfolding recs_to_def by (induction rule: list_all2_induct) auto

lemma recs_to_fv: "recs_to P src src' rs rs' \<Longrightarrow> fv_recs rs' = fv_recs rs \<and> analysable_recs (length (scombs src')) rs' \<and>
    mset (binders_recs rs') \<subseteq># mset (binders_recs rs)"
  unfolding recs_to_def
proof (induction rule: list_all2_induct)
  case (Cons r rs r' rs')
  then show ?case by (cases r; cases r') (auto simp: translates_def intro: subset_mset.add_mono)
qed simp

lemma recs_to_binding:
  "recs_to P src src' rs rs' \<Longrightarrow> binding_of rs' x = Some v' \<Longrightarrow> \<exists>v. binding_of rs x = Some v \<and> translates P src src' v v'"
  unfolding recs_to_def by (induction rule: list_all2_induct) (auto simp: binding_of_def split: if_splits)

lemma translates_letrec:
  assumes rs: "recs_to P src src' rs rs'" and b: "translates P src src' b b'" and an: "analysable (length P) (LetrecNode l rs b)"
  shows "translates P src src' (LetrecNode l rs b) (LetrecNode l rs' b')"
proof -
  note names = recs_to_names [OF rs] and fv = recs_to_fv [OF rs]
  have names': "rec_name ` set rs' = rec_name ` set rs" using arg_cong [OF names, of set] by simp
  have "tr P P' (apps (LetrecNode l (erase_recs rs) (erase b)) []) (LetrecNode l (erase_recs rs') (erase b'))"
    if P: "agrees src src' P'" for P'
  proof (rule tr.recs)
    show "tr P P' (apps (erase b) []) (erase b')" using b P by (simp add: translates_def)
    show "\<forall>x v'. binding_of (erase_recs rs') x = Some v' \<longrightarrow> (\<exists>v. binding_of (erase_recs rs) x = Some v \<and> tr P P' v v')"
      using recs_to_binding [OF rs] P by (fastforce simp: binding_of_erase translates_def)
  qed (simp_all add: fv names del: set_map)
  then show ?thesis using b fv an names by (simp add: translates_def names' subset_mset.add_mono)
qed

lemma translates_float:
  assumes "letrec_head e = Some (l, rs, b)" "clean e" "translates P src src' (LetrecNode l rs (replace_head e b)) (LetrecNode l' rs' t')"
  shows "translates P src src' e (LetrecNode l' rs' t')"
proof -
  note c = clean_float [OF assms(1,2)]
  let ?as = "map (\<lambda>(l, s, a). (l, False, erase a)) (spine_ops e)"
  have e: "erase e = apps (LetrecNode l (erase_recs rs) (erase b)) ?as"
    by (subst apps_spine [of e, symmetric]) (use assms(1) in \<open>simp add: letrec_head_iff erase_apps\<close>)
  have "\<Union> (fv ` set (operands ?as)) = \<Union> (fv ` set (operands (spine_ops e)))" by (induction "spine_ops e") auto
  then have "\<Union> (fv ` set (operands ?as)) \<inter> set (map rec_name (erase_recs rs)) = {}" using c(1) by (simp only: rec_name_erase)
  moreover have "tr P P' (LetrecNode l (erase_recs rs) (apps (erase b) ?as)) (erase (LetrecNode l' rs' t'))"
    if "agrees src src' P'" for P'
    using assms(3) that by (simp add: translates_def replace_head_apps erase_apps)
  ultimately have "tr P P' (erase e) (erase (LetrecNode l' rs' t'))" if "agrees src src' P'" for P'
    unfolding e erase.simps(3) using that by (intro tr_float) simp_all
  moreover have "mset (binders (LetrecNode l' rs' t')) \<subseteq># mset (binders e)" using assms(3) unfolding c(4) [symmetric] translates_def by blast
  ultimately show ?thesis using assms(3) c(3) by (simp add: translates_def)
qed

lemma translates_call:
  assumes "scombs src2 = scombs src @ sc # z" "scombs src3 = scombs src @ sc' # z" "scombs src1 = scombs src @ [sc]"
    "translates P src1 src2 k body" "sc_body sc' = Some body'" "erase body' = erase body" "sc_argnames sc' = args" "set args = fv k" "length P \<le> length (scombs src)"
    "\<And>j. j < length args \<Longrightarrow> fd_marks (fundef_of sc') ! j \<Longrightarrow> demands P (erase k) (args ! j)"
  shows "translates P src src3 k (apply_vars l (Scref l (length (scombs src))) args)"
proof -
  let ?i = "length (scombs src)" and ?as = "map (\<lambda>x. (l, False, Symbol l x)) args"
  have "tr P P' (erase k) (apps (Scref l ?i) ?as)" if P: "agrees src src3 P'" for P'
  proof (rule tr.lifted)
    have fd: "P' ! ?i = fundef_of sc'" using P assms(2) by (simp add: agrees_def)
    have body: "fd_body (P' ! ?i) = erase body" "fd_args (P' ! ?i) = args"
      using assms(5-7) by (simp_all add: fd fundef_of_def)
    have "agrees src1 src2 P'" unfolding agrees_def
    proof (intro allI impI)
      fix j assume j: "length (scombs src1) \<le> j \<and> j < length (scombs src2)"
      then have "scombs src2 ! j = scombs src3 ! j" "j < length (scombs src3)" "?i \<le> j"
        unfolding assms(1-3) by (auto simp: nth_append nth_Cons')
      then show "P' ! j = fundef_of (scombs src2 ! j)" using P by (simp add: agrees_def)
    qed
    then show "tr P P' (erase k) (fd_body (P' ! ?i))" using assms(4) by (simp add: body translates_def)
    show "fv (fd_body (P' ! ?i)) = set (fd_args (P' ! ?i))" using assms(4,8) by (simp add: body translates_def)
    show "list_all2 (\<lambda>x a. \<exists>l'. a = Symbol l' x) (fd_args (P' ! ?i)) (operands ?as)" by (simp add: body list_all2_conv_all_nth)
    show "\<forall>j < length (fd_args (P' ! ?i)). fd_marks (P' ! ?i) ! j \<longrightarrow> demands P (erase k) (fd_args (P' ! ?i) ! j)"
      using assms(10) by (simp add: body(2)) (simp add: fd)
  qed
  moreover have "erase (apply_vars l (Scref l ?i) args) = apps (Scref l ?i) ?as" by (simp add: apply_vars_apps erase_apps comp_def)
  moreover have "analysable (length (scombs src3)) (apply_vars l (Scref l ?i) args)" by (simp add: apply_vars_apps analysable_apps assms(2) list_all_iff)
  moreover have "fv (apply_vars l (Scref l ?i) args) = fv k" by (auto simp: apply_vars_apps assms(8))
  moreover have "binders (apply_vars l (Scref l ?i) args) = []" by (induction args rule: rev_induct) (simp_all add: apply_vars_apps apps_append)
  ultimately show ?thesis by (simp add: translates_def)
qed

lemma call_form:
  assumes "i < length (scombs src)" "length xs + m \<le> sc_nargs (scombs src ! i)" "spine_head e = Scref l i" "spine_len e = m" "arg_form src e"
  shows "arg_form src (apply_vars l' e xs)"
  using assms(2-)
proof (induction l' e xs arbitrary: m rule: apply_vars.induct)
  case (2 l' e x xs)
  have "letrec_head e = None" using 2(3) by (cases "letrec_head e") (auto simp: letrec_head_iff)
  with 2 assms(1) show ?case by (auto simp: head_ok_def must_lift_def get_scomb_index_def)
qed simp

subsection \<open>Application lifting keeps the meaning\<close>

definition new_sc :: "source \<Rightarrow> scomb \<Rightarrow> bool" where
  "new_sc src sc \<longleftrightarrow> sc_strictin sc = None \<and> pred_option (body_form src) (sc_body sc)"

lemma lasting_new_sc: "lasting new_sc"
  unfolding lasting_def new_sc_def using body_form_wider by (auto elim: option.pred_mono_strong)

definition applifted :: "fundef list \<Rightarrow> source \<Rightarrow> bool \<Rightarrow> snode \<Rightarrow> source \<Rightarrow> snode \<Rightarrow> bool" where
  "applifted P src root e src' e' \<longleftrightarrow> grows new_sc src src' \<and> translates P src src' e e' \<and>
     (if root then body_form src' e' else arg_form src' e') \<and>
     (letrec_head e = None \<longrightarrow> must_lift src (spine_head e) (spine_len e) = Some False \<longrightarrow> spine_head e' = spine_head e \<and> spine_len e' = spine_len e) \<and>
     (\<forall>l rs b. e = LetrecNode l rs b \<longrightarrow> (\<exists>rs' b'. e' = LetrecNode l rs' b'))"

definition args_lifted :: "fundef list \<Rightarrow> source \<Rightarrow> snode \<Rightarrow> source \<Rightarrow> snode \<Rightarrow> bool" where
  "args_lifted P src e src' e' \<longleftrightarrow> grows new_sc src src' \<and> translates P src src' e e' \<and>
     letrec_head e' = None \<and> list_all (arg_form src') (spine_args e') \<and> spine_head e' = spine_head e \<and> spine_len e' = spine_len e"

definition recs_lifted :: "fundef list \<Rightarrow> source \<Rightarrow> letrec list \<Rightarrow> source \<Rightarrow> letrec list \<Rightarrow> bool" where
  "recs_lifted P src rs src' rs' \<longleftrightarrow> grows new_sc src src' \<and> recs_to P src src' rs rs' \<and> recs_form src' rs'"

lemma recs_to_later:
  assumes "recs_to P a b rs rs'" "grows Q a b" "grows Q b c"
  shows "recs_to P a c rs rs'"
  using assms(1) unfolding recs_to_def by (rule list_all2_mono) (use translates_later assms(2,3) in blast)

lemma recs_to_earlier:
  assumes "recs_to P b c rs rs'" "grows Q a b" "grows Q b c"
  shows "recs_to P a c rs rs'"
  using assms(1) unfolding recs_to_def by (rule list_all2_mono) (use translates_earlier assms(2,3) in blast)

lemma applifted_app:
  assumes a: "applifted P src False a src1 a'" and b: "applifted P src1 False b src2 b'"
    and h: "letrec_head a = None" "must_lift src (spine_head a) (Suc (spine_len a)) = Some False"
  shows "applifted P src root (Application l s a b) src2 (Application l s a' b')"
proof -
  have g: "grows new_sc src src1" "grows new_sc src1 src2" and ta: "translates P src src1 a a'" and tb: "translates P src1 src2 b b'"
    and f: "arg_form src1 a'" "arg_form src2 b'" using a b by (auto simp: applifted_def)
  have s: "spine_head a' = spine_head a" "spine_len a' = spine_len a"
    using a h must_lift_fewer by (auto simp: applifted_def)
  note w = wider_trans [of src src1 src2]
  have "must_lift src2 (spine_head a') (Suc (spine_len a')) = Some False"
    unfolding s by (rule must_lift_wider [OF _ h(2)]) (use w g growsD in blast)
  moreover have "letrec_head a' = None" using h(1) s(1) by (simp add: letrec_head_None)
  ultimately have af: "arg_form src2 (Application l s a' b')" using f arg_form_wider(1) growsD [OF g(2)] by (auto simp: head_ok_iff)
  moreover have "translates P src src2 (Application l s a b) (Application l s a' b')"
    using translates_later [OF ta g] translates_earlier [OF tb g] by (rule translates_app)
  ultimately show ?thesis using grows_trans [OF lasting_new_sc g] s by (simp add: applifted_def body_form_def)
qed

lemma applifted_letrec:
  assumes rs: "recs_lifted P src rs src1 rs'" and b: "applifted P src1 False b src2 b'" and an: "analysable (length P) (LetrecNode l rs b)"
  shows "applifted P src root (LetrecNode l rs b) src2 (LetrecNode l rs' b')"
proof -
  have g: "grows new_sc src src1" "grows new_sc src1 src2" and tr: "recs_to P src src1 rs rs'" and tb: "translates P src1 src2 b b'"
    and f: "recs_form src1 rs'" "arg_form src2 b'" using rs b by (auto simp: applifted_def recs_lifted_def)
  have "arg_form src2 (LetrecNode l rs' b')" using f arg_form_wider(2) growsD [OF g(2)] by auto
  moreover have "translates P src src2 (LetrecNode l rs b) (LetrecNode l rs' b')"
    using recs_to_later [OF tr g] translates_earlier [OF tb g] an by (rule translates_letrec)
  ultimately show ?thesis using grows_trans [OF lasting_new_sc g] by (simp add: applifted_def body_form_def)
qed

lemma applifted_float:
  assumes "letrec_head (Application l s a b) = Some (l1, rs, b1)" "clean (Application l s a b)"
    "applifted P src root (LetrecNode l1 rs (replace_head (Application l s a b) b1)) src' e'"
  shows "applifted P src root (Application l s a b) src' e'"
proof -
  obtain rs' b' where "e' = LetrecNode l1 rs' b'" using assms(3) by (auto simp: applifted_def)
  with assms translates_float [OF assms(1,2), of P src src' l1 rs' b'] show ?thesis by (auto simp: applifted_def)
qed

lemma recs_lifted_Cons:
  assumes v: "applifted P src False v src1 v'" and rs: "recs_lifted P src1 rs src2 rs'"
  shows "recs_lifted P src (Letrec x v st sc # rs) src2 (Letrec x v' st sc # rs')"
proof -
  have g: "grows new_sc src src1" "grows new_sc src1 src2" and tv: "translates P src src1 v v'" and trs: "recs_to P src1 src2 rs rs'"
    and f: "arg_form src1 v'" "recs_form src2 rs'" using v rs by (auto simp: applifted_def recs_lifted_def)
  have "recs_to P src src2 (Letrec x v st sc # rs) (Letrec x v' st sc # rs')"
    using translates_later [OF tv g] recs_to_earlier [OF trs g] by (simp add: recs_to_def)
  then show ?thesis using grows_trans [OF lasting_new_sc g] f arg_form_wider(1) growsD [OF g(2)] by (auto simp: recs_lifted_def)
qed

lemma args_lifted_app:
  assumes b: "applifted P src False b src1 b'" and a: "args_lifted P src1 a src2 a'"
  shows "args_lifted P src (Application l s a b) src2 (Application l s a' b')"
proof -
  have g: "grows new_sc src src1" "grows new_sc src1 src2" and tb: "translates P src src1 b b'" and ta: "translates P src1 src2 a a'"
    and f: "arg_form src1 b'" "list_all (arg_form src2) (spine_args a')" using a b by (auto simp: applifted_def args_lifted_def)
  have "translates P src src2 (Application l s a b) (Application l s a' b')"
    using translates_earlier [OF ta g] translates_later [OF tb g] by (rule translates_app)
  then show ?thesis using a grows_trans [OF lasting_new_sc g] f arg_form_wider(1) growsD [OF g(2)] by (auto simp: args_lifted_def)
qed

lemma args_lifted_body: "args_lifted P src e src' e' \<Longrightarrow> must_lift src (spine_head e) (spine_len e) \<noteq> Some False \<Longrightarrow>
    (\<And>l rs b. e \<noteq> LetrecNode l rs b) \<Longrightarrow> applifted P src True e src' e'"
  by (auto simp: applifted_def args_lifted_def body_form_def)

lemma lift_body:
  assumes Q: "lasting Q" and k: "clean k" "length P \<le> length (scombs src)"
    and src1: "scombs src1 = scombs src @ [sc]" and sc: "sc_argnames sc = args" "distinct args" "set args = fv k"
    and r: "grows Q src1 src2" "translates P src1 src2 k body" "\<And>j. j < length args \<Longrightarrow> fd_marks (fundef_of sc) ! j \<Longrightarrow> demands P (erase k) (args ! j)"
      "Q (set_body src2 (length (scombs src)) body) (sc\<lparr>sc_body := Some body\<rparr>)"
  obtains z where "scombs (set_body src2 (length (scombs src)) body) = scombs src @ sc\<lparr>sc_body := Some body\<rparr> # z"
    "grows Q src (set_body src2 (length (scombs src)) body)"
    "translates P src (set_body src2 (length (scombs src)) body) k (apply_vars l (Scref l (length (scombs src))) args)"
proof -
  let ?f = "\<lambda>sc. sc\<lparr>sc_body := Some body\<rparr>" and ?src3 = "set_body src2 (length (scombs src)) body"
  have cl: "closed_sc (length (scombs src2)) (?f sc)" using r(2) sc k(1) distinct_sub [of "binders k" "binders body"] set_sub [of "binders body" "binders k"]
      size_mset_mono [of "mset (binders body)" "mset (binders k)"]
    by (auto simp: closed_sc_def translates_def clean_def elim!: stack_room_mono)
  obtain z where z: "scombs src2 = scombs src @ sc # z" "scombs ?src3 = scombs src @ ?f sc # z" and g3: "grows Q src ?src3"
    by (rule grows_lifted [OF Q src1 r(1) set_body_def _ _ cl r(4)]) simp_all
  have "translates P src ?src3 k (apply_vars l (Scref l (length (scombs src))) args)"
    by (rule translates_call [OF z src1 r(2), of body]) (use sc k(2) r(3) in \<open>simp_all add: fundef_of_def split: option.splits\<close>)
  with z(2) g3 show ?thesis by (rule that)
qed

lemma lift_app:
  assumes k: "clean k" and n: "length P \<le> length (scombs src)"
    and src1: "scombs src1 = scombs src @ [sc]" and sc: "sc_argnames sc = args" "sc_strictin sc = None" "distinct args" "set args = fv k"
    and r: "applifted P src1 True k src2 body"
    and lift: "must_lift src (spine_head k) (spine_len k) \<noteq> Some False" "\<And>l rs b. k \<noteq> LetrecNode l rs b"
  shows "applifted P src False k (set_body src2 (length (scombs src)) body) (apply_vars l (Scref l (length (scombs src))) args)"
proof -
  let ?i = "length (scombs src)" and ?src3 = "set_body src2 (length (scombs src)) body"
  have g: "grows new_sc src1 src2" and t: "translates P src1 src2 k body" and f: "body_form src2 body" using r by (auto simp: applifted_def)
  have i: "?i < length (scombs src2)" using growsD [OF g] src1 by simp
  have w: "wider src2 ?src3" unfolding wider_def set_body_wider [OF i] by simp
  have q: "new_sc ?src3 (sc\<lparr>sc_body := Some body\<rparr>)" using sc(2) body_form_wider [OF w f] by (simp add: new_sc_def)
  obtain z where z: "scombs ?src3 = scombs src @ sc\<lparr>sc_body := Some body\<rparr> # z" "grows new_sc src ?src3"
    "translates P src ?src3 k (apply_vars l (Scref l ?i) args)"
    by (rule lift_body [OF lasting_new_sc k n src1 sc(1,3,4) g t _ q]) (use sc(1,2) in \<open>simp add: fundef_of_def\<close>)
  moreover have "arg_form ?src3 (apply_vars l (Scref l ?i) args)"
    by (rule call_form [where i = ?i and m = 0]) (use sc(1) in \<open>simp_all add: z(1)\<close>)
  ultimately show ?thesis using lift by (simp add: applifted_def)
qed

lemma applift_r_ok:
  "source_ok src \<Longrightarrow> sci < length (scombs src) \<Longrightarrow> length P \<le> length (scombs src) \<Longrightarrow> analysable (length P) e \<Longrightarrow> clean e \<Longrightarrow>
     \<exists>src' e'. applift_r src sci root e = Some (src', e') \<and> applifted P src root e src' e'"
  "source_ok src \<Longrightarrow> sci < length (scombs src) \<Longrightarrow> length P \<le> length (scombs src) \<Longrightarrow> analysable (length P) e \<Longrightarrow> clean e \<Longrightarrow> letrec_head e = None \<Longrightarrow>
     \<exists>src' e'. applift_args src sci e = Some (src', e') \<and> args_lifted P src e src' e'"
  "source_ok src \<Longrightarrow> sci < length (scombs src) \<Longrightarrow> length P \<le> length (scombs src) \<Longrightarrow> analysable_recs (length P) rs \<Longrightarrow> clean_recs rs \<Longrightarrow>
     \<exists>src' rs'. applift_recs src sci rs = Some (src', rs') \<and> recs_lifted P src rs src' rs'"
proof (induction src sci root e and src sci e and src sci rs rule: applift_r_applift_args_applift_recs.induct)
  case (1 src sci root l s a b)
  let ?k = "Application l s a b"
  show ?case
  proof (cases "letrec_head ?k")
    case None
    have an: "analysable (length P) a" "analysable (length P) b" and cl: "clean a" "clean b" using "1.prems"(4) clean_parts(1) [OF "1.prems"(5)] by simp_all
    obtain lifting where m: "must_lift src (spine_head a) (Suc (spine_len a)) = Some lifting"
      using must_lift_total [OF analysable_head [OF an(1)] "1.prems"(3)] by blast
    show ?thesis
    proof (cases lifting)
      case False
      from "1.IH"(3) [OF None m False "1.prems"(1-3) an(1) cl(1)] obtain src1 a' where
        a': "applift_r src sci False a = Some (src1, a')" "applifted P src False a src1 a'" by blast
      then have g: "source_ok src1" "length (scombs src) \<le> length (scombs src1)" using growsD unfolding applifted_def by blast+
      have "sci < length (scombs src1)" "length P \<le> length (scombs src1)" using g(2) "1.prems"(2,3) by simp_all
      from "1.IH"(4) [OF None m False a'(1) refl g(1) this an(2) cl(2)] obtain src2 b' where
        b': "applift_r src1 sci False b = Some (src2, b')" "applifted P src1 False b src2 b'" by blast
      from applifted_app [OF a'(2) b'(2)] None m False show ?thesis using a'(1) b'(1) by simp
    next
      case True
      then have lift: "must_lift src (spine_head a) (Suc (spine_len a)) = Some True" using m by simp
      show ?thesis
      proof (cases root)
        case True
        from "1.IH"(1) [OF None m \<open>lifting\<close> True "1.prems" None] obtain src' e' where
          r: "applift_args src sci ?k = Some (src', e')" "args_lifted P src ?k src' e'" by blast
        from args_lifted_body [OF r(2)] lift r(1) None True show ?thesis by simp
      next
        case False
        from lift_expr_spec [OF "1.prems"(1,2,4,5)] obtain args sc src1 where
          le: "lift_expr src sci ?k = Some (length (scombs src), apply_vars (sl ?k) (Scref (sl ?k) (length (scombs src))) args, src1)"
          and s: "scombs src1 = scombs src @ [sc]" "source_ok src1" "sc_argnames sc = args" "sc_strictin sc = None" "distinct args" "set args = fv ?k" by metis
        have "length (scombs src) < length (scombs src1)" "length P \<le> length (scombs src1)" using s(1) "1.prems"(3) by simp_all
        from "1.IH"(2) [OF None m \<open>lifting\<close> False le refl refl s(2) this "1.prems"(4,5)] obtain src2 body where
          r: "applift_r src1 (length (scombs src)) True ?k = Some (src2, body)" "applifted P src1 True ?k src2 body" by blast
        from lift_app [OF "1.prems"(5,3) s(1,3-6) r(2), of "sl ?k"] lift have "applifted P src False ?k
            (set_body src2 (length (scombs src)) body) (apply_vars (sl ?k) (Scref (sl ?k) (length (scombs src))) args)" by simp
        moreover have "applift_r src sci False ?k = Some (set_body src2 (length (scombs src)) body, apply_vars (sl ?k) (Scref (sl ?k) (length (scombs src))) args)"
          using None lift le r(1) by (simp add: applift_r.simps(1) [of src] del: applift_r.simps)
        ultimately show ?thesis unfolding eq_False [THEN iffD2, OF False] by blast
      qed
    qed
  next
    case (Some p)
    obtain l1 rs b1 where h: "letrec_head ?k = Some (l1, rs, b1)" using Some by (cases p) auto
    note c = clean_float [OF h "1.prems"(5)]
    from "1.IH"(5) [OF h refl refl] "1.prems" c obtain src' e' where
      r: "applift_r src sci root (LetrecNode l1 rs (replace_head ?k b1)) = Some (src', e')"
        "applifted P src root (LetrecNode l1 rs (replace_head ?k b1)) src' e'" by blast
    from applifted_float [OF h "1.prems"(5) r(2)] r(1) h show ?thesis by auto
  qed
next
  case (2 src sci root l rs b)
  have an: "analysable_recs (length P) rs" "analysable (length P) b" using "2.prems"(4) by simp_all
  from clean_letrec [OF "2.prems"(5)] have cl: "clean_recs rs" "clean b" by simp_all
  from "2.IH"(1) [OF "2.prems"(1-3) an(1) cl(1)] obtain src1 rs' where
    r: "applift_recs src sci rs = Some (src1, rs')" "recs_lifted P src rs src1 rs'" by blast
  then have g: "source_ok src1" "length (scombs src) \<le> length (scombs src1)" using growsD unfolding recs_lifted_def by blast+
  have "sci < length (scombs src1)" "length P \<le> length (scombs src1)" using g(2) "2.prems"(2,3) by simp_all
  from "2.IH"(2) [OF r(1) refl g(1) this an(2) cl(2)] obtain src2 b' where
    b': "applift_r src1 sci False b = Some (src2, b')" "applifted P src1 False b src2 b'" by blast
  from applifted_letrec [OF r(2) b'(2) "2.prems"(4)] r(1) b'(1) show ?case by simp
next
  case (4 src sci l s a b)
  have an: "analysable (length P) a" "analysable (length P) b" and cl: "clean a" "clean b" using "4.prems"(4) clean_parts(1) [OF "4.prems"(5)] by simp_all
  from "4.IH"(1) [OF "4.prems"(1-3) an(2) cl(2)] obtain src1 b' where
    b': "applift_r src sci False b = Some (src1, b')" "applifted P src False b src1 b'" by blast
  then have g: "source_ok src1" "length (scombs src) \<le> length (scombs src1)" using growsD unfolding applifted_def by blast+
  have h: "sci < length (scombs src1)" "length P \<le> length (scombs src1)" "letrec_head a = None" using g(2) "4.prems"(2,3,6) by simp_all
  from "4.IH"(2) [OF b'(1) refl g(1) h(1,2) an(1) cl(1) h(3)] obtain src2 a' where
    a': "applift_args src1 sci a = Some (src2, a')" "args_lifted P src1 a src2 a'" by blast
  from args_lifted_app [OF b'(2) a'(2)] a'(1) b'(1) show ?case by simp
next
  case (7 src sci x v st sc rs)
  have an: "analysable (length P) v" "analysable_recs (length P) rs" and cl: "clean v" "clean_recs rs" using "7.prems"(4) clean_parts(2) [OF "7.prems"(5)] by simp_all
  from "7.IH"(1) [OF "7.prems"(1-3) an(1) cl(1)] obtain src1 v' where
    v': "applift_r src sci False v = Some (src1, v')" "applifted P src False v src1 v'" by blast
  then have g: "source_ok src1" "length (scombs src) \<le> length (scombs src1)" using growsD unfolding applifted_def by blast+
  have "sci < length (scombs src1)" "length P \<le> length (scombs src1)" using g(2) "7.prems"(2,3) by simp_all
  from "7.IH"(2) [OF v'(1) refl g(1) this an(2) cl(2)] obtain src2 rs' where
    r: "applift_recs src1 sci rs = Some (src2, rs')" "recs_lifted P src1 rs src2 rs'" by blast
  from recs_lifted_Cons [OF v'(2) r(2)] r(1) v'(1) show ?case by simp
qed (auto simp: applifted_def args_lifted_def recs_lifted_def grows_refl translates_leaf body_form_def recs_to_def)

subsection \<open>The pass over a program\<close>

text \<open>The supercombinators in \<open>I\<close> have a new body, the others are as they were, and more have been added.\<close>

definition rewritten :: "(source \<Rightarrow> scomb \<Rightarrow> bool) \<Rightarrow> (source \<Rightarrow> snode \<Rightarrow> bool) \<Rightarrow> fundef list \<Rightarrow> nat set \<Rightarrow> source \<Rightarrow> source \<Rightarrow> bool" where
  "rewritten Q F P I src src' \<longleftrightarrow> source_ok src' \<and> length (scombs src) \<le> length (scombs src') \<and>
     (\<forall>j < length (scombs src). if j \<in> I
        then \<exists>e e'. sc_body (scombs src ! j) = Some e \<and> scombs src' ! j = (scombs src ! j)\<lparr>sc_body := Some e'\<rparr> \<and>
               translates P src src' e e' \<and> F src' e'
        else scombs src' ! j = scombs src ! j) \<and>
     list_all (\<lambda>sc. closed_sc (length (scombs src')) sc \<and> Q src' sc) (drop (length (scombs src)) (scombs src'))"

lemma rewrittenD:
  assumes "rewritten Q F P I src src'" "j < length (scombs src)"
  shows "j \<in> I \<Longrightarrow> \<exists>e e'. sc_body (scombs src ! j) = Some e \<and> scombs src' ! j = (scombs src ! j)\<lparr>sc_body := Some e'\<rparr> \<and>
      translates P src src' e e' \<and> F src' e'"
    "j \<notin> I \<Longrightarrow> scombs src' ! j = scombs src ! j"
  using assms unfolding rewritten_def by presburger+

lemma in_set_drop_iff: "x \<in> set (drop n xs) \<longleftrightarrow> (\<exists>i \<ge> n. i < length xs \<and> x = xs ! i)"
proof
  assume "x \<in> set (drop n xs)"
  then obtain i where "i < length xs - n" "x = drop n xs ! i" by (auto simp: in_set_conv_nth)
  then show "\<exists>i \<ge> n. i < length xs \<and> x = xs ! i" by (intro exI [of _ "n + i"]) auto
next
  assume "\<exists>i \<ge> n. i < length xs \<and> x = xs ! i"
  then obtain i where "n \<le> i" "i < length xs" "x = xs ! i" by blast
  then show "x \<in> set (drop n xs)" by (auto simp: in_set_conv_nth intro!: exI [of _ "i - n"])
qed

lemma rewritten_wider: "rewritten Q F P I src src' \<Longrightarrow> wider src src'"
proof -
  assume r: "rewritten Q F P I src src'"
  have "map sc_argnames (scombs src) = take (length (scombs src)) (map sc_argnames (scombs src'))"
    by (rule nth_equalityI) (use r in \<open>force simp: rewritten_def split: if_splits\<close>)+
  then show "wider src src'" unfolding wider_def by (metis take_is_prefix)
qed

lemma rewritten_trans:
  assumes Q: "lasting Q" and F: "\<And>a b e. wider a b \<Longrightarrow> F a e \<Longrightarrow> F b e"
    and r1: "rewritten Q F P {i} src src1" and r2: "rewritten Q F P I src1 src2" and I: "i < length P" "i \<notin> I" "\<forall>j \<in> I. j < length P" "length P \<le> length (scombs src)"
  shows "rewritten Q F P (insert i I) src src2"
proof -
  have len: "length (scombs src) \<le> length (scombs src1)" "length (scombs src1) \<le> length (scombs src2)" using r1 r2 by (simp_all add: rewritten_def)
  have keep: "scombs src2 ! j = scombs src1 ! j" if "j < length (scombs src1)" "j \<notin> I" for j using r2 that by (auto simp: rewritten_def)
  note w = rewritten_wider [OF r2]
  have early: "translates P src src2 e e'" if t: "translates P src src1 e e'" for e e'
  proof -
    have "scombs src2 ! j = scombs src1 ! j" if "length (scombs src) \<le> j" "j < length (scombs src1)" for j
      using keep that I(3,4) by (metis leD le_trans)
    then have "agrees src src2 P' \<Longrightarrow> agrees src src1 P'" for P' using len(2) by (simp add: agrees_def)
    then show ?thesis using t analysable_mono(1) [OF _ len(2)] unfolding translates_def by blast
  qed
  have late: "translates P src src2 e e'" if t: "translates P src1 src2 e e'" for e e'
    using t len(1) unfolding translates_def agrees_def by simp
  have i: "i < length (scombs src)" using I(1,4) by simp
  have new: "closed_sc (length (scombs src2)) sc \<and> Q src2 sc" if sc: "sc \<in> set (drop (length (scombs src)) (scombs src2))" for sc
  proof -
    obtain j where j: "sc = scombs src2 ! j" "length (scombs src) \<le> j" "j < length (scombs src2)"
      using sc unfolding in_set_drop_iff by blast
    show ?thesis
    proof (cases "j < length (scombs src1)")
      case True
      then have "sc = scombs src1 ! j" using keep j I(3,4) by (metis leD le_trans)
      then have "sc \<in> set (drop (length (scombs src)) (scombs src1))" using j(2) True by (metis in_set_drop_iff)
      then have "closed_sc (length (scombs src1)) sc \<and> Q src1 sc" using r1 by (simp add: rewritten_def list_all_iff)
      then show ?thesis using closed_sc_mono len(2) Q w unfolding lasting_def by blast
    next
      case False
      then have "sc \<in> set (drop (length (scombs src1)) (scombs src2))" using j by (metis in_set_drop_iff linorder_not_less)
      then show ?thesis using r2 by (simp add: rewritten_def list_all_iff)
    qed
  qed
  have parts: "if j \<in> insert i I then \<exists>e e'. sc_body (scombs src ! j) = Some e \<and> scombs src2 ! j = (scombs src ! j)\<lparr>sc_body := Some e'\<rparr> \<and>
               translates P src src2 e e' \<and> F src2 e'
        else scombs src2 ! j = scombs src ! j" if j: "j < length (scombs src)" for j
  proof (cases "j = i")
    case True
    from rewrittenD(1) [OF r1 i] obtain e e' where "sc_body (scombs src ! i) = Some e" "scombs src1 ! i = (scombs src ! i)\<lparr>sc_body := Some e'\<rparr>"
      "translates P src src1 e e'" "F src1 e'" by blast
    with True early F [OF w] keep [of i] I(2) i len(1) show ?thesis by auto
  next
    case False
    then have "scombs src1 ! j = scombs src ! j" using rewrittenD(2) [OF r1 j] by simp
    moreover have j1: "j < length (scombs src1)" using j len(1) by simp
    ultimately show ?thesis using False rewrittenD(1) [OF r2 j1] keep [OF j1] late by (cases "j \<in> I") auto
  qed
  have "source_ok src2" using r2 by (simp add: rewritten_def)
  then show ?thesis unfolding rewritten_def list_all_iff using le_trans [OF len] parts new by blast
qed

lemma rewritten_refl: "source_ok src \<Longrightarrow> rewritten Q F P {} src src"
  by (simp add: rewritten_def)

lemma reorderable_clean: "reorderable n args e \<Longrightarrow> stack_room (length (binders e)) \<Longrightarrow> analysable n e \<and> clean e"
  by (auto simp: reorderable_def clean_def)

definition binders_fit :: "source \<Rightarrow> bool" where
  "binders_fit src \<longleftrightarrow> list_all (\<lambda>sc. case sc_body sc of Some e \<Rightarrow> stack_room (length (binders e)) | None \<Rightarrow> True) (scombs src)"

lemma binders_fit_nth: "binders_fit src \<Longrightarrow> i < length (scombs src) \<Longrightarrow> sc_body (scombs src ! i) = Some e \<Longrightarrow> stack_room (length (binders e))"
  unfolding binders_fit_def list_all_length by (metis option.simps(5))

text \<open>What a pass promises for one body, and how it is run: over one supercombinator and over a list of them.
  \<open>pre\<close> and \<open>good\<close> say what the pass needs of the table and of the body, with respect to the program \<open>P\<close> before it.\<close>

locale lifting_pass =
  fixes pass :: "source \<Rightarrow> nat \<Rightarrow> snode \<Rightarrow> (source \<times> snode) option"
    and run :: "source \<Rightarrow> nat \<Rightarrow> source option" and run_all :: "source \<Rightarrow> nat list \<Rightarrow> source option"
    and Q :: "source \<Rightarrow> scomb \<Rightarrow> bool" and F :: "source \<Rightarrow> snode \<Rightarrow> bool" and pre :: "fundef list \<Rightarrow> source \<Rightarrow> bool" and good :: "fundef list \<Rightarrow> snode \<Rightarrow> bool"
  assumes lasting_Q: "lasting Q" and F_wider: "\<And>a b e. wider a b \<Longrightarrow> F a e \<Longrightarrow> F b e"
    and pre_grows: "\<And>P a b. pre P a \<Longrightarrow> grows Q a b \<Longrightarrow> pre P b" and pre_body: "\<And>P a i e. pre P a \<Longrightarrow> i < length (scombs a) \<Longrightarrow> pre P (set_body a i e)"
    and step: "\<And>src sci P e. source_ok src \<Longrightarrow> pre P src \<Longrightarrow> sci < length (scombs src) \<Longrightarrow> length P \<le> length (scombs src) \<Longrightarrow> analysable (length P) e \<Longrightarrow> clean e \<Longrightarrow> good P e \<Longrightarrow>
      \<exists>src' e'. pass src sci e = Some (src', e') \<and> grows Q src src' \<and> translates P src src' e e' \<and> F src' e'"
    and run: "\<And>src i. run src i = do { sc \<leftarrow> get_scomb_index src i; body \<leftarrow> sc_body sc; (src1, body') \<leftarrow> pass src i body; Some (set_body src1 i body') }"
    and run_all: "\<And>src. run_all src [] = Some src" "\<And>src i is. run_all src (i # is) = do { src1 \<leftarrow> run src i; run_all src1 is }"
begin

lemma run_rewritten:
  assumes "source_ok src" "pre P src" "i < length P" "length P \<le> length (scombs src)" "sc_body (scombs src ! i) = Some e" "analysable (length P) e" "clean e" "good P e"
  shows "\<exists>src'. run src i = Some src' \<and> pre P src' \<and> rewritten Q F P {i} src src'"
proof -
  have i: "i < length (scombs src)" using assms(3,4) by simp
  from step [OF assms(1,2) i assms(4,6-8)] obtain src1 e' where
    r: "pass src i e = Some (src1, e')" "grows Q src src1" "translates P src src1 e e'" "F src1 e'" by blast
  let ?src' = "set_body src1 i e'"
  obtain new where new: "scombs src1 = scombs src @ new" using r(2) by (auto simp: grows_def prefix_def)
  have sc: "scombs ?src' = (scombs src)[i := (scombs src ! i)\<lparr>sc_body := Some e'\<rparr>] @ new"
    using i by (simp add: set_body_def update_scomb_def new list_update_append nth_append)
  have w: "wider src1 ?src'" unfolding wider_def by (subst set_body_wider) (use i new in simp_all)
  have "Q ?src' q" if "Q src1 q" for q using lasting_Q w that by (auto simp: lasting_def)
  moreover have "source_ok ?src'" unfolding set_body_def by (rule source_ok_update) (use r(2) i new in \<open>simp_all add: grows_def\<close>)
  moreover have "translates P src ?src' e e'" using r(3) i unfolding translates_def agrees_def sc new by (simp add: nth_append)
  moreover have "F ?src' e'" using F_wider [OF w r(4)] .
  ultimately have "rewritten Q F P {i} src ?src'" using r(2) i assms(5) unfolding rewritten_def grows_def sc new
    by (auto simp: nth_append list_all_iff)
  moreover have "run src i = Some ?src'" using i assms(5) r(1) by (simp add: run get_scomb_index_def)
  moreover have "pre P ?src'" using pre_body [OF pre_grows [OF assms(2) r(2)]] i new by simp
  ultimately show ?thesis by blast
qed

lemma run_all_rewritten:
  assumes "source_ok src" "pre P src" "length P \<le> length (scombs src)" "distinct is" "\<forall>i \<in> set is. i < length P \<and> (\<exists>e. sc_body (scombs src ! i) = Some e \<and> analysable (length P) e \<and> clean e \<and> good P e)"
  shows "\<exists>src'. run_all src is = Some src' \<and> pre P src' \<and> rewritten Q F P (set is) src src'"
  using assms
proof (induction "is" arbitrary: src)
  case Nil
  then show ?case by (simp add: rewritten_refl run_all)
next
  case (Cons i "is")
  from Cons.prems obtain e where e: "i < length P" "sc_body (scombs src ! i) = Some e" "analysable (length P) e" "clean e" "good P e" by auto
  from run_rewritten [OF Cons.prems(1,2) e(1) Cons.prems(3) e(2-5)] obtain src1 where
    r: "run src i = Some src1" "pre P src1" "rewritten Q F P {i} src src1" by blast
  have "scombs src1 ! j = scombs src ! j" if "j \<in> set is" for j
  proof (rule rewrittenD(2) [OF r(3)])
    have "j < length P" using Cons.prems(5) that by simp
    then show "j < length (scombs src)" using Cons.prems(3) by simp
  qed (use Cons.prems(4) that in auto)
  then have "\<forall>j \<in> set is. j < length P \<and> (\<exists>e. sc_body (scombs src1 ! j) = Some e \<and> analysable (length P) e \<and> clean e \<and> good P e)" using Cons.prems(5) by simp
  moreover have "source_ok src1" "length P \<le> length (scombs src1)" using r(3) Cons.prems(3) by (auto simp: rewritten_def)
  ultimately obtain src' where r': "run_all src1 is = Some src'" "pre P src'" "rewritten Q F P (set is) src1 src'"
    using Cons.IH [of src1] Cons.prems(4) r(2) by auto
  have "rewritten Q F P (insert i (set is)) src src'" by (rule rewritten_trans [OF lasting_Q F_wider r(3) r'(3)]) (use e(1) Cons.prems(3-5) in auto)
  then show ?case using r(1) r'(1,2) by (auto simp: run_all)
qed

lemma run_program:
  assumes "source_ok src" "pre P src" "reorderable_program src" "binders_fit src" "length P = length (scombs src)"
    "\<And>i e. i < length (scombs src) \<Longrightarrow> sc_body (scombs src ! i) = Some e \<Longrightarrow> good P e"
  shows "\<exists>src'. run_all src [0..<length (scombs src)] = Some src' \<and> pre P src' \<and> rewritten Q F P {..<length (scombs src)} src src'"
proof -
  let ?n = "length (scombs src)"
  have "\<exists>e. sc_body (scombs src ! i) = Some e \<and> analysable ?n e \<and> clean e \<and> good P e" if i: "i < ?n" for i
  proof -
    obtain e where e: "sc_body (scombs src ! i) = Some e" "reorderable ?n (sc_argnames (scombs src ! i)) e"
      using assms(3) i unfolding reorderable_program_def list_all_length by (fastforce split: option.splits)
    then show ?thesis using reorderable_clean [OF e(2) binders_fit_nth [OF assms(4) i e(1)]] assms(6) [OF i e(1)] by blast
  qed
  then have "\<forall>i \<in> set [0..<?n]. i < length P \<and> (\<exists>e. sc_body (scombs src ! i) = Some e \<and> analysable (length P) e \<and> clean e \<and> good P e)"
    using assms(5) by simp
  from run_all_rewritten [OF assms(1,2) _ _ this] assms(5) show ?thesis by (auto simp: atLeast0LessThan)
qed

end

lemma reorderable_nth:
  "reorderable_program src \<Longrightarrow> i < length (scombs src) \<Longrightarrow> sc_body (scombs src ! i) = Some e \<Longrightarrow>
     reorderable (length (scombs src)) (sc_argnames (scombs src ! i)) e"
  unfolding reorderable_program_def list_all_length by (metis option.simps(5))

lemma rewritten_prog_sim:
  assumes "reorderable_program src" and r: "rewritten Q F P {..<length (scombs src)} src src'"
    and P: "length P = length (scombs src)" "\<And>i. i < length P \<Longrightarrow> fd_args (P ! i) = sc_argnames (scombs src ! i) \<and> fd_body (P ! i) = fd_body (fundef_of (scombs src ! i))"
    and P': "\<And>i. i < length P \<Longrightarrow> fd_args (P' ! i) = sc_argnames (scombs src' ! i) \<and> fd_body (P' ! i) = fd_body (fundef_of (scombs src' ! i)) \<and> fd_marks (P' ! i) = fd_marks (P ! i)"
    and ag: "agrees src src' P'"
  shows "prog_sim P P'"
  unfolding prog_sim_def
proof (intro allI impI)
  fix i assume iP: "i < length P"
  then have i: "i < length (scombs src)" by (simp add: P(1))
  from rewrittenD(1) [OF r i] i obtain e e' where
    e: "sc_body (scombs src ! i) = Some e" "scombs src' ! i = (scombs src ! i)\<lparr>sc_body := Some e'\<rparr>"
      "translates P src src' e e'" by auto
  moreover have "tr P P' (erase e) (erase e')" using e(3) ag unfolding translates_def by simp
  moreover have "fv e \<subseteq> set (sc_argnames (scombs src ! i))" using reorderable_nth [OF assms(1) i e(1)] by (simp add: reorderable_def)
  ultimately show "fd_args (P' ! i) = fd_args (P ! i) \<and> fd_marks (P' ! i) = fd_marks (P ! i) \<and>
      tr P P' (fd_body (P ! i)) (fd_body (P' ! i)) \<and> fv (fd_body (P' ! i)) \<subseteq> set (fd_args (P ! i))"
    using P(2) [OF iP] P' [OF iP] by (simp add: fundef_of_def translates_def)
qed

lemma rewritten_new:
  assumes r: "rewritten Q F P I src src'" and i: "i < length (scombs src')" "length (scombs src) \<le> i"
  shows "closed_sc (length (scombs src')) (scombs src' ! i)" "Q src' (scombs src' ! i)"
proof -
  have "scombs src' ! i \<in> set (drop (length (scombs src)) (scombs src'))" using i unfolding in_set_drop_iff by blast
  then show "closed_sc (length (scombs src')) (scombs src' ! i)" "Q src' (scombs src' ! i)" using r by (simp_all add: rewritten_def list_all_iff)
qed

lemma rewritten_reorderable:
  assumes "reorderable_program src" and r: "rewritten Q F P {..<length (scombs src)} src src'"
  shows "reorderable_program src'"
  unfolding reorderable_program_def list_all_length
proof (intro allI impI)
  fix i assume i: "i < length (scombs src')"
  show "case sc_body (scombs src' ! i) of Some e \<Rightarrow> reorderable (length (scombs src')) (sc_argnames (scombs src' ! i)) e | None \<Rightarrow> False"
  proof (cases "i < length (scombs src)")
    case True
    from rewrittenD(1) [OF r True] True obtain e e' where
      e: "sc_body (scombs src ! i) = Some e" "scombs src' ! i = (scombs src ! i)\<lparr>sc_body := Some e'\<rparr>"
        "translates P src src' e e'" by auto
    moreover have "reorderable (length (scombs src)) (sc_argnames (scombs src ! i)) e"
      by (rule reorderable_nth [OF assms(1) True e(1)])
    ultimately show ?thesis using distinct_sub [of "binders e" "binders e'"] set_sub [of "binders e'" "binders e"]
      by (auto simp: reorderable_def translates_def)
  next
    case False
    then have "closed_sc (length (scombs src')) (scombs src' ! i)" using rewritten_new(1) [OF r i] by simp
    then show ?thesis by (auto simp: closed_sc_def reorderable_def)
  qed
qed

lemma rewritten_binders_fit:
  assumes "binders_fit src" and r: "rewritten Q F P {..<length (scombs src)} src src'"
  shows "binders_fit src'"
  unfolding binders_fit_def list_all_length
proof (intro allI impI)
  fix i assume i: "i < length (scombs src')"
  show "case sc_body (scombs src' ! i) of Some e \<Rightarrow> stack_room (length (binders e)) | None \<Rightarrow> True"
  proof (cases "i < length (scombs src)")
    case True
    from rewrittenD(1) [OF r True] True obtain e e' where
      e: "sc_body (scombs src ! i) = Some e" "scombs src' ! i = (scombs src ! i)\<lparr>sc_body := Some e'\<rparr>"
        "translates P src src' e e'" by auto
    then have "length (binders e') \<le> length (binders e)" using size_mset_mono [of "mset (binders e')" "mset (binders e)"] by (simp add: translates_def)
    then show ?thesis using e(2) stack_room_mono [OF binders_fit_nth [OF assms(1) True e(1)]] by simp
  next
    case False
    then have "closed_sc (length (scombs src')) (scombs src' ! i)" using rewritten_new(1) [OF r i] by simp
    then show ?thesis by (auto simp: closed_sc_def)
  qed
qed

interpretation alp: lifting_pass "\<lambda>src sci. applift_r src sci True" applift applift_all new_sc body_form "\<lambda>P src. True" "\<lambda>P e. True"
proof
  fix src :: source and sci :: nat and P :: "fundef list" and e
  assume "source_ok src" "sci < length (scombs src)" "length P \<le> length (scombs src)" "analysable (length P) e" "clean e"
  from applift_r_ok(1) [OF this, of True]
  show "\<exists>src' e'. applift_r src sci True e = Some (src', e') \<and> grows new_sc src src' \<and> translates P src src' e e' \<and> body_form src' e'"
    by (auto simp: applifted_def)
qed (simp_all add: lasting_new_sc body_form_wider applift_def)

lemma applift_agrees: "rewritten new_sc F P I src src' \<Longrightarrow> agrees src src' (program_of src')"
  using program_of_nth unfolding agrees_def by blast

lemma applift_prog_sim:
  assumes "reorderable_program src" "rewritten new_sc F (program_of src) {..<length (scombs src)} src src'"
  shows "prog_sim (program_of src) (program_of src')"
proof (rule rewritten_prog_sim [OF assms])
  fix i assume "i < length (program_of src)"
  then have i: "i < length (scombs src)" "i < length (scombs src')" using assms(2) by (simp_all add: program_of_def rewritten_def)
  from rewrittenD(1) [OF assms(2) i(1)] i(1) obtain e' where "scombs src' ! i = (scombs src ! i)\<lparr>sc_body := Some e'\<rparr>" by auto
  then show "fd_args (program_of src' ! i) = sc_argnames (scombs src' ! i) \<and> fd_body (program_of src' ! i) = fd_body (fundef_of (scombs src' ! i)) \<and>
      fd_marks (program_of src' ! i) = fd_marks (program_of src ! i)"
    using i by (simp add: program_of_def fundef_of_def split: option.splits)
qed (simp_all add: program_of_def fundef_of_def applift_agrees [OF assms(2), unfolded program_of_def])

lemma applift_form:
  assumes r: "rewritten new_sc body_form P {..<length (scombs src)} src src'" and i: "i < length (scombs src')" and e: "sc_body (scombs src' ! i) = Some e"
  shows "body_form src' e"
proof (cases "i < length (scombs src)")
  case True
  then show ?thesis using rewrittenD(1) [OF r True] e by auto
next
  case False
  then show ?thesis using rewritten_new(2) [OF r i] e by (simp add: new_sc_def)
qed

text \<open>C15: Application lifting ends on every prepared program whose bodies bind at most 16384 names each,
  the capacity of the stack \<^verbatim>\<open>find_vars\<close> keeps (beyond it the process may exit). It changes nothing of
  the existing supercombinators but their bodies and keeps the table's names different; afterwards
  the head of every application is a known function with at least as many arguments as are given, or a constant,
  except for one application at the root of a body; the result is prepared for the next pass, within the same limit; and
  the program computes the same results: an expression over the supercombinators
  evaluates to a number, a string or nil after the pass exactly when it did before.\<close>

theorem applift_correct:
  assumes "source_ok src" "reorderable_program src" "binders_fit src"
  shows "\<exists>src'. applift_all src [0..<length (scombs src)] = Some src' \<and> source_ok src' \<and> reorderable_program src' \<and> binders_fit src' \<and>
    length (scombs src) \<le> length (scombs src') \<and>
    (\<forall>i < length (scombs src). \<exists>e'. scombs src' ! i = (scombs src ! i)\<lparr>sc_body := Some e'\<rparr>) \<and>
    (\<forall>i < length (scombs src'). \<forall>e. sc_body (scombs src' ! i) = Some e \<longrightarrow> body_form src' e) \<and>
    (\<forall>e. analysable (length (scombs src)) e \<and> fv e = {} \<longrightarrow> same_results (program_of src) (program_of src') (erase e) (erase e))"
proof -
  let ?n = "length (scombs src)"
  from alp.run_program [OF assms(1) _ assms(2,3), of "program_of src"] obtain src' where
    a: "applift_all src [0..<?n] = Some src'" and r: "rewritten new_sc body_form (program_of src) {..<?n} src src'" by (auto simp: program_of_def)
  have "same_results (program_of src) (program_of src') (erase e) (erase e)" if "analysable ?n e" "fv e = {}" for e
    using that applift_prog_sim [OF assms(2) r] by (intro simulation tr_refl) (simp_all add: program_of_def)
  moreover have "\<exists>e'. scombs src' ! i = (scombs src ! i)\<lparr>sc_body := Some e'\<rparr>" if "i < ?n" for i using rewrittenD(1) [OF r that] that by auto
  moreover have "source_ok src'" "?n \<le> length (scombs src')" using r by (simp_all add: rewritten_def)
  ultimately show ?thesis using a rewritten_reorderable [OF assms(2) r] rewritten_binders_fit [OF assms(3) r] applift_form [OF r] by blast
qed

text \<open>\<^verbatim>\<open>f g x = + (g x) ((letrec y = g 1 in y) x)\<close>: the applications of unknown functions move into
  supercombinators of their own, the second one after its letrec has moved outwards.\<close>

definition applift_example :: source where
  "applift_example =
     (let call = Application noloc False; var = Symbol noloc
      in update_scomb (snd (add_scomb source_new ''f'')) 0
           (\<lambda>sc. sc\<lparr>sc_argnames := [''g'', ''x''],
             sc_body := Some (call (call (Builtin noloc 0) (call (var ''g'') (var ''x'')))
               (call (LetrecNode noloc [Letrec ''y'' (call (var ''g'') (Number noloc 1)) False None] (var ''y'')) (var ''x'')))\<rparr>))"

lemma applift_example_ok: "source_ok applift_example"
proof -
  obtain i src where add: "add_scomb source_new ''f'' = (i, src)" by (cases "add_scomb source_new ''f''")
  then have "source_ok src" "length (scombs src) = 1" using sct.add_names [OF source_new_ok add] by (auto simp: add_scomb_def Let_def source_new_def)
  then show ?thesis unfolding applift_example_def add Let_def snd_conv by (intro source_ok_update) simp_all
qed

theorem applift_correct_witness:
  "\<exists>src'. applift_all applift_example [0..<length (scombs applift_example)] = Some src' \<and>
     map sc_argnames (scombs src') = [[''g'', ''x''], [''g'', ''x''], [''g''], [''y'', ''x'']] \<and>
     same_results (program_of applift_example) (program_of src') (Scref noloc 0) (Scref noloc 0)"
proof -
  have "reorderable_program applift_example" "binders_fit applift_example" by code_simp+
  from applift_correct [OF applift_example_ok this] obtain src' where
    R: "applift_all applift_example [0..<length (scombs applift_example)] = Some src'"
      "\<And>e. analysable (length (scombs applift_example)) e \<Longrightarrow> fv e = {} \<Longrightarrow> same_results (program_of applift_example) (program_of src') (erase e) (erase e)"
    by blast
  have "map_option (\<lambda>s. map sc_argnames (scombs s)) (applift_all applift_example [0..<length (scombs applift_example)]) =
      Some [[''g'', ''x''], [''g'', ''x''], [''g''], [''y'', ''x'']]" by code_simp
  moreover have "length (scombs applift_example) = 1" by code_simp
  ultimately show ?thesis using R(1) R(2) [of "Scref noloc 0"] by auto
qed

end
