(* ===== verification/Nonstrict.thy ===== *)
theory Nonstrict
  imports App_Lifting
begin

text \<open>
  Lifting of non-strict expressions, the last pass before code generation
  (\<^verbatim>\<open>nonstrict_lift\<close> of \<^verbatim>\<open>compiler/lifting.c\<close>): an argument that will be suspended and is more than a
  call with simple operands moves into a supercombinator of its own, which is analysed for
  strictness at once. The fuel of that analysis is the size of the expression.
\<close>

subsection \<open>The pass\<close>

fun is_app :: "snode \<Rightarrow> bool" where
  "is_app (Application l s a b) = True"
| "is_app e = False"

fun nappargs :: "snode \<Rightarrow> nat" where
  "nappargs (Application l s a b) = (if is_app b then Suc (nappargs a) else nappargs a)"
| "nappargs e = 0"

definition new_nonstrict :: "source \<Rightarrow> nat \<Rightarrow> snode \<Rightarrow> (nat \<times> snode \<times> source \<times> snode) option" where
  "new_nonstrict src sci k =
     do { (i, call, src1) \<leftarrow> lift_expr src sci k;
          let src2 = update_scomb src1 i (\<lambda>sc. sc\<lparr>sc_strictin := Some (replicate (sc_nargs sc) False), sc_lazyin := Some (replicate (sc_nargs sc) False)\<rparr>);
          (src3, changed) \<leftarrow> check_strictness (nodes k) src2 i False;
          let src4 = update_scomb src3 i (\<lambda>sc. sc\<lparr>sc_nospark := True\<rparr>);
          body \<leftarrow> sc_body (scombs src4 ! i);
          Some (i, call, src4, body) }"

lemma lift_expr_body:
  "lift_expr src sci k = Some (i, call, src1) \<Longrightarrow>
    i = length (scombs src) \<and> length (scombs src1) = Suc i \<and> sc_body (scombs src1 ! i) = Some k"
  by (auto simp: lift_expr_def add_scomb_def Let_def update_scomb_def bind_eq_Some_conv)

lemma new_nonstrict_nodes:
  assumes "new_nonstrict src sci k = Some (i, call, src', body)"
  shows "nodes body = nodes k"
proof -
  let ?f = "\<lambda>sc. sc\<lparr>sc_strictin := Some (replicate (sc_nargs sc) False), sc_lazyin := Some (replicate (sc_nargs sc) False)\<rparr>"
  from assms obtain src1 src3 ch where
    r: "lift_expr src sci k = Some (i, call, src1)" "check_strictness (nodes k) (update_scomb src1 i ?f) i False = Some (src3, ch)"
      "sc_body (scombs (update_scomb src3 i (\<lambda>sc. sc\<lparr>sc_nospark := True\<rparr>)) ! i) = Some body"
    by (auto simp: new_nonstrict_def Let_def bind_eq_Some_conv)
  from r(2) obtain e st e' used h1 st' where
    c: "sc_body (scombs (update_scomb src1 i ?f) ! i) = Some e" "check_strictness_r (update_scomb src1 i ?f) (nodes k) e [] False = Some (e', used, h1)"
      "src3 = update_scomb src1 i ?f\<lparr>scombs := (scombs (update_scomb src1 i ?f))[i := (scombs (update_scomb src1 i ?f) ! i)\<lparr>sc_body := Some e', sc_strictin := Some st'\<rparr>]\<rparr>"
    by (rule check_strictness_cases)
  have "erase e' = erase e" using steps_okD [OF check_strictness_r_ok c(2)] by (simp add: step_ok_def)
  moreover have "e = k" "body = e'" using c(1,3) r(3) lift_expr_body [OF r(1)] by (auto simp: update_scomb_def)
  ultimately show ?thesis using nodes_cong by blast
qed

function (sequential) nonstrict_lift_r :: "source \<Rightarrow> nat \<Rightarrow> snode \<Rightarrow> (source \<times> snode) option"
  and lift_if_complex :: "source \<Rightarrow> nat \<Rightarrow> snode \<Rightarrow> (source \<times> snode) option"
  and nonstrict_lift_recs :: "source \<Rightarrow> nat \<Rightarrow> letrec list \<Rightarrow> (source \<times> letrec list) option" where
  "nonstrict_lift_r src sci (Application l s a b) =
     (let strict = (s \<or> is_bif B_IF (spine_head a) \<or> is_bif B_SEQ (spine_head a))
      in do { (src1, b') \<leftarrow> (if \<not> strict then lift_if_complex src sci b else nonstrict_lift_r src sci b);
              (src2, a') \<leftarrow> nonstrict_lift_r src1 sci a;
              Some (src2, Application l s a' b') })"
| "nonstrict_lift_r src sci (LetrecNode l rs b) =
     do { (src1, rs') \<leftarrow> nonstrict_lift_recs src sci rs;
          (src2, b') \<leftarrow> nonstrict_lift_r src1 sci b;
          Some (src2, LetrecNode l rs' b') }"
| "nonstrict_lift_r src sci e = Some (src, e)"
| "lift_if_complex src sci k =
     (if 0 < nappargs k then
        if is_bif B_CONS (spine_head k) \<or> is_bif B_LCONS (spine_head k) then nonstrict_lift_r src sci k
        else (case new_nonstrict src sci k of
                None \<Rightarrow> None
              | Some (i, call, src1, body) \<Rightarrow>
                  do { (src2, body') \<leftarrow> nonstrict_lift_r src1 i body;
                       Some (set_body src2 i body', call) })
      else Some (src, k))"
| "nonstrict_lift_recs src sci [] = Some (src, [])"
| "nonstrict_lift_recs src sci (Letrec n v st sc # rs) =
     do { (src1, v') \<leftarrow> nonstrict_lift_r src sci v;
          (src2, rs') \<leftarrow> nonstrict_lift_recs src1 sci rs;
          Some (src2, Letrec n v' st sc # rs') }"
  by pat_completeness auto

termination
  by (relation "measure (case_sum (\<lambda>(src, sci, e). 2 * nodes e) (case_sum (\<lambda>(src, sci, e). Suc (2 * nodes e)) (\<lambda>(src, sci, rs). 2 * nodes_recs rs)))")
    (auto dest: new_nonstrict_nodes)

definition nonstrict_lift :: "source \<Rightarrow> nat \<Rightarrow> source option" where
  "nonstrict_lift src sci =
     do { sc \<leftarrow> get_scomb_index src sci;
          body \<leftarrow> sc_body sc;
          (src1, body') \<leftarrow> nonstrict_lift_r src sci body;
          Some (set_body src1 sci body') }"

fun nonstrict_lift_all :: "source \<Rightarrow> nat list \<Rightarrow> source option" where
  "nonstrict_lift_all src [] = Some src"
| "nonstrict_lift_all src (i # is) = do { src1 \<leftarrow> nonstrict_lift src i; nonstrict_lift_all src1 is }"

subsection \<open>What the pass does to a tree\<close>

text \<open>Afterwards an argument that is suspended is a call without nested calls, or a list cell.\<close>

fun frames_ok :: "snode \<Rightarrow> bool" and frames_ok_recs :: "letrec list \<Rightarrow> bool" where
  "frames_ok (Application l s a b) \<longleftrightarrow> frames_ok a \<and>
     (if s \<or> is_bif B_IF (spine_head a) \<or> is_bif B_SEQ (spine_head a) then frames_ok b
      else nappargs b = 0 \<or> (is_bif B_CONS (spine_head b) \<or> is_bif B_LCONS (spine_head b)) \<and> frames_ok b)"
| "frames_ok (LetrecNode l rs b) \<longleftrightarrow> frames_ok_recs rs \<and> frames_ok b"
| "frames_ok e \<longleftrightarrow> True"
| "frames_ok_recs [] \<longleftrightarrow> True"
| "frames_ok_recs (Letrec n v st sc # rs) \<longleftrightarrow> frames_ok v \<and> frames_ok_recs rs"

definition new_frame_sc :: "source \<Rightarrow> scomb \<Rightarrow> bool" where
  "new_frame_sc src sc \<longleftrightarrow> sc_flags_ok sc \<and> sc_nospark sc \<and> pred_option frames_ok (sc_body sc)"

lemma lasting_new_frame_sc: "lasting new_frame_sc"
  by (simp add: lasting_def new_frame_sc_def)

lemma grows_table_ok: "table_ok src \<Longrightarrow> grows new_frame_sc src src' \<Longrightarrow> table_ok src'"
  by (auto simp: table_ok_def grows_def prefix_def list_all_iff new_frame_sc_def)

definition same_bif_head :: "snode \<Rightarrow> snode \<Rightarrow> bool" where
  "same_bif_head e e' \<longleftrightarrow> (\<forall>b. is_bif b (spine_head e') = is_bif b (spine_head e))"

lemma nappargs_call: "nappargs (apply_vars l e xs) = nappargs e"
  by (induction l e xs rule: apply_vars.induct) simp_all

lemma binders_erase: "binders (erase e) = binders e" "binders_recs (erase_recs rs) = binders_recs rs"
  by (induction e and rs rule: erase_erase_recs.induct) (auto simp: erase_recs_map comp_def)

lemma erase_cong:
  assumes "erase e = erase e'"
  shows "fv e = fv e'" "binders e = binders e'" "clean e \<longleftrightarrow> clean e'"
proof -
  show fv: "fv e = fv e'" using assms fv_erase(1) by metis
  show b: "binders e = binders e'" using assms binders_erase(1) by metis
  show "clean e \<longleftrightarrow> clean e'" by (simp add: clean_def fv b)
qed

lemma translates_cong: "translates P src src' e' t \<Longrightarrow> erase e' = erase e \<Longrightarrow> translates P src src' e t"
  using erase_cong [of e' e] by (simp add: translates_def)

text \<open>What the analysis of a lifted expression needs: marks that are right with respect to the program \<open>P\<close> before the pass.\<close>

definition marks_ok :: "fundef list \<Rightarrow> source \<Rightarrow> bool" where
  "marks_ok P src \<longleftrightarrow> table_ok src \<and> (\<forall>D. calls_sound P D src)"

definition flags_good :: "fundef list \<Rightarrow> snode \<Rightarrow> bool" where
  "flags_good P e \<longleftrightarrow> (\<forall>D. flags_sound P D e)"

definition flags_good_recs :: "fundef list \<Rightarrow> letrec list \<Rightarrow> bool" where
  "flags_good_recs P rs \<longleftrightarrow> (\<forall>D. flags_sound_recs P D rs)"

lemma flags_good_parts:
  "flags_good P (Application l s a b) \<Longrightarrow> flags_good P a \<and> flags_good P b"
  "flags_good P (LetrecNode l rs b) \<Longrightarrow> flags_good_recs P rs \<and> flags_good P b"
  "flags_good_recs P (Letrec x v st sc # rs) \<Longrightarrow> flags_good P v \<and> flags_good_recs P rs"
  by (simp_all add: flags_good_def flags_good_recs_def)

lemma calls_sound_prefix: "calls_sound P D src \<Longrightarrow> prefix (scombs src) (scombs src') \<Longrightarrow> calls_sound P D src'"
  by (auto simp: calls_sound_def prefix_def nth_append)

lemma grows_marks_ok: "marks_ok P src \<Longrightarrow> grows new_frame_sc src src' \<Longrightarrow> marks_ok P src'"
  using grows_table_ok calls_sound_prefix unfolding marks_ok_def grows_def by blast

lemma set_body_marks_ok:
  assumes "marks_ok P src" "i < length (scombs src)"
  shows "marks_ok P (set_body src i e)"
proof -
  have "calls_sound P D (set_body src i e)" if "calls_sound P D src" for D
    using that assms(2) by (auto simp: calls_sound_def set_body_def update_scomb_def nth_list_update)
  moreover have "table_ok (set_body src i e)" using assms
    by (auto simp: marks_ok_def table_ok_def set_body_def update_scomb_def list_all_length nth_list_update sc_flags_ok_def)
  ultimately show ?thesis using assms(1) by (simp add: marks_ok_def)
qed

lemma needs_demands: "(\<And>D. needs P D e x) \<Longrightarrow> demands P (erase e) x"
  by (simp add: needs_def demands_def)

lemma analysis_marks:
  assumes "marks_ok P src" "check_strictness_r src fuel k [] h = Some (e', u', h')" "analysable (length P) k" "flags_good P k"
  shows "flags_good P e'" "x \<in> set u' \<Longrightarrow> demands P (erase k) x"
proof -
  have "step_sound P D k [] e' u'" for D
    by (rule steps_soundD [OF check_strictness_r_sound assms(2,3)]) (use assms(1,4) in \<open>simp_all add: marks_ok_def flags_good_def\<close>)
  then show "flags_good P e'" "x \<in> set u' \<Longrightarrow> demands P (erase k) x" using needs_demands by (auto simp: step_sound_def flags_good_def)
qed

lemma new_nonstrict_spec:
  assumes "source_ok src" "marks_ok P src" "sci < length (scombs src)" "analysable (length P) k" "length P \<le> length (scombs src)"
    "clean k" "flags_good P k"
  obtains args sc src' body where
    "new_nonstrict src sci k = Some (length (scombs src), apply_vars (sl k) (Scref (sl k) (length (scombs src))) args, src', body)"
    "scombs src' = scombs src @ [sc]" "source_ok src'" "marks_ok P src'" "sc_argnames sc = args" "sc_flags_ok sc" "sc_nospark sc" "sc_body sc = Some body"
    "erase body = erase k" "distinct args" "set args = fv k" "flags_good P body"
    "\<And>j. j < length args \<Longrightarrow> fd_marks (fundef_of sc) ! j \<Longrightarrow> demands P (erase k) (args ! j)"
proof -
  from lift_expr_spec [OF assms(1,3,4,6)] obtain args sc src1 where
    le: "lift_expr src sci k = Some (length (scombs src), apply_vars (sl k) (Scref (sl k) (length (scombs src))) args, src1)"
    and s: "scombs src1 = scombs src @ [sc]" "source_ok src1" "sc_argnames sc = args" "sc_body sc = Some k" "distinct args" "set args = fv k" by metis
  let ?i = "length (scombs src)" and ?z = "replicate (length args) False"
  let ?f = "\<lambda>sc. sc\<lparr>sc_strictin := Some (replicate (sc_nargs sc) False), sc_lazyin := Some (replicate (sc_nargs sc) False)\<rparr>"
  let ?src2 = "update_scomb src1 ?i ?f"
  have s2: "scombs ?src2 = scombs src @ [?f sc]" by (simp add: update_scomb_def s(1))
  have t2: "table_ok ?src2" using assms(2) s(3) by (simp add: marks_ok_def table_ok_def s2 sc_flags_ok_def)
  have m2: "marks_ok P ?src2" using t2 assms(2) calls_sound_prefix [of P _ src ?src2] by (simp add: marks_ok_def s2)
  have "analysable (length (scombs ?src2)) k" by (rule analysable_mono(1) [OF assms(4)]) (use assms(5) in \<open>simp add: s2\<close>)
  from check_strictness_r_returns [OF t2 this order_refl] obtain e' u' h' where
    r: "check_strictness_r ?src2 (nodes k) k [] False = Some (e', u', h')" by (meson returns_self)
  define st where "st = map (\<lambda>j. ?z ! j \<or> list_contains_string (map Some u') (Some (args ! j))) [0..<length args]"
  define sc3 where "sc3 = sc\<lparr>sc_strictin := Some st, sc_lazyin := Some ?z, sc_body := Some e'\<rparr>"
  let ?src3 = "update_scomb ?src2 ?i (\<lambda>sc. sc\<lparr>sc_body := Some e', sc_strictin := Some st\<rparr>)"
  let ?src4 = "update_scomb ?src3 ?i (\<lambda>sc. sc\<lparr>sc_nospark := True\<rparr>)"
  have c: "check_strictness (nodes k) ?src2 ?i False = Some (?src3, h' \<or> ?z \<noteq> st)"
    using s(3,4) r unfolding check_strictness_def s2 st_def by (simp add: Let_def)
  have s4: "scombs ?src4 = scombs src @ [sc3\<lparr>sc_nospark := True\<rparr>]" by (simp add: update_scomb_def s(1,3) sc3_def)
  have er: "erase e' = erase k" using steps_okD [OF check_strictness_r_ok r] by (simp add: step_ok_def)
  have "source_ok ?src2" by (rule source_ok_update [OF s(2)]) (simp_all add: s(1))
  then have "source_ok ?src3" by (rule source_ok_update) (simp_all add: s2)
  then have ok4: "source_ok ?src4" by (rule source_ok_update) (simp_all add: update_scomb_def s(1))
  note an = analysis_marks [OF m2 r assms(4,7)]
  have fl: "sc_flags_ok (sc3\<lparr>sc_nospark := True\<rparr>)" by (simp add: sc_flags_ok_def sc3_def st_def s(3))
  show ?thesis
  proof (rule that [of args ?src4 e' "sc3\<lparr>sc_nospark := True\<rparr>"])
    show "new_nonstrict src sci k = Some (?i, apply_vars (sl k) (Scref (sl k) ?i) args, ?src4, e')"
      unfolding new_nonstrict_def le by (simp add: c Let_def s4) (simp add: sc3_def)
    have "table_ok ?src4" using assms(2) fl by (simp add: marks_ok_def table_ok_def s4)
    then show "marks_ok P ?src4" using assms(2) calls_sound_prefix [of P _ src ?src4] by (simp add: marks_ok_def s4)
    show "demands P (erase k) (args ! j)" if "j < length args" "fd_marks (fundef_of (sc3\<lparr>sc_nospark := True\<rparr>)) ! j" for j
      by (rule an(2)) (use that in \<open>auto simp: fundef_of_def sc3_def st_def\<close>)
  qed (use s4 s er ok4 fl an(1) in \<open>simp_all add: sc3_def\<close>)
qed

definition nonstrict_lifted :: "fundef list \<Rightarrow> source \<Rightarrow> snode \<Rightarrow> source \<Rightarrow> snode \<Rightarrow> bool" where
  "nonstrict_lifted P src e src' e' \<longleftrightarrow> grows new_frame_sc src src' \<and> translates P src src' e e' \<and> frames_ok e' \<and> same_bif_head e e'"

definition suspended_lifted :: "fundef list \<Rightarrow> source \<Rightarrow> snode \<Rightarrow> source \<Rightarrow> snode \<Rightarrow> bool" where
  "suspended_lifted P src e src' e' \<longleftrightarrow> grows new_frame_sc src src' \<and> translates P src src' e e' \<and>
     (nappargs e' = 0 \<or> (is_bif B_CONS (spine_head e') \<or> is_bif B_LCONS (spine_head e')) \<and> frames_ok e')"

lemma nonstrict_lift_new:
  assumes k: "clean k" "length P \<le> length (scombs src)" and src1: "scombs src1 = scombs src @ [sc]"
    and sc: "sc_argnames sc = args" "distinct args" "set args = fv k" "sc_flags_ok sc" "sc_nospark sc" "erase body = erase k"
    and m: "\<And>j. j < length args \<Longrightarrow> fd_marks (fundef_of sc) ! j \<Longrightarrow> demands P (erase k) (args ! j)"
    and r: "nonstrict_lifted P src1 body src2 body'"
  shows "suspended_lifted P src k (set_body src2 (length (scombs src)) body') (apply_vars l (Scref l (length (scombs src))) args)"
proof -
  have g: "grows new_frame_sc src1 src2" "translates P src1 src2 k body'" using r translates_cong [OF _ sc(6)] by (auto simp: nonstrict_lifted_def)
  have q: "new_frame_sc (set_body src2 (length (scombs src)) body') (sc\<lparr>sc_body := Some body'\<rparr>)"
    using sc(4,5) r by (simp add: new_frame_sc_def sc_flags_ok_def nonstrict_lifted_def)
  show ?thesis by (rule lift_body [OF lasting_new_frame_sc k src1 sc(1-3) g m q]) (auto simp: suspended_lifted_def nappargs_call)
qed

lemma nonstrict_lift_r_ok:
  "source_ok src \<Longrightarrow> marks_ok P src \<Longrightarrow> sci < length (scombs src) \<Longrightarrow> length P \<le> length (scombs src) \<Longrightarrow> analysable (length P) e \<Longrightarrow> clean e \<Longrightarrow> flags_good P e \<Longrightarrow>
     \<exists>src' e'. nonstrict_lift_r src sci e = Some (src', e') \<and> nonstrict_lifted P src e src' e'"
  "source_ok src \<Longrightarrow> marks_ok P src \<Longrightarrow> sci < length (scombs src) \<Longrightarrow> length P \<le> length (scombs src) \<Longrightarrow> analysable (length P) e \<Longrightarrow> clean e \<Longrightarrow> flags_good P e \<Longrightarrow>
     \<exists>src' e'. lift_if_complex src sci e = Some (src', e') \<and> suspended_lifted P src e src' e'"
  "source_ok src \<Longrightarrow> marks_ok P src \<Longrightarrow> sci < length (scombs src) \<Longrightarrow> length P \<le> length (scombs src) \<Longrightarrow> analysable_recs (length P) rs \<Longrightarrow> clean_recs rs \<Longrightarrow> flags_good_recs P rs \<Longrightarrow>
     \<exists>src' rs'. nonstrict_lift_recs src sci rs = Some (src', rs') \<and> grows new_frame_sc src src' \<and> recs_to P src src' rs rs' \<and> frames_ok_recs rs'"
proof (induction src sci e and src sci e and src sci rs rule: nonstrict_lift_r_lift_if_complex_nonstrict_lift_recs.induct)
  case (1 src sci l s a b)
  have an: "analysable (length P) a" "analysable (length P) b" and cl: "clean a" "clean b" using "1.prems"(5) clean_parts(1) [OF "1.prems"(6)] by simp_all
  have fl: "flags_good P a" "flags_good P b" using flags_good_parts(1) [OF "1.prems"(7)] by simp_all
  let ?strict = "s \<or> is_bif B_IF (spine_head a) \<or> is_bif B_SEQ (spine_head a)"
  let ?b = "if \<not> ?strict then lift_if_complex src sci b else nonstrict_lift_r src sci b"
  have "\<exists>src1 b'. ?b = Some (src1, b') \<and> (if ?strict then nonstrict_lifted P src b src1 b' else suspended_lifted P src b src1 b')"
    using "1.IH"(1) [OF refl _ "1.prems"(1-4) an(2) cl(2) fl(2)] "1.IH"(2) [OF refl _ "1.prems"(1-4) an(2) cl(2) fl(2)] by (cases ?strict) simp_all
  then obtain src1 b' where b': "?b = Some (src1, b')" "grows new_frame_sc src src1" "translates P src src1 b b'"
    and fb: "if ?strict then frames_ok b' else nappargs b' = 0 \<or> (is_bif B_CONS (spine_head b') \<or> is_bif B_LCONS (spine_head b')) \<and> frames_ok b'"
    by (auto simp: nonstrict_lifted_def suspended_lifted_def split: if_splits)
  have g: "source_ok src1" "marks_ok P src1" "sci < length (scombs src1)" "length P \<le> length (scombs src1)"
    using growsD [OF b'(2)] grows_marks_ok [OF "1.prems"(2) b'(2)] "1.prems"(3,4) by auto
  from "1.IH"(3) [OF refl b'(1) refl g an(1) cl(1) fl(1)] obtain src2 a' where
    a': "nonstrict_lift_r src1 sci a = Some (src2, a')" "grows new_frame_sc src1 src2" "translates P src1 src2 a a'" "frames_ok a'" "same_bif_head a a'"
    by (auto simp: nonstrict_lifted_def)
  have fr: "frames_ok (Application l s a' b')" using fb a'(4,5) by (simp add: same_bif_head_def split: if_splits)
  have "translates P src src2 (Application l s a b) (Application l s a' b')"
    using translates_earlier [OF a'(3) b'(2) a'(2)] translates_later [OF b'(3,2) a'(2)] by (rule translates_app)
  then show ?case using a'(1) b'(1) grows_trans [OF lasting_new_frame_sc b'(2) a'(2)] fr a'(5) by (simp add: nonstrict_lifted_def Let_def same_bif_head_def)
next
  case (2 src sci l rs b)
  have an: "analysable_recs (length P) rs" "analysable (length P) b" using "2.prems"(5) by simp_all
  from clean_letrec [OF "2.prems"(6)] have cl: "clean_recs rs" "clean b" by simp_all
  have fl: "flags_good_recs P rs" "flags_good P b" using flags_good_parts(2) [OF "2.prems"(7)] by simp_all
  from "2.IH"(1) [OF "2.prems"(1-4) an(1) cl(1) fl(1)] obtain src1 rs' where
    r: "nonstrict_lift_recs src sci rs = Some (src1, rs')" "grows new_frame_sc src src1" "recs_to P src src1 rs rs'" "frames_ok_recs rs'" by blast
  have g: "source_ok src1" "marks_ok P src1" "sci < length (scombs src1)" "length P \<le> length (scombs src1)"
    using growsD [OF r(2)] grows_marks_ok [OF "2.prems"(2) r(2)] "2.prems"(3,4) by auto
  from "2.IH"(2) [OF r(1) refl g an(2) cl(2) fl(2)] obtain src2 b' where
    b': "nonstrict_lift_r src1 sci b = Some (src2, b')" "grows new_frame_sc src1 src2" "translates P src1 src2 b b'" "frames_ok b'" by (auto simp: nonstrict_lifted_def)
  have "translates P src src2 (LetrecNode l rs b) (LetrecNode l rs' b')"
    using recs_to_later [OF r(3,2) b'(2)] translates_earlier [OF b'(3) r(2) b'(2)] "2.prems"(5) by (rule translates_letrec)
  then show ?case using r(1) b'(1) grows_trans [OF lasting_new_frame_sc r(2) b'(2)] r(4) b'(4) by (simp add: nonstrict_lifted_def same_bif_head_def)
next
  case (4 src sci k)
  let ?i = "length (scombs src)"
  show ?case
  proof (cases "0 < nappargs k \<and> \<not> (is_bif B_CONS (spine_head k) \<or> is_bif B_LCONS (spine_head k))")
    case True
    from new_nonstrict_spec [OF "4.prems"(1-3,5,4,6,7)] obtain args sc src1 body where
      ns: "new_nonstrict src sci k = Some (?i, apply_vars (sl k) (Scref (sl k) ?i) args, src1, body)"
      and s: "scombs src1 = scombs src @ [sc]" "source_ok src1" "marks_ok P src1" "sc_argnames sc = args" "sc_flags_ok sc" "sc_nospark sc"
        "erase body = erase k" "distinct args" "set args = fv k" "flags_good P body"
        "\<And>j. j < length args \<Longrightarrow> fd_marks (fundef_of sc) ! j \<Longrightarrow> demands P (erase k) (args ! j)" by metis
    have g: "?i < length (scombs src1)" "length P \<le> length (scombs src1)" using s(1) "4.prems"(4) by simp_all
    have b: "analysable (length P) body" "clean body" using "4.prems"(5,6) analysable_cong [OF s(7)] erase_cong(3) [OF s(7)] by simp_all
    from "4.IH"(2) [OF _ _ ns refl refl refl s(2,3) g b s(10)] True have
      "\<exists>src2 body'. nonstrict_lift_r src1 ?i body = Some (src2, body') \<and> nonstrict_lifted P src1 body src2 body'" by simp
    then obtain src2 body' where
      r: "nonstrict_lift_r src1 ?i body = Some (src2, body')" "nonstrict_lifted P src1 body src2 body'" by blast
    from nonstrict_lift_new [OF "4.prems"(6,4) s(1,4,8,9,5,6,7,11) r(2), of "sl k"] ns r(1) True show ?thesis by simp
  next
    case False
    show ?thesis
    proof (cases "0 < nappargs k")
      case True
      with False have c: "is_bif B_CONS (spine_head k) \<or> is_bif B_LCONS (spine_head k)" by simp
      from "4.IH"(1) [OF True c "4.prems"] c True show ?thesis by (auto simp: nonstrict_lifted_def suspended_lifted_def same_bif_head_def)
    qed (use "4.prems" in \<open>simp add: suspended_lifted_def grows_refl translates_leaf\<close>)
  qed
next
  case (6 src sci x v st sc rs)
  have an: "analysable (length P) v" "analysable_recs (length P) rs" and cl: "clean v" "clean_recs rs" using "6.prems"(5) clean_parts(2) [OF "6.prems"(6)] by simp_all
  have fl: "flags_good P v" "flags_good_recs P rs" using flags_good_parts(3) [OF "6.prems"(7)] by simp_all
  from "6.IH"(1) [OF "6.prems"(1-4) an(1) cl(1) fl(1)] obtain src1 v' where
    v': "nonstrict_lift_r src sci v = Some (src1, v')" "grows new_frame_sc src src1" "translates P src src1 v v'" "frames_ok v'" by (auto simp: nonstrict_lifted_def)
  have g: "source_ok src1" "marks_ok P src1" "sci < length (scombs src1)" "length P \<le> length (scombs src1)"
    using growsD [OF v'(2)] grows_marks_ok [OF "6.prems"(2) v'(2)] "6.prems"(3,4) by auto
  from "6.IH"(2) [OF v'(1) refl g an(2) cl(2) fl(2)] obtain src2 rs' where
    r: "nonstrict_lift_recs src1 sci rs = Some (src2, rs')" "grows new_frame_sc src1 src2" "recs_to P src1 src2 rs rs'" "frames_ok_recs rs'" by blast
  have "recs_to P src src2 (Letrec x v st sc # rs) (Letrec x v' st sc # rs')"
    using translates_later [OF v'(3,2) r(2)] recs_to_earlier [OF r(3) v'(2) r(2)] by (simp add: recs_to_def)
  then show ?case using v'(1) r(1) grows_trans [OF lasting_new_frame_sc v'(2) r(2)] v'(4) r(4) by simp
qed (auto simp: nonstrict_lifted_def same_bif_head_def grows_refl translates_leaf recs_to_def)

subsection \<open>The pass over a program\<close>

interpretation nsp: lifting_pass nonstrict_lift_r nonstrict_lift nonstrict_lift_all new_frame_sc "\<lambda>src. frames_ok" marks_ok flags_good
proof
  fix src :: source and sci :: nat and P :: "fundef list" and e
  assume "source_ok src" "marks_ok P src" "sci < length (scombs src)" "length P \<le> length (scombs src)" "analysable (length P) e" "clean e" "flags_good P e"
  from nonstrict_lift_r_ok(1) [OF this]
  show "\<exists>src' e'. nonstrict_lift_r src sci e = Some (src', e') \<and> grows new_frame_sc src src' \<and> translates P src src' e e' \<and> frames_ok e'"
    by (auto simp: nonstrict_lifted_def)
qed (simp_all add: lasting_new_frame_sc grows_marks_ok set_body_marks_ok nonstrict_lift_def)

text \<open>The program after the pass: the supercombinators of \<open>P\<close> with their new bodies, and the new ones with the
  marks the pass gave them.\<close>

definition lifted_program :: "fundef list \<Rightarrow> source \<Rightarrow> fundef list" where
  "lifted_program P src' =
     map (\<lambda>(fd, fd'). fd'\<lparr>fd_marks := fd_marks fd\<rparr>) (zip P (program_of src')) @ drop (length P) (program_of src')"

lemma lifted_program_nth:
  assumes "length P \<le> length (scombs src')" "i < length (scombs src')"
  shows "lifted_program P src' ! i = (if i < length P then (fundef_of (scombs src' ! i))\<lparr>fd_marks := fd_marks (P ! i)\<rparr> else fundef_of (scombs src' ! i))"
  using assms program_of_nth [of i src'] by (auto simp: lifted_program_def nth_append program_of_def)

lemma nonstrict_prog_sim:
  assumes "reorderable_program src" "rewritten Q F P {..<length (scombs src)} src src'" and sp: "sound_program P D src"
  shows "prog_sim P (lifted_program P src')"
proof (rule rewritten_prog_sim [OF assms(1,2)])
  have len: "length (scombs src) \<le> length (scombs src')" using assms(2) by (simp add: rewritten_def)
  show lenP: "length P = length (scombs src)" using sp by (auto simp: sound_program_def dest: map_eq_imp_length_eq)
  fix i assume "i < length P"
  then have i: "i < length P" "i < length (scombs src)" "i < length (scombs src')" using len lenP by simp_all
  show "fd_args (P ! i) = sc_argnames (scombs src ! i) \<and> fd_body (P ! i) = fd_body (fundef_of (scombs src ! i))"
    using sound_programD(1,2) [OF sp i(2)] by (auto simp: fundef_of_def split: option.splits)
  show "fd_args (lifted_program P src' ! i) = sc_argnames (scombs src' ! i) \<and> fd_body (lifted_program P src' ! i) = fd_body (fundef_of (scombs src' ! i)) \<and>
      fd_marks (lifted_program P src' ! i) = fd_marks (P ! i)"
    using i len lenP by (simp add: lifted_program_nth) (simp add: fundef_of_def)
next
  have "length P = length (scombs src)" "length (scombs src) \<le> length (scombs src')"
    using sp assms(2) by (auto simp: sound_program_def rewritten_def dest: map_eq_imp_length_eq)
  then show "agrees src src' (lifted_program P src')" by (simp add: agrees_def lifted_program_nth)
qed

lemma nonstrict_frames:
  assumes r: "rewritten new_frame_sc (\<lambda>src. frames_ok) P {..<length (scombs src)} src src'" and i: "i < length (scombs src')" and e: "sc_body (scombs src' ! i) = Some e"
  shows "frames_ok e"
proof (cases "i < length (scombs src)")
  case True
  then show ?thesis using rewrittenD(1) [OF r True] e by auto
next
  case False
  then show ?thesis using rewritten_new(2) [OF r i] e by (simp add: new_frame_sc_def)
qed


text \<open>\<^verbatim>\<open>f x = f (+ (* x x) 1)\<close>: the argument of the call moves into a supercombinator that is strict in \<^verbatim>\<open>x\<close>.\<close>

definition nonstrict_example :: source where
  "nonstrict_example =
     (let call = Application noloc; var = Symbol noloc; plus = 0; times = 2
      in update_scomb (snd (add_scomb source_new ''f'')) 0
           (\<lambda>sc. sc\<lparr>sc_argnames := [''x''], sc_strictin := Some [False],
             sc_body := Some (call False (Scref noloc 0)
               (call True (call True (Builtin noloc plus) (call True (call True (Builtin noloc times) (var ''x'')) (var ''x''))) (Number noloc 1)))\<rparr>))"

lemma nonstrict_example_ok: "source_ok nonstrict_example"
proof -
  obtain i src where add: "add_scomb source_new ''f'' = (i, src)" by (cases "add_scomb source_new ''f''")
  then have "source_ok src" "length (scombs src) = 1" using sct.add_names [OF source_new_ok add] by (auto simp: add_scomb_def Let_def source_new_def)
  then show ?thesis unfolding nonstrict_example_def add Let_def snd_conv by (intro source_ok_update) simp_all
qed

lemma sc_flags_ok_code [code]: "sc_flags_ok sc \<longleftrightarrow> (case sc_strictin sc of Some st \<Rightarrow> length st = sc_nargs sc | None \<Rightarrow> False)"
  by (auto simp: sc_flags_ok_def split: option.splits)

lemma nonstrict_example_sound: "sound_program (program_of nonstrict_example) D nonstrict_example"
proof -
  have "length (scombs nonstrict_example) = 1" "sc_argnames (hd (scombs nonstrict_example)) = [''x'']"
    "sc_strictin (hd (scombs nonstrict_example)) = Some [False]" "map_option unmarked_recs (sc_body (hd (scombs nonstrict_example))) = Some True" by code_simp+
  then obtain sc e where sc: "scombs nonstrict_example = [sc]" "sc_argnames sc = [''x'']" "sc_strictin sc = Some [False]" "sc_body sc = Some e" "unmarked_recs e"
    by (auto simp: length_Suc_conv)
  then show ?thesis by (auto simp: sound_program_def program_of_def strictin_sound_def less_Suc_eq_0_disj unmarked_flags_sound)
qed


end
