(* ===== verification/Bytecode.thy ===== *)
theory Bytecode
  imports Nonstrict
begin

text \<open>
  Code generation, \<^verbatim>\<open>compiler/bytecode.c\<close>: the instructions, the compile-time picture of the stack,
  and the compilation schemes \<^verbatim>\<open>C\<close> (build a graph), \<^verbatim>\<open>E\<close> (start evaluating), \<^verbatim>\<open>S\<close> (rearrange the
  stack) and \<^verbatim>\<open>R\<close> (return the value of a body). The result \<open>None\<close> stands for a failed assertion, an
  \<^verbatim>\<open>abort\<close>, the exit with the message that a constant cannot be applied, or the exit of a full stack
  (\<^const>\<open>STACK_MAX\<close> entries). A C \<^verbatim>\<open>int\<close> is an \<open>int\<close>;
  the values are bounded by the size of the program.
\<close>

subsection \<open>Instructions\<close>

datatype opcode =
    OP_BEGIN | OP_END | OP_GLOBSTART | OP_SPARK | OP_RETURN | OP_DO | OP_JFUN | OP_JFALSE | OP_JUMP
  | OP_PUSH | OP_UPDATE | OP_ALLOC | OP_SQUEEZE | OP_MKCAP | OP_MKFRAME | OP_BIF | OP_PUSHNIL
  | OP_PUSHNUMBER | OP_PUSHSTRING | OP_POP | OP_ERROR | OP_EVAL | OP_CALL | OP_JCMP | OP_CONSN
  | OP_ITEMN | OP_JEQ | OP_INVALID

record instruction =
  i_opcode :: opcode
  i_arg0 :: int
  i_arg1 :: int
  i_sl :: sourceloc
  i_expcount :: int

record funinfo =
  f_address :: nat
  f_addressne :: nat
  f_addressed :: nat
  f_arity :: nat
  f_stacksize :: int
  f_name :: nat

text \<open>What is known of each stack position; the count is the length of the list. \<^verbatim>\<open>invalid\<close> is set by
  instructions after which nothing follows.\<close>

abbreviation (input) "STATUS_UNKNOWN \<equiv> 0 :: nat"
abbreviation (input) "STATUS_SPARKED \<equiv> 1 :: nat"
abbreviation (input) "STATUS_EVALUATED \<equiv> 2 :: nat"

record stackinfo =
  si_status :: "nat list"
  si_invalid :: bool

abbreviation si_count :: "stackinfo \<Rightarrow> nat" where
  "si_count si \<equiv> length (si_status si)"

definition stackinfo_new :: "stackinfo option \<Rightarrow> stackinfo" where
  "stackinfo_new source = \<lparr>si_status = (case source of Some si \<Rightarrow> si_status si | None \<Rightarrow> []), si_invalid = False\<rparr>"

definition statusat :: "stackinfo \<Rightarrow> int \<Rightarrow> nat option" where
  "statusat si index = (if 0 \<le> index \<and> index < int (si_count si) then Some (si_status si ! nat index) else None)"

definition setstatusat :: "stackinfo \<Rightarrow> int \<Rightarrow> nat \<Rightarrow> stackinfo option" where
  "setstatusat si index i =
     (if 0 \<le> index \<and> index < int (si_count si) then Some (si\<lparr>si_status := (si_status si)[nat index := i]\<rparr>) else None)"

definition pushstatus :: "stackinfo \<Rightarrow> nat \<Rightarrow> stackinfo" where
  "pushstatus si i = si\<lparr>si_status := si_status si @ [i]\<rparr>"

definition popstatus :: "stackinfo \<Rightarrow> int \<Rightarrow> stackinfo option" where
  "popstatus si n =
     (if 0 \<le> n \<and> n \<le> int (si_count si) then Some (si\<lparr>si_status := take (si_count si - nat n) (si_status si)\<rparr>) else None)"

record compilation =
  c_instructions :: "instruction list"
  c_finfo :: "funinfo list"
  c_stringmap :: "string list"
  c_si :: "stackinfo option"
  c_evaldoaddr :: nat
  c_erroraddr :: nat
  c_itemfno :: nat

definition add_string :: "compilation \<Rightarrow> string \<Rightarrow> nat \<times> compilation" where
  "add_string cmp str =
     (let pos = length (takeWhile (\<lambda>s. s \<noteq> str) (c_stringmap cmp))
      in if pos < length (c_stringmap cmp) then (pos, cmp)
         else (pos, cmp\<lparr>c_stringmap := c_stringmap cmp @ [str]\<rparr>))"

subsection \<open>Adding an instruction\<close>

definition si_add :: "opcode \<Rightarrow> int \<Rightarrow> int \<Rightarrow> stackinfo \<Rightarrow> stackinfo option" where
  "si_add opcode arg0 arg1 si =
     (case opcode of
        OP_SPARK \<Rightarrow> do { s \<leftarrow> statusat si arg0; if s < STATUS_SPARKED then setstatusat si arg0 STATUS_SPARKED else Some si }
      | OP_RETURN \<Rightarrow> Some (si\<lparr>si_invalid := True\<rparr>)
      | OP_JFUN \<Rightarrow> Some (si\<lparr>si_invalid := True\<rparr>)
      | OP_JFALSE \<Rightarrow> popstatus si 1
      | OP_PUSH \<Rightarrow> do { s \<leftarrow> statusat si arg0; Some (pushstatus si s) }
      | OP_POP \<Rightarrow> popstatus si arg0
      | OP_UPDATE \<Rightarrow>
          do { s \<leftarrow> statusat si (int (si_count si) - 1);
               si1 \<leftarrow> setstatusat si arg0 s;
               popstatus si1 1 }
      | OP_ALLOC \<Rightarrow> Some (si\<lparr>si_status := si_status si @ replicate (nat arg0) STATUS_UNKNOWN\<rparr>)
      | OP_SQUEEZE \<Rightarrow>
          (if 0 \<le> arg0 \<and> 0 \<le> arg1 \<and> 0 \<le> int (si_count si) - arg0 - arg1
           then Some (si\<lparr>si_status := take (si_count si - nat arg0 - nat arg1) (si_status si) @ drop (si_count si - nat arg0) (si_status si)\<rparr>)
           else None)
      | OP_MKCAP \<Rightarrow> do { si1 \<leftarrow> popstatus si arg1; Some (pushstatus si1 STATUS_EVALUATED) }
      | OP_MKFRAME \<Rightarrow> do { si1 \<leftarrow> popstatus si arg1; Some (pushstatus si1 STATUS_UNKNOWN) }
      | OP_BIF \<Rightarrow>
          do { si1 \<leftarrow> popstatus si (int (bi_nargs (builtin_info ! nat arg0)) - 1);
               setstatusat si1 (int (si_count si1) - 1)
                 (if bi_reteval (builtin_info ! nat arg0) = ALWAYS_VALUE then STATUS_EVALUATED else STATUS_UNKNOWN) }
      | OP_PUSHNIL \<Rightarrow> Some (pushstatus si STATUS_EVALUATED)
      | OP_PUSHNUMBER \<Rightarrow> Some (pushstatus si STATUS_EVALUATED)
      | OP_PUSHSTRING \<Rightarrow> Some (pushstatus si STATUS_EVALUATED)
      | OP_ERROR \<Rightarrow> Some (si\<lparr>si_invalid := True\<rparr>)
      | OP_INVALID \<Rightarrow> Some (si\<lparr>si_invalid := True\<rparr>)
      | OP_EVAL \<Rightarrow> setstatusat si arg0 STATUS_EVALUATED
      | OP_CALL \<Rightarrow> None
      | OP_JCMP \<Rightarrow> None
      | OP_CONSN \<Rightarrow> do { si1 \<leftarrow> popstatus si (arg0 - 1); setstatusat si1 (int (si_count si1) - 1) STATUS_EVALUATED }
      | OP_ITEMN \<Rightarrow> setstatusat si (int (si_count si) - 1) STATUS_UNKNOWN
      | _ \<Rightarrow> Some si)"

definition add_instruction :: "compilation \<Rightarrow> sourceloc \<Rightarrow> opcode \<Rightarrow> int \<Rightarrow> int \<Rightarrow> compilation option" where
  "add_instruction cmp l opcode arg0 arg1 =
     (let instr = \<lparr>i_opcode = opcode, i_arg0 = arg0, i_arg1 = arg1, i_sl = l,
                   i_expcount = (case c_si cmp of Some si \<Rightarrow> int (si_count si) | None \<Rightarrow> - 1)\<rparr>;
          cmp1 = cmp\<lparr>c_instructions := c_instructions cmp @ [instr]\<rparr>
      in case c_si cmp of
           None \<Rightarrow> Some cmp1
         | Some si \<Rightarrow>
             if si_invalid si then None
             else do { si1 \<leftarrow> si_add opcode arg0 arg1 si; Some (cmp1\<lparr>c_si := Some si1\<rparr>) })"

subsection \<open>The macros\<close>

definition MKCAP :: "compilation \<Rightarrow> sourceloc \<Rightarrow> nat \<Rightarrow> nat \<Rightarrow> compilation option" where
  "MKCAP cmp l a b = add_instruction cmp l OP_MKCAP (int a) (int b)"

definition UPDATE :: "compilation \<Rightarrow> sourceloc \<Rightarrow> int \<Rightarrow> compilation option" where
  "UPDATE cmp l a = do { si \<leftarrow> c_si cmp; add_instruction cmp l OP_UPDATE (int (si_count si) - 1 - a) 0 }"

definition SPARK :: "compilation \<Rightarrow> sourceloc \<Rightarrow> int \<Rightarrow> compilation option" where
  "SPARK cmp l a =
     do { si \<leftarrow> c_si cmp;
          let pos = int (si_count si) - 1 - a;
          s \<leftarrow> statusat si pos;
          if s < STATUS_SPARKED then add_instruction cmp l OP_SPARK pos 0 else Some cmp }"

definition EVAL :: "compilation \<Rightarrow> sourceloc \<Rightarrow> int \<Rightarrow> compilation option" where
  "EVAL cmp l a =
     do { si \<leftarrow> c_si cmp;
          let pos = int (si_count si) - 1 - a;
          s \<leftarrow> statusat si pos;
          if s < STATUS_EVALUATED then add_instruction cmp l OP_EVAL pos 0 else Some cmp }"

definition PUSH :: "compilation \<Rightarrow> sourceloc \<Rightarrow> int \<Rightarrow> compilation option" where
  "PUSH cmp l a = do { si \<leftarrow> c_si cmp; add_instruction cmp l OP_PUSH (int (si_count si) - 1 - a) 0 }"

fun EVAL_args :: "compilation \<Rightarrow> sourceloc \<Rightarrow> nat list \<Rightarrow> compilation option" where
  "EVAL_args cmp l [] = Some cmp"
| "EVAL_args cmp l (v # vs) = do { cmp1 \<leftarrow> EVAL cmp l (int v); EVAL_args cmp1 l vs }"

definition BIF :: "compilation \<Rightarrow> sourceloc \<Rightarrow> nat \<Rightarrow> compilation option" where
  "BIF cmp l b =
     do { cmp1 \<leftarrow> EVAL_args cmp l [0..<bi_nstrict (builtin_info ! b)];
          add_instruction cmp1 l OP_BIF (int b) 0 }"

definition num_word :: "64 word \<Rightarrow> nat \<Rightarrow> int" where
  "num_word d i = sint (ucast (drop_bit (32 * i) d) :: 32 word)"

definition PUSHNUMBER :: "compilation \<Rightarrow> sourceloc \<Rightarrow> 64 word \<Rightarrow> compilation option" where
  "PUSHNUMBER cmp l d = add_instruction cmp l OP_PUSHNUMBER (num_word d 0) (num_word d 1)"

definition PUSHSTRING :: "compilation \<Rightarrow> sourceloc \<Rightarrow> string \<Rightarrow> compilation option" where
  "PUSHSTRING cmp l str = (let (pos, cmp1) = add_string cmp str in add_instruction cmp1 l OP_PUSHSTRING (int pos) 0)"

text \<open>The jumps return the address of the instruction, which \<^verbatim>\<open>LABEL\<close> completes.\<close>

definition JFALSE :: "compilation \<Rightarrow> sourceloc \<Rightarrow> (compilation \<times> nat) option" where
  "JFALSE cmp l =
     do { cmp1 \<leftarrow> EVAL cmp l 0;
          cmp2 \<leftarrow> add_instruction cmp1 l OP_JFALSE 0 0;
          Some (cmp2, length (c_instructions cmp1)) }"

definition JEQ :: "compilation \<Rightarrow> sourceloc \<Rightarrow> int \<Rightarrow> (compilation \<times> nat) option" where
  "JEQ cmp l v =
     do { cmp1 \<leftarrow> EVAL cmp l 0;
          cmp2 \<leftarrow> add_instruction cmp1 l OP_JEQ 0 v;
          Some (cmp2, length (c_instructions cmp1)) }"

definition JUMP :: "compilation \<Rightarrow> sourceloc \<Rightarrow> (compilation \<times> nat) option" where
  "JUMP cmp l =
     do { cmp1 \<leftarrow> add_instruction cmp l OP_JUMP 0 0;
          Some (cmp1, length (c_instructions cmp)) }"

definition LABEL :: "compilation \<Rightarrow> nat \<Rightarrow> compilation" where
  "LABEL cmp addr =
     cmp\<lparr>c_instructions := (c_instructions cmp)[addr := (c_instructions cmp ! addr)
       \<lparr>i_arg0 := int (length (c_instructions cmp)) - int addr\<rparr>]\<rparr>"

text \<open>\<^verbatim>\<open>stackinfo_newswap\<close> and \<^verbatim>\<open>stackinfo_freeswap\<close>: work on a copy, go back to the original.\<close>

definition newswap :: "compilation \<Rightarrow> compilation" where
  "newswap cmp = cmp\<lparr>c_si := Some (stackinfo_new (c_si cmp))\<rparr>"

definition freeswap :: "compilation \<Rightarrow> stackinfo option \<Rightarrow> compilation" where
  "freeswap cmp tmp = cmp\<lparr>c_si := tmp\<rparr>"

subsection \<open>Functions\<close>

definition snode_fno :: "snode \<Rightarrow> nat option" where
  "snode_fno c = (case c of Builtin l b \<Rightarrow> Some b | Scref l i \<Rightarrow> Some (i + NUM_BUILTINS) | _ \<Rightarrow> None)"

definition function_nargs :: "source \<Rightarrow> nat \<Rightarrow> nat option" where
  "function_nargs src fno =
     (if fno < NUM_BUILTINS then Some (bi_nargs (builtin_info ! fno))
      else map_option (\<lambda>sc. sc_nargs sc) (get_scomb_index src (fno - NUM_BUILTINS)))"

definition function_strictin :: "source \<Rightarrow> nat \<Rightarrow> nat \<Rightarrow> bool option" where
  "function_strictin src fno argno =
     (if fno < NUM_BUILTINS then Some (argno < bi_nstrict (builtin_info ! fno))
      else do { sc \<leftarrow> get_scomb_index src (fno - NUM_BUILTINS);
                st \<leftarrow> sc_strictin sc;
                if argno < length st then Some (st ! argno) else None })"

text \<open>Whether the strict arguments of a function on the stack have at least a given status:
  \<^verbatim>\<open>have_reqsparks\<close> and \<^verbatim>\<open>have_resvals\<close>.\<close>

fun have_status :: "source \<Rightarrow> nat \<Rightarrow> stackinfo \<Rightarrow> nat \<Rightarrow> nat list \<Rightarrow> bool option" where
  "have_status src fno si lim [] = Some True"
| "have_status src fno si lim (i # is) =
     do { s \<leftarrow> statusat si (int (si_count si) - 1 - int i);
          if s < lim
          then do { st \<leftarrow> function_strictin src fno i;
                    if st then Some False else have_status src fno si lim is }
          else have_status src fno si lim is }"

definition have_reqsparks :: "source \<Rightarrow> nat \<Rightarrow> stackinfo \<Rightarrow> bool option" where
  "have_reqsparks src fno si =
     do { nargs \<leftarrow> function_nargs src fno;
          if nargs \<le> si_count si then have_status src fno si STATUS_SPARKED [0..<nargs] else None }"

definition have_resvals :: "source \<Rightarrow> nat \<Rightarrow> stackinfo \<Rightarrow> bool option" where
  "have_resvals src fno si =
     do { nargs \<leftarrow> function_nargs src fno;
          if nargs \<le> si_count si then have_status src fno si STATUS_EVALUATED [0..<nargs] else None }"

definition JFUN :: "source \<Rightarrow> compilation \<Rightarrow> sourceloc \<Rightarrow> nat \<Rightarrow> compilation option" where
  "JFUN src cmp l a =
     do { si \<leftarrow> c_si cmp;
          vals \<leftarrow> have_resvals src a si;
          if vals then add_instruction cmp l OP_JFUN (int a) 2
          else do { sparks \<leftarrow> have_reqsparks src a si;
                    add_instruction cmp l OP_JFUN (int a) (if sparks then 1 else 0) } }"

text \<open>A supercombinator without arguments whose body is a constant or another reference is
  replaced by that. The recursion follows references from one such supercombinator to the
  next and does not end when they form a cycle.\<close>

partial_function (option) domkframe :: "source \<Rightarrow> compilation \<Rightarrow> sourceloc \<Rightarrow> nat \<Rightarrow> nat \<Rightarrow> compilation option" where
  "domkframe src cmp l fno n =
     (if NUM_BUILTINS \<le> fno then
        do { sc \<leftarrow> get_scomb_index src (fno - NUM_BUILTINS);
             if sc_nargs sc = 0 then
               if n \<noteq> 0 then None
               else do { c \<leftarrow> sc_body sc;
                         case c of
                           Number l1 d \<Rightarrow> PUSHNUMBER cmp l1 d
                         | StringNode l1 v \<Rightarrow> PUSHSTRING cmp l1 v
                         | NilNode l1 \<Rightarrow> add_instruction cmp l1 OP_PUSHNIL 0 0
                         | Scref l1 i \<Rightarrow>
                             do { k \<leftarrow> function_nargs src (i + NUM_BUILTINS);
                                  if k = 0 then domkframe src cmp l1 (i + NUM_BUILTINS) 0
                                  else MKCAP cmp l1 (i + NUM_BUILTINS) 0 }
                         | _ \<Rightarrow> add_instruction cmp l OP_MKFRAME (int fno) (int n) }
             else add_instruction cmp l OP_MKFRAME (int fno) (int n) }
      else if fno = B_CONS then if n = 2 then BIF cmp l B_CONS else None
      else add_instruction cmp l OP_MKFRAME (int fno) (int n))"

declare domkframe.simps [code]

subsection \<open>Floating-point constants\<close>

text \<open>\<^verbatim>\<open>floor(num) == num\<close> and \<^verbatim>\<open>(int)num\<close> on the bits of a double. A value outside the range of \<^verbatim>\<open>int\<close>
  is converted to the smallest \<^verbatim>\<open>int\<close>, as the processor does.\<close>

definition dbl_exp :: "64 word \<Rightarrow> nat" where
  "dbl_exp d = unat (ucast (drop_bit 52 d) :: 11 word)"

definition dbl_man :: "64 word \<Rightarrow> nat" where
  "dbl_man d = unat (ucast d :: 52 word)"

definition num_integral :: "64 word \<Rightarrow> bool" where
  "num_integral d =
     (if dbl_exp d = 2047 then dbl_man d = 0
      else if dbl_exp d < 1023 then dbl_exp d = 0 \<and> dbl_man d = 0
      else dbl_exp d \<ge> 1075 \<or> dbl_man d mod 2 ^ (1075 - dbl_exp d) = 0)"

definition num_to_int :: "64 word \<Rightarrow> int" where
  "num_to_int d =
     (if dbl_exp d < 1023 then 0
      else if dbl_exp d \<ge> 1054 then - 2147483648
      else let v = int ((2 ^ 52 + dbl_man d) div 2 ^ (1075 - dbl_exp d)) in if bit d 63 then - v else v)"

subsection \<open>Shapes of expressions\<close>

definition B_EQ :: nat where
  "B_EQ = 5"

fun app_parts :: "snode \<Rightarrow> (snode \<times> snode) option" where
  "app_parts (Application l s a b) = Some (a, b)"
| "app_parts e = None"

fun num_of :: "snode \<Rightarrow> (64 word) option" where
  "num_of (Number l d) = Some d"
| "num_of e = None"

fun is_sym :: "snode \<Rightarrow> bool" where
  "is_sym (Symbol l x) = True"
| "is_sym e = False"

text \<open>A comparison with a whole number.\<close>

definition eq_cond :: "snode \<Rightarrow> (snode \<times> int) option" where
  "eq_cond cond =
     do { (f, r) \<leftarrow> app_parts cond;
          (g, x) \<leftarrow> app_parts f;
          d \<leftarrow> num_of r;
          if is_bif B_EQ g \<and> num_integral d then Some (x, num_to_int d) else None }"

definition if_parts :: "snode \<Rightarrow> (snode \<times> snode \<times> snode) option" where
  "if_parts c =
     (if is_bif B_IF (spine_head c) \<and> spine_len c = 3
      then Some (spine_args c ! 0, spine_args c ! 1, spine_args c ! 2) else None)"

definition seq_parts :: "snode \<Rightarrow> (snode \<times> snode) option" where
  "seq_parts c =
     (if is_bif B_SEQ (spine_head c) \<and> spine_len c = 2 then Some (spine_args c ! 0, spine_args c ! 1) else None)"

definition item_parts :: "source \<Rightarrow> snode \<Rightarrow> (int \<times> snode) option" where
  "item_parts src c =
     (case spine_head c of
        Scref l i \<Rightarrow>
          do { sc \<leftarrow> get_scomb_index src i;
               if sc_nargs sc = 2 \<and> spine_len c = 2 \<and> sc_name sc = ''item''
               then do { d \<leftarrow> num_of (spine_args c ! 0);
                         if num_integral d then Some (num_to_int d, spine_args c ! 1) else None }
               else None }
      | _ \<Rightarrow> None)"

definition iscons :: "snode \<Rightarrow> bool" where
  "iscons c \<longleftrightarrow> spine_len c = 2 \<and> (is_bif B_CONS (spine_head c) \<or> is_bif B_LCONS (spine_head c))"

fun spine_pairs :: "snode \<Rightarrow> (snode \<times> bool) list" where
  "spine_pairs (Application l s a b) = (b, s) # spine_pairs a"
| "spine_pairs e = []"

lemma if_parts_smaller: "if_parts c = Some (x, y, z) \<Longrightarrow> nodes x < nodes c \<and> nodes y < nodes c \<and> nodes z < nodes c"
  using length_spine_args [of c] by (auto simp: if_parts_def split: if_splits intro!: spine_args_smaller)

lemma seq_parts_smaller: "seq_parts c = Some (x, y) \<Longrightarrow> nodes x < nodes c \<and> nodes y < nodes c"
  using length_spine_args [of c] by (auto simp: seq_parts_def split: if_splits intro!: spine_args_smaller)

lemma item_parts_smaller: "item_parts src c = Some (i, x) \<Longrightarrow> nodes x < nodes c"
  using length_spine_args [of c] by (auto simp: item_parts_def bind_eq_Some_conv split: if_splits snode.splits intro!: spine_args_smaller)

lemma app_parts_smaller: "app_parts c = Some (a, b) \<Longrightarrow> nodes a < nodes c \<and> nodes b < nodes c"
  by (cases c) auto

lemma eq_cond_smaller: "eq_cond c = Some (x, v) \<Longrightarrow> nodes x < nodes c"
  by (auto simp: eq_cond_def bind_eq_Some_conv split: if_splits dest!: app_parts_smaller)

lemmas parts_smaller = if_parts_smaller seq_parts_smaller item_parts_smaller eq_cond_smaller

subsection \<open>Variables\<close>

type_synonym pmap = "(string \<times> nat) list"

definition presolve :: "pmap \<Rightarrow> string \<Rightarrow> nat option" where
  "presolve p x = map_of p x"

fun getusage :: "snode \<Rightarrow> string list \<Rightarrow> string list" and getusage_recs :: "letrec list \<Rightarrow> string list \<Rightarrow> string list" where
  "getusage (Application l s a b) used = getusage b (getusage a used)"
| "getusage (LetrecNode l rs b) used = getusage b (getusage_recs rs used)"
| "getusage (Symbol l x) used = (if list_contains_string (map Some used) (Some x) then used else x # used)"
| "getusage e used = used"
| "getusage_recs [] used = used"
| "getusage_recs (Letrec n v st sc # rs) used = getusage_recs rs (getusage v used)"

definition letrecs_used :: "snode \<Rightarrow> letrec list \<Rightarrow> nat" where
  "letrecs_used expr first =
     (let used = getusage expr [] in length (filter (\<lambda>r. list_contains_string (map Some used) (Some (rec_name r))) first))"

text \<open>The first loop of \<^verbatim>\<open>Cletrec\<close>: the names and places of the bindings are pushed on the two stacks of the
  map, which have the same height.\<close>

definition bind_places :: "letrec list \<Rightarrow> pmap \<Rightarrow> nat \<Rightarrow> pmap" where
  "bind_places rs p n = p @ zip (map rec_name rs) [Suc n..<Suc n + length rs]"

definition bind_recs :: "letrec list \<Rightarrow> pmap \<Rightarrow> nat \<Rightarrow> pmap option" where
  "bind_recs rs p n = (if stack_room (length p + length rs) then Some (bind_places rs p n) else None)"

subsection \<open>The schemes C and E\<close>

function (sequential) compC :: "source \<Rightarrow> compilation \<Rightarrow> snode \<Rightarrow> pmap \<Rightarrow> nat \<Rightarrow> compilation option"
  and compC_args :: "source \<Rightarrow> compilation \<Rightarrow> snode \<Rightarrow> pmap \<Rightarrow> nat \<Rightarrow> compilation option"
  and compE :: "source \<Rightarrow> compilation \<Rightarrow> snode \<Rightarrow> pmap \<Rightarrow> nat \<Rightarrow> compilation option"
  and compE_args :: "source \<Rightarrow> compilation \<Rightarrow> snode \<Rightarrow> pmap \<Rightarrow> nat \<Rightarrow> compilation option"
  and Cletrec :: "source \<Rightarrow> compilation \<Rightarrow> letrec list \<Rightarrow> pmap \<Rightarrow> nat \<Rightarrow> bool \<Rightarrow> compilation option"
  and Cletrec_rest :: "source \<Rightarrow> compilation \<Rightarrow> letrec list \<Rightarrow> pmap \<Rightarrow> nat \<Rightarrow> bool \<Rightarrow> compilation option" where
  "compC src cmp (Application l s a b) p n =
     (let c = Application l s a b; app = spine_head c; m = spine_len c
      in do { cmp1 \<leftarrow> compC_args src cmp c p n;
              fno \<leftarrow> snode_fno app;
              k \<leftarrow> function_nargs src fno;
              if k < m then None
              else if m = k then domkframe src cmp1 (sl app) fno k
              else MKCAP cmp1 (sl app) fno m })"
| "compC src cmp (LetrecNode l rs b) p n =
     do { p' \<leftarrow> bind_recs rs p n;
          cmp1 \<leftarrow> Cletrec src cmp rs p' n False;
          cmp2 \<leftarrow> compC src cmp1 b p' (n + length rs);
          add_instruction cmp2 l OP_SQUEEZE 1 (int (length rs)) }"
| "compC src cmp (Symbol l x) p n = do { i \<leftarrow> presolve p x; PUSH cmp l (int n - int i) }"
| "compC src cmp (NilNode l) p n = add_instruction cmp l OP_PUSHNIL 0 0"
| "compC src cmp (Number l d) p n = PUSHNUMBER cmp l d"
| "compC src cmp (StringNode l v) p n = PUSHSTRING cmp l v"
| "compC src cmp c p n =
     do { fno \<leftarrow> snode_fno c;
          k \<leftarrow> function_nargs src fno;
          if k = 0 then domkframe src cmp (sl c) fno 0 else MKCAP cmp (sl c) fno 0 }"
| "compC_args src cmp (Application l s a b) p n = do { cmp1 \<leftarrow> compC src cmp b p n; compC_args src cmp1 a p (n + 1) }"
| "compC_args src cmp e p n = Some cmp"
| "compE src cmp (Application l s a b) p n =
     (let c = Application l s a b; app = spine_head c; m = spine_len c
      in do { fno \<leftarrow> snode_fno app;
              k \<leftarrow> function_nargs src fno;
              if k < m then None
              else case if_parts c of
                Some (cond, truebranch, falsebranch) \<Rightarrow>
                  (case eq_cond cond of
                     Some (x, v) \<Rightarrow>
                       do { cmp1 \<leftarrow> compE src cmp x p n;
                            (cmp2, label) \<leftarrow> JEQ cmp1 (sl cond) v;
                            cmp3 \<leftarrow> add_instruction (newswap cmp2) (sl cond) OP_POP 1 0;
                            cmp4 \<leftarrow> compE src cmp3 falsebranch p n;
                            (cmp5, end_label) \<leftarrow> JUMP cmp4 (sl cond);
                            let cmp6 = LABEL (freeswap cmp5 (c_si cmp2)) label;
                            cmp7 \<leftarrow> add_instruction (newswap cmp6) (sl cond) OP_POP 1 0;
                            cmp8 \<leftarrow> compE src cmp7 truebranch p n;
                            si \<leftarrow> c_si cmp2;
                            si1 \<leftarrow> popstatus si 1;
                            Some (LABEL (freeswap cmp8 (Some (pushstatus si1 STATUS_SPARKED))) end_label) }
                   | None \<Rightarrow>
                       do { cmp1 \<leftarrow> compE src cmp cond p n;
                            (cmp2, label) \<leftarrow> JFALSE cmp1 (sl cond);
                            cmp3 \<leftarrow> compE src (newswap cmp2) truebranch p n;
                            (cmp4, end_label) \<leftarrow> JUMP cmp3 (sl cond);
                            let cmp5 = LABEL (freeswap cmp4 (c_si cmp2)) label;
                            cmp6 \<leftarrow> compE src (newswap cmp5) falsebranch p n;
                            si \<leftarrow> c_si cmp2;
                            Some (LABEL (freeswap cmp6 (Some (pushstatus si STATUS_SPARKED))) end_label) })
              | None \<Rightarrow>
                (case seq_parts c of
                   Some (expr1, expr2) \<Rightarrow>
                     do { cmp1 \<leftarrow> compE src cmp expr1 p n;
                          cmp2 \<leftarrow> EVAL cmp1 (sl expr1) 0;
                          cmp3 \<leftarrow> add_instruction cmp2 (sl expr1) OP_POP 1 0;
                          compE src cmp3 expr2 p n }
                 | None \<Rightarrow>
                   (case item_parts src c of
                      Some (index, e) \<Rightarrow>
                        do { cmp1 \<leftarrow> compE src cmp e p n;
                             cmp2 \<leftarrow> add_instruction cmp1 (sl app) OP_ITEMN index 0;
                             SPARK cmp2 (sl app) 0 }
                    | None \<Rightarrow>
                        do { cmp1 \<leftarrow> compE_args src cmp c p n;
                             if m = k then
                               if fno < NUM_BUILTINS then
                                 if bi_purity (builtin_info ! fno) = PURE then
                                   do { cmp2 \<leftarrow> BIF cmp1 (sl app) fno;
                                        if bi_reteval (builtin_info ! fno) = ALWAYS_VALUE then Some cmp2 else SPARK cmp2 (sl app) 0 }
                                 else do { cmp2 \<leftarrow> domkframe src cmp1 (sl app) fno k; EVAL cmp2 (sl app) 0 }
                               else do { cmp2 \<leftarrow> domkframe src cmp1 (sl app) fno k; SPARK cmp2 (sl app) 0 }
                             else do { cmp2 \<leftarrow> MKCAP cmp1 (sl app) fno m; SPARK cmp2 (sl app) 0 } })) })"
| "compE src cmp (LetrecNode l rs b) p n =
     do { p' \<leftarrow> bind_recs rs p n;
          cmp1 \<leftarrow> Cletrec src cmp rs p' n True;
          cmp2 \<leftarrow> compE src cmp1 b p' (n + length rs);
          add_instruction cmp2 l OP_SQUEEZE 1 (int (length rs)) }"
| "compE src cmp (Symbol l x) p n =
     do { i \<leftarrow> presolve p x;
          cmp1 \<leftarrow> SPARK cmp l (int n - int i);
          PUSH cmp1 l (int n - int i) }"
| "compE src cmp c p n = do { cmp1 \<leftarrow> compC src cmp c p n; SPARK cmp1 (sl c) 0 }"
| "compE_args src cmp (Application l s a b) p n =
     do { cmp1 \<leftarrow> (if s then compE src cmp b p n else compC src cmp b p n);
          compE_args src cmp1 a p (n + 1) }"
| "compE_args src cmp e p n = Some cmp"
| "Cletrec src cmp [] p n strictcontext = Some cmp"
| "Cletrec src cmp (Letrec x v st sc # rs) p n strictcontext =
     (if strictcontext \<and> st \<and> letrecs_used v (Letrec x v st sc # rs) = 0
      then do { cmp1 \<leftarrow> compE src cmp v p n; Cletrec src cmp1 rs p (n + 1) strictcontext }
      else let count = length rs + 1
           in do { cmp1 \<leftarrow> add_instruction cmp (sl v) OP_ALLOC (int count) 0;
                   Cletrec_rest src cmp1 (Letrec x v st sc # rs) p (n + count) strictcontext })"
| "Cletrec_rest src cmp [] p n strictcontext = Some cmp"
| "Cletrec_rest src cmp (Letrec x v st sc # rs) p n strictcontext =
     do { cmp1 \<leftarrow> (if strictcontext \<and> st \<and> letrecs_used v (Letrec x v st sc # rs) = 0
                   then compE src cmp v p n else compC src cmp v p n);
          i \<leftarrow> presolve p x;
          cmp2 \<leftarrow> UPDATE cmp1 (sl v) (int n + 1 - int i);
          Cletrec_rest src cmp2 rs p n strictcontext }"
  by pat_completeness auto

termination
  by (relation "measure (case_sum
       (case_sum (\<lambda>(src, cmp, c, p, n). 3 * nodes c + 1) (case_sum (\<lambda>(src, cmp, c, p, n). 3 * nodes c) (\<lambda>(src, cmp, c, p, n). 3 * nodes c + 2)))
       (case_sum (\<lambda>(src, cmp, c, p, n). 3 * nodes c) (case_sum (\<lambda>(src, cmp, rs, p, n, b). 3 * nodes_recs rs + 1) (\<lambda>(src, cmp, rs, p, n, b). 3 * nodes_recs rs))))")
    (auto dest!: parts_smaller)

subsection \<open>The schemes S and R\<close>

fun comp_list :: "source \<Rightarrow> compilation \<Rightarrow> (snode \<times> bool) list \<Rightarrow> pmap \<Rightarrow> nat \<Rightarrow> compilation option" where
  "comp_list src cmp [] p n = Some cmp"
| "comp_list src cmp ((e, strict) # es) p n =
     do { cmp1 \<leftarrow> (if strict then compE src cmp e p n else compC src cmp e p n);
          comp_list src cmp1 es p (n + 1) }"

text \<open>How many of the expressions pass the arguments of the function on unchanged.\<close>

fun skip_args :: "pmap \<Rightarrow> stackinfo \<Rightarrow> (snode \<times> bool) list \<Rightarrow> nat \<Rightarrow> nat option" where
  "skip_args p si [] m = Some m"
| "skip_args p si ((e, strict) # es) m =
     (case e of
        Symbol l x \<Rightarrow>
          do { i \<leftarrow> presolve p x;
               if int i - 1 \<noteq> int m then Some m
               else if strict then
                 do { s \<leftarrow> statusat si (int m);
                      if s = STATUS_UNKNOWN then Some m else skip_args p si es (m + 1) }
               else skip_args p si es (m + 1) }
      | _ \<Rightarrow> Some m)"

definition compS :: "source \<Rightarrow> compilation \<Rightarrow> sourceloc \<Rightarrow> (snode \<times> bool) list \<Rightarrow> pmap \<Rightarrow> nat \<Rightarrow> compilation option" where
  "compS src cmp l exprs p n =
     do { si \<leftarrow> c_si cmp;
          m \<leftarrow> skip_args p si exprs 0;
          cmp1 \<leftarrow> comp_list src cmp (drop m exprs) p n;
          if 0 < int n - int m then add_instruction cmp1 l OP_SQUEEZE (int (length exprs) - int m) (int n - int m)
          else Some cmp1 }"

lemma iscons_smaller: "iscons c \<Longrightarrow> nodes (spine_args c ! 1) < nodes c"
  using length_spine_args [of c] by (intro spine_args_smaller) (simp add: iscons_def)

text \<open>The elements of a list built by nested calls of \<^verbatim>\<open>cons\<close>, and its tail. \<^verbatim>\<open>Ccons\<close> collects them on stacks.\<close>

function cons_items :: "snode \<Rightarrow> snode list" where
  "cons_items c = (if iscons c then spine_args c ! 0 # cons_items (spine_args c ! 1) else [c])"
  by pat_completeness auto

termination
  by (relation "measure nodes") (use iscons_smaller in auto)

definition Ccons :: "source \<Rightarrow> compilation \<Rightarrow> snode \<Rightarrow> pmap \<Rightarrow> nat \<Rightarrow> compilation option" where
  "Ccons src cmp c p n =
     (let s = cons_items c
      in if \<not> stack_room (length s) then None
         else do { cmp1 \<leftarrow> compS src cmp (sl c) (map (\<lambda>e. (e, False)) (rev s)) p n;
                   add_instruction cmp1 (sl c) OP_CONSN (int (length s)) 0 })"

text \<open>The strict arguments of a built-in function must have been started by now.\<close>

definition args_sparked :: "stackinfo \<Rightarrow> nat \<Rightarrow> bool" where
  "args_sparked si k \<longleftrightarrow> k \<le> si_count si \<and> (\<forall>argno < k. STATUS_SPARKED \<le> si_status si ! (si_count si - 1 - argno))"

definition R_bif :: "source \<Rightarrow> compilation \<Rightarrow> snode \<Rightarrow> pmap \<Rightarrow> nat \<Rightarrow> nat \<Rightarrow> compilation option" where
  "R_bif src cmp c p n bif =
     (let l = sl (spine_head c); bi = builtin_info ! bif
      in do { cmp1 \<leftarrow> compE_args src cmp c p n;
              si1 \<leftarrow> c_si cmp1;
              cmp2 \<leftarrow>
                (if \<not> args_sparked si1 (bi_nstrict bi) then None
                 else if bi_purity bi = PURE then BIF cmp1 l bif
                 else do { cmp2 \<leftarrow> domkframe src cmp1 l bif (bi_nargs bi); EVAL cmp2 l 0 });
              cmp3 \<leftarrow> (if 0 < n then add_instruction cmp2 l OP_SQUEEZE 1 (int n) else Some cmp2);
              si3 \<leftarrow> c_si cmp3;
              if si_count si3 \<noteq> 1 then None
              else if bi_reteval bi = ALWAYS_VALUE then add_instruction cmp3 l OP_RETURN 0 0
              else do { cmp4 \<leftarrow> EVAL cmp3 l 0; add_instruction cmp4 l OP_DO 1 0 } })"

definition R_apply :: "source \<Rightarrow> compilation \<Rightarrow> sourceloc \<Rightarrow> compilation option" where
  "R_apply src cmp l =
     do { cmp1 \<leftarrow> SPARK cmp l 0;
          cmp2 \<leftarrow> EVAL cmp1 l 0;
          add_instruction cmp2 l OP_DO 0 0 }"

function (sequential) compR :: "source \<Rightarrow> compilation \<Rightarrow> snode \<Rightarrow> pmap \<Rightarrow> nat \<Rightarrow> compilation option" where
  "compR src cmp (Application l s a b) p n =
     (let c = Application l s a b; app = spine_head c; args = spine_pairs c; m = length args
      in if iscons c \<and> iscons b then do { cmp1 \<leftarrow> Ccons src cmp c p n; add_instruction cmp1 l OP_RETURN 0 0 }
         else if \<not> stack_room (if is_sym app then Suc m else m) then None
         else if is_sym app then
           do { cmp1 \<leftarrow> compS src cmp (sl app) (args @ [(app, False)]) p n;
                R_apply src cmp1 (sl app) }
         else
           do { fno \<leftarrow> snode_fno app;
                k \<leftarrow> function_nargs src fno;
                if k < m then
                  do { cmp1 \<leftarrow> compS src cmp (sl app) args p n;
                       cmp2 \<leftarrow> domkframe src cmp1 (sl app) fno k;
                       R_apply src cmp2 (sl app) }
                else if m = k then
                  if fno < NUM_BUILTINS then
                    (case if_parts c of
                       Some (cond, truebranch, falsebranch) \<Rightarrow>
                         (case eq_cond cond of
                            Some (x, v) \<Rightarrow>
                              do { cmp1 \<leftarrow> compE src cmp x p n;
                                   (cmp2, label) \<leftarrow> JEQ cmp1 (sl cond) v;
                                   cmp3 \<leftarrow> add_instruction (newswap cmp2) (sl cond) OP_POP 1 0;
                                   cmp4 \<leftarrow> compR src cmp3 falsebranch p n;
                                   let cmp5 = LABEL (freeswap cmp4 (c_si cmp2)) label;
                                   cmp6 \<leftarrow> add_instruction (newswap cmp5) (sl cond) OP_POP 1 0;
                                   cmp7 \<leftarrow> compR src cmp6 truebranch p n;
                                   Some (freeswap cmp7 (c_si cmp2)) }
                          | None \<Rightarrow>
                              do { cmp1 \<leftarrow> compE src cmp cond p n;
                                   (cmp2, label) \<leftarrow> JFALSE cmp1 (sl cond);
                                   cmp3 \<leftarrow> compR src (newswap cmp2) truebranch p n;
                                   let cmp4 = LABEL (freeswap cmp3 (c_si cmp2)) label;
                                   cmp5 \<leftarrow> compR src (newswap cmp4) falsebranch p n;
                                   Some (freeswap cmp5 (c_si cmp2)) })
                     | None \<Rightarrow>
                       (case seq_parts c of
                          Some (expr1, expr2) \<Rightarrow>
                            do { cmp1 \<leftarrow> compE src cmp expr1 p n;
                                 cmp2 \<leftarrow> EVAL cmp1 (sl expr1) 0;
                                 cmp3 \<leftarrow> add_instruction cmp2 (sl expr1) OP_POP 1 0;
                                 compR src cmp3 expr2 p n }
                        | None \<Rightarrow> R_bif src cmp c p n fno))
                  else
                    (case item_parts src c of
                       Some (index, e) \<Rightarrow>
                         do { cmp1 \<leftarrow> compE src cmp e p n;
                              cmp2 \<leftarrow> add_instruction cmp1 (sl app) OP_ITEMN index 1;
                              cmp3 \<leftarrow> (if 0 < n then add_instruction cmp2 (sl app) OP_SQUEEZE 1 (int n) else Some cmp2);
                              cmp4 \<leftarrow> EVAL cmp3 (sl app) 0;
                              add_instruction cmp4 (sl app) OP_DO 1 0 }
                     | None \<Rightarrow>
                         do { cmp1 \<leftarrow> compS src cmp (sl app) args p n; JFUN src cmp1 (sl app) fno })
                else
                  do { cmp1 \<leftarrow> compC_args src cmp c p n;
                       cmp2 \<leftarrow> MKCAP cmp1 (sl app) fno m;
                       add_instruction cmp2 (sl app) OP_RETURN 0 0 } })"
| "compR src cmp (LetrecNode l rs b) p n =
     do { p' \<leftarrow> bind_recs rs p n; cmp1 \<leftarrow> Cletrec src cmp rs p' n True; compR src cmp1 b p' (n + length rs) }"
| "compR src cmp (Symbol l x) p n =
     do { cmp1 \<leftarrow> compC src cmp (Symbol l x) p n;
          cmp2 \<leftarrow> add_instruction cmp1 l OP_SQUEEZE 1 (int n);
          cmp3 \<leftarrow> EVAL cmp2 l 0;
          add_instruction cmp3 l OP_RETURN 0 0 }"
| "compR src cmp (NilNode l) p n = do { cmp1 \<leftarrow> compC src cmp (NilNode l) p n; add_instruction cmp1 l OP_RETURN 0 0 }"
| "compR src cmp (Number l d) p n = do { cmp1 \<leftarrow> compC src cmp (Number l d) p n; add_instruction cmp1 l OP_RETURN 0 0 }"
| "compR src cmp (StringNode l v) p n = do { cmp1 \<leftarrow> compC src cmp (StringNode l v) p n; add_instruction cmp1 l OP_RETURN 0 0 }"
| "compR src cmp c p n =
     do { fno \<leftarrow> snode_fno c;
          k \<leftarrow> function_nargs src fno;
          if k = 0 then JFUN src cmp (sl c) fno
          else do { cmp1 \<leftarrow> MKCAP cmp (sl c) fno 0; add_instruction cmp1 (sl c) OP_RETURN 0 0 } }"
  by pat_completeness auto

termination
  by (relation "measure (\<lambda>(src, cmp, c, p, n). nodes c)") (auto dest!: parts_smaller)

declare cons_items.simps [simp del]

end
