(* ===== verification/Code_Gen.thy ===== *)
theory Code_Gen
  imports Bytecode
begin

text \<open>
  The rest of \<^verbatim>\<open>compiler/bytecode.c\<close>: the peephole pass over the code of a function, the code of
  supercombinators and of built-in functions, the prologue and the \<^verbatim>\<open>EVAL/DO\<close> sequences, and the
  compilation of a whole program. In the peephole pass addresses count from the start of the
  body of the function.
\<close>

subsection \<open>Peephole optimisation\<close>

definition is_jump :: "opcode \<Rightarrow> bool" where
  "is_jump opcode \<longleftrightarrow> opcode = OP_JFALSE \<or> opcode = OP_JUMP \<or> opcode = OP_JCMP \<or> opcode = OP_JEQ"

definition absolute :: "instruction list \<Rightarrow> instruction list" where
  "absolute instrs = map (\<lambda>(addr, i). if is_jump (i_opcode i) then i\<lparr>i_arg0 := i_arg0 i + int addr\<rparr> else i) (enumerate 0 instrs)"

definition relative :: "instruction list \<Rightarrow> instruction list" where
  "relative instrs = map (\<lambda>(addr, i). if is_jump (i_opcode i) then i\<lparr>i_arg0 := i_arg0 i - int addr\<rparr> else i) (enumerate 0 instrs)"

definition targets_ok :: "instruction list \<Rightarrow> bool" where
  "targets_ok instrs \<longleftrightarrow> list_all (\<lambda>i. is_jump (i_opcode i) \<longrightarrow> 0 \<le> i_arg0 i \<and> i_arg0 i < int (length instrs)) instrs"

definition is_compare :: "int \<Rightarrow> bool" where
  "is_compare b \<longleftrightarrow> 5 \<le> b \<and> b \<le> 10"

text \<open>The patterns, on the first instructions that are left.\<close>

definition spark_eval :: "instruction list \<Rightarrow> bool" where
  "spark_eval xs \<longleftrightarrow> 2 \<le> length xs \<and> i_opcode (xs ! 0) = OP_SPARK \<and> i_opcode (xs ! 1) = OP_EVAL \<and> i_arg0 (xs ! 0) = i_arg0 (xs ! 1)"

definition mkframe_eval :: "instruction list \<Rightarrow> bool" where
  "mkframe_eval xs \<longleftrightarrow> 2 \<le> length xs \<and> i_opcode (xs ! 0) = OP_MKFRAME \<and> i_opcode (xs ! 1) = OP_EVAL \<and> i_expcount (xs ! 1) - 1 = i_arg0 (xs ! 1)"

definition squeeze_return :: "instruction list \<Rightarrow> bool" where
  "squeeze_return xs \<longleftrightarrow> 2 \<le> length xs \<and> i_opcode (xs ! 0) = OP_SQUEEZE \<and> i_opcode (xs ! 1) = OP_RETURN"

definition bif_jfalse :: "instruction list \<Rightarrow> bool" where
  "bif_jfalse xs \<longleftrightarrow> 2 \<le> length xs \<and> i_opcode (xs ! 0) = OP_BIF \<and> i_opcode (xs ! 1) = OP_JFALSE \<and> is_compare (i_arg0 (xs ! 0))"

definition push_jeq :: "instruction list \<Rightarrow> bool" where
  "push_jeq xs \<longleftrightarrow> 4 \<le> length xs \<and> map i_opcode (take 4 xs) = [OP_PUSH, OP_JEQ, OP_POP, OP_PUSH] \<and> i_arg0 (xs ! 0) = i_arg0 (xs ! 3)"

definition push_eval_jeq :: "instruction list \<Rightarrow> bool" where
  "push_eval_jeq xs \<longleftrightarrow> 5 \<le> length xs \<and> map i_opcode (take 5 xs) = [OP_PUSH, OP_EVAL, OP_JEQ, OP_POP, OP_PUSH] \<and>
     i_arg0 (xs ! 1) = i_expcount (xs ! 0) \<and> i_arg0 (xs ! 0) = i_arg0 (xs ! 4)"

definition pop_push_jeq :: "int \<Rightarrow> instruction list \<Rightarrow> bool" where
  "pop_push_jeq a xs \<longleftrightarrow> 3 \<le> length xs \<and> map i_opcode (take 3 xs) = [OP_POP, OP_PUSH, OP_JEQ] \<and> a = i_arg0 (xs ! 1)"

definition pop_push_eval_jeq :: "int \<Rightarrow> instruction list \<Rightarrow> bool" where
  "pop_push_eval_jeq a xs \<longleftrightarrow> 4 \<le> length xs \<and> map i_opcode (take 4 xs) = [OP_POP, OP_PUSH, OP_EVAL, OP_JEQ] \<and>
     i_arg0 (xs ! 2) = i_expcount (xs ! 1) \<and> a = i_arg0 (xs ! 1)"

text \<open>One step of the pass on the instructions that are left; \<open>chain\<close> is the variable of the
  comparisons that just began, with whether it is evaluated before each. The step gives the
  new instructions, how many old ones they replace, the new address of each of those relative
  to the next free address, whether to run the pass again, and the next \<open>chain\<close>. It fails
  when a \<^verbatim>\<open>SQUEEZE\<close> before a \<^verbatim>\<open>RETURN\<close> removes nothing.\<close>

record peephole_action =
  pa_new :: "instruction list"
  pa_used :: nat
  pa_map :: "nat list"
  pa_changed :: bool
  pa_chain :: "(int \<times> bool) option"

definition action :: "instruction list \<Rightarrow> nat list \<Rightarrow> bool \<Rightarrow> (int \<times> bool) option \<Rightarrow> peephole_action option" where
  "action new mp changed chain = Some \<lparr>pa_new = new, pa_used = length mp, pa_map = mp, pa_changed = changed, pa_chain = chain\<rparr>"

definition peephole_step :: "instruction list \<Rightarrow> (int \<times> bool) option \<Rightarrow> peephole_action option" where
  "peephole_step xs chain =
     (if \<exists>a \<in> set_option chain. \<not> snd a \<and> pop_push_jeq (fst a) xs then action [xs ! 2] [0, 0, 0] False chain
      else if \<exists>a \<in> set_option chain. snd a \<and> pop_push_eval_jeq (fst a) xs then action [xs ! 3] [0, 0, 0, 0] False chain
      else if spark_eval xs then action [xs ! 1] [0, 0] True None
      else if mkframe_eval xs then action [(xs ! 0)\<lparr>i_opcode := OP_CALL\<rparr>] [0] False None
      else if squeeze_return xs then
        if 0 < i_arg1 (xs ! 0) then action [(xs ! 1)\<lparr>i_expcount := i_expcount (xs ! 0)\<rparr>] [0, 0] True None else None
      else if bif_jfalse xs then
        action [(xs ! 0)\<lparr>i_opcode := OP_JCMP, i_arg1 := i_arg0 (xs ! 0), i_arg0 := i_arg0 (xs ! 1)\<rparr>] [0, 0] True None
      else if push_jeq xs then action [xs ! 0, xs ! 1] [0, 1] False (Some (i_arg0 (xs ! 0), False))
      else if push_eval_jeq xs then action [xs ! 0, xs ! 1, xs ! 2] [0, 1, 2] False (Some (i_arg0 (xs ! 0), True))
      else if i_opcode (xs ! 0) = OP_POP then action [] [0] False None
      else action [xs ! 0] [0] False None)"

lemmas pattern_defs = spark_eval_def mkframe_eval_def squeeze_return_def bif_jfalse_def push_jeq_def push_eval_jeq_def
  pop_push_jeq_def pop_push_eval_jeq_def

lemma pattern_lengths:
  "spark_eval xs \<Longrightarrow> 2 \<le> length xs" "mkframe_eval xs \<Longrightarrow> 2 \<le> length xs" "squeeze_return xs \<Longrightarrow> 2 \<le> length xs"
  "bif_jfalse xs \<Longrightarrow> 2 \<le> length xs" "push_jeq xs \<Longrightarrow> 4 \<le> length xs" "push_eval_jeq xs \<Longrightarrow> 5 \<le> length xs"
  "pop_push_jeq a xs \<Longrightarrow> 3 \<le> length xs" "pop_push_eval_jeq a xs \<Longrightarrow> 4 \<le> length xs"
  by (simp_all only: pattern_defs)

lemma action_Some: "action new mp ch chain = Some pa \<longleftrightarrow> pa = \<lparr>pa_new = new, pa_used = length mp, pa_map = mp, pa_changed = ch, pa_chain = chain\<rparr>"
  by (auto simp: action_def)

lemma peephole_step_size:
  assumes "peephole_step xs chain = Some pa" "xs \<noteq> []"
  shows "0 < pa_used pa \<and> pa_used pa \<le> length xs \<and> length (pa_map pa) = pa_used pa \<and> length (pa_new pa) \<le> pa_used pa \<and>
    (pa_changed pa \<longrightarrow> length (pa_new pa) < pa_used pa) \<and> list_all (\<lambda>o1. o1 \<le> length (pa_new pa)) (pa_map pa)"
proof -
  have "1 \<le> length xs" using assms(2) by (simp add: Suc_le_eq)
  with assms(1) show ?thesis unfolding peephole_step_def
    by (auto simp: action_Some dest!: pattern_lengths split: if_split_asm)
qed

function peephole_pass :: "instruction list \<Rightarrow> nat \<Rightarrow> (int \<times> bool) option \<Rightarrow> (instruction list \<times> nat list \<times> bool) option" where
  "peephole_pass xs dest chain =
     (if xs = [] then Some ([], [], False)
      else case peephole_step xs chain of
             None \<Rightarrow> None
           | Some pa \<Rightarrow>
               do { (out, mp, changed) \<leftarrow> peephole_pass (drop (pa_used pa) xs) (dest + length (pa_new pa)) (pa_chain pa);
                    Some (pa_new pa @ out, map (\<lambda>o1. dest + o1) (pa_map pa) @ mp, pa_changed pa \<or> changed) })"
  by pat_completeness auto

termination
  by (relation "measure (\<lambda>(xs, dest, chain). length xs)") (use peephole_step_size in fastforce)+

declare peephole_pass.simps [simp del]

definition retarget :: "nat list \<Rightarrow> instruction list \<Rightarrow> instruction list" where
  "retarget mp out = map (\<lambda>i. if is_jump (i_opcode i) then i\<lparr>i_arg0 := int (mp ! nat (i_arg0 i))\<rparr> else i) out"

lemma peephole_pass_length:
  "peephole_pass xs dest chain = Some (out, mp, changed) \<Longrightarrow>
     length mp = length xs \<and> length out \<le> length xs \<and> (changed \<longrightarrow> length out < length xs) \<and> (\<forall>a \<in> set mp. dest \<le> a \<and> a \<le> dest + length out)"
proof (induction xs dest chain arbitrary: out mp changed rule: peephole_pass.induct)
  case (1 xs dest chain)
  show ?case
  proof (cases "xs = []")
    case False
    with "1.prems" obtain pa where pa: "peephole_step xs chain = Some pa"
      by (subst (asm) peephole_pass.simps) (auto split: option.splits)
    with "1.prems" False obtain out1 mp1 ch1 where
      r: "peephole_pass (drop (pa_used pa) xs) (dest + length (pa_new pa)) (pa_chain pa) = Some (out1, mp1, ch1)"
        "out = pa_new pa @ out1" "mp = map (\<lambda>o1. dest + o1) (pa_map pa) @ mp1" "changed = (pa_changed pa \<or> ch1)"
      by (subst (asm) peephole_pass.simps) (auto simp: bind_eq_Some_conv)
    from peephole_step_size [OF pa False] "1.IH" [OF False pa r(1)] show ?thesis
      unfolding r(2-4) by (fastforce simp: list_all_iff)
  qed (use "1.prems" in \<open>simp add: peephole_pass.simps\<close>)
qed

function peephole_loop :: "instruction list \<Rightarrow> instruction list option" where
  "peephole_loop xs =
     (case peephole_pass xs 0 None of
        None \<Rightarrow> None
      | Some (out, mp, changed) \<Rightarrow> if changed then peephole_loop (retarget mp out) else Some (retarget mp out))"
  by pat_completeness auto

termination
  by (relation "measure length") (auto simp: retarget_def dest!: peephole_pass_length)

declare peephole_loop.simps [simp del]

definition peephole :: "instruction list \<Rightarrow> instruction list option" where
  "peephole instrs =
     (if \<not> targets_ok (absolute instrs) then None
      else do { instrs1 \<leftarrow> peephole_loop (absolute instrs);
                if \<not> targets_ok instrs1 then None else Some (relative instrs1) })"

subsection \<open>Supercombinators\<close>

definition real_scname :: "source \<Rightarrow> string \<Rightarrow> string option" where
  "real_scname src s =
     (if has_genvar_prefix s
      then let (v, rest) = strtol (drop 2 s); n = long_to_int v
           in if n < 0 then None
              else if nat n < length (oldnames src) then Some ((oldnames src ! nat n) @ rest) else None
      else Some s)"

definition set_finfo :: "compilation \<Rightarrow> nat \<Rightarrow> (funinfo \<Rightarrow> funinfo) \<Rightarrow> compilation" where
  "set_finfo cmp fno f = cmp\<lparr>c_finfo := (c_finfo cmp)[fno := f (c_finfo cmp ! fno)]\<rparr>"

abbreviation here :: "compilation \<Rightarrow> nat" where
  "here cmp \<equiv> length (c_instructions cmp)"

fun SPARK_strict :: "compilation \<Rightarrow> sourceloc \<Rightarrow> bool list option \<Rightarrow> nat list \<Rightarrow> compilation option" where
  "SPARK_strict cmp l strictin [] = Some cmp"
| "SPARK_strict cmp l strictin (i # is) =
     do { cmp1 \<leftarrow> (case strictin of Some st \<Rightarrow> if st ! i then SPARK cmp l (int i) else Some cmp | None \<Rightarrow> Some cmp);
          SPARK_strict cmp1 l strictin is }"

fun EVAL_strict :: "compilation \<Rightarrow> sourceloc \<Rightarrow> bool list option \<Rightarrow> nat list \<Rightarrow> compilation option" where
  "EVAL_strict cmp l strictin [] = Some cmp"
| "EVAL_strict cmp l strictin (i # is) =
     do { cmp1 \<leftarrow> (case strictin of Some st \<Rightarrow> if st ! i then EVAL cmp l (int i) else Some cmp | None \<Rightarrow> Some cmp);
          EVAL_strict cmp1 l strictin is }"

definition with_stack :: "compilation \<Rightarrow> nat list \<Rightarrow> compilation" where
  "with_stack cmp st = cmp\<lparr>c_si := Some \<lparr>si_status = st, si_invalid = False\<rparr>\<rparr>"

text \<open>What precedes the body: an entry for frames whose strict arguments are not started, one for
  those whose strict arguments are started and one for those whose strict arguments are evaluated.\<close>

definition F_entry :: "compilation \<Rightarrow> nat \<Rightarrow> scomb \<Rightarrow> compilation option" where
  "F_entry cmp fno sc =
     (if sc_nospark sc then
        do { st \<leftarrow> sc_strictin sc;
             cmp1 \<leftarrow> add_instruction (with_stack cmp (map (\<lambda>i. if st ! i then STATUS_SPARKED else STATUS_UNKNOWN) [0..<sc_nargs sc]))
                      (sc_sl sc) OP_GLOBSTART (int fno) (int (sc_nargs sc));
             Some (set_finfo cmp1 fno (\<lambda>f. f\<lparr>f_addressne := here cmp1, f_addressed := here cmp1\<rparr>)) }
      else
        do { cmp1 \<leftarrow> add_instruction (with_stack cmp (replicate (sc_nargs sc) STATUS_UNKNOWN)) (sc_sl sc) OP_GLOBSTART (int fno) (int (sc_nargs sc));
             cmp2 \<leftarrow> SPARK_strict cmp1 (sc_sl sc) (sc_strictin sc) [0..<sc_nargs sc];
             let cmp3 = set_finfo cmp2 fno (\<lambda>f. f\<lparr>f_addressne := here cmp2\<rparr>);
             cmp4 \<leftarrow> EVAL_strict cmp3 (sc_sl sc) (sc_strictin sc) [0..<sc_nargs sc];
             Some (set_finfo cmp4 fno (\<lambda>f. f\<lparr>f_addressed := here cmp4\<rparr>)) })"

definition arg_map :: "scomb \<Rightarrow> pmap" where
  "arg_map sc = zip (sc_argnames sc) (rev [1..<Suc (sc_nargs sc)])"

definition compF :: "source \<Rightarrow> compilation \<Rightarrow> nat \<Rightarrow> scomb \<Rightarrow> compilation option" where
  "compF src cmp fno sc =
     do { let cmp0 = (if sc_name sc = ''item'' then cmp\<lparr>c_itemfno := fno\<rparr> else cmp);
          namestr \<leftarrow> real_scname src (sc_name sc);
          let (pos, cmp1) = add_string cmp0 namestr;
          let cmp2 = set_finfo cmp1 fno (\<lambda>f. f\<lparr>f_address := here cmp1, f_arity := sc_nargs sc, f_name := pos\<rparr>);
          cmp3 \<leftarrow> F_entry cmp2 fno sc;
          copy \<leftarrow> sc_body sc;
          pm \<leftarrow> (if stack_room (sc_nargs sc) then Some (arg_map sc) else None);
          cmp4 \<leftarrow> compR src cmp3 copy pm (sc_nargs sc);
          body \<leftarrow> peephole (drop (here cmp3) (c_instructions cmp4));
          Some (cmp4\<lparr>c_instructions := take (here cmp3) (c_instructions cmp4) @ body, c_si := c_si cmp\<rparr>) }"

fun compile_scombs :: "source \<Rightarrow> compilation \<Rightarrow> nat list \<Rightarrow> compilation option" where
  "compile_scombs src cmp [] = Some cmp"
| "compile_scombs src cmp (scno # scnos) =
     do { sc \<leftarrow> get_scomb_index src scno;
          cmp1 \<leftarrow> compF src cmp (NUM_BUILTINS + scno) sc;
          compile_scombs src cmp1 scnos }"

subsection \<open>Built-in functions, prologue and EVAL/DO sequences\<close>

definition builtin_if_code :: "compilation \<Rightarrow> compilation option" where
  "builtin_if_code cmp =
     do { cmp1 \<leftarrow> PUSH cmp noloc 0;
          cmp2 \<leftarrow> SPARK cmp1 noloc 0;
          (cmp3, label1) \<leftarrow> JFALSE cmp2 noloc;
          cmp4 \<leftarrow> PUSH (newswap cmp3) noloc 1;
          (cmp5, label2) \<leftarrow> JUMP cmp4 noloc;
          let cmp6 = LABEL (freeswap cmp5 (c_si cmp3)) label1;
          cmp7 \<leftarrow> PUSH cmp6 noloc 2;
          cmp8 \<leftarrow> EVAL (LABEL cmp7 label2) noloc 0;
          add_instruction cmp8 noloc OP_RETURN 0 0 }"

fun SPARK_args :: "compilation \<Rightarrow> nat list \<Rightarrow> compilation option" where
  "SPARK_args cmp [] = Some cmp"
| "SPARK_args cmp (v # vs) = do { cmp1 \<leftarrow> SPARK cmp noloc (int v); SPARK_args cmp1 vs }"

definition builtin_code :: "compilation \<Rightarrow> nat \<Rightarrow> compilation option" where
  "builtin_code cmp i =
     (let bi = builtin_info ! i
      in if i = B_IF then builtin_if_code cmp
         else do { cmp1 \<leftarrow> SPARK_args cmp [0..<bi_nstrict bi];
                   cmp2 \<leftarrow> BIF cmp1 noloc i;
                   cmp3 \<leftarrow> (if bi_reteval bi = ALWAYS_VALUE then Some cmp2 else EVAL cmp2 noloc 0);
                   add_instruction cmp3 noloc OP_RETURN 0 0 })"

fun compile_builtins :: "compilation \<Rightarrow> nat list \<Rightarrow> compilation option" where
  "compile_builtins cmp [] = Some cmp"
| "compile_builtins cmp (i # is) =
     (let bi = builtin_info ! i; (pos, cmp0) = add_string cmp (bi_name bi);
          cmp1 = set_finfo cmp0 i (\<lambda>f. f\<lparr>f_address := here cmp0, f_addressne := here cmp0, f_addressed := here cmp0, f_arity := bi_nargs bi, f_name := pos\<rparr>)
      in do { cmp2 \<leftarrow> add_instruction (with_stack cmp1 (replicate (bi_nargs bi) STATUS_UNKNOWN)) noloc OP_GLOBSTART (int i) (int (bi_nargs bi));
              cmp3 \<leftarrow> builtin_code cmp2 i;
              compile_builtins (cmp3\<lparr>c_si := c_si cmp\<rparr>) is })"

definition compile_prologue :: "source \<Rightarrow> compilation \<Rightarrow> compilation option" where
  "compile_prologue src cmp =
     do { i \<leftarrow> get_scomb src ''__start'';
          sc \<leftarrow> get_scomb_index src i;
          let l = sc_sl sc;
          cmp1 \<leftarrow> add_instruction (with_stack cmp [STATUS_UNKNOWN]) l OP_BEGIN 0 0;
          cmp2 \<leftarrow> domkframe src cmp1 l (i + NUM_BUILTINS) 1;
          cmp3 \<leftarrow> SPARK cmp2 l 0;
          cmp4 \<leftarrow> EVAL cmp3 l 0;
          cmp5 \<leftarrow> add_instruction cmp4 l OP_END 0 0;
          cmp6 \<leftarrow> add_instruction (with_stack (cmp5\<lparr>c_erroraddr := here cmp5\<rparr>) [STATUS_UNKNOWN]) noloc OP_ERROR 0 0;
          Some (cmp6\<lparr>c_si := None\<rparr>) }"

fun evaldo_sequences :: "compilation \<Rightarrow> nat list \<Rightarrow> compilation option" where
  "evaldo_sequences cmp [] = Some cmp"
| "evaldo_sequences cmp (i # is) =
     do { cmp1 \<leftarrow> EVAL (with_stack cmp (replicate i STATUS_UNKNOWN)) noloc 0;
          cmp2 \<leftarrow> add_instruction cmp1 noloc OP_DO 0 0;
          if here cmp2 = c_evaldoaddr cmp2 + i * 2 then evaldo_sequences cmp2 is else None }"

definition compile_evaldo :: "compilation \<Rightarrow> compilation option" where
  "compile_evaldo cmp =
     (let maxcount = fold (\<lambda>i mx. if mx = - 1 \<or> mx < i_expcount i then i_expcount i else mx) (c_instructions cmp) (- 1)
      in do { cmp1 \<leftarrow> evaldo_sequences (cmp\<lparr>c_evaldoaddr := here cmp\<rparr>) [1..<nat maxcount];
              Some (cmp1\<lparr>c_si := None\<rparr>) })"

subsection \<open>The whole program\<close>

fun stacksizes :: "instruction list \<Rightarrow> int \<Rightarrow> int \<Rightarrow> funinfo list \<Rightarrow> funinfo list" where
  "stacksizes [] fno stacksize fs = (if 0 \<le> fno then fs[nat fno := (fs ! nat fno)\<lparr>f_stacksize := stacksize\<rparr>] else fs)"
| "stacksizes (i # is) fno stacksize fs =
     (if i_opcode i = OP_GLOBSTART \<and> fno \<noteq> i_arg0 i
      then stacksizes is (i_arg0 i) (i_expcount i) (if 0 \<le> fno then fs[nat fno := (fs ! nat fno)\<lparr>f_stacksize := stacksize\<rparr>] else fs)
      else stacksizes is fno (if stacksize < i_expcount i then i_expcount i else stacksize) fs)"

definition compute_stacksizes :: "compilation \<Rightarrow> compilation" where
  "compute_stacksizes cmp = cmp\<lparr>c_finfo := stacksizes (c_instructions cmp) (- 1) 0 (c_finfo cmp)\<rparr>"

fun add_strings :: "compilation \<Rightarrow> string list \<Rightarrow> compilation" where
  "add_strings cmp [] = cmp"
| "add_strings cmp (s # ss) = add_strings (snd (add_string cmp s)) ss"

definition funinfo_zero :: funinfo where
  "funinfo_zero = \<lparr>f_address = 0, f_addressne = 0, f_addressed = 0, f_arity = 0, f_stacksize = 0, f_name = 0\<rparr>"

definition compilation_new :: "source \<Rightarrow> compilation" where
  "compilation_new src =
     add_strings \<lparr>c_instructions = [], c_finfo = replicate (NUM_BUILTINS + length (scombs src)) funinfo_zero,
                  c_stringmap = [], c_si = None, c_evaldoaddr = 0, c_erroraddr = 0, c_itemfno = 0\<rparr> (parsedfiles src)"

definition compile :: "source \<Rightarrow> compilation option" where
  "compile src =
     do { cmp1 \<leftarrow> compile_prologue src (compilation_new src);
          cmp2 \<leftarrow> compile_scombs src cmp1 [0..<length (scombs src)];
          cmp3 \<leftarrow> compile_builtins cmp2 [0..<NUM_BUILTINS];
          cmp4 \<leftarrow> compile_evaldo cmp3;
          cmp5 \<leftarrow> add_instruction cmp4 noloc OP_INVALID 0 0;
          Some (compute_stacksizes cmp5) }"

end
