(* ===== verification/Code_Types.thy ===== *)
theory Code_Types
  imports Code_Gen
begin

text \<open>
  The generated code is consistent: every instruction finds the stack height it was compiled
  for (\<^verbatim>\<open>expcount\<close>, which the interpreter uses instead of a stack pointer), its operands are on
  the stack, and jumps arrive where the height fits. The schemes never run into a failed
  assertion on programs that the lifting passes have prepared.
\<close>

subsection \<open>Consistent code\<close>

text \<open>What an instruction of a body needs; \<^verbatim>\<open>GLOBSTART\<close> stands only where a function starts.\<close>

definition operands_ok :: "source \<Rightarrow> instruction \<Rightarrow> bool" where
  "operands_ok src i =
     (let h = i_expcount i; a = i_arg0 i; b = i_arg1 i in
      case i_opcode i of
        OP_BEGIN \<Rightarrow> True | OP_END \<Rightarrow> 1 \<le> h | OP_GLOBSTART \<Rightarrow> False
      | OP_SPARK \<Rightarrow> 0 \<le> a \<and> a < h | OP_RETURN \<Rightarrow> 1 \<le> h | OP_DO \<Rightarrow> 1 \<le> h
      | OP_JFUN \<Rightarrow> 0 \<le> a \<and> (\<exists>k \<in> set_option (function_nargs src (nat a)). int k = h \<or> k = 0)
      | OP_JFALSE \<Rightarrow> 1 \<le> h | OP_JUMP \<Rightarrow> True | OP_PUSH \<Rightarrow> 0 \<le> a \<and> a < h
      | OP_UPDATE \<Rightarrow> 0 \<le> a \<and> a < h - 1 | OP_ALLOC \<Rightarrow> 0 \<le> a | OP_SQUEEZE \<Rightarrow> 0 \<le> a \<and> 0 < b \<and> a + b \<le> h
      | OP_MKCAP \<Rightarrow> 0 \<le> a \<and> 0 \<le> b \<and> b \<le> h \<and> (\<exists>k \<in> set_option (function_nargs src (nat a)). b < int k)
      | OP_MKFRAME \<Rightarrow> 0 \<le> a \<and> 0 \<le> b \<and> b \<le> h \<and> (\<exists>k \<in> set_option (function_nargs src (nat a)). b = int k)
      | OP_CALL \<Rightarrow> 0 \<le> a \<and> 0 \<le> b \<and> b \<le> h \<and> (\<exists>k \<in> set_option (function_nargs src (nat a)). b = int k)
      | OP_BIF \<Rightarrow> 0 \<le> a \<and> a < int NUM_BUILTINS \<and> int (bi_nargs (builtin_info ! nat a)) \<le> h
      | OP_PUSHNIL \<Rightarrow> True | OP_PUSHNUMBER \<Rightarrow> True | OP_PUSHSTRING \<Rightarrow> True
      | OP_POP \<Rightarrow> 0 \<le> a \<and> a \<le> h | OP_ERROR \<Rightarrow> True | OP_EVAL \<Rightarrow> 0 \<le> a \<and> a < h
      | OP_JCMP \<Rightarrow> 2 \<le> h \<and> is_compare b | OP_CONSN \<Rightarrow> 1 \<le> a \<and> a \<le> h | OP_ITEMN \<Rightarrow> 1 \<le> h
      | OP_JEQ \<Rightarrow> 1 \<le> h | OP_INVALID \<Rightarrow> True)"

text \<open>Where an instruction goes, as a relative address, and the height of the stack there.\<close>

definition succs :: "instruction \<Rightarrow> (int \<times> int) list" where
  "succs i =
     (let h = i_expcount i; a = i_arg0 i; b = i_arg1 i in
      case i_opcode i of
        OP_RETURN \<Rightarrow> [] | OP_JFUN \<Rightarrow> [] | OP_DO \<Rightarrow> [] | OP_END \<Rightarrow> [] | OP_ERROR \<Rightarrow> [] | OP_INVALID \<Rightarrow> []
      | OP_JUMP \<Rightarrow> [(a, h)] | OP_JFALSE \<Rightarrow> [(1, h - 1), (a, h - 1)] | OP_JEQ \<Rightarrow> [(1, h), (a, h)] | OP_JCMP \<Rightarrow> [(1, h - 2), (a, h - 2)]
      | OP_PUSH \<Rightarrow> [(1, h + 1)] | OP_PUSHNIL \<Rightarrow> [(1, h + 1)] | OP_PUSHNUMBER \<Rightarrow> [(1, h + 1)] | OP_PUSHSTRING \<Rightarrow> [(1, h + 1)]
      | OP_POP \<Rightarrow> [(1, h - a)] | OP_UPDATE \<Rightarrow> [(1, h - 1)] | OP_ALLOC \<Rightarrow> [(1, h + a)] | OP_SQUEEZE \<Rightarrow> [(1, h - b)]
      | OP_MKCAP \<Rightarrow> [(1, h - b + 1)] | OP_MKFRAME \<Rightarrow> [(1, h - b + 1)] | OP_CALL \<Rightarrow> [(1, h - b + 1)]
      | OP_BIF \<Rightarrow> [(1, h - int (bi_nargs (builtin_info ! nat a)) + 1)] | OP_CONSN \<Rightarrow> [(1, h - a + 1)]
      | _ \<Rightarrow> [(1, h)])"

text \<open>A piece of code: entered at the first instruction with height \<open>h\<close>, and left, if at all, at the
  end with at least the height \<open>e\<close>. What lies above the expected height is ignored.\<close>

definition height_at :: "instruction list \<Rightarrow> int option \<Rightarrow> int \<Rightarrow> int option" where
  "height_at xs e k = (if 0 \<le> k \<and> k < int (length xs) then Some (i_expcount (xs ! nat k)) else if k = int (length xs) then e else None)"

definition fits :: "instruction list \<Rightarrow> int option \<Rightarrow> int \<Rightarrow> int \<Rightarrow> bool" where
  "fits xs e k h \<longleftrightarrow> (\<exists>h' \<in> set_option (height_at xs e k). h' \<le> h)"

definition consistent :: "source \<Rightarrow> instruction list \<Rightarrow> int \<Rightarrow> int option \<Rightarrow> bool" where
  "consistent src xs h e \<longleftrightarrow> fits xs e 0 h \<and>
     (\<forall>a < length xs. operands_ok src (xs ! a) \<and> list_all (\<lambda>(d, h'). fits xs e (int a + d) h') (succs (xs ! a)))"

lemma height_at_append:
  "k < int (length xs) \<Longrightarrow> height_at (xs @ ys) e k = height_at xs m k"
  "int (length xs) \<le> k \<Longrightarrow> height_at (xs @ ys) e k = height_at ys e (k - int (length xs))"
  by (auto simp: height_at_def nth_append nat_diff_distrib)

lemma fits_append1: "fits xs m k h \<Longrightarrow> (\<And>m'. m = Some m' \<Longrightarrow> fits ys e 0 m') \<Longrightarrow> fits (xs @ ys) e k h"
proof -
  assume f: "fits xs m k h" and y: "\<And>m'. m = Some m' \<Longrightarrow> fits ys e 0 m'"
  show "fits (xs @ ys) e k h"
  proof (cases "k < int (length xs)")
    case True
    then show ?thesis using f height_at_append(1) [OF True, of ys e m] by (simp add: fits_def)
  next
    case False
    with f have k: "k = int (length xs)" "\<exists>m' \<le> h. m = Some m'" by (auto simp: fits_def height_at_def split: if_splits)
    then obtain m' where "m = Some m'" "m' \<le> h" by blast
    with y [of m'] k(1) height_at_append(2) [of xs k ys e] show ?thesis by (fastforce simp: fits_def)
  qed
qed

lemma fits_append2: "fits ys e k h \<Longrightarrow> 0 \<le> k \<Longrightarrow> fits (xs @ ys) e (int (length xs) + k) h"
  using height_at_append(2) [of xs "int (length xs) + k" ys e] by (simp add: fits_def)

lemma fits_nonneg: "fits xs e k h \<Longrightarrow> 0 \<le> k"
  by (auto simp: fits_def height_at_def split: if_splits)

lemma consistent_glue:
  assumes xs: "consistent src xs h m" and m: "\<And>m'. m = Some m' \<Longrightarrow> fits ys e 0 m'" and ys: "consistent src ys k e"
  shows "consistent src (xs @ ys) h e"
proof -
  have "operands_ok src ((xs @ ys) ! a) \<and> list_all (\<lambda>(d, h'). fits (xs @ ys) e (int a + d) h') (succs ((xs @ ys) ! a))"
    if a: "a < length (xs @ ys)" for a
  proof (cases "a < length xs")
    case True
    then have "operands_ok src (xs ! a) \<and> list_all (\<lambda>(d, h'). fits xs m (int a + d) h') (succs (xs ! a))"
      using xs by (simp add: consistent_def)
    then show ?thesis using True fits_append1 [OF _ m] by (fastforce simp: nth_append list_all_iff)
  next
    case False
    then obtain b where b: "a = length xs + b" "b < length ys" using a by (metis add_diff_inverse_nat length_append nat_add_left_cancel_less)
    then have "operands_ok src (ys ! b) \<and> list_all (\<lambda>(d, h'). fits ys e (int b + d) h') (succs (ys ! b))"
      using ys by (simp add: consistent_def)
    then show ?thesis using b fits_append2 [of ys e _ _ xs] fits_nonneg by (fastforce simp: nth_append list_all_iff algebra_simps)
  qed
  moreover have "fits (xs @ ys) e 0 h" using xs fits_append1 [of xs m 0 h ys e] m by (simp add: consistent_def)
  ultimately show ?thesis by (simp add: consistent_def)
qed

lemma consistent_append: "consistent src xs h (Some m) \<Longrightarrow> consistent src ys m e \<Longrightarrow> consistent src (xs @ ys) h e"
  by (rule consistent_glue [of src xs h "Some m" ys e m]) (simp_all add: consistent_def)

lemma consistent_join: "consistent src xs h None \<Longrightarrow> consistent src ys k e \<Longrightarrow> consistent src (xs @ ys) h e"
  by (rule consistent_glue [of src xs h None ys e k]) auto

lemma consistent_Nil: "consistent src [] h (Some h)"
  by (simp add: consistent_def fits_def height_at_def)

lemma consistent_single:
  "operands_ok src i \<Longrightarrow> i_expcount i = h \<Longrightarrow> list_all (\<lambda>(d, h'). d = 1 \<and> m \<le> h') (succs i) \<Longrightarrow> consistent src [i] h (Some m)"
  by (auto simp: consistent_def fits_def height_at_def list_all_iff)

lemma consistent_last: "operands_ok src i \<Longrightarrow> i_expcount i = h \<Longrightarrow> succs i = [] \<Longrightarrow> consistent src [i] h None"
  by (auto simp: consistent_def fits_def height_at_def)

text \<open>A conditional: after the test one branch follows, the other is jumped to.\<close>

lemma fits_Cons: "fits ys e k h \<Longrightarrow> 0 \<le> k \<Longrightarrow> fits (i # ys) e (1 + k) h"
  using fits_append2 [of ys e k h "[i]"] by simp

lemma consistent_Cons:
  assumes "operands_ok src i" "i_expcount i \<le> h" "list_all (\<lambda>(d, h'). fits (i # ys) e d h') (succs i)" "consistent src ys m e"
  shows "consistent src (i # ys) h e"
proof -
  have "operands_ok src ((i # ys) ! a) \<and> list_all (\<lambda>(d, h'). fits (i # ys) e (int a + d) h') (succs ((i # ys) ! a))"
    if a: "a < length (i # ys)" for a
  proof (cases a)
    case (Suc b)
    then have "operands_ok src (ys ! b) \<and> list_all (\<lambda>(d, h'). fits ys e (int b + d) h') (succs (ys ! b))"
      using assms(4) a by (simp add: consistent_def)
    then show ?thesis using Suc fits_Cons [of ys e _ _ i] fits_nonneg by (fastforce simp: list_all_iff algebra_simps)
  qed (use assms(1,3) in simp)
  moreover have "fits (i # ys) e 0 h" using assms(2) by (simp add: fits_def height_at_def)
  ultimately show ?thesis by (simp add: consistent_def)
qed

lemma consistent_branch:
  assumes j: "operands_ok src j" "i_expcount j \<le> h" "succs j = [(1, m), (int (length xs) + 1, m)]"
    and xs: "consistent src xs m None" and ys: "consistent src ys m e"
  shows "consistent src (j # xs @ ys) h e"
proof (rule consistent_Cons [OF j(1,2) _ consistent_join [OF xs ys]])
  have "fits (xs @ ys) e 0 m" using consistent_join [OF xs ys] by (simp add: consistent_def)
  from fits_Cons [OF this] have "fits (j # xs @ ys) e 1 m" by simp
  moreover have "fits ys e 0 m" using ys by (simp add: consistent_def)
  from fits_Cons [OF fits_append2 [OF this, of xs], of j] have "fits (j # xs @ ys) e (int (length xs) + 1) m" by (simp add: add.commute)
  ultimately show "list_all (\<lambda>(d, h'). fits (j # xs @ ys) e d h') (succs j)" by (simp add: j(3))
qed

text \<open>The end of the first branch of a conditional expression jumps over the second.\<close>

lemma consistent_branch_join:
  assumes j: "operands_ok src j" "i_expcount j \<le> h" "succs j = [(1, m), (int (length xs) + 2, m)]"
    and u: "i_opcode u = OP_JUMP" "i_arg0 u = int (length ys) + 1" "i_expcount u = e"
    and xs: "consistent src xs m (Some e)" and ys: "consistent src ys m (Some e)"
  shows "consistent src (j # xs @ u # ys) h (Some e)"
proof (rule consistent_Cons [OF j(1,2)])
  have "height_at (u # ys) (Some e) (int (length ys) + 1) = Some e" by (simp add: height_at_def)
  then have "list_all (\<lambda>(d, h'). fits (u # ys) (Some e) d h') (succs u)" using u by (simp add: succs_def fits_def)
  moreover have "operands_ok src u" using u by (simp add: operands_ok_def)
  ultimately have uy: "consistent src (u # ys) e (Some e)" using u(3) ys by (intro consistent_Cons) simp_all
  then show all: "consistent src (xs @ u # ys) m (Some e)" by (rule consistent_append [OF xs])
  then have "fits (xs @ u # ys) (Some e) 0 m" by (simp add: consistent_def)
  from fits_Cons [OF this] have "fits (j # xs @ u # ys) (Some e) 1 m" by simp
  moreover have "fits ys (Some e) 0 m" using ys by (simp add: consistent_def)
  from fits_Cons [OF fits_append2 [OF fits_Cons [OF this, of u], of xs], of j]
  have "fits (j # xs @ u # ys) (Some e) (int (length xs) + 2) m" by (simp add: algebra_simps)
  ultimately show "list_all (\<lambda>(d, h'). fits (j # xs @ u # ys) (Some e) d h') (succs j)" by (simp add: j(3))
qed

subsection \<open>Adding instructions\<close>

definition stack_is :: "compilation \<Rightarrow> nat list \<Rightarrow> bool" where
  "stack_is cmp st \<longleftrightarrow> c_si cmp = Some \<lparr>si_status = st, si_invalid = False\<rparr>"

text \<open>Everything but the code and the picture of the stack is kept; strings are only added.\<close>

definition same_tables :: "compilation \<Rightarrow> compilation \<Rightarrow> bool" where
  "same_tables cmp cmp' \<longleftrightarrow> prefix (c_stringmap cmp) (c_stringmap cmp') \<and>
     c_finfo cmp' = c_finfo cmp \<and> c_evaldoaddr cmp' = c_evaldoaddr cmp \<and> c_erroraddr cmp' = c_erroraddr cmp \<and> c_itemfno cmp' = c_itemfno cmp"

definition emits :: "source \<Rightarrow> compilation \<Rightarrow> instruction list \<Rightarrow> compilation \<Rightarrow> bool" where
  "emits src cmp xs cmp' \<longleftrightarrow> c_instructions cmp' = c_instructions cmp @ xs \<and> same_tables cmp cmp'"

text \<open>From stack \<open>st\<close> to stack \<open>st'\<close>, by consistent code.\<close>

definition runs :: "source \<Rightarrow> compilation \<Rightarrow> nat list \<Rightarrow> compilation \<Rightarrow> nat list \<Rightarrow> bool" where
  "runs src cmp st cmp' st' \<longleftrightarrow> stack_is cmp' st' \<and>
     (\<exists>xs. emits src cmp xs cmp' \<and> consistent src xs (int (length st)) (Some (int (length st'))))"

definition finishes :: "source \<Rightarrow> compilation \<Rightarrow> nat list \<Rightarrow> compilation \<Rightarrow> bool" where
  "finishes src cmp st cmp' \<longleftrightarrow> (\<exists>xs. emits src cmp xs cmp' \<and> consistent src xs (int (length st)) None)"

lemma same_tables_refl: "same_tables cmp cmp"
  by (simp add: same_tables_def)

lemma same_tables_trans: "same_tables a b \<Longrightarrow> same_tables b c \<Longrightarrow> same_tables a c"
  unfolding same_tables_def using prefix_order.trans by auto

lemma emits_trans: "emits src a xs b \<Longrightarrow> emits src b ys c \<Longrightarrow> emits src a (xs @ ys) c"
  using same_tables_trans by (auto simp: emits_def)

lemma runs_refl: "stack_is cmp st \<Longrightarrow> runs src cmp st cmp st"
  unfolding runs_def emits_def using same_tables_refl consistent_Nil by (metis append_Nil2)

lemma runs_trans: "runs src a st b st' \<Longrightarrow> runs src b st' c st'' \<Longrightarrow> runs src a st c st''"
  unfolding runs_def using emits_trans consistent_append by blast

lemma runs_finishes: "runs src a st b st' \<Longrightarrow> finishes src b st' c \<Longrightarrow> finishes src a st c"
  unfolding runs_def finishes_def using emits_trans consistent_append by blast

lemma runs_stack: "runs src a st b st' \<Longrightarrow> stack_is b st'"
  by (simp add: runs_def)

lemma add_instruction_emits:
  assumes "stack_is cmp st" "si_add op a b \<lparr>si_status = st, si_invalid = False\<rparr> = Some si'"
  shows "\<exists>cmp'. add_instruction cmp l op a b = Some cmp' \<and> c_si cmp' = Some si' \<and>
    emits src cmp [\<lparr>i_opcode = op, i_arg0 = a, i_arg1 = b, i_sl = l, i_expcount = int (length st)\<rparr>] cmp'"
proof -
  let ?i = "\<lparr>i_opcode = op, i_arg0 = a, i_arg1 = b, i_sl = l, i_expcount = int (length st)\<rparr>"
  let ?c = "cmp\<lparr>c_instructions := c_instructions cmp @ [?i], c_si := Some si'\<rparr>"
  have "add_instruction cmp l op a b = Some ?c" using assms by (simp add: add_instruction_def stack_is_def Let_def)
  then show ?thesis by (simp add: emits_def same_tables_def)
qed

lemma add_instruction_runs:
  assumes "stack_is cmp st" "si_add op a b \<lparr>si_status = st, si_invalid = False\<rparr> = Some \<lparr>si_status = st', si_invalid = False\<rparr>"
    "operands_ok src \<lparr>i_opcode = op, i_arg0 = a, i_arg1 = b, i_sl = l, i_expcount = int (length st)\<rparr>"
    "succs \<lparr>i_opcode = op, i_arg0 = a, i_arg1 = b, i_sl = l, i_expcount = int (length st)\<rparr> = [(1, int (length st'))]"
  shows "\<exists>cmp'. add_instruction cmp l op a b = Some cmp' \<and> runs src cmp st cmp' st'"
  using add_instruction_emits [OF assms(1,2), of l src] consistent_single [OF assms(3) refl, of "int (length st')"] assms(4)
  unfolding runs_def stack_is_def by fastforce

lemma add_instruction_finishes:
  assumes "stack_is cmp st" "si_add op a b \<lparr>si_status = st, si_invalid = False\<rparr> \<noteq> None"
    "operands_ok src \<lparr>i_opcode = op, i_arg0 = a, i_arg1 = b, i_sl = l, i_expcount = int (length st)\<rparr>"
    "succs \<lparr>i_opcode = op, i_arg0 = a, i_arg1 = b, i_sl = l, i_expcount = int (length st)\<rparr> = []"
  shows "\<exists>cmp'. add_instruction cmp l op a b = Some cmp' \<and> finishes src cmp st cmp'"
proof -
  obtain si' where "si_add op a b \<lparr>si_status = st, si_invalid = False\<rparr> = Some si'" using assms(2) by auto
  from add_instruction_emits [OF assms(1) this, of l src] consistent_last [OF assms(3) refl assms(4)]
  show ?thesis unfolding finishes_def by auto
qed

subsection \<open>The macros\<close>

lemmas si_defs = si_add_def statusat_def setstatusat_def popstatus_def pushstatus_def operands_ok_def succs_def

definition raised :: "nat list \<Rightarrow> nat list \<Rightarrow> bool" where
  "raised st st' \<longleftrightarrow> length st \<le> length st' \<and> (\<forall>i < length st. st ! i \<le> st' ! i)"

lemma raised_refl: "raised st st"
  by (simp add: raised_def)

lemma raised_trans: "raised a b \<Longrightarrow> raised b c \<Longrightarrow> raised a c"
  unfolding raised_def by (meson le_trans order_less_le_trans)

lemma raised_append: "raised st (st @ xs)"
  by (simp add: raised_def nth_append)

lemma raised_update: "st ! i \<le> v \<Longrightarrow> raised st (st[i := v])"
  by (cases "i < length st") (auto simp: raised_def nth_list_update)

lemma raised_length: "raised st st' \<Longrightarrow> length st \<le> length st'"
  by (simp add: raised_def)

lemma raised_take: "raised st st' \<Longrightarrow> n \<le> length st \<Longrightarrow> raised (take n st) (take n st')"
  by (auto simp: raised_def)

lemma PUSH_runs:
  assumes "stack_is cmp st" "int i = int (length st) - 1 - a" "i < length st"
  shows "\<exists>cmp'. PUSH cmp l a = Some cmp' \<and> runs src cmp st cmp' (st @ [st ! i])"
proof -
  have "\<exists>cmp'. add_instruction cmp l OP_PUSH (int i) 0 = Some cmp' \<and> runs src cmp st cmp' (st @ [st ! i])"
    by (rule add_instruction_runs [OF assms(1)]) (use assms(3) in \<open>simp_all add: si_defs\<close>)
  then show ?thesis using assms(1,2) by (simp add: PUSH_def stack_is_def)
qed

lemma statusat_nth: "i < si_count si \<Longrightarrow> statusat si (int i) = Some (si_status si ! i)"
  by (simp add: statusat_def)

lemma SPARK_runs:
  assumes "stack_is cmp st" "int i = int (length st) - 1 - a" "i < length st"
  shows "\<exists>cmp'. SPARK cmp l a = Some cmp' \<and> runs src cmp st cmp' (st[i := max 1 (st ! i)])"
proof (cases "st ! i < 1")
  case True
  have "\<exists>cmp'. add_instruction cmp l OP_SPARK (int i) 0 = Some cmp' \<and> runs src cmp st cmp' (st[i := max 1 (st ! i)])"
    by (rule add_instruction_runs [OF assms(1)]) (use assms(3) True in \<open>simp_all add: si_defs\<close>)
  then show ?thesis using assms(1,3) True by (simp add: SPARK_def stack_is_def statusat_nth Let_def assms(2) [symmetric])
next
  case False
  then have "SPARK cmp l a = Some cmp" using assms(1,3) by (simp add: SPARK_def stack_is_def statusat_nth Let_def assms(2) [symmetric])
  moreover have "st[i := max 1 (st ! i)] = st" using False by (simp add: max_def)
  ultimately show ?thesis using runs_refl [OF assms(1)] by simp
qed

lemma EVAL_runs:
  assumes "stack_is cmp st" "int i = int (length st) - 1 - a" "i < length st"
  shows "\<exists>cmp'. EVAL cmp l a = Some cmp' \<and> runs src cmp st cmp' (st[i := max 2 (st ! i)])"
proof (cases "st ! i < 2")
  case True
  have "\<exists>cmp'. add_instruction cmp l OP_EVAL (int i) 0 = Some cmp' \<and> runs src cmp st cmp' (st[i := max 2 (st ! i)])"
    by (rule add_instruction_runs [OF assms(1)]) (use assms(3) True in \<open>simp_all add: si_defs\<close>)
  then show ?thesis using assms(1,3) True by (simp add: EVAL_def stack_is_def statusat_nth Let_def assms(2) [symmetric])
next
  case False
  then have "EVAL cmp l a = Some cmp" using assms(1,3) by (simp add: EVAL_def stack_is_def statusat_nth Let_def assms(2) [symmetric])
  moreover have "st[i := max 2 (st ! i)] = st" using False by (simp add: max_def)
  ultimately show ?thesis using runs_refl [OF assms(1)] by simp
qed

lemma EVAL_args_runs:
  "stack_is cmp st \<Longrightarrow> \<forall>v \<in> set vs. v < length st \<Longrightarrow>
    \<exists>cmp' st'. EVAL_args cmp l vs = Some cmp' \<and> runs src cmp st cmp' st' \<and> length st' = length st \<and> raised st st'"
proof (induction vs arbitrary: cmp st)
  case (Cons v vs)
  let ?i = "length st - 1 - v"
  have i: "int ?i = int (length st) - 1 - int v" "?i < length st" using Cons.prems(2) by auto
  from EVAL_runs [OF Cons.prems(1) i, of l src] obtain cmp1 where
    1: "EVAL cmp l (int v) = Some cmp1" "runs src cmp st cmp1 (st[?i := max 2 (st ! ?i)])" by blast
  from Cons.IH [OF runs_stack [OF 1(2)]] Cons.prems(2) obtain cmp' st' where
    2: "EVAL_args cmp1 l vs = Some cmp'" "runs src cmp1 (st[?i := max 2 (st ! ?i)]) cmp' st'" "length st' = length st" "raised (st[?i := max 2 (st ! ?i)]) st'" by auto
  have "raised st st'" using raised_trans [OF raised_update 2(4)] by simp
  with 1 2 runs_trans [OF 1(2) 2(2)] show ?case by auto
qed (auto intro: runs_refl raised_refl)

lemma builtin_nargs_pos: "b < NUM_BUILTINS \<Longrightarrow> 0 < bi_nargs (builtin_info ! b)"
proof -
  have "list_all (\<lambda>bi. 0 < bi_nargs bi \<and> bi_nstrict bi \<le> bi_nargs bi) builtin_info" by (simp add: builtin_info_def builtin_row_def)
  then show "b < NUM_BUILTINS \<Longrightarrow> 0 < bi_nargs (builtin_info ! b)" by (simp add: list_all_length)
qed

lemma builtin_nstrict: "b < NUM_BUILTINS \<Longrightarrow> bi_nstrict (builtin_info ! b) \<le> bi_nargs (builtin_info ! b)"
proof -
  have "list_all (\<lambda>bi. bi_nstrict bi \<le> bi_nargs bi) builtin_info" by (simp add: builtin_info_def builtin_row_def)
  then show "b < NUM_BUILTINS \<Longrightarrow> bi_nstrict (builtin_info ! b) \<le> bi_nargs (builtin_info ! b)" by (simp add: list_all_length)
qed

lemma BIF_runs:
  assumes "stack_is cmp st" "b < NUM_BUILTINS" "bi_nargs (builtin_info ! b) \<le> length st"
  shows "\<exists>cmp' st'. BIF cmp l b = Some cmp' \<and> runs src cmp st cmp' st' \<and> length st' = Suc (length st - bi_nargs (builtin_info ! b)) \<and>
    raised (take (length st - bi_nargs (builtin_info ! b)) st) st' \<and> (bi_reteval (builtin_info ! b) = ALWAYS_VALUE \<longrightarrow> last st' = 2)"
proof -
  let ?k = "bi_nargs (builtin_info ! b)" and ?v = "if bi_reteval (builtin_info ! b) = ALWAYS_VALUE then 2 else 0"
  have pos: "0 < ?k" and ns: "bi_nstrict (builtin_info ! b) \<le> ?k" using builtin_nargs_pos builtin_nstrict assms(2) by simp_all
  have "\<forall>v \<in> set [0..<bi_nstrict (builtin_info ! b)]. v < length st" using ns assms(3) by auto
  from EVAL_args_runs [OF assms(1) this] obtain cmp1 st1 where
    1: "EVAL_args cmp l [0..<bi_nstrict (builtin_info ! b)] = Some cmp1" "runs src cmp st cmp1 st1" "length st1 = length st" "raised st st1" by blast
  let ?st' = "take (length st - ?k) st1 @ [?v]"
  have "take (length st - (?k - 1)) st1 = take (length st - ?k) st1 @ [st1 ! (length st - ?k)]"
    using pos assms(3) 1(3) by (subst take_Suc_conv_app_nth [symmetric]) (simp_all add: Suc_diff_le [symmetric])
  then have "(take (length st - (?k - 1)) st1)[length st - ?k := ?v] = ?st'" using 1(3) by (simp add: list_update_append)
  moreover have "st1 \<noteq> []" using pos assms(3) 1(3) by auto
  ultimately have "\<exists>cmp'. add_instruction cmp1 l OP_BIF (int b) 0 = Some cmp' \<and> runs src cmp1 st1 cmp' ?st'"
    using pos assms(2,3) 1(3) by (intro add_instruction_runs [OF runs_stack [OF 1(2)]])
      (simp_all add: si_defs nat_diff_distrib' of_nat_diff)
  then obtain cmp' where 2: "add_instruction cmp1 l OP_BIF (int b) 0 = Some cmp'" "runs src cmp1 st1 cmp' ?st'" by blast
  have "raised (take (length st - ?k) st) ?st'"
    using raised_trans [OF raised_take [OF 1(4)] raised_append] by simp
  then show ?thesis using 1 2 runs_trans [OF 1(2) 2(2)] assms(3)
    by (intro exI [of _ cmp'] exI [of _ ?st']) (simp add: BIF_def)
qed

lemma MKCAP_runs:
  assumes "stack_is cmp st" "function_nargs src a = Some k" "b < k" "b \<le> length st"
  shows "\<exists>cmp'. MKCAP cmp l a b = Some cmp' \<and> runs src cmp st cmp' (take (length st - b) st @ [2])"
  unfolding MKCAP_def
  by (rule add_instruction_runs [OF assms(1)]) (use assms(2-4) in \<open>simp_all add: si_defs of_nat_diff\<close>)

lemma PUSHNUMBER_runs: "stack_is cmp st \<Longrightarrow> \<exists>cmp'. PUSHNUMBER cmp l d = Some cmp' \<and> runs src cmp st cmp' (st @ [2])"
  unfolding PUSHNUMBER_def by (rule add_instruction_runs) (simp_all add: si_defs)

lemma PUSHNIL_runs: "stack_is cmp st \<Longrightarrow> \<exists>cmp'. add_instruction cmp l OP_PUSHNIL 0 0 = Some cmp' \<and> runs src cmp st cmp' (st @ [2])"
  by (rule add_instruction_runs) (simp_all add: si_defs)

lemma add_string_same: "add_string cmp str = (pos, cmp1) \<Longrightarrow> c_si cmp1 = c_si cmp \<and> emits src cmp [] cmp1"
  by (auto simp: add_string_def Let_def emits_def same_tables_def split: if_splits)

lemma PUSHSTRING_runs:
  assumes "stack_is cmp st"
  shows "\<exists>cmp'. PUSHSTRING cmp l str = Some cmp' \<and> runs src cmp st cmp' (st @ [2])"
proof -
  obtain pos cmp1 where 1: "add_string cmp str = (pos, cmp1)" by fastforce
  from add_string_same [OF this, of src] have s: "stack_is cmp1 st" "runs src cmp st cmp1 st"
    using assms consistent_Nil unfolding stack_is_def runs_def by auto
  have "\<exists>cmp'. add_instruction cmp1 l OP_PUSHSTRING (int pos) 0 = Some cmp' \<and> runs src cmp1 st cmp' (st @ [2])"
    by (rule add_instruction_runs [OF s(1)]) (simp_all add: si_defs)
  with 1 runs_trans [OF s(2)] show ?thesis by (auto simp: PUSHSTRING_def)
qed

lemma MKFRAME_runs:
  assumes "stack_is cmp st" "function_nargs src a = Some b" "b \<le> length st"
  shows "\<exists>cmp'. add_instruction cmp l OP_MKFRAME (int a) (int b) = Some cmp' \<and> runs src cmp st cmp' (take (length st - b) st @ [0])"
  by (rule add_instruction_runs [OF assms(1)]) (use assms(2-3) in \<open>simp_all add: si_defs of_nat_diff\<close>)

lemma ALLOC_runs:
  assumes "stack_is cmp st"
  shows "\<exists>cmp'. add_instruction cmp l OP_ALLOC (int k) 0 = Some cmp' \<and> runs src cmp st cmp' (st @ replicate k 0)"
  by (rule add_instruction_runs [OF assms]) (simp_all add: si_defs)

lemma POP_runs:
  assumes "stack_is cmp (st @ [s])"
  shows "\<exists>cmp'. add_instruction cmp l OP_POP 1 0 = Some cmp' \<and> runs src cmp (st @ [s]) cmp' st"
  by (rule add_instruction_runs [OF assms]) (simp_all add: si_defs)

lemma SQUEEZE_runs:
  assumes "stack_is cmp (st @ mid @ tp)" "mid \<noteq> []"
  shows "\<exists>cmp'. add_instruction cmp l OP_SQUEEZE (int (length tp)) (int (length mid)) = Some cmp' \<and> runs src cmp (st @ mid @ tp) cmp' (st @ tp)"
  by (rule add_instruction_runs [OF assms(1)]) (use assms(2) in \<open>simp_all add: si_defs\<close>)

lemma UPDATE_runs:
  assumes "stack_is cmp (st @ [s])" "int i = int (length st) - a" "i < length st"
  shows "\<exists>cmp'. UPDATE cmp l a = Some cmp' \<and> runs src cmp (st @ [s]) cmp' (st[i := s])"
proof -
  have "\<exists>cmp'. add_instruction cmp l OP_UPDATE (int i) 0 = Some cmp' \<and> runs src cmp (st @ [s]) cmp' (st[i := s])"
    by (rule add_instruction_runs [OF assms(1)]) (use assms(3) in \<open>simp_all add: si_defs nth_append list_update_append\<close>)
  then show ?thesis using assms(1) by (simp add: UPDATE_def stack_is_def assms(2) [symmetric])
qed

lemma ITEMN_runs:
  assumes "stack_is cmp (st @ [s])"
  shows "\<exists>cmp'. add_instruction cmp l OP_ITEMN a b = Some cmp' \<and> runs src cmp (st @ [s]) cmp' (st @ [0])"
  by (rule add_instruction_runs [OF assms]) (simp_all add: si_defs list_update_append)

lemma CONSN_runs:
  assumes "stack_is cmp (st @ ys)" "ys \<noteq> []"
  shows "\<exists>cmp'. add_instruction cmp l OP_CONSN (int (length ys)) 0 = Some cmp' \<and> runs src cmp (st @ ys) cmp' (st @ [2])"
proof -
  obtain y zs where y: "ys = y # zs" using assms(2) by (cases ys) auto
  show ?thesis unfolding y
    by (rule add_instruction_runs [OF assms(1) [unfolded y]]) (simp_all add: si_defs list_update_append)
qed

lemma RETURN_ok: "stack_is cmp st \<Longrightarrow> st \<noteq> [] \<Longrightarrow> \<exists>cmp'. add_instruction cmp l OP_RETURN 0 0 = Some cmp' \<and> finishes src cmp st cmp'"
  by (rule add_instruction_finishes) (auto simp: si_defs Suc_le_eq)

lemma DO_ok: "stack_is cmp st \<Longrightarrow> st \<noteq> [] \<Longrightarrow> \<exists>cmp'. add_instruction cmp l OP_DO a 0 = Some cmp' \<and> finishes src cmp st cmp'"
  by (rule add_instruction_finishes) (auto simp: si_defs Suc_le_eq)

subsection \<open>Frames and calls\<close>

text \<open>Following references between supercombinators without arguments ends.\<close>

fun caf_ends :: "nat \<Rightarrow> source \<Rightarrow> nat \<Rightarrow> bool" where
  "caf_ends 0 src i = False"
| "caf_ends (Suc k) src i \<longleftrightarrow>
     (case sc_body (scombs src ! i) of
        Some (Scref l j) \<Rightarrow> j < length (scombs src) \<and> (sc_nargs (scombs src ! j) = 0 \<longrightarrow> caf_ends k src j)
      | Some e \<Rightarrow> True
      | None \<Rightarrow> False)"

definition cafs_end :: "source \<Rightarrow> bool" where
  "cafs_end src \<longleftrightarrow> list_all (\<lambda>i. sc_nargs (scombs src ! i) = 0 \<longrightarrow> caf_ends (length (scombs src)) src i) [0..<length (scombs src)]"

definition pushes :: "source \<Rightarrow> compilation \<Rightarrow> nat list \<Rightarrow> nat \<Rightarrow> compilation \<Rightarrow> nat list \<Rightarrow> bool" where
  "pushes src cmp st n cmp' st' \<longleftrightarrow> runs src cmp st cmp' st' \<and> length st' = Suc (length st - n) \<and> raised (take (length st - n) st) st'"

lemma pushes_take: "runs src cmp st cmp' (take (length st - n) st @ [s]) \<Longrightarrow> n \<le> length st \<Longrightarrow> pushes src cmp st n cmp' (take (length st - n) st @ [s])"
  by (simp add: pushes_def raised_append)

lemma caf_frame:
  "caf_ends k src i \<Longrightarrow> i < length (scombs src) \<Longrightarrow> sc_nargs (scombs src ! i) = 0 \<Longrightarrow> stack_is cmp st \<Longrightarrow>
    \<exists>cmp' s. domkframe src cmp l (i + NUM_BUILTINS) 0 = Some cmp' \<and> runs src cmp st cmp' (st @ [s])"
proof (induction k arbitrary: i l)
  case (Suc k)
  from Suc.prems(1) obtain e where e: "sc_body (scombs src ! i) = Some e" by (auto split: option.splits)
  have nargs: "function_nargs src (i + NUM_BUILTINS) = Some 0" using Suc.prems(2,3) by (simp add: function_nargs_def get_scomb_index_def)
  have frame: "\<exists>cmp' s. add_instruction cmp l OP_MKFRAME (int (i + NUM_BUILTINS)) 0 = Some cmp' \<and> runs src cmp st cmp' (st @ [s])"
    using MKFRAME_runs [OF Suc.prems(4) nargs, of l] by auto
  note unf = domkframe.simps [of src cmp l "i + NUM_BUILTINS" 0] get_scomb_index_def
  show ?case
  proof (cases e)
    case (Scref l1 j)
    with Suc.prems(1) e have j: "j < length (scombs src)" by simp
    have kj: "function_nargs src (j + NUM_BUILTINS) = Some (sc_nargs (scombs src ! j))" using j by (simp add: function_nargs_def get_scomb_index_def)
    show ?thesis
    proof (cases "sc_nargs (scombs src ! j) = 0")
      case True
      with Suc.prems(1) e Scref have "caf_ends k src j" by simp
      from Suc.IH [OF this j True Suc.prems(4), of l1] show ?thesis using Suc.prems(2,3) e Scref kj True by (simp add: unf)
    next
      case False
      with MKCAP_runs [OF Suc.prems(4) kj, of 0 l1] show ?thesis using Suc.prems(2,3) e Scref kj by (auto simp: unf)
    qed
  next
    case (Number l1 d)
    then show ?thesis using PUSHNUMBER_runs [OF Suc.prems(4), of l1 d src] Suc.prems(2,3) e by (auto simp: unf)
  next
    case (StringNode l1 v)
    then show ?thesis using PUSHSTRING_runs [OF Suc.prems(4), of l1 v src] Suc.prems(2,3) e by (auto simp: unf)
  next
    case (NilNode l1)
    then show ?thesis using PUSHNIL_runs [OF Suc.prems(4), of l1 src] Suc.prems(2,3) e by (auto simp: unf)
  qed (use frame Suc.prems(2,3) e in \<open>simp_all add: unf\<close>)
qed simp

lemma domkframe_pushes:
  assumes "stack_is cmp st" "function_nargs src fno = Some n" "n \<le> length st" "cafs_end src"
  shows "\<exists>cmp' st'. domkframe src cmp l fno n = Some cmp' \<and> pushes src cmp st n cmp' st'"
proof -
  have frame: "\<exists>cmp' st'. add_instruction cmp l OP_MKFRAME (int fno) (int n) = Some cmp' \<and> pushes src cmp st n cmp' st'"
    using MKFRAME_runs [OF assms(1-3), of l] pushes_take assms(3) by blast
  show ?thesis
  proof (cases "NUM_BUILTINS \<le> fno")
    case True
    then have i: "fno - NUM_BUILTINS < length (scombs src)" "n = sc_nargs (scombs src ! (fno - NUM_BUILTINS))"
      using assms(2) by (auto simp: function_nargs_def get_scomb_index_def split: if_splits)
    show ?thesis
    proof (cases "n = 0")
      case True
      have c: "caf_ends (length (scombs src)) src (fno - NUM_BUILTINS)" using assms(4) i True by (simp add: cafs_end_def list_all_iff)
      from caf_frame [OF c i(1) _ assms(1), of l] True i(2) \<open>NUM_BUILTINS \<le> fno\<close> obtain cmp' s where
        "domkframe src cmp l fno 0 = Some cmp'" "runs src cmp st cmp' (st @ [s])" by auto
      then show ?thesis using True pushes_take [of src cmp st cmp' 0 s] by auto
    next
      case False
      then show ?thesis using frame i \<open>NUM_BUILTINS \<le> fno\<close> by (subst domkframe.simps) (simp add: get_scomb_index_def)
    qed
  next
    case False
    show ?thesis
    proof (cases "fno = B_CONS")
      case True
      then have n: "n = bi_nargs (builtin_info ! B_CONS)" "n = 2" using assms(2) False
        by (auto simp: function_nargs_def builtin_info_def builtin_row_def B_CONS_def)
      from BIF_runs [OF assms(1), of B_CONS l src] assms(3) n(1) False True obtain cmp' st' where
        "BIF cmp l B_CONS = Some cmp'" "runs src cmp st cmp' st'" "length st' = Suc (length st - n)" "raised (take (length st - n) st) st'" by auto
      then show ?thesis using True False n(2) by (subst domkframe.simps) (auto simp: pushes_def)
    qed (use frame False in \<open>subst domkframe.simps, simp\<close>)
  qed
qed

lemma function_strictin_ok:
  assumes "table_ok src" "function_nargs src fno = Some k" "i < k"
  shows "function_strictin src fno i \<noteq> None"
  using assms by (auto simp: function_strictin_def function_nargs_def get_scomb_index_def table_ok_def sc_flags_ok_def list_all_length split: if_splits)

lemma have_status_ok:
  assumes "table_ok src" "function_nargs src fno = Some k" "k \<le> si_count si"
  shows "\<forall>i \<in> set is. i < k \<Longrightarrow> have_status src fno si lim is \<noteq> None"
proof (induction "is")
  case (Cons i "is")
  then have i: "i < k" and rest: "have_status src fno si lim is \<noteq> None" by simp_all
  have "statusat si (int (si_count si) - 1 - int i) \<noteq> None" using i assms(3) by (simp add: statusat_def)
  with rest function_strictin_ok [OF assms(1,2) i] show ?case by auto
qed simp

lemma JFUN_ok:
  assumes "stack_is cmp st" "table_ok src" "function_nargs src fno = Some k" "k = length st \<or> k = 0"
  shows "\<exists>cmp'. JFUN src cmp l fno = Some cmp' \<and> finishes src cmp st cmp'"
proof -
  let ?si = "\<lparr>si_status = st, si_invalid = False\<rparr>"
  have k: "k \<le> si_count ?si" using assms(4) by auto
  have "have_status src fno ?si lim [0..<k] \<noteq> None" for lim by (rule have_status_ok [OF assms(2,3) k]) simp
  then have "have_resvals src fno ?si \<noteq> None" "have_reqsparks src fno ?si \<noteq> None"
    using assms(3) k by (simp_all add: have_resvals_def have_reqsparks_def)
  moreover have "\<exists>cmp'. add_instruction cmp l OP_JFUN (int fno) b = Some cmp' \<and> finishes src cmp st cmp'" for b
    by (rule add_instruction_finishes [OF assms(1)]) (use assms(3,4) in \<open>auto simp: si_defs\<close>)
  ultimately show ?thesis using assms(1) by (auto simp: JFUN_def stack_is_def)
qed

subsection \<open>Conditionals\<close>

text \<open>After a test: the code ends with a jump whose target is still to be filled in.\<close>

definition branches :: "source \<Rightarrow> compilation \<Rightarrow> nat list \<Rightarrow> compilation \<Rightarrow> nat \<Rightarrow> nat list \<Rightarrow> bool" where
  "branches src cmp st cmp2 addr st2 \<longleftrightarrow> stack_is cmp2 st2 \<and>
     (\<exists>xs j. emits src cmp (xs @ [j]) cmp2 \<and> addr = length (c_instructions cmp @ xs) \<and>
        consistent src xs (int (length st)) (Some (i_expcount j)) \<and>
        (\<forall>d. operands_ok src (j\<lparr>i_arg0 := d\<rparr>) \<and> succs (j\<lparr>i_arg0 := d\<rparr>) = [(1, int (length st2)), (d, int (length st2))]))"

lemma newswap_same [simp]: "stack_is cmp st \<Longrightarrow> newswap cmp = cmp"
  by (simp add: newswap_def stack_is_def stackinfo_new_def)

lemma freeswap_stack [simp]: "stack_is (freeswap cmp (Some \<lparr>si_status = st, si_invalid = False\<rparr>)) st"
  by (simp add: freeswap_def stack_is_def)

lemma stack_is_LABEL [simp]: "stack_is (LABEL cmp a) st = stack_is cmp st"
  by (simp add: LABEL_def stack_is_def)

lemma emits_LABEL:
  assumes "emits src cmp (xs @ j # ys) cmp'" "addr = length (c_instructions cmp @ xs)"
  shows "emits src cmp (xs @ j\<lparr>i_arg0 := int (length ys) + 1\<rparr> # ys) (LABEL cmp' addr)"
  using assms by (simp add: emits_def LABEL_def same_tables_def nth_append list_update_append)

lemma emits_freeswap [simp]: "emits src cmp xs (freeswap cmp' x) = emits src cmp xs cmp'"
  by (simp add: emits_def freeswap_def same_tables_def)

lemma JFALSE_branches:
  assumes "stack_is cmp (st @ [s])"
  shows "\<exists>cmp2 addr. JFALSE cmp l = Some (cmp2, addr) \<and> branches src cmp (st @ [s]) cmp2 addr st"
proof -
  from EVAL_runs [OF assms, of "length st" 0 l src] obtain cmp1 s1 where
    1: "EVAL cmp l 0 = Some cmp1" "runs src cmp (st @ [s]) cmp1 (st @ [s1])" by auto
  have "si_add OP_JFALSE 0 0 \<lparr>si_status = st @ [s1], si_invalid = False\<rparr> = Some \<lparr>si_status = st, si_invalid = False\<rparr>" by (simp add: si_defs)
  from add_instruction_emits [OF runs_stack [OF 1(2)] this, of l src] obtain cmp2 where
    2: "add_instruction cmp1 l OP_JFALSE 0 0 = Some cmp2" "c_si cmp2 = Some \<lparr>si_status = st, si_invalid = False\<rparr>"
      "emits src cmp1 [\<lparr>i_opcode = OP_JFALSE, i_arg0 = 0, i_arg1 = 0, i_sl = l, i_expcount = int (length (st @ [s1]))\<rparr>] cmp2" by blast
  from 1(2) obtain xs where xs: "emits src cmp xs cmp1" "consistent src xs (int (length (st @ [s]))) (Some (int (length (st @ [s1]))))" by (auto simp: runs_def)
  have "branches src cmp (st @ [s]) cmp2 (length (c_instructions cmp1)) st" unfolding branches_def
    using emits_trans [OF xs(1) 2(3)] xs 2(2)
    by (intro conjI exI [of _ xs] exI [of _ "\<lparr>i_opcode = OP_JFALSE, i_arg0 = 0, i_arg1 = 0, i_sl = l, i_expcount = int (length (st @ [s1]))\<rparr>"])
      (auto simp: stack_is_def si_defs emits_def)
  with 1 2 show ?thesis by (simp add: JFALSE_def)
qed

lemma JEQ_branches:
  assumes "stack_is cmp (st @ [s])"
  shows "\<exists>cmp2 addr s'. JEQ cmp l v = Some (cmp2, addr) \<and> branches src cmp (st @ [s]) cmp2 addr (st @ [s'])"
proof -
  from EVAL_runs [OF assms, of "length st" 0 l src] obtain cmp1 s1 where
    1: "EVAL cmp l 0 = Some cmp1" "runs src cmp (st @ [s]) cmp1 (st @ [s1])" by auto
  let ?j = "\<lparr>i_opcode = OP_JEQ, i_arg0 = 0, i_arg1 = v, i_sl = l, i_expcount = int (length (st @ [s1]))\<rparr>"
  have "si_add OP_JEQ 0 v \<lparr>si_status = st @ [s1], si_invalid = False\<rparr> = Some \<lparr>si_status = st @ [s1], si_invalid = False\<rparr>" by (simp add: si_defs)
  from add_instruction_emits [OF runs_stack [OF 1(2)] this, of l src] obtain cmp2 where
    2: "add_instruction cmp1 l OP_JEQ 0 v = Some cmp2" "c_si cmp2 = Some \<lparr>si_status = st @ [s1], si_invalid = False\<rparr>"
      "emits src cmp1 [?j] cmp2" by blast
  from 1(2) obtain xs where xs: "emits src cmp xs cmp1" "consistent src xs (int (length (st @ [s]))) (Some (int (length (st @ [s1]))))" by (auto simp: runs_def)
  have "branches src cmp (st @ [s]) cmp2 (length (c_instructions cmp1)) (st @ [s1])" unfolding branches_def
    using emits_trans [OF xs(1) 2(3)] xs 2(2)
    by (intro conjI exI [of _ xs] exI [of _ ?j]) (auto simp: stack_is_def si_defs emits_def Let_def)
  with 1 2 show ?thesis by (auto simp: JEQ_def)
qed

lemma JUMP_emits:
  assumes "stack_is cmp st"
  shows "\<exists>cmp' u. JUMP cmp l = Some (cmp', length (c_instructions cmp)) \<and> emits src cmp [u] cmp' \<and> i_opcode u = OP_JUMP \<and> i_expcount u = int (length st)"
proof -
  have "si_add OP_JUMP 0 0 \<lparr>si_status = st, si_invalid = False\<rparr> = Some \<lparr>si_status = st, si_invalid = False\<rparr>" by (simp add: si_defs)
  from add_instruction_emits [OF assms this, of l src] show ?thesis by (fastforce simp: JUMP_def)
qed

lemma branches_then:
  assumes b: "branches src cmp st cmp2 addr st2" and e: "emits src cmp2 ys cmp3"
  shows "\<exists>xs j. emits src cmp (xs @ j # ys) (LABEL cmp3 addr) \<and> addr = length (c_instructions cmp @ xs) \<and>
    consistent src xs (int (length st)) (Some (i_expcount j)) \<and> operands_ok src j \<and>
    succs j = [(1, int (length st2)), (int (length ys) + 1, int (length st2))]"
proof -
  from b obtain xs j where j: "emits src cmp (xs @ [j]) cmp2" "addr = length (c_instructions cmp @ xs)"
    "consistent src xs (int (length st)) (Some (i_expcount j))"
    "\<And>d. operands_ok src (j\<lparr>i_arg0 := d\<rparr>) \<and> succs (j\<lparr>i_arg0 := d\<rparr>) = [(1, int (length st2)), (d, int (length st2))]"
    by (auto simp: branches_def)
  from emits_trans [OF j(1) e] have "emits src cmp (xs @ j # ys) cmp3" by simp
  from emits_LABEL [OF this j(2)] j show ?thesis
    by (intro exI [of _ xs] exI [of _ "j\<lparr>i_arg0 := int (length ys) + 1\<rparr>"]) simp
qed

lemma branch_finishes:
  assumes b: "branches src cmp st cmp2 addr st2" and f1: "finishes src cmp2 st2 cmp3"
    and f2: "finishes src (LABEL (freeswap cmp3 x) addr) st2 cmp5"
  shows "finishes src cmp st (freeswap cmp5 y)"
proof -
  from f1 obtain ys where ys: "emits src cmp2 ys (freeswap cmp3 x)" "consistent src ys (int (length st2)) None" by (auto simp: finishes_def)
  from f2 obtain zs where zs: "emits src (LABEL (freeswap cmp3 x) addr) zs cmp5" "consistent src zs (int (length st2)) None" by (auto simp: finishes_def)
  from branches_then [OF b ys(1)] obtain xs j where
    j: "emits src cmp (xs @ j # ys) (LABEL (freeswap cmp3 x) addr)" "consistent src xs (int (length st)) (Some (i_expcount j))"
      "operands_ok src j" "succs j = [(1, int (length st2)), (int (length ys) + 1, int (length st2))]" by blast
  have "consistent src (j # ys @ zs) (i_expcount j) None" by (rule consistent_branch [OF j(3) order_refl j(4) ys(2) zs(2)])
  from consistent_append [OF j(2) this] emits_trans [OF j(1) zs(1)] show ?thesis by (auto simp: finishes_def)
qed

lemma branch_runs:
  assumes b: "branches src cmp st cmp2 addr st2" and r1: "runs src cmp2 st2 cmp3 stB" and u: "JUMP cmp3 l = Some (cmp4, addr2)"
    and r2: "runs src (LABEL (freeswap cmp4 x) addr) st2 cmp6 stD" and len: "length stB = length st'" "length stD = length st'"
  shows "runs src cmp st (LABEL (freeswap cmp6 (Some \<lparr>si_status = st', si_invalid = False\<rparr>)) addr2) st'"
proof -
  let ?e = "int (length st')"
  from r1 len obtain ys where ys: "emits src cmp2 ys cmp3" "consistent src ys (int (length st2)) (Some ?e)" by (auto simp: runs_def)
  from r2 len obtain zs where zs: "emits src (LABEL (freeswap cmp4 x) addr) zs cmp6" "consistent src zs (int (length st2)) (Some ?e)" by (auto simp: runs_def)
  from JUMP_emits [OF runs_stack [OF r1], of l src] u len(1) obtain u where
    u: "addr2 = length (c_instructions cmp3)" "emits src cmp3 [u] (freeswap cmp4 x)" "i_opcode u = OP_JUMP" "i_expcount u = ?e" by auto
  from branches_then [OF b emits_trans [OF ys(1) u(2)]] obtain xs j where
    j: "emits src cmp (xs @ j # ys @ [u]) (LABEL (freeswap cmp4 x) addr)" "addr = length (c_instructions cmp @ xs)"
      "consistent src xs (int (length st)) (Some (i_expcount j))"
      "operands_ok src j" "succs j = [(1, int (length st2)), (int (length ys) + 2, int (length st2))]" by auto
  have e: "emits src cmp ((xs @ j # ys) @ u # zs) cmp6" using emits_trans [OF j(1) zs(1)] by simp
  have a: "addr2 = length (c_instructions cmp @ xs @ j # ys)"
    using emits_trans [OF j(1) zs(1)] b ys(1) u(1) j(2) by (auto simp: emits_def branches_def)
  let ?u = "u\<lparr>i_arg0 := int (length zs) + 1\<rparr>"
  have "emits src cmp ((xs @ j # ys) @ ?u # zs) (LABEL (freeswap cmp6 (Some \<lparr>si_status = st', si_invalid = False\<rparr>)) addr2)"
    by (rule emits_LABEL) (use e a in simp_all)
  moreover have "consistent src (j # ys @ ?u # zs) (i_expcount j) (Some ?e)"
    by (rule consistent_branch_join [OF j(4) order_refl j(5) _ _ _ ys(2) zs(2)]) (use u in simp_all)
  from consistent_append [OF j(3) this] have "consistent src ((xs @ j # ys) @ ?u # zs) (int (length st)) (Some ?e)" by simp
  ultimately show ?thesis unfolding runs_def stack_is_LABEL by (blast intro: freeswap_stack)
qed

subsection \<open>Expressions that can be compiled\<close>

text \<open>As application lifting leaves them: arguments and bindings only call known functions, with at
  most as many arguments as these take.\<close>

definition callable :: "source \<Rightarrow> snode \<Rightarrow> nat \<Rightarrow> bool" where
  "callable src f m \<longleftrightarrow>
     (case f of
        Scref l i \<Rightarrow> i < length (scombs src) \<and> m \<le> sc_nargs (scombs src ! i)
      | Builtin l b \<Rightarrow> b < NUM_BUILTINS \<and> m \<le> bi_nargs (builtin_info ! b)
      | _ \<Rightarrow> False)"

fun compilable :: "source \<Rightarrow> snode \<Rightarrow> bool" and compilable_recs :: "source \<Rightarrow> letrec list \<Rightarrow> bool" where
  "compilable src (Application l s a b) \<longleftrightarrow> callable src (spine_head a) (Suc (spine_len a)) \<and> compilable src a \<and> compilable src b"
| "compilable src (LetrecNode l rs b) \<longleftrightarrow> rs \<noteq> [] \<and> compilable_recs src rs \<and> compilable src b"
| "compilable src (Scref l i) \<longleftrightarrow> i < length (scombs src)"
| "compilable src (Builtin l b) \<longleftrightarrow> b < NUM_BUILTINS"
| "compilable src (Symbol l x) \<longleftrightarrow> True"
| "compilable src (NilNode l) \<longleftrightarrow> True"
| "compilable src (Number l d) \<longleftrightarrow> True"
| "compilable src (StringNode l v) \<longleftrightarrow> True"
| "compilable src e \<longleftrightarrow> False"
| "compilable_recs src [] \<longleftrightarrow> True"
| "compilable_recs src (Letrec x v st sc # rs) \<longleftrightarrow> compilable src v \<and> compilable_recs src rs"

text \<open>The variables are on the stack, no binding hides another, and the expression is small enough for the compiler's
  own stacks: the names in scope, the arguments of a call and the elements of a list are no
  more than the nodes of the tree.\<close>

definition in_range :: "pmap \<Rightarrow> nat \<Rightarrow> string set \<Rightarrow> bool" where
  "in_range p n vs \<longleftrightarrow> (\<forall>x \<in> vs. \<exists>i. presolve p x = Some i \<and> 1 \<le> i \<and> i \<le> n)"

definition scope :: "pmap \<Rightarrow> nat \<Rightarrow> snode \<Rightarrow> bool" where
  "scope p n e \<longleftrightarrow> in_range p n (fv e) \<and> distinct (map fst p @ binders e) \<and> stack_room (length p + nodes e)"

lemma in_range_mono: "in_range p n vs \<Longrightarrow> n \<le> m \<Longrightarrow> ws \<subseteq> vs \<Longrightarrow> in_range p m ws"
  unfolding in_range_def by (meson le_trans subsetD)

lemma in_range_Un: "in_range p n (vs \<union> ws) \<longleftrightarrow> in_range p n vs \<and> in_range p n ws"
  by (auto simp: in_range_def)

lemma scope_app:
  "scope p n (Application l s a b) \<Longrightarrow> scope p n b" "scope p n (Application l s a b) \<Longrightarrow> scope p (Suc n) a"
  by (auto simp: scope_def in_range_Un elim: in_range_mono stack_room_mono)

lemma scope_mono: "scope p n e \<Longrightarrow> n \<le> m \<Longrightarrow> scope p m e"
  by (auto simp: scope_def elim: in_range_mono)

lemma scope_parts: "scope p n (Application l s a b) \<Longrightarrow> scope p n a \<and> scope p n b"
  by (auto simp: scope_def in_range_Un elim: stack_room_mono)

lemma scope_args: "scope p n c \<Longrightarrow> x \<in> set (spine_args c) \<Longrightarrow> scope p n x"
  by (induction c rule: spine_args.induct) (auto dest: scope_parts)

lemma spine_len_nodes: "spine_len c < nodes c"
  by (induction c rule: spine_len.induct) auto

lemma scope_room: "scope p n c \<Longrightarrow> stack_room (Suc (spine_len c))" "scope p n c \<Longrightarrow> m \<le> nodes c \<Longrightarrow> stack_room m"
  using spine_len_nodes [of c] by (auto simp: scope_def elim!: stack_room_mono)

lemma compilable_args: "compilable src c \<Longrightarrow> x \<in> set (spine_args c) \<Longrightarrow> compilable src x"
  by (induction c rule: spine_args.induct) auto

text \<open>The result: one more value on the stack, at least with the given status.\<close>

definition pushed :: "source \<Rightarrow> compilation \<Rightarrow> nat list \<Rightarrow> compilation option \<Rightarrow> nat \<Rightarrow> bool" where
  "pushed src cmp st r k \<longleftrightarrow>
     (\<exists>cmp' st'. r = Some cmp' \<and> runs src cmp st cmp' st' \<and> length st' = Suc (length st) \<and> raised st st' \<and> k \<le> last st')"

definition compiles :: "source \<Rightarrow> snode \<Rightarrow> bool" where
  "compiles src e \<longleftrightarrow> (\<forall>cmp st p. stack_is cmp st \<longrightarrow> scope p (length st) e \<longrightarrow>
     pushed src cmp st (compC src cmp e p (length st)) 0 \<and> pushed src cmp st (compE src cmp e p (length st)) 1)"

definition args_pushed :: "source \<Rightarrow> compilation \<Rightarrow> nat list \<Rightarrow> compilation option \<Rightarrow> bool list \<Rightarrow> bool" where
  "args_pushed src cmp st r flags \<longleftrightarrow>
     (\<exists>cmp' st'. r = Some cmp' \<and> runs src cmp st cmp' st' \<and> length st' = length st + length flags \<and> raised st st' \<and>
        (\<forall>i < length flags. flags ! i \<longrightarrow> 1 \<le> st' ! (length st + i)))"

lemma pushedE:
  assumes "pushed src cmp st r k"
  obtains cmp' st' s where "r = Some cmp'" "runs src cmp st cmp' (st' @ [s])" "length st' = length st" "raised st st'" "k \<le> s"
proof -
  from assms obtain cmp' st' where 1: "r = Some cmp'" "runs src cmp st cmp' st'" "length st' = Suc (length st)" "raised st st'" "k \<le> last st'"
    by (auto simp: pushed_def)
  then have "st' = butlast st' @ [last st']" by (metis append_butlast_last_id length_0_conv nat.distinct(1))
  moreover have "raised st (butlast st')" using 1(3,4) by (simp add: raised_def nth_butlast)
  ultimately show ?thesis using 1 that [of cmp' "butlast st'" "last st'"] by simp
qed

lemma pushedI: "runs src cmp st cmp' (st' @ [s]) \<Longrightarrow> length st' = length st \<Longrightarrow> raised st st' \<Longrightarrow> k \<le> s \<Longrightarrow> pushed src cmp st (Some cmp') k"
  using raised_trans [OF _ raised_append, of st st' "[s]"] unfolding pushed_def by auto

lemma pushed_one: "runs src cmp st cmp' (st @ [s]) \<Longrightarrow> k \<le> s \<Longrightarrow> pushed src cmp st (Some cmp') k"
  by (rule pushedI [OF _ refl raised_refl])

lemma args_pushed_Nil: "stack_is cmp st \<Longrightarrow> args_pushed src cmp st (Some cmp) []"
  by (auto simp: args_pushed_def intro: runs_refl raised_refl)

lemma args_pushed_Cons:
  assumes "pushed src cmp st (Some cmp1) k" "f \<Longrightarrow> 1 \<le> k"
    "\<And>st1. stack_is cmp1 st1 \<Longrightarrow> length st1 = Suc (length st) \<Longrightarrow> args_pushed src cmp1 st1 r fs"
  shows "args_pushed src cmp st r (f # fs)"
proof -
  from assms(1) obtain st1 where 1: "runs src cmp st cmp1 st1" "length st1 = Suc (length st)" "raised st st1" "k \<le> last st1" by (auto simp: pushed_def)
  from assms(3) [OF runs_stack [OF 1(1)] 1(2)] obtain cmp' st' where
    2: "r = Some cmp'" "runs src cmp1 st1 cmp' st'" "length st' = length st1 + length fs" "raised st1 st'"
      "\<And>i. i < length fs \<Longrightarrow> fs ! i \<Longrightarrow> 1 \<le> st' ! (length st1 + i)" by (auto simp: args_pushed_def)
  have "last st1 = st1 ! length st" using 1(2) by (metis diff_Suc_1 last_conv_nth length_0_conv nat.distinct(1))
  with 1(2,4) 2(4) have "k \<le> st' ! length st" by (auto simp: raised_def intro: le_trans)
  then have "1 \<le> st' ! (length st + i)" if "i < length (f # fs)" "(f # fs) ! i" for i
    using that assms(2) 2(5) [of "i - 1"] 1(2) by (cases i) auto
  with 1 2 runs_trans [OF 1(1) 2(2)] raised_trans [OF 1(3) 2(4)] show ?thesis by (auto simp: args_pushed_def)
qed

lemma compilesC: "compiles src e \<Longrightarrow> stack_is cmp st \<Longrightarrow> scope p (length st) e \<Longrightarrow> pushed src cmp st (compC src cmp e p (length st)) 0"
  by (simp add: compiles_def)

lemma compilesE: "compiles src e \<Longrightarrow> stack_is cmp st \<Longrightarrow> scope p (length st) e \<Longrightarrow> pushed src cmp st (compE src cmp e p (length st)) 1"
  by (simp add: compiles_def)

lemma compC_args_ok:
  "\<forall>x \<in> set (spine_args c). compiles src x \<Longrightarrow> stack_is cmp st \<Longrightarrow> scope p (length st) c \<Longrightarrow>
    args_pushed src cmp st (compC_args src cmp c p (length st)) (replicate (spine_len c) False)"
proof (induction c arbitrary: cmp st rule: spine_args.induct)
  case (1 l s a b)
  have b: "compiles src b" and h: "\<forall>x \<in> set (spine_args a). compiles src x" using 1(2) by simp_all
  have "pushed src cmp st (compC src cmp b p (length st)) 0" by (rule compilesC [OF b 1(3) scope_app(1) [OF 1(4)]])
  then obtain cmp1 where 2: "compC src cmp b p (length st) = Some cmp1" "pushed src cmp st (Some cmp1) 0" by (auto simp: pushed_def)
  have "args_pushed src cmp1 st1 (compC_args src cmp1 a p (Suc (length st))) (replicate (spine_len a) False)"
    if t: "stack_is cmp1 st1" "length st1 = Suc (length st)" for st1
    using 1(1) [OF h t(1)] scope_app(2) [OF 1(4)] unfolding t(2) by blast
  then have "args_pushed src cmp st (compC_args src cmp1 a p (Suc (length st))) (False # replicate (spine_len a) False)"
    by (intro args_pushed_Cons [OF 2(2)]) simp_all
  then show ?case using 2(1) by simp
qed (simp_all add: args_pushed_Nil)

lemma compE_args_ok:
  "\<forall>x \<in> set (spine_args c). compiles src x \<Longrightarrow> stack_is cmp st \<Longrightarrow> scope p (length st) c \<Longrightarrow>
    args_pushed src cmp st (compE_args src cmp c p (length st)) (map snd (spine_pairs c))"
proof (induction c arbitrary: cmp st rule: spine_args.induct)
  case (1 l s a b)
  have b: "compiles src b" and h: "\<forall>x \<in> set (spine_args a). compiles src x" using 1(2) by simp_all
  from compilesC [OF b 1(3) scope_app(1) [OF 1(4)]] compilesE [OF b 1(3) scope_app(1) [OF 1(4)]]
  have "pushed src cmp st (if s then compE src cmp b p (length st) else compC src cmp b p (length st)) (of_bool s)"
    by simp
  then obtain cmp1 where 2: "(if s then compE src cmp b p (length st) else compC src cmp b p (length st)) = Some cmp1"
    "pushed src cmp st (Some cmp1) (of_bool s)" by (auto simp: pushed_def)
  have "args_pushed src cmp1 st1 (compE_args src cmp1 a p (Suc (length st))) (map snd (spine_pairs a))"
    if t: "stack_is cmp1 st1" "length st1 = Suc (length st)" for st1
    using 1(1) [OF h t(1)] scope_app(2) [OF 1(4)] unfolding t(2) by blast
  then have "args_pushed src cmp st (compE_args src cmp1 a p (Suc (length st))) (s # map snd (spine_pairs a))"
    by (intro args_pushed_Cons [OF 2(2)]) simp_all
  then show ?case using 2(1) by simp
qed (simp_all add: args_pushed_Nil)

subsection \<open>Letrecs\<close>

text \<open>Each binding has its place on the stack, in order.\<close>

definition places :: "pmap \<Rightarrow> nat \<Rightarrow> letrec list \<Rightarrow> bool" where
  "places p n rs \<longleftrightarrow> (\<forall>j < length rs. presolve p (rec_name (rs ! j)) = Some (n + Suc j))"

definition bindings_scope :: "pmap \<Rightarrow> nat \<Rightarrow> letrec list \<Rightarrow> bool" where
  "bindings_scope p n rs \<longleftrightarrow> places p n rs \<and> in_range p n (fv_recs rs - set (map rec_name rs)) \<and> distinct (map fst p @ binders_recs rs) \<and>
     (\<forall>r \<in> set rs. stack_room (length p + nodes (rec_value r)))"

lemma places_range: "places p n rs \<Longrightarrow> in_range p (n + length rs) (set (map rec_name rs))"
  by (fastforce simp: places_def in_range_def in_set_conv_nth)

lemma bindings_scope_value:
  assumes "bindings_scope p n (Letrec x v st sc # rs)"
  shows "scope p (n + Suc (length rs)) v"
proof -
  let ?rs = "Letrec x v st sc # rs"
  have "in_range p (n + length ?rs) (set (map rec_name ?rs))" using assms places_range unfolding bindings_scope_def by blast
  moreover have "in_range p (n + length ?rs) (fv_recs ?rs - set (map rec_name ?rs))" using assms in_range_mono unfolding bindings_scope_def by (metis le_add1 order_refl)
  ultimately have "in_range p (n + length ?rs) (fv v)" unfolding in_range_def by auto
  then show ?thesis using assms by (auto simp: scope_def bindings_scope_def)
qed

lemma bindings_scope_Cons:
  assumes "bindings_scope p n (Letrec x v st sc # rs)"
  shows "bindings_scope p (Suc n) rs"
proof -
  let ?rs = "Letrec x v st sc # rs"
  have pl: "places p n ?rs" and r: "in_range p n (fv_recs ?rs - set (map rec_name ?rs))" using assms by (simp_all add: bindings_scope_def)
  have "presolve p x = Some (Suc n)" "places p (Suc n) rs" using pl by (force simp: places_def)+
  moreover have "in_range p (Suc n) (fv_recs rs - set (map rec_name rs))" unfolding in_range_def
  proof
    fix y assume y: "y \<in> fv_recs rs - set (map rec_name rs)"
    show "\<exists>i. presolve p y = Some i \<and> 1 \<le> i \<and> i \<le> Suc n"
    proof (cases "y = x")
      case False
      then have "y \<in> fv_recs ?rs - set (map rec_name ?rs)" using y by simp
      with r obtain i where "presolve p y = Some i" "1 \<le> i" "i \<le> n" unfolding in_range_def by blast
      then show ?thesis by simp
    qed (use calculation(1) in simp)
  qed
  ultimately show ?thesis using assms by (auto simp: bindings_scope_def)
qed

lemma getusage_set:
  "compilable src e \<Longrightarrow> set (getusage e used) = symbols e \<union> set used"
  "compilable_recs src rs \<Longrightarrow> set (getusage_recs rs used) = symbols_recs rs \<union> set used"
  by (induction e used and rs used rule: getusage_getusage_recs.induct) (auto split: if_splits)

lemma fv_subset_symbols: "fv e \<subseteq> symbols e" "fv_recs rs \<subseteq> symbols_recs rs"
  by (induction e and rs rule: fv_fv_recs.induct) auto

lemma letrecs_unused: "compilable src v \<Longrightarrow> letrecs_used v rs = 0 \<longleftrightarrow> symbols v \<inter> set (map rec_name rs) = {}"
  by (auto simp: letrecs_used_def getusage_set filter_empty_conv)

lemma bindings_scope_unused:
  assumes "bindings_scope p n (Letrec x v st sc # rs)" "letrecs_used v (Letrec x v st sc # rs) = 0" "compilable src v"
  shows "scope p n v"
proof -
  have "fv v \<subseteq> fv_recs (Letrec x v st sc # rs) - set (map rec_name (Letrec x v st sc # rs))"
    using assms(2) fv_subset_symbols(1) [of v] unfolding letrecs_unused [OF assms(3)] by auto
  with assms(1) show ?thesis by (auto simp: scope_def bindings_scope_def elim: in_range_mono)
qed

text \<open>When the bindings of a letrec are stored, the places after the first \<open>k\<close> hold any value.\<close>

lemma Cletrec_rest_ok:
  "\<forall>r \<in> set rs. compiles src (rec_value r) \<Longrightarrow> stack_is cmp st \<Longrightarrow> length st = n + length rs \<Longrightarrow> bindings_scope p n rs \<Longrightarrow>
    \<exists>cmp' st'. Cletrec_rest src cmp rs p (length st) sx = Some cmp' \<and> runs src cmp st cmp' st' \<and> length st' = length st \<and> raised (take n st) st'"
proof (induction rs arbitrary: cmp st n)
  case (Cons r rs)
  obtain x v s sc where r: "r = Letrec x v s sc" by (cases r)
  have sv: "scope p (length st) v" using bindings_scope_value [OF Cons.prems(4) [unfolded r]] Cons.prems(3) by simp
  define rv where "rv = (if sx \<and> s \<and> letrecs_used v (Letrec x v s sc # rs) = 0 then compE src cmp v p (length st) else compC src cmp v p (length st))"
  have "compiles src v" using Cons.prems(1) r by simp
  with Cons.prems(2) sv have "\<exists>k. pushed src cmp st rv k" unfolding rv_def compiles_def by auto
  then obtain cmp1 st1 s1 where 1: "rv = Some cmp1" "runs src cmp st cmp1 (st1 @ [s1])" "length st1 = length st" "raised st st1"
    by (auto elim: pushedE)
  have i: "presolve p x = Some (Suc n)" using Cons.prems(4) r by (auto simp: bindings_scope_def places_def)
  from UPDATE_runs [OF runs_stack [OF 1(2)], of n "int (length st) + 1 - int (Suc n)" "sl v" src] 1(3) Cons.prems(3)
  obtain cmp2 where 2: "UPDATE cmp1 (sl v) (int (length st) + 1 - int (Suc n)) = Some cmp2" "runs src cmp1 (st1 @ [s1]) cmp2 (st1[n := s1])" by auto
  from Cons.IH [OF _ runs_stack [OF 2(2)], of "Suc n"] Cons.prems(1,3) 1(3) bindings_scope_Cons [OF Cons.prems(4) [unfolded r]]
  obtain cmp' st' where 3: "Cletrec_rest src cmp2 rs p (length st) sx = Some cmp'" "runs src cmp2 (st1[n := s1]) cmp' st'" "length st' = length st"
    "raised (take (Suc n) (st1[n := s1])) st'" by auto
  have "raised (take n st) (take n st1)" by (rule raised_take [OF 1(4)]) (use Cons.prems(3) in simp)
  moreover have "raised (take n st1) st'" using 3(4) by (auto simp: raised_def)
  ultimately have "raised (take n st) st'" by (rule raised_trans)
  with 1 2 3 i runs_trans [OF runs_trans [OF 1(2) 2(2)] 3(2)] show ?case unfolding r by (auto simp: rv_def)
qed (auto intro: runs_refl simp: raised_def)

lemma Cletrec_ok:
  "\<forall>r \<in> set rs. compiles src (rec_value r) \<Longrightarrow> compilable_recs src rs \<Longrightarrow> stack_is cmp st \<Longrightarrow> bindings_scope p (length st) rs \<Longrightarrow>
    \<exists>cmp' st'. Cletrec src cmp rs p (length st) sx = Some cmp' \<and> runs src cmp st cmp' st' \<and> length st' = length st + length rs \<and> raised st st'"
proof (induction rs arbitrary: cmp st)
  case (Cons r rs)
  obtain x v s sc where r: "r = Letrec x v s sc" by (cases r)
  have cv: "compiles src v" "compilable src v" "compilable_recs src rs" using Cons.prems(1,2) r by simp_all
  show ?case
  proof (cases "sx \<and> s \<and> letrecs_used v (Letrec x v s sc # rs) = 0")
    case True
    then have "scope p (length st) v" using bindings_scope_unused [OF Cons.prems(4) [unfolded r] _ cv(2)] True by blast
    from compilesE [OF cv(1) Cons.prems(3) this] obtain cmp1 st1 where 1: "compE src cmp v p (length st) = Some cmp1" "runs src cmp st cmp1 st1" "length st1 = Suc (length st)" "raised st st1"
      by (auto simp: pushed_def)
    from Cons.IH [OF _ cv(3) runs_stack [OF 1(2)]] Cons.prems(1) 1(3) bindings_scope_Cons [OF Cons.prems(4) [unfolded r]]
    obtain cmp' st' where 2: "Cletrec src cmp1 rs p (Suc (length st)) sx = Some cmp'" "runs src cmp1 st1 cmp' st'" "length st' = length st1 + length rs" "raised st1 st'" by auto
    with 1 True runs_trans [OF 1(2) 2(2)] raised_trans [OF 1(4) 2(4)] show ?thesis unfolding r by auto
  next
    case False
    let ?st = "st @ replicate (Suc (length rs)) 0"
    from ALLOC_runs [OF Cons.prems(3), of "sl v" "Suc (length rs)" src] obtain cmp1 where
      1: "add_instruction cmp (sl v) OP_ALLOC (int (Suc (length rs))) 0 = Some cmp1" "runs src cmp st cmp1 ?st" by blast
    from Cletrec_rest_ok [OF Cons.prems(1) runs_stack [OF 1(2)], of "length st" p sx] Cons.prems(4) obtain cmp' st' where
      2: "Cletrec_rest src cmp1 (r # rs) p (length st + Suc (length rs)) sx = Some cmp'" "runs src cmp1 ?st cmp' st'" "length st' = length ?st" "raised st st'" by auto
    have "Cletrec src cmp (r # rs) p (length st) sx = Some cmp'" using 1(1) 2(1)
      unfolding r Cletrec.simps if_not_P [OF False] Let_def by (simp del: Cletrec_rest.simps)
    with 2 runs_trans [OF 1(2) 2(2)] show ?thesis by auto
  qed
qed (auto intro: runs_refl raised_refl)

lemma map_of_places:
  assumes "distinct (map fst p @ map rec_name rs)"
  shows "places (bind_places rs p n) n rs"
proof -
  have "presolve (bind_places rs p n) (rec_name (rs ! j)) = Some (n + Suc j)" if j: "j < length rs" for j
  proof -
    have "rec_name (rs ! j) \<in> set (map rec_name rs)" using j by simp
    then have "map_of p (rec_name (rs ! j)) = None" using assms by (auto simp: map_of_eq_None_iff)
    moreover have "map_of (zip (map rec_name rs) [Suc n..<Suc n + length rs]) (map rec_name rs ! j) = Some ([Suc n..<Suc n + length rs] ! j)"
      by (rule map_of_zip_nth) (use assms j in auto)
    ultimately show ?thesis using j by (simp add: presolve_def bind_places_def map_add_Some_iff del: upt_Suc)
  qed
  then show ?thesis by (simp add: places_def)
qed

lemma bind_places_old: "in_range p n vs \<Longrightarrow> in_range (bind_places rs p n) n vs"
  unfolding in_range_def presolve_def bind_places_def by (auto simp: map_add_def split: option.splits)

lemma scope_letrec:
  assumes "scope p n (LetrecNode l rs b)"
  shows "bindings_scope (bind_places rs p n) n rs" "scope (bind_places rs p n) (n + length rs) b" "bind_recs rs p n = Some (bind_places rs p n)"
proof -
  let ?p = "bind_places rs p n"
  have room: "stack_room (length p + Suc (nodes_recs rs + nodes b))" and len: "length rs \<le> nodes_recs rs" "length ?p = length p + length rs"
    using assms length_nodes_recs [of rs] by (simp_all add: scope_def bind_places_def del: upt_Suc)
  have "length rs + nodes (rec_value r) \<le> nodes_recs rs" if "r \<in> set rs" for r using that
  proof (induction rs)
    case (Cons q rs)
    then show ?case using length_nodes_recs [of rs] by (cases q) auto
  qed simp
  then have rv: "\<forall>r \<in> set rs. stack_room (length ?p + nodes (rec_value r))"
    unfolding len(2) by (intro ballI stack_room_mono [OF room]) (simp add: add.assoc le_SucI trans_le_add1)
  have rb: "stack_room (length ?p + nodes b)" by (rule stack_room_mono [OF room]) (use len in simp)
  show "bind_recs rs p n = Some ?p" using stack_room_mono [OF room, of "length p + length rs"] len(1) by (simp add: bind_recs_def)
  have d: "distinct (map fst p @ map rec_name rs @ binders_recs rs @ binders b)" using assms by (simp add: scope_def)
  have fst: "map fst ?p = map fst p @ map rec_name rs" by (simp add: bind_places_def del: upt_Suc)
  have pl: "places ?p n rs" by (rule map_of_places) (use d in auto)
  have old: "in_range ?p n ((fv_recs rs \<union> fv b) - set (map rec_name rs))" using assms bind_places_old by (simp add: scope_def)
  have "in_range ?p n (fv_recs rs - set (map rec_name rs))" by (rule in_range_mono [OF old order_refl]) auto
  then show "bindings_scope ?p n rs" unfolding bindings_scope_def fst using pl d rv by auto
  have "in_range ?p (n + length rs) (((fv_recs rs \<union> fv b) - set (map rec_name rs)) \<union> set (map rec_name rs))"
    unfolding in_range_Un using places_range [OF pl] in_range_mono [OF old le_add1 order_refl] by blast
  from in_range_mono [OF this order_refl] have "in_range ?p (n + length rs) (fv b)" by auto
  then show "scope ?p (n + length rs) b" using d rb unfolding scope_def fst by auto
qed

lemma SQUEEZE_pushed:
  assumes "stack_is cmp (st @ mid @ [s])" "mid \<noteq> []"
  shows "\<exists>cmp'. add_instruction cmp l OP_SQUEEZE 1 (int (length mid)) = Some cmp' \<and> runs src cmp (st @ mid @ [s]) cmp' (st @ [s])"
  using SQUEEZE_runs [OF assms, of l src] by simp

lemma letrec_pushed:
  assumes ne: "rs \<noteq> []" and rs: "\<exists>cmp1 st1. r = Some cmp1 \<and> runs src cmp st cmp1 st1 \<and> length st1 = length st + length rs \<and> raised st st1"
    and b: "\<And>cmp1 st1. stack_is cmp1 st1 \<Longrightarrow> length st1 = length st + length rs \<Longrightarrow> pushed src cmp1 st1 (f cmp1) k"
  shows "pushed src cmp st (do { cmp1 \<leftarrow> r; cmp2 \<leftarrow> f cmp1; add_instruction cmp2 l OP_SQUEEZE 1 (int (length rs)) }) k"
proof -
  from rs obtain cmp1 st1 where 1: "r = Some cmp1" "runs src cmp st cmp1 st1" "length st1 = length st + length rs" "raised st st1" by blast
  from pushedE [OF b [OF runs_stack [OF 1(2)] 1(3)]] obtain cmp2 st2 s where
    2: "f cmp1 = Some cmp2" "runs src cmp1 st1 cmp2 (st2 @ [s])" "length st2 = length st1" "raised st1 st2" "k \<le> s" by metis
  let ?a = "take (length st) st2" and ?m = "drop (length st) st2"
  have st2: "st2 @ [s] = ?a @ ?m @ [s]" by simp
  have m: "length ?m = length rs" "length ?a = length st" using 1(3) 2(3) by simp_all
  have "stack_is cmp2 (?a @ ?m @ [s])" using runs_stack [OF 2(2)] by (simp only: st2)
  moreover have "?m \<noteq> []" using m(1) ne by (metis length_0_conv)
  ultimately have "\<exists>cmp'. add_instruction cmp2 l OP_SQUEEZE 1 (int (length ?m)) = Some cmp' \<and> runs src cmp2 (?a @ ?m @ [s]) cmp' (?a @ [s])" by (rule SQUEEZE_pushed)
  then obtain cmp3 where 3: "add_instruction cmp2 l OP_SQUEEZE 1 (int (length rs)) = Some cmp3"
    "runs src cmp2 (st2 @ [s]) cmp3 (?a @ [s])" unfolding st2 m(1) by blast
  have "raised st ?a" using raised_trans [OF 1(4) 2(4)] m by (simp add: raised_def)
  from pushedI [OF runs_trans [OF runs_trans [OF 1(2) 2(2)] 3(2)] m(2) this 2(5)] 1 2 3 show ?thesis by simp
qed

lemma compiles_letrec:
  assumes ne: "rs \<noteq> []" and rs: "\<forall>r \<in> set rs. compiles src (rec_value r)" "compilable_recs src rs" and b: "compiles src b"
  shows "compiles src (LetrecNode l rs b)"
  unfolding compiles_def
proof (intro allI impI)
  fix cmp st p assume st: "stack_is cmp st" and sc: "scope p (length st) (LetrecNode l rs b)"
  let ?p = "bind_places rs p (length st)"
  note C = Cletrec_ok [OF rs st scope_letrec(1) [OF sc]]
  have sb: "scope ?p (length st1) b" if "length st1 = length st + length rs" for st1 :: "nat list"
    using scope_letrec(2) [OF sc] that by simp
  have "pushed src cmp st (compC src cmp (LetrecNode l rs b) p (length st)) 0"
    unfolding compC.simps scope_letrec(3) [OF sc] bind.bind_lunit by (rule letrec_pushed [OF ne C]) (use compilesC [OF b _ sb] in simp)
  moreover have "pushed src cmp st (compE src cmp (LetrecNode l rs b) p (length st)) 1"
    unfolding compE.simps scope_letrec(3) [OF sc] bind.bind_lunit by (rule letrec_pushed [OF ne C]) (use compilesE [OF b _ sb] in simp)
  ultimately show "pushed src cmp st (compC src cmp (LetrecNode l rs b) p (length st)) 0 \<and> pushed src cmp st (compE src cmp (LetrecNode l rs b) p (length st)) 1" ..
qed

subsection \<open>Applications\<close>

lemma SPARK_top:
  assumes "stack_is cmp (st @ [s])"
  shows "\<exists>cmp'. SPARK cmp l 0 = Some cmp' \<and> runs src cmp (st @ [s]) cmp' (st @ [max 1 s])"
  using SPARK_runs [OF assms, of "length st" 0 l src] by simp

lemma EVAL_top:
  assumes "stack_is cmp (st @ [s])"
  shows "\<exists>cmp'. EVAL cmp l 0 = Some cmp' \<and> runs src cmp (st @ [s]) cmp' (st @ [max 2 s])"
  using EVAL_runs [OF assms, of "length st" 0 l src] by simp

lemma pushed_then:
  assumes "pushed src cmp st r k"
    "\<And>cmp1 st1 s. stack_is cmp1 (st1 @ [s]) \<Longrightarrow> length st1 = length st \<Longrightarrow> k \<le> s \<Longrightarrow> \<exists>cmp2 s2. f cmp1 = Some cmp2 \<and> runs src cmp1 (st1 @ [s]) cmp2 (st1 @ [s2]) \<and> k2 \<le> s2"
  shows "pushed src cmp st (do { cmp1 \<leftarrow> r; f cmp1 }) k2"
proof -
  from pushedE [OF assms(1)] obtain cmp1 st1 s where
    1: "r = Some cmp1" "runs src cmp st cmp1 (st1 @ [s])" "length st1 = length st" "raised st st1" "k \<le> s" by blast
  from assms(2) [OF runs_stack [OF 1(2)] 1(3,5)] obtain cmp2 s2 where 2: "f cmp1 = Some cmp2" "runs src cmp1 (st1 @ [s]) cmp2 (st1 @ [s2])" "k2 \<le> s2" by blast
  from pushedI [OF runs_trans [OF 1(2) 2(2)] 1(3,4) 2(3)] 1(1) 2(1) show ?thesis by simp
qed

lemma SPARK_pushed: "pushed src cmp st r k \<Longrightarrow> pushed src cmp st (do { cmp1 \<leftarrow> r; SPARK cmp1 l 0 }) 1"
  by (erule pushed_then) (use SPARK_top in \<open>metis max.cobounded1\<close>)

lemma EVAL_pushed: "pushed src cmp st r k \<Longrightarrow> pushed src cmp st (do { cmp1 \<leftarrow> r; EVAL cmp1 l 0 }) 2"
  by (erule pushed_then) (use EVAL_top in \<open>metis max.cobounded1\<close>)

lemma pushed_weaken: "pushed src cmp st r k \<Longrightarrow> k' \<le> k \<Longrightarrow> pushed src cmp st r k'"
  unfolding pushed_def using le_trans by blast

lemma args_then:
  assumes "args_pushed src cmp st r flags"
    "\<And>cmp1 st1. stack_is cmp1 st1 \<Longrightarrow> length st1 = length st + length flags \<Longrightarrow>
       \<exists>cmp2 st2. f cmp1 = Some cmp2 \<and> pushes src cmp1 st1 (length flags) cmp2 st2 \<and> k \<le> last st2"
  shows "pushed src cmp st (do { cmp1 \<leftarrow> r; f cmp1 }) k"
proof -
  from assms(1) obtain cmp1 st1 where 1: "r = Some cmp1" "runs src cmp st cmp1 st1" "length st1 = length st + length flags" "raised st st1"
    by (auto simp: args_pushed_def)
  from assms(2) [OF runs_stack [OF 1(2)] 1(3)] obtain cmp2 st2 where
    2: "f cmp1 = Some cmp2" "runs src cmp1 st1 cmp2 st2" "length st2 = Suc (length st)" "raised (take (length st) st1) st2" "k \<le> last st2"
    using 1(3) by (auto simp: pushes_def)
  have "raised st (take (length st) st1)" using raised_take [OF 1(4), of "length st"] by simp
  with 1 2 raised_trans [OF _ 2(4)] runs_trans [OF 1(2) 2(2)] show ?thesis by (auto simp: pushed_def)
qed

lemma callee:
  assumes "callable src f m"
  obtains fno k where "snode_fno f = Some fno" "function_nargs src fno = Some k" "m \<le> k" "fno < NUM_BUILTINS \<longleftrightarrow> (\<exists>l b. f = Builtin l b)"
proof (cases f)
  case (Scref l i)
  then show ?thesis using assms that [of "i + NUM_BUILTINS"] by (simp add: callable_def snode_fno_def function_nargs_def get_scomb_index_def)
next
  case (Builtin l b)
  then show ?thesis using assms that [of b] by (simp add: callable_def snode_fno_def function_nargs_def)
qed (use assms in \<open>simp_all add: callable_def\<close>)

lemma call_pushed:
  assumes "args_pushed src cmp st r flags" "function_nargs src fno = Some k" "cafs_end src"
  shows "length flags = k \<Longrightarrow> pushed src cmp st (do { cmp1 \<leftarrow> r; domkframe src cmp1 l fno k }) 0"
    and "length flags < k \<Longrightarrow> pushed src cmp st (do { cmp1 \<leftarrow> r; MKCAP cmp1 l fno (length flags) }) 0"
    and "length flags = k \<Longrightarrow> fno < NUM_BUILTINS \<Longrightarrow>
      pushed src cmp st (do { cmp1 \<leftarrow> r; BIF cmp1 l fno }) (if bi_reteval (builtin_info ! fno) = ALWAYS_VALUE then 2 else 0)"
proof -
  show "pushed src cmp st (do { cmp1 \<leftarrow> r; domkframe src cmp1 l fno k }) 0" if "length flags = k"
    by (rule args_then [OF assms(1)]) (use domkframe_pushes [OF _ assms(2) _ assms(3)] that in auto)
  show "pushed src cmp st (do { cmp1 \<leftarrow> r; MKCAP cmp1 l fno (length flags) }) 0" if "length flags < k"
    by (rule args_then [OF assms(1)]) (use MKCAP_runs [OF _ assms(2) that] pushes_take in fastforce)
  show "pushed src cmp st (do { cmp1 \<leftarrow> r; BIF cmp1 l fno }) (if bi_reteval (builtin_info ! fno) = ALWAYS_VALUE then 2 else 0)"
    if k: "length flags = k" "fno < NUM_BUILTINS"
  proof (rule args_then [OF assms(1)])
    fix cmp1 st1 assume s: "stack_is cmp1 st1" "length st1 = length st + length flags"
    have bk: "bi_nargs (builtin_info ! fno) = k" using assms(2) k(2) by (simp add: function_nargs_def)
    from BIF_runs [OF s(1) k(2), of l src] s(2) k(1) bk obtain cmp2 st2 where
      "BIF cmp1 l fno = Some cmp2" "runs src cmp1 st1 cmp2 st2" "length st2 = Suc (length st1 - k)" "raised (take (length st1 - k) st1) st2"
      "bi_reteval (builtin_info ! fno) = ALWAYS_VALUE \<longrightarrow> last st2 = 2" by auto
    then show "\<exists>cmp2 st2. BIF cmp1 l fno = Some cmp2 \<and> pushes src cmp1 st1 (length flags) cmp2 st2 \<and>
        (if bi_reteval (builtin_info ! fno) = ALWAYS_VALUE then 2 else 0) \<le> last st2"
      using k(1) by (intro exI [of _ cmp2] exI [of _ st2]) (simp add: pushes_def)
  qed
qed

lemma length_spine_pairs [simp]: "length (spine_pairs c) = spine_len c"
  by (induction c rule: spine_pairs.induct) simp_all

lemma if_pushed:
  assumes st: "stack_is cmp st" "length st = n" and c: "compiles src cond" "scope p n cond"
    and t: "compiles src t" "scope p n t" and f: "compiles src f" "scope p n f"
  shows "pushed src cmp st (do { cmp1 \<leftarrow> compE src cmp cond p n;
      (cmp2, label) \<leftarrow> JFALSE cmp1 l;
      cmp3 \<leftarrow> compE src (newswap cmp2) t p n;
      (cmp4, end_label) \<leftarrow> JUMP cmp3 l;
      let cmp5 = LABEL (freeswap cmp4 (c_si cmp2)) label;
      cmp6 \<leftarrow> compE src (newswap cmp5) f p n;
      si \<leftarrow> c_si cmp2;
      Some (LABEL (freeswap cmp6 (Some (pushstatus si STATUS_SPARKED))) end_label) }) 1"
proof -
  from pushedE [OF compilesE [OF c(1) st(1), unfolded st(2), OF c(2)]] obtain cmp1 st1 s where
    1: "compE src cmp cond p n = Some cmp1" "runs src cmp st cmp1 (st1 @ [s])" "length st1 = n" "raised st st1" using st(2) by metis
  from JFALSE_branches [OF runs_stack [OF 1(2)], of l src] obtain cmp2 addr where
    2: "JFALSE cmp1 l = Some (cmp2, addr)" "branches src cmp1 (st1 @ [s]) cmp2 addr st1" by blast
  have s2: "stack_is cmp2 st1" using 2(2) by (simp add: branches_def)
  from pushedE [OF compilesE [OF t(1) s2, unfolded 1(3), OF t(2)]] obtain cmp3 stB sB where
    3: "compE src cmp2 t p n = Some cmp3" "runs src cmp2 st1 cmp3 (stB @ [sB])" "length stB = n" using 1(3) by metis
  from JUMP_emits [OF runs_stack [OF 3(2)], of l src] obtain cmp4 where 4: "JUMP cmp3 l = Some (cmp4, length (c_instructions cmp3))" by blast
  let ?cmp5 = "LABEL (freeswap cmp4 (c_si cmp2)) addr"
  have s5: "stack_is ?cmp5 st1" using s2 by (simp add: stack_is_def freeswap_def LABEL_def)
  from pushedE [OF compilesE [OF f(1) s5, unfolded 1(3), OF f(2)]] obtain cmp6 stD sD where
    6: "compE src ?cmp5 f p n = Some cmp6" "runs src ?cmp5 st1 cmp6 (stD @ [sD])" "length stD = n" using 1(3) by metis
  have "runs src cmp1 (st1 @ [s]) (LABEL (freeswap cmp6 (Some \<lparr>si_status = st1 @ [1], si_invalid = False\<rparr>)) (length (c_instructions cmp3))) (st1 @ [1])"
    by (rule branch_runs [OF 2(2) 3(2) 4 6(2)]) (use 1(3) 3(3) 6(3) in simp_all)
  from pushedI [OF runs_trans [OF 1(2) this] _ 1(4), of 1] show ?thesis
    using 1 2 3 4 6 s2 s5 st(2) by (simp add: stack_is_def pushstatus_def Let_def)
qed

lemma if_eq_pushed:
  assumes st: "stack_is cmp st" "length st = n" and c: "compiles src x" "scope p n x"
    and t: "compiles src t" "scope p n t" and f: "compiles src f" "scope p n f"
  shows "pushed src cmp st (do { cmp1 \<leftarrow> compE src cmp x p n;
      (cmp2, label) \<leftarrow> JEQ cmp1 l v;
      cmp3 \<leftarrow> add_instruction (newswap cmp2) l OP_POP 1 0;
      cmp4 \<leftarrow> compE src cmp3 f p n;
      (cmp5, end_label) \<leftarrow> JUMP cmp4 l;
      let cmp6 = LABEL (freeswap cmp5 (c_si cmp2)) label;
      cmp7 \<leftarrow> add_instruction (newswap cmp6) l OP_POP 1 0;
      cmp8 \<leftarrow> compE src cmp7 t p n;
      si \<leftarrow> c_si cmp2;
      si1 \<leftarrow> popstatus si 1;
      Some (LABEL (freeswap cmp8 (Some (pushstatus si1 STATUS_SPARKED))) end_label) }) 1"
proof -
  from pushedE [OF compilesE [OF c(1) st(1), unfolded st(2), OF c(2)]] obtain cmp1 st1 s where
    1: "compE src cmp x p n = Some cmp1" "runs src cmp st cmp1 (st1 @ [s])" "length st1 = n" "raised st st1" using st(2) by metis
  from JEQ_branches [OF runs_stack [OF 1(2)], of l v src] obtain cmp2 addr s' where
    2: "JEQ cmp1 l v = Some (cmp2, addr)" "branches src cmp1 (st1 @ [s]) cmp2 addr (st1 @ [s'])" by blast
  have s2: "stack_is cmp2 (st1 @ [s'])" using 2(2) by (simp add: branches_def)
  from POP_runs [OF s2, of l src] obtain cmp3 where 3: "add_instruction cmp2 l OP_POP 1 0 = Some cmp3" "runs src cmp2 (st1 @ [s']) cmp3 st1" by blast
  from pushedE [OF compilesE [OF f(1) runs_stack [OF 3(2)], unfolded 1(3), OF f(2)]] obtain cmp4 stB sB where
    4: "compE src cmp3 f p n = Some cmp4" "runs src cmp3 st1 cmp4 (stB @ [sB])" "length stB = n" using 1(3) by metis
  from JUMP_emits [OF runs_stack [OF 4(2)], of l src] obtain cmp5 where 5: "JUMP cmp4 l = Some (cmp5, length (c_instructions cmp4))" by blast
  let ?cmp6 = "LABEL (freeswap cmp5 (c_si cmp2)) addr"
  have s6: "stack_is ?cmp6 (st1 @ [s'])" using s2 by (simp add: stack_is_def freeswap_def LABEL_def)
  from POP_runs [OF s6, of l src] obtain cmp7 where 7: "add_instruction ?cmp6 l OP_POP 1 0 = Some cmp7" "runs src ?cmp6 (st1 @ [s']) cmp7 st1" by blast
  from pushedE [OF compilesE [OF t(1) runs_stack [OF 7(2)], unfolded 1(3), OF t(2)]] obtain cmp8 stD sD where
    8: "compE src cmp7 t p n = Some cmp8" "runs src cmp7 st1 cmp8 (stD @ [sD])" "length stD = n" using 1(3) by metis
  have "runs src cmp1 (st1 @ [s]) (LABEL (freeswap cmp8 (Some \<lparr>si_status = st1 @ [1], si_invalid = False\<rparr>)) (length (c_instructions cmp4))) (st1 @ [1])"
    by (rule branch_runs [OF 2(2) runs_trans [OF 3(2) 4(2)] 5 runs_trans [OF 7(2) 8(2)]]) (use 1(3) 4(3) 8(3) in simp_all)
  from pushedI [OF runs_trans [OF 1(2) this] _ 1(4), of 1] show ?thesis
    using 1 2 3 4 5 7 8 s2 s6 st(2) by (simp add: stack_is_def pushstatus_def popstatus_def Let_def)
qed

lemma seq_pushed:
  assumes st: "stack_is cmp st" "length st = n" and x: "compiles src x" "scope p n x" and y: "compiles src y" "scope p n y"
  shows "pushed src cmp st (do { cmp1 \<leftarrow> compE src cmp x p n; cmp2 \<leftarrow> EVAL cmp1 l 0; cmp3 \<leftarrow> add_instruction cmp2 l OP_POP 1 0; compE src cmp3 y p n }) 1"
proof -
  from pushedE [OF compilesE [OF x(1) st(1), unfolded st(2), OF x(2)]] obtain cmp1 st1 s where
    1: "compE src cmp x p n = Some cmp1" "runs src cmp st cmp1 (st1 @ [s])" "length st1 = n" "raised st st1" using st(2) by metis
  from EVAL_top [OF runs_stack [OF 1(2)], of l src] obtain cmp2 s2 where 2: "EVAL cmp1 l 0 = Some cmp2" "runs src cmp1 (st1 @ [s]) cmp2 (st1 @ [s2])" by blast
  from POP_runs [OF runs_stack [OF 2(2)], of l src] obtain cmp3 where 3: "add_instruction cmp2 l OP_POP 1 0 = Some cmp3" "runs src cmp2 (st1 @ [s2]) cmp3 st1" by blast
  from pushedE [OF compilesE [OF y(1) runs_stack [OF 3(2)], unfolded 1(3), OF y(2)]] obtain cmp4 st4 s4 where
    4: "compE src cmp3 y p n = Some cmp4" "runs src cmp3 st1 cmp4 (st4 @ [s4])" "length st4 = n" "raised st1 st4" "1 \<le> s4" using 1(3) by metis
  from pushedI [OF runs_trans [OF runs_trans [OF runs_trans [OF 1(2) 2(2)] 3(2)] 4(2)] _ raised_trans [OF 1(4) 4(4)] 4(5)]
  show ?thesis using 1 2 3 4 st(2) by simp
qed

lemma item_pushed:
  assumes "pushed src cmp st (compE src cmp x p n) 1"
  shows "pushed src cmp st (do { cmp1 \<leftarrow> compE src cmp x p n; cmp2 \<leftarrow> add_instruction cmp1 l OP_ITEMN i 0; SPARK cmp2 l 0 }) 1"
proof -
  have "pushed src cmp st (do { cmp1 \<leftarrow> compE src cmp x p n; add_instruction cmp1 l OP_ITEMN i 0 }) 0"
    by (rule pushed_then [OF assms]) (use ITEMN_runs in blast)
  from SPARK_pushed [OF this, of l] show ?thesis by (simp add: Option.bind_assoc)
qed

lemma parts_args:
  "if_parts c = Some (x, y, z) \<Longrightarrow> {x, y, z} \<subseteq> set (spine_args c)"
  "seq_parts c = Some (x, y) \<Longrightarrow> {x, y} \<subseteq> set (spine_args c)"
  "item_parts src c = Some (i, x) \<Longrightarrow> x \<in> set (spine_args c)"
  "eq_cond c = Some (x, v) \<Longrightarrow> x \<in> set (spine_args c)"
proof -
  show "if_parts c = Some (x, y, z) \<Longrightarrow> {x, y, z} \<subseteq> set (spine_args c)" by (auto simp: if_parts_def split: if_splits)
  show "seq_parts c = Some (x, y) \<Longrightarrow> {x, y} \<subseteq> set (spine_args c)" by (auto simp: seq_parts_def split: if_splits)
  show "item_parts src c = Some (i, x) \<Longrightarrow> x \<in> set (spine_args c)" by (auto simp: item_parts_def bind_eq_Some_conv split: if_splits snode.splits)
  have app: "app_parts e = Some (a, b) \<Longrightarrow> \<exists>l s. e = Application l s a b" for e a b by (cases e) auto
  show "eq_cond c = Some (x, v) \<Longrightarrow> x \<in> set (spine_args c)"
    by (auto simp: eq_cond_def bind_eq_Some_conv split: if_splits dest!: app)
qed

lemma app_callable: "compilable src (Application l s a b) \<Longrightarrow> callable src (spine_head (Application l s a b)) (spine_len (Application l s a b))"
  by simp

lemma compC_app:
  assumes c: "c = Application l s a b" "compilable src c" and ar: "\<forall>x \<in> set (spine_args c). compiles src x"
    and st: "stack_is cmp st" "scope p (length st) c" and caf: "cafs_end src"
  shows "pushed src cmp st (compC src cmp c p (length st)) 0"
proof -
  from callee [OF app_callable [OF c(2) [unfolded c(1)]]] obtain fno k where
    f: "snode_fno (spine_head c) = Some fno" "function_nargs src fno = Some k" "spine_len c \<le> k" using c(1) by metis
  note A = compC_args_ok [OF ar st]
  have "pushed src cmp st (do { cmp1 \<leftarrow> compC_args src cmp c p (length st);
      if k < spine_len c then None else if spine_len c = k then domkframe src cmp1 (sl (spine_head c)) fno k
      else MKCAP cmp1 (sl (spine_head c)) fno (spine_len c) }) 0"
    using call_pushed(1,2) [OF A f(2) caf, of "sl (spine_head c)"] f(3) by (cases "spine_len c = k") simp_all
  then show ?thesis using f(1,2) unfolding c(1) by (simp add: Let_def)
qed

lemma compE_call:
  assumes ar: "\<forall>x \<in> set (spine_args c). compiles src x" and st: "stack_is cmp st" "scope p (length st) c" and caf: "cafs_end src"
    and f: "function_nargs src fno = Some k" "spine_len c \<le> k"
  shows "pushed src cmp st (do { cmp1 \<leftarrow> compE_args src cmp c p (length st);
      if spine_len c = k then
        if fno < NUM_BUILTINS then
          if bi_purity (builtin_info ! fno) = PURE then
            do { cmp2 \<leftarrow> BIF cmp1 l fno;
                 if bi_reteval (builtin_info ! fno) = ALWAYS_VALUE then Some cmp2 else SPARK cmp2 l 0 }
          else do { cmp2 \<leftarrow> domkframe src cmp1 l fno k; EVAL cmp2 l 0 }
        else do { cmp2 \<leftarrow> domkframe src cmp1 l fno k; SPARK cmp2 l 0 }
      else do { cmp2 \<leftarrow> MKCAP cmp1 l fno (spine_len c); SPARK cmp2 l 0 } }) 1"
proof -
  note call = call_pushed [OF compE_args_ok [OF ar st] f(1) caf, of l, unfolded length_map length_spine_pairs]
  show ?thesis
  proof (cases "spine_len c = k")
    case full: True
    show ?thesis
    proof (cases "fno < NUM_BUILTINS \<and> bi_purity (builtin_info ! fno) = PURE")
      case True
      from call(3) [OF full] True SPARK_pushed [OF call(3) [OF full], of l] show ?thesis
        by (cases "bi_reteval (builtin_info ! fno) = ALWAYS_VALUE") (auto simp: full Option.bind_assoc elim: pushed_weaken)
    next
      case False
      from SPARK_pushed [OF call(1) [OF full], of l] pushed_weaken [OF EVAL_pushed [OF call(1) [OF full], of l], of 1] False show ?thesis
        by (cases "fno < NUM_BUILTINS") (simp_all add: full Option.bind_assoc)
    qed
  next
    case False
    then have "spine_len c < k" using f(2) by simp
    from SPARK_pushed [OF call(2) [OF this], of l] False show ?thesis by (simp add: Option.bind_assoc)
  qed
qed

lemma compE_app:
  assumes c: "c = Application l s a b" "compilable src c" and sub: "\<forall>x. nodes x < nodes c \<longrightarrow> compilable src x \<longrightarrow> compiles src x"
    and st: "stack_is cmp st" "scope p (length st) c" and caf: "cafs_end src"
  shows "pushed src cmp st (compE src cmp c p (length st)) 1"
proof -
  from callee [OF app_callable [OF c(2) [unfolded c(1)]]] obtain fno k where
    f: "snode_fno (spine_head c) = Some fno" "function_nargs src fno = Some k" "spine_len c \<le> k" using c(1) by metis
  have ok: "compiles src x" "scope p (length st) x" "compilable src x" if "x \<in> set (spine_args c)" for x
  proof -
    show "scope p (length st) x" "compilable src x" using that scope_args [OF st(2)] compilable_args [OF c(2)] by simp_all
    moreover have "nodes x < nodes c" using that by (rule spine_args_smaller)
    ultimately show "compiles src x" using sub by blast
  qed
  note unf = c(1) compE.simps(1) Let_def
  show ?thesis
  proof (cases "if_parts c")
    case (Some q)
    obtain cond t e where q: "q = (cond, t, e)" by (cases q)
    have i: "cond \<in> set (spine_args c)" "t \<in> set (spine_args c)" "e \<in> set (spine_args c)" using parts_args(1) [of c] Some q by auto
    show ?thesis
    proof (cases "eq_cond cond")
      case None
      from if_pushed [OF st(1) refl ok(1,2) [OF i(1)] ok(1,2) [OF i(2)] ok(1,2) [OF i(3)], of "sl cond"]
      show ?thesis using f Some q None unfolding unf by simp
    next
      case (Some w)
      obtain x v where w: "w = (x, v)" by (cases w)
      have x: "x \<in> set (spine_args cond)" using parts_args(4) Some w by blast
      have "nodes x < nodes c" using eq_cond_smaller [of cond x v] Some w if_parts_smaller [of c cond t e] \<open>if_parts c = Some q\<close> q by auto
      then have "compiles src x" using sub compilable_args [OF ok(3) [OF i(1)] x] by blast
      from if_eq_pushed [OF st(1) refl this scope_args [OF ok(2) [OF i(1)] x] ok(1,2) [OF i(2)] ok(1,2) [OF i(3)], of "sl cond" v]
      show ?thesis using f \<open>if_parts c = Some q\<close> q Some w unfolding unf by simp
    qed
  next
    case no_if: None
    show ?thesis
    proof (cases "seq_parts c")
      case (Some q)
      obtain x y where q: "q = (x, y)" by (cases q)
      have i: "x \<in> set (spine_args c)" "y \<in> set (spine_args c)" using parts_args(2) [of c] Some q by auto
      from seq_pushed [OF st(1) refl ok(1,2) [OF i(1)] ok(1,2) [OF i(2)], of "sl x"] show ?thesis using f no_if Some q unfolding unf by simp
    next
      case no_seq: None
      show ?thesis
      proof (cases "item_parts src c")
        case (Some q)
        obtain i x where q: "q = (i, x)" by (cases q)
        have x: "x \<in> set (spine_args c)" using parts_args(3) [of src c] Some q by auto
        from item_pushed [OF compilesE [OF ok(1) [OF x] st(1) ok(2) [OF x]], of "sl (spine_head c)" i] show ?thesis using f no_if no_seq Some q unfolding unf by simp
      next
        case None
        have "\<forall>x \<in> set (spine_args c). compiles src x" using ok(1) by blast
        from compE_call [OF this st caf f(2,3), of "sl (spine_head c)"] show ?thesis using f no_if no_seq None unfolding unf by simp
      qed
    qed
  qed
qed

text \<open>A function on its own becomes a frame when it takes no arguments, and a value otherwise.\<close>

lemma fun_pushed:
  assumes "snode_fno c = Some fno" "function_nargs src fno = Some k" "stack_is cmp st" "cafs_end src"
  shows "pushed src cmp st (do { fno \<leftarrow> snode_fno c; k \<leftarrow> function_nargs src fno; if k = 0 then domkframe src cmp l fno 0 else MKCAP cmp l fno 0 }) 0"
  using call_pushed(1,2) [OF args_pushed_Nil [OF assms(3)] assms(2,4), of l] assms(1,2) by (cases "k = 0") simp_all

lemma symbol_pushed:
  assumes "stack_is cmp st" "scope p (length st) (Symbol l x)"
  shows "pushed src cmp st (compC src cmp (Symbol l x) p (length st)) 0" "pushed src cmp st (compE src cmp (Symbol l x) p (length st)) 1"
proof -
  from assms(2) obtain i where i: "presolve p x = Some i" "1 \<le> i" "i \<le> length st" by (auto simp: scope_def in_range_def)
  let ?a = "int (length st) - int i"
  have j: "int (i - 1) = int (length st) - 1 - ?a" "i - 1 < length st" using i(2,3) by auto
  from PUSH_runs [OF assms(1) j, of l src] obtain cmp1 where "PUSH cmp l ?a = Some cmp1" "runs src cmp st cmp1 (st @ [st ! (i - 1)])" by blast
  then show "pushed src cmp st (compC src cmp (Symbol l x) p (length st)) 0" using i pushed_one by auto
  from SPARK_runs [OF assms(1) j, of l src] obtain cmp2 where
    2: "SPARK cmp l ?a = Some cmp2" "runs src cmp st cmp2 (st[i - 1 := max 1 (st ! (i - 1))])" by blast
  let ?st = "st[i - 1 := max 1 (st ! (i - 1))]"
  from PUSH_runs [OF runs_stack [OF 2(2)], of "i - 1" ?a l src] j obtain cmp3 where
    3: "PUSH cmp2 l ?a = Some cmp3" "runs src cmp2 ?st cmp3 (?st @ [?st ! (i - 1)])" by auto
  have "pushed src cmp st (Some cmp3) 1"
    by (rule pushedI [OF runs_trans [OF 2(2) 3(2)]]) (use j in \<open>simp_all add: raised_update\<close>)
  then show "pushed src cmp st (compE src cmp (Symbol l x) p (length st)) 1" using 2 3 i by simp
qed

lemma compiles_atom:
  assumes "compilable src e" "cafs_end src" "\<forall>l s a b. e \<noteq> Application l s a b" "\<forall>l rs b. e \<noteq> LetrecNode l rs b"
  shows "compiles src e"
  unfolding compiles_def
proof (intro allI impI)
  fix cmp st p assume st: "stack_is cmp st" and sc: "scope p (length st) e"
  have spark: "pushed src cmp st (compE src cmp e p (length st)) 1"
    if "pushed src cmp st (compC src cmp e p (length st)) 0" "compE src cmp e p (length st) = do { cmp1 \<leftarrow> compC src cmp e p (length st); SPARK cmp1 (sl e) 0 }"
    unfolding that(2) by (rule SPARK_pushed [OF that(1)])
  show "pushed src cmp st (compC src cmp e p (length st)) 0 \<and> pushed src cmp st (compE src cmp e p (length st)) 1"
  proof (cases e)
    case (Symbol l x)
    then show ?thesis using symbol_pushed [OF st] sc by simp
  next
    case (Scref l i)
    then have "function_nargs src (i + NUM_BUILTINS) = Some (sc_nargs (scombs src ! i))" using assms(1) by (simp add: function_nargs_def get_scomb_index_def)
    from fun_pushed [OF _ this st assms(2), of e "sl e"] have "pushed src cmp st (compC src cmp e p (length st)) 0" unfolding Scref by (simp add: snode_fno_def)
    then show ?thesis using spark by (simp only: Scref compE.simps simp_thms)
  next
    case (Builtin l b)
    then have "function_nargs src b = Some (bi_nargs (builtin_info ! b))" using assms(1) by (simp add: function_nargs_def)
    from fun_pushed [OF _ this st assms(2), of e "sl e"] have "pushed src cmp st (compC src cmp e p (length st)) 0" unfolding Builtin by (simp add: snode_fno_def)
    then show ?thesis using spark by (simp only: Builtin compE.simps simp_thms)
  next
    case (NilNode l)
    have "pushed src cmp st (compC src cmp e p (length st)) 0" using PUSHNIL_runs [OF st, of l src] pushed_one by (auto simp: NilNode)
    then show ?thesis using spark by (simp only: NilNode compE.simps simp_thms)
  next
    case (Number l d)
    have "pushed src cmp st (compC src cmp e p (length st)) 0" using PUSHNUMBER_runs [OF st, of l d src] pushed_one by (auto simp: Number)
    then show ?thesis using spark by (simp only: Number compE.simps simp_thms)
  next
    case (StringNode l v)
    have "pushed src cmp st (compC src cmp e p (length st)) 0" using PUSHSTRING_runs [OF st, of l v src] pushed_one by (auto simp: StringNode)
    then show ?thesis using spark by (simp only: StringNode compE.simps simp_thms)
  qed (use assms in auto)
qed

lemma compilable_recs_iff: "compilable_recs src rs \<longleftrightarrow> (\<forall>r \<in> set rs. compilable src (rec_value r))"
proof (induction rs)
  case (Cons r rs)
  then show ?case by (cases r) simp
qed simp

lemma compilable_compiles: "compilable src e \<Longrightarrow> cafs_end src \<Longrightarrow> compiles src e"
proof (induction "nodes e" arbitrary: e rule: less_induct)
  case less
  have sub: "\<forall>x. nodes x < nodes e \<longrightarrow> compilable src x \<longrightarrow> compiles src x" using less.hyps less.prems(2) by blast
  show ?case
  proof (cases e)
    case (Application l s a b)
    have "\<forall>x \<in> set (spine_args e). compiles src x" using sub spine_args_smaller compilable_args [OF less.prems(1)] by blast
    from compC_app [OF Application less.prems(1) this] compE_app [OF Application less.prems(1) sub] less.prems(2) show ?thesis by (simp add: compiles_def)
  next
    case (LetrecNode l rs b)
    have "\<forall>r \<in> set rs. nodes (rec_value r) < nodes e" using LetrecNode nodes_recs_member by fastforce
    then have "\<forall>r \<in> set rs. compiles src (rec_value r)" using sub less.prems(1) LetrecNode by (simp add: compilable_recs_iff)
    moreover have "compiles src b" using sub less.prems(1) LetrecNode by simp
    ultimately show ?thesis using compiles_letrec less.prems(1) LetrecNode by simp
  qed (use compiles_atom [OF less.prems] in simp_all)
qed

end
