(* ===== verification/Code_Bodies.thy ===== *)
theory Code_Bodies
  imports Code_Types
begin

text \<open>
  Bodies of functions: the schemes \<^verbatim>\<open>S\<close>, \<^verbatim>\<open>Ccons\<close> and \<^verbatim>\<open>R\<close> do not run into a failed assertion either, and the
  code of a body is consistent and does not run past its end.
\<close>

subsection \<open>The scheme S\<close>

lemma comp_list_ok:
  "\<forall>q \<in> set es. compiles src (fst q) \<and> scope p (length st) (fst q) \<Longrightarrow> stack_is cmp st \<Longrightarrow>
    \<exists>cmp' st'. comp_list src cmp es p (length st) = Some cmp' \<and> runs src cmp st cmp' st' \<and> length st' = length st + length es"
proof (induction es arbitrary: cmp st)
  case (Cons q es)
  obtain e s where q: "q = (e, s)" by (cases q)
  have e: "compiles src e" "scope p (length st) e" using Cons.prems(1) q by simp_all
  define r where "r = (if s then compE src cmp e p (length st) else compC src cmp e p (length st))"
  have "\<exists>k. pushed src cmp st r k" unfolding r_def using compilesC [OF e(1) Cons.prems(2) e(2)] compilesE [OF e(1) Cons.prems(2) e(2)] by auto
  then obtain cmp1 st1 where 1: "r = Some cmp1" "runs src cmp st cmp1 st1" "length st1 = Suc (length st)" by (auto simp: pushed_def)
  have "\<forall>q \<in> set es. compiles src (fst q) \<and> scope p (length st1) (fst q)" using Cons.prems(1) 1(3) scope_mono [of p "length st" _ "length st1"] by auto
  from Cons.IH [OF this runs_stack [OF 1(2)]] obtain cmp' st' where
    2: "comp_list src cmp1 es p (length st1) = Some cmp'" "runs src cmp1 st1 cmp' st'" "length st' = length st1 + length es" by blast
  from runs_trans [OF 1(2) 2(2)] 1 2 show ?case by (auto simp: q r_def [symmetric])
qed (auto intro: runs_refl)

lemma skip_args_ok:
  assumes "si_count si = n"
  shows "\<forall>q \<in> set es. scope p n (fst q) \<Longrightarrow> m \<le> n \<Longrightarrow> \<exists>m'. skip_args p si es m = Some m' \<and> m \<le> m' \<and> m' \<le> m + length es \<and> m' \<le> n"
proof (induction es arbitrary: m)
  case (Cons q es)
  obtain e s where q: "q = (e, s)" by (cases q)
  show ?case
  proof (cases e)
    case (Symbol l x)
    then obtain i where i: "presolve p x = Some i" "1 \<le> i" "i \<le> n" using Cons.prems(1) q by (auto simp: scope_def in_range_def)
    have IH: "i = Suc m \<Longrightarrow> \<exists>m'. skip_args p si es (m + 1) = Some m' \<and> m + 1 \<le> m' \<and> m' \<le> m + 1 + length es \<and> m' \<le> n"
      using Cons.IH [of "m + 1"] Cons.prems i(3) by simp
    have "i = Suc m \<Longrightarrow> \<exists>v. statusat si (int m) = Some v" using i(3) assms by (simp add: statusat_def)
    with IH Cons.prems(2) i show ?thesis by (auto simp: q Symbol)
  qed (use Cons.prems(2) q in auto)
qed simp

lemma compS_ok:
  assumes st: "stack_is cmp st" and es: "\<forall>q \<in> set es. compiles src (fst q) \<and> scope p (length st) (fst q)"
  shows "\<exists>cmp' st'. compS src cmp l es p (length st) = Some cmp' \<and> runs src cmp st cmp' st' \<and> length st' = length es"
proof -
  let ?n = "length st"
  from skip_args_ok [of "\<lparr>si_status = st, si_invalid = False\<rparr>" ?n es p 0] es obtain m where
    m: "skip_args p \<lparr>si_status = st, si_invalid = False\<rparr> es 0 = Some m" "m \<le> length es" "m \<le> ?n" by auto
  have "\<forall>q \<in> set (drop m es). compiles src (fst q) \<and> scope p ?n (fst q)" using es by (meson in_set_dropD)
  from comp_list_ok [OF this st] obtain cmp1 st1 where
    1: "comp_list src cmp (drop m es) p ?n = Some cmp1" "runs src cmp st cmp1 st1" "length st1 = ?n + (length es - m)" using m(2) by auto
  let ?a = "take m st1" and ?b = "take (?n - m) (drop m st1)" and ?c = "drop ?n st1"
  have c: "st1 = ?a @ ?b @ ?c" using m(3) by (metis append_take_drop_id drop_drop le_add_diff_inverse2)
  have len: "length ?a = m" "length ?b = ?n - m" "length ?c = length es - m" using 1(3) m(3) by simp_all
  show ?thesis
  proof (cases "m < ?n")
    case True
    have "stack_is cmp1 (?a @ ?b @ ?c)" using runs_stack [OF 1(2)] c by simp
    moreover have "?b \<noteq> []" using len(2) True by (metis length_0_conv zero_less_diff less_numeral_extra(3))
    ultimately have "\<exists>cmp'. add_instruction cmp1 l OP_SQUEEZE (int (length ?c)) (int (length ?b)) = Some cmp' \<and> runs src cmp1 (?a @ ?b @ ?c) cmp' (?a @ ?c)"
      by (rule SQUEEZE_runs)
    then obtain cmp2 where
      2: "add_instruction cmp1 l OP_SQUEEZE (int (length es - m)) (int (?n - m)) = Some cmp2" "runs src cmp1 (?a @ ?b @ ?c) cmp2 (?a @ ?c)" unfolding len by blast
    have "runs src cmp st cmp2 (?a @ ?c)" using runs_trans [OF 1(2)] 2(2) c by simp
    moreover have "length (?a @ ?c) = length es" using len m(2) by simp
    ultimately show ?thesis using st m 1(1) 2(1) True by (auto simp: compS_def stack_is_def of_nat_diff)
  next
    case False
    then have "length st1 = length es" using 1(3) m by simp
    then show ?thesis using st m(1,3) 1 False by (auto simp: compS_def stack_is_def)
  qed
qed

subsection \<open>The scheme R\<close>

text \<open>In a body also an unknown function may be applied, and a known one to more arguments than it
  takes.\<close>

definition head_known :: "source \<Rightarrow> snode \<Rightarrow> bool" where
  "head_known src f \<longleftrightarrow>
     (case f of Symbol l x \<Rightarrow> True | Scref l i \<Rightarrow> i < length (scombs src) | Builtin l b \<Rightarrow> b < NUM_BUILTINS | _ \<Rightarrow> False)"

definition returnable :: "source \<Rightarrow> snode \<Rightarrow> bool" where
  "returnable src e \<longleftrightarrow> compilable src e \<or> (head_known src (spine_head e) \<and> list_all (compilable src) (spine_args e))"

text \<open>The flags that the strictness analysis sets: the strict arguments of a built-in function whose
  result is returned.\<close>

definition bif_flags :: "snode \<Rightarrow> bool" where
  "bif_flags e \<longleftrightarrow>
     (case spine_head e of
        Builtin l b \<Rightarrow> spine_len e = bi_nargs (builtin_info ! b) \<longrightarrow>
          list_all (\<lambda>i. snd (spine_pairs e ! (spine_len e - 1 - i))) [0..<bi_nstrict (builtin_info ! b)]
      | _ \<Rightarrow> True)"

function flagged :: "snode \<Rightarrow> bool" where
  "flagged e \<longleftrightarrow>
     (case if_parts e of
        Some (x, t, f) \<Rightarrow> flagged t \<and> flagged f
      | None \<Rightarrow>
        (case seq_parts e of
           Some (x, y) \<Rightarrow> flagged y
         | None \<Rightarrow> (case e of LetrecNode l rs b \<Rightarrow> flagged b | _ \<Rightarrow> bif_flags e)))"
  by pat_completeness auto

termination
  by (relation "measure nodes") (auto dest!: parts_smaller)

declare flagged.simps [simp del, code]

definition ends :: "source \<Rightarrow> compilation \<Rightarrow> nat list \<Rightarrow> compilation option \<Rightarrow> bool" where
  "ends src cmp st r \<longleftrightarrow> (\<exists>cmp'. r = Some cmp' \<and> finishes src cmp st cmp')"

lemma runs_ends: "runs src a st b st' \<Longrightarrow> ends src b st' r \<Longrightarrow> ends src a st r"
  unfolding ends_def using runs_finishes by blast

lemma pushed_ends:
  assumes "pushed src cmp st r k" "\<And>cmp1 st1 s. stack_is cmp1 (st1 @ [s]) \<Longrightarrow> length st1 = length st \<Longrightarrow> ends src cmp1 (st1 @ [s]) (f cmp1)"
  shows "ends src cmp st (do { cmp1 \<leftarrow> r; f cmp1 })"
proof -
  from pushedE [OF assms(1)] obtain cmp1 st1 s where 1: "r = Some cmp1" "runs src cmp st cmp1 (st1 @ [s])" "length st1 = length st" by metis
  from runs_ends [OF 1(2) assms(2) [OF runs_stack [OF 1(2)] 1(3)]] 1(1) show ?thesis by simp
qed

lemma RETURN_ends: "stack_is cmp st \<Longrightarrow> st \<noteq> [] \<Longrightarrow> ends src cmp st (add_instruction cmp l OP_RETURN 0 0)"
  unfolding ends_def by (rule RETURN_ok)

lemma EVAL_ends:
  assumes "stack_is cmp st" "st \<noteq> []" "\<And>cmp1 st1. stack_is cmp1 st1 \<Longrightarrow> st1 \<noteq> [] \<Longrightarrow> ends src cmp1 st1 (f cmp1)"
  shows "ends src cmp st (do { cmp1 \<leftarrow> EVAL cmp l 0; f cmp1 })"
proof -
  have "stack_is cmp (butlast st @ [last st])" using assms(1,2) by simp
  from EVAL_top [OF this, of l src] assms(2) obtain cmp1 s where 1: "EVAL cmp l 0 = Some cmp1" "runs src cmp st cmp1 (butlast st @ [s])" by auto
  from runs_ends [OF 1(2) assms(3) [OF runs_stack [OF 1(2)]]] 1(1) show ?thesis by simp
qed

lemma DO_ends: "stack_is cmp st \<Longrightarrow> st \<noteq> [] \<Longrightarrow> ends src cmp st (do { cmp1 \<leftarrow> EVAL cmp l 0; add_instruction cmp1 l OP_DO a 0 })"
  by (rule EVAL_ends) (auto simp: ends_def intro: DO_ok)

lemma R_apply_ends:
  assumes "stack_is cmp st" "st \<noteq> []"
  shows "ends src cmp st (R_apply src cmp l)"
proof -
  have "stack_is cmp (butlast st @ [last st])" using assms by simp
  from SPARK_top [OF this, of l src] assms(2) obtain cmp1 s where 1: "SPARK cmp l 0 = Some cmp1" "runs src cmp st cmp1 (butlast st @ [s])" by auto
  from runs_ends [OF 1(2) DO_ends [OF runs_stack [OF 1(2)], where l = l and a = 0]] 1(1) show ?thesis by (simp add: R_apply_def)
qed

lemma SQUEEZE_ends:
  assumes "stack_is cmp (st @ [s])" "\<And>cmp1. stack_is cmp1 [s] \<Longrightarrow> ends src cmp1 [s] (f cmp1)"
  shows "st \<noteq> [] \<Longrightarrow> ends src cmp (st @ [s]) (do { cmp1 \<leftarrow> add_instruction cmp l OP_SQUEEZE 1 (int (length st)); f cmp1 })"
    "ends src cmp (st @ [s]) (do { cmp1 \<leftarrow> if 0 < length st then add_instruction cmp l OP_SQUEEZE 1 (int (length st)) else Some cmp; f cmp1 })"
proof -
  show E: "ends src cmp (st @ [s]) (do { cmp1 \<leftarrow> add_instruction cmp l OP_SQUEEZE 1 (int (length st)); f cmp1 })" if "st \<noteq> []"
  proof -
    from SQUEEZE_pushed [of cmp "[]" st s l src] assms(1) that obtain cmp1 where
      1: "add_instruction cmp l OP_SQUEEZE 1 (int (length st)) = Some cmp1" "runs src cmp (st @ [s]) cmp1 [s]" by auto
    from runs_ends [OF 1(2) assms(2) [OF runs_stack [OF 1(2)]]] 1(1) show ?thesis by simp
  qed
  show "ends src cmp (st @ [s]) (do { cmp1 \<leftarrow> if 0 < length st then add_instruction cmp l OP_SQUEEZE 1 (int (length st)) else Some cmp; f cmp1 })"
    using assms E by (cases "st = []") simp_all
qed

lemma if_ends:
  assumes st: "stack_is cmp st" "length st = n" and c: "compiles src cond" "scope p n cond"
    and t: "\<And>cmp1 st1. stack_is cmp1 st1 \<Longrightarrow> length st1 = n \<Longrightarrow> ends src cmp1 st1 (compR src cmp1 t p n)"
    and f: "\<And>cmp1 st1. stack_is cmp1 st1 \<Longrightarrow> length st1 = n \<Longrightarrow> ends src cmp1 st1 (compR src cmp1 f p n)"
  shows "ends src cmp st (do { cmp1 \<leftarrow> compE src cmp cond p n;
      (cmp2, label) \<leftarrow> JFALSE cmp1 l;
      cmp3 \<leftarrow> compR src (newswap cmp2) t p n;
      let cmp4 = LABEL (freeswap cmp3 (c_si cmp2)) label;
      cmp5 \<leftarrow> compR src (newswap cmp4) f p n;
      Some (freeswap cmp5 (c_si cmp2)) })"
proof -
  from pushedE [OF compilesE [OF c(1) st(1), unfolded st(2), OF c(2)]] obtain cmp1 st1 s where
    1: "compE src cmp cond p n = Some cmp1" "runs src cmp st cmp1 (st1 @ [s])" "length st1 = n" using st(2) by metis
  from JFALSE_branches [OF runs_stack [OF 1(2)], of l src] obtain cmp2 addr where
    2: "JFALSE cmp1 l = Some (cmp2, addr)" "branches src cmp1 (st1 @ [s]) cmp2 addr st1" by blast
  have s2: "stack_is cmp2 st1" using 2(2) by (simp add: branches_def)
  from t [OF s2 1(3)] obtain cmp3 where 3: "compR src cmp2 t p n = Some cmp3" "finishes src cmp2 st1 cmp3" by (auto simp: ends_def)
  let ?cmp4 = "LABEL (freeswap cmp3 (c_si cmp2)) addr"
  have s4: "stack_is ?cmp4 st1" using s2 by (simp add: stack_is_def freeswap_def LABEL_def)
  from f [OF s4 1(3)] obtain cmp5 where 5: "compR src ?cmp4 f p n = Some cmp5" "finishes src ?cmp4 st1 cmp5" by (auto simp: ends_def)
  from runs_finishes [OF 1(2) branch_finishes [OF 2(2) 3(2) 5(2), of "c_si cmp2"]] show ?thesis
    using 1 2 3 5 s2 s4 by (simp add: ends_def)
qed

lemma POP_ends:
  assumes "stack_is cmp (st @ [s])" "\<And>cmp1. stack_is cmp1 st \<Longrightarrow> ends src cmp1 st (f cmp1)"
  shows "ends src cmp (st @ [s]) (do { cmp1 \<leftarrow> add_instruction cmp l OP_POP 1 0; f cmp1 })"
  using POP_runs [OF assms(1), of l src] runs_ends assms(2) runs_stack by fastforce

lemma if_eq_ends:
  assumes st: "stack_is cmp st" "length st = n" and c: "compiles src x" "scope p n x"
    and t: "\<And>cmp1 st1. stack_is cmp1 st1 \<Longrightarrow> length st1 = n \<Longrightarrow> ends src cmp1 st1 (compR src cmp1 t p n)"
    and f: "\<And>cmp1 st1. stack_is cmp1 st1 \<Longrightarrow> length st1 = n \<Longrightarrow> ends src cmp1 st1 (compR src cmp1 f p n)"
  shows "ends src cmp st (do { cmp1 \<leftarrow> compE src cmp x p n;
      (cmp2, label) \<leftarrow> JEQ cmp1 l v;
      cmp3 \<leftarrow> add_instruction (newswap cmp2) l OP_POP 1 0;
      cmp4 \<leftarrow> compR src cmp3 f p n;
      let cmp5 = LABEL (freeswap cmp4 (c_si cmp2)) label;
      cmp6 \<leftarrow> add_instruction (newswap cmp5) l OP_POP 1 0;
      cmp7 \<leftarrow> compR src cmp6 t p n;
      Some (freeswap cmp7 (c_si cmp2)) })"
proof -
  from pushedE [OF compilesE [OF c(1) st(1), unfolded st(2), OF c(2)]] obtain cmp1 st1 s where
    1: "compE src cmp x p n = Some cmp1" "runs src cmp st cmp1 (st1 @ [s])" "length st1 = n" using st(2) by metis
  from JEQ_branches [OF runs_stack [OF 1(2)], of l v src] obtain cmp2 addr s' where
    2: "JEQ cmp1 l v = Some (cmp2, addr)" "branches src cmp1 (st1 @ [s]) cmp2 addr (st1 @ [s'])" by blast
  have s2: "stack_is cmp2 (st1 @ [s'])" using 2(2) by (simp add: branches_def)
  have "ends src cmp2 (st1 @ [s']) (do { cmp3 \<leftarrow> add_instruction cmp2 l OP_POP 1 0; compR src cmp3 f p n })" by (rule POP_ends [OF s2 f [OF _ 1(3)]])
  then obtain cmp3 cmp4 where
    4: "add_instruction cmp2 l OP_POP 1 0 = Some cmp3" "compR src cmp3 f p n = Some cmp4" "finishes src cmp2 (st1 @ [s']) cmp4"
    by (auto simp: ends_def bind_eq_Some_conv)
  let ?cmp5 = "LABEL (freeswap cmp4 (c_si cmp2)) addr"
  have s5: "stack_is ?cmp5 (st1 @ [s'])" using s2 by (simp add: stack_is_def freeswap_def LABEL_def)
  have "ends src ?cmp5 (st1 @ [s']) (do { cmp6 \<leftarrow> add_instruction ?cmp5 l OP_POP 1 0; compR src cmp6 t p n })" by (rule POP_ends [OF s5 t [OF _ 1(3)]])
  then obtain cmp6 cmp7 where
    7: "add_instruction ?cmp5 l OP_POP 1 0 = Some cmp6" "compR src cmp6 t p n = Some cmp7" "finishes src ?cmp5 (st1 @ [s']) cmp7"
    by (auto simp: ends_def bind_eq_Some_conv)
  from runs_finishes [OF 1(2) branch_finishes [OF 2(2) 4(3) 7(3), of "c_si cmp2"]] show ?thesis
    using 1 2 4 7 s2 s5 by (simp add: ends_def)
qed

lemma seq_ends:
  assumes x: "pushed src cmp st (compE src cmp x p n) k" and n: "length st = n"
    and y: "\<And>cmp1 st1. stack_is cmp1 st1 \<Longrightarrow> length st1 = n \<Longrightarrow> ends src cmp1 st1 (compR src cmp1 y p n)"
  shows "ends src cmp st (do { cmp1 \<leftarrow> compE src cmp x p n; cmp2 \<leftarrow> EVAL cmp1 l 0; cmp3 \<leftarrow> add_instruction cmp2 l OP_POP 1 0; compR src cmp3 y p n })"
proof -
  have "ends src cmp st (do { cmp2 \<leftarrow> do { cmp1 \<leftarrow> compE src cmp x p n; EVAL cmp1 l 0 }; cmp3 \<leftarrow> add_instruction cmp2 l OP_POP 1 0; compR src cmp3 y p n })"
    by (rule pushed_ends [OF EVAL_pushed [OF x]], rule POP_ends) (use y n in simp_all)
  then show ?thesis by (simp add: Option.bind_assoc)
qed

lemma item_ends:
  assumes x: "pushed src cmp st (compE src cmp x p n) k" and n: "length st = n"
  shows "ends src cmp st (do { cmp1 \<leftarrow> compE src cmp x p n;
      cmp2 \<leftarrow> add_instruction cmp1 l OP_ITEMN i 1;
      cmp3 \<leftarrow> (if 0 < n then add_instruction cmp2 l OP_SQUEEZE 1 (int n) else Some cmp2);
      cmp4 \<leftarrow> EVAL cmp3 l 0;
      add_instruction cmp4 l OP_DO 1 0 })"
proof -
  have P: "pushed src cmp st (do { cmp1 \<leftarrow> compE src cmp x p n; add_instruction cmp1 l OP_ITEMN i 1 }) 0"
    by (rule pushed_then [OF x]) (use ITEMN_runs in blast)
  have "ends src cmp1 (st1 @ [s]) (do { cmp3 \<leftarrow> (if 0 < n then add_instruction cmp1 l OP_SQUEEZE 1 (int n) else Some cmp1); cmp4 \<leftarrow> EVAL cmp3 l 0; add_instruction cmp4 l OP_DO 1 0 })"
    if s: "stack_is cmp1 (st1 @ [s])" "length st1 = length st" for cmp1 st1 s
    unfolding n [symmetric] s(2) [symmetric] by (rule SQUEEZE_ends(2) [OF s(1)]) (simp add: DO_ends)
  from pushed_ends [OF P this] show ?thesis by (simp add: Option.bind_assoc)
qed

lemma spine_pairs_args: "fst ` set (spine_pairs c) = set (spine_args c)"
  by (induction c rule: spine_args.induct) auto

lemma args_sparkedI:
  assumes len: "length st' = length st + m" and fl: "\<And>i. i < m \<Longrightarrow> flags ! i \<Longrightarrow> 1 \<le> st' ! (length st + i)"
    and k: "k \<le> m" "\<And>argno. argno < k \<Longrightarrow> flags ! (m - 1 - argno)"
  shows "args_sparked \<lparr>si_status = st', si_invalid = b\<rparr> k"
proof -
  have "1 \<le> st' ! (length st' - 1 - argno)" if "argno < k" for argno
  proof -
    have "length st' - 1 - argno = length st + (m - 1 - argno)" using that k(1) len by simp
    then show ?thesis using fl [of "m - 1 - argno"] k(2) [OF that] that k(1) by simp
  qed
  then show ?thesis using len k(1) by (simp add: args_sparked_def)
qed

text \<open>The end of the code of a built-in function in a body: only the result is left.\<close>

lemma R_bif_tail:
  assumes "pushed src cmp st r k" "length st = n"
  shows "ends src cmp st (do { cmp2 \<leftarrow> r;
      cmp3 \<leftarrow> (if 0 < n then add_instruction cmp2 l OP_SQUEEZE 1 (int n) else Some cmp2);
      si3 \<leftarrow> c_si cmp3;
      if si_count si3 \<noteq> 1 then None
      else if v then add_instruction cmp3 l OP_RETURN 0 0
      else do { cmp4 \<leftarrow> EVAL cmp3 l 0; add_instruction cmp4 l OP_DO 1 0 } })"
proof (rule pushed_ends [OF assms(1)])
  fix cmp1 st1 s assume s: "stack_is cmp1 (st1 @ [s])" "length st1 = length st"
  show "ends src cmp1 (st1 @ [s]) (do { cmp3 \<leftarrow> (if 0 < n then add_instruction cmp1 l OP_SQUEEZE 1 (int n) else Some cmp1);
      si3 \<leftarrow> c_si cmp3;
      if si_count si3 \<noteq> 1 then None
      else if v then add_instruction cmp3 l OP_RETURN 0 0
      else do { cmp4 \<leftarrow> EVAL cmp3 l 0; add_instruction cmp4 l OP_DO 1 0 } })"
    unfolding assms(2) [symmetric] s(2) [symmetric]
  proof (rule SQUEEZE_ends(2) [OF s(1)])
    fix cmp3 assume "stack_is cmp3 [s]"
    then show "ends src cmp3 [s] (do { si3 \<leftarrow> c_si cmp3; if si_count si3 \<noteq> 1 then None
      else if v then add_instruction cmp3 l OP_RETURN 0 0 else do { cmp4 \<leftarrow> EVAL cmp3 l 0; add_instruction cmp4 l OP_DO 1 0 } })"
      using RETURN_ends DO_ends by (auto simp: stack_is_def)
  qed
qed

lemma R_bif_ends:
  assumes ar: "\<forall>x \<in> set (spine_args c). compiles src x" and st: "stack_is cmp st" "scope p (length st) c" and caf: "cafs_end src"
    and f: "spine_head c = Builtin l fno" "fno < NUM_BUILTINS" "spine_len c = bi_nargs (builtin_info ! fno)" and fl: "bif_flags c"
  shows "ends src cmp st (R_bif src cmp c p (length st) fno)"
proof -
  let ?bi = "builtin_info ! fno"
  note A = compE_args_ok [OF ar st]
  have nargs: "function_nargs src fno = Some (bi_nargs ?bi)" using f(2) by (simp add: function_nargs_def)
  from A obtain cmp1 st1 where 1: "compE_args src cmp c p (length st) = Some cmp1" "runs src cmp st cmp1 st1" "length st1 = length st + spine_len c"
    "\<And>i. i < spine_len c \<Longrightarrow> map snd (spine_pairs c) ! i \<Longrightarrow> 1 \<le> st1 ! (length st + i)" by (auto simp: args_pushed_def)
  have sp: "args_sparked \<lparr>si_status = st1, si_invalid = False\<rparr> (bi_nstrict ?bi)"
    by (rule args_sparkedI [OF 1(3), where flags = "map snd (spine_pairs c)"]) (use 1(4) builtin_nstrict [OF f(2)] f fl in \<open>simp_all add: bif_flags_def list_all_iff\<close>)
  have s1: "c_si cmp1 = Some \<lparr>si_status = st1, si_invalid = False\<rparr>" using runs_stack [OF 1(2)] by (simp add: stack_is_def)
  define r where "r = (if bi_purity ?bi = PURE then BIF cmp1 l fno else do { cmp2 \<leftarrow> domkframe src cmp1 l fno (bi_nargs ?bi); EVAL cmp2 l 0 })"
  have "\<exists>k. pushed src cmp st r k"
  proof (cases "bi_purity ?bi = PURE")
    case True
    then show ?thesis using call_pushed(3) [OF A nargs caf, of l] f 1(1) by (auto simp: r_def)
  next
    case False
    then show ?thesis using EVAL_pushed [OF call_pushed(1) [OF A nargs caf, of l], of l] f 1(1) by (auto simp: r_def)
  qed
  then obtain k where "pushed src cmp st r k" by blast
  from R_bif_tail [OF this refl, of l "bi_reteval ?bi = ALWAYS_VALUE"] show ?thesis
    using 1(1) s1 sp f(1) by (simp add: R_bif_def Let_def r_def [symmetric])
qed

lemma cons_items_args:
  assumes "x \<in> set (cons_items c)"
  shows "compilable src c \<Longrightarrow> scope p n c \<Longrightarrow> compilable src x \<and> scope p n x"
  using assms
proof (induction c rule: cons_items.induct)
  case (1 c)
  show ?case
  proof (cases "iscons c")
    case True
    have i: "spine_args c ! 0 \<in> set (spine_args c)" "spine_args c ! 1 \<in> set (spine_args c)"
      using True length_spine_args [of c] by (simp_all add: iscons_def)
    have "x = spine_args c ! 0 \<or> x \<in> set (cons_items (spine_args c ! 1))" using 1(4) True by (simp add: cons_items.simps [of c])
    then show ?thesis using 1(1) [OF True] compilable_args [OF 1(2)] scope_args [OF 1(3)] i by blast
  next
    case False
    then show ?thesis using 1 by (simp add: cons_items.simps [of c])
  qed
qed

lemma cons_items_length: "length (cons_items c) \<le> nodes c"
proof (induction c rule: cons_items.induct)
  case (1 c)
  then show ?case using iscons_smaller [of c] by (cases "iscons c") (auto simp: cons_items.simps [of c] Suc_le_eq)
qed

lemma Ccons_ends:
  assumes c: "iscons c" "list_all (compilable src) (spine_args c)" and st: "stack_is cmp st" "scope p (length st) c" and caf: "cafs_end src"
  shows "ends src cmp st (do { cmp1 \<leftarrow> Ccons src cmp c p (length st); add_instruction cmp1 l OP_RETURN 0 0 })"
proof -
  have i: "spine_args c ! 0 \<in> set (spine_args c)" "spine_args c ! 1 \<in> set (spine_args c)"
    using c(1) length_spine_args [of c] by (simp_all add: iscons_def)
  have ok: "compilable src x \<and> scope p (length st) x" if "x \<in> set (cons_items c)" for x
  proof -
    have "x = spine_args c ! 0 \<or> x \<in> set (cons_items (spine_args c ! 1))" using that c(1) by (simp add: cons_items.simps [of c])
    then show ?thesis using cons_items_args [of x "spine_args c ! 1"] c(2) i scope_args [OF st(2)] unfolding list_all_iff by blast
  qed
  let ?es = "map (\<lambda>e. (e, False)) (rev (cons_items c))"
  have "\<forall>q \<in> set ?es. compiles src (fst q) \<and> scope p (length st) (fst q)" using ok compilable_compiles [OF _ caf] by auto
  from compS_ok [OF st(1) this, of "sl c"] obtain cmp1 st1 where
    1: "compS src cmp (sl c) ?es p (length st) = Some cmp1" "runs src cmp st cmp1 st1" "length st1 = length (cons_items c)" by auto
  have "cons_items c \<noteq> []" by (subst cons_items.simps) simp
  then have "st1 \<noteq> []" using 1(3) by auto
  from CONSN_runs [of cmp1 "[]" st1 "sl c" src] this runs_stack [OF 1(2)] 1(3) obtain cmp2 where
    2: "add_instruction cmp1 (sl c) OP_CONSN (int (length (cons_items c))) 0 = Some cmp2" "runs src cmp1 st1 cmp2 [2]" by auto
  from runs_ends [OF runs_trans [OF 1(2) 2(2)] RETURN_ends [OF runs_stack [OF 2(2)], of src l]] 1(1) 2(1) scope_room(2) [OF st(2) cons_items_length] show ?thesis by (simp add: Ccons_def Let_def)
qed

lemma compS_ends:
  assumes es: "\<forall>q \<in> set es. compilable src (fst q) \<and> scope p (length st) (fst q)" and st: "stack_is cmp st" and caf: "cafs_end src"
    and f: "\<And>cmp1 st1. stack_is cmp1 st1 \<Longrightarrow> length st1 = length es \<Longrightarrow> ends src cmp1 st1 (f cmp1)"
  shows "ends src cmp st (do { cmp1 \<leftarrow> compS src cmp l es p (length st); f cmp1 })"
proof -
  have "\<forall>q \<in> set es. compiles src (fst q) \<and> scope p (length st) (fst q)" using es compilable_compiles [OF _ caf] by auto
  from compS_ok [OF st this, of l] obtain cmp1 st1 where
    1: "compS src cmp l es p (length st) = Some cmp1" "runs src cmp st cmp1 st1" "length st1 = length es" by blast
  from runs_ends [OF 1(2) f [OF runs_stack [OF 1(2)] 1(3)]] 1(1) show ?thesis by simp
qed

lemma frame_apply_ends:
  assumes "stack_is cmp st" "function_nargs src fno = Some k" "k \<le> length st" "cafs_end src"
  shows "ends src cmp st (do { cmp2 \<leftarrow> domkframe src cmp l fno k; R_apply src cmp2 l })"
proof -
  from domkframe_pushes [OF assms, of l] obtain cmp2 st2 where
    1: "domkframe src cmp l fno k = Some cmp2" "runs src cmp st cmp2 st2" "length st2 = Suc (length st - k)" by (auto simp: pushes_def)
  then have "st2 \<noteq> []" by auto
  from runs_ends [OF 1(2) R_apply_ends [OF runs_stack [OF 1(2)] this]] 1(1) show ?thesis by simp
qed

text \<open>An application in a body, by the shape of its function.\<close>

lemma scope_pairs:
  assumes "scope p n c" "list_all (compilable src) (spine_args c)"
  shows "\<forall>q \<in> set (spine_pairs c). compilable src (fst q) \<and> scope p n (fst q)"
proof
  fix q assume "q \<in> set (spine_pairs c)"
  then have "fst q \<in> set (spine_args c)" using spine_pairs_args [of c] by auto
  then show "compilable src (fst q) \<and> scope p n (fst q)" using assms scope_args by (auto simp: list_all_iff)
qed

lemma scope_head: "scope p n c \<Longrightarrow> scope p n (spine_head c)"
  by (induction c rule: spine_head.induct) (auto dest: scope_parts)

lemma iscons_args: "iscons c \<Longrightarrow> \<exists>l s a b. c = Application l s a b"
  by (cases c) (simp_all add: iscons_def)

lemma R_symbol_ends:
  assumes "is_sym (spine_head c)" "list_all (compilable src) (spine_args c)" and st: "stack_is cmp st" "scope p (length st) c" and caf: "cafs_end src"
  shows "ends src cmp st (do { cmp1 \<leftarrow> compS src cmp l (spine_pairs c @ [(spine_head c, False)]) p (length st); R_apply src cmp1 l })"
proof (rule compS_ends [OF _ st(1) caf])
  have "compilable src (spine_head c)" using assms(1) by (cases "spine_head c") simp_all
  then show "\<forall>q \<in> set (spine_pairs c @ [(spine_head c, False)]). compilable src (fst q) \<and> scope p (length st) (fst q)"
    using scope_pairs [OF st(2) assms(2)] scope_head [OF st(2)] by simp
qed (auto intro: R_apply_ends)

text \<open>What the scheme \<^verbatim>\<open>R\<close> needs of its arguments.\<close>

definition body_ok :: "source \<Rightarrow> pmap \<Rightarrow> nat \<Rightarrow> snode \<Rightarrow> bool" where
  "body_ok src p n e \<longleftrightarrow> returnable src e \<and> flagged e \<and> scope p n e"

definition returns_code :: "source \<Rightarrow> snode \<Rightarrow> bool" where
  "returns_code src e \<longleftrightarrow> (\<forall>cmp st p. stack_is cmp st \<longrightarrow> body_ok src p (length st) e \<longrightarrow> ends src cmp st (compR src cmp e p (length st)))"

lemma returns_codeD:
  assumes "returns_code src e" "body_ok src p n e"
  shows "stack_is cmp st \<Longrightarrow> length st = n \<Longrightarrow> ends src cmp st (compR src cmp e p n)"
  using assms by (auto simp: returns_code_def)

lemma compilable_head: "compilable src (Application l s a b) \<Longrightarrow> head_known src (spine_head (Application l s a b))"
  by (auto simp: callable_def head_known_def split: snode.splits)

lemma returnable_app:
  assumes "returnable src (Application l s a b)"
  shows "head_known src (spine_head (Application l s a b))" "list_all (compilable src) (spine_args (Application l s a b))"
  using assms compilable_head [of src l s a b] compilable_args [of src "Application l s a b"]
  unfolding returnable_def list_all_iff by blast+

lemma head_known_cases:
  assumes "head_known src f" "\<not> is_sym f"
  obtains fno k where "snode_fno f = Some fno" "function_nargs src fno = Some k" "fno < NUM_BUILTINS \<longleftrightarrow> (\<exists>l. f = Builtin l fno)"
proof (cases f)
  case (Scref l i)
  then show ?thesis using assms that [of "i + NUM_BUILTINS"] by (simp add: head_known_def snode_fno_def function_nargs_def get_scomb_index_def)
next
  case (Builtin l b)
  then show ?thesis using assms that [of b] by (simp add: head_known_def snode_fno_def function_nargs_def)
qed (use assms in \<open>simp_all add: head_known_def\<close>)

text \<open>A call of a built-in function with all its arguments.\<close>

lemma R_builtin_ends:
  assumes c: "c = Application l s a b" "body_ok src p (length st) c" and sub: "\<forall>x. nodes x < nodes c \<longrightarrow> returns_code src x"
    and st: "stack_is cmp st" and caf: "cafs_end src" and f: "spine_head c = Builtin lb fno" "fno < NUM_BUILTINS" "spine_len c = bi_nargs (builtin_info ! fno)"
  shows "ends src cmp st
    (case if_parts c of
       Some (cond, truebranch, falsebranch) \<Rightarrow>
         (case eq_cond cond of
            Some (x, v) \<Rightarrow>
              do { cmp1 \<leftarrow> compE src cmp x p (length st);
                   (cmp2, label) \<leftarrow> JEQ cmp1 (sl cond) v;
                   cmp3 \<leftarrow> add_instruction (newswap cmp2) (sl cond) OP_POP 1 0;
                   cmp4 \<leftarrow> compR src cmp3 falsebranch p (length st);
                   let cmp5 = LABEL (freeswap cmp4 (c_si cmp2)) label;
                   cmp6 \<leftarrow> add_instruction (newswap cmp5) (sl cond) OP_POP 1 0;
                   cmp7 \<leftarrow> compR src cmp6 truebranch p (length st);
                   Some (freeswap cmp7 (c_si cmp2)) }
          | None \<Rightarrow>
              do { cmp1 \<leftarrow> compE src cmp cond p (length st);
                   (cmp2, label) \<leftarrow> JFALSE cmp1 (sl cond);
                   cmp3 \<leftarrow> compR src (newswap cmp2) truebranch p (length st);
                   let cmp4 = LABEL (freeswap cmp3 (c_si cmp2)) label;
                   cmp5 \<leftarrow> compR src (newswap cmp4) falsebranch p (length st);
                   Some (freeswap cmp5 (c_si cmp2)) })
     | None \<Rightarrow>
       (case seq_parts c of
          Some (expr1, expr2) \<Rightarrow>
            do { cmp1 \<leftarrow> compE src cmp expr1 p (length st);
                 cmp2 \<leftarrow> EVAL cmp1 (sl expr1) 0;
                 cmp3 \<leftarrow> add_instruction cmp2 (sl expr1) OP_POP 1 0;
                 compR src cmp3 expr2 p (length st) }
        | None \<Rightarrow> R_bif src cmp c p (length st) fno))"
proof -
  have sc: "scope p (length st) c" and fl: "flagged c" and cargs: "list_all (compilable src) (spine_args c)"
    using c returnable_app(2) [of src l s a b] by (simp_all add: body_ok_def)
  have ok: "compilable src x" "compiles src x" "scope p (length st) x" if "x \<in> set (spine_args c)" for x
    using that cargs compilable_compiles [OF _ caf] scope_args [OF sc] by (simp_all add: list_all_iff)
  have bod: "returns_code src x" "flagged x \<Longrightarrow> body_ok src p (length st) x" if "x \<in> set (spine_args c)" for x
    using that sub spine_args_smaller ok [OF that] by (simp_all add: body_ok_def returnable_def)
  show ?thesis
  proof (cases "if_parts c")
    case (Some q)
    obtain cond t e where q: "q = (cond, t, e)" by (cases q)
    have i: "cond \<in> set (spine_args c)" "t \<in> set (spine_args c)" "e \<in> set (spine_args c)" using parts_args(1) [of c] Some q by auto
    have te: "flagged t" "flagged e" using fl Some q by (simp_all add: flagged.simps [of c])
    note T = returns_codeD [OF bod(1) [OF i(2)] bod(2) [OF i(2) te(1)]] and E = returns_codeD [OF bod(1) [OF i(3)] bod(2) [OF i(3) te(2)]]
    show ?thesis
    proof (cases "eq_cond cond")
      case None
      from if_ends [OF st refl ok(2,3) [OF i(1)] T E, of "sl cond"] show ?thesis using Some q None by simp
    next
      case (Some w)
      obtain x v where w: "w = (x, v)" by (cases w)
      have x: "x \<in> set (spine_args cond)" using parts_args(4) Some w by blast
      from if_eq_ends [OF st refl compilable_compiles [OF compilable_args [OF ok(1) [OF i(1)] x] caf] scope_args [OF ok(3) [OF i(1)] x] T E, of "sl cond" v]
      show ?thesis using \<open>if_parts c = Some q\<close> q Some w by simp
    qed
  next
    case no_if: None
    show ?thesis
    proof (cases "seq_parts c")
      case (Some q)
      obtain x y where q: "q = (x, y)" by (cases q)
      have i: "x \<in> set (spine_args c)" "y \<in> set (spine_args c)" using parts_args(2) [of c] Some q by auto
      have "flagged y" using fl no_if Some q by (simp add: flagged.simps [of c])
      from seq_ends [OF compilesE [OF ok(2) [OF i(1)] st ok(3) [OF i(1)]] refl returns_codeD [OF bod(1) [OF i(2)] bod(2) [OF i(2) this]], of "sl x"]
      show ?thesis using no_if Some q by simp
    next
      case None
      have "bif_flags c" using fl no_if None c(1) by (simp add: flagged.simps [of "Application l s a b"])
      with R_bif_ends [OF _ st sc caf f] ok(2) show ?thesis using no_if None by simp
    qed
  qed
qed

lemma R_app_ends:
  assumes c: "c = Application l s a b" "body_ok src p (length st) c" and sub: "\<forall>x. nodes x < nodes c \<longrightarrow> returns_code src x"
    and st: "stack_is cmp st" and tab: "table_ok src" and caf: "cafs_end src"
  shows "ends src cmp st (compR src cmp c p (length st))"
proof -
  let ?l = "sl (spine_head c)"
  have sc: "scope p (length st) c" and cargs: "list_all (compilable src) (spine_args c)" and hk: "head_known src (spine_head c)"
    using c returnable_app [of src l s a b] by (simp_all add: body_ok_def)
  have ar: "\<forall>x \<in> set (spine_args c). compiles src x" using cargs compilable_compiles [OF _ caf] by (simp add: list_all_iff)
  note pairs = scope_pairs [OF sc cargs]
  have room: "\<not> \<not> stack_room (if is_sym (spine_head c) then Suc (length (spine_pairs c)) else length (spine_pairs c))"
    using scope_room(1) [OF sc] stack_room_mono [OF scope_room(1) [OF sc], of "spine_len c"] by simp
  consider (cons) "iscons c \<and> iscons b" | (sym) "\<not> (iscons c \<and> iscons b)" "is_sym (spine_head c)" | (other) "\<not> (iscons c \<and> iscons b)" "\<not> is_sym (spine_head c)" by blast
  then show ?thesis
  proof cases
    case cons
    then show ?thesis using Ccons_ends [OF _ cargs st sc caf, of l] c(1) by simp
  next
    case sym
    from R_symbol_ends [OF sym(2) cargs st sc caf, of ?l] show ?thesis using sym room unfolding c(1) compR.simps Let_def by (simp only: if_False if_True not_True_eq_False not_not)
  next
    case other
    from head_known_cases [OF hk other(2)] obtain fno k where
      f: "snode_fno (spine_head c) = Some fno" "function_nargs src fno = Some k" "fno < NUM_BUILTINS \<longleftrightarrow> (\<exists>l. spine_head c = Builtin l fno)" by blast
    have len: "length (spine_pairs c) = spine_len c" by simp
    note unf = c(1) compR.simps(1) Let_def if_not_P [OF other(1) [unfolded c(1)]] if_not_P [OF room [unfolded c(1)]]
    consider (over) "k < spine_len c" | (part) "spine_len c < k" | (bif) "spine_len c = k" "fno < NUM_BUILTINS" | (scomb) "spine_len c = k" "\<not> fno < NUM_BUILTINS" by linarith
    then show ?thesis
    proof cases
      case over
      have "ends src cmp st (do { cmp1 \<leftarrow> compS src cmp ?l (spine_pairs c) p (length st); cmp2 \<leftarrow> domkframe src cmp1 ?l fno k; R_apply src cmp2 ?l })"
        by (rule compS_ends [OF pairs st caf], rule frame_apply_ends [OF _ f(2) _ caf]) (use over in simp_all)
      then show ?thesis using over other(2) f len unfolding unf by simp
    next
      case part
      have "pushed src cmp st (do { cmp1 \<leftarrow> compC_args src cmp c p (length st); MKCAP cmp1 ?l fno (spine_len c) }) 0"
        using call_pushed(2) [OF compC_args_ok [OF ar st sc] f(2) caf, of ?l] part by simp
      from pushed_ends [OF this, where f = "\<lambda>cmp2. add_instruction cmp2 ?l OP_RETURN 0 0"] RETURN_ends
      have "ends src cmp st (do { cmp1 \<leftarrow> compC_args src cmp c p (length st); cmp2 \<leftarrow> MKCAP cmp1 ?l fno (spine_len c); add_instruction cmp2 ?l OP_RETURN 0 0 })"
        by (simp add: Option.bind_assoc)
      then show ?thesis using part other(2) f len unfolding unf by simp
    next
      case bif
      then obtain lb where lb: "spine_head c = Builtin lb fno" using f(3) by blast
      have "spine_len c = bi_nargs (builtin_info ! fno)" using bif f(2) by (simp add: function_nargs_def)
      from R_builtin_ends [OF c sub st caf lb bif(2) this] show ?thesis using bif other(2) f len unfolding unf by simp
    next
      case scomb
      show ?thesis
      proof (cases "item_parts src c")
        case (Some q)
        obtain i x where q: "q = (i, x)" by (cases q)
        have x: "x \<in> set (spine_args c)" using parts_args(3) [of src c] Some q by auto
        then have "compiles src x" using ar by blast
        from item_ends [OF compilesE [OF this st scope_args [OF sc x]] refl, of ?l i] show ?thesis
          using scomb other(2) f len Some q unfolding unf by simp
      next
        case None
        have "ends src cmp st (do { cmp1 \<leftarrow> compS src cmp ?l (spine_pairs c) p (length st); JFUN src cmp1 ?l fno })"
          by (rule compS_ends [OF pairs st caf]) (use JFUN_ok [OF _ tab f(2)] scomb in \<open>simp add: ends_def\<close>)
        then show ?thesis using scomb other(2) f len None unfolding unf by simp
      qed
    qed
  qed
qed

lemma body_ok_letrec:
  assumes "body_ok src p n (LetrecNode l rs b)"
  shows "body_ok src (bind_places rs p n) (n + length rs) b" "compilable_recs src rs" "bindings_scope (bind_places rs p n) n rs"
    "bind_recs rs p n = Some (bind_places rs p n)"
proof -
  have "compilable src (LetrecNode l rs b)" "flagged b"
    using assms by (auto simp: body_ok_def returnable_def head_known_def flagged.simps [of "LetrecNode l rs b"] if_parts_def seq_parts_def)
  then show "body_ok src (bind_places rs p n) (n + length rs) b" "compilable_recs src rs" "bindings_scope (bind_places rs p n) n rs"
    "bind_recs rs p n = Some (bind_places rs p n)"
    using scope_letrec assms by (auto simp: body_ok_def returnable_def)
qed

lemma R_letrec_ends:
  assumes b: "body_ok src p (length st) (LetrecNode l rs b)" and sub: "returns_code src b" and st: "stack_is cmp st" and caf: "cafs_end src"
  shows "ends src cmp st (compR src cmp (LetrecNode l rs b) p (length st))"
proof -
  let ?p = "bind_places rs p (length st)"
  note B = body_ok_letrec [OF b]
  have "\<forall>r \<in> set rs. compiles src (rec_value r)" using B(2) compilable_compiles [OF _ caf] by (simp add: compilable_recs_iff)
  from Cletrec_ok [OF this B(2) st B(3), of True] obtain cmp1 st1 where
    1: "Cletrec src cmp rs ?p (length st) True = Some cmp1" "runs src cmp st cmp1 st1" "length st1 = length st + length rs" by blast
  from runs_ends [OF 1(2) returns_codeD [OF sub B(1) runs_stack [OF 1(2)] 1(3)]] 1(1) B(4) show ?thesis by simp
qed

lemma R_fun_ends:
  assumes "snode_fno c = Some fno" "function_nargs src fno = Some k" and st: "stack_is cmp st" and tab: "table_ok src" and caf: "cafs_end src"
  shows "ends src cmp st (do { fno \<leftarrow> snode_fno c; k \<leftarrow> function_nargs src fno;
      if k = 0 then JFUN src cmp l fno else do { cmp1 \<leftarrow> MKCAP cmp l fno 0; add_instruction cmp1 l OP_RETURN 0 0 } })"
proof (cases "k = 0")
  case True
  then show ?thesis using JFUN_ok [OF st tab assms(2), of l] assms(1,2) by (simp add: ends_def)
next
  case False
  then have "pushed src cmp st (MKCAP cmp l fno 0) 0" using call_pushed(2) [OF args_pushed_Nil [OF st] assms(2) caf, of l] by simp
  from pushed_ends [OF this, where f = "\<lambda>cmp2. add_instruction cmp2 l OP_RETURN 0 0"] RETURN_ends False assms(1,2) show ?thesis by simp
qed

lemma R_atom_ends:
  assumes e: "body_ok src p (length st) e" and st: "stack_is cmp st" and tab: "table_ok src" and caf: "cafs_end src"
    and no: "\<forall>l s a b. e \<noteq> Application l s a b" "\<forall>l rs b. e \<noteq> LetrecNode l rs b"
  shows "ends src cmp st (compR src cmp e p (length st))"
proof -
  have "compilable src e" using e no by (cases e) (auto simp: body_ok_def returnable_def head_known_def)
  with compilesC [OF compilable_compiles [OF _ caf] st] e have C: "pushed src cmp st (compC src cmp e p (length st)) 0" by (simp add: body_ok_def)
  from pushed_ends [OF this, where f = "\<lambda>cmp1. add_instruction cmp1 (sl e) OP_RETURN 0 0"] RETURN_ends
  have R: "ends src cmp st (do { cmp1 \<leftarrow> compC src cmp e p (length st); add_instruction cmp1 (sl e) OP_RETURN 0 0 })" by simp
  show ?thesis
  proof (cases e)
    case (Symbol l x)
    have "ends src cmp1 (st1 @ [s]) (do { cmp2 \<leftarrow> add_instruction cmp1 l OP_SQUEEZE 1 (int (length st)); cmp3 \<leftarrow> EVAL cmp2 l 0; add_instruction cmp3 l OP_RETURN 0 0 })"
      if s: "stack_is cmp1 (st1 @ [s])" "length st1 = length st" for cmp1 st1 s
      unfolding s(2) [symmetric]
    proof (rule SQUEEZE_ends(1) [OF s(1)])
      show "st1 \<noteq> []" using e Symbol s(2) by (auto simp: body_ok_def scope_def in_range_def)
    qed (rule EVAL_ends, auto intro: RETURN_ends)
    from pushed_ends [OF C this] show ?thesis unfolding Symbol compR.simps by simp
  next
    case (Scref l i)
    then have "function_nargs src (i + NUM_BUILTINS) = Some (sc_nargs (scombs src ! i))" using \<open>compilable src e\<close> by (simp add: function_nargs_def get_scomb_index_def)
    from R_fun_ends [OF _ this st tab caf, of e "sl e"] show ?thesis unfolding Scref by (simp add: snode_fno_def)
  next
    case (Builtin l b)
    then have "function_nargs src b = Some (bi_nargs (builtin_info ! b))" using \<open>compilable src e\<close> by (simp add: function_nargs_def)
    from R_fun_ends [OF _ this st tab caf, of e "sl e"] show ?thesis unfolding Builtin by (simp add: snode_fno_def)
  qed (use R no \<open>compilable src e\<close> in simp_all)
qed

theorem body_compiles:
  assumes "table_ok src" "cafs_end src"
  shows "returns_code src e"
proof (induction "nodes e" arbitrary: e rule: less_induct)
  case less
  have sub: "\<forall>x. nodes x < nodes e \<longrightarrow> returns_code src x" using less.hyps by blast
  show ?case unfolding returns_code_def
  proof (intro allI impI)
    fix cmp st p assume st: "stack_is cmp st" and b: "body_ok src p (length st) e"
    show "ends src cmp st (compR src cmp e p (length st))"
    proof (cases e)
      case (Application l s a b)
      then show ?thesis by (rule R_app_ends [OF _ b sub st assms])
    next
      case (LetrecNode l rs b1)
      then show ?thesis using R_letrec_ends [OF _ _ st assms(2)] b sub by simp
    qed (use R_atom_ends [OF b st assms] in simp_all)
  qed
qed

end
