(* ===== verification/Code_Program.thy ===== *)
theory Code_Program
  imports Code_Bodies
begin

text \<open>
  Whole programs: no assertion fails while a program is compiled that the lifting passes have
  prepared, and every function is found at the address the table gives for it.
\<close>

subsection \<open>The peephole pass returns\<close>

text \<open>What the assertions in the pass rely on.\<close>

definition squeezes :: "instruction \<Rightarrow> bool" where
  "squeezes i \<longleftrightarrow> i_opcode i \<noteq> OP_GLOBSTART \<and> (i_opcode i = OP_SQUEEZE \<longrightarrow> 0 < i_arg1 i)"

definition targets_in :: "nat \<Rightarrow> instruction \<Rightarrow> bool" where
  "targets_in n i \<longleftrightarrow> (is_jump (i_opcode i) \<longrightarrow> 0 \<le> i_arg0 i \<and> i_arg0 i < int n)"

definition prunable :: "instruction list \<Rightarrow> bool" where
  "prunable xs \<longleftrightarrow> xs \<noteq> [] \<and> i_opcode (last xs) \<noteq> OP_POP \<and> (\<forall>i \<in> set xs. squeezes i \<and> targets_in (length xs) i)"

lemma nth_opcodes: "map i_opcode (take n xs) = ops \<Longrightarrow> n \<le> length xs \<Longrightarrow> k < n \<Longrightarrow> i_opcode (xs ! k) = ops ! k"
  by auto

lemma peephole_step_returns:
  assumes ne: "xs \<noteq> []" and sq: "\<forall>i \<in> set xs. squeezes i"
  shows "\<exists>pa. peephole_step xs chain = Some pa"
proof -
  have "squeeze_return xs \<Longrightarrow> squeezes (xs ! 0) \<and> i_opcode (xs ! 0) = OP_SQUEEZE" using sq ne by (simp add: squeeze_return_def)
  then show ?thesis unfolding peephole_step_def action_def by (simp add: squeezes_def)
qed

lemma peephole_step_new:
  assumes step: "peephole_step xs chain = Some pa" and ne: "xs \<noteq> []"
  shows "(\<forall>i \<in> set (pa_new pa). i_opcode i \<noteq> OP_POP \<and>
      (i_opcode i = OP_SQUEEZE \<or> i_opcode i = OP_GLOBSTART \<longrightarrow> i \<in> set xs) \<and> (is_jump (i_opcode i) \<longrightarrow> (\<exists>j \<in> set xs. is_jump (i_opcode j) \<and> i_arg0 j = i_arg0 i))) \<and>
    (pa_new pa = [] \<longrightarrow> i_opcode (xs ! 0) = OP_POP \<and> pa_used pa = 1) \<and>
    (pa_new pa \<noteq> [] \<longrightarrow> list_all (\<lambda>o1. o1 < length (pa_new pa)) (pa_map pa))"
proof -
  have mem: "k < length xs \<Longrightarrow> xs ! k \<in> set xs" for k by simp
  have jeq: "pop_push_jeq a xs \<Longrightarrow> i_opcode (xs ! 2) = OP_JEQ \<and> 2 < length xs" "pop_push_eval_jeq a xs \<Longrightarrow> i_opcode (xs ! 3) = OP_JEQ \<and> 3 < length xs"
    "push_jeq xs \<Longrightarrow> i_opcode (xs ! 0) = OP_PUSH \<and> i_opcode (xs ! 1) = OP_JEQ \<and> 1 < length xs"
    "push_eval_jeq xs \<Longrightarrow> i_opcode (xs ! 0) = OP_PUSH \<and> i_opcode (xs ! 1) = OP_EVAL \<and> i_opcode (xs ! 2) = OP_JEQ \<and> 2 < length xs" for a
    using nth_opcodes [of 3 xs _ 2] nth_opcodes [of 4 xs _ 3] nth_opcodes [of 4 xs _ 0] nth_opcodes [of 4 xs _ 1]
      nth_opcodes [of 5 xs _ 0] nth_opcodes [of 5 xs _ 1] nth_opcodes [of 5 xs _ 2]
    by (auto simp: pattern_defs numeral_eq_Suc)
  have two: "spark_eval xs \<Longrightarrow> i_opcode (xs ! 1) = OP_EVAL \<and> 1 < length xs"
    "squeeze_return xs \<Longrightarrow> i_opcode (xs ! 1) = OP_RETURN \<and> 1 < length xs"
    "bif_jfalse xs \<Longrightarrow> i_opcode (xs ! 1) = OP_JFALSE \<and> 1 < length xs" by (auto simp: pattern_defs)
  show ?thesis using step ne mem unfolding peephole_step_def
    by (auto simp: action_Some is_jump_def dest!: jeq two split: if_split_asm)
qed

lemma peephole_pass_returns:
  "\<forall>i \<in> set xs. squeezes i \<Longrightarrow> xs \<noteq> [] \<longrightarrow> i_opcode (last xs) \<noteq> OP_POP \<Longrightarrow>
    \<exists>out mp changed. peephole_pass xs dest chain = Some (out, mp, changed) \<and> (xs \<noteq> [] \<longrightarrow> out \<noteq> []) \<and> (\<forall>a \<in> set mp. a < dest + length out) \<and>
      (\<forall>i \<in> set out. i_opcode i \<noteq> OP_POP \<and> squeezes i \<and> (is_jump (i_opcode i) \<longrightarrow> (\<exists>j \<in> set xs. is_jump (i_opcode j) \<and> i_arg0 j = i_arg0 i)))"
proof (induction xs dest chain rule: peephole_pass.induct)
  case (1 xs dest chain)
  show ?case
  proof (cases "xs = []")
    case False
    from peephole_step_returns [OF False 1(2)] obtain pa where pa: "peephole_step xs chain = Some pa" by blast
    note size = peephole_step_size [OF pa False]
    note new = peephole_step_new [OF pa False]
    let ?ys = "drop (pa_used pa) xs"
    have "\<forall>i \<in> set ?ys. squeezes i" "?ys \<noteq> [] \<longrightarrow> i_opcode (last ?ys) \<noteq> OP_POP" using 1(2,3) False by (auto dest: in_set_dropD)
    from 1(1) [OF False pa this] obtain out mp ch where
      r: "peephole_pass ?ys (dest + length (pa_new pa)) (pa_chain pa) = Some (out, mp, ch)" "?ys \<noteq> [] \<longrightarrow> out \<noteq> []"
        "\<forall>a \<in> set mp. a < dest + length (pa_new pa) + length out"
        "\<forall>i \<in> set out. i_opcode i \<noteq> OP_POP \<and> squeezes i \<and> (is_jump (i_opcode i) \<longrightarrow> (\<exists>j \<in> set ?ys. is_jump (i_opcode j) \<and> i_arg0 j = i_arg0 i))" by blast
    have p: "peephole_pass xs dest chain = Some (pa_new pa @ out, map (\<lambda>o1. dest + o1) (pa_map pa) @ mp, pa_changed pa \<or> ch)"
      using False pa r(1) by (subst peephole_pass.simps) simp
    have pop: "out \<noteq> []" if "pa_new pa = []"
    proof -
      have "i_opcode (xs ! 0) = OP_POP" "pa_used pa = 1" using new that by simp_all
      then have "?ys \<noteq> []" using 1(3) False by (cases xs) auto
      then show ?thesis using r(2) by simp
    qed
    have "\<forall>o1 \<in> set (pa_map pa). o1 < length (pa_new pa) + length out"
    proof (cases "pa_new pa = []")
      case True
      then show ?thesis using pop size by (auto simp: list_all_iff)
    next
      case nonempty: False
      then show ?thesis using new by (auto simp: list_all_iff)
    qed
    then have "\<forall>a \<in> set (map (\<lambda>o1. dest + o1) (pa_map pa) @ mp). a < dest + length (pa_new pa @ out)" using r(3) by auto
    moreover have "\<forall>i \<in> set (pa_new pa @ out). i_opcode i \<noteq> OP_POP \<and> squeezes i \<and> (is_jump (i_opcode i) \<longrightarrow> (\<exists>j \<in> set xs. is_jump (i_opcode j) \<and> i_arg0 j = i_arg0 i))"
      using new r(4) 1(2) in_set_dropD [of _ "pa_used pa" xs] unfolding squeezes_def by (fastforce simp: ball_Un)
    ultimately show ?thesis using p pop by blast
  qed (auto simp: peephole_pass.simps intro: exI [of Not False])
qed

lemma peephole_pass_prunable:
  assumes "prunable xs"
  shows "\<exists>out mp changed. peephole_pass xs 0 None = Some (out, mp, changed) \<and> prunable (retarget mp out) \<and> length mp = length xs"
proof -
  from assms have ne: "xs \<noteq> []" and xs: "\<forall>i \<in> set xs. squeezes i" "xs \<noteq> [] \<longrightarrow> i_opcode (last xs) \<noteq> OP_POP" "\<forall>i \<in> set xs. targets_in (length xs) i"
    by (auto simp: prunable_def)
  from peephole_pass_returns [OF xs(1,2), of 0 None] ne obtain out mp ch where
    r: "peephole_pass xs 0 None = Some (out, mp, ch)" "out \<noteq> []" "\<forall>a \<in> set mp. a < length out"
      "\<forall>i \<in> set out. i_opcode i \<noteq> OP_POP \<and> squeezes i \<and> (is_jump (i_opcode i) \<longrightarrow> (\<exists>j \<in> set xs. is_jump (i_opcode j) \<and> i_arg0 j = i_arg0 i))" by auto
  have len: "length mp = length xs" using peephole_pass_length [OF r(1)] by blast
  have t: "mp ! nat (i_arg0 i) < length out" if "i \<in> set out" "is_jump (i_opcode i)" for i
  proof -
    from r(4) that obtain j where "j \<in> set xs" "is_jump (i_opcode j)" "i_arg0 j = i_arg0 i" by blast
    then have "nat (i_arg0 i) < length mp" using xs(3) len by (auto simp: targets_in_def)
    then show ?thesis using r(3) by simp
  qed
  define f where "f = (\<lambda>i :: instruction. if is_jump (i_opcode i) then i\<lparr>i_arg0 := int (mp ! nat (i_arg0 i))\<rparr> else i)"
  have op: "i_opcode (f i) = i_opcode i" "i_arg1 (f i) = i_arg1 i" for i by (simp_all add: f_def)
  have "squeezes (f i) \<and> targets_in (length out) (f i)" if i: "i \<in> set out" for i
    unfolding squeezes_def targets_in_def op using r(4) i t [OF i] by (simp add: squeezes_def f_def)
  moreover have "i_opcode (f (last out)) \<noteq> OP_POP" unfolding op using r(2,4) by simp
  ultimately have "prunable (map f out)" using r(2) by (simp add: prunable_def last_map)
  moreover have "retarget mp out = map f out" by (simp add: retarget_def f_def)
  ultimately show ?thesis using r(1) len by auto
qed

lemma peephole_loop_returns: "prunable xs \<Longrightarrow> \<exists>ys. peephole_loop xs = Some ys \<and> prunable ys"
proof (induction xs rule: peephole_loop.induct)
  case (1 xs)
  from peephole_pass_prunable [OF 1(2)] obtain out mp ch where
    r: "peephole_pass xs 0 None = Some (out, mp, ch)" "prunable (retarget mp out)" by blast
  show ?case
  proof (cases ch)
    case True
    with 1(1) [OF r(1) refl refl True r(2)] r(1) show ?thesis by (subst peephole_loop.simps) simp
  next
    case False
    with r show ?thesis by (subst peephole_loop.simps) simp
  qed
qed

lemma prunable_targets: "prunable xs \<Longrightarrow> targets_ok xs"
  by (auto simp: prunable_def targets_ok_def targets_in_def list_all_iff)

lemma fits_None: "fits xs None k h \<Longrightarrow> 0 \<le> k \<and> k < int (length xs)"
  by (auto simp: fits_def height_at_def split: if_splits)

lemma succs_jump: "is_jump (i_opcode i) \<Longrightarrow> \<exists>h. (i_arg0 i, h) \<in> set (succs i)"
  by (auto simp: is_jump_def succs_def Let_def)

lemma consistent_prunable:
  assumes "consistent src xs h None"
  shows "prunable (absolute xs)"
proof -
  have ne: "xs \<noteq> []" using assms by (auto simp: consistent_def fits_def height_at_def)
  have at: "operands_ok src (xs ! a)" "\<And>d h'. (d, h') \<in> set (succs (xs ! a)) \<Longrightarrow> fits xs None (int a + d) h'" if "a < length xs" for a
    using assms that by (fastforce simp: consistent_def list_all_iff)+
  have abs: "absolute xs ! a = (if is_jump (i_opcode (xs ! a)) then (xs ! a)\<lparr>i_arg0 := i_arg0 (xs ! a) + int a\<rparr> else xs ! a)" if "a < length xs" for a
    using that by (simp add: absolute_def nth_enumerate_eq)
  have len: "length (absolute xs) = length xs" by (simp add: absolute_def)
  have "squeezes (absolute xs ! a) \<and> targets_in (length xs) (absolute xs ! a)" if "a < length xs" for a
  proof -
    have "squeezes (xs ! a)" using at(1) [OF that] by (auto simp: squeezes_def operands_ok_def Let_def)
    moreover have "0 \<le> i_arg0 (xs ! a) + int a \<and> i_arg0 (xs ! a) + int a < int (length xs)" if "is_jump (i_opcode (xs ! a))"
      using succs_jump [OF that] at(2) [OF \<open>a < length xs\<close>] fits_None by (metis add.commute)
    ultimately show ?thesis using abs [OF that] by (auto simp: squeezes_def targets_in_def is_jump_def)
  qed
  then have "\<forall>i \<in> set (absolute xs). squeezes i \<and> targets_in (length (absolute xs)) i" using len by (metis in_set_conv_nth)
  moreover have "i_opcode (last (absolute xs)) \<noteq> OP_POP"
  proof
    let ?a = "length xs - 1"
    assume "i_opcode (last (absolute xs)) = OP_POP"
    moreover have a: "?a < length xs" using ne by simp
    moreover have "last (absolute xs) = absolute xs ! ?a" using len ne by (metis last_conv_nth length_0_conv)
    ultimately have "i_opcode (xs ! ?a) = OP_POP" using abs [OF a] by (simp split: if_splits)
    then have "(1, i_expcount (xs ! ?a) - i_arg0 (xs ! ?a)) \<in> set (succs (xs ! ?a))" by (simp add: succs_def Let_def)
    from at(2) [OF a this] have "int ?a + 1 < int (length xs)" using fits_None by blast
    then show False using ne by simp
  qed
  ultimately show ?thesis using ne len by (auto simp: prunable_def)
qed

text \<open>The functions that start in a piece of code.\<close>

definition starts :: "instruction list \<Rightarrow> int set" where
  "starts xs = i_arg0 ` {i \<in> set xs. i_opcode i = OP_GLOBSTART}"

lemma starts_simps [simp]:
  "starts [] = {}" "starts (i # xs) = (if i_opcode i = OP_GLOBSTART then {i_arg0 i} else {}) \<union> starts xs" "starts (xs @ ys) = starts xs \<union> starts ys"
  by (auto simp: starts_def)

lemma consistent_starts: "consistent src xs h e \<Longrightarrow> starts xs = {}"
  by (auto simp: consistent_def starts_def in_set_conv_nth operands_ok_def Let_def)

lemma peephole_returns:
  assumes "consistent src xs h None"
  shows "\<exists>ys. peephole xs = Some ys \<and> ys \<noteq> [] \<and> starts ys = {}"
proof -
  note c = consistent_prunable [OF assms]
  from peephole_loop_returns [OF c] obtain ys where ys: "peephole_loop (absolute xs) = Some ys" "prunable ys" by blast
  then have "relative ys \<noteq> []" by (cases ys) (simp_all add: relative_def prunable_def)
  moreover have "starts (relative ys) = {}" using ys(2) by (auto simp: starts_def prunable_def squeezes_def relative_def in_set_enumerate_eq split: if_splits)
  ultimately show ?thesis using ys prunable_targets [OF c] prunable_targets [OF ys(2)] by (simp add: peephole_def)
qed

subsection \<open>Supercombinators\<close>

definition compilable_scomb :: "source \<Rightarrow> scomb \<Rightarrow> bool" where
  "compilable_scomb src sc \<longleftrightarrow> sc_flags_ok sc \<and> real_scname src (sc_name sc) \<noteq> None \<and>
     (\<exists>e \<in> set_option (sc_body sc). body_ok src (arg_map sc) (sc_nargs sc) e)"

text \<open>The table leads to the start of the function, which is in no other place after it, and its other
  entries to later instructions.\<close>

definition entry_ok :: "compilation \<Rightarrow> nat \<Rightarrow> nat \<Rightarrow> bool" where
  "entry_ok cmp fno k \<longleftrightarrow>
     (let f = c_finfo cmp ! fno; i = c_instructions cmp ! f_address f in
      f_arity f = k \<and> f_address f \<le> f_addressne f \<and> f_addressne f \<le> f_addressed f \<and> f_addressed f < here cmp \<and>
      int fno \<notin> starts (drop (Suc (f_address f)) (c_instructions cmp)) \<and>
      i_opcode i = OP_GLOBSTART \<and> i_arg0 i = int fno \<and> i_arg1 i = int k \<and> i_expcount i = int k)"

definition extends :: "compilation \<Rightarrow> compilation \<Rightarrow> nat set \<Rightarrow> bool" where
  "extends cmp cmp' fnos \<longleftrightarrow> (\<exists>xs. c_instructions cmp' = c_instructions cmp @ xs \<and> starts xs \<subseteq> int ` fnos) \<and> length (c_finfo cmp') = length (c_finfo cmp) \<and>
     (\<forall>fno. fno \<notin> fnos \<longrightarrow> c_finfo cmp' ! fno = c_finfo cmp ! fno)"

lemma extends_refl: "extends cmp cmp {}"
  by (simp add: extends_def)

lemma extends_trans: "extends a b F \<Longrightarrow> extends b c G \<Longrightarrow> extends a c (F \<union> G)"
  unfolding extends_def by (auto simp: image_Un)

lemma extends_entry: "extends cmp cmp' F \<Longrightarrow> fno \<notin> F \<Longrightarrow> entry_ok cmp fno k \<Longrightarrow> entry_ok cmp' fno k"
  by (auto simp: extends_def entry_ok_def Let_def nth_append)

lemma emits_extends: "emits src cmp xs cmp' \<Longrightarrow> starts xs = {} \<Longrightarrow> extends cmp cmp' {}"
  by (auto simp: emits_def extends_def same_tables_def)

lemma runs_extends: "runs src cmp st cmp' st' \<Longrightarrow> extends cmp cmp' {}"
  by (auto simp: runs_def dest: consistent_starts emits_extends)

lemma stack_with_stack [simp]: "stack_is (with_stack cmp st) st"
  by (simp add: with_stack_def stack_is_def)

lemma with_stack_extends [simp]: "extends (with_stack cmp st) cmp' F = extends cmp cmp' F"
  by (simp add: extends_def with_stack_def)

lemma set_finfo_extends: "fno < length (c_finfo cmp) \<Longrightarrow> extends cmp (set_finfo cmp fno f) {fno}"
  by (auto simp: extends_def set_finfo_def)

lemma GLOBSTART_starts:
  assumes "length st = k"
  shows "\<exists>cmp'. add_instruction (with_stack cmp st) l OP_GLOBSTART (int fno) (int k) = Some cmp' \<and> stack_is cmp' st \<and>
    c_instructions cmp' = c_instructions cmp @ [\<lparr>i_opcode = OP_GLOBSTART, i_arg0 = int fno, i_arg1 = int k, i_sl = l, i_expcount = int k\<rparr>] \<and>
    c_finfo cmp' = c_finfo cmp \<and> extends cmp cmp' {fno}"
  using assms by (auto simp: add_instruction_def with_stack_def si_add_def Let_def stack_is_def extends_def)

lemma SPARK_strict_runs:
  "stack_is cmp st \<Longrightarrow> \<forall>i \<in> set is. i < length st \<Longrightarrow>
    \<exists>cmp' st'. SPARK_strict cmp l fl is = Some cmp' \<and> runs src cmp st cmp' st' \<and> length st' = length st"
proof (induction "is" arbitrary: cmp st)
  case (Cons i "is")
  let ?r = "case fl of Some f \<Rightarrow> if f ! i then SPARK cmp l (int i) else Some cmp | None \<Rightarrow> Some cmp"
  have "\<exists>cmp1 st1. ?r = Some cmp1 \<and> runs src cmp st cmp1 st1 \<and> length st1 = length st"
    using SPARK_runs [OF Cons.prems(1), of "length st - 1 - i" "int i" l src] Cons.prems runs_refl [OF Cons.prems(1), of src]
    by (fastforce split: option.splits)
  then obtain cmp1 st1 where 1: "?r = Some cmp1" "runs src cmp st cmp1 st1" "length st1 = length st" by blast
  from Cons.IH [OF runs_stack [OF 1(2)]] Cons.prems(2) 1(3) obtain cmp' st' where
    2: "SPARK_strict cmp1 l fl is = Some cmp'" "runs src cmp1 st1 cmp' st'" "length st' = length st" by auto
  from 1 2 runs_trans [OF 1(2) 2(2)] show ?case by (auto simp del: not_None_eq)
qed (auto intro: runs_refl)

lemma EVAL_strict_runs:
  "stack_is cmp st \<Longrightarrow> \<forall>i \<in> set is. i < length st \<Longrightarrow>
    \<exists>cmp' st'. EVAL_strict cmp l fl is = Some cmp' \<and> runs src cmp st cmp' st' \<and> length st' = length st"
proof (induction "is" arbitrary: cmp st)
  case (Cons i "is")
  let ?r = "case fl of Some f \<Rightarrow> if f ! i then EVAL cmp l (int i) else Some cmp | None \<Rightarrow> Some cmp"
  have "\<exists>cmp1 st1. ?r = Some cmp1 \<and> runs src cmp st cmp1 st1 \<and> length st1 = length st"
    using EVAL_runs [OF Cons.prems(1), of "length st - 1 - i" "int i" l src] Cons.prems runs_refl [OF Cons.prems(1), of src]
    by (fastforce split: option.splits)
  then obtain cmp1 st1 where 1: "?r = Some cmp1" "runs src cmp st cmp1 st1" "length st1 = length st" by blast
  from Cons.IH [OF runs_stack [OF 1(2)]] Cons.prems(2) 1(3) obtain cmp' st' where
    2: "EVAL_strict cmp1 l fl is = Some cmp'" "runs src cmp1 st1 cmp' st'" "length st' = length st" by auto
  from 1 2 runs_trans [OF 1(2) 2(2)] show ?case by (auto simp del: not_None_eq)
qed (auto intro: runs_refl)

text \<open>The state after the entry sequence: the body can be compiled.\<close>

definition entered :: "compilation \<Rightarrow> compilation \<Rightarrow> nat \<Rightarrow> nat \<Rightarrow> bool" where
  "entered cmp cmp' fno k \<longleftrightarrow> (\<exists>st. stack_is cmp' st \<and> length st = k) \<and> extends cmp cmp' {fno} \<and> here cmp < here cmp' \<and>
     (let f = c_finfo cmp ! fno; f' = c_finfo cmp' ! fno; i = c_instructions cmp' ! here cmp in
      f_address f' = f_address f \<and> f_arity f' = f_arity f \<and> int fno \<notin> starts (drop (Suc (here cmp)) (c_instructions cmp')) \<and> here cmp \<le> f_addressne f' \<and> f_addressne f' \<le> f_addressed f' \<and> f_addressed f' \<le> here cmp' \<and>
      i_opcode i = OP_GLOBSTART \<and> i_arg0 i = int fno \<and> i_arg1 i = int k \<and> i_expcount i = int k)"

lemma set_finfo_simps [simp]:
  "c_instructions (set_finfo cmp fno f) = c_instructions cmp" "c_si (set_finfo cmp fno f) = c_si cmp"
  "stack_is (set_finfo cmp fno f) st = stack_is cmp st" "length (c_finfo (set_finfo cmp fno f)) = length (c_finfo cmp)"
  "fno < length (c_finfo cmp) \<Longrightarrow> c_finfo (set_finfo cmp fno f) ! fno = f (c_finfo cmp ! fno)"
  by (simp_all add: set_finfo_def stack_is_def)

lemma runs_appends: "runs src cmp st cmp' st' \<Longrightarrow> \<exists>xs. c_instructions cmp' = c_instructions cmp @ xs \<and> c_finfo cmp' = c_finfo cmp \<and> starts xs = {}"
  by (auto simp: runs_def emits_def same_tables_def dest: consistent_starts)

lemma F_entry_entered:
  assumes sc: "sc_flags_ok sc" and fno: "fno < length (c_finfo cmp)"
  shows "\<exists>cmp'. F_entry cmp fno sc = Some cmp' \<and> entered cmp cmp' fno (sc_nargs sc)"
proof (cases "sc_nospark sc")
  case True
  let ?k = "sc_nargs sc"
  from sc obtain fl where fl: "sc_strictin sc = Some fl" by (auto simp: sc_flags_ok_def)
  let ?st = "map (\<lambda>i. if fl ! i then STATUS_SPARKED else STATUS_UNKNOWN) [0..<?k]"
  from GLOBSTART_starts [of ?st ?k cmp "sc_sl sc" fno] obtain cmp1 where
    1: "add_instruction (with_stack cmp ?st) (sc_sl sc) OP_GLOBSTART (int fno) (int ?k) = Some cmp1" "stack_is cmp1 ?st"
      "c_instructions cmp1 = c_instructions cmp @ [\<lparr>i_opcode = OP_GLOBSTART, i_arg0 = int fno, i_arg1 = int ?k, i_sl = sc_sl sc, i_expcount = int ?k\<rparr>]" "c_finfo cmp1 = c_finfo cmp" "extends cmp cmp1 {fno}" by auto
  have len: "fno < length (c_finfo cmp1)" "c_finfo cmp1 = c_finfo cmp" using fno 1(4) by simp_all
  have "extends cmp (set_finfo cmp1 fno f) {fno}" for f
    using extends_trans [OF 1(5) set_finfo_extends [OF len(1)]] by simp
  then show ?thesis using True fl 1 len by (auto simp: F_entry_def entered_def Let_def intro!: exI [of _ ?st])
next
  case False
  let ?k = "sc_nargs sc" and ?l = "sc_sl sc" and ?fl = "sc_strictin sc"
  let ?st = "replicate ?k STATUS_UNKNOWN"
  from GLOBSTART_starts [of ?st ?k cmp ?l fno] obtain cmp1 where
    1: "add_instruction (with_stack cmp ?st) ?l OP_GLOBSTART (int fno) (int ?k) = Some cmp1" "stack_is cmp1 ?st"
      "c_instructions cmp1 = c_instructions cmp @ [\<lparr>i_opcode = OP_GLOBSTART, i_arg0 = int fno, i_arg1 = int ?k, i_sl = ?l, i_expcount = int ?k\<rparr>]" "c_finfo cmp1 = c_finfo cmp" "extends cmp cmp1 {fno}" by auto
  from SPARK_strict_runs [OF 1(2), of "[0..<?k]" ?l ?fl source_new] obtain cmp2 st2 where
    2: "SPARK_strict cmp1 ?l ?fl [0..<?k] = Some cmp2" "runs source_new cmp1 ?st cmp2 st2" "length st2 = ?k" by auto
  let ?cmp3 = "set_finfo cmp2 fno (\<lambda>f. f\<lparr>f_addressne := here cmp2\<rparr>)"
  have s3: "stack_is ?cmp3 st2" using runs_stack [OF 2(2)] by simp
  from EVAL_strict_runs [OF this, of "[0..<?k]" ?l ?fl source_new] 2(3) obtain cmp4 st4 where
    4: "EVAL_strict ?cmp3 ?l ?fl [0..<?k] = Some cmp4" "runs source_new ?cmp3 st2 cmp4 st4" "length st4 = ?k" by auto
  from runs_appends [OF 2(2)] obtain xs where xs: "c_instructions cmp2 = c_instructions cmp1 @ xs" "c_finfo cmp2 = c_finfo cmp1" "starts xs = {}" by blast
  from runs_appends [OF 4(2)] obtain ys where ys: "c_instructions cmp4 = c_instructions cmp2 @ ys" "c_finfo cmp4 = c_finfo ?cmp3" "starts ys = {}" by auto
  note f1 = 1(4)
  have len: "fno < length (c_finfo cmp2)" "fno < length (c_finfo cmp4)" using fno f1 xs(2) ys(2) by simp_all
  have "extends cmp cmp4 {fno}" using extends_trans [OF extends_trans [OF extends_trans [OF 1(5) runs_extends [OF 2(2)]] set_finfo_extends [OF len(1)]] runs_extends [OF 4(2)]] by simp
  from extends_trans [OF this set_finfo_extends [OF len(2)]] have e: "extends cmp (set_finfo cmp4 fno f) {fno}" for f by simp
  have "entered cmp (set_finfo cmp4 fno (\<lambda>f. f\<lparr>f_addressed := here cmp4\<rparr>)) fno ?k"
    unfolding entered_def using runs_stack [OF 4(2)] 4(3) e len 1(3) xs ys f1 by (auto simp: Let_def nth_append intro!: exI [of _ st4])
  then show ?thesis using False 1(1) 2(1) 4(1) by (simp add: F_entry_def Let_def)
qed

lemma compF_ok:
  assumes src: "table_ok src" "cafs_end src" and sc: "compilable_scomb src sc" and fno: "fno < length (c_finfo cmp)"
  shows "\<exists>cmp'. compF src cmp fno sc = Some cmp' \<and> extends cmp cmp' {fno} \<and> entry_ok cmp' fno (sc_nargs sc)"
proof -
  from sc obtain e nm where e: "sc_body sc = Some e" "body_ok src (arg_map sc) (sc_nargs sc) e" and nm: "real_scname src (sc_name sc) = Some nm" and fl: "sc_flags_ok sc"
    by (auto simp: compilable_scomb_def)
  have room: "stack_room (sc_nargs sc)" using e(2) by (auto simp: body_ok_def scope_def arg_map_def elim: stack_room_mono)
  let ?cmp0 = "if sc_name sc = ''item'' then cmp\<lparr>c_itemfno := fno\<rparr> else cmp"
  obtain pos cmp1 where 1: "add_string ?cmp0 nm = (pos, cmp1)" by (metis surj_pair)
  have i1: "c_instructions cmp1 = c_instructions cmp" "c_finfo cmp1 = c_finfo cmp"
    using add_string_same [OF 1, of src] by (auto simp: emits_def same_tables_def split: if_splits)
  define cmp2 where "cmp2 = set_finfo cmp1 fno (\<lambda>f. f\<lparr>f_address := here cmp1, f_arity := sc_nargs sc, f_name := pos\<rparr>)"
  have i2: "c_instructions cmp2 = c_instructions cmp" "length (c_finfo cmp2) = length (c_finfo cmp)" "extends cmp cmp2 {fno}"
    "f_address (c_finfo cmp2 ! fno) = here cmp" "f_arity (c_finfo cmp2 ! fno) = sc_nargs sc"
    using i1 fno by (auto simp: cmp2_def extends_def set_finfo_def)
  from F_entry_entered [OF fl, of fno cmp2] fno i2(2) obtain cmp3 where
    3: "F_entry cmp2 fno sc = Some cmp3" "entered cmp2 cmp3 fno (sc_nargs sc)" by auto
  from 3(2) obtain st where st: "stack_is cmp3 st" "length st = sc_nargs sc" by (auto simp: entered_def)
  from returns_codeD [OF body_compiles [OF src] e(2) st] obtain cmp4 xs where
    4: "compR src cmp3 e (arg_map sc) (sc_nargs sc) = Some cmp4" "emits src cmp3 xs cmp4" "consistent src xs (int (length st)) None"
    by (auto simp: ends_def finishes_def)
  from peephole_returns [OF 4(3)] obtain ys where ys: "peephole xs = Some ys" "ys \<noteq> []" "starts ys = {}" by blast
  have c4: "c_instructions cmp4 = c_instructions cmp3 @ xs" "c_finfo cmp4 = c_finfo cmp3" using 4(2) by (auto simp: emits_def same_tables_def)
  let ?cmp' = "cmp4\<lparr>c_instructions := c_instructions cmp3 @ ys, c_si := c_si cmp\<rparr>"
  have "compF src cmp fno sc = Some ?cmp'"
    using nm 1 3(1) e(1) 4(1) ys(1) c4 room unfolding compF_def Let_def cmp2_def [symmetric] by (simp add: cmp2_def [symmetric] Let_def)
  moreover have "extends cmp2 ?cmp' {fno}" using 3(2) c4 ys(3) by (auto simp: entered_def extends_def)
  from extends_trans [OF i2(3) this] have "extends cmp ?cmp' {fno}" by simp
  moreover have "entry_ok ?cmp' fno (sc_nargs sc)"
    using 3(2) c4 ys(2,3) i2 by (cases ys) (auto simp: entered_def entry_ok_def Let_def nth_append)
  ultimately show ?thesis by blast
qed

lemma compile_scombs_ok:
  assumes src: "table_ok src" "cafs_end src" "list_all (compilable_scomb src) (scombs src)"
  shows "length (c_finfo cmp) = NUM_BUILTINS + length (scombs src) \<Longrightarrow> distinct is \<Longrightarrow> \<forall>i \<in> set is. i < length (scombs src) \<Longrightarrow>
    \<exists>cmp'. compile_scombs src cmp is = Some cmp' \<and> extends cmp cmp' ((\<lambda>i. NUM_BUILTINS + i) ` set is) \<and>
      (\<forall>i \<in> set is. entry_ok cmp' (NUM_BUILTINS + i) (sc_nargs (scombs src ! i)))"
proof (induction "is" arbitrary: cmp)
  case (Cons i "is")
  let ?sc = "scombs src ! i"
  have i: "i < length (scombs src)" using Cons.prems(3) by simp
  then have "compilable_scomb src ?sc" using src(3) by (simp add: list_all_length)
  from compF_ok [OF src(1,2) this, of "NUM_BUILTINS + i" cmp] Cons.prems(1) i obtain cmp1 where
    1: "compF src cmp (NUM_BUILTINS + i) ?sc = Some cmp1" "extends cmp cmp1 {NUM_BUILTINS + i}" "entry_ok cmp1 (NUM_BUILTINS + i) (sc_nargs ?sc)" by auto
  have "length (c_finfo cmp1) = NUM_BUILTINS + length (scombs src)" using 1(2) Cons.prems(1) by (simp add: extends_def)
  from Cons.IH [OF this] Cons.prems(2,3) obtain cmp' where
    2: "compile_scombs src cmp1 is = Some cmp'" "extends cmp1 cmp' ((\<lambda>i. NUM_BUILTINS + i) ` set is)"
      "\<forall>i \<in> set is. entry_ok cmp' (NUM_BUILTINS + i) (sc_nargs (scombs src ! i))" by auto
  have "entry_ok cmp' (NUM_BUILTINS + i) (sc_nargs ?sc)" by (rule extends_entry [OF 2(2) _ 1(3)]) (use Cons.prems(2) in auto)
  with 1(1) 2 extends_trans [OF 1(2) 2(2)] i show ?case by (simp add: get_scomb_index_def)
qed (simp add: extends_refl)

subsection \<open>Built-in functions\<close>

lemma SPARK_args_runs:
  "stack_is cmp st \<Longrightarrow> \<forall>v \<in> set vs. v < length st \<Longrightarrow> \<exists>cmp' st'. SPARK_args cmp vs = Some cmp' \<and> runs src cmp st cmp' st' \<and> length st' = length st"
proof (induction vs arbitrary: cmp st)
  case (Cons v vs)
  let ?i = "length st - 1 - v"
  from SPARK_runs [OF Cons.prems(1), of ?i "int v" noloc src] Cons.prems(2) obtain cmp1 where
    1: "SPARK cmp noloc (int v) = Some cmp1" "runs src cmp st cmp1 (st[?i := max 1 (st ! ?i)])" by fastforce
  from Cons.IH [OF runs_stack [OF 1(2)]] Cons.prems(2) obtain cmp' st' where
    2: "SPARK_args cmp1 vs = Some cmp'" "runs src cmp1 (st[?i := max 1 (st ! ?i)]) cmp' st'" "length st' = length st" by auto
  from 1 2 runs_trans [OF 1(2) 2(2)] show ?case by auto
qed (auto intro: runs_refl)

text \<open>\<^verbatim>\<open>if\<close> as a function of its own. The second branch leaves the picture of the stack that the jump
  over it arrives with.\<close>

lemma builtin_if_ends:
  assumes st: "stack_is cmp st" "length st = 3"
  shows "ends src cmp st (builtin_if_code cmp)"
proof -
  from PUSH_runs [OF st(1), of 2 0 noloc src] st(2) obtain cmp1 where 1: "PUSH cmp noloc 0 = Some cmp1" "runs src cmp st cmp1 (st @ [st ! 2])" by auto
  from SPARK_top [OF runs_stack [OF 1(2)], of noloc src] obtain cmp2 s where 2: "SPARK cmp1 noloc 0 = Some cmp2" "runs src cmp1 (st @ [st ! 2]) cmp2 (st @ [s])" by blast
  from JFALSE_branches [OF runs_stack [OF 2(2)], of noloc src] obtain cmp3 addr where
    3: "JFALSE cmp2 noloc = Some (cmp3, addr)" "branches src cmp2 (st @ [s]) cmp3 addr st" by blast
  have s3: "stack_is cmp3 st" using 3(2) by (simp add: branches_def)
  from PUSH_runs [OF s3, of 1 1 noloc src] st(2) obtain cmp4 where 4: "PUSH cmp3 noloc 1 = Some cmp4" "runs src cmp3 st cmp4 (st @ [st ! 1])" by auto
  from JUMP_emits [OF runs_stack [OF 4(2)], of noloc src] obtain cmp5 where 5: "JUMP cmp4 noloc = Some (cmp5, length (c_instructions cmp4))" by blast
  let ?cmp6 = "LABEL (freeswap cmp5 (c_si cmp3)) addr"
  have s6: "stack_is ?cmp6 st" using s3 by (simp add: stack_is_def freeswap_def LABEL_def)
  from PUSH_runs [OF s6, of 0 2 noloc src] st(2) obtain cmp7 where 7: "PUSH ?cmp6 noloc 2 = Some cmp7" "runs src ?cmp6 st cmp7 (st @ [st ! 0])" by auto
  let ?cmp8 = "LABEL cmp7 (length (c_instructions cmp4))"
  have "freeswap cmp7 (Some \<lparr>si_status = st @ [st ! 0], si_invalid = False\<rparr>) = cmp7" using runs_stack [OF 7(2)] by (simp add: freeswap_def stack_is_def)
  then have 8: "runs src cmp2 (st @ [s]) ?cmp8 (st @ [st ! 0])" using branch_runs [OF 3(2) 4(2) 5 7(2), of "st @ [st ! 0]"] by simp
  have "ends src ?cmp8 (st @ [st ! 0]) (do { cmp8 \<leftarrow> EVAL ?cmp8 noloc 0; add_instruction cmp8 noloc OP_RETURN 0 0 })"
    by (rule EVAL_ends [OF runs_stack [OF 8]]) (simp_all add: RETURN_ends)
  from runs_ends [OF runs_trans [OF runs_trans [OF 1(2) 2(2)] 8] this] show ?thesis
    using 1(1) 2(1) 3(1) 4(1) 5 7(1) s3 unfolding builtin_if_code_def Let_def by simp
qed

lemma builtin_code_ends:
  assumes i: "i < NUM_BUILTINS" and st: "stack_is cmp st" "length st = bi_nargs (builtin_info ! i)"
  shows "ends src cmp st (builtin_code cmp i)"
proof (cases "i = B_IF")
  case True
  then have "length st = 3" using st(2) by (simp add: builtin_info_def builtin_row_def B_IF_def)
  with True builtin_if_ends [OF st(1)] show ?thesis by (simp add: builtin_code_def Let_def)
next
  case False
  let ?bi = "builtin_info ! i"
  from SPARK_args_runs [OF st(1), of "[0..<bi_nstrict ?bi]" src] builtin_nstrict [OF i] st(2) obtain cmp1 st1 where
    1: "SPARK_args cmp [0..<bi_nstrict ?bi] = Some cmp1" "runs src cmp st cmp1 st1" "length st1 = length st" by auto
  from BIF_runs [OF runs_stack [OF 1(2)] i, of noloc src] 1(3) st(2) obtain cmp2 st2 where
    2: "BIF cmp1 noloc i = Some cmp2" "runs src cmp1 st1 cmp2 st2" "length st2 = 1" by auto
  have ne: "st2 \<noteq> []" using 2(3) by auto
  have "ends src cmp2 st2 (do { cmp3 \<leftarrow> (if bi_reteval ?bi = ALWAYS_VALUE then Some cmp2 else EVAL cmp2 noloc 0); add_instruction cmp3 noloc OP_RETURN 0 0 })"
    using RETURN_ends [OF runs_stack [OF 2(2)] ne, of src noloc]
      EVAL_ends [OF runs_stack [OF 2(2)] ne, where f = "\<lambda>c. add_instruction c noloc OP_RETURN 0 0" and l = noloc and src = src] RETURN_ends by simp
  from runs_ends [OF runs_trans [OF 1(2) 2(2)] this] show ?thesis using False 1(1) 2(1) by (simp add: builtin_code_def Let_def)
qed

lemma compile_builtins_ok:
  "NUM_BUILTINS \<le> length (c_finfo cmp) \<Longrightarrow> distinct is \<Longrightarrow> \<forall>i \<in> set is. i < NUM_BUILTINS \<Longrightarrow>
    \<exists>cmp'. compile_builtins cmp is = Some cmp' \<and> extends cmp cmp' (set is) \<and> (\<forall>i \<in> set is. entry_ok cmp' i (bi_nargs (builtin_info ! i)))"
proof (induction "is" arbitrary: cmp)
  case (Cons i "is")
  let ?bi = "builtin_info ! i" and ?st = "replicate (bi_nargs (builtin_info ! i)) STATUS_UNKNOWN"
  have i: "i < NUM_BUILTINS" "i < length (c_finfo cmp)" using Cons.prems(1,3) by simp_all
  obtain pos cmp0 where 0: "add_string cmp (bi_name ?bi) = (pos, cmp0)" by (metis surj_pair)
  have i0: "c_instructions cmp0 = c_instructions cmp" "c_finfo cmp0 = c_finfo cmp" using add_string_same [OF 0, of source_new] by (auto simp: emits_def same_tables_def)
  define cmp1 where "cmp1 = set_finfo cmp0 i (\<lambda>f. f\<lparr>f_address := here cmp0, f_addressne := here cmp0, f_addressed := here cmp0, f_arity := bi_nargs ?bi, f_name := pos\<rparr>)"
  have i1: "c_instructions cmp1 = c_instructions cmp" "length (c_finfo cmp1) = length (c_finfo cmp)" "extends cmp cmp1 {i}"
    "f_address (c_finfo cmp1 ! i) = here cmp" "f_addressne (c_finfo cmp1 ! i) = here cmp" "f_addressed (c_finfo cmp1 ! i) = here cmp"
    "f_arity (c_finfo cmp1 ! i) = bi_nargs ?bi" using i0 i(2) by (auto simp: cmp1_def extends_def set_finfo_def)
  from GLOBSTART_starts [of ?st "bi_nargs ?bi" cmp1 noloc i] obtain cmp2 where
    2: "add_instruction (with_stack cmp1 ?st) noloc OP_GLOBSTART (int i) (int (bi_nargs ?bi)) = Some cmp2" "stack_is cmp2 ?st"
      "c_instructions cmp2 = c_instructions cmp1 @ [\<lparr>i_opcode = OP_GLOBSTART, i_arg0 = int i, i_arg1 = int (bi_nargs ?bi), i_sl = noloc, i_expcount = int (bi_nargs ?bi)\<rparr>]" and f2: "c_finfo cmp2 = c_finfo cmp1" by auto
  from builtin_code_ends [OF i(1) 2(2), of source_new] obtain cmp3 xs where
    3: "builtin_code cmp2 i = Some cmp3" "emits source_new cmp2 xs cmp3" "starts xs = {}" by (auto simp: ends_def finishes_def dest: consistent_starts)
  let ?cmp3 = "cmp3\<lparr>c_si := c_si cmp\<rparr>"
  have i3: "c_instructions ?cmp3 = c_instructions cmp2 @ xs" "c_finfo ?cmp3 = c_finfo cmp1" using 3(2) f2 by (auto simp: emits_def same_tables_def)
  have e3: "extends cmp ?cmp3 {i}" "entry_ok ?cmp3 i (bi_nargs ?bi)"
    using i1 2(3) i3 3(3) by (auto simp: extends_def entry_ok_def Let_def nth_append)
  have "NUM_BUILTINS \<le> length (c_finfo ?cmp3)" using Cons.prems(1) i3(2) i1(2) by simp
  from Cons.IH [OF this] Cons.prems(2,3) obtain cmp' where
    4: "compile_builtins ?cmp3 is = Some cmp'" "extends ?cmp3 cmp' (set is)" "\<forall>i \<in> set is. entry_ok cmp' i (bi_nargs (builtin_info ! i))" by auto
  have "entry_ok cmp' i (bi_nargs ?bi)" by (rule extends_entry [OF 4(2) _ e3(2)]) (use Cons.prems(2) in simp)
  moreover have "compile_builtins cmp (i # is) = Some cmp'" using 0 2(1) 3(1) 4(1) by (simp add: Let_def cmp1_def)
  ultimately show ?case using 4(3) extends_trans [OF e3(1) 4(2)] by simp
qed (simp add: extends_refl)

subsection \<open>The prologue and the EVAL/DO sequences\<close>

lemma prologue_ok:
  assumes start: "get_scomb src ''__start'' = Some i" "i < length (scombs src)" "sc_nargs (scombs src ! i) = 1" and caf: "cafs_end src"
  shows "\<exists>cmp'. compile_prologue src cmp = Some cmp' \<and> c_finfo cmp' = c_finfo cmp"
proof -
  let ?l = "sc_sl (scombs src ! i)" and ?st = "[STATUS_UNKNOWN]"
  have nargs: "function_nargs src (i + NUM_BUILTINS) = Some 1" using start(2,3) by (simp add: function_nargs_def get_scomb_index_def)
  have "\<exists>cmp'. add_instruction (with_stack cmp ?st) ?l OP_BEGIN 0 0 = Some cmp' \<and> runs src (with_stack cmp ?st) ?st cmp' ?st"
    by (rule add_instruction_runs) (simp_all add: si_defs)
  then obtain cmp1 where 1: "add_instruction (with_stack cmp ?st) ?l OP_BEGIN 0 0 = Some cmp1" "runs src (with_stack cmp ?st) ?st cmp1 ?st" by blast
  from domkframe_pushes [OF runs_stack [OF 1(2)] nargs _ caf, of ?l] obtain cmp2 st2 where
    "domkframe src cmp1 ?l (i + NUM_BUILTINS) 1 = Some cmp2" "runs src cmp1 ?st cmp2 st2" "length st2 = 1" by (auto simp: pushes_def)
  then obtain s where 2: "domkframe src cmp1 ?l (i + NUM_BUILTINS) 1 = Some cmp2" "runs src cmp1 ?st cmp2 ([] @ [s])" by (metis One_nat_def append_Nil length_0_conv length_Suc_conv)
  from SPARK_top [OF runs_stack [OF 2(2)], of ?l src] obtain cmp3 s3 where 3: "SPARK cmp2 ?l 0 = Some cmp3" "runs src cmp2 ([] @ [s]) cmp3 ([] @ [s3])" by blast
  from EVAL_top [OF runs_stack [OF 3(2)], of ?l src] obtain cmp4 s4 where 4: "EVAL cmp3 ?l 0 = Some cmp4" "runs src cmp3 ([] @ [s3]) cmp4 ([] @ [s4])" by blast
  have "\<exists>cmp'. add_instruction cmp4 ?l OP_END 0 0 = Some cmp' \<and> finishes src cmp4 ([] @ [s4]) cmp'"
    by (rule add_instruction_finishes [OF runs_stack [OF 4(2)]]) (simp_all add: si_defs)
  then obtain cmp5 where 5: "add_instruction cmp4 ?l OP_END 0 0 = Some cmp5" "c_finfo cmp5 = c_finfo cmp4" by (auto simp: finishes_def emits_def same_tables_def)
  let ?cmp5 = "cmp5\<lparr>c_erroraddr := here cmp5\<rparr>"
  have "\<exists>cmp'. add_instruction (with_stack ?cmp5 ?st) noloc OP_ERROR 0 0 = Some cmp' \<and> finishes src (with_stack ?cmp5 ?st) ?st cmp'"
    by (rule add_instruction_finishes) (simp_all add: si_defs)
  then obtain cmp6 where 6: "add_instruction (with_stack ?cmp5 ?st) noloc OP_ERROR 0 0 = Some cmp6" "c_finfo cmp6 = c_finfo cmp5"
    by (auto simp: finishes_def emits_def same_tables_def with_stack_def)
  have "c_finfo cmp4 = c_finfo cmp"
    using runs_appends [OF 1(2)] runs_appends [OF 2(2)] runs_appends [OF 3(2)] runs_appends [OF 4(2)] by (auto simp: with_stack_def)
  with 1(1) 2(1) 3(1) 4(1) 5 6 start show ?thesis by (simp add: compile_prologue_def get_scomb_index_def Let_def)
qed

lemma evaldo_ok:
  "1 \<le> i \<Longrightarrow> here cmp = c_evaldoaddr cmp + (i - 1) * 2 \<Longrightarrow> \<exists>cmp'. evaldo_sequences cmp [i..<m] = Some cmp' \<and> extends cmp cmp' {}"
proof (induction "m - i" arbitrary: i cmp)
  case (Suc k)
  let ?st = "replicate i STATUS_UNKNOWN" and ?c = "with_stack cmp (replicate i STATUS_UNKNOWN)"
  have up: "[i..<m] = i # [Suc i..<m]" using Suc.hyps(2) by (simp add: upt_conv_Cons)
  have "EVAL ?c noloc 0 = add_instruction ?c noloc OP_EVAL (int (i - 1)) 0" using Suc.prems(1)
    by (simp add: EVAL_def with_stack_def statusat_def Let_def of_nat_diff)
  moreover have "\<exists>cmp1. add_instruction ?c noloc OP_EVAL (int (i - 1)) 0 = Some cmp1 \<and> c_si cmp1 = Some \<lparr>si_status = ?st[i - 1 := 2], si_invalid = False\<rparr> \<and> emits source_new ?c
      [\<lparr>i_opcode = OP_EVAL, i_arg0 = int (i - 1), i_arg1 = 0, i_sl = noloc, i_expcount = int (length ?st)\<rparr>] cmp1"
    by (rule add_instruction_emits) (use Suc.prems(1) in \<open>simp_all add: si_defs of_nat_diff nat_diff_distrib\<close>)
  ultimately obtain cmp1 ev where 1: "EVAL ?c noloc 0 = Some cmp1" "stack_is cmp1 (?st[i - 1 := 2])" "emits source_new ?c [ev] cmp1" "starts [ev] = {}" by (fastforce simp: stack_is_def)
  have "si_add OP_DO 0 0 \<lparr>si_status = ?st[i - 1 := 2], si_invalid = False\<rparr> = Some \<lparr>si_status = ?st[i - 1 := 2], si_invalid = False\<rparr>" by (simp add: si_defs)
  from add_instruction_emits [OF 1(2) this, of noloc source_new] obtain cmp2 d where 2: "add_instruction cmp1 noloc OP_DO 0 0 = Some cmp2" "emits source_new cmp1 [d] cmp2" "starts [d] = {}" by fastforce
  have h2: "here cmp2 = c_evaldoaddr cmp2 + i * 2" using emits_trans [OF 1(3) 2(2)] Suc.prems
    by (simp add: emits_def same_tables_def with_stack_def algebra_simps)
  have e2: "extends cmp cmp2 {}" using emits_extends [OF emits_trans [OF 1(3) 2(2)]] 1(4) 2(3) by simp
  have "k = m - Suc i" using Suc.hyps(2) by simp
  from Suc.hyps(1) [OF this, of cmp2] h2 obtain cmp' where 3: "evaldo_sequences cmp2 [Suc i..<m] = Some cmp'" "extends cmp2 cmp' {}" by auto
  from extends_trans [OF e2 3(2)] 1(1) 2(1) h2 3(1) show ?case unfolding up by simp
qed (simp add: extends_refl)

lemma compile_evaldo_ok: "\<exists>cmp'. compile_evaldo cmp = Some cmp' \<and> extends cmp cmp' {} \<and> c_si cmp' = None"
proof -
  let ?m = "nat (fold (\<lambda>i mx. if mx = - 1 \<or> mx < i_expcount i then i_expcount i else mx) (c_instructions cmp) (- 1))"
  from evaldo_ok [of 1 "cmp\<lparr>c_evaldoaddr := here cmp\<rparr>" ?m] obtain cmp1 where
    1: "evaldo_sequences (cmp\<lparr>c_evaldoaddr := here cmp\<rparr>) [1..<?m] = Some cmp1" "extends cmp cmp1 {}" by (auto simp: extends_def)
  then show ?thesis by (auto simp: compile_evaldo_def Let_def extends_def)
qed

subsection \<open>The whole program\<close>

definition program_compilable :: "source \<Rightarrow> bool" where
  "program_compilable src \<longleftrightarrow> table_ok src \<and> cafs_end src \<and> list_all (compilable_scomb src) (scombs src) \<and>
     (\<exists>i \<in> set_option (get_scomb src ''__start''). i < length (scombs src) \<and> sc_nargs (scombs src ! i) = 1)"

lemma add_strings_finfo: "c_finfo (add_strings cmp ss) = c_finfo cmp"
  by (induction ss arbitrary: cmp) (auto simp: add_string_def Let_def)

lemma stacksizes_entry:
  "length (stacksizes is fno sz fs) = length fs \<and> f_address (stacksizes is fno sz fs ! g) = f_address (fs ! g) \<and> f_addressne (stacksizes is fno sz fs ! g) = f_addressne (fs ! g) \<and>
     f_addressed (stacksizes is fno sz fs ! g) = f_addressed (fs ! g) \<and> f_arity (stacksizes is fno sz fs ! g) = f_arity (fs ! g)"
proof (induction "is" fno sz fs rule: stacksizes.induct)
  case (1 fno sz fs)
  then show ?case by (cases "length fs \<le> nat fno") (auto simp: nth_list_update list_update_beyond)
next
  case (2 i "is" fno sz fs)
  then show ?case by (cases "length fs \<le> nat fno") (auto simp: nth_list_update list_update_beyond split: if_splits)
qed

lemma entry_stacksizes: "entry_ok cmp fno k \<Longrightarrow> entry_ok (compute_stacksizes cmp) fno k"
  using stacksizes_entry [of "c_instructions cmp" "- 1" 0 "c_finfo cmp" fno] by (simp add: entry_ok_def compute_stacksizes_def Let_def)

text \<open>Once a function has started for the last time, its stack size is the largest height up to
  the start of another one.\<close>

lemma stacksizes_other: "int g \<notin> starts is \<Longrightarrow> fno \<noteq> int g \<Longrightarrow> stacksizes is fno sz fs ! g = fs ! g"
  by (induction "is" fno sz fs rule: stacksizes.induct) (auto split: if_splits)

lemma stacksizes_current:
  "g < length fs \<Longrightarrow> int g \<notin> starts is \<Longrightarrow>
    sz \<le> f_stacksize (stacksizes is (int g) sz fs ! g) \<and>
    (\<forall>a < length is. starts (take (Suc a) is) = {} \<longrightarrow> i_expcount (is ! a) \<le> f_stacksize (stacksizes is (int g) sz fs ! g))"
proof (induction "is" arbitrary: sz fs)
  case (Cons i "is")
  show ?case
  proof (cases "i_opcode i = OP_GLOBSTART")
    case True
    then have "int g \<notin> starts is" "i_arg0 i \<noteq> int g" using Cons.prems(2) by auto
    from stacksizes_other [OF this] show ?thesis using True Cons.prems by auto
  next
    case False
    let ?sz = "if sz < i_expcount i then i_expcount i else sz"
    have "stacksizes (i # is) (int g) sz fs = stacksizes is (int g) ?sz fs" "starts (take (Suc a) (i # is)) = starts (take a is)" for a
      using False by simp_all
    moreover have "int g \<notin> starts is" using Cons.prems(2) by simp
    ultimately show ?thesis using Cons.IH [OF Cons.prems(1), of ?sz] by (auto simp: less_Suc_eq_0_disj split: if_splits)
  qed
qed simp

lemma stacksizes_bound:
  assumes "g < length fs" "int g \<notin> starts (drop (Suc n) is)" "n < length is" "i_opcode (is ! n) = OP_GLOBSTART" "i_arg0 (is ! n) = int g"
    and "n \<le> a" "a < length is" "starts (drop (Suc n) (take (Suc a) is)) = {}"
  shows "i_expcount (is ! a) \<le> f_stacksize (stacksizes is fno sz fs ! g)"
  using assms
proof (induction "is" arbitrary: n a fno sz fs)
  case (Cons i "is")
  show ?case
  proof (cases n)
    case 0
    let ?fs = "if fno \<noteq> int g \<and> 0 \<le> fno then fs[nat fno := (fs ! nat fno)\<lparr>f_stacksize := sz\<rparr>] else fs"
    have "stacksizes (i # is) fno sz fs = stacksizes is (int g) (if fno = int g \<and> \<not> sz < i_expcount i then sz else i_expcount i) ?fs"
      using Cons.prems(4,5) 0 by auto
    moreover have "length ?fs = length fs" "i_expcount i \<le> (if fno = int g \<and> \<not> sz < i_expcount i then sz else i_expcount i)" by simp_all
    ultimately obtain sz' fs' where s: "i_expcount i \<le> sz'" "length fs' = length fs" "stacksizes (i # is) fno sz fs = stacksizes is (int g) sz' fs'" by blast
    from stacksizes_current [of g fs' "is" sz'] Cons.prems 0 s show ?thesis by (cases a) auto
  next
    case (Suc m)
    then obtain b where b: "a = Suc b" using Cons.prems(6) by (cases a) auto
    have "\<exists>fno' sz' fs'. length fs' = length fs \<and> stacksizes (i # is) fno sz fs = stacksizes is fno' sz' fs'"
      by (cases "i_opcode i = OP_GLOBSTART \<and> fno \<noteq> i_arg0 i"; auto intro: exI [of _ fs]) (metis length_list_update)
    then show ?thesis using Cons.IH [of _ m b] Cons.prems Suc b by fastforce
  qed
qed simp

text \<open>\<^verbatim>\<open>f x y = if (== x 0) (letrec z = (+ y 1) in (cons z nil)) (f (- x 1) y)\<close> and \<^verbatim>\<open>__start args = f 3 args\<close>\<close>

definition compile_example :: source where
  "compile_example =
     (let call = Application noloc; x = Symbol noloc ''x''; y = Symbol noloc ''y''; z = Symbol noloc ''z'';
          bif = (\<lambda>b u v. call True (call True (Builtin noloc b) u) v);
          cell = call False (call False (Builtin noloc B_CONS) z) (NilNode noloc);
          bindz = LetrecNode noloc [Letrec ''z'' (bif 0 y (Number noloc 0x3FF0000000000000)) False None] cell;
          again = call False (call True (Scref noloc 0) (bif 1 x (Number noloc 0x3FF0000000000000))) y;
          cond = call False (call False (call True (Builtin noloc B_IF) (bif B_EQ x (Number noloc 0))) bindz) again;
          start = call False (call True (Scref noloc 0) (Number noloc 0x4008000000000000)) (Symbol noloc ''args'');
          src = snd (add_scomb (snd (add_scomb source_new ''f'')) ''__start'')
      in update_scomb (update_scomb src 0 (\<lambda>sc. sc\<lparr>sc_argnames := [''x'', ''y''], sc_strictin := Some [True, False], sc_body := Some cond\<rparr>)) 1
           (\<lambda>sc. sc\<lparr>sc_argnames := [''args''], sc_strictin := Some [False], sc_body := Some start\<rparr>))"

lemma in_range_code [code]: "in_range p n vs \<longleftrightarrow> (\<forall>x \<in> vs. case presolve p x of Some i \<Rightarrow> 1 \<le> i \<and> i \<le> n | None \<Rightarrow> False)"
  by (auto simp: in_range_def split: option.splits)

lemma compile_example_ok: "program_compilable compile_example"
  by code_simp



lemma compile_entries:
  assumes "program_compilable src"
  shows "\<exists>cmp cmp5. compile src = Some cmp \<and> cmp = compute_stacksizes cmp5 \<and> length (c_finfo cmp) = NUM_BUILTINS + length (scombs src) \<and>
    (\<forall>fno < NUM_BUILTINS + length (scombs src). \<exists>k. function_nargs src fno = Some k \<and> entry_ok cmp fno k)"
proof -
  let ?n = "length (scombs src)"
  from assms obtain i where src: "table_ok src" "cafs_end src" "list_all (compilable_scomb src) (scombs src)"
    and i: "get_scomb src ''__start'' = Some i" "i < ?n" "sc_nargs (scombs src ! i) = 1" by (auto simp: program_compilable_def)
  from prologue_ok [OF i src(2), of "compilation_new src"] obtain cmp1 where
    1: "compile_prologue src (compilation_new src) = Some cmp1" "length (c_finfo cmp1) = NUM_BUILTINS + ?n"
    by (auto simp: compilation_new_def add_strings_finfo)
  from compile_scombs_ok [OF src 1(2), of "[0..<?n]"] obtain cmp2 where
    2: "compile_scombs src cmp1 [0..<?n] = Some cmp2" "extends cmp1 cmp2 ((\<lambda>i. NUM_BUILTINS + i) ` {..<?n})"
      "\<forall>i < ?n. entry_ok cmp2 (NUM_BUILTINS + i) (sc_nargs (scombs src ! i))" by (auto simp: atLeast0LessThan)
  have l2: "NUM_BUILTINS \<le> length (c_finfo cmp2)" using 1(2) 2(2) by (simp add: extends_def)
  from compile_builtins_ok [OF l2, of "[0..<NUM_BUILTINS]"] obtain cmp3 where
    3: "compile_builtins cmp2 [0..<NUM_BUILTINS] = Some cmp3" "extends cmp2 cmp3 {..<NUM_BUILTINS}"
      "\<forall>i < NUM_BUILTINS. entry_ok cmp3 i (bi_nargs (builtin_info ! i))" by (auto simp: atLeast0LessThan)
  from compile_evaldo_ok [of cmp3] obtain cmp4 where 4: "compile_evaldo cmp3 = Some cmp4" "extends cmp3 cmp4 {}" "c_si cmp4 = None" by blast
  from 4(3) obtain cmp5 where 5: "add_instruction cmp4 noloc OP_INVALID 0 0 = Some cmp5" "extends cmp4 cmp5 {}"
    by (auto simp: add_instruction_def Let_def extends_def)
  note e35 = extends_trans [OF 4(2) 5(2), simplified]
  have "entry_ok cmp5 (NUM_BUILTINS + j) (sc_nargs (scombs src ! j))" if "j < ?n" for j
    by (rule extends_entry [OF e35 _ extends_entry [OF 3(2)]]) (use 2(3) that in auto)
  moreover have "entry_ok cmp5 j (bi_nargs (builtin_info ! j))" if "j < NUM_BUILTINS" for j
    by (rule extends_entry [OF e35]) (use 3(3) that in auto)
  moreover have "\<exists>k. function_nargs src fno = Some k \<and> entry_ok (compute_stacksizes cmp5) fno k" if "fno < NUM_BUILTINS + ?n" for fno
  proof (cases "fno < NUM_BUILTINS")
    case False
    then obtain j where "fno = NUM_BUILTINS + j" by (metis le_Suc_ex not_less)
    then show ?thesis using that calculation(1) [of j] entry_stacksizes [of cmp5] by (simp add: function_nargs_def get_scomb_index_def)
  qed (use calculation(2) entry_stacksizes [of cmp5] in \<open>simp add: function_nargs_def\<close>)
  moreover have "length (c_finfo (compute_stacksizes cmp5)) = NUM_BUILTINS + ?n"
    using 1(2) 2(2) 3(2) e35 by (simp add: extends_def compute_stacksizes_def stacksizes_entry)
  moreover have "compile src = Some (compute_stacksizes cmp5)" using 1(1) 2(1) 3(1) 4(1) 5(1) by (simp add: compile_def)
  ultimately show ?thesis by blast
qed



subsection \<open>Constants that refer to each other\<close>

text \<open>The compiler does not return on supercombinators without arguments that refer to each other in a cycle,
  such as \<^verbatim>\<open>a = b\<close> and \<^verbatim>\<open>b = a\<close>: following the references never ends.\<close>

theorem caf_cycle_diverges:
  assumes "\<And>i. i \<in> S \<Longrightarrow> i < length (scombs src) \<and> sc_nargs (scombs src ! i) = 0 \<and> (\<exists>l j. sc_body (scombs src ! i) = Some (Scref l j) \<and> j \<in> S)"
    and "i \<in> S"
  shows "domkframe src cmp l (i + NUM_BUILTINS) 0 = None"
proof (rule ccontr)
  assume "domkframe src cmp l (i + NUM_BUILTINS) 0 \<noteq> None"
  then obtain cmp' where "domkframe src cmp l (i + NUM_BUILTINS) 0 = Some cmp'" by blast
  moreover have "s = src \<longrightarrow> (\<forall>i \<in> S. fno \<noteq> i + NUM_BUILTINS)" if d: "domkframe s c l fno n = Some c'" for s c l fno n c'
    using d
  proof (induction s c l fno n c' rule: domkframe.raw_induct [rotated, consumes 1, case_names step])
    case (step mk s c l fno n c')
    show ?case
    proof (intro impI ballI notI)
      fix i assume i: "s = src" "i \<in> S" "fno = i + NUM_BUILTINS"
      from assms(1) [OF i(2)] obtain l1 j where j: "i < length (scombs src)" "sc_nargs (scombs src ! i) = 0" "sc_body (scombs src ! i) = Some (Scref l1 j)" "j \<in> S" by blast
      from assms(1) [OF j(4)] have "function_nargs src (j + NUM_BUILTINS) = Some 0" by (simp add: function_nargs_def get_scomb_index_def)
      with step(2) i j have "mk s c l1 (j + NUM_BUILTINS) 0 = Some c'" by (simp add: get_scomb_index_def split: if_splits)
      from step(1) [OF this] i(1) j(4) show False by blast
    qed
  qed
  ultimately show False using assms(2) by blast
qed

definition caf_example :: source where
  "caf_example =
     (let src = snd (add_scomb (snd (add_scomb source_new ''a'')) ''b'')
      in update_scomb (update_scomb src 0 (\<lambda>sc. sc\<lparr>sc_body := Some (Scref noloc 1)\<rparr>)) 1 (\<lambda>sc. sc\<lparr>sc_body := Some (Scref noloc 0)\<rparr>))"

theorem caf_cycle_diverges_witness: "domkframe caf_example (compilation_new caf_example) noloc (1 + NUM_BUILTINS) 0 = None"
proof -
  have "length (scombs caf_example) = 2 \<and> sc_nargs (scombs caf_example ! 0) = 0 \<and> sc_nargs (scombs caf_example ! 1) = 0 \<and>
      sc_body (scombs caf_example ! 0) = Some (Scref noloc 1) \<and> sc_body (scombs caf_example ! 1) = Some (Scref noloc 0)" by code_simp
  then have "i < length (scombs caf_example) \<and> sc_nargs (scombs caf_example ! i) = 0 \<and> (\<exists>l j. sc_body (scombs caf_example ! i) = Some (Scref l j) \<and> j \<in> {0, 1})"
    if "i = 0 \<or> i = 1" for i using that by auto
  then have "i < length (scombs caf_example) \<and> sc_nargs (scombs caf_example ! i) = 0 \<and> (\<exists>l j. sc_body (scombs caf_example ! i) = Some (Scref l j) \<and> j \<in> {0, 1})"
    if "i \<in> {0, 1}" for i using that by blast
  from caf_cycle_diverges [OF this, of 1] show ?thesis by simp
qed

subsection \<open>Marks of the started arguments\<close>

text \<open>A supercombinator that the non-strict lifting pass made marks its started arguments in the wrong order: the
  place of an argument on the stack is the distance from the last argument, its mark is at the
  distance from the first one. With two arguments of which the first is strict, the second
  one is marked as started.\<close>

theorem nospark_marks_mirrored:
  fixes sc :: scomb
  assumes "sc_nospark sc" "sc_argnames sc = [x, y]" "x \<noteq> y" "sc_strictin sc = Some [True, False]"
  shows "\<exists>cmp'. F_entry cmp fno sc = Some cmp' \<and> stack_is cmp' [STATUS_SPARKED, STATUS_UNKNOWN] \<and>
    presolve (arg_map sc) x = Some 2 \<and> presolve (arg_map sc) y = Some 1"
proof -
  have "map (\<lambda>i. if [True, False] ! i then STATUS_SPARKED else STATUS_UNKNOWN) [0..<2] = [STATUS_SPARKED, STATUS_UNKNOWN]" by (simp add: upt_rec)
  moreover have "presolve (arg_map sc) x = Some 2" "presolve (arg_map sc) y = Some 1" using assms(2,3) by (simp_all add: arg_map_def presolve_def)
  ultimately show ?thesis using assms GLOBSTART_starts [of "[STATUS_SPARKED, STATUS_UNKNOWN]" 2 cmp "sc_sl sc" fno]
    by (auto simp: F_entry_def)
qed

theorem nospark_marks_mirrored_witness:
  "\<exists>cmp'. F_entry (compilation_new source_new) 0 (scomb_zero\<lparr>sc_nospark := True, sc_argnames := [''x'', ''y''], sc_strictin := Some [True, False]\<rparr>) = Some cmp' \<and>
     stack_is cmp' [STATUS_SPARKED, STATUS_UNKNOWN]"
  using nospark_marks_mirrored [of "scomb_zero\<lparr>sc_nospark := True, sc_argnames := [''x'', ''y''], sc_strictin := Some [True, False]\<rparr>" "''x''" "''y''" "compilation_new source_new" 0]
  by auto

end
