(* ===== verification/Code_Image.thy ===== *)
theory Code_Image
  imports Code_Program
begin

text \<open>
  The bytecode image, \<^verbatim>\<open>gen_bytecode\<close> and the \<^verbatim>\<open>bc_\<close> functions of \<^verbatim>\<open>compiler/bytecode.c\<close>: the block of
  memory that the compiler hands to the run time and that a launcher sends to every task. The
  program is built for a 32-bit x86 (\<^verbatim>\<open>-m32\<close>), so an \<^verbatim>\<open>int\<close> and a pointer take four bytes, least
  significant first, and no structure is padded. The block that \<^verbatim>\<open>malloc\<close> returns has any contents:
  they are the parameter \<open>fresh\<close>.
\<close>

subsection \<open>Structures as bytes\<close>

definition SIZEOF_BCHEADER :: nat where
  "SIZEOF_BCHEADER = 40"

definition SIZEOF_INSTRUCTION :: nat where
  "SIZEOF_INSTRUCTION = 28"

definition SIZEOF_FUNINFO :: nat where
  "SIZEOF_FUNINFO = 24"

lemmas sizeof_defs = SIZEOF_BCHEADER_def SIZEOF_INSTRUCTION_def SIZEOF_FUNINFO_def

definition opcode_values :: "opcode list" where
  "opcode_values =
     [OP_BEGIN, OP_END, OP_GLOBSTART, OP_SPARK, OP_RETURN, OP_DO, OP_JFUN, OP_JFALSE, OP_JUMP,
      OP_PUSH, OP_UPDATE, OP_ALLOC, OP_SQUEEZE, OP_MKCAP, OP_MKFRAME, OP_BIF, OP_PUSHNIL,
      OP_PUSHNUMBER, OP_PUSHSTRING, OP_POP, OP_ERROR, OP_EVAL, OP_CALL, OP_JCMP, OP_CONSN,
      OP_ITEMN, OP_JEQ, OP_INVALID]"

definition opcode_number :: "opcode \<Rightarrow> int" where
  "opcode_number oc = int (length (takeWhile (\<lambda>oc'. oc' \<noteq> oc) opcode_values))"

definition byte_of_char :: "char \<Rightarrow> byte" where
  "byte_of_char c = word_of_nat (of_char c)"

definition char_of_byte :: "byte \<Rightarrow> char" where
  "char_of_byte b = char_of (unat b)"

definition int_bytes :: "int \<Rightarrow> byte list" where
  "int_bytes n = le32 (word_of_int n)"

definition ints_bytes :: "int list \<Rightarrow> byte list" where
  "ints_bytes ns = concat (map int_bytes ns)"

text \<open>The last word of an instruction is the pointer \<^verbatim>\<open>code\<close>, which only the native code generator sets.\<close>

definition instruction_bytes :: "instruction \<Rightarrow> byte list" where
  "instruction_bytes i =
     ints_bytes [opcode_number (i_opcode i), i_arg0 i, i_arg1 i, fileno (i_sl i), lineno (i_sl i), i_expcount i, 0]"

definition funinfo_bytes :: "funinfo \<Rightarrow> byte list" where
  "funinfo_bytes f =
     ints_bytes [int (f_address f), int (f_addressne f), int (f_addressed f), int (f_arity f), f_stacksize f, int (f_name f)]"

definition bcheader_bytes :: "compilation \<Rightarrow> byte list" where
  "bcheader_bytes cmp =
     map byte_of_char ''NREDUCE BYTECODE'' @
     ints_bytes [int (length (c_instructions cmp)), int (length (c_finfo cmp)), int (length (c_stringmap cmp)),
                 int (c_evaldoaddr cmp), int (c_erroraddr cmp), int (c_itemfno cmp)]"

definition cstring_bytes :: "string \<Rightarrow> byte list" where
  "cstring_bytes str = map byte_of_char str @ [0]"

subsection \<open>Writing the image\<close>

text \<open>A copy that would leave the block has no result.\<close>

definition memcpy_at :: "byte list \<Rightarrow> nat \<Rightarrow> byte list \<Rightarrow> byte list option" where
  "memcpy_at bcdata pos bytes =
     (if pos + length bytes \<le> length bcdata then Some (take pos bcdata @ bytes @ drop (pos + length bytes) bcdata) else None)"

fun strings_size :: "string list \<Rightarrow> nat" where
  "strings_size [] = 0"
| "strings_size (str # strs) = length str + 1 + strings_size strs"

definition image_size :: "compilation \<Rightarrow> nat" where
  "image_size cmp =
     SIZEOF_BCHEADER + length (c_instructions cmp) * SIZEOF_INSTRUCTION + length (c_finfo cmp) * SIZEOF_FUNINFO +
     length (c_stringmap cmp) * 4 + strings_size (c_stringmap cmp)"

fun write_strings :: "byte list \<Rightarrow> nat \<Rightarrow> nat \<Rightarrow> string list \<Rightarrow> (byte list \<times> nat) option" where
  "write_strings bcdata pos strpos [] = Some (bcdata, strpos)"
| "write_strings bcdata pos strpos (str # strs) =
     do { bcdata1 \<leftarrow> memcpy_at bcdata pos (int_bytes (int strpos));
          bcdata2 \<leftarrow> memcpy_at bcdata1 strpos (cstring_bytes str);
          write_strings bcdata2 (pos + 4) (strpos + length str + 1) strs }"

definition gen_bytecode :: "(nat \<Rightarrow> byte list) \<Rightarrow> compilation \<Rightarrow> byte list option" where
  "gen_bytecode fresh cmp =
     (let size = image_size cmp; pos0 = SIZEOF_BCHEADER;
          code = concat (map instruction_bytes (c_instructions cmp));
          pos1 = pos0 + length code;
          pos2 = pos1 + length (c_finfo cmp) * SIZEOF_FUNINFO;
          strpos = pos2 + length (c_stringmap cmp) * 4
      in do { bcdata1 \<leftarrow> memcpy_at (fresh size) 0 (bcheader_bytes cmp);
              bcdata2 \<leftarrow> memcpy_at bcdata1 pos0 code;
              bcdata3 \<leftarrow> memcpy_at bcdata2 pos1 (concat (map funinfo_bytes (c_finfo cmp)));
              (bcdata4, strpos1) \<leftarrow> write_strings bcdata3 pos2 strpos (c_stringmap cmp);
              if strpos1 = size then Some bcdata4 else None })"

subsection \<open>Reading the image\<close>

definition read_int :: "byte list \<Rightarrow> nat \<Rightarrow> int option" where
  "read_int bcdata pos = (if pos + 4 \<le> length bcdata then Some (sint (of_le32 (take 4 (drop pos bcdata)))) else None)"

text \<open>The header fields the readers use, at their offsets in the structure.\<close>

definition bch_nops :: "byte list \<Rightarrow> int option" where
  "bch_nops bcdata = read_int bcdata 16"

definition bch_nfunctions :: "byte list \<Rightarrow> int option" where
  "bch_nfunctions bcdata = read_int bcdata 20"

definition bch_nstrings :: "byte list \<Rightarrow> int option" where
  "bch_nstrings bcdata = read_int bcdata 24"

definition bch_evaldoaddr :: "byte list \<Rightarrow> int option" where
  "bch_evaldoaddr bcdata = read_int bcdata 28"

definition bch_erroraddr :: "byte list \<Rightarrow> int option" where
  "bch_erroraddr bcdata = read_int bcdata 32"

definition bch_itemfno :: "byte list \<Rightarrow> int option" where
  "bch_itemfno bcdata = read_int bcdata 36"

text \<open>The readers give positions in the image; \<open>instruction_at\<close> and \<open>funinfo_at\<close> are what is found there.\<close>

definition bc_instructions :: "byte list \<Rightarrow> nat" where
  "bc_instructions bcdata = SIZEOF_BCHEADER"

definition bc_funinfo :: "byte list \<Rightarrow> nat option" where
  "bc_funinfo bcdata = do { nops \<leftarrow> bch_nops bcdata; Some (nat (int SIZEOF_BCHEADER + nops * int SIZEOF_INSTRUCTION)) }"

definition instruction_at :: "byte list \<Rightarrow> nat \<Rightarrow> instruction option" where
  "instruction_at bcdata pos =
     do { oc \<leftarrow> read_int bcdata pos; a \<leftarrow> read_int bcdata (pos + 4); b \<leftarrow> read_int bcdata (pos + 8);
          fl \<leftarrow> read_int bcdata (pos + 12); ln \<leftarrow> read_int bcdata (pos + 16); ex \<leftarrow> read_int bcdata (pos + 20);
          if 0 \<le> oc \<and> oc < int (length opcode_values)
          then Some \<lparr>i_opcode = opcode_values ! nat oc, i_arg0 = a, i_arg1 = b, i_sl = \<lparr>fileno = fl, lineno = ln\<rparr>, i_expcount = ex\<rparr>
          else None }"

definition funinfo_at :: "byte list \<Rightarrow> nat \<Rightarrow> funinfo option" where
  "funinfo_at bcdata pos =
     do { ad \<leftarrow> read_int bcdata pos; ne \<leftarrow> read_int bcdata (pos + 4); ed \<leftarrow> read_int bcdata (pos + 8);
          ar \<leftarrow> read_int bcdata (pos + 12); sz \<leftarrow> read_int bcdata (pos + 16); nm \<leftarrow> read_int bcdata (pos + 20);
          Some \<lparr>f_address = nat ad, f_addressne = nat ne, f_addressed = nat ed, f_arity = nat ar, f_stacksize = sz, f_name = nat nm\<rparr> }"

definition cstring_at :: "byte list \<Rightarrow> nat \<Rightarrow> string option" where
  "cstring_at bcdata pos =
     (let bytes = takeWhile (\<lambda>b. b \<noteq> 0) (drop pos bcdata)
      in if pos + length bytes < length bcdata then Some (map char_of_byte bytes) else None)"

definition bc_string :: "byte list \<Rightarrow> nat \<Rightarrow> string option" where
  "bc_string bcdata sno =
     do { nops \<leftarrow> bch_nops bcdata; nfunctions \<leftarrow> bch_nfunctions bcdata;
          let pos = nat (int SIZEOF_BCHEADER + nops * int SIZEOF_INSTRUCTION + nfunctions * int SIZEOF_FUNINFO);
          offset \<leftarrow> read_int bcdata (pos + 4 * sno);
          cstring_at bcdata (nat offset) }"

definition bc_function_name :: "byte list \<Rightarrow> int \<Rightarrow> string option" where
  "bc_function_name bcdata fno =
     (if 0 > fno then Some ''(unknown)''
      else do { finfo \<leftarrow> bc_funinfo bcdata;
                f \<leftarrow> funinfo_at bcdata (finfo + nat fno * SIZEOF_FUNINFO);
                bc_string bcdata (f_name f) })"

subsection \<open>Reading back what was written\<close>

definition int32 :: "int \<Rightarrow> bool" where
  "int32 n \<longleftrightarrow> - (2 ^ 31) \<le> n \<and> n < 2 ^ 31"

lemma length_int_bytes [simp]: "length (int_bytes n) = 4"
  by (simp add: int_bytes_def)

lemma length_ints_bytes [simp]: "length (ints_bytes ns) = 4 * length ns"
  by (induction ns) (simp_all add: ints_bytes_def)

lemma sint_int_bytes: "int32 n \<Longrightarrow> sint (of_le32 (int_bytes n)) = n"
  by (simp add: int_bytes_def int32_def sint_sbintrunc' signed_take_bit_int_eq_self)

lemma read_int_at: "int32 n \<Longrightarrow> read_int (pre @ int_bytes n @ post) (length pre) = Some n"
  by (simp add: read_int_def sint_int_bytes)

lemma read_ints_at:
  assumes "k < length ns" "list_all int32 ns" "pos = length pre + 4 * k"
  shows "read_int (pre @ ints_bytes ns @ post) pos = Some (ns ! k)"
proof -
  have "ns = take k ns @ (ns ! k) # drop (Suc k) ns" using assms(1) by (rule id_take_nth_drop)
  then have "ints_bytes ns = ints_bytes (take k ns) @ int_bytes (ns ! k) @ ints_bytes (drop (Suc k) ns)"
    unfolding ints_bytes_def by (metis concat.simps(2) concat_append list.simps(9) map_append)
  moreover have "int32 (ns ! k)" using assms(1,2) by (simp add: list_all_length)
  ultimately show ?thesis using read_int_at [of "ns ! k" "pre @ ints_bytes (take k ns)"] assms(1,3) by simp
qed

lemma opcode_values_nth: "0 \<le> opcode_number oc \<and> opcode_number oc < int (length opcode_values) \<and> opcode_values ! nat (opcode_number oc) = oc"
  by (cases oc) (simp_all add: opcode_number_def opcode_values_def)

lemma int32_opcode: "int32 (opcode_number oc)"
  by (cases oc) (simp_all add: int32_def opcode_number_def opcode_values_def)

definition instruction_fits :: "instruction \<Rightarrow> bool" where
  "instruction_fits i \<longleftrightarrow> list_all int32 [i_arg0 i, i_arg1 i, fileno (i_sl i), lineno (i_sl i), i_expcount i]"

definition funinfo_fits :: "funinfo \<Rightarrow> bool" where
  "funinfo_fits f \<longleftrightarrow>
     list_all int32 [int (f_address f), int (f_addressne f), int (f_addressed f), int (f_arity f), f_stacksize f, int (f_name f)]"

lemma instruction_at_bytes:
  assumes "instruction_fits i" "pos = length pre"
  shows "instruction_at (pre @ instruction_bytes i @ post) pos = Some i"
proof -
  let ?ns = "[opcode_number (i_opcode i), i_arg0 i, i_arg1 i, fileno (i_sl i), lineno (i_sl i), i_expcount i, 0]"
  have "list_all int32 ?ns" using assms(1) by (simp add: instruction_fits_def int32_opcode) (simp add: int32_def)
  then have "read_int (pre @ instruction_bytes i @ post) (pos + 4 * k) = Some (?ns ! k)" if "k < 7" for k
    unfolding instruction_bytes_def by (rule read_ints_at [rotated]) (use that assms(2) in simp_all)
  from this [of 0] this [of 1] this [of 2] this [of 3] this [of 4] this [of 5] show ?thesis
    using opcode_values_nth [of "i_opcode i"] by (simp add: instruction_at_def numeral_eq_Suc)
qed

lemma funinfo_at_bytes:
  assumes "funinfo_fits f" "pos = length pre"
  shows "funinfo_at (pre @ funinfo_bytes f @ post) pos = Some f"
proof -
  let ?ns = "[int (f_address f), int (f_addressne f), int (f_addressed f), int (f_arity f), f_stacksize f, int (f_name f)]"
  have "list_all int32 ?ns" using assms(1) by (simp add: funinfo_fits_def)
  then have "read_int (pre @ funinfo_bytes f @ post) (pos + 4 * k) = Some (?ns ! k)" if "k < 6" for k
    unfolding funinfo_bytes_def by (rule read_ints_at [rotated]) (use that assms(2) in simp_all)
  from this [of 0] this [of 1] this [of 2] this [of 3] this [of 4] this [of 5] show ?thesis
    by (simp add: funinfo_at_def numeral_eq_Suc)
qed

lemma char_of_byte_of_char [simp]: "char_of_byte (byte_of_char c) = c"
  by (simp add: char_of_byte_def byte_of_char_def unat_of_nat)

lemma cstring_at_bytes:
  assumes "CHR 0x00 \<notin> set str" "pos = length pre"
  shows "cstring_at (pre @ cstring_bytes str @ post) pos = Some str"
proof -
  have nz: "byte_of_char c \<noteq> 0" if "c \<in> set str" for c
  proof
    assume "byte_of_char c = 0"
    then have "c = char_of_byte 0" by (metis char_of_byte_of_char)
    then show False using assms(1) that by (simp add: char_of_byte_def char_of_def)
  qed
  then have "takeWhile (\<lambda>b. b \<noteq> (0 :: byte)) (map byte_of_char str @ 0 # post) = map byte_of_char str" by (subst takeWhile_append2) auto
  moreover have "drop pos (pre @ cstring_bytes str @ post) = map byte_of_char str @ 0 # post" using assms(2) by (simp add: cstring_bytes_def)
  ultimately show ?thesis using assms(2) by (simp add: cstring_at_def Let_def cstring_bytes_def comp_def)
qed

subsection \<open>The layout\<close>

lemma memcpy_at_middle: "length old = length bytes \<Longrightarrow> pos = length pre \<Longrightarrow> memcpy_at (pre @ old @ post) pos bytes = Some (pre @ bytes @ post)"
  by (simp add: memcpy_at_def)

fun string_offsets :: "nat \<Rightarrow> string list \<Rightarrow> int list" where
  "string_offsets pos [] = []"
| "string_offsets pos (str # strs) = int pos # string_offsets (pos + length str + 1) strs"

lemma length_string_offsets [simp]: "length (string_offsets pos strs) = length strs"
  by (induction strs arbitrary: pos) simp_all

lemma length_concat_cstrings: "length (concat (map cstring_bytes strs)) = strings_size strs"
  by (induction strs) (simp_all add: cstring_bytes_def)

lemma split_length: "length xs = m + n \<Longrightarrow> \<exists>us vs. xs = us @ vs \<and> length us = m \<and> length vs = n"
  by (rule exI [of _ "take m xs"], rule exI [of _ "drop m xs"]) simp

text \<open>The table of offsets and the strings are filled side by side.\<close>

lemma write_strings_layout:
  "length table = 4 * length strs \<Longrightarrow> length rest = strings_size strs \<Longrightarrow> pos = length pre \<Longrightarrow> strpos = length (pre @ table @ strdata) \<Longrightarrow>
    write_strings (pre @ table @ strdata @ rest) pos strpos strs =
      Some (pre @ ints_bytes (string_offsets strpos strs) @ strdata @ concat (map cstring_bytes strs), strpos + strings_size strs)"
proof (induction strs arbitrary: pre table strdata rest pos strpos)
  case (Cons str strs)
  from Cons.prems(1) obtain u table' where t: "table = u @ table'" "length u = 4" "length table' = 4 * length strs"
    using split_length [of table 4 "4 * length strs"] by auto
  from Cons.prems(2) obtain v rest' where r: "rest = v @ rest'" "length v = length str + 1" "length rest' = strings_size strs"
    using split_length [of rest "length str + 1" "strings_size strs"] by auto
  let ?off = "int_bytes (int strpos)"
  have 1: "memcpy_at (pre @ table @ strdata @ rest) pos ?off = Some (pre @ ?off @ table' @ strdata @ rest)"
    using memcpy_at_middle [of u ?off pos pre "table' @ strdata @ rest"] t Cons.prems(3) by simp
  have 2: "memcpy_at (pre @ ?off @ table' @ strdata @ rest) strpos (cstring_bytes str) =
      Some ((pre @ ?off) @ table' @ (strdata @ cstring_bytes str) @ rest')"
    using memcpy_at_middle [of v "cstring_bytes str" strpos "pre @ ?off @ table' @ strdata" rest'] t r Cons.prems(4) by (simp add: cstring_bytes_def)
  have "write_strings ((pre @ ?off) @ table' @ (strdata @ cstring_bytes str) @ rest') (pos + 4) (strpos + length str + 1) strs =
      Some ((pre @ ?off) @ ints_bytes (string_offsets (strpos + length str + 1) strs) @ (strdata @ cstring_bytes str) @ concat (map cstring_bytes strs),
        strpos + length str + 1 + strings_size strs)"
    by (rule Cons.IH) (use t r Cons.prems in \<open>simp_all add: cstring_bytes_def\<close>)
  with 1 2 show ?case by (simp add: ints_bytes_def)
qed (simp add: ints_bytes_def)

lemma length_code: "length (concat (map instruction_bytes is)) = SIZEOF_INSTRUCTION * length is"
  by (induction "is") (simp_all add: instruction_bytes_def sizeof_defs)

lemma length_finfo: "length (concat (map funinfo_bytes fs)) = SIZEOF_FUNINFO * length fs"
  by (induction fs) (simp_all add: funinfo_bytes_def sizeof_defs)

lemma length_bcheader: "length (bcheader_bytes cmp) = SIZEOF_BCHEADER"
  by (simp add: bcheader_bytes_def sizeof_defs)

definition strings_start :: "compilation \<Rightarrow> nat" where
  "strings_start cmp =
     SIZEOF_BCHEADER + SIZEOF_INSTRUCTION * length (c_instructions cmp) + SIZEOF_FUNINFO * length (c_finfo cmp) + 4 * length (c_stringmap cmp)"

lemma gen_bytecode_layout:
  assumes "length (fresh (image_size cmp)) = image_size cmp"
  shows "gen_bytecode fresh cmp =
    Some (bcheader_bytes cmp @ concat (map instruction_bytes (c_instructions cmp)) @ concat (map funinfo_bytes (c_finfo cmp)) @
      ints_bytes (string_offsets (strings_start cmp) (c_stringmap cmp)) @ concat (map cstring_bytes (c_stringmap cmp)))"
proof -
  let ?hd = "bcheader_bytes cmp" and ?code = "concat (map instruction_bytes (c_instructions cmp))" and ?fi = "concat (map funinfo_bytes (c_finfo cmp))"
  have "image_size cmp = length ?hd + (length ?code + (length ?fi + (4 * length (c_stringmap cmp) + strings_size (c_stringmap cmp))))"
    by (simp add: image_size_def length_code length_finfo length_bcheader)
  with assms obtain h c f t r where fr: "fresh (image_size cmp) = h @ c @ f @ t @ r" and len: "length h = length ?hd" "length c = length ?code"
      "length f = length ?fi" "length t = 4 * length (c_stringmap cmp)" "length r = strings_size (c_stringmap cmp)"
    using split_length by metis
  have 1: "memcpy_at (h @ c @ f @ t @ r) 0 ?hd = Some (?hd @ c @ f @ t @ r)" using memcpy_at_middle [of h ?hd 0 "[]"] len(1) by simp
  have 2: "memcpy_at (?hd @ c @ f @ t @ r) SIZEOF_BCHEADER ?code = Some (?hd @ ?code @ f @ t @ r)"
    by (rule memcpy_at_middle) (simp_all add: len(2) length_bcheader)
  have 3: "memcpy_at (?hd @ ?code @ f @ t @ r) (SIZEOF_BCHEADER + length ?code) ?fi = Some ((?hd @ ?code @ ?fi) @ t @ [] @ r)"
    using memcpy_at_middle [of f ?fi "SIZEOF_BCHEADER + length ?code" "?hd @ ?code" "t @ r"] len(3) by (simp add: length_bcheader)
  have 4: "write_strings ((?hd @ ?code @ ?fi) @ t @ [] @ r) (SIZEOF_BCHEADER + length ?code + length (c_finfo cmp) * SIZEOF_FUNINFO) (strings_start cmp) (c_stringmap cmp) =
      Some ((?hd @ ?code @ ?fi) @ ints_bytes (string_offsets (strings_start cmp) (c_stringmap cmp)) @ [] @ concat (map cstring_bytes (c_stringmap cmp)),
        strings_start cmp + strings_size (c_stringmap cmp))"
    by (rule write_strings_layout) (simp_all add: len length_code length_finfo length_bcheader strings_start_def)
  have pos: "SIZEOF_BCHEADER + length ?code + length (c_finfo cmp) * SIZEOF_FUNINFO + length (c_stringmap cmp) * 4 = strings_start cmp"
    "strings_start cmp + strings_size (c_stringmap cmp) = image_size cmp"
    by (simp_all add: strings_start_def image_size_def length_code)
  show ?thesis unfolding gen_bytecode_def Let_def fr 1 pos(1) using 2 3 4 pos(2) by simp
qed

subsection \<open>The round trip\<close>

definition image_ok :: "compilation \<Rightarrow> bool" where
  "image_ok cmp \<longleftrightarrow> list_all instruction_fits (c_instructions cmp) \<and>
     list_all (\<lambda>f. funinfo_fits f \<and> f_name f < length (c_stringmap cmp)) (c_finfo cmp) \<and>
     list_all (\<lambda>str. CHR 0x00 \<notin> set str) (c_stringmap cmp) \<and> image_size cmp < 2 ^ 31 \<and>
     list_all int32 [int (c_evaldoaddr cmp), int (c_erroraddr cmp), int (c_itemfno cmp)]"

lemma concat_map_split:
  assumes "k < length xs"
  shows "concat (map f xs) = concat (map f (take k xs)) @ f (xs ! k) @ concat (map f (drop (Suc k) xs))"
  by (subst id_take_nth_drop [OF assms]) simp

lemma image_header:
  assumes "image_ok cmp" "k < 6" "pos = 16 + 4 * k"
  shows "read_int (bcheader_bytes cmp @ post) pos =
    Some ([int (length (c_instructions cmp)), int (length (c_finfo cmp)), int (length (c_stringmap cmp)),
           int (c_evaldoaddr cmp), int (c_erroraddr cmp), int (c_itemfno cmp)] ! k)"
proof -
  have "length (c_instructions cmp) < 2 ^ 31 \<and> length (c_finfo cmp) < 2 ^ 31 \<and> length (c_stringmap cmp) < 2 ^ 31"
    using assms(1) by (auto simp: image_ok_def image_size_def sizeof_defs)
  then show ?thesis unfolding bcheader_bytes_def append_assoc
    by (intro read_ints_at) (use assms in \<open>auto simp: image_ok_def int32_def\<close>)
qed

lemma string_offsets_nth:
  "k < length strs \<Longrightarrow> string_offsets pos strs ! k = int (pos + length (concat (map cstring_bytes (take k strs))))"
proof (induction strs arbitrary: pos k)
  case (Cons str strs)
  then show ?case by (cases k) (simp_all add: cstring_bytes_def)
qed simp

lemma strings_size_take: "k < length strs \<Longrightarrow> strings_size (take k strs) < strings_size strs"
proof (induction strs arbitrary: k)
  case (Cons str strs)
  then show ?case by (cases k) simp_all
qed simp

lemma int32_offsets:
  assumes "image_ok cmp"
  shows "list_all int32 (string_offsets (strings_start cmp) (c_stringmap cmp))"
proof -
  have "strings_start cmp + strings_size (c_stringmap cmp) < 2 ^ 31"
    using assms by (simp add: image_ok_def image_size_def strings_start_def mult.commute)
  then have "int32 (int (strings_start cmp + length (concat (map cstring_bytes (take k (c_stringmap cmp))))))" if "k < length (c_stringmap cmp)" for k
    using strings_size_take [OF that] unfolding length_concat_cstrings by (auto simp: int32_def)
  then show ?thesis unfolding list_all_length length_string_offsets by (intro allI impI) (simp only: string_offsets_nth)
qed

lemma image_reads:
  assumes ok: "image_ok cmp" and fresh: "length (fresh (image_size cmp)) = image_size cmp" and gen: "gen_bytecode fresh cmp = Some bcdata"
  shows "k < length (c_instructions cmp) \<Longrightarrow> instruction_at bcdata (bc_instructions bcdata + k * SIZEOF_INSTRUCTION) = Some (c_instructions cmp ! k)"
    and "bc_funinfo bcdata = Some (SIZEOF_BCHEADER + SIZEOF_INSTRUCTION * length (c_instructions cmp))"
    and "k < length (c_finfo cmp) \<Longrightarrow>
      funinfo_at bcdata (SIZEOF_BCHEADER + SIZEOF_INSTRUCTION * length (c_instructions cmp) + k * SIZEOF_FUNINFO) = Some (c_finfo cmp ! k)"
    and "k < length (c_stringmap cmp) \<Longrightarrow> bc_string bcdata k = Some (c_stringmap cmp ! k)"
proof -
  let ?hd = "bcheader_bytes cmp" and ?is = "c_instructions cmp" and ?fs = "c_finfo cmp" and ?ss = "c_stringmap cmp"
  let ?code = "concat (map instruction_bytes ?is)" and ?fi = "concat (map funinfo_bytes ?fs)" and ?offs = "string_offsets (strings_start cmp) ?ss"
  let ?str = "concat (map cstring_bytes ?ss)"
  have d: "bcdata = ?hd @ ?code @ ?fi @ ints_bytes ?offs @ ?str" using gen gen_bytecode_layout [of fresh cmp, OF fresh] by simp
  have nops: "bch_nops bcdata = Some (int (length ?is))" and nf: "bch_nfunctions bcdata = Some (int (length ?fs))"
    using image_header [OF ok, of 0] image_header [OF ok, of 1] by (simp_all add: d bch_nops_def bch_nfunctions_def)
  show "instruction_at bcdata (bc_instructions bcdata + k * SIZEOF_INSTRUCTION) = Some (?is ! k)" if k: "k < length ?is"
  proof -
    have "instruction_fits (?is ! k)" using ok k by (simp add: image_ok_def list_all_length)
    from instruction_at_bytes [OF this refl, of "?hd @ concat (map instruction_bytes (take k ?is))"] k show ?thesis
      unfolding d concat_map_split [OF k, of instruction_bytes] by (simp add: bc_instructions_def length_bcheader length_code mult.commute)
  qed
  show "bc_funinfo bcdata = Some (SIZEOF_BCHEADER + SIZEOF_INSTRUCTION * length ?is)"
    by (simp add: bc_funinfo_def nops nat_add_distrib nat_mult_distrib mult.commute)
  show "funinfo_at bcdata (SIZEOF_BCHEADER + SIZEOF_INSTRUCTION * length ?is + k * SIZEOF_FUNINFO) = Some (?fs ! k)" if k: "k < length ?fs"
  proof -
    have "funinfo_fits (?fs ! k)" using ok k by (simp add: image_ok_def list_all_length)
    from funinfo_at_bytes [OF this refl, of "?hd @ ?code @ concat (map funinfo_bytes (take k ?fs))"] k show ?thesis
      unfolding d concat_map_split [OF k, of funinfo_bytes] by (simp add: length_bcheader length_code length_finfo mult.commute add.assoc)
  qed
  show "bc_string bcdata k = Some (?ss ! k)" if k: "k < length ?ss"
  proof -
    let ?pos = "nat (int SIZEOF_BCHEADER + int (length ?is) * int SIZEOF_INSTRUCTION + int (length ?fs) * int SIZEOF_FUNINFO)"
    have pos: "?pos = length (?hd @ ?code @ ?fi)"
      by (simp add: length_bcheader length_code length_finfo nat_add_distrib nat_mult_distrib mult.commute)
    have off: "read_int bcdata (?pos + 4 * k) = Some (?offs ! k)"
      using read_ints_at [OF _ int32_offsets [OF ok], of k "?pos + 4 * k" "?hd @ ?code @ ?fi" ?str] k unfolding d pos by simp
    have "CHR 0x00 \<notin> set (?ss ! k)" using ok k by (simp add: image_ok_def list_all_length)
    moreover have "nat (?offs ! k) = length (?hd @ ?code @ ?fi @ ints_bytes ?offs @ concat (map cstring_bytes (take k ?ss)))"
      unfolding string_offsets_nth [OF k] nat_int by (simp add: strings_start_def length_bcheader length_code length_finfo)
    ultimately have "cstring_at bcdata (nat (?offs ! k)) = Some (?ss ! k)"
      using cstring_at_bytes [of "?ss ! k" "nat (?offs ! k)" "?hd @ ?code @ ?fi @ ints_bytes ?offs @ concat (map cstring_bytes (take k ?ss))"]
      unfolding d concat_map_split [OF k, of cstring_bytes] by simp
    with off show ?thesis by (simp add: bc_string_def nops nf Let_def)
  qed
qed

text \<open>C12: what the run time reads from the bytecode image is what the compiler had: when the numbers fit in 32 bits,
  the strings hold no zero byte and the image is smaller than 2 GB, \<^verbatim>\<open>gen_bytecode\<close> fills exactly
  the block it allocated (no copy leaves it and no byte keeps its old contents), and the readers
  find the counts and addresses of the header, every instruction, every entry of the function
  table, every string and the name of every function.\<close>

theorem bytecode_image_roundtrip:
  assumes "image_ok cmp" "\<forall>n. length (fresh n) = n"
  shows "\<exists>bcdata. gen_bytecode fresh cmp = Some bcdata \<and> length bcdata = image_size cmp \<and>
    gen_bytecode (\<lambda>n. replicate n 0) cmp = Some bcdata \<and>
    bch_nops bcdata = Some (int (length (c_instructions cmp))) \<and> bch_nfunctions bcdata = Some (int (length (c_finfo cmp))) \<and>
    bch_nstrings bcdata = Some (int (length (c_stringmap cmp))) \<and> bch_evaldoaddr bcdata = Some (int (c_evaldoaddr cmp)) \<and>
    bch_erroraddr bcdata = Some (int (c_erroraddr cmp)) \<and> bch_itemfno bcdata = Some (int (c_itemfno cmp)) \<and>
    map (\<lambda>k. instruction_at bcdata (bc_instructions bcdata + k * SIZEOF_INSTRUCTION)) [0..<length (c_instructions cmp)] = map Some (c_instructions cmp) \<and>
    map (\<lambda>k. do { p \<leftarrow> bc_funinfo bcdata; funinfo_at bcdata (p + k * SIZEOF_FUNINFO) }) [0..<length (c_finfo cmp)] = map Some (c_finfo cmp) \<and>
    map (bc_string bcdata) [0..<length (c_stringmap cmp)] = map Some (c_stringmap cmp) \<and>
    map (\<lambda>k. bc_function_name bcdata (int k)) [0..<length (c_finfo cmp)] = map (\<lambda>f. Some (c_stringmap cmp ! f_name f)) (c_finfo cmp)"
proof -
  have fr: "length (fresh (image_size cmp)) = image_size cmp" using assms(2) by blast
  note lay = gen_bytecode_layout [of fresh cmp, OF fr]
  then obtain bcdata where g: "gen_bytecode fresh cmp = Some bcdata" by blast
  note rd = image_reads [OF assms(1) fr g]
  have same: "gen_bytecode (\<lambda>n. replicate n 0) cmp = Some bcdata" using gen_bytecode_layout [of "\<lambda>n. replicate n 0" cmp] lay g by simp
  have len: "length bcdata = image_size cmp"
    using lay g by (auto simp: image_size_def length_bcheader length_code length_finfo length_concat_cstrings)
  have "read_int bcdata (16 + 4 * k) = Some ([int (length (c_instructions cmp)), int (length (c_finfo cmp)), int (length (c_stringmap cmp)),
      int (c_evaldoaddr cmp), int (c_erroraddr cmp), int (c_itemfno cmp)] ! k)" if "k < 6" for k
    using image_header [OF assms(1) that refl] lay g by auto
  note hd = this [of 0] this [of 1] this [of 2] this [of 3] this [of 4] this [of 5]
  have nm: "bc_function_name bcdata (int k) = Some (c_stringmap cmp ! f_name (c_finfo cmp ! k))" if "k < length (c_finfo cmp)" for k
    using rd(2) rd(3) [OF that] rd(4) assms(1) that by (simp add: bc_function_name_def image_ok_def list_all_length)
  show ?thesis
  proof (intro exI [of _ bcdata] conjI)
    show "bch_nops bcdata = Some (int (length (c_instructions cmp)))" "bch_nfunctions bcdata = Some (int (length (c_finfo cmp)))"
      "bch_nstrings bcdata = Some (int (length (c_stringmap cmp)))" "bch_evaldoaddr bcdata = Some (int (c_evaldoaddr cmp))"
      "bch_erroraddr bcdata = Some (int (c_erroraddr cmp))" "bch_itemfno bcdata = Some (int (c_itemfno cmp))"
      using hd by (simp_all add: bch_nops_def bch_nfunctions_def bch_nstrings_def bch_evaldoaddr_def bch_erroraddr_def bch_itemfno_def)
    show "map (\<lambda>k. instruction_at bcdata (bc_instructions bcdata + k * SIZEOF_INSTRUCTION)) [0..<length (c_instructions cmp)] = map Some (c_instructions cmp)"
      by (rule nth_equalityI) (simp_all add: rd(1))
    show "map (\<lambda>k. do { p \<leftarrow> bc_funinfo bcdata; funinfo_at bcdata (p + k * SIZEOF_FUNINFO) }) [0..<length (c_finfo cmp)] = map Some (c_finfo cmp)"
      by (rule nth_equalityI) (simp_all add: rd(2,3))
    show "map (bc_string bcdata) [0..<length (c_stringmap cmp)] = map Some (c_stringmap cmp)"
      by (rule nth_equalityI) (simp_all add: rd(4))
    show "map (\<lambda>k. bc_function_name bcdata (int k)) [0..<length (c_finfo cmp)] = map (\<lambda>f. Some (c_stringmap cmp ! f_name f)) (c_finfo cmp)"
      by (rule nth_equalityI) (simp_all add: nm)
  qed (use g same len in simp_all)
qed

definition image_example :: compilation where
  "image_example =
     \<lparr>c_instructions = [\<lparr>i_opcode = OP_GLOBSTART, i_arg0 = 0, i_arg1 = 1, i_sl = noloc, i_expcount = 1\<rparr>,
                        \<lparr>i_opcode = OP_PUSHNUMBER, i_arg0 = 0, i_arg1 = - 1074790400, i_sl = \<lparr>fileno = 0, lineno = 7\<rparr>, i_expcount = 1\<rparr>,
                        \<lparr>i_opcode = OP_RETURN, i_arg0 = 0, i_arg1 = 0, i_sl = noloc, i_expcount = 2\<rparr>],
      c_finfo = [\<lparr>f_address = 0, f_addressne = 1, f_addressed = 1, f_arity = 1, f_stacksize = 2, f_name = 1\<rparr>],
      c_stringmap = [''a.l'', ''f''], c_si = None, c_evaldoaddr = 3, c_erroraddr = 2, c_itemfno = 0\<rparr>"

theorem bytecode_image_roundtrip_witness:
  "\<exists>bcdata. gen_bytecode (\<lambda>n. replicate n 255) image_example = Some bcdata \<and> length bcdata = 162 \<and> bc_function_name bcdata 0 = Some ''f'' \<and>
     map (bc_string bcdata) [0, 1] = [Some ''a.l'', Some ''f''] \<and> bch_evaldoaddr bcdata = Some 3"
proof -
  have size: "image_size image_example = 162" by (simp add: image_size_def image_example_def sizeof_defs)
  then have ok: "image_ok image_example"
    by (simp add: image_ok_def) (simp add: image_example_def instruction_fits_def funinfo_fits_def int32_def)
  have "[0..<length (c_stringmap image_example)] = [0, 1] \<and> [0..<length (c_finfo image_example)] = [0]" by code_simp
  then show ?thesis using bytecode_image_roundtrip [OF ok, of "\<lambda>n. replicate n 255"] size by (auto simp: image_example_def)
qed

end
