(* ===== verification/Task_Tables.thy ===== *)
theory Task_Tables
  imports Code_Program
begin

text \<open>
  What a task derives from the function table of a compiled program when it is created,
  \<^verbatim>\<open>task_new\<close> and \<^verbatim>\<open>frame_fno\<close> of \<^verbatim>\<open>runtime/task.c\<close>: the number of stack positions of its frames and the
  function that each instruction belongs to.
\<close>

definition maxstack :: "funinfo list \<Rightarrow> int" where
  "maxstack finfo = foldl (\<lambda>m f. if m < f_stacksize f then f_stacksize f else m) 0 finfo"

text \<open>The numbers of the functions at their addresses, \<open>- 1\<close> elsewhere; then each address without a number
  takes the one before it.\<close>

definition function_starts :: "funinfo list \<Rightarrow> nat \<Rightarrow> int list" where
  "function_starts finfo nops = foldl (\<lambda>xs fno. xs[f_address (finfo ! fno) := int fno]) (replicate nops (- 1)) [0..<length finfo]"

fun fill_fnos :: "int \<Rightarrow> int list \<Rightarrow> int list" where
  "fill_fnos cur [] = []"
| "fill_fnos cur (x # xs) = (let cur1 = (if 0 \<le> x then x else cur) in cur1 # fill_fnos cur1 xs)"

definition bcaddr_to_fno :: "funinfo list \<Rightarrow> nat \<Rightarrow> int list" where
  "bcaddr_to_fno finfo nops = fill_fnos (- 1) (function_starts finfo nops)"

definition frame_fno :: "funinfo list \<Rightarrow> nat \<Rightarrow> nat \<Rightarrow> int" where
  "frame_fno finfo nops bcaddr = bcaddr_to_fno finfo nops ! bcaddr"

lemma maxstack_from: "f \<in> set finfo \<or> v \<le> m \<Longrightarrow> (if f \<in> set finfo then f_stacksize f else v) \<le> foldl (\<lambda>m f. if m < f_stacksize f then f_stacksize f else m) m finfo"
proof (induction finfo arbitrary: m v)
  case (Cons g gs)
  let ?m = "if m < f_stacksize g then f_stacksize g else m"
  show ?case
  proof (cases "f \<in> set gs")
    case True
    then show ?thesis using Cons.IH [of v ?m] by simp
  next
    case False
    then show ?thesis using Cons.IH [of "if f = g then f_stacksize g else v" ?m] Cons.prems by (auto split: if_splits)
  qed
qed simp

lemma maxstack_bound: "fno < length finfo \<Longrightarrow> f_stacksize (finfo ! fno) \<le> maxstack finfo"
  using maxstack_from [of "finfo ! fno" finfo 0 0] by (simp add: maxstack_def)

text \<open>At an address there is the number of the function with that address, if any.\<close>

lemma starts_from:
  assumes "\<forall>i \<in> set fnos. \<forall>j \<in> set fnos. f_address (finfo ! i) = f_address (finfo ! j) \<longrightarrow> i = j"
  shows "length (foldl (\<lambda>xs fno. xs[f_address (finfo ! fno) := int fno]) xs fnos) = length xs"
    and "a < length xs \<Longrightarrow> foldl (\<lambda>xs fno. xs[f_address (finfo ! fno) := int fno]) xs fnos ! a =
      (case find (\<lambda>fno. f_address (finfo ! fno) = a) fnos of Some fno \<Rightarrow> int fno | None \<Rightarrow> xs ! a)"
proof -
  show "length (foldl (\<lambda>xs fno. xs[f_address (finfo ! fno) := int fno]) xs fnos) = length xs" by (induction fnos arbitrary: xs) simp_all
  show "a < length xs \<Longrightarrow> foldl (\<lambda>xs fno. xs[f_address (finfo ! fno) := int fno]) xs fnos ! a =
      (case find (\<lambda>fno. f_address (finfo ! fno) = a) fnos of Some fno \<Rightarrow> int fno | None \<Rightarrow> xs ! a)"
    using assms
  proof (induction fnos arbitrary: xs)
    case (Cons i fnos)
    let ?xs = "xs[f_address (finfo ! i) := int i]"
    have "foldl (\<lambda>xs fno. xs[f_address (finfo ! fno) := int fno]) ?xs fnos ! a =
        (case find (\<lambda>fno. f_address (finfo ! fno) = a) fnos of Some fno \<Rightarrow> int fno | None \<Rightarrow> ?xs ! a)" using Cons by simp
    moreover have "find (\<lambda>fno. f_address (finfo ! fno) = a) fnos = Some j \<Longrightarrow> f_address (finfo ! i) = a \<Longrightarrow> j = i" for j
      using Cons.prems(2) by (auto simp: find_Some_iff)
    ultimately show ?case using Cons.prems(1) by (auto split: option.split)
  qed simp
qed

lemma fill_fnos_cur: "\<forall>c \<le> a. xs ! c < 0 \<Longrightarrow> a < length xs \<Longrightarrow> fill_fnos cur xs ! a = cur"
proof (induction cur xs arbitrary: a rule: fill_fnos.induct)
  case (2 cur x xs)
  have x: "x < 0" using 2(2) [rule_format, of 0] by simp
  show ?case
  proof (cases a)
    case (Suc a')
    have "\<forall>c \<le> a'. xs ! c < 0" using 2(2) Suc by (metis Suc_le_mono nth_Cons_Suc)
    then show ?thesis using 2(1) [OF refl, of a'] 2(3) Suc x by (simp add: Let_def)
  qed (use x in \<open>simp add: Let_def\<close>)
qed simp

lemma fill_fnos_nth:
  "b \<le> a \<Longrightarrow> a < length xs \<Longrightarrow> 0 \<le> xs ! b \<Longrightarrow> \<forall>c. b < c \<and> c \<le> a \<longrightarrow> xs ! c < 0 \<Longrightarrow> fill_fnos cur xs ! a = xs ! b"
proof (induction xs arbitrary: a b cur)
  case (Cons x xs)
  show ?case
  proof (cases a)
    case 0
    then show ?thesis using Cons.prems by (simp add: Let_def)
  next
    case (Suc a')
    show ?thesis
    proof (cases b)
      case 0
      have "xs ! c < 0" if "c \<le> a'" for c using Cons.prems(4) [rule_format, of "Suc c"] Suc 0 that by simp
      then have "fill_fnos x xs ! a' = x" using fill_fnos_cur [of a' xs x] Cons.prems(2) Suc by simp
      then show ?thesis using Cons.prems(3) 0 Suc by (simp add: Let_def)
    next
      case (Suc b')
      have "fill_fnos cur' xs ! a' = xs ! b'" for cur'
        by (rule Cons.IH) (use Cons.prems Suc \<open>a = Suc a'\<close> in \<open>auto dest: spec [of _ "Suc _"]\<close>)
      then show ?thesis using Suc \<open>a = Suc a'\<close> by (simp add: Let_def)
    qed
  qed
qed simp

lemma bcaddr_to_fno_nth:
  assumes inj: "\<forall>i < length finfo. \<forall>j < length finfo. f_address (finfo ! i) = f_address (finfo ! j) \<longrightarrow> i = j"
    and fno: "fno < length finfo" "f_address (finfo ! fno) \<le> a" "a < nops"
    and rest: "\<forall>i < length finfo. \<not> (f_address (finfo ! fno) < f_address (finfo ! i) \<and> f_address (finfo ! i) \<le> a)"
  shows "frame_fno finfo nops a = int fno"
proof -
  let ?xs = "function_starts finfo nops"
  have len: "length ?xs = nops" unfolding function_starts_def by (subst starts_from(1)) (use inj in auto)
  have at: "?xs ! c = (case find (\<lambda>fno. f_address (finfo ! fno) = c) [0..<length finfo] of Some fno \<Rightarrow> int fno | None \<Rightarrow> - 1)" if "c < nops" for c
    unfolding function_starts_def by (subst starts_from(2)) (use inj that in \<open>auto split: option.split\<close>)
  have "find (\<lambda>i. f_address (finfo ! i) = f_address (finfo ! fno)) [0..<length finfo] = Some fno"
    using inj fno(1) unfolding find_Some_iff by (intro exI [of _ fno]) (auto dest: less_trans)
  then have "?xs ! f_address (finfo ! fno) = int fno" using at fno by simp
  moreover have "?xs ! c < 0" if "f_address (finfo ! fno) < c" "c \<le> a" for c
  proof -
    have "find (\<lambda>i. f_address (finfo ! i) = c) [0..<length finfo] = None" using rest that by (auto simp: find_None_iff)
    then show ?thesis using at [of c] that fno(3) by simp
  qed
  ultimately show ?thesis unfolding frame_fno_def bcaddr_to_fno_def using fill_fnos_nth [of "f_address (finfo ! fno)" a ?xs "- 1"] fno len by simp
qed

subsection \<open>Frames of compiled code\<close>

text \<open>In the code that the compiler returns, the functions start at different addresses, and each of these
  addresses holds a \<^verbatim>\<open>GLOBSTART\<close>.\<close>

lemma entry_start: "entry_ok cmp fno k \<Longrightarrow> f_address (c_finfo cmp ! fno) < length (c_instructions cmp) \<and>
    i_opcode (c_instructions cmp ! f_address (c_finfo cmp ! fno)) = OP_GLOBSTART \<and> i_arg0 (c_instructions cmp ! f_address (c_finfo cmp ! fno)) = int fno"
  by (auto simp: entry_ok_def Let_def)

lemma starts_between:
  assumes "s < i" "i \<le> a" "a < length xs" "i_opcode (xs ! i) = OP_GLOBSTART"
  shows "starts (drop (Suc s) (take (Suc a) xs)) \<noteq> {}"
proof -
  have "drop (Suc s) (take (Suc a) xs) ! (i - Suc s) = xs ! i" using assms by simp
  moreover have "i - Suc s < length (drop (Suc s) (take (Suc a) xs))" using assms by simp
  ultimately have "xs ! i \<in> set (drop (Suc s) (take (Suc a) xs))" by (metis nth_mem)
  then show ?thesis using assms(4) by (auto simp: starts_def)
qed

lemma frame_fno_entries:
  assumes ok: "\<forall>i < length (c_finfo cmp). \<exists>k. entry_ok cmp i k" and fno: "fno < length (c_finfo cmp)"
    and a: "f_address (c_finfo cmp ! fno) \<le> a" "a < length (c_instructions cmp)"
      "starts (drop (Suc (f_address (c_finfo cmp ! fno))) (take (Suc a) (c_instructions cmp))) = {}"
  shows "frame_fno (c_finfo cmp) (length (c_instructions cmp)) a = int fno"
proof (rule bcaddr_to_fno_nth [OF _ fno a(1,2)])
  have at: "i_opcode (c_instructions cmp ! f_address (c_finfo cmp ! i)) = OP_GLOBSTART"
      "i_arg0 (c_instructions cmp ! f_address (c_finfo cmp ! i)) = int i" if "i < length (c_finfo cmp)" for i
    using ok that entry_start by blast+
  show "\<forall>i < length (c_finfo cmp). \<forall>j < length (c_finfo cmp). f_address (c_finfo cmp ! i) = f_address (c_finfo cmp ! j) \<longrightarrow> i = j"
    using at(2) by (metis of_nat_eq_iff)
  show "\<forall>i < length (c_finfo cmp). \<not> (f_address (c_finfo cmp ! fno) < f_address (c_finfo cmp ! i) \<and> f_address (c_finfo cmp ! i) \<le> a)"
    using at(1) starts_between a(2,3) by blast
qed

text \<open>C13: the frames are large enough: in the code of a compiled program, from the start of a function up to
  the start of the next one, the run time attributes each instruction to that function, and no instruction
  is compiled for more values on the stack than the stack size that the table gives for the function, which
  is at most the number of positions that a task gives to all of its frames.\<close>

theorem stack_size_bounds:
  assumes "program_compilable src" "compile src = Some cmp" "fno < NUM_BUILTINS + length (scombs src)"
    and "f_address (c_finfo cmp ! fno) \<le> a" "a < length (c_instructions cmp)"
    and "starts (drop (Suc (f_address (c_finfo cmp ! fno))) (take (Suc a) (c_instructions cmp))) = {}"
  shows "frame_fno (c_finfo cmp) (length (c_instructions cmp)) a = int fno \<and>
    i_expcount (c_instructions cmp ! a) \<le> f_stacksize (c_finfo cmp ! fno) \<and> f_stacksize (c_finfo cmp ! fno) \<le> maxstack (c_finfo cmp)"
proof (intro conjI)
  from compile_entries [OF assms(1)] assms(2) obtain cmp5 where c: "cmp = compute_stacksizes cmp5"
    "length (c_finfo cmp) = NUM_BUILTINS + length (scombs src)" "\<forall>fno < length (c_finfo cmp). \<exists>k. entry_ok cmp fno k"
    by (metis option.inject)
  have fno: "fno < length (c_finfo cmp)" using c(2) assms(3) by simp
  from frame_fno_entries [OF c(3) fno assms(4-6)] show "frame_fno (c_finfo cmp) (length (c_instructions cmp)) a = int fno" .
  from maxstack_bound [OF fno] show "f_stacksize (c_finfo cmp ! fno) \<le> maxstack (c_finfo cmp)" .
  from c(3) fno obtain k where k: "entry_ok cmp fno k" by blast
  have i: "c_instructions cmp = c_instructions cmp5" "c_finfo cmp = stacksizes (c_instructions cmp) (- 1) 0 (c_finfo cmp5)"
    using c(1) by (simp_all add: compute_stacksizes_def)
  have "fno < length (c_finfo cmp5)" using fno i(2) stacksizes_entry by simp
  from stacksizes_bound [OF this _ _ _ _ assms(4-6), of "- 1" 0] k i(2)
  show "i_expcount (c_instructions cmp ! a) \<le> f_stacksize (c_finfo cmp ! fno)" by (simp add: entry_ok_def Let_def)
qed

theorem stack_size_bounds_witness:
  "\<exists>cmp. compile compile_example = Some cmp \<and> 2 \<le> f_stacksize (c_finfo cmp ! NUM_BUILTINS) \<and> 2 \<le> maxstack (c_finfo cmp) \<and>
     frame_fno (c_finfo cmp) (length (c_instructions cmp)) (f_address (c_finfo cmp ! NUM_BUILTINS)) = int NUM_BUILTINS"
proof -
  have ex: "length (scombs compile_example) = 2 \<and> function_nargs compile_example NUM_BUILTINS = Some 2" by code_simp
  from compile_entries [OF compile_example_ok] obtain cmp where c: "compile compile_example = Some cmp" and
    en: "\<forall>fno < NUM_BUILTINS + length (scombs compile_example). \<exists>k. function_nargs compile_example fno = Some k \<and> entry_ok cmp fno k" by blast
  have ok: "entry_ok cmp NUM_BUILTINS 2" using en [rule_format, of NUM_BUILTINS] ex by simp
  let ?a = "f_address (c_finfo cmp ! NUM_BUILTINS)"
  have e: "?a < length (c_instructions cmp)" "i_expcount (c_instructions cmp ! ?a) = 2" using ok by (simp_all add: entry_ok_def Let_def)
  from stack_size_bounds [OF compile_example_ok c _ order_refl e(1)] ex e(2) c show ?thesis by auto
qed

end
