(* ===== verification/Frames.thy ===== *)
theory Frames
  imports Bytecode
begin

text \<open>
  The frames of a task, \<^verbatim>\<open>runtime/task.c\<close>, \<^verbatim>\<open>runtime/memory.c\<close> and \<^verbatim>\<open>runtime/interpreter.c\<close>: the blocks
  they are allocated from, the free list, the circular list of sparks, the queue of runnable
  frames and the queues of frames that wait for another frame or for a remote object. Frames
  are numbered by block and place in the block; a null pointer is \<open>None\<close>. A failed assertion, or
  the use of a null pointer, has the result \<open>None\<close>. The pointer structures are shown to implement
  plain lists.
\<close>

subsection \<open>Structures\<close>

datatype frame_state = STATE_UNALLOCATED | STATE_NEW | STATE_SPARKED | STATE_ACTIVE | STATE_DONE

record gaddr =
  ga_tid :: int
  ga_lid :: int

record waitqueue =
  wq_frames :: "nat option"
  wq_fetchers :: "gaddr list"

text \<open>A program counter is an index of the instructions of the image, a cell is a number, a return
  address is a place on the stack of another frame, and a value is the eight bytes of a \<^verbatim>\<open>pntr\<close>.\<close>

record frame =
  fr_instr :: nat
  fr_wq :: waitqueue
  fr_c :: "nat option"
  fr_state :: frame_state
  fr_resume :: bool
  fr_retp :: "(nat \<times> nat) option"
  fr_freelnk :: "nat option"
  fr_waitlnk :: "nat option"
  fr_rnext :: "nat option"
  fr_postponed :: bool
  fr_sprev :: "nat option"
  fr_snext :: "nat option"
  fr_data :: "nat \<Rightarrow> 64 word"

text \<open>A frame in memory that \<^verbatim>\<open>calloc\<close> has cleared.\<close>

definition frame_zero :: frame where
  "frame_zero =
     \<lparr>fr_instr = 0, fr_wq = \<lparr>wq_frames = None, wq_fetchers = []\<rparr>, fr_c = None, fr_state = STATE_UNALLOCATED, fr_resume = False,
      fr_retp = None, fr_freelnk = None, fr_waitlnk = None, fr_rnext = None, fr_postponed = False, fr_sprev = None, fr_snext = None, fr_data = (\<lambda>k. 0)\<rparr>"

text \<open>The part of a task that the frames live in. \<open>t_cells\<close> gives for a cell of type \<^verbatim>\<open>CELL_FRAME\<close> the frame
  it refers to, \<open>t_globals\<close> the queue of an object of another task, \<open>t_interrupt\<close> is set when the
  task is told that it has nothing to run.\<close>

record task =
  t_frames :: "nat \<Rightarrow> frame"
  t_nblocks :: nat
  t_framesperblock :: nat
  t_freeframe :: "nat option"
  t_sparklist :: nat
  t_run :: "nat option"
  t_cells :: "nat \<Rightarrow> nat option"
  t_globals :: "nat \<Rightarrow> waitqueue"
  t_interrupt :: bool
  t_done :: bool
  t_local_conns :: int
  t_total_conns :: int

datatype wqref = WqFrame nat | WqGlobal nat

definition fr_upd :: "task \<Rightarrow> nat \<Rightarrow> (frame \<Rightarrow> frame) \<Rightarrow> task" where
  "fr_upd tsk f g = tsk\<lparr>t_frames := (t_frames tsk)(f := g (t_frames tsk f))\<rparr>"

fun get_wq :: "task \<Rightarrow> wqref \<Rightarrow> waitqueue" where
  "get_wq tsk (WqFrame f) = fr_wq (t_frames tsk f)"
| "get_wq tsk (WqGlobal g) = t_globals tsk g"

fun set_wq :: "task \<Rightarrow> wqref \<Rightarrow> waitqueue \<Rightarrow> task" where
  "set_wq tsk (WqFrame f) wq = fr_upd tsk f (\<lambda>fr. fr\<lparr>fr_wq := wq\<rparr>)"
| "set_wq tsk (WqGlobal g) wq = tsk\<lparr>t_globals := (t_globals tsk)(g := wq)\<rparr>"

subsection \<open>Allocation\<close>

definition frame_block :: "task \<Rightarrow> task" where
  "frame_block tsk =
     (let base = t_nblocks tsk * t_framesperblock tsk; n = t_framesperblock tsk
      in tsk\<lparr>t_nblocks := t_nblocks tsk + 1, t_freeframe := Some base,
             t_frames := (\<lambda>f. if base \<le> f \<and> f < base + n
                              then frame_zero\<lparr>fr_freelnk := (if f + 1 < base + n then Some (f + 1) else None)\<rparr>
                              else t_frames tsk f)\<rparr>)"

definition frame_new :: "task \<Rightarrow> (nat \<times> task) option" where
  "frame_new tsk0 =
     (let tsk = (if t_freeframe tsk0 = None then frame_block tsk0 else tsk0)
      in do { f \<leftarrow> t_freeframe tsk;
              let fr = t_frames tsk f;
              let tsk1 = tsk\<lparr>t_freeframe := fr_freelnk fr\<rparr>;
              let tsk2 = fr_upd tsk1 f (\<lambda>fr. fr\<lparr>fr_c := None, fr_instr := 0, fr_state := STATE_NEW, fr_resume := False, fr_freelnk := None,
                                                 fr_retp := None, fr_postponed := False, fr_sprev := None, fr_snext := None\<rparr>);
              if wq_frames (fr_wq fr) = None \<and> wq_fetchers (fr_wq fr) = [] \<and> fr_waitlnk fr = None \<and> fr_rnext fr = None
              then Some (f, tsk2) else None })"

definition frame_free :: "task \<Rightarrow> nat \<Rightarrow> task option" where
  "frame_free tsk f =
     (let fr = t_frames tsk f
      in if t_done tsk \<or> (fr_retp fr = None \<and> fr_c fr = None \<and> (fr_state fr = STATE_DONE \<or> fr_state fr = STATE_NEW) \<and>
                          wq_frames (fr_wq fr) = None \<and> wq_fetchers (fr_wq fr) = [])
         then Some ((fr_upd tsk f (\<lambda>fr. fr\<lparr>fr_state := STATE_UNALLOCATED, fr_freelnk := t_freeframe tsk\<rparr>))\<lparr>t_freeframe := Some f\<rparr>)
         else None)"

subsection \<open>Sparks\<close>

definition append_spark :: "task \<Rightarrow> nat \<Rightarrow> task option" where
  "append_spark tsk f =
     (if fr_sprev (t_frames tsk f) \<noteq> None \<or> fr_snext (t_frames tsk f) \<noteq> None then None
      else do { last \<leftarrow> fr_sprev (t_frames tsk (t_sparklist tsk));
                let tsk1 = fr_upd tsk f (\<lambda>fr. fr\<lparr>fr_snext := Some (t_sparklist tsk)\<rparr>);
                let tsk2 = fr_upd tsk1 f (\<lambda>fr. fr\<lparr>fr_sprev := Some last\<rparr>);
                let tsk3 = fr_upd tsk2 last (\<lambda>fr. fr\<lparr>fr_snext := Some f\<rparr>);
                Some (fr_upd tsk3 (t_sparklist tsk) (\<lambda>fr. fr\<lparr>fr_sprev := Some f\<rparr>)) })"

definition prepend_spark :: "task \<Rightarrow> nat \<Rightarrow> task option" where
  "prepend_spark tsk f =
     (if fr_sprev (t_frames tsk f) \<noteq> None \<or> fr_snext (t_frames tsk f) \<noteq> None then None
      else do { first \<leftarrow> fr_snext (t_frames tsk (t_sparklist tsk));
                let tsk1 = fr_upd tsk f (\<lambda>fr. fr\<lparr>fr_sprev := Some (t_sparklist tsk)\<rparr>);
                let tsk2 = fr_upd tsk1 f (\<lambda>fr. fr\<lparr>fr_snext := Some first\<rparr>);
                let tsk3 = fr_upd tsk2 first (\<lambda>fr. fr\<lparr>fr_sprev := Some f\<rparr>);
                Some (fr_upd tsk3 (t_sparklist tsk) (\<lambda>fr. fr\<lparr>fr_snext := Some f\<rparr>)) })"

definition remove_spark :: "task \<Rightarrow> nat \<Rightarrow> task option" where
  "remove_spark tsk f =
     do { prev \<leftarrow> fr_sprev (t_frames tsk f);
          nxt \<leftarrow> fr_snext (t_frames tsk f);
          if fr_snext (t_frames tsk prev) = Some f \<and> fr_sprev (t_frames tsk nxt) = Some f
          then let tsk1 = fr_upd tsk prev (\<lambda>fr. fr\<lparr>fr_snext := Some nxt\<rparr>);
                   tsk2 = fr_upd tsk1 nxt (\<lambda>fr. fr\<lparr>fr_sprev := Some prev\<rparr>)
               in Some (fr_upd tsk2 f (\<lambda>fr. fr\<lparr>fr_sprev := None, fr_snext := None\<rparr>))
          else None }"

definition spark_frame :: "task \<Rightarrow> nat \<Rightarrow> task option" where
  "spark_frame tsk f =
     (if f = t_sparklist tsk then None
      else if fr_state (t_frames tsk f) = STATE_NEW
      then prepend_spark (fr_upd tsk f (\<lambda>fr. fr\<lparr>fr_state := STATE_SPARKED\<rparr>)) f
      else Some tsk)"

definition unspark_frame :: "task \<Rightarrow> nat \<Rightarrow> task option" where
  "unspark_frame tsk f =
     (let st = fr_state (t_frames tsk f)
      in if f = t_sparklist tsk \<or> (st \<noteq> STATE_SPARKED \<and> st \<noteq> STATE_NEW) then None
         else do { tsk1 \<leftarrow> (if st = STATE_SPARKED then remove_spark tsk f else Some tsk);
                   let tsk2 = fr_upd tsk1 f (\<lambda>fr. fr\<lparr>fr_state := STATE_NEW\<rparr>);
                   case fr_c (t_frames tsk2 f) of
                     None \<Rightarrow> Some tsk2
                   | Some c \<Rightarrow> if t_cells tsk2 c = Some f then Some tsk2 else None })"

subsection \<open>The run queue\<close>

definition after_first :: "task \<Rightarrow> nat \<Rightarrow> task" where
  "after_first tsk f =
     (case t_run tsk of
        Some r \<Rightarrow> let tsk1 = fr_upd tsk f (\<lambda>fr. fr\<lparr>fr_rnext := fr_rnext (t_frames tsk r)\<rparr>)
                  in fr_upd tsk1 r (\<lambda>fr. fr\<lparr>fr_rnext := Some f\<rparr>)
      | None \<Rightarrow> (fr_upd tsk f (\<lambda>fr. fr\<lparr>fr_rnext := t_run tsk\<rparr>))\<lparr>t_run := Some f\<rparr>)"

definition run_frame :: "task \<Rightarrow> nat \<Rightarrow> task option" where
  "run_frame tsk f =
     (let st = fr_state (t_frames tsk f)
      in if f = t_sparklist tsk then None
         else if st = STATE_SPARKED \<or> st = STATE_NEW
         then do { tsk1 \<leftarrow> (if st = STATE_SPARKED then remove_spark tsk f else Some tsk);
                   Some ((fr_upd tsk1 f (\<lambda>fr. fr\<lparr>fr_rnext := t_run tsk1, fr_state := STATE_ACTIVE\<rparr>))\<lparr>t_run := Some f\<rparr>) }
         else Some tsk)"

definition run_frame_after_first :: "task \<Rightarrow> nat \<Rightarrow> task option" where
  "run_frame_after_first tsk f =
     (let st = fr_state (t_frames tsk f)
      in if f = t_sparklist tsk then None
         else if st = STATE_SPARKED \<or> st = STATE_NEW
         then do { tsk1 \<leftarrow> (if st = STATE_SPARKED then remove_spark tsk f else Some tsk);
                   Some (fr_upd (after_first tsk1 f) f (\<lambda>fr. fr\<lparr>fr_state := STATE_ACTIVE\<rparr>)) }
         else Some tsk)"

definition check_runnable :: "task \<Rightarrow> task" where
  "check_runnable tsk = (if t_run tsk = None then tsk\<lparr>t_interrupt := True\<rparr> else tsk)"

definition block_frame :: "task \<Rightarrow> nat \<Rightarrow> task option" where
  "block_frame tsk f =
     (if fr_state (t_frames tsk f) = STATE_ACTIVE \<and> t_run tsk = Some f
      then let nxt = fr_rnext (t_frames tsk f)
           in Some ((fr_upd tsk f (\<lambda>fr. fr\<lparr>fr_rnext := None\<rparr>))\<lparr>t_run := nxt\<rparr>)
      else None)"

definition unblock_frame :: "task \<Rightarrow> nat \<Rightarrow> task option" where
  "unblock_frame tsk f =
     (if fr_state (t_frames tsk f) = STATE_ACTIVE \<and> fr_rnext (t_frames tsk f) = None
      then Some ((fr_upd tsk f (\<lambda>fr. fr\<lparr>fr_rnext := t_run tsk\<rparr>))\<lparr>t_run := Some f\<rparr>)
      else None)"

definition unblock_frame_after_first :: "task \<Rightarrow> nat \<Rightarrow> task option" where
  "unblock_frame_after_first tsk f =
     (if fr_state (t_frames tsk f) = STATE_ACTIVE \<and> fr_rnext (t_frames tsk f) = None
      then Some (after_first tsk f) else None)"

definition done_frame :: "task \<Rightarrow> nat \<Rightarrow> task option" where
  "done_frame tsk f =
     (if fr_state (t_frames tsk f) = STATE_ACTIVE \<and> t_run tsk = Some f
      then Some ((fr_upd tsk f (\<lambda>fr. fr\<lparr>fr_rnext := None, fr_state := STATE_DONE\<rparr>))\<lparr>t_run := fr_rnext (t_frames tsk f)\<rparr>)
      else None)"

subsection \<open>Waiting\<close>

definition add_waiter_frame :: "task \<Rightarrow> wqref \<Rightarrow> nat \<Rightarrow> task option" where
  "add_waiter_frame tsk w f =
     (if fr_waitlnk (t_frames tsk f) \<noteq> None then None
      else let tsk1 = fr_upd tsk f (\<lambda>fr. fr\<lparr>fr_waitlnk := wq_frames (get_wq tsk w)\<rparr>)
           in Some (set_wq tsk1 w ((get_wq tsk1 w)\<lparr>wq_frames := Some f\<rparr>)))"

definition waits_at :: "instruction list \<Rightarrow> nat \<Rightarrow> bool" where
  "waits_at prog k \<longleftrightarrow> k < length prog \<and> (i_opcode (prog ! k) = OP_EVAL \<or> i_opcode (prog ! k) = OP_CALL)"

partial_function (option) resume_local_waiters :: "instruction list \<Rightarrow> task \<Rightarrow> wqref \<Rightarrow> task option" where
  "resume_local_waiters prog tsk w =
     (case wq_frames (get_wq tsk w) of
        None \<Rightarrow> Some tsk
      | Some f \<Rightarrow>
          if \<not> waits_at prog (fr_instr (t_frames tsk f)) then None
          else do { let tsk1 = set_wq tsk w ((get_wq tsk w)\<lparr>wq_frames := fr_waitlnk (t_frames tsk f)\<rparr>);
                    let tsk2 = fr_upd tsk1 f (\<lambda>fr. fr\<lparr>fr_waitlnk := None\<rparr>);
                    tsk3 \<leftarrow> unblock_frame_after_first tsk2 f;
                    resume_local_waiters prog tsk3 w })"

text \<open>The last frame of a queue: where \<^verbatim>\<open>transfer_waiters_and_fetchers\<close> stops.\<close>

partial_function (option) last_waiter :: "task \<Rightarrow> nat \<Rightarrow> nat option" where
  "last_waiter tsk f = (case fr_waitlnk (t_frames tsk f) of None \<Rightarrow> Some f | Some f1 \<Rightarrow> last_waiter tsk f1)"

definition transfer_waiters_and_fetchers :: "task \<Rightarrow> wqref \<Rightarrow> wqref \<Rightarrow> task option" where
  "transfer_waiters_and_fetchers tsk frm to =
     do { tsk1 \<leftarrow> (case wq_frames (get_wq tsk to) of
                     None \<Rightarrow> Some (set_wq tsk to ((get_wq tsk to)\<lparr>wq_frames := wq_frames (get_wq tsk frm)\<rparr>))
                   | Some f \<Rightarrow> do { l \<leftarrow> last_waiter tsk f; Some (fr_upd tsk l (\<lambda>fr. fr\<lparr>fr_waitlnk := wq_frames (get_wq tsk frm)\<rparr>)) });
          let tsk2 = set_wq tsk1 frm ((get_wq tsk1 frm)\<lparr>wq_frames := None\<rparr>);
          let tsk3 = set_wq tsk2 to ((get_wq tsk2 to)\<lparr>wq_fetchers := wq_fetchers (get_wq tsk2 to) @ wq_fetchers (get_wq tsk2 frm)\<rparr>);
          Some (set_wq tsk3 frm ((get_wq tsk3 frm)\<lparr>wq_fetchers := []\<rparr>)) }"

subsection \<open>Looking at the sparks\<close>

text \<open>The frames that a walk along \<^verbatim>\<open>snext\<close> meets before the sentinel, and the number that a walk along
  \<^verbatim>\<open>sprev\<close> meets.\<close>

partial_function (option) sparks_from :: "task \<Rightarrow> nat \<Rightarrow> nat list option" where
  "sparks_from tsk f =
     (if f = t_sparklist tsk then Some []
      else do { nxt \<leftarrow> fr_snext (t_frames tsk f); fs \<leftarrow> sparks_from tsk nxt; Some (f # fs) })"

partial_function (option) sparks_back :: "task \<Rightarrow> nat \<Rightarrow> nat \<Rightarrow> nat option" where
  "sparks_back tsk f k =
     (if f = t_sparklist tsk then Some k
      else do { prev \<leftarrow> fr_sprev (t_frames tsk f); sparks_back tsk prev (k + 1) })"

definition count_sparks :: "task \<Rightarrow> nat option" where
  "count_sparks tsk = do { f \<leftarrow> fr_sprev (t_frames tsk (t_sparklist tsk)); sparks_back tsk f 0 }"

definition linked_spark :: "task \<Rightarrow> nat \<Rightarrow> bool" where
  "linked_spark tsk f \<longleftrightarrow>
     (case (fr_sprev (t_frames tsk f), fr_snext (t_frames tsk f)) of
        (Some prev, Some nxt) \<Rightarrow> fr_snext (t_frames tsk prev) = Some f \<and> fr_sprev (t_frames tsk nxt) = Some f
      | _ \<Rightarrow> False)"

definition spark_state_ok :: "task \<Rightarrow> nat \<Rightarrow> bool" where
  "spark_state_ok tsk f \<longleftrightarrow> f = t_sparklist tsk \<or>
     (if fr_state (t_frames tsk f) = STATE_SPARKED then linked_spark tsk f
      else fr_sprev (t_frames tsk f) = None \<and> fr_snext (t_frames tsk f) = None)"

fun postponed_at_end :: "bool \<Rightarrow> bool list \<Rightarrow> bool" where
  "postponed_at_end in_postponed [] = True"
| "postponed_at_end in_postponed (p # ps) =
     (let in_p = in_postponed \<or> p in (in_p \<longrightarrow> p) \<and> postponed_at_end in_p ps)"

definition check_sparks :: "task \<Rightarrow> bool" where
  "check_sparks tsk \<longleftrightarrow> list_all (spark_state_ok tsk) [0..<t_nblocks tsk * t_framesperblock tsk] \<and>
     (case fr_snext (t_frames tsk (t_sparklist tsk)) of
        None \<Rightarrow> False
      | Some first \<Rightarrow>
          (case sparks_from tsk first of
             None \<Rightarrow> False
           | Some fs \<Rightarrow> list_all (\<lambda>f. fr_state (t_frames tsk f) = STATE_SPARKED \<and> linked_spark tsk f) fs \<and>
                        postponed_at_end False (map (\<lambda>f. fr_postponed (t_frames tsk f)) fs)))"

definition MAX_LOCAL_CONNECTIONS :: int where
  "MAX_LOCAL_CONNECTIONS = 3"

definition MAX_TOTAL_CONNECTIONS :: int where
  "MAX_TOTAL_CONNECTIONS = 128"

definition find_spark :: "task \<Rightarrow> (bool \<times> task) option" where
  "find_spark tsk =
     (if t_nblocks tsk \<noteq> 0
      then do { spark \<leftarrow> fr_snext (t_frames tsk (t_sparklist tsk));
                if spark \<noteq> t_sparklist tsk \<and>
                   (\<not> fr_postponed (t_frames tsk spark) \<or>
                    (MAX_LOCAL_CONNECTIONS > t_local_conns tsk \<and> MAX_TOTAL_CONNECTIONS > t_total_conns tsk))
                then do { tsk1 \<leftarrow> run_frame tsk spark; Some (True, tsk1) }
                else Some (False, tsk) }
      else Some (False, tsk))"

subsection \<open>Uses by the interpreter\<close>

text \<open>The spark list of a new task: a frame that refers to itself.\<close>

definition sparklist_new :: "task \<Rightarrow> nat \<Rightarrow> task option" where
  "sparklist_new tsk c =
     do { (s, tsk1) \<leftarrow> frame_new tsk;
          let tsk2 = tsk1\<lparr>t_sparklist := s, t_cells := (t_cells tsk1)(c := Some s)\<rparr>;
          Some (fr_upd tsk2 s (\<lambda>fr. fr\<lparr>fr_snext := Some s, fr_sprev := Some s, fr_instr := 0, fr_c := Some c\<rparr>)) }"

text \<open>\<^verbatim>\<open>EVAL\<close> of a value that is a frame: wait for it and have it run.\<close>

definition eval_frame :: "task \<Rightarrow> nat \<Rightarrow> nat \<Rightarrow> task option" where
  "eval_frame tsk f2 newf =
     do { let tsk0 = fr_upd tsk f2 (\<lambda>fr. fr\<lparr>fr_instr := fr_instr fr - 1\<rparr>);
          tsk1 \<leftarrow> add_waiter_frame tsk0 (WqFrame newf) f2;
          tsk2 \<leftarrow> block_frame tsk1 f2;
          tsk3 \<leftarrow> run_frame tsk2 newf;
          Some (check_runnable tsk3) }"

text \<open>A connection that has to be made later goes to the end of the spark list.\<close>

definition postpone_frame :: "task \<Rightarrow> nat \<Rightarrow> nat \<Rightarrow> task option" where
  "postpone_frame tsk curf address =
     do { let tsk0 = fr_upd tsk curf (\<lambda>fr. fr\<lparr>fr_instr := address + 1\<rparr>);
          tsk1 \<leftarrow> done_frame tsk0 curf;
          let tsk2 = fr_upd tsk1 curf (\<lambda>fr. fr\<lparr>fr_postponed := True, fr_state := STATE_SPARKED\<rparr>);
          tsk3 \<leftarrow> append_spark tsk2 curf;
          Some (check_runnable tsk3) }"

definition op_call :: "instruction list \<Rightarrow> funinfo list \<Rightarrow> task \<Rightarrow> nat \<Rightarrow> instruction \<Rightarrow> task option" where
  "op_call prog finfo tsk f2 instr =
     (let fno = nat (i_arg0 instr); n = nat (i_arg1 instr); base = nat (i_expcount instr) - n; address = f_address (finfo ! fno)
      in if i_opcode (prog ! address) \<noteq> OP_GLOBSTART then None
         else do { (newf, tsk1) \<leftarrow> frame_new tsk;
                   let args = (\<lambda>k. fr_data (t_frames tsk1 f2) (base + k));
                   let tsk2 = fr_upd tsk1 newf (\<lambda>fr. fr\<lparr>fr_instr := address + 1, fr_retp := Some (f2, base),
                                                        fr_data := (\<lambda>k. if k < n then args k else fr_data fr k)\<rparr>);
                   tsk3 \<leftarrow> add_waiter_frame tsk2 (WqFrame newf) f2;
                   tsk4 \<leftarrow> block_frame tsk3 f2;
                   run_frame tsk4 newf })"

subsection \<open>Views\<close>

text \<open>The fields of all frames as functions of the frame, so that a write is a change at one place.\<close>

definition states :: "task \<Rightarrow> nat \<Rightarrow> frame_state" where "states tsk f = fr_state (t_frames tsk f)"
definition postponeds :: "task \<Rightarrow> nat \<Rightarrow> bool" where "postponeds tsk f = fr_postponed (t_frames tsk f)"
definition freelnks :: "task \<Rightarrow> nat \<Rightarrow> nat option" where "freelnks tsk f = fr_freelnk (t_frames tsk f)"
definition waitlnks :: "task \<Rightarrow> nat \<Rightarrow> nat option" where "waitlnks tsk f = fr_waitlnk (t_frames tsk f)"
definition rnexts :: "task \<Rightarrow> nat \<Rightarrow> nat option" where "rnexts tsk f = fr_rnext (t_frames tsk f)"
definition sprevs :: "task \<Rightarrow> nat \<Rightarrow> nat option" where "sprevs tsk f = fr_sprev (t_frames tsk f)"
definition snexts :: "task \<Rightarrow> nat \<Rightarrow> nat option" where "snexts tsk f = fr_snext (t_frames tsk f)"
definition heads :: "task \<Rightarrow> wqref \<Rightarrow> nat option" where "heads tsk w = wq_frames (get_wq tsk w)"
definition fetchers :: "task \<Rightarrow> wqref \<Rightarrow> gaddr list" where "fetchers tsk w = wq_fetchers (get_wq tsk w)"

lemmas view_defs = states_def postponeds_def freelnks_def waitlnks_def rnexts_def sprevs_def snexts_def heads_def fetchers_def

lemma view_folds [simp]:
  "fr_state (t_frames tsk f) = states tsk f" "fr_postponed (t_frames tsk f) = postponeds tsk f" "fr_freelnk (t_frames tsk f) = freelnks tsk f"
  "fr_waitlnk (t_frames tsk f) = waitlnks tsk f" "fr_rnext (t_frames tsk f) = rnexts tsk f" "fr_sprev (t_frames tsk f) = sprevs tsk f"
  "fr_snext (t_frames tsk f) = snexts tsk f" "wq_frames (fr_wq (t_frames tsk f)) = heads tsk (WqFrame f)"
  "wq_fetchers (fr_wq (t_frames tsk f)) = fetchers tsk (WqFrame f)" "wq_frames (get_wq tsk w) = heads tsk w" "wq_fetchers (get_wq tsk w) = fetchers tsk w"
  "wq_frames (t_globals tsk k) = heads tsk (WqGlobal k)" "wq_fetchers (t_globals tsk k) = fetchers tsk (WqGlobal k)"
  by (simp_all add: view_defs)

lemma t_frames_fr_upd: "t_frames (fr_upd tsk f g) x = (if x = f then g (t_frames tsk f) else t_frames tsk x)"
  by (simp add: fr_upd_def)

lemma get_wq_fr_upd: "get_wq (fr_upd tsk f g) x = (if x = WqFrame f then fr_wq (g (t_frames tsk f)) else get_wq tsk x)"
  by (cases x) (simp_all add: fr_upd_def)

lemma get_wq_set_wq: "get_wq (set_wq tsk w q) x = (if x = w then q else get_wq tsk x)"
  by (cases w; cases x) (simp_all add: fr_upd_def)

lemma t_frames_set_wq:
  "t_frames (set_wq tsk (WqFrame f) q) x = (if x = f then (t_frames tsk f)\<lparr>fr_wq := q\<rparr> else t_frames tsk x)"
  "fr_state (t_frames (set_wq tsk w q) x) = fr_state (t_frames tsk x)" "fr_postponed (t_frames (set_wq tsk w q) x) = fr_postponed (t_frames tsk x)"
  "fr_freelnk (t_frames (set_wq tsk w q) x) = fr_freelnk (t_frames tsk x)" "fr_waitlnk (t_frames (set_wq tsk w q) x) = fr_waitlnk (t_frames tsk x)"
  "fr_rnext (t_frames (set_wq tsk w q) x) = fr_rnext (t_frames tsk x)" "fr_sprev (t_frames (set_wq tsk w q) x) = fr_sprev (t_frames tsk x)"
  "fr_snext (t_frames (set_wq tsk w q) x) = fr_snext (t_frames tsk x)" "fr_instr (t_frames (set_wq tsk w q) x) = fr_instr (t_frames tsk x)"
  by (cases w; simp add: fr_upd_def del: view_folds)+

lemma views_fr_upd [simp]:
  "states (fr_upd tsk f g) = (states tsk)(f := fr_state (g (t_frames tsk f)))"
  "postponeds (fr_upd tsk f g) = (postponeds tsk)(f := fr_postponed (g (t_frames tsk f)))"
  "freelnks (fr_upd tsk f g) = (freelnks tsk)(f := fr_freelnk (g (t_frames tsk f)))"
  "waitlnks (fr_upd tsk f g) = (waitlnks tsk)(f := fr_waitlnk (g (t_frames tsk f)))"
  "rnexts (fr_upd tsk f g) = (rnexts tsk)(f := fr_rnext (g (t_frames tsk f)))"
  "sprevs (fr_upd tsk f g) = (sprevs tsk)(f := fr_sprev (g (t_frames tsk f)))"
  "snexts (fr_upd tsk f g) = (snexts tsk)(f := fr_snext (g (t_frames tsk f)))"
  "heads (fr_upd tsk f g) = (heads tsk)(WqFrame f := wq_frames (fr_wq (g (t_frames tsk f))))"
  "fetchers (fr_upd tsk f g) = (fetchers tsk)(WqFrame f := wq_fetchers (fr_wq (g (t_frames tsk f))))"
  by (rule ext, simp add: view_defs get_wq_fr_upd t_frames_fr_upd del: view_folds)+

lemma views_set_wq [simp]:
  "states (set_wq tsk w q) = states tsk" "postponeds (set_wq tsk w q) = postponeds tsk" "freelnks (set_wq tsk w q) = freelnks tsk"
  "waitlnks (set_wq tsk w q) = waitlnks tsk" "rnexts (set_wq tsk w q) = rnexts tsk" "sprevs (set_wq tsk w q) = sprevs tsk"
  "snexts (set_wq tsk w q) = snexts tsk" "heads (set_wq tsk w q) = (heads tsk)(w := wq_frames q)" "fetchers (set_wq tsk w q) = (fetchers tsk)(w := wq_fetchers q)"
  by (rule ext, simp add: view_defs get_wq_set_wq t_frames_set_wq(2-) del: view_folds)+

lemma get_wq_fields: "get_wq (tsk\<lparr>t_run := r\<rparr>) x = get_wq tsk x" "get_wq (tsk\<lparr>t_freeframe := r\<rparr>) x = get_wq tsk x"
  by (cases x; simp)+

lemma views_fields [simp]:
  "states (tsk\<lparr>t_run := r\<rparr>) = states tsk" "postponeds (tsk\<lparr>t_run := r\<rparr>) = postponeds tsk" "freelnks (tsk\<lparr>t_run := r\<rparr>) = freelnks tsk"
  "waitlnks (tsk\<lparr>t_run := r\<rparr>) = waitlnks tsk" "rnexts (tsk\<lparr>t_run := r\<rparr>) = rnexts tsk" "sprevs (tsk\<lparr>t_run := r\<rparr>) = sprevs tsk"
  "snexts (tsk\<lparr>t_run := r\<rparr>) = snexts tsk" "heads (tsk\<lparr>t_run := r\<rparr>) = heads tsk" "fetchers (tsk\<lparr>t_run := r\<rparr>) = fetchers tsk"
  "states (tsk\<lparr>t_freeframe := r\<rparr>) = states tsk" "postponeds (tsk\<lparr>t_freeframe := r\<rparr>) = postponeds tsk" "freelnks (tsk\<lparr>t_freeframe := r\<rparr>) = freelnks tsk"
  "waitlnks (tsk\<lparr>t_freeframe := r\<rparr>) = waitlnks tsk" "rnexts (tsk\<lparr>t_freeframe := r\<rparr>) = rnexts tsk" "sprevs (tsk\<lparr>t_freeframe := r\<rparr>) = sprevs tsk"
  "snexts (tsk\<lparr>t_freeframe := r\<rparr>) = snexts tsk" "heads (tsk\<lparr>t_freeframe := r\<rparr>) = heads tsk" "fetchers (tsk\<lparr>t_freeframe := r\<rparr>) = fetchers tsk"
  by (rule ext, simp add: view_defs get_wq_fields del: view_folds)+

subsection \<open>Linked lists\<close>

fun chain :: "(nat \<Rightarrow> nat option) \<Rightarrow> nat option \<Rightarrow> nat list \<Rightarrow> bool" where
  "chain nxt p [] \<longleftrightarrow> p = None"
| "chain nxt p (f # fs) \<longleftrightarrow> p = Some f \<and> chain nxt (nxt f) fs"

lemma chain_upd [simp]: "f \<notin> set fs \<Longrightarrow> chain (nxt(f := v)) p fs = chain nxt p fs"
  by (induction fs arbitrary: p) auto

lemma chain_append: "chain nxt p (fs @ gs) \<longleftrightarrow> (if fs = [] then chain nxt p gs else chain (nxt(last fs := None)) p fs \<and> chain nxt (nxt (last fs)) gs)"
  if "distinct fs" using that
proof (induction fs arbitrary: p)
  case (Cons f fs)
  show ?case
  proof (cases "fs = []")
    case False
    then have "f \<noteq> last fs" using Cons.prems last_in_set by auto
    then show ?thesis using Cons.IH [of "nxt f"] Cons.prems False by simp
  qed simp
qed simp

text \<open>The queues of all owners share the field \<^verbatim>\<open>waitlnk\<close>; the other lists are the case of one owner.\<close>

definition listings :: "(nat \<Rightarrow> nat option) \<Rightarrow> ('w \<Rightarrow> nat option) \<Rightarrow> ('w \<Rightarrow> nat list) \<Rightarrow> bool" where
  "listings nxt hed ws \<longleftrightarrow> (\<forall>w. chain nxt (hed w) (ws w) \<and> distinct (ws w)) \<and>
     (\<forall>v w. v \<noteq> w \<longrightarrow> set (ws v) \<inter> set (ws w) = {}) \<and> (\<forall>f. (\<forall>w. f \<notin> set (ws w)) \<longrightarrow> nxt f = None)"

abbreviation listing :: "(nat \<Rightarrow> nat option) \<Rightarrow> nat option \<Rightarrow> nat list \<Rightarrow> bool" where
  "listing nxt p fs \<equiv> listings nxt (\<lambda>u :: unit. p) (\<lambda>u :: unit. fs)"

lemma listings_push:
  assumes "listings nxt hed ws" "\<forall>w. f \<notin> set (ws w)"
  shows "listings (nxt(f := hed w)) (hed(w := Some f)) (ws(w := f # ws w))"
  using assms unfolding listings_def by auto

lemma listings_pop:
  assumes "listings nxt hed ws" "ws w = f # fs"
  shows "listings (nxt(f := None)) (hed(w := nxt f)) (ws(w := fs)) \<and> hed w = Some f"
proof -
  have d: "distinct (f # fs)" "chain nxt (hed w) (f # fs)" using assms unfolding listings_def by metis+
  have n: "f \<notin> set (ws v)" if "v \<noteq> w" for v using assms that unfolding listings_def by (metis disjoint_iff list.set_intros(1))
  have "set ((ws(w := fs)) v) \<subseteq> set (ws v)" for v using assms(2) by auto
  then have dj: "set ((ws(w := fs)) u) \<inter> set ((ws(w := fs)) v) = {}" if "u \<noteq> v" for u v using assms(1) that unfolding listings_def by blast
  have "nxt g = None" if "\<forall>v. g \<notin> set ((ws(w := fs)) v)" "g \<noteq> f" for g
    using assms that unfolding listings_def by (metis fun_upd_apply set_ConsD)
  moreover have "chain (nxt(f := None)) ((hed(w := nxt f)) v) ((ws(w := fs)) v) \<and> distinct ((ws(w := fs)) v)" for v
    using assms(1) d n [of v] unfolding listings_def by (cases "v = w") auto
  ultimately show ?thesis using dj d(2) unfolding listings_def by auto
qed

lemma listings_empty: "listings nxt hed ws \<Longrightarrow> ws w = [] \<longleftrightarrow> hed w = None"
  unfolding listings_def by (metis chain.elims(2) chain.simps(1) option.discI)

lemma listings_None: "listings nxt hed ws \<Longrightarrow> \<forall>w. f \<notin> set (ws w) \<Longrightarrow> nxt f = None"
  unfolding listings_def by blast

lemma listing_push: "listing nxt p fs \<Longrightarrow> f \<notin> set fs \<Longrightarrow> listing (nxt(f := p)) (Some f) (f # fs)"
  using listings_push [of nxt "\<lambda>u. p" "\<lambda>u. fs" f "()"] by (simp add: fun_upd_def)

lemma listing_pop: "listing nxt p (f # fs) \<Longrightarrow> listing (nxt(f := None)) (nxt f) fs \<and> p = Some f"
  using listings_pop [of nxt "\<lambda>u. p" "\<lambda>u. f # fs" "()" f fs] by (simp add: fun_upd_def)

lemma listing_second:
  assumes "listing nxt p (r # fs)" "f \<notin> set (r # fs)"
  shows "listing (nxt(f := nxt r, r := Some f)) p (r # f # fs)"
  using assms unfolding listings_def by auto

lemma listing_case: "listing nxt p fs \<Longrightarrow> p = (case fs of [] \<Rightarrow> None | f # gs \<Rightarrow> Some f)"
  by (cases fs) (auto simp: listings_def)

lemma listing_distinct: "listing nxt p fs \<Longrightarrow> distinct fs"
  by (simp add: listings_def)

text \<open>Doubly linked: each element of a sequence leads to the next one and back.\<close>

fun links :: "(nat \<Rightarrow> nat option) \<Rightarrow> (nat \<Rightarrow> nat option) \<Rightarrow> nat list \<Rightarrow> bool" where
  "links nxt prv (f # g # fs) \<longleftrightarrow> nxt f = Some g \<and> prv g = Some f \<and> links nxt prv (g # fs)"
| "links nxt prv fs \<longleftrightarrow> True"

lemma links_append: "links nxt prv (fs @ g # gs) \<longleftrightarrow> links nxt prv (fs @ [g]) \<and> links nxt prv (g # gs)"
proof (induction fs)
  case (Cons f fs)
  then show ?case by (cases fs) auto
qed simp

lemma links_cong:
  "(\<forall>f \<in> set (butlast fs). nxt f = nxt' f) \<Longrightarrow> (\<forall>f \<in> set (tl fs). prv f = prv' f) \<Longrightarrow> links nxt prv fs = links nxt' prv' fs"
proof (induction fs rule: links.induct [of _ nxt prv])
  case (1 nxt prv f g fs)
  then show ?case by (cases fs) auto
qed auto

definition ring :: "(nat \<Rightarrow> nat option) \<Rightarrow> (nat \<Rightarrow> nat option) \<Rightarrow> nat \<Rightarrow> nat list \<Rightarrow> bool" where
  "ring nxt prv s fs \<longleftrightarrow> links nxt prv (s # fs @ [s]) \<and> distinct (s # fs) \<and> (\<forall>f. f \<notin> set (s # fs) \<longrightarrow> nxt f = None \<and> prv f = None)"

lemma set_tl_D: "f \<in> set (tl fs) \<Longrightarrow> f \<in> set fs"
  by (cases fs) auto

lemma links_upd:
  "links nxt prv fs \<Longrightarrow> (\<forall>f \<in> set (butlast fs). nxt' f = nxt f) \<Longrightarrow> (\<forall>f \<in> set (tl fs). prv' f = prv f) \<Longrightarrow> links nxt' prv' fs"
  using links_cong [of fs nxt nxt' prv prv'] by metis

lemma ring_nxt: "ring nxt prv s (as @ f # bs) \<Longrightarrow> nxt f = Some (hd (bs @ [s])) \<and> prv (hd (bs @ [s])) = Some f"
  unfolding ring_def using links_append [of nxt prv "s # as" f "bs @ [s]"] by (cases bs) auto

lemma ring_prv:
  assumes "ring nxt prv s (as @ f # bs)"
  shows "prv f = Some (last (s # as)) \<and> nxt (last (s # as)) = Some f"
proof -
  have "links nxt prv ((s # as) @ [f])" using assms unfolding ring_def using links_append [of nxt prv "s # as" f "bs @ [s]"] by simp
  then have "links nxt prv (butlast (s # as) @ last (s # as) # [f])" by (metis append.assoc append_Cons append_Nil append_butlast_last_id list.distinct(1))
  then show ?thesis using links_append [of nxt prv "butlast (s # as)" "last (s # as)" "[f]"] by simp
qed

lemma ring_ends:
  assumes "ring nxt prv s fs"
  shows "nxt s = Some (hd (fs @ [s])) \<and> prv (hd (fs @ [s])) = Some s \<and> prv s = Some (last (s # fs)) \<and> nxt (last (s # fs)) = Some s"
proof -
  have l: "links nxt prv (s # fs @ [s])" using assms by (simp add: ring_def)
  then have "links nxt prv (butlast (s # fs) @ last (s # fs) # [s])" by (metis append.assoc append_Cons append_Nil append_butlast_last_id list.distinct(1))
  then have "prv s = Some (last (s # fs)) \<and> nxt (last (s # fs)) = Some s" using links_append [of nxt prv "butlast (s # fs)" "last (s # fs)" "[s]"] by simp
  moreover have "nxt s = Some (hd (fs @ [s])) \<and> prv (hd (fs @ [s])) = Some s" using l by (cases fs) auto
  ultimately show ?thesis by blast
qed

lemma ring_prepend:
  assumes r: "ring nxt prv s fs" and f: "f \<notin> set (s # fs)" and first: "first = hd (fs @ [s])"
  shows "ring (nxt(f := Some first, s := Some f)) (prv(f := Some s, first := Some f)) s (f # fs)"
proof (cases fs)
  case Nil
  then show ?thesis using r f first by (auto simp: ring_def)
next
  case (Cons a bs)
  then have l: "links nxt prv (a # bs @ [s])" "distinct (s # a # bs)" using r by (simp_all add: ring_def)
  have "links (nxt(f := Some a, s := Some f)) (prv(f := Some s, a := Some f)) (a # bs @ [s])"
    by (rule links_upd [OF l(1)]) (use l(2) f Cons in \<open>auto simp: butlast_append\<close>)
  then show ?thesis using r f first Cons l(2) unfolding ring_def by auto
qed

lemma ring_append:
  assumes r: "ring nxt prv s fs" and f: "f \<notin> set (s # fs)" and last: "l = last (s # fs)"
  shows "ring (nxt(f := Some s, l := Some f)) (prv(f := Some l, s := Some f)) s (fs @ [f])"
proof -
  let ?n = "nxt(f := Some s, l := Some f)" and ?p = "prv(f := Some l, s := Some f)"
  define as where "as = butlast (s # fs)"
  have e: "s # fs = as @ [l]" using last by (simp add: as_def)
  then have e2: "s # fs @ [s] = as @ l # [s]" "s # (fs @ [f]) @ [s] = as @ l # f # [s]" by (metis append.assoc append_Cons append_Nil)+
  have d: "distinct (as @ [l])" "f \<notin> set (as @ [l])" using r f e unfolding ring_def by metis+
  have s: "s \<notin> set (tl (as @ [l]))" using r e unfolding ring_def by (metis distinct.simps(2) list.sel(3))
  have "links nxt prv (as @ [l])" using r links_append [of nxt prv as l "[s]"] unfolding ring_def e2(1) by blast
  then have "links ?n ?p (as @ [l])"
    by (rule links_upd) (use d s in \<open>auto dest: set_tl_D\<close>)
  moreover have "l \<noteq> f" "s \<noteq> f" using d f by auto
  then have "links ?n ?p (l # f # [s])" by simp
  ultimately have "links ?n ?p (s # (fs @ [f]) @ [s])" unfolding e2(2) using links_append [of ?n ?p as l "[f, s]"] by blast
  moreover have "l \<in> set (s # fs)" using e by simp
  ultimately show ?thesis using r f unfolding ring_def by auto
qed

lemma ring_remove:
  assumes r: "ring nxt prv s (as @ f # bs)" and p: "p = last (s # as)" and n: "n = hd (bs @ [s])"
  shows "ring (nxt(p := Some n, f := None)) (prv(n := Some p, f := None)) s (as @ bs)"
proof -
  let ?n = "nxt(p := Some n, f := None)" and ?p = "prv(n := Some p, f := None)"
  define cs ds where "cs = butlast (s # as)" and "ds = tl (bs @ [s])"
  have e: "s # as = cs @ [p]" "bs @ [s] = n # ds" using p n by (simp_all add: cs_def ds_def)
  then have e2: "s # (as @ f # bs) @ [s] = cs @ p # f # n # ds" "s # (as @ bs) @ [s] = cs @ p # n # ds" by (metis append.assoc append_Cons append_Nil)+
  have d: "distinct (s # as @ f # bs)" using r by (simp add: ring_def)
  then have d1: "distinct (cs @ [p])" "f \<notin> set (cs @ [p])" unfolding e(1) [symmetric] by auto
  have d2: "distinct (n # ds)" "f \<notin> set (n # ds)" unfolding e(2) [symmetric] using d by auto
  have l: "links nxt prv (cs @ p # f # n # ds)" using r unfolding ring_def e2(1) by blast
  then have l1: "links nxt prv (cs @ [p])" "links nxt prv (n # ds)" using links_append [of nxt prv cs p "f # n # ds"] by auto
  have np: "n \<notin> set (tl (cs @ [p]))" "p \<notin> set (butlast (n # ds))"
  proof -
    have "tl (cs @ [p]) = as" "butlast (n # ds) = bs" using e by (metis list.sel(3)) (metis e(2) butlast_snoc)
    moreover have "n \<in> set (bs @ [s])" "p \<in> set (s # as)" using e by simp_all
    ultimately show "n \<notin> set (tl (cs @ [p]))" "p \<notin> set (butlast (n # ds))" using d by auto
  qed
  have "links ?n ?p (cs @ [p])" by (rule links_upd [OF l1(1)]) (use d1 np in \<open>auto dest: set_tl_D\<close>)
  moreover have "links ?n ?p (n # ds)" by (rule links_upd [OF l1(2)]) (use d2 np in \<open>auto dest: in_set_butlastD\<close>)
  moreover have "p \<noteq> f" "n \<noteq> f" using d1 d2 by auto
  ultimately have "links ?n ?p (s # (as @ bs) @ [s])" unfolding e2(2) using links_append [of ?n ?p cs p "n # ds"] by simp
  moreover have "n \<in> set (bs @ [s])" "p \<in> set (s # as)" using e by simp_all
  ultimately show ?thesis using r d unfolding ring_def by auto
qed

subsection \<open>The lists\<close>

text \<open>What the structures stand for: plain lists, and the state of each frame.\<close>

record sched =
  s_total :: nat
  s_free :: "nat list"
  s_sparks :: "nat list"
  s_run :: "nat list"
  s_wait :: "wqref \<Rightarrow> nat list"
  s_fetch :: "wqref \<Rightarrow> gaddr list"
  s_state :: "nat \<Rightarrow> frame_state"
  s_postponed :: "nat \<Rightarrow> bool"

datatype sched_op =
    New | Free nat | Spark nat | Unspark nat | Run nat | Run_After_First nat | Block nat | Unblock nat
  | Unblock_After_First nat | Done nat | Wait wqref nat | Resume wqref | Transfer wqref wqref | Postpone nat nat

definition exec :: "instruction list \<Rightarrow> sched_op \<Rightarrow> task \<Rightarrow> task option" where
  "exec prog op tsk =
     (case op of
        New \<Rightarrow> map_option snd (frame_new tsk)
      | Free f \<Rightarrow> frame_free tsk f
      | Spark f \<Rightarrow> spark_frame tsk f
      | Unspark f \<Rightarrow> unspark_frame tsk f
      | Run f \<Rightarrow> run_frame tsk f
      | Run_After_First f \<Rightarrow> run_frame_after_first tsk f
      | Block f \<Rightarrow> block_frame tsk f
      | Unblock f \<Rightarrow> unblock_frame tsk f
      | Unblock_After_First f \<Rightarrow> unblock_frame_after_first tsk f
      | Done f \<Rightarrow> done_frame tsk f
      | Wait w f \<Rightarrow> add_waiter_frame tsk w f
      | Resume w \<Rightarrow> resume_local_waiters prog tsk w
      | Transfer v w \<Rightarrow> transfer_waiters_and_fetchers tsk v w
      | Postpone f address \<Rightarrow> postpone_frame tsk f address)"

fun second :: "nat list \<Rightarrow> nat \<Rightarrow> nat list" where
  "second [] f = [f]"
| "second (r # rs) f = r # f # rs"

definition s_block :: "nat \<Rightarrow> sched \<Rightarrow> sched" where
  "s_block n s =
     s\<lparr>s_free := [s_total s..<s_total s + n], s_total := s_total s + n,
       s_postponed := (\<lambda>f. if s_total s \<le> f \<and> f < s_total s + n then False else s_postponed s f)\<rparr>"

definition s_new :: "nat \<Rightarrow> sched \<Rightarrow> sched" where
  "s_new n s0 =
     (let s = (if s_free s0 = [] then s_block n s0 else s0); f = hd (s_free s)
      in s\<lparr>s_free := tl (s_free s), s_state := (s_state s)(f := STATE_NEW), s_postponed := (s_postponed s)(f := False)\<rparr>)"

text \<open>A frame leaves the sparks to run at place \<open>q\<close> of the queue.\<close>

definition s_start :: "(nat list \<Rightarrow> nat \<Rightarrow> nat list) \<Rightarrow> nat \<Rightarrow> sched \<Rightarrow> sched" where
  "s_start q f s =
     (if s_state s f = STATE_SPARKED \<or> s_state s f = STATE_NEW
      then s\<lparr>s_sparks := remove1 f (s_sparks s), s_run := q (s_run s) f, s_state := (s_state s)(f := STATE_ACTIVE)\<rparr> else s)"

definition s_step :: "nat \<Rightarrow> sched_op \<Rightarrow> sched \<Rightarrow> sched" where
  "s_step n op s =
     (case op of
        New \<Rightarrow> s_new n s
      | Free f \<Rightarrow> s\<lparr>s_free := f # s_free s, s_state := (s_state s)(f := STATE_UNALLOCATED)\<rparr>
      | Spark f \<Rightarrow> if s_state s f = STATE_NEW then s\<lparr>s_sparks := f # s_sparks s, s_state := (s_state s)(f := STATE_SPARKED)\<rparr> else s
      | Unspark f \<Rightarrow> s\<lparr>s_sparks := remove1 f (s_sparks s), s_state := (s_state s)(f := STATE_NEW)\<rparr>
      | Run f \<Rightarrow> s_start (\<lambda>rs f. f # rs) f s
      | Run_After_First f \<Rightarrow> s_start second f s
      | Block f \<Rightarrow> s\<lparr>s_run := tl (s_run s)\<rparr>
      | Unblock f \<Rightarrow> s\<lparr>s_run := f # s_run s\<rparr>
      | Unblock_After_First f \<Rightarrow> s\<lparr>s_run := second (s_run s) f\<rparr>
      | Done f \<Rightarrow> s\<lparr>s_run := tl (s_run s), s_state := (s_state s)(f := STATE_DONE)\<rparr>
      | Wait w f \<Rightarrow> s\<lparr>s_wait := (s_wait s)(w := f # s_wait s w)\<rparr>
      | Resume w \<Rightarrow> s\<lparr>s_run := foldl second (s_run s) (s_wait s w), s_wait := (s_wait s)(w := [])\<rparr>
      | Transfer v w \<Rightarrow> s\<lparr>s_wait := (s_wait s)(w := s_wait s w @ s_wait s v, v := []), s_fetch := (s_fetch s)(w := s_fetch s w @ s_fetch s v, v := [])\<rparr>
      | Postpone f address \<Rightarrow>
          s\<lparr>s_run := tl (s_run s), s_sparks := s_sparks s @ [f], s_state := (s_state s)(f := STATE_SPARKED), s_postponed := (s_postponed s)(f := True)\<rparr>)"

definition live_wq :: "sched \<Rightarrow> wqref \<Rightarrow> bool" where
  "live_wq s w \<longleftrightarrow> (case w of WqFrame f \<Rightarrow> s_state s f \<noteq> STATE_UNALLOCATED | WqGlobal g \<Rightarrow> True)"

definition waits :: "sched \<Rightarrow> nat \<Rightarrow> bool" where
  "waits s f \<longleftrightarrow> (\<exists>w. f \<in> set (s_wait s w))"

text \<open>What the callers see to. The cell, the return address and the program counter are in the frame.\<close>

definition allowed :: "instruction list \<Rightarrow> task \<Rightarrow> sched \<Rightarrow> sched_op \<Rightarrow> bool" where
  "allowed prog tsk s op \<longleftrightarrow>
     (case op of
        New \<Rightarrow> True
      | Free f \<Rightarrow> f \<noteq> t_sparklist tsk \<and> s_state s f \<in> {STATE_NEW, STATE_DONE} \<and> fr_c (t_frames tsk f) = None \<and> fr_retp (t_frames tsk f) = None \<and>
                  s_wait s (WqFrame f) = [] \<and> s_fetch s (WqFrame f) = []
      | Spark f \<Rightarrow> f \<noteq> t_sparklist tsk \<and> (s_state s f = STATE_NEW \<longrightarrow> \<not> s_postponed s f)
      | Unspark f \<Rightarrow> f \<noteq> t_sparklist tsk \<and> s_state s f \<in> {STATE_NEW, STATE_SPARKED} \<and> (\<forall>c \<in> set_option (fr_c (t_frames tsk f)). t_cells tsk c = Some f)
      | Run f \<Rightarrow> f \<noteq> t_sparklist tsk
      | Run_After_First f \<Rightarrow> f \<noteq> t_sparklist tsk
      | Block f \<Rightarrow> s_run s \<noteq> [] \<and> hd (s_run s) = f
      | Unblock f \<Rightarrow> s_state s f = STATE_ACTIVE \<and> f \<notin> set (s_run s)
      | Unblock_After_First f \<Rightarrow> s_state s f = STATE_ACTIVE \<and> f \<notin> set (s_run s)
      | Done f \<Rightarrow> s_run s \<noteq> [] \<and> hd (s_run s) = f \<and> \<not> waits s f
      | Wait w f \<Rightarrow> s_state s f = STATE_ACTIVE \<and> \<not> waits s f \<and> live_wq s w
      | Resume w \<Rightarrow> \<forall>f \<in> set (s_wait s w). f \<notin> set (s_run s) \<and> waits_at prog (fr_instr (t_frames tsk f))
      | Transfer v w \<Rightarrow> v \<noteq> w \<and> live_wq s w
      | Postpone f address \<Rightarrow> s_run s \<noteq> [] \<and> hd (s_run s) = f \<and> \<not> waits s f)"

definition sched_ok :: "sched \<Rightarrow> bool" where
  "sched_ok s \<longleftrightarrow> (\<forall>f. f \<in> set (s_free s) \<longleftrightarrow> f < s_total s \<and> s_state s f = STATE_UNALLOCATED) \<and>
     (\<forall>f. f \<in> set (s_sparks s) \<longleftrightarrow> s_state s f = STATE_SPARKED) \<and> (\<forall>f \<in> set (s_run s). s_state s f = STATE_ACTIVE) \<and>
     (\<forall>w. \<forall>f \<in> set (s_wait s w). s_state s f = STATE_ACTIVE) \<and> (\<forall>f. s_total s \<le> f \<longrightarrow> s_state s f = STATE_UNALLOCATED) \<and>
     (\<forall>f. s_state s f = STATE_UNALLOCATED \<longrightarrow> s_wait s (WqFrame f) = [] \<and> s_fetch s (WqFrame f) = []) \<and>
     postponed_at_end False (map (s_postponed s) (s_sparks s))"

definition represents :: "task \<Rightarrow> sched \<Rightarrow> bool" where
  "represents tsk s \<longleftrightarrow> sched_ok s \<and> states tsk = s_state s \<and> postponeds tsk = s_postponed s \<and>
     listing (freelnks tsk) (t_freeframe tsk) (s_free s) \<and> listing (rnexts tsk) (t_run tsk) (s_run s) \<and>
     listings (waitlnks tsk) (heads tsk) (s_wait s) \<and> fetchers tsk = s_fetch s \<and>
     ring (snexts tsk) (sprevs tsk) (t_sparklist tsk) (s_sparks s) \<and> s_state s (t_sparklist tsk) = STATE_NEW \<and>
     s_total s = t_nblocks tsk * t_framesperblock tsk \<and> 0 < t_framesperblock tsk \<and> \<not> t_done tsk"

subsection \<open>The structures implement the lists\<close>

lemma postponed_at_end_weaken: "postponed_at_end True ps \<Longrightarrow> postponed_at_end b ps"
  by (induction ps arbitrary: b) (auto simp: Let_def)

lemma postponed_at_end_False: "postponed_at_end b ps \<Longrightarrow> postponed_at_end False ps"
  by (cases b) (simp_all add: postponed_at_end_weaken)

lemma postponed_at_end_snoc: "postponed_at_end b ps \<Longrightarrow> postponed_at_end b (ps @ [True])"
  by (induction ps arbitrary: b) (auto simp: Let_def)

lemma postponed_at_end_remove: "postponed_at_end b (ps @ p # qs) \<Longrightarrow> postponed_at_end b (ps @ qs)"
  by (induction ps arbitrary: b) (auto simp: Let_def intro: postponed_at_end_weaken postponed_at_end_False)

lemma fr_upd_fields [simp]:
  "t_run (fr_upd tsk f g) = t_run tsk" "t_freeframe (fr_upd tsk f g) = t_freeframe tsk" "t_sparklist (fr_upd tsk f g) = t_sparklist tsk"
  "t_nblocks (fr_upd tsk f g) = t_nblocks tsk" "t_framesperblock (fr_upd tsk f g) = t_framesperblock tsk" "t_done (fr_upd tsk f g) = t_done tsk"
  "t_cells (fr_upd tsk f g) = t_cells tsk"
  by (simp_all add: fr_upd_def)

lemma set_wq_fields [simp]:
  "t_run (set_wq tsk w q) = t_run tsk" "t_freeframe (set_wq tsk w q) = t_freeframe tsk" "t_sparklist (set_wq tsk w q) = t_sparklist tsk"
  "t_nblocks (set_wq tsk w q) = t_nblocks tsk" "t_framesperblock (set_wq tsk w q) = t_framesperblock tsk" "t_done (set_wq tsk w q) = t_done tsk"
  by (cases w; simp)+

lemma representsD:
  assumes "represents tsk s"
  shows "states tsk f = s_state s f" "postponeds tsk f = s_postponed s f" "fetchers tsk w = s_fetch s w"
    "listing (freelnks tsk) (t_freeframe tsk) (s_free s)" "listing (rnexts tsk) (t_run tsk) (s_run s)"
    "listings (waitlnks tsk) (heads tsk) (s_wait s)" "ring (snexts tsk) (sprevs tsk) (t_sparklist tsk) (s_sparks s)" "sched_ok s"
    "s_state s (t_sparklist tsk) = STATE_NEW"
  using assms by (simp_all add: represents_def)

text \<open>Changes to the spark list only.\<close>

definition same_rest :: "task \<Rightarrow> task \<Rightarrow> bool" where
  "same_rest tsk tsk' \<longleftrightarrow> states tsk' = states tsk \<and> postponeds tsk' = postponeds tsk \<and> freelnks tsk' = freelnks tsk \<and> rnexts tsk' = rnexts tsk \<and>
     waitlnks tsk' = waitlnks tsk \<and> heads tsk' = heads tsk \<and> fetchers tsk' = fetchers tsk \<and> t_run tsk' = t_run tsk \<and> t_freeframe tsk' = t_freeframe tsk \<and>
     t_sparklist tsk' = t_sparklist tsk \<and> t_nblocks tsk' = t_nblocks tsk \<and> t_framesperblock tsk' = t_framesperblock tsk \<and> t_done tsk' = t_done tsk \<and>
     t_cells tsk' = t_cells tsk \<and> (\<forall>f. fr_c (t_frames tsk' f) = fr_c (t_frames tsk f))"

lemma same_rest_intros [intro]:
  "same_rest tsk tsk" "same_rest tsk tsk' \<Longrightarrow> same_rest tsk (fr_upd tsk' f (\<lambda>fr. fr\<lparr>fr_snext := v\<rparr>))"
  "same_rest tsk tsk' \<Longrightarrow> same_rest tsk (fr_upd tsk' f (\<lambda>fr. fr\<lparr>fr_sprev := v\<rparr>))"
  "same_rest tsk tsk' \<Longrightarrow> same_rest tsk (fr_upd tsk' f (\<lambda>fr. fr\<lparr>fr_sprev := v, fr_snext := u\<rparr>))"
  by (simp_all add: same_rest_def fun_upd_idem t_frames_fr_upd)

lemma prepend_spark_effect:
  assumes "sprevs tsk f = None" "snexts tsk f = None" "snexts tsk (t_sparklist tsk) = Some first" "f \<noteq> first" "f \<noteq> t_sparklist tsk"
  shows "\<exists>tsk'. prepend_spark tsk f = Some tsk' \<and> snexts tsk' = (snexts tsk)(f := Some first, t_sparklist tsk := Some f) \<and>
    sprevs tsk' = (sprevs tsk)(f := Some (t_sparklist tsk), first := Some f) \<and> same_rest tsk tsk'"
proof -
  let ?t = "fr_upd (fr_upd (fr_upd (fr_upd tsk f (\<lambda>fr. fr\<lparr>fr_sprev := Some (t_sparklist tsk)\<rparr>)) f (\<lambda>fr. fr\<lparr>fr_snext := Some first\<rparr>))
      first (\<lambda>fr. fr\<lparr>fr_sprev := Some f\<rparr>)) (t_sparklist tsk) (\<lambda>fr. fr\<lparr>fr_snext := Some f\<rparr>)"
  have "prepend_spark tsk f = Some ?t" using assms by (simp add: prepend_spark_def Let_def)
  moreover have "same_rest tsk ?t" by (intro same_rest_intros)
  moreover have "snexts ?t = (snexts tsk)(f := Some first, t_sparklist tsk := Some f)" "sprevs ?t = (sprevs tsk)(f := Some (t_sparklist tsk), first := Some f)"
    using assms by (auto simp: fun_eq_iff)
  ultimately show ?thesis by blast
qed

lemma append_spark_effect:
  assumes "sprevs tsk f = None" "snexts tsk f = None" "sprevs tsk (t_sparklist tsk) = Some l" "f \<noteq> l" "f \<noteq> t_sparklist tsk"
  shows "\<exists>tsk'. append_spark tsk f = Some tsk' \<and> snexts tsk' = (snexts tsk)(f := Some (t_sparklist tsk), l := Some f) \<and>
    sprevs tsk' = (sprevs tsk)(f := Some l, t_sparklist tsk := Some f) \<and> same_rest tsk tsk'"
proof -
  let ?t = "fr_upd (fr_upd (fr_upd (fr_upd tsk f (\<lambda>fr. fr\<lparr>fr_snext := Some (t_sparklist tsk)\<rparr>)) f (\<lambda>fr. fr\<lparr>fr_sprev := Some l\<rparr>))
      l (\<lambda>fr. fr\<lparr>fr_snext := Some f\<rparr>)) (t_sparklist tsk) (\<lambda>fr. fr\<lparr>fr_sprev := Some f\<rparr>)"
  have "append_spark tsk f = Some ?t" using assms by (simp add: append_spark_def Let_def)
  moreover have "same_rest tsk ?t" by (intro same_rest_intros)
  moreover have "snexts ?t = (snexts tsk)(f := Some (t_sparklist tsk), l := Some f)" "sprevs ?t = (sprevs tsk)(f := Some l, t_sparklist tsk := Some f)"
    using assms by (auto simp: fun_eq_iff)
  ultimately show ?thesis by blast
qed

lemma remove_spark_effect:
  assumes "ring (snexts tsk) (sprevs tsk) s fs" "f \<in> set fs"
  shows "\<exists>tsk'. remove_spark tsk f = Some tsk' \<and> ring (snexts tsk') (sprevs tsk') s (remove1 f fs) \<and> same_rest tsk tsk'"
proof -
  obtain as bs where fs: "fs = as @ f # bs" by (meson assms(2) split_list)
  let ?p = "last (s # as)" and ?n = "hd (bs @ [s])"
  note r = ring_nxt [OF assms(1) [unfolded fs]] ring_prv [OF assms(1) [unfolded fs]]
  have d: "distinct (s # as @ f # bs)" using assms(1) fs by (simp add: ring_def)
  then have ne: "?p \<noteq> f" "?n \<noteq> f" using last_in_set [of "s # as"] hd_in_set [of "bs @ [s]"] by auto
  let ?t = "fr_upd (fr_upd (fr_upd tsk ?p (\<lambda>fr. fr\<lparr>fr_snext := Some ?n\<rparr>)) ?n (\<lambda>fr. fr\<lparr>fr_sprev := Some ?p\<rparr>)) f (\<lambda>fr. fr\<lparr>fr_sprev := None, fr_snext := None\<rparr>)"
  have "remove_spark tsk f = Some ?t" using r by (simp add: remove_spark_def Let_def del: last.simps)
  moreover have "same_rest tsk ?t" by (intro same_rest_intros)
  moreover have "snexts ?t = (snexts tsk)(?p := Some ?n, f := None)" "sprevs ?t = (sprevs tsk)(?n := Some ?p, f := None)"
    using ne by (auto simp: fun_eq_iff simp del: last.simps)
  moreover have "remove1 f fs = as @ bs" using d fs by (simp add: remove1_append)
  ultimately show ?thesis using ring_remove [OF assms(1) [unfolded fs] refl refl] by metis
qed

lemma same_rest_state:
  assumes "same_rest (fr_upd tsk f (\<lambda>fr. fr\<lparr>fr_state := st\<rparr>)) tsk'"
  shows "states tsk' = (states tsk)(f := st)" "postponeds tsk' = postponeds tsk" "freelnks tsk' = freelnks tsk" "rnexts tsk' = rnexts tsk" "waitlnks tsk' = waitlnks tsk"
    "heads tsk' = heads tsk" "fetchers tsk' = fetchers tsk" "t_run tsk' = t_run tsk" "t_freeframe tsk' = t_freeframe tsk" "t_sparklist tsk' = t_sparklist tsk"
    "t_nblocks tsk' = t_nblocks tsk" "t_framesperblock tsk' = t_framesperblock tsk" "t_done tsk' = t_done tsk"
  using assms by (simp_all add: same_rest_def)

lemma spark_simulates:
  assumes "represents tsk s" "allowed prog tsk s (Spark f)"
  shows "\<exists>tsk'. spark_frame tsk f = Some tsk' \<and> represents tsk' (s_step n (Spark f) s)"
proof (cases "s_state s f = STATE_NEW")
  case True
  note r = representsD [OF assms(1)]
  let ?s = "t_sparklist tsk" and ?first = "hd (s_sparks s @ [t_sparklist tsk])" and ?t = "fr_upd tsk f (\<lambda>fr. fr\<lparr>fr_state := STATE_SPARKED\<rparr>)"
  have g: "f \<noteq> ?s" "\<not> s_postponed s f" using assms(2) True by (simp_all add: allowed_def)
  have f: "f \<notin> set (?s # s_sparks s)" using r(8) True g(1) by (simp add: sched_ok_def)
  have "f \<noteq> ?first" using f by (cases "s_sparks s") auto
  moreover have "snexts tsk f = None" "sprevs tsk f = None" using r(7) f by (simp_all add: ring_def)
  ultimately obtain tsk' where t: "prepend_spark ?t f = Some tsk'" "snexts tsk' = (snexts tsk)(f := Some ?first, ?s := Some f)"
      "sprevs tsk' = (sprevs tsk)(f := Some ?s, ?first := Some f)" "same_rest ?t tsk'"
    using prepend_spark_effect [of ?t f ?first] ring_ends [OF r(7)] g(1) by auto
  have "ring (snexts tsk') (sprevs tsk') ?s (f # s_sparks s)" unfolding t(2,3) by (rule ring_prepend [OF r(7) f refl])
  then have "represents tsk' (s_step n (Spark f) s)"
    using assms(1) True g same_rest_state [OF t(4)] unfolding represents_def by (auto simp: s_step_def sched_ok_def)
  then show ?thesis using t(1) True g(1) r(1) by (simp add: spark_frame_def)
next
  case False
  then show ?thesis using assms by (simp add: spark_frame_def s_step_def allowed_def representsD(1) [OF assms(1)])
qed

text \<open>What \<^verbatim>\<open>run_frame\<close>, \<^verbatim>\<open>run_frame_after_first\<close> and \<^verbatim>\<open>unspark_frame\<close> do first.\<close>

lemma leave_sparks:
  assumes "represents tsk s" "s_state s f = STATE_SPARKED \<or> s_state s f = STATE_NEW"
  shows "\<exists>tsk'. (if states tsk f = STATE_SPARKED then remove_spark tsk f else Some tsk) = Some tsk' \<and>
    ring (snexts tsk') (sprevs tsk') (t_sparklist tsk) (remove1 f (s_sparks s)) \<and> same_rest tsk tsk'"
proof (cases "s_state s f = STATE_SPARKED")
  case True
  then have "f \<in> set (s_sparks s)" using representsD(8) [OF assms(1)] by (simp add: sched_ok_def)
  from remove_spark_effect [OF representsD(7) [OF assms(1)] this] True show ?thesis by (simp add: representsD(1) [OF assms(1)])
next
  case False
  then have "f \<notin> set (s_sparks s)" using representsD(8) [OF assms(1)] by (simp add: sched_ok_def)
  then show ?thesis using False representsD(7) [OF assms(1)] by (auto simp: representsD(1) [OF assms(1)] remove1_idem)
qed

lemma postponed_at_end_remove1: "postponed_at_end False (map g fs) \<Longrightarrow> postponed_at_end False (map g (remove1 f fs))"
proof (cases "f \<in> set fs")
  case True
  then obtain as bs where "fs = as @ f # bs" "f \<notin> set as" by (meson split_list_first)
  then show "postponed_at_end False (map g fs) \<Longrightarrow> ?thesis" by (auto simp: remove1_append intro: postponed_at_end_remove)
qed (simp add: remove1_idem)

lemma sched_ok_leave:
  assumes "sched_ok s" "s_state s f = STATE_SPARKED \<or> s_state s f = STATE_NEW" "distinct (s_sparks s)" "st \<noteq> STATE_SPARKED" "st \<noteq> STATE_UNALLOCATED"
    "\<forall>g \<in> set rs. g = f \<and> st = STATE_ACTIVE \<or> g \<in> set (s_run s)"
  shows "sched_ok (s\<lparr>s_sparks := remove1 f (s_sparks s), s_run := rs, s_state := (s_state s)(f := st)\<rparr>)"
  using assms unfolding sched_ok_def by (auto simp: postponed_at_end_remove1)

lemma unspark_simulates:
  assumes "represents tsk s" "allowed prog tsk s (Unspark f)"
  shows "\<exists>tsk'. unspark_frame tsk f = Some tsk' \<and> represents tsk' (s_step n (Unspark f) s)"
proof -
  note r = representsD [OF assms(1)]
  have g: "f \<noteq> t_sparklist tsk" "s_state s f = STATE_SPARKED \<or> s_state s f = STATE_NEW" "\<forall>c \<in> set_option (fr_c (t_frames tsk f)). t_cells tsk c = Some f"
    using assms(2) by (auto simp: allowed_def)
  from leave_sparks [OF assms(1) g(2)] obtain tsk1 where
    1: "(if states tsk f = STATE_SPARKED then remove_spark tsk f else Some tsk) = Some tsk1"
      "ring (snexts tsk1) (sprevs tsk1) (t_sparklist tsk) (remove1 f (s_sparks s))" "same_rest tsk tsk1" by blast
  let ?t = "fr_upd tsk1 f (\<lambda>fr. fr\<lparr>fr_state := STATE_NEW\<rparr>)"
  have c: "fr_c (t_frames ?t f) = fr_c (t_frames tsk f)" "t_cells ?t = t_cells tsk" using 1(3) by (simp_all add: same_rest_def t_frames_fr_upd)
  have "unspark_frame tsk f = Some ?t" using 1(1) g c r(1) unfolding unspark_frame_def Let_def by (auto split: option.split simp: r(1))
  moreover have "sched_ok (s\<lparr>s_sparks := remove1 f (s_sparks s), s_run := s_run s, s_state := (s_state s)(f := STATE_NEW)\<rparr>)"
    by (rule sched_ok_leave [OF r(8) g(2)]) (use r(7) in \<open>auto simp: ring_def\<close>)
  then have "represents ?t (s_step n (Unspark f) s)"
    using assms(1) g 1(2,3) unfolding represents_def same_rest_def by (simp add: s_step_def)
  ultimately show ?thesis by blast
qed

lemma run_simulates:
  assumes "represents tsk s" "allowed prog tsk s (Run f)"
  shows "\<exists>tsk'. run_frame tsk f = Some tsk' \<and> represents tsk' (s_step n (Run f) s)"
proof (cases "s_state s f = STATE_SPARKED \<or> s_state s f = STATE_NEW")
  case True
  note r = representsD [OF assms(1)]
  have g: "f \<noteq> t_sparklist tsk" using assms(2) by (auto simp: allowed_def)
  from leave_sparks [OF assms(1) True] obtain tsk1 where
    1: "(if states tsk f = STATE_SPARKED then remove_spark tsk f else Some tsk) = Some tsk1"
      "ring (snexts tsk1) (sprevs tsk1) (t_sparklist tsk) (remove1 f (s_sparks s))" "same_rest tsk tsk1" by blast
  let ?t = "(fr_upd tsk1 f (\<lambda>fr. fr\<lparr>fr_rnext := t_run tsk1, fr_state := STATE_ACTIVE\<rparr>))\<lparr>t_run := Some f\<rparr>"
  have "run_frame tsk f = Some ?t" using 1(1) g True unfolding run_frame_def Let_def by (simp add: r(1))
  moreover have "sched_ok (s\<lparr>s_sparks := remove1 f (s_sparks s), s_run := f # s_run s, s_state := (s_state s)(f := STATE_ACTIVE)\<rparr>)"
    by (rule sched_ok_leave [OF r(8) True]) (use r(7) in \<open>auto simp: ring_def\<close>)
  moreover have "f \<notin> set (s_run s)" using r(8) True by (auto simp: sched_ok_def)
  note listing_push [OF r(5) this]
  ultimately have "represents ?t (s_step n (Run f) s)"
    using assms(1) g True 1(2,3) unfolding represents_def same_rest_def by (simp add: s_step_def s_start_def)
  with \<open>run_frame tsk f = Some ?t\<close> show ?thesis by blast
next
  case False
  then show ?thesis using assms by (simp add: run_frame_def s_step_def s_start_def allowed_def Let_def representsD(1) [OF assms(1)])
qed

lemma after_first_simulates:
  assumes "listing (rnexts tsk) (t_run tsk) rs" "f \<notin> set rs"
  shows "listing (rnexts (after_first tsk f)) (t_run (after_first tsk f)) (second rs f)" (is ?list)
    and "states (after_first tsk f) = states tsk" "postponeds (after_first tsk f) = postponeds tsk" "freelnks (after_first tsk f) = freelnks tsk"
      "waitlnks (after_first tsk f) = waitlnks tsk" "heads (after_first tsk f) = heads tsk" "fetchers (after_first tsk f) = fetchers tsk"
      "snexts (after_first tsk f) = snexts tsk" "sprevs (after_first tsk f) = sprevs tsk" "t_freeframe (after_first tsk f) = t_freeframe tsk"
      "t_sparklist (after_first tsk f) = t_sparklist tsk" "t_nblocks (after_first tsk f) = t_nblocks tsk"
      "t_framesperblock (after_first tsk f) = t_framesperblock tsk" "t_done (after_first tsk f) = t_done tsk"
      "fr_instr (t_frames (after_first tsk f) g) = fr_instr (t_frames tsk g)"
proof -
  show ?list
  proof (cases rs)
    case Nil
    then have "t_run tsk = None" using listing_case [OF assms(1)] by simp
    then show ?thesis using listing_push [OF assms] Nil by (simp add: after_first_def)
  next
    case (Cons r qs)
    then have "t_run tsk = Some r" using listing_case [OF assms(1)] by simp
    then show ?thesis using listing_second [of "rnexts tsk" "t_run tsk" r qs f] assms Cons by (simp add: after_first_def Let_def)
  qed
qed (simp_all add: after_first_def Let_def t_frames_fr_upd split: option.split)

lemma run_after_first_simulates:
  assumes "represents tsk s" "allowed prog tsk s (Run_After_First f)"
  shows "\<exists>tsk'. run_frame_after_first tsk f = Some tsk' \<and> represents tsk' (s_step n (Run_After_First f) s)"
proof (cases "s_state s f = STATE_SPARKED \<or> s_state s f = STATE_NEW")
  case True
  note r = representsD [OF assms(1)]
  have g: "f \<noteq> t_sparklist tsk" using assms(2) by (auto simp: allowed_def)
  from leave_sparks [OF assms(1) True] obtain tsk1 where
    1: "(if states tsk f = STATE_SPARKED then remove_spark tsk f else Some tsk) = Some tsk1"
      "ring (snexts tsk1) (sprevs tsk1) (t_sparklist tsk) (remove1 f (s_sparks s))" "same_rest tsk tsk1" by blast
  let ?t = "fr_upd (after_first tsk1 f) f (\<lambda>fr. fr\<lparr>fr_state := STATE_ACTIVE\<rparr>)"
  have "run_frame_after_first tsk f = Some ?t" using 1(1) g True unfolding run_frame_after_first_def Let_def by (simp add: r(1))
  moreover have "\<forall>g \<in> set (second (s_run s) f). g = f \<or> g \<in> set (s_run s)" by (cases "s_run s") auto
  then have "sched_ok (s\<lparr>s_sparks := remove1 f (s_sparks s), s_run := second (s_run s) f, s_state := (s_state s)(f := STATE_ACTIVE)\<rparr>)"
    by (intro sched_ok_leave [OF r(8) True]) (use r(7) in \<open>auto simp: ring_def\<close>)
  moreover have f: "f \<notin> set (s_run s)" using r(8) True by (auto simp: sched_ok_def)
  have "listing (rnexts tsk1) (t_run tsk1) (s_run s)" using r(5) 1(3) by (simp add: same_rest_def)
  note after_first_simulates [OF this f]
  ultimately have "represents ?t (s_step n (Run_After_First f) s)"
    using assms(1) g True 1(2,3) unfolding represents_def same_rest_def by (simp add: s_step_def s_start_def)
  with \<open>run_frame_after_first tsk f = Some ?t\<close> show ?thesis by blast
next
  case False
  then show ?thesis using assms by (simp add: run_frame_after_first_def s_step_def s_start_def allowed_def Let_def representsD(1) [OF assms(1)])
qed

lemma block_simulates:
  assumes "represents tsk s" "allowed prog tsk s (Block f)"
  shows "\<exists>tsk'. block_frame tsk f = Some tsk' \<and> represents tsk' (s_step n (Block f) s)"
proof -
  note r = representsD [OF assms(1)]
  obtain rs where rs: "s_run s = f # rs" using assms(2) by (cases "s_run s") (auto simp: allowed_def)
  then have "s_state s f = STATE_ACTIVE" using r(8) by (simp add: sched_ok_def)
  with listing_pop [of "rnexts tsk" "t_run tsk" f rs] r(5) rs assms(1) show ?thesis
    by (auto simp: block_frame_def Let_def s_step_def represents_def sched_ok_def)
qed

lemma unblock_simulates:
  assumes "represents tsk s" "allowed prog tsk s (Unblock f)"
  shows "\<exists>tsk'. unblock_frame tsk f = Some tsk' \<and> represents tsk' (s_step n (Unblock f) s)"
proof -
  note r = representsD [OF assms(1)]
  have f: "s_state s f = STATE_ACTIVE" "f \<notin> set (s_run s)" using assms(2) by (simp_all add: allowed_def)
  then have "rnexts tsk f = None" using listings_None [OF r(5)] by simp
  with f listing_push [OF r(5) f(2)] assms(1) show ?thesis by (auto simp: unblock_frame_def s_step_def represents_def sched_ok_def)
qed

lemma unblock_after_first_simulates:
  assumes "represents tsk s" "s_state s f = STATE_ACTIVE" "f \<notin> set (s_run s)"
  shows "unblock_frame_after_first tsk f = Some (after_first tsk f) \<and> represents (after_first tsk f) (s\<lparr>s_run := second (s_run s) f\<rparr>)"
proof -
  note r = representsD [OF assms(1)]
  have "rnexts tsk f = None" using listings_None [OF r(5)] assms(3) by simp
  moreover have "set (second (s_run s) f) = insert f (set (s_run s))" by (cases "s_run s") auto
  ultimately show ?thesis using after_first_simulates [OF r(5) assms(3)] assms unfolding represents_def sched_ok_def
    by (simp add: unblock_frame_after_first_def)
qed

lemma done_simulates:
  assumes "represents tsk s" "allowed prog tsk s (Done f)"
  shows "\<exists>tsk'. done_frame tsk f = Some tsk' \<and> represents tsk' (s_step n (Done f) s)"
proof -
  note r = representsD [OF assms(1)]
  obtain rs where rs: "s_run s = f # rs" "\<not> waits s f" using assms(2) by (cases "s_run s") (auto simp: allowed_def)
  then have a: "s_state s f = STATE_ACTIVE" using r(8) by (simp add: sched_ok_def)
  have "distinct (f # rs)" using listing_distinct [OF r(5)] rs by simp
  with a listing_pop [of "rnexts tsk" "t_run tsk" f rs] r(5) rs assms(1) show ?thesis
    by (auto simp: done_frame_def Let_def s_step_def represents_def sched_ok_def waits_def)
qed

lemma wait_simulates:
  assumes "represents tsk s" "allowed prog tsk s (Wait w f)"
  shows "\<exists>tsk'. add_waiter_frame tsk w f = Some tsk' \<and> represents tsk' (s_step n (Wait w f) s)"
proof -
  note r = representsD [OF assms(1)]
  have g: "s_state s f = STATE_ACTIVE" "\<forall>w. f \<notin> set (s_wait s w)" "live_wq s w" using assms(2) by (auto simp: allowed_def waits_def)
  let ?t = "fr_upd tsk f (\<lambda>fr. fr\<lparr>fr_waitlnk := heads tsk w\<rparr>)"
  let ?u = "set_wq ?t w ((get_wq ?t w)\<lparr>wq_frames := Some f\<rparr>)"
  have "waitlnks tsk f = None" using listings_None [OF r(6) g(2)] .
  then have "add_waiter_frame tsk w f = Some ?u" by (simp add: add_waiter_frame_def Let_def)
  moreover have "sched_ok (s_step n (Wait w f) s)" using r(8) g by (auto simp: s_step_def sched_ok_def live_wq_def)
  then have "represents ?u (s_step n (Wait w f) s)"
    using assms(1) listings_push [OF r(6) g(2), of w] unfolding represents_def by (simp add: s_step_def)
  ultimately show ?thesis by blast
qed

lemma sched_ok_wait: "sched_ok s \<Longrightarrow> \<forall>u. set (ws u) \<subseteq> set (s_wait s u) \<Longrightarrow> sched_ok (s\<lparr>s_wait := ws\<rparr>)"
  unfolding sched_ok_def by simp (metis empty_set set_empty subset_empty subsetD)

lemma resume_simulates:
  "represents tsk s \<Longrightarrow> s_wait s w = fs \<Longrightarrow> \<forall>f \<in> set fs. f \<notin> set (s_run s) \<and> waits_at prog (fr_instr (t_frames tsk f)) \<Longrightarrow>
    \<exists>tsk'. resume_local_waiters prog tsk w = Some tsk' \<and> represents tsk' (s\<lparr>s_run := foldl second (s_run s) fs, s_wait := (s_wait s)(w := [])\<rparr>)"
proof (induction fs arbitrary: tsk s)
  case Nil
  then have "heads tsk w = None" using listings_empty [OF representsD(6) [OF Nil(1)], of w] by simp
  then show ?case using Nil by (auto simp: resume_local_waiters.simps fun_upd_idem)
next
  case (Cons f fs)
  note r = representsD [OF Cons.prems(1)]
  from listings_pop [OF r(6) Cons.prems(2)] have pop: "listings ((waitlnks tsk)(f := None)) ((heads tsk)(w := waitlnks tsk f)) ((s_wait s)(w := fs))" "heads tsk w = Some f" by auto
  have d: "distinct (f # fs)" using r(6) Cons.prems(2) unfolding listings_def by metis
  let ?s = "s\<lparr>s_wait := (s_wait s)(w := fs)\<rparr>"
  let ?t = "fr_upd (set_wq tsk w ((get_wq tsk w)\<lparr>wq_frames := waitlnks tsk f\<rparr>)) f (\<lambda>fr. fr\<lparr>fr_waitlnk := None\<rparr>)"
  have i: "fr_instr (t_frames ?t g) = fr_instr (t_frames tsk g)" for g by (simp add: t_frames_fr_upd t_frames_set_wq)
  have act: "s_state s f = STATE_ACTIVE" using r(8) Cons.prems(2) unfolding sched_ok_def by (metis list.set_intros(1))
  have "sched_ok ?s" by (rule sched_ok_wait [OF r(8)]) (use Cons.prems(2) in auto)
  moreover have "WqFrame f \<noteq> w \<Longrightarrow> (heads tsk)(w := waitlnks tsk f, WqFrame f := heads tsk (WqFrame f)) = (heads tsk)(w := waitlnks tsk f)"
    by (auto simp: fun_eq_iff)
  ultimately have rep: "represents ?t ?s" using Cons.prems(1) pop(1) unfolding represents_def by simp
  have u: "unblock_frame_after_first ?t f = Some (after_first ?t f)" "represents (after_first ?t f) (?s\<lparr>s_run := second (s_run s) f\<rparr>)"
    using unblock_after_first_simulates [OF rep, of f] act Cons.prems(3) by simp_all
  have "set (second (s_run s) f) = insert f (set (s_run s))" by (cases "s_run s") auto
  moreover have "fr_instr (t_frames (after_first ?t f) g) = fr_instr (t_frames tsk g)" for g
    using after_first_simulates(15) [OF representsD(5) [OF rep], of f g] Cons.prems(3) i by simp
  ultimately have "\<forall>g \<in> set fs. g \<notin> set (s_run (?s\<lparr>s_run := second (s_run s) f\<rparr>)) \<and> waits_at prog (fr_instr (t_frames (after_first ?t f) g))"
    using Cons.prems(3) d by auto
  from Cons.IH [OF u(2) _ this] obtain tsk' where 3: "resume_local_waiters prog (after_first ?t f) w = Some tsk'"
    "represents tsk' (s\<lparr>s_run := foldl second (second (s_run s) f) fs, s_wait := (s_wait s)(w := [])\<rparr>)"
    by (auto simp: fun_upd_def cong: if_cong)
  have "waits_at prog (fr_instr (t_frames tsk f))" using Cons.prems(3) by simp
  with pop(2) u(1) 3(1) have "resume_local_waiters prog tsk w = Some tsk'" by (subst resume_local_waiters.simps) (simp add: Let_def)
  with 3(2) show ?case by (auto simp: fun_upd_def)
qed

lemma last_waiter_chain: "chain (waitlnks tsk) (Some f) (f # fs) \<Longrightarrow> last_waiter tsk f = Some (last (f # fs))"
proof (induction fs arbitrary: f)
  case (Cons g fs)
  then show ?case by (subst last_waiter.simps) simp
qed (subst last_waiter.simps, simp)

lemma listings_transfer:
  assumes l: "listings nxt hed ws" and vw: "v \<noteq> w"
  shows "ws w = [] \<Longrightarrow> listings nxt (hed(w := hed v, v := None)) (ws(w := ws v, v := []))"
    and "ws w \<noteq> [] \<Longrightarrow> listings (nxt(last (ws w) := hed v)) (hed(v := None)) (ws(w := ws w @ ws v, v := []))"
proof -
  have c: "chain nxt (hed u) (ws u)" "distinct (ws u)" "u \<noteq> u' \<Longrightarrow> set (ws u) \<inter> set (ws u') = {}" for u u' using l unfolding listings_def by auto
  show "listings nxt (hed(w := hed v, v := None)) (ws(w := ws v, v := []))" if "ws w = []"
  proof -
    have "nxt f = None" if "\<forall>u. f \<notin> set ((ws(w := ws v, v := [])) u)" for f
      using l that \<open>ws w = []\<close> vw unfolding listings_def by (metis fun_upd_other fun_upd_same)
    then show ?thesis using c vw unfolding listings_def by (auto simp: disjoint_iff)
  qed
  show "listings (nxt(last (ws w) := hed v)) (hed(v := None)) (ws(w := ws w @ ws v, v := []))" if ne: "ws w \<noteq> []"
  proof -
    let ?l = "last (ws w)" and ?ws = "ws(w := ws w @ ws v, v := [])"
    have lw: "?l \<in> set (ws w)" "\<And>u. u \<noteq> w \<Longrightarrow> ?l \<notin> set (ws u)" using ne c(3) last_in_set by auto
    have "chain nxt (hed w) (ws w @ [])" using c(1) by simp
    then have "chain (nxt(?l := None)) (hed w) (ws w)" using chain_append [OF c(2), of nxt "hed w" w "[]"] ne by simp
    then have "chain (nxt(?l := hed v)) (hed w) (ws w @ ws v)"
      using chain_append [OF c(2), of "nxt(?l := hed v)" "hed w" w "ws v"] ne c(1) [of v] lw(2) [of v] vw by simp
    moreover have "chain (nxt(?l := hed v)) (hed u) (ws u)" if "u \<noteq> w" for u using c(1) lw(2) [OF that] by simp
    moreover have "nxt f = None" if "\<forall>u. f \<notin> set (?ws u)" for f
      using l that vw unfolding listings_def by (metis Un_iff fun_upd_other fun_upd_same set_append)
    moreover have "f \<noteq> ?l" if "\<forall>u. f \<notin> set (?ws u)" for f using that vw lw(1) by (metis Un_iff fun_upd_other fun_upd_same set_append)
    moreover have "set (?ws u) \<inter> set (?ws u') = {}" if "u \<noteq> u'" for u u'
    proof -
      consider "u = v \<or> u' = v" | "u = w" "u' \<noteq> v" | "u' = w" "u \<noteq> v" | "u \<noteq> v" "u' \<noteq> v" "u \<noteq> w" "u' \<noteq> w" by blast
      then show ?thesis
        using c(3) [of w u'] c(3) [of v u'] c(3) [of u w] c(3) [of u v] c(3) [OF that] that vw by cases (auto simp: Int_Un_distrib Int_Un_distrib2)
    qed
    moreover have "distinct (?ws u)" for u using c(2) c(3) [OF vw [symmetric]] by simp
    moreover have "chain (nxt(?l := hed v)) ((hed(v := None)) u) (?ws u)" for u using calculation(1) calculation(2) [of u] vw by simp
    ultimately show ?thesis unfolding listings_def by (auto simp del: fun_upd_apply) (simp add: fun_upd_other)
  qed
qed

lemma transfer_simulates:
  assumes "represents tsk s" "allowed prog tsk s (Transfer v w)"
  shows "\<exists>tsk'. transfer_waiters_and_fetchers tsk v w = Some tsk' \<and> represents tsk' (s_step n (Transfer v w) s)"
proof -
  note r = representsD [OF assms(1)]
  have g: "v \<noteq> w" "live_wq s w" using assms(2) by (simp_all add: allowed_def)
  have ok: "sched_ok (s_step n (Transfer v w) s)" using r(8) g by (auto simp: s_step_def sched_ok_def live_wq_def)
  show ?thesis
  proof (cases "s_wait s w")
    case Nil
    then have "heads tsk w = None" using listings_empty [OF r(6)] by metis
    then show ?thesis using assms(1) ok g(1) listings_transfer(1) [OF r(6) g(1) Nil] Nil unfolding represents_def
      by (simp add: transfer_waiters_and_fetchers_def Let_def s_step_def fun_upd_twist)
  next
    case (Cons f fs)
    have c: "chain (waitlnks tsk) (heads tsk w) (f # fs)" using r(6) Cons unfolding listings_def by metis
    then have h: "heads tsk w = Some f" by simp
    have lw: "last_waiter tsk f = Some (last (s_wait s w))" using last_waiter_chain c h Cons by metis
    have "(heads tsk)(v := None, w := Some f) = (heads tsk)(v := None)" using h g(1) by (auto simp: fun_eq_iff)
    moreover have "s_wait s w \<noteq> []" using Cons by simp
    ultimately show ?thesis using assms(1) ok g(1) h lw listings_transfer(2) [OF r(6) g(1)] unfolding represents_def
      by (simp add: transfer_waiters_and_fetchers_def Let_def s_step_def fun_upd_twist)
  qed
qed

lemma check_runnable_views:
  "states (check_runnable t) = states t" "postponeds (check_runnable t) = postponeds t" "freelnks (check_runnable t) = freelnks t"
  "rnexts (check_runnable t) = rnexts t" "waitlnks (check_runnable t) = waitlnks t" "heads (check_runnable t) = heads t" "fetchers (check_runnable t) = fetchers t"
  "snexts (check_runnable t) = snexts t" "sprevs (check_runnable t) = sprevs t" "t_run (check_runnable t) = t_run t" "t_freeframe (check_runnable t) = t_freeframe t"
  "t_sparklist (check_runnable t) = t_sparklist t" "t_nblocks (check_runnable t) = t_nblocks t" "t_framesperblock (check_runnable t) = t_framesperblock t"
  "t_done (check_runnable t) = t_done t"
proof -
  have "get_wq (check_runnable t) w = get_wq t w" for w by (cases w) (simp_all add: check_runnable_def)
  then show "heads (check_runnable t) = heads t" "fetchers (check_runnable t) = fetchers t" by (auto simp: fun_eq_iff heads_def fetchers_def simp del: view_folds)
qed (auto simp: fun_eq_iff view_defs check_runnable_def simp del: view_folds)

lemma postpone_simulates:
  assumes "represents tsk s" "allowed prog tsk s (Postpone f address)"
  shows "\<exists>tsk'. postpone_frame tsk f address = Some tsk' \<and> represents tsk' (s_step n (Postpone f address) s)"
proof -
  note r = representsD [OF assms(1)]
  obtain rs where rs: "s_run s = f # rs" "\<not> waits s f" using assms(2) by (cases "s_run s") (auto simp: allowed_def)
  then have a: "s_state s f = STATE_ACTIVE" using r(8) by (simp add: sched_ok_def)
  have d: "f \<notin> set rs" using listing_distinct [OF r(5)] rs by simp
  have pop: "listing ((rnexts tsk)(f := None)) (rnexts tsk f) rs" "t_run tsk = Some f" using listing_pop [of "rnexts tsk" "t_run tsk" f rs] r(5) rs by auto
  let ?s = "t_sparklist tsk" and ?l = "last (t_sparklist tsk # s_sparks s)"
  have f: "f \<notin> set (?s # s_sparks s)" using r(8,9) a by (auto simp: sched_ok_def)
  let ?t = "fr_upd ((fr_upd (fr_upd tsk f (\<lambda>fr. fr\<lparr>fr_instr := address + 1\<rparr>)) f (\<lambda>fr. fr\<lparr>fr_rnext := None, fr_state := STATE_DONE\<rparr>))\<lparr>t_run := rnexts tsk f\<rparr>)
      f (\<lambda>fr. fr\<lparr>fr_postponed := True, fr_state := STATE_SPARKED\<rparr>)"
  have "f \<noteq> ?l" using f last_in_set [of "?s # s_sparks s", OF list.distinct(2)] by metis
  moreover have "snexts tsk f = None" "sprevs tsk f = None" using r(7) f by (simp_all add: ring_def)
  ultimately obtain tsk' where t: "append_spark ?t f = Some tsk'" "snexts tsk' = (snexts tsk)(f := Some ?s, ?l := Some f)"
      "sprevs tsk' = (sprevs tsk)(f := Some ?l, ?s := Some f)" "same_rest ?t tsk'"
    using append_spark_effect [of ?t f ?l] ring_ends [OF r(7)] f by (auto simp del: last.simps)
  have "postpone_frame tsk f address = Some (check_runnable tsk')"
    using t(1) a pop(2) by (simp add: postpone_frame_def done_frame_def Let_def r(1))
  moreover have "ring (snexts tsk') (sprevs tsk') ?s (s_sparks s @ [f])" unfolding t(2,3) by (rule ring_append [OF r(7) f refl])
  moreover have "sched_ok (s_step n (Postpone f address) s)"
    using r(8) rs a d f unfolding sched_ok_def by (auto simp: s_step_def waits_def postponed_at_end_snoc)
  ultimately have "represents (check_runnable tsk') (s_step n (Postpone f address) s)"
    using assms(1) pop rs f t(4) unfolding represents_def same_rest_def check_runnable_views by (auto simp: s_step_def)
  with \<open>postpone_frame tsk f address = _\<close> show ?thesis by blast
qed

lemma free_simulates:
  assumes "represents tsk s" "allowed prog tsk s (Free f)"
  shows "\<exists>tsk'. frame_free tsk f = Some tsk' \<and> represents tsk' (s_step n (Free f) s)"
proof -
  note r = representsD [OF assms(1)]
  have g: "f \<noteq> t_sparklist tsk" "s_state s f = STATE_NEW \<or> s_state s f = STATE_DONE" "fr_c (t_frames tsk f) = None" "fr_retp (t_frames tsk f) = None"
    "s_wait s (WqFrame f) = []" "s_fetch s (WqFrame f) = []" using assms(2) by (auto simp: allowed_def)
  then have f: "f \<notin> set (s_free s)" "f < s_total s" using r(8) unfolding sched_ok_def by (auto simp: not_le [symmetric])
  have h: "heads tsk (WqFrame f) = None" using listings_empty [OF r(6), of "WqFrame f"] g(5) by simp
  let ?t = "(fr_upd tsk f (\<lambda>fr. fr\<lparr>fr_state := STATE_UNALLOCATED, fr_freelnk := t_freeframe tsk\<rparr>))\<lparr>t_freeframe := Some f\<rparr>"
  have "frame_free tsk f = Some ?t" using g h r(1,3) by (auto simp: frame_free_def Let_def)
  moreover have "sched_ok (s_step n (Free f) s)" using r(8) g f unfolding sched_ok_def by (auto simp: s_step_def)
  then have "represents ?t (s_step n (Free f) s)" using assms(1) g(1) listing_push [OF r(4) f(1)] unfolding represents_def by (auto simp: s_step_def)
  ultimately show ?thesis by blast
qed

lemma chain_upt: "(\<forall>f. a \<le> f \<and> f < b \<longrightarrow> nxt f = (if f + 1 < b then Some (f + 1) else None)) \<Longrightarrow> a < b \<Longrightarrow> chain nxt (Some a) [a..<b]"
proof (induction "b - a" arbitrary: a)
  case (Suc k)
  show ?case
  proof (cases "a + 1 < b")
    case True
    then have "chain nxt (Some (a + 1)) [a + 1..<b]" using Suc by auto
    then show ?thesis using Suc.prems True by (simp add: upt_conv_Cons)
  next
    case False
    then have "b = Suc a" using Suc.prems(2) by simp
    then show ?thesis using Suc.prems(1) by simp
  qed
qed simp

lemma block_represents:
  assumes "represents tsk s" "s_free s = []"
  shows "represents (frame_block tsk) (s_block (t_framesperblock tsk) s)"
proof -
  note r = representsD [OF assms(1)]
  let ?n = "t_framesperblock tsk" and ?t = "frame_block tsk"
  let ?in = "\<lambda>f. s_total s \<le> f \<and> f < s_total s + ?n"
  have tot: "s_total s = t_nblocks tsk * ?n" "0 < ?n" using assms(1) by (simp_all add: represents_def)
  have fr: "t_frames ?t f = (if ?in f then frame_zero\<lparr>fr_freelnk := (if f + 1 < s_total s + ?n then Some (f + 1) else None)\<rparr> else t_frames tsk f)" for f
    by (simp add: frame_block_def Let_def tot(1) del: view_folds)
  have un: "s_state s f = STATE_UNALLOCATED" if "?in f" for f using r(8) that by (simp add: sched_ok_def)
  have z: "rnexts tsk f = None" "waitlnks tsk f = None" "snexts tsk f = None" "sprevs tsk f = None" "heads tsk (WqFrame f) = None" "fetchers tsk (WqFrame f) = []" if "?in f" for f
  proof -
    note u = un [OF that]
    have "f \<notin> set (s_run s)" "\<forall>w. f \<notin> set (s_wait s w)" "f \<notin> set (t_sparklist tsk # s_sparks s)" "s_wait s (WqFrame f) = []" "s_fetch s (WqFrame f) = []"
      using r(8,9) u by (auto simp: sched_ok_def)
    then show "rnexts tsk f = None" "waitlnks tsk f = None" "snexts tsk f = None" "sprevs tsk f = None" "heads tsk (WqFrame f) = None" "fetchers tsk (WqFrame f) = []"
      using listings_None [OF r(5)] listings_None [OF r(6)] r(3,7) listings_empty [OF r(6), of "WqFrame f"] by (auto simp: ring_def)
  qed
  have wq: "get_wq ?t w = (case w of WqFrame f \<Rightarrow> if ?in f then fr_wq frame_zero else get_wq tsk w | WqGlobal g \<Rightarrow> get_wq tsk w)" for w
    using fr by (cases w) (simp_all add: frame_block_def Let_def del: view_folds)
  have v: "states ?t = s_state s" "postponeds ?t = s_postponed (s_block ?n s)" "rnexts ?t = rnexts tsk" "waitlnks ?t = waitlnks tsk" "snexts ?t = snexts tsk" "sprevs ?t = sprevs tsk"
    using z un r(1,2) by (auto simp: fun_eq_iff states_def postponeds_def rnexts_def waitlnks_def snexts_def sprevs_def fr frame_zero_def s_block_def simp del: view_folds)
  have w: "heads ?t = heads tsk" "fetchers ?t = fetchers tsk"
    using z(5,6) by (auto simp: fun_eq_iff heads_def fetchers_def wq frame_zero_def simp del: view_folds split: wqref.split)
  have "freelnks ?t f = (if ?in f then if f + 1 < s_total s + ?n then Some (f + 1) else None else None)" for f
    using listings_None [OF r(4)] assms(2) by (auto simp: freelnks_def fr simp del: view_folds)
  then have "listing (freelnks ?t) (t_freeframe ?t) [s_total s..<s_total s + ?n]"
    using chain_upt [of "s_total s" "s_total s + ?n" "freelnks ?t"] tot by (auto simp: listings_def frame_block_def Let_def)
  moreover have "sched_ok (s_block ?n s)"
  proof -
    have "f \<in> set (s_sparks s) \<Longrightarrow> \<not> ?in f" for f using un r(8) unfolding sched_ok_def by (metis frame_state.distinct(3))
    then have eq: "map (s_postponed (s_block ?n s)) (s_sparks (s_block ?n s)) = map (s_postponed s) (s_sparks s)" by (auto simp: s_block_def)
    have pm: "postponed_at_end False (map (s_postponed (s_block ?n s)) (s_sparks (s_block ?n s)))" unfolding eq using r(8) by (simp add: sched_ok_def)
    have "\<not> (f < s_total s \<and> s_state s f = STATE_UNALLOCATED)" for f using r(8) assms(2) unfolding sched_ok_def by (metis empty_iff empty_set)
    then have "?in f \<longleftrightarrow> f < s_total s + ?n \<and> s_state s f = STATE_UNALLOCATED" for f using un [of f] not_less by blast
    then show ?thesis unfolding sched_ok_def using r(8) by (intro conjI pm) (simp_all add: s_block_def sched_ok_def)
  qed
  ultimately show ?thesis using assms(1) v w tot unfolding represents_def by (simp add: frame_block_def Let_def s_block_def)
qed

lemma new_simulates:
  assumes "represents tsk s"
  shows "\<exists>f tsk'. frame_new tsk = Some (f, tsk') \<and> represents tsk' (s_new (t_framesperblock tsk) s) \<and>
    f \<noteq> t_sparklist tsk \<and> s_state s f = STATE_UNALLOCATED \<and> s_state (s_new (t_framesperblock tsk) s) f = STATE_NEW \<and> t_sparklist tsk' = t_sparklist tsk \<and>
    (\<forall>g. s_state s g \<noteq> STATE_UNALLOCATED \<longrightarrow> fr_instr (t_frames tsk' g) = fr_instr (t_frames tsk g))"
proof -
  define t u where "t = (if t_freeframe tsk = None then frame_block tsk else tsk)" and "u = (if s_free s = [] then s_block (t_framesperblock tsk) s else s)"
  have "s_free s = [] \<longleftrightarrow> t_freeframe tsk = None" using listings_empty [OF representsD(4) [OF assms]] by auto
  then have rep: "represents t u" using block_represents [OF assms] assms by (simp add: t_def u_def)
  have su: "s_state u = s_state s" "t_sparklist t = t_sparklist tsk" by (simp_all add: u_def t_def s_block_def frame_block_def Let_def)
  note r = representsD [OF rep]
  have "s_free u \<noteq> []" using assms by (auto simp: u_def s_block_def represents_def)
  then obtain f fs where fs: "s_free u = f # fs" by (cases "s_free u") auto
  then have un: "s_state u f = STATE_UNALLOCATED" "f < s_total u" using r(8) unfolding sched_ok_def by (metis list.set_intros(1))+
  have pop: "listing ((freelnks t)(f := None)) (freelnks t f) fs" "t_freeframe t = Some f" using listing_pop [of "freelnks t" "t_freeframe t" f fs] r(4) fs by auto
  have out: "f \<notin> set (s_run u)" "\<forall>w. f \<notin> set (s_wait u w)" "f \<notin> set (t_sparklist t # s_sparks u)" "s_wait u (WqFrame f) = []" "s_fetch u (WqFrame f) = []"
    using r(8,9) un by (auto simp: sched_ok_def)
  have z: "rnexts t f = None" "waitlnks t f = None" "snexts t f = None" "sprevs t f = None" "heads t (WqFrame f) = None" "fetchers t (WqFrame f) = []"
    using listings_None [OF r(5)] listings_None [OF r(6)] r(3,7) listings_empty [OF r(6), of "WqFrame f"] out by (auto simp: ring_def)
  let ?g = "\<lambda>fr. fr\<lparr>fr_c := None, fr_instr := 0, fr_state := STATE_NEW, fr_resume := False, fr_freelnk := None, fr_retp := None, fr_postponed := False, fr_sprev := None, fr_snext := None\<rparr>"
  let ?t = "fr_upd (t\<lparr>t_freeframe := freelnks t f\<rparr>) f ?g"
  have "frame_new tsk = Some (f, ?t)" using pop(2) z unfolding frame_new_def t_def [symmetric] by (simp add: Let_def)
  moreover have "distinct (f # fs)" using listing_distinct [OF r(4)] fs by simp
  then have "sched_ok (s_new (t_framesperblock tsk) s)"
    using r(8) un out fs unfolding s_new_def u_def [symmetric] sched_ok_def by (auto simp: Let_def)
  moreover have "(snexts t)(f := None) = snexts t" "(sprevs t)(f := None) = sprevs t" using z by (simp_all add: fun_upd_idem)
  then have "represents ?t (s_new (t_framesperblock tsk) s)"
    using rep pop(1) fs out calculation(2) unfolding represents_def s_new_def u_def [symmetric] by (auto simp: Let_def)
  moreover have f: "f \<noteq> t_sparklist tsk" "s_state s f = STATE_UNALLOCATED" using out(3) un su by auto
  moreover have "s_state (s_new (t_framesperblock tsk) s) f = STATE_NEW" unfolding s_new_def u_def [symmetric] using fs by (simp add: Let_def)
  moreover have "fr_instr (t_frames ?t g) = fr_instr (t_frames tsk g)" if "s_state s g \<noteq> STATE_UNALLOCATED" for g
  proof -
    have "g < s_total s" using representsD(8) [OF assms] that unfolding sched_ok_def by (meson not_le)
    then have "\<not> t_nblocks tsk * t_framesperblock tsk \<le> g" using assms by (simp add: represents_def)
    moreover have "g \<noteq> f" using f(2) that by auto
    ultimately show ?thesis by (simp add: t_frames_fr_upd t_def frame_block_def Let_def)
  qed
  ultimately show ?thesis using su(2) by auto
qed

lemma step_simulates:
  assumes "represents tsk s" "allowed prog tsk s op"
  shows "\<exists>tsk'. exec prog op tsk = Some tsk' \<and> represents tsk' (s_step (t_framesperblock tsk) op s)"
proof (cases op)
  case New
  then show ?thesis using new_simulates [OF assms(1)] by (auto simp: exec_def s_step_def)
next
  case (Unblock_After_First f)
  then show ?thesis using unblock_after_first_simulates [OF assms(1), of f] assms(2) by (simp add: exec_def s_step_def allowed_def)
next
  case (Resume w)
  then show ?thesis using resume_simulates [OF assms(1) refl, of w prog] assms(2) by (simp add: exec_def s_step_def allowed_def)
qed (use assms spark_simulates unspark_simulates run_simulates run_after_first_simulates block_simulates unblock_simulates done_simulates
      wait_simulates transfer_simulates postpone_simulates free_simulates in \<open>fastforce simp: exec_def\<close>)+

lemma sparks_from_ring: "links (snexts tsk) prv (f # fs @ [t_sparklist tsk]) \<Longrightarrow> t_sparklist tsk \<notin> set (f # fs) \<Longrightarrow> sparks_from tsk f = Some (f # fs)"
proof (induction fs arbitrary: f)
  case Nil
  then show ?case by (subst sparks_from.simps, simp) (subst sparks_from.simps, simp)
next
  case (Cons g fs)
  then show ?case by (subst sparks_from.simps) simp
qed

lemma sparks_back_ring:
  "links nxt (sprevs tsk) (t_sparklist tsk # fs @ [f]) \<Longrightarrow> t_sparklist tsk \<notin> set (f # fs) \<Longrightarrow> sparks_back tsk f k = Some (k + length fs + 1)"
proof (induction fs arbitrary: f k rule: rev_induct)
  case Nil
  then show ?case by (subst sparks_back.simps, simp) (subst sparks_back.simps, simp)
next
  case (snoc g fs)
  have l: "links nxt (sprevs tsk) (t_sparklist tsk # fs @ [g])" "sprevs tsk f = Some g"
    using snoc.prems(1) links_append [of nxt "sprevs tsk" "t_sparklist tsk # fs" g "[f]"] by auto
  have "sparks_back tsk g (k + 1) = Some (k + 1 + length fs + 1)" by (rule snoc.IH [OF l(1)]) (use snoc.prems(2) in auto)
  then show ?case using l(2) snoc.prems(2) by (subst sparks_back.simps) simp
qed

lemma represents_checks:
  assumes "represents tsk s"
  shows "check_sparks tsk" "count_sparks tsk = Some (length (s_sparks s))"
proof -
  note r = representsD [OF assms]
  let ?s = "t_sparklist tsk"
  have l: "links (snexts tsk) (sprevs tsk) (?s # s_sparks s @ [?s])" "?s \<notin> set (s_sparks s)" using r(7) by (simp_all add: ring_def)
  have linked: "linked_spark tsk f" if f: "f \<in> set (s_sparks s)" for f
  proof -
    obtain as bs where "s_sparks s = as @ f # bs" using split_list [OF f] by blast
    then show ?thesis using ring_nxt [of "snexts tsk" "sprevs tsk" ?s as f bs] ring_prv [of "snexts tsk" "sprevs tsk" ?s as f bs] r(7)
      by (simp add: linked_spark_def del: last.simps)
  qed
  have "sparks_from tsk (hd (s_sparks s @ [?s])) = Some (s_sparks s)"
  proof (cases "s_sparks s")
    case Nil
    then show ?thesis by (subst sparks_from.simps) simp
  next
    case (Cons f fs)
    then show ?thesis using sparks_from_ring [of tsk "sprevs tsk" f fs] l by simp
  qed
  moreover have "snexts tsk ?s = Some (hd (s_sparks s @ [?s]))" "sprevs tsk ?s = Some (last (?s # s_sparks s))" using ring_ends [OF r(7)] by auto
  note ends = this
  moreover have "spark_state_ok tsk f" for f
    using r(7,8) linked [of f] by (auto simp: spark_state_ok_def r(1) ring_def sched_ok_def)
  moreover have "postponed_at_end False (map (postponeds tsk) (s_sparks s))" "\<forall>f \<in> set (s_sparks s). states tsk f = STATE_SPARKED"
    using r(8) assms by (auto simp: sched_ok_def represents_def)
  moreover have "(\<lambda>f. fr_postponed (t_frames tsk f)) = postponeds tsk" by auto
  ultimately show "check_sparks tsk" using linked by (simp add: check_sparks_def list_all_iff del: view_folds) (simp add: list_all_iff)
  show "count_sparks tsk = Some (length (s_sparks s))"
  proof (cases "s_sparks s" rule: rev_cases)
    case Nil
    then show ?thesis using ends(2) by (simp add: count_sparks_def) (subst sparks_back.simps, simp)
  next
    case (snoc fs f)
    then have "links (snexts tsk) (sprevs tsk) (?s # fs @ [f])" using l(1) links_append [of "snexts tsk" "sprevs tsk" "?s # fs" f "[?s]"] by simp
    from sparks_back_ring [OF this, of 0] l(2) snoc ends(2) show ?thesis by (simp add: count_sparks_def)
  qed
qed

subsection \<open>Every reachable state\<close>

text \<open>A task before its spark list is made: no frame, nothing queued.\<close>

definition task_zero :: "nat \<Rightarrow> task" where
  "task_zero n =
     \<lparr>t_frames = (\<lambda>f. frame_zero), t_nblocks = 0, t_framesperblock = n, t_freeframe = None, t_sparklist = 0, t_run = None, t_cells = (\<lambda>c. None),
      t_globals = (\<lambda>g. \<lparr>wq_frames = None, wq_fetchers = []\<rparr>), t_interrupt = False, t_done = False, t_local_conns = 0, t_total_conns = 0\<rparr>"

definition sched_zero :: "nat \<Rightarrow> sched" where
  "sched_zero n =
     \<lparr>s_total = n, s_free = [1..<n], s_sparks = [], s_run = [], s_wait = (\<lambda>w. []), s_fetch = (\<lambda>w. []),
      s_state = (\<lambda>f. if f = 0 then STATE_NEW else STATE_UNALLOCATED), s_postponed = (\<lambda>f. False)\<rparr>"

text \<open>What the rest of the interpreter does to frames and tasks leaves the links alone.\<close>

definition same_links :: "task \<Rightarrow> task \<Rightarrow> bool" where
  "same_links tsk tsk' \<longleftrightarrow> snexts tsk' = snexts tsk \<and> sprevs tsk' = sprevs tsk \<and> states tsk' = states tsk \<and> postponeds tsk' = postponeds tsk \<and>
     freelnks tsk' = freelnks tsk \<and> rnexts tsk' = rnexts tsk \<and> waitlnks tsk' = waitlnks tsk \<and> heads tsk' = heads tsk \<and> fetchers tsk' = fetchers tsk \<and>
     t_run tsk' = t_run tsk \<and> t_freeframe tsk' = t_freeframe tsk \<and> t_sparklist tsk' = t_sparklist tsk \<and> t_nblocks tsk' = t_nblocks tsk \<and>
     t_framesperblock tsk' = t_framesperblock tsk \<and> t_done tsk' = t_done tsk"

inductive reach :: "instruction list \<Rightarrow> task \<Rightarrow> sched \<Rightarrow> bool" for prog where
  start: "0 < n \<Longrightarrow> sparklist_new (task_zero n) c = Some tsk \<Longrightarrow> reach prog tsk (sched_zero n)"
| step: "reach prog tsk s \<Longrightarrow> allowed prog tsk s op \<Longrightarrow> exec prog op tsk = Some tsk' \<Longrightarrow> reach prog tsk' (s_step (t_framesperblock tsk) op s)"
| other: "reach prog tsk s \<Longrightarrow> same_links tsk tsk' \<Longrightarrow> reach prog tsk' s"

lemma start_represents:
  assumes "0 < n" "sparklist_new (task_zero n) c = Some tsk"
  shows "represents tsk (sched_zero n)"
proof -
  let ?b = "frame_block (task_zero n)"
  have b: "t_freeframe ?b = Some 0" "t_frames ?b f = (if f < n then frame_zero\<lparr>fr_freelnk := if f + 1 < n then Some (f + 1) else None\<rparr> else frame_zero)" for f
    by (simp_all add: frame_block_def task_zero_def Let_def)
  have t: "tsk = fr_upd ((fr_upd (?b\<lparr>t_freeframe := freelnks ?b 0\<rparr>) 0 (\<lambda>fr. fr\<lparr>fr_c := None, fr_instr := 0, fr_state := STATE_NEW, fr_resume := False, fr_freelnk := None,
      fr_retp := None, fr_postponed := False, fr_sprev := None, fr_snext := None\<rparr>))\<lparr>t_sparklist := 0, t_cells := (t_cells ?b)(c := Some 0)\<rparr>) 0
      (\<lambda>fr. fr\<lparr>fr_snext := Some 0, fr_sprev := Some 0, fr_instr := 0, fr_c := Some c\<rparr>)"
  proof -
    have "t_freeframe (task_zero n) = None" by (simp add: task_zero_def)
    moreover have "heads ?b (WqFrame 0) = None" "fetchers ?b (WqFrame 0) = []" "waitlnks ?b 0 = None" "rnexts ?b 0 = None"
      using assms(1) by (simp_all add: view_defs b(2) frame_zero_def del: view_folds)
    ultimately show ?thesis using assms(2) b(1) by (simp add: sparklist_new_def frame_new_def Let_def)
  qed
  have fr: "t_frames tsk f = (if f = 0 then (frame_zero\<lparr>fr_state := STATE_NEW, fr_snext := Some 0, fr_sprev := Some 0, fr_c := Some c\<rparr>)
      else if f < n then frame_zero\<lparr>fr_freelnk := if f + 1 < n then Some (f + 1) else None\<rparr> else frame_zero)" for f
    unfolding t using assms(1) by (simp add: t_frames_fr_upd b(2) frame_zero_def)
  have gl: "t_globals tsk = t_globals (task_zero n)" "t_freeframe tsk = (if 1 < n then Some 1 else None)" "t_run tsk = None" "t_sparklist tsk = 0" "t_nblocks tsk = 1"
      "t_framesperblock tsk = n" "\<not> t_done tsk"
    unfolding t using assms(1) by (simp_all add: fr_upd_def frame_block_def task_zero_def Let_def freelnks_def)
  have wq: "get_wq tsk w = \<lparr>wq_frames = None, wq_fetchers = []\<rparr>" for w by (cases w) (simp_all add: fr gl(1) task_zero_def frame_zero_def del: view_folds)
  have v: "states tsk = s_state (sched_zero n)" "postponeds tsk = s_postponed (sched_zero n)" "rnexts tsk = (\<lambda>f. None)" "waitlnks tsk = (\<lambda>f. None)"
      "snexts tsk = (\<lambda>f. if f = 0 then Some 0 else None)" "sprevs tsk = (\<lambda>f. if f = 0 then Some 0 else None)" "heads tsk = (\<lambda>w. None)" "fetchers tsk = (\<lambda>w. [])"
    by (auto simp: fun_eq_iff view_defs fr wq sched_zero_def frame_zero_def simp del: view_folds)
  have "freelnks tsk f = (if 0 < f \<and> f + 1 < n then Some (f + 1) else None)" for f by (simp add: freelnks_def fr frame_zero_def del: view_folds)
  then have "listing (freelnks tsk) (t_freeframe tsk) [1..<n]" using chain_upt [of 1 n "freelnks tsk"] gl(2) assms(1) by (auto simp: listings_def)
  moreover have "sched_ok (sched_zero n)" using assms(1) by (auto simp: sched_ok_def sched_zero_def)
  ultimately show ?thesis using v gl assms(1) by (simp add: represents_def) (simp add: listings_def ring_def sched_zero_def split: if_splits)
qed

lemma reach_represents: "reach prog tsk s \<Longrightarrow> represents tsk s"
proof (induction rule: reach.induct)
  case (step tsk s op tsk')
  then show ?case using step_simulates [of tsk s prog op] by auto
next
  case (other tsk s tsk')
  then show ?case unfolding represents_def same_links_def by simp
qed (rule start_represents)

subsection \<open>Evaluating and calling\<close>

lemma same_links_intros:
  "same_links tsk (fr_upd tsk f (\<lambda>fr. fr\<lparr>fr_instr := k\<rparr>))" "same_links tsk (fr_upd tsk f (\<lambda>fr. fr\<lparr>fr_instr := fr_instr fr - 1\<rparr>))"
  "same_links tsk (fr_upd tsk f (\<lambda>fr. fr\<lparr>fr_instr := k, fr_retp := p, fr_data := d fr\<rparr>))" "same_links tsk (check_runnable tsk)"
  by (simp_all add: same_links_def check_runnable_views fun_upd_idem)

lemma same_links_represents: "represents tsk s \<Longrightarrow> same_links tsk tsk' \<Longrightarrow> represents tsk' s"
  by (simp add: represents_def same_links_def)

text \<open>The frame \<open>f2\<close> that runs starts to wait for \<open>newf\<close>, which is run next unless it runs or waits already.\<close>

lemma wait_and_run:
  assumes rep: "represents tsk s" and f2: "s_run s = f2 # rs" "\<not> waits s f2" and newf: "s_state s newf \<noteq> STATE_UNALLOCATED" "newf \<noteq> t_sparklist tsk"
  shows "\<exists>tsk1 tsk2 tsk3. add_waiter_frame tsk (WqFrame newf) f2 = Some tsk1 \<and> block_frame tsk1 f2 = Some tsk2 \<and> run_frame tsk2 newf = Some tsk3 \<and>
    represents tsk3 (s_start (\<lambda>rs f. f # rs) newf (s\<lparr>s_wait := (s_wait s)(WqFrame newf := f2 # s_wait s (WqFrame newf)), s_run := rs\<rparr>)) \<and>
    t_sparklist tsk3 = t_sparklist tsk"
proof -
  let ?s1 = "s_step 1 (Wait (WqFrame newf) f2) s" and ?w = "(s_wait s)(WqFrame newf := f2 # s_wait s (WqFrame newf))"
  have "s_state s f2 = STATE_ACTIVE" using representsD(8) [OF rep] f2(1) by (simp add: sched_ok_def)
  then have "allowed [] tsk s (Wait (WqFrame newf) f2)" using f2(2) newf(1) by (simp add: allowed_def live_wq_def)
  from wait_simulates [OF rep this, of 1] obtain tsk1 where 1: "add_waiter_frame tsk (WqFrame newf) f2 = Some tsk1" "represents tsk1 ?s1" by blast
  have "allowed [] tsk1 ?s1 (Block f2)" using f2(1) by (simp add: allowed_def s_step_def)
  then obtain tsk2 where 2: "block_frame tsk1 f2 = Some tsk2" "represents tsk2 (s\<lparr>s_wait := ?w, s_run := rs\<rparr>)"
    using block_simulates [OF 1(2), of "[]" f2 1] f2(1) by (auto simp: s_step_def)
  have sp: "t_sparklist tsk2 = t_sparklist tsk" using 1(1) 2(1) by (auto simp: add_waiter_frame_def block_frame_def Let_def split: if_splits)
  have "allowed [] tsk2 (s\<lparr>s_wait := ?w, s_run := rs\<rparr>) (Run newf)" using newf(2) sp by (simp add: allowed_def)
  from run_simulates [OF 2(2) this, of 1] obtain tsk3 where
    3: "run_frame tsk2 newf = Some tsk3" "represents tsk3 (s_start (\<lambda>rs f. f # rs) newf (s\<lparr>s_wait := ?w, s_run := rs\<rparr>))" by (auto simp: s_step_def)
  have "t_sparklist tsk3 = t_sparklist tsk2"
    using 3(1) by (auto simp: run_frame_def remove_spark_def Let_def split: if_splits bind_splits)
  with 1(1) 2(1) 3 sp show ?thesis by auto
qed

lemma eval_frame_refines:
  assumes rep: "represents tsk s" and f2: "s_run s = f2 # rs" "\<not> waits s f2" and newf: "s_state s newf \<noteq> STATE_UNALLOCATED" "newf \<noteq> t_sparklist tsk"
  shows "\<exists>tsk'. eval_frame tsk f2 newf = Some tsk' \<and>
    represents tsk' (s_start (\<lambda>rs f. f # rs) newf (s\<lparr>s_wait := (s_wait s)(WqFrame newf := f2 # s_wait s (WqFrame newf)), s_run := rs\<rparr>))"
proof -
  let ?t = "fr_upd tsk f2 (\<lambda>fr. fr\<lparr>fr_instr := fr_instr fr - 1\<rparr>)"
  have "represents ?t s" by (rule same_links_represents [OF rep same_links_intros(2)])
  from wait_and_run [OF this f2 newf(1)] newf(2) obtain tsk1 tsk2 tsk3 where
    "add_waiter_frame ?t (WqFrame newf) f2 = Some tsk1" "block_frame tsk1 f2 = Some tsk2" "run_frame tsk2 newf = Some tsk3"
    and r: "represents tsk3 (s_start (\<lambda>rs f. f # rs) newf (s\<lparr>s_wait := (s_wait s)(WqFrame newf := f2 # s_wait s (WqFrame newf)), s_run := rs\<rparr>))" by auto
  then have "eval_frame tsk f2 newf = Some (check_runnable tsk3)" by (simp add: eval_frame_def Let_def)
  with same_links_represents [OF r same_links_intros(4)] show ?thesis by blast
qed

lemma find_spark_refines:
  assumes "represents tsk s"
  shows "\<exists>tsk' b. find_spark tsk = Some (b, tsk') \<and>
    (case s_sparks s of
       [] \<Rightarrow> \<not> b \<and> tsk' = tsk
     | f # fs \<Rightarrow> if \<not> s_postponed s f \<or> (t_local_conns tsk < MAX_LOCAL_CONNECTIONS \<and> t_total_conns tsk < MAX_TOTAL_CONNECTIONS)
                 then b \<and> represents tsk' (s\<lparr>s_sparks := fs, s_run := f # s_run s, s_state := (s_state s)(f := STATE_ACTIVE)\<rparr>)
                 else \<not> b \<and> tsk' = tsk)"
proof -
  note r = representsD [OF assms]
  have nz: "t_nblocks tsk \<noteq> 0"
  proof
    assume "t_nblocks tsk = 0"
    then have "s_total s = 0" using assms by (simp add: represents_def)
    then show False using r(8,9) by (simp add: sched_ok_def)
  qed
  have hd: "snexts tsk (t_sparklist tsk) = Some (hd (s_sparks s @ [t_sparklist tsk]))" using ring_ends [OF r(7)] by simp
  show ?thesis
  proof (cases "s_sparks s")
    case Nil
    then show ?thesis using nz hd by (auto simp: find_spark_def)
  next
    case (Cons f fs)
    have f: "f \<noteq> t_sparklist tsk" "s_state s f = STATE_SPARKED" using r(7,8) Cons by (auto simp: ring_def sched_ok_def)
    then have "allowed [] tsk s (Run f)" by (simp add: allowed_def)
    from run_simulates [OF assms this, of 1] obtain tsk' where
      "run_frame tsk f = Some tsk'" "represents tsk' (s\<lparr>s_sparks := fs, s_run := f # s_run s, s_state := (s_state s)(f := STATE_ACTIVE)\<rparr>)"
      using f(2) Cons by (auto simp: s_step_def s_start_def)
    then show ?thesis using nz hd Cons f(1) by (auto simp: find_spark_def r(2))
  qed
qed

text \<open>A caller is not resumed: \<^verbatim>\<open>op_call\<close> leaves the program counter of the frame that calls behind the \<^verbatim>\<open>CALL\<close>,
  and the assertion with which \<^verbatim>\<open>resume_local_waiters\<close> wakes it when the called frame is done looks at
  the instruction found there. Unless that instruction happens to be \<^verbatim>\<open>EVAL\<close> or \<^verbatim>\<open>CALL\<close>, it fails.\<close>

theorem call_resumption_fails:
  assumes rep: "represents tsk s" and f2: "s_run s = f2 # rs" "\<not> waits s f2" and pc: "fr_instr (t_frames tsk f2) = Suc k" "\<not> waits_at prog (Suc k)"
    and glob: "i_opcode (prog ! f_address (finfo ! nat (i_arg0 (prog ! k)))) = OP_GLOBSTART"
  shows "\<exists>tsk' newf. op_call prog finfo tsk f2 (prog ! k) = Some tsk' \<and> t_run tsk' = Some newf \<and>
    do { tsk1 \<leftarrow> done_frame tsk' newf; resume_local_waiters prog tsk1 (WqFrame newf) } = None"
proof -
  let ?n = "t_framesperblock tsk"
  from new_simulates [OF rep] obtain newf t1 where new: "frame_new tsk = Some (newf, t1)" "represents t1 (s_new ?n s)" "newf \<noteq> t_sparklist tsk"
      "s_state s newf = STATE_UNALLOCATED" "s_state (s_new ?n s) newf = STATE_NEW" "t_sparklist t1 = t_sparklist tsk"
      "\<forall>g. s_state s g \<noteq> STATE_UNALLOCATED \<longrightarrow> fr_instr (t_frames t1 g) = fr_instr (t_frames tsk g)" by blast
  have s1: "s_run (s_new ?n s) = f2 # rs" "s_wait (s_new ?n s) = s_wait s" using f2(1) by (simp_all add: s_new_def s_block_def Let_def)
  have act: "s_state s f2 = STATE_ACTIVE" using representsD(8) [OF rep] f2(1) by (simp add: sched_ok_def)
  then have ne: "newf \<noteq> f2" "fr_instr (t_frames t1 f2) = Suc k" using new(4,7) pc(1) by auto
  define k1 d where "k1 = f_address (finfo ! nat (i_arg0 (prog ! k))) + 1"
    and "d = (\<lambda>(fr :: frame) i. if i < nat (i_arg1 (prog ! k)) then fr_data (t_frames t1 f2) (nat (i_expcount (prog ! k)) - nat (i_arg1 (prog ! k)) + i) else fr_data fr i)"
  let ?t2 = "fr_upd t1 newf (\<lambda>fr. fr\<lparr>fr_instr := k1, fr_retp := Some (f2, nat (i_expcount (prog ! k)) - nat (i_arg1 (prog ! k))), fr_data := d fr\<rparr>)"
  have r2: "represents ?t2 (s_new ?n s)" by (rule same_links_represents [OF new(2) same_links_intros(3)])
  have "\<not> waits (s_new ?n s) f2" using f2(2) s1(2) by (simp add: waits_def)
  from wait_and_run [OF r2 s1(1) this, of newf] new(3,5,6) s1(2) obtain t3 t4 t5 where
    w: "add_waiter_frame ?t2 (WqFrame newf) f2 = Some t3" "block_frame t3 f2 = Some t4" "run_frame t4 newf = Some t5"
    and r5: "represents t5 (s_start (\<lambda>rs f. f # rs) newf ((s_new ?n s)\<lparr>s_wait := (s_wait s)(WqFrame newf := f2 # s_wait s (WqFrame newf)), s_run := rs\<rparr>))" by auto
  let ?s5 = "s_start (\<lambda>rs f. f # rs) newf ((s_new ?n s)\<lparr>s_wait := (s_wait s)(WqFrame newf := f2 # s_wait s (WqFrame newf)), s_run := rs\<rparr>)"
  have call: "op_call prog finfo tsk f2 (prog ! k) = Some t5" using new(1) glob w by (simp add: op_call_def Let_def k1_def d_def)
  have s5: "s_run ?s5 = newf # rs" "s_wait ?s5 (WqFrame newf) = f2 # s_wait s (WqFrame newf)" using new(5) by (simp_all add: s_start_def)
  have "fr_instr (t_frames t5 f2) = Suc k" using w ne
    by (auto simp: add_waiter_frame_def block_frame_def run_frame_def remove_spark_def Let_def t_frames_fr_upd split: if_splits bind_splits)
  moreover have "\<not> waits ?s5 newf"
    using representsD(8) [OF new(2)] new(5) s1(2) ne(1) by (auto simp: waits_def s_start_def sched_ok_def split: if_splits)
  then have "allowed [] t5 ?s5 (Done newf)" using s5(1) by (simp add: allowed_def)
  from done_simulates [OF r5 this, of 1] obtain t6 where 6: "done_frame t5 newf = Some t6" "represents t6 (s_step 1 (Done newf) ?s5)" by blast
  have "heads t6 (WqFrame newf) = Some f2"
    using listings_pop(1) [OF representsD(6) [OF 6(2)], of "WqFrame newf" f2 "s_wait s (WqFrame newf)"] s5(2) by (simp add: s_step_def)
  moreover have "fr_instr (t_frames t6 f2) = fr_instr (t_frames t5 f2)" using 6(1) ne(1) by (auto simp: done_frame_def t_frames_fr_upd split: if_splits)
  ultimately have "resume_local_waiters prog t6 (WqFrame newf) = None" using pc(2) by (subst resume_local_waiters.simps) simp
  moreover have "t_run t5 = Some newf" using listing_case [OF representsD(5) [OF r5]] s5(1) by simp
  ultimately show ?thesis using call 6(1) by auto
qed

lemma start_example: "\<exists>tsk. sparklist_new (task_zero 4) 0 = Some tsk \<and> t_sparklist tsk = 0 \<and> t_framesperblock tsk = 4"
proof -
  have "t_freeframe (task_zero 4) = None" by (simp add: task_zero_def)
  moreover have "t_freeframe (frame_block (task_zero 4)) = Some 0" "t_framesperblock (frame_block (task_zero 4)) = 4" by (simp_all add: frame_block_def task_zero_def Let_def)
  moreover have "heads (frame_block (task_zero 4)) (WqFrame 0) = None" "fetchers (frame_block (task_zero 4)) (WqFrame 0) = []"
      "waitlnks (frame_block (task_zero 4)) 0 = None" "rnexts (frame_block (task_zero 4)) 0 = None"
    by (simp_all add: view_defs frame_block_def task_zero_def Let_def frame_zero_def del: view_folds)
  ultimately show ?thesis by (simp add: sparklist_new_def frame_new_def Let_def)
qed

theorem call_resumption_fails_witness:
  "\<exists>tsk tsk' newf. represents tsk (s_step 4 (Run 1) (s_step 4 New (sched_zero 4))) \<and>
     (let prog = map (\<lambda>oc. \<lparr>i_opcode = oc, i_arg0 = 0, i_arg1 = 0, i_sl = noloc, i_expcount = 0\<rparr>) [OP_CALL, OP_RETURN, OP_GLOBSTART];
          finfo = [\<lparr>f_address = 2, f_addressne = 2, f_addressed = 2, f_arity = 0, f_stacksize = 1, f_name = 0\<rparr>]
      in op_call prog finfo tsk 1 (prog ! 0) = Some tsk' \<and> t_run tsk' = Some newf \<and>
         do { tsk1 \<leftarrow> done_frame tsk' newf; resume_local_waiters prog tsk1 (WqFrame newf) } = None)"
proof -
  let ?s = "s_step 4 (Run 1) (s_step 4 New (sched_zero 4))"
  from start_example obtain tsk where t: "sparklist_new (task_zero 4) 0 = Some tsk" "t_sparklist tsk = 0" "t_framesperblock tsk = 4" by blast
  have "represents tsk (sched_zero 4)" by (rule start_represents [OF _ t(1)]) simp
  from new_simulates [OF this] t obtain t1 where 1: "represents t1 (s_step 4 New (sched_zero 4))" "t_sparklist t1 = 0" by (auto simp: s_step_def)
  have "allowed [] t1 (s_step 4 New (sched_zero 4)) (Run 1)" using 1(2) by (simp add: allowed_def)
  from run_simulates [OF 1(1) this, of 4] obtain t2 where "represents t2 ?s" by blast
  then have r: "represents (fr_upd t2 1 (\<lambda>fr. fr\<lparr>fr_instr := Suc 0\<rparr>)) ?s" by (rule same_links_represents [OF _ same_links_intros(1)])
  have s: "s_run ?s = 1 # []" "\<not> waits ?s 1" by (simp_all add: s_step_def s_new_def s_start_def sched_zero_def waits_def Let_def upt_rec)
  let ?prog = "map (\<lambda>oc. \<lparr>i_opcode = oc, i_arg0 = 0, i_arg1 = 0, i_sl = noloc, i_expcount = 0\<rparr>) [OP_CALL, OP_RETURN, OP_GLOBSTART]"
  let ?finfo = "[\<lparr>f_address = 2, f_addressne = 2, f_addressed = 2, f_arity = 0, f_stacksize = 1, f_name = 0\<rparr>]"
  have "fr_instr (t_frames (fr_upd t2 1 (\<lambda>fr. fr\<lparr>fr_instr := Suc 0\<rparr>)) 1) = Suc 0" "\<not> waits_at ?prog (Suc 0)"
      "i_opcode (?prog ! f_address (?finfo ! nat (i_arg0 (?prog ! 0)))) = OP_GLOBSTART" by (simp_all add: t_frames_fr_upd waits_at_def)
  from call_resumption_fails [OF r s this] r show ?thesis unfolding Let_def by blast
qed



text \<open>C11: the lists are never mixed up: in every such state \<^verbatim>\<open>check_sparks\<close>, the program's own check
  of its spark list, passes and \<^verbatim>\<open>count_sparks\<close> is the number of sparks; a frame is free
  exactly when it is unallocated and in the spark list exactly when it is sparked, once; runnable
  and waiting frames are active, and no frame waits for two things; the postponed sparks are the
  last ones.\<close>

theorem frame_queues_invariant:
  assumes "reach prog tsk s"
  shows "check_sparks tsk \<and> count_sparks tsk = Some (length (s_sparks s)) \<and>
    distinct (s_free s) \<and> set (s_free s) = {f. f < t_nblocks tsk * t_framesperblock tsk \<and> fr_state (t_frames tsk f) = STATE_UNALLOCATED} \<and>
    distinct (s_sparks s) \<and> set (s_sparks s) = {f. fr_state (t_frames tsk f) = STATE_SPARKED} \<and>
    distinct (s_run s) \<and> set (s_run s) \<union> (\<Union>w. set (s_wait s w)) \<subseteq> {f. fr_state (t_frames tsk f) = STATE_ACTIVE} \<and>
    (\<forall>f v w. f \<in> set (s_wait s v) \<inter> set (s_wait s w) \<longrightarrow> v = w) \<and>
    postponed_at_end False (map (\<lambda>f. fr_postponed (t_frames tsk f)) (s_sparks s))"
proof -
  have rep: "represents tsk s" by (rule reach_represents [OF assms])
  note r = representsD [OF rep]
  have tot: "s_total s = t_nblocks tsk * t_framesperblock tsk" using rep by (simp add: represents_def)
  have "distinct (s_free s)" "distinct (s_run s)" "distinct (s_sparks s)" using listing_distinct [OF r(4)] listing_distinct [OF r(5)] r(7) by (simp_all add: ring_def)
  moreover have "\<forall>f v w. f \<in> set (s_wait s v) \<inter> set (s_wait s w) \<longrightarrow> v = w" using r(6) unfolding listings_def by blast
  moreover have "postponeds tsk = s_postponed s" using rep by (simp add: represents_def)
  ultimately show ?thesis using represents_checks [OF rep] r(8) unfolding sched_ok_def by (auto simp: r(1) tot)
qed

theorem frame_queues_invariant_witness:
  "\<exists>tsk. sparklist_new (task_zero 4) 0 = Some tsk \<and> check_sparks tsk \<and> count_sparks tsk = Some 0 \<and> fr_state (t_frames tsk 3) = STATE_UNALLOCATED"
proof -
  from start_example obtain tsk where t: "sparklist_new (task_zero 4) 0 = Some tsk" by blast
  have "reach [] tsk (sched_zero 4)" by (rule reach.start [OF _ t]) simp
  from frame_queues_invariant [OF this] t have "check_sparks tsk" "count_sparks tsk = Some 0" "3 \<in> {f. fr_state (t_frames tsk f) = STATE_UNALLOCATED}"
    by (auto simp: sched_zero_def)
  with t show ?thesis by auto
qed

end
