(* ===== verification/Endpoints.thy ===== *)
theory Endpoints
  imports Prelude
begin

text \<open>
  Endpoints, links and local message delivery (\<^verbatim>\<open>network/node.c\<close>, with \<^verbatim>\<open>node_notify\<close> and
  \<^verbatim>\<open>handle_disconnection\<close> of \<^verbatim>\<open>network/iothread.c\<close>).

  A node holds a list of endpoints, each with a mailbox and the two lists of links; a pointer
  to an endpoint is its local identifier, which is never reused. All functions run under the
  node lock, so each is one atomic step. A message for another node is handed to the
  transport: the model appends it to \<open>remote\<close>, in the order of the calls. The payload of a
  message is the bytes the C code copies. Waiting for a message and the signals that wake a
  thread are left out.
\<close>

subsection \<open>Identifiers and messages\<close>

record endpointid =
  ep_ip :: u32
  ep_port :: u16
  ep_localid :: u32

definition endpointid_equals :: "endpointid \<Rightarrow> endpointid \<Rightarrow> bool" where
  "endpointid_equals e1 e2 \<longleftrightarrow>
     ep_ip e1 = ep_ip e2 \<and> ep_port e1 = ep_port e2 \<and> ep_localid e1 = ep_localid e2"

definition endpointid_isnull :: "endpointid \<Rightarrow> bool" where
  "endpointid_isnull epid \<longleftrightarrow> 0 = ep_localid epid"

definition epid_bytes :: "endpointid \<Rightarrow> byte list" where
  "epid_bytes e = le32 (ep_ip e) @ le16 (ep_port e) @ le32 (ep_localid e)"

definition of_epid_bytes :: "byte list \<Rightarrow> endpointid" where
  "of_epid_bytes bs =
     \<lparr>ep_ip = of_le32 (take 4 bs), ep_port = of_le16 (take 2 (drop 4 bs)),
      ep_localid = of_le32 (take 4 (drop 6 bs))\<rparr>"

record msgheader =
  h_sourcelocalid :: u32
  h_destlocalid :: u32
  h_size :: u32
  h_tag :: u32
  h_timestamp :: u32

record message =
  m_source :: endpointid
  m_dest :: endpointid
  m_tag :: u32
  m_data :: "byte list"

record endpoint =
  e_epid :: endpointid
  e_interrupt :: bool
  e_type :: string
  e_closed :: bool
  e_mailbox :: "message list"
  e_inlinks :: "endpointid list"
  e_outlinks :: "endpointid list"

record node =
  listenip :: u32
  listenport :: u16
  clock :: u32
  endpoints :: "endpoint list"
  nextlocalid :: u32
  notified :: bool
  is_shutdown :: bool
  remote :: "(endpointid \<times> msgheader \<times> byte list) list"

definition IO_ID :: u32 where "IO_ID = 1"
definition MSG_KILL :: u32 where "MSG_KILL = 2147483647"
definition MSG_ENDPOINT_EXIT :: u32 where "MSG_ENDPOINT_EXIT = 2147483646"
definition MSG_LINK :: u32 where "MSG_LINK = 2147483645"
definition MSG_UNLINK :: u32 where "MSG_UNLINK = 2147483644"

lemma control_tags [simp]: "MSG_LINK \<noteq> MSG_UNLINK" "MSG_LINK \<noteq> MSG_ENDPOINT_EXIT" "MSG_UNLINK \<noteq> MSG_ENDPOINT_EXIT"
  "MSG_UNLINK \<noteq> MSG_LINK" "MSG_ENDPOINT_EXIT \<noteq> MSG_LINK" "MSG_ENDPOINT_EXIT \<noteq> MSG_UNLINK"
  by (simp_all add: MSG_LINK_def MSG_UNLINK_def MSG_ENDPOINT_EXIT_def)

text \<open>\<^verbatim>\<open>endpoint_exit_msg\<close>: the identifier followed by the reason.\<close>

definition exit_bytes :: "endpointid \<Rightarrow> u32 \<Rightarrow> byte list" where
  "exit_bytes e reason = epid_bytes e @ le32 reason"

subsection \<open>Delivery\<close>

definition find_endpoint :: "node \<Rightarrow> u32 \<Rightarrow> endpoint option" where
  "find_endpoint n localid = find (\<lambda>e. ep_localid (e_epid e) = localid) (endpoints n)"

definition update_endpoint :: "node \<Rightarrow> u32 \<Rightarrow> (endpoint \<Rightarrow> endpoint) \<Rightarrow> node" where
  "update_endpoint n localid f =
     n\<lparr>endpoints := map (\<lambda>e. if ep_localid (e_epid e) = localid then f e else e) (endpoints n)\<rparr>"

definition node_notify :: "node \<Rightarrow> node" where
  "node_notify n = n\<lparr>notified := True\<rparr>"

definition node_shutdown :: "node \<Rightarrow> node" where
  "node_shutdown n = node_notify (n\<lparr>is_shutdown := True\<rparr>)"

fun endpoint_list_remove :: "endpointid list \<Rightarrow> endpointid \<Rightarrow> endpointid list" where
  "endpoint_list_remove [] to = []"
| "endpoint_list_remove (l # ls) to =
     (if endpointid_equals l to then ls else l # endpoint_list_remove ls to)"

definition endpoint_interrupt :: "node \<Rightarrow> u32 \<Rightarrow> node" where
  "endpoint_interrupt n localid =
     (let n1 = update_endpoint n localid (\<lambda>e. e\<lparr>e_interrupt := True\<rparr>)
      in if IO_ID = localid then node_notify n1 else n1)"

definition endpoint_add_message :: "node \<Rightarrow> endpoint \<Rightarrow> message \<Rightarrow> node option" where
  "endpoint_add_message n endpt msg =
     (let localid = ep_localid (e_epid endpt); epid = of_epid_bytes (take 10 (m_data msg))
      in if MSG_LINK = m_tag msg then
           if length (m_data msg) = 10 \<and> \<not> endpointid_isnull epid
           then Some (update_endpoint n localid (\<lambda>e. e\<lparr>e_inlinks := epid # e_inlinks e\<rparr>)) else None
         else if MSG_UNLINK = m_tag msg then
           if length (m_data msg) = 10
           then Some (update_endpoint n localid (\<lambda>e. e\<lparr>e_inlinks := endpoint_list_remove (e_inlinks e) epid\<rparr>)) else None
         else if MSG_ENDPOINT_EXIT = m_tag msg \<and> length (m_data msg) \<noteq> 14 then None
         else
           let n1 = (if MSG_ENDPOINT_EXIT = m_tag msg
                     then update_endpoint n localid
                            (\<lambda>e. e\<lparr>e_inlinks := endpoint_list_remove (e_inlinks e) epid,
                                   e_outlinks := endpoint_list_remove (e_outlinks e) epid\<rparr>)
                     else n)
           in if e_closed endpt then Some n1
              else Some (endpoint_interrupt
                           (update_endpoint n1 localid (\<lambda>e. e\<lparr>e_mailbox := e_mailbox e @ [msg]\<rparr>)) localid))"

text \<open>\<^verbatim>\<open>got_message\<close> answers a link to an endpoint that does not exist with an exit message, which
  it sends; \<^verbatim>\<open>node_send_locked\<close> delivers a message for its own node with \<^verbatim>\<open>got_message\<close>.\<close>

function got_message :: "node \<Rightarrow> msgheader \<Rightarrow> endpointid \<Rightarrow> u32 \<Rightarrow> byte list \<Rightarrow> node option"
  and node_send_locked :: "node \<Rightarrow> u32 \<Rightarrow> endpointid \<Rightarrow> u32 \<Rightarrow> byte list \<Rightarrow> node option" where
  "got_message n hdr source tag data =
     (let n1 = (if clock n < h_timestamp hdr + 1 then n\<lparr>clock := h_timestamp hdr + 1\<rparr> else n);
          self = \<lparr>ep_ip = listenip n, ep_port = listenport n, ep_localid = h_destlocalid hdr\<rparr>
      in case find_endpoint n1 (h_destlocalid hdr) of
           None \<Rightarrow>
             if MSG_LINK = tag then
               if length data = 10
               then node_send_locked n1 (h_destlocalid hdr) (of_epid_bytes data) MSG_ENDPOINT_EXIT (exit_bytes self 0)
               else None
             else Some n1
         | Some endpt \<Rightarrow>
             endpoint_add_message n1 endpt \<lparr>m_source = source, m_dest = self, m_tag = tag, m_data = data\<rparr>)"
| "node_send_locked n sourcelocalid dest tag data =
     (if ep_ip dest = 0 \<or> ep_port dest = 0 then None
      else
        let hdr = \<lparr>h_sourcelocalid = sourcelocalid, h_destlocalid = ep_localid dest,
                   h_size = word_of_nat (length data), h_tag = tag, h_timestamp = clock n\<rparr>;
            n1 = n\<lparr>clock := clock n + 1\<rparr>
        in if ep_ip dest = listenip n \<and> ep_port dest = listenport n
           then got_message n1 hdr
                  \<lparr>ep_ip = listenip n, ep_port = listenport n, ep_localid = sourcelocalid\<rparr> tag data
           else Some (node_notify (n1\<lparr>remote := remote n1 @ [(dest, hdr, data)]\<rparr>)))"
  by pat_completeness auto
termination
  by (relation "measure (case_sum (\<lambda>(n, hdr, source, tag, data). if tag = MSG_LINK then 2 else 0)
                                  (\<lambda>(n, src, dest, tag, data). if tag = MSG_LINK then 3 else 1))")
    auto

declare got_message.simps [simp del] node_send_locked.simps [simp del]

subsection \<open>Links\<close>

definition endpoint_has_link :: "endpoint \<Rightarrow> endpointid \<Rightarrow> bool" where
  "endpoint_has_link endpt epid = list_ex (\<lambda>l. endpointid_equals l epid) (e_outlinks endpt)"

definition link_ok_to_have :: "endpointid list \<Rightarrow> endpointid \<Rightarrow> bool" where
  "link_ok_to_have epids epid = list_ex (\<lambda>e. \<not> endpointid_isnull e \<and> endpointid_equals e epid) epids"

definition endpoint_check_links :: "endpoint \<Rightarrow> endpointid list \<Rightarrow> bool" where
  "endpoint_check_links endpt epids \<longleftrightarrow>
     list_all (\<lambda>e. endpointid_isnull e \<or> endpoint_has_link endpt e) epids \<and>
     list_all (link_ok_to_have epids) (e_outlinks endpt)"

definition endpoint_link_locked :: "node \<Rightarrow> u32 \<Rightarrow> endpointid \<Rightarrow> node option" where
  "endpoint_link_locked n localid to =
     do { endpt \<leftarrow> find_endpoint n localid;
          if endpoint_has_link endpt to then Some n
          else node_send_locked (update_endpoint n localid (\<lambda>e. e\<lparr>e_outlinks := to # e_outlinks e\<rparr>))
                 localid to MSG_LINK (epid_bytes (e_epid endpt)) }"

definition endpoint_unlink_locked :: "node \<Rightarrow> u32 \<Rightarrow> endpointid \<Rightarrow> node option" where
  "endpoint_unlink_locked n localid to =
     do { endpt \<leftarrow> find_endpoint n localid;
          node_send_locked (update_endpoint n localid (\<lambda>e. e\<lparr>e_outlinks := endpoint_list_remove (e_outlinks e) to\<rparr>))
            localid to MSG_UNLINK (epid_bytes (e_epid endpt)) }"

definition endpoint_link :: "node \<Rightarrow> u32 \<Rightarrow> endpointid \<Rightarrow> node option" where
  "endpoint_link n localid to = (if endpointid_isnull to then None else endpoint_link_locked n localid to)"

subsection \<open>Mailboxes, creation and exit\<close>

definition endpoint_receive :: "node \<Rightarrow> u32 \<Rightarrow> (message option \<times> node) option" where
  "endpoint_receive n localid =
     do { endpt \<leftarrow> find_endpoint n localid;
          case e_mailbox endpt of
            [] \<Rightarrow> Some (None, n)
          | msg # ms \<Rightarrow> Some (Some msg, update_endpoint n localid (\<lambda>e. e\<lparr>e_mailbox := ms\<rparr>)) }"

definition node_add_thread_locked :: "node \<Rightarrow> string \<Rightarrow> u32 \<Rightarrow> (endpointid \<times> node) option" where
  "node_add_thread_locked n type localid =
     (if listenport n = 0 then None
      else if localid = 0 \<and> nextlocalid n = - 1 then None
      else
        let epid = \<lparr>ep_ip = listenip n, ep_port = listenport n,
                    ep_localid = (if localid = 0 then nextlocalid n else localid)\<rparr>;
            endpt = \<lparr>e_epid = epid, e_interrupt = False, e_type = type, e_closed = False,
                     e_mailbox = [], e_inlinks = [], e_outlinks = []\<rparr>
        in Some (epid, n\<lparr>nextlocalid := (if localid = 0 then nextlocalid n + 1 else nextlocalid n),
                        endpoints := endpoints n @ [endpt]\<rparr>))"

definition node_get_endpoints :: "node \<Rightarrow> string \<Rightarrow> endpointid list" where
  "node_get_endpoints n type = map e_epid (filter (\<lambda>e. e_type e = type) (endpoints n))"

fun send_exits :: "node \<Rightarrow> endpointid \<Rightarrow> endpointid list \<Rightarrow> node option" where
  "send_exits n epid [] = Some n"
| "send_exits n epid (link # links) =
     do { n1 \<leftarrow> (if endpointid_equals epid link then Some n
                 else node_send_locked n (ep_localid epid) link MSG_ENDPOINT_EXIT (exit_bytes epid 1));
          send_exits n1 epid links }"

text \<open>The part of \<^verbatim>\<open>endpoint_thread\<close> that runs when the thread function has returned.\<close>

definition endpoint_thread_exit :: "node \<Rightarrow> u32 \<Rightarrow> node option" where
  "endpoint_thread_exit n localid =
     do { endpt \<leftarrow> find_endpoint n localid;
          n1 \<leftarrow> send_exits n (e_epid endpt) (e_inlinks endpt);
          Some (n1\<lparr>endpoints := filter (\<lambda>e. ep_localid (e_epid e) \<noteq> localid) (endpoints n1)\<rparr>) }"

fun send_lost :: "node \<Rightarrow> endpointid \<Rightarrow> endpointid list \<Rightarrow> node option" where
  "send_lost n epid [] = Some n"
| "send_lost n epid (lost # ls) =
     do { n1 \<leftarrow> node_send_locked n (ep_localid epid) epid MSG_ENDPOINT_EXIT (exit_bytes lost 0);
          send_lost n1 epid ls }"

fun disconnect_endpoints :: "node \<Rightarrow> u32 \<Rightarrow> u16 \<Rightarrow> u32 list \<Rightarrow> node option" where
  "disconnect_endpoints n ip port [] = Some n"
| "disconnect_endpoints n ip port (localid # ids) =
     do { endpt \<leftarrow> find_endpoint n localid;
          n1 \<leftarrow> send_lost n (e_epid endpt) (filter (\<lambda>l. ep_ip l = ip \<and> ep_port l = port) (e_outlinks endpt));
          disconnect_endpoints n1 ip port ids }"

definition handle_disconnection :: "node \<Rightarrow> bool \<Rightarrow> u32 \<Rightarrow> u16 \<Rightarrow> node option" where
  "handle_disconnection n isreg ip port =
     (if isreg then Some n
      else disconnect_endpoints n ip port (map (\<lambda>e. ep_localid (e_epid e)) (endpoints n)))"

subsection \<open>Basic facts\<close>

lemma endpointid_equals_iff [simp]: "endpointid_equals a b \<longleftrightarrow> a = b"
  by (cases a; cases b) (auto simp: endpointid_equals_def)

lemma length_epid_bytes [simp]: "length (epid_bytes e) = 10"
  by (simp add: epid_bytes_def)

lemma of_epid_bytes_append [simp]: "of_epid_bytes (epid_bytes e @ bs) = e"
  by (cases e) (simp add: of_epid_bytes_def epid_bytes_def)

lemma of_epid_bytes_inverse [simp]: "of_epid_bytes (epid_bytes e) = e"
  using of_epid_bytes_append [of e "[]"] by simp

lemma exit_bytes_simps [simp]: "length (exit_bytes e r) = 14" "take 10 (exit_bytes e r) = epid_bytes e"
  by (simp_all add: exit_bytes_def)

lemma endpoint_list_remove_remove1 [simp]: "endpoint_list_remove ls to = remove1 to ls"
  by (induction ls) auto

lemma endpoint_has_link_iff [simp]: "endpoint_has_link endpt e \<longleftrightarrow> e \<in> set (e_outlinks endpt)"
  by (auto simp: endpoint_has_link_def list_ex_iff)

lemma endpoint_check_links_iff:
  "endpoint_check_links endpt epids \<longleftrightarrow>
     {e \<in> set epids. \<not> endpointid_isnull e} = set (e_outlinks endpt)"
  by (auto simp: endpoint_check_links_def link_ok_to_have_def list_all_iff list_ex_iff)

definition epid_of :: "node \<Rightarrow> u32 \<Rightarrow> endpointid" where
  "epid_of n i = \<lparr>ep_ip = listenip n, ep_port = listenport n, ep_localid = i\<rparr>"

lemma epid_of_simps [simp]: "ep_ip (epid_of n i) = listenip n" "ep_port (epid_of n i) = listenport n"
  "ep_localid (epid_of n i) = i" "endpointid_isnull (epid_of n i) \<longleftrightarrow> i = 0" "epid_of n i = epid_of n j \<longleftrightarrow> i = j"
  by (auto simp: epid_of_def endpointid_isnull_def)

text \<open>The fields that delivery leaves alone.\<close>

definition same_node :: "node \<Rightarrow> node \<Rightarrow> bool" where
  "same_node n n' \<longleftrightarrow>
     listenip n' = listenip n \<and> listenport n' = listenport n \<and> nextlocalid n' = nextlocalid n \<and>
     is_shutdown n' = is_shutdown n"

lemma same_node_refl [simp]: "same_node n n"
  by (simp add: same_node_def)

lemma same_node_trans: "same_node a b \<Longrightarrow> same_node b c \<Longrightarrow> same_node a c"
  by (simp add: same_node_def)

lemma same_node_epid: "same_node n n' \<Longrightarrow> epid_of n' = epid_of n"
  by (simp add: same_node_def epid_of_def fun_eq_iff)

lemma same_node_update [simp]: "same_node n (update_endpoint n' i f) = same_node n n'" "same_node n (node_notify n') = same_node n n'"
  "same_node n (endpoint_interrupt n' i) = same_node n n'"
  by (simp_all add: same_node_def update_endpoint_def node_notify_def endpoint_interrupt_def Let_def)

lemma find_map_if:
  assumes "\<And>e. k (f e) = k e"
  shows "find (\<lambda>e. k e = j) (map (\<lambda>e. if k e = i then f e else e) es) =
         (if i = j then map_option f (find (\<lambda>e. k e = j) es) else find (\<lambda>e. k e = j) es)"
  by (induction es) (auto simp: assms)

lemma find_update_endpoint:
  assumes "\<And>e. e_epid (f e) = e_epid e"
  shows "find_endpoint (update_endpoint n i f) j =
         (if i = j then map_option f (find_endpoint n j) else find_endpoint n j)"
  unfolding find_endpoint_def update_endpoint_def
  using find_map_if [of "\<lambda>e. ep_localid (e_epid e)" f] assms by simp

lemma find_update_fun:
  assumes "\<And>e. e_epid (f e) = e_epid e" and "find_endpoint n i = Some A"
  shows "find_endpoint (update_endpoint n i f) = (find_endpoint n)(i \<mapsto> f A)"
  using assms(2) find_update_endpoint [OF assms(1)] by (auto simp: fun_eq_iff)

lemma find_endpoint_fields [simp]: "find_endpoint (node_notify n) = find_endpoint n"
  "find_endpoint (n\<lparr>clock := c\<rparr>) = find_endpoint n" "find_endpoint (n\<lparr>remote := r\<rparr>) = find_endpoint n"
  by (simp_all add: find_endpoint_def node_notify_def fun_eq_iff)

lemma find_endpoint_id: "find_endpoint n i = Some A \<Longrightarrow> ep_localid (e_epid A) = i"
  by (auto simp: find_endpoint_def find_Some_iff)

definition node_ok :: "node \<Rightarrow> bool" where
  "node_ok n \<longleftrightarrow>
     listenip n \<noteq> 0 \<and> listenport n \<noteq> 0 \<and> find_endpoint n 0 = None \<and>
     (\<forall>i A. find_endpoint n i = Some A \<longrightarrow> e_epid A = epid_of n i)"

definition deliver :: "message \<Rightarrow> endpoint \<Rightarrow> endpoint" where
  "deliver msg e = (if e_closed e then e else e\<lparr>e_mailbox := e_mailbox e @ [msg], e_interrupt := True\<rparr>)"

definition drop_links :: "endpointid \<Rightarrow> endpoint \<Rightarrow> endpoint" where
  "drop_links x e = e\<lparr>e_inlinks := remove1 x (e_inlinks e), e_outlinks := remove1 x (e_outlinks e)\<rparr>"

lemma deliver_simps [simp]: "e_epid (deliver m e) = e_epid e" "e_inlinks (deliver m e) = e_inlinks e"
  "e_outlinks (deliver m e) = e_outlinks e" "e_closed (deliver m e) = e_closed e"
  "\<not> e_closed e \<Longrightarrow> e_mailbox (deliver m e) = e_mailbox e @ [m]"
  by (simp_all add: deliver_def)

lemma drop_links_simps [simp]: "e_epid (drop_links x e) = e_epid e" "e_inlinks (drop_links x e) = remove1 x (e_inlinks e)"
  "e_outlinks (drop_links x e) = remove1 x (e_outlinks e)" "e_closed (drop_links x e) = e_closed e"
  "e_mailbox (drop_links x e) = e_mailbox e"
  by (simp_all add: drop_links_def)

lemma endpoint_add_message_data:
  assumes A: "find_endpoint n i = Some A" and tag: "m_tag msg \<noteq> MSG_LINK" "m_tag msg \<noteq> MSG_UNLINK" "m_tag msg \<noteq> MSG_ENDPOINT_EXIT"
  shows "\<exists>n'. endpoint_add_message n A msg = Some n' \<and> same_node n n' \<and> remote n' = remote n \<and>
    find_endpoint n' = (find_endpoint n)(i \<mapsto> deliver msg A)"
proof -
  have i: "ep_localid (e_epid A) = i" using find_endpoint_id [OF A] .
  show ?thesis
  proof (cases "e_closed A")
    case True
    then show ?thesis using tag i A by (auto simp: endpoint_add_message_def Let_def deliver_def fun_eq_iff)
  next
    case False
    let ?n1 = "update_endpoint n i (\<lambda>e. e\<lparr>e_mailbox := e_mailbox e @ [msg]\<rparr>)"
    have f1: "find_endpoint ?n1 = (find_endpoint n)(i \<mapsto> A\<lparr>e_mailbox := e_mailbox A @ [msg]\<rparr>)"
      by (rule find_update_fun [OF _ A]) simp
    have "find_endpoint (endpoint_interrupt ?n1 i) = (find_endpoint n)(i \<mapsto> deliver msg A)"
      using find_update_fun [of "\<lambda>e. e\<lparr>e_interrupt := True\<rparr>" ?n1 i "A\<lparr>e_mailbox := e_mailbox A @ [msg]\<rparr>"] f1 False
      by (auto simp: endpoint_interrupt_def Let_def deliver_def)
    moreover have "remote (endpoint_interrupt ?n1 i) = remote n"
      by (simp add: endpoint_interrupt_def update_endpoint_def node_notify_def Let_def)
    ultimately show ?thesis using False tag i by (simp add: endpoint_add_message_def Let_def)
  qed
qed

lemma endpoint_add_message_exit:
  assumes A: "find_endpoint n i = Some A" and msg: "m_tag msg = MSG_ENDPOINT_EXIT" "m_data msg = exit_bytes x r"
  shows "\<exists>n'. endpoint_add_message n A msg = Some n' \<and> same_node n n' \<and> remote n' = remote n \<and>
    find_endpoint n' = (find_endpoint n)(i \<mapsto> deliver msg (drop_links x A))"
proof -
  have i: "ep_localid (e_epid A) = i" using find_endpoint_id [OF A] .
  let ?n1 = "update_endpoint n i (drop_links x)"
  have f1: "find_endpoint ?n1 = (find_endpoint n)(i \<mapsto> drop_links x A)"
    by (rule find_update_fun [OF _ A]) simp
  then have A1: "find_endpoint ?n1 i = Some (drop_links x A)" by simp
  have eq: "endpoint_add_message n A msg =
      (if e_closed A then Some ?n1
       else Some (endpoint_interrupt (update_endpoint ?n1 i (\<lambda>e. e\<lparr>e_mailbox := e_mailbox e @ [msg]\<rparr>)) i))"
    using msg i by (simp add: endpoint_add_message_def Let_def drop_links_def [abs_def])
  let ?n2 = "update_endpoint ?n1 i (\<lambda>e. e\<lparr>e_mailbox := e_mailbox e @ [msg]\<rparr>)"
  have f2: "find_endpoint ?n2 = (find_endpoint n)(i \<mapsto> (drop_links x A)\<lparr>e_mailbox := e_mailbox A @ [msg]\<rparr>)"
    using find_update_fun [of "\<lambda>e. e\<lparr>e_mailbox := e_mailbox e @ [msg]\<rparr>" ?n1 i, OF _ A1] f1 by simp
  have "find_endpoint (endpoint_interrupt ?n2 i) =
      (find_endpoint n)(i \<mapsto> (drop_links x A)\<lparr>e_mailbox := e_mailbox A @ [msg], e_interrupt := True\<rparr>)"
    using find_update_fun [of "\<lambda>e. e\<lparr>e_interrupt := True\<rparr>" ?n2 i] f2 by (auto simp: endpoint_interrupt_def Let_def)
  moreover have "remote (endpoint_interrupt ?n2 i) = remote n" "remote ?n1 = remote n"
    by (simp_all add: endpoint_interrupt_def update_endpoint_def node_notify_def Let_def)
  ultimately show ?thesis unfolding eq using f1 by (auto simp: deliver_def)
qed

lemma send_local:
  assumes ok: "node_ok n" and B: "find_endpoint n j = Some B"
  shows "node_send_locked n src (epid_of n j) tag data =
    endpoint_add_message (n\<lparr>clock := clock n + 1\<rparr>) B
      \<lparr>m_source = epid_of n src, m_dest = epid_of n j, m_tag = tag, m_data = data\<rparr>"
  using ok B by (simp add: node_send_locked.simps got_message.simps Let_def node_ok_def epid_of_def)

lemma send_dead:
  assumes ok: "node_ok n" and "find_endpoint n j = None" and "tag \<noteq> MSG_LINK"
  shows "node_send_locked n src (epid_of n j) tag data = Some (n\<lparr>clock := clock n + 1\<rparr>)"
  using assms by (simp add: node_send_locked.simps got_message.simps Let_def node_ok_def)

lemma send_remote:
  assumes "ep_ip dest \<noteq> 0" and "ep_port dest \<noteq> 0" and "ep_ip dest \<noteq> listenip n \<or> ep_port dest \<noteq> listenport n"
  shows "\<exists>n'. node_send_locked n src dest tag data = Some n' \<and> same_node n n' \<and> find_endpoint n' = find_endpoint n \<and>
    (\<exists>hdr. remote n' = remote n @ [(dest, hdr, data)] \<and> h_tag hdr = tag \<and> h_destlocalid hdr = ep_localid dest \<and>
       h_sourcelocalid hdr = src \<and> h_timestamp hdr = clock n \<and> h_size hdr = word_of_nat (length data))"
  using assms by (auto simp: node_send_locked.simps Let_def node_notify_def same_node_def find_endpoint_def)

lemma node_ok_cong: "same_node n n' \<Longrightarrow> find_endpoint n' = find_endpoint n \<Longrightarrow> node_ok n' = node_ok n"
  using same_node_epid [of n n'] by (simp add: node_ok_def same_node_def)

lemma node_ok_upd:
  assumes "node_ok n" and "same_node n n'" and "find_endpoint n' = (find_endpoint n)(i \<mapsto> A')"
    and "find_endpoint n i = Some A" and "e_epid A' = e_epid A"
  shows "node_ok n'"
  using assms same_node_epid [OF assms(2)] by (auto simp: node_ok_def same_node_def)

lemma node_ok_clock [simp]: "node_ok (n\<lparr>clock := c\<rparr>) = node_ok n"
  by (rule node_ok_cong) (simp_all add: same_node_def)

lemma same_node_clock [simp]: "same_node (n\<lparr>clock := c\<rparr>) n' = same_node n n'" "same_node n (n'\<lparr>clock := c\<rparr>) = same_node n n'"
  by (simp_all add: same_node_def)

lemma epid_of_clock [simp]: "epid_of (n\<lparr>clock := c\<rparr>) = epid_of n"
  by (simp add: epid_of_def fun_eq_iff)

text \<open>An exit message to a local endpoint, alive or not.\<close>

lemma send_exit:
  assumes ok: "node_ok n"
  shows "\<exists>n' msg. node_send_locked n src (epid_of n i) MSG_ENDPOINT_EXIT (exit_bytes x r) = Some n' \<and>
    same_node n n' \<and> node_ok n' \<and> remote n' = remote n \<and>
    find_endpoint n' = (case find_endpoint n i of None \<Rightarrow> find_endpoint n
                        | Some A \<Rightarrow> (find_endpoint n)(i \<mapsto> deliver msg (drop_links x A))) \<and>
    msg = \<lparr>m_source = epid_of n src, m_dest = epid_of n i, m_tag = MSG_ENDPOINT_EXIT, m_data = exit_bytes x r\<rparr>"
proof (cases "find_endpoint n i")
  case None
  then show ?thesis using send_dead [OF ok None, of MSG_ENDPOINT_EXIT] ok by simp
next
  case (Some A)
  let ?msg = "\<lparr>m_source = epid_of n src, m_dest = epid_of n i, m_tag = MSG_ENDPOINT_EXIT, m_data = exit_bytes x r\<rparr>"
  let ?n = "n\<lparr>clock := clock n + 1\<rparr>"
  obtain n' where n': "endpoint_add_message ?n A ?msg = Some n'" "same_node ?n n'" "remote n' = remote ?n"
    "find_endpoint n' = (find_endpoint ?n)(i \<mapsto> deliver ?msg (drop_links x A))"
    using endpoint_add_message_exit [of ?n i A ?msg x r] Some by auto
  moreover have "node_ok n'"
    by (rule node_ok_upd [OF ok _ _ Some, of n' "deliver ?msg (drop_links x A)"]) (use n' in simp_all)
  ultimately show ?thesis using send_local [OF ok Some, of src MSG_ENDPOINT_EXIT] Some by auto
qed

subsection \<open>The link invariant\<close>

definition alive :: "node \<Rightarrow> u32 \<Rightarrow> bool" where
  "alive n i \<longleftrightarrow> find_endpoint n i \<noteq> None"

definition outs :: "node \<Rightarrow> u32 \<Rightarrow> endpointid list" where
  "outs n i = (case find_endpoint n i of None \<Rightarrow> [] | Some A \<Rightarrow> e_outlinks A)"

definition ins :: "node \<Rightarrow> u32 \<Rightarrow> endpointid list" where
  "ins n i = (case find_endpoint n i of None \<Rightarrow> [] | Some A \<Rightarrow> e_inlinks A)"

text \<open>Addresses a message can be sent to.\<close>

definition sendable :: "endpointid \<Rightarrow> bool" where
  "sendable e \<longleftrightarrow> ep_ip e \<noteq> 0 \<and> ep_port e \<noteq> 0"

lemma sendable_epid_of: "node_ok n \<Longrightarrow> sendable (epid_of n i)"
  by (simp add: sendable_def node_ok_def)

text \<open>Local links are mutual: an endpoint that another one has a link to is alive and knows it,
  and what a live endpoint is known for linking to, it links to. Whoever has to be told of an
  exit can be sent a message. No link of a local endpoint is recorded twice; a link reported by
  another node is pushed without a look at the list and may be there any number of times.\<close>

definition once :: "'a \<Rightarrow> 'a list \<Rightarrow> bool" where
  "once x xs \<longleftrightarrow> x \<notin> set (remove1 x xs)"

lemma once_simps [simp]: "once x []" "once x (y # ys) = (if x = y then x \<notin> set ys else once x ys)"
  by (auto simp: once_def)

lemma once_fresh: "x \<notin> set xs \<Longrightarrow> once x xs"
  by (auto simp: once_def dest: notin_set_remove1)

lemma once_remove1 [simp]: "once x xs \<Longrightarrow> once x (remove1 y xs)"
  by (induction xs) (auto simp: once_fresh dest: notin_set_remove1 split: if_splits)

definition links_inv :: "(u32 \<Rightarrow> endpointid) \<Rightarrow> (u32 \<Rightarrow> bool) \<Rightarrow> (u32 \<Rightarrow> endpointid list) \<Rightarrow> (u32 \<Rightarrow> endpointid list) \<Rightarrow> bool" where
  "links_inv ep live out inl \<longleftrightarrow>
     (\<forall>i. live i \<longrightarrow> distinct (out i) \<and> (\<forall>j. once (ep j) (inl i)) \<and> (\<forall>l \<in> set (inl i). sendable l) \<and>
        (\<forall>j. ep j \<in> set (out i) \<longrightarrow> live j \<and> ep i \<in> set (inl j)) \<and>
        (\<forall>j. live j \<longrightarrow> ep j \<in> set (inl i) \<longrightarrow> ep i \<in> set (out j)))"

abbreviation links_ok :: "node \<Rightarrow> bool" where
  "links_ok n \<equiv> links_inv (epid_of n) (alive n) (outs n) (ins n)"

lemma view_upd:
  assumes "find_endpoint n' = (find_endpoint n)(i \<mapsto> A')" and "find_endpoint n i = Some A"
  shows "alive n' = alive n" "outs n' = (outs n)(i := e_outlinks A')" "ins n' = (ins n)(i := e_inlinks A')"
  using assms by (auto simp: alive_def outs_def ins_def fun_eq_iff)

lemma view_cong:
  assumes "find_endpoint n' = find_endpoint n"
  shows "alive n' = alive n" "outs n' = outs n" "ins n' = ins n"
  using assms by (auto simp: alive_def outs_def ins_def fun_eq_iff)

lemma view_some: "find_endpoint n i = Some A \<Longrightarrow> alive n i \<and> outs n i = e_outlinks A \<and> ins n i = e_inlinks A"
  by (simp add: alive_def outs_def ins_def)

lemma links_invI:
  assumes "\<And>i. live i \<Longrightarrow> distinct (out i) \<and> (\<forall>j. once (ep j) (inl i))"
    and "\<And>i l. live i \<Longrightarrow> l \<in> set (inl i) \<Longrightarrow> sendable l"
    and "\<And>i j. live i \<Longrightarrow> ep j \<in> set (out i) \<Longrightarrow> live j \<and> ep i \<in> set (inl j)"
    and "\<And>i j. live i \<Longrightarrow> live j \<Longrightarrow> ep j \<in> set (inl i) \<Longrightarrow> ep i \<in> set (out j)"
  shows "links_inv ep live out inl"
  using assms unfolding links_inv_def by blast

lemma links_invD:
  assumes "links_inv ep live out inl"
  shows "live i \<Longrightarrow> distinct (out i)" "live i \<Longrightarrow> once (ep j) (inl i)"
    "live i \<Longrightarrow> ep j \<in> set (out i) \<Longrightarrow> live j"
    "live i \<Longrightarrow> ep j \<in> set (out i) \<Longrightarrow> ep i \<in> set (inl j)"
    "live i \<Longrightarrow> live j \<Longrightarrow> ep j \<in> set (inl i) \<Longrightarrow> ep i \<in> set (out j)"
    "live i \<Longrightarrow> l \<in> set (inl i) \<Longrightarrow> sendable l"
  using assms unfolding links_inv_def by blast+

lemma upd_remove:
  "y \<in> set ((f(i := remove1 x (f i))) k) \<Longrightarrow> y \<in> set (f k)"
  "y \<noteq> x \<Longrightarrow> y \<in> set (f k) \<Longrightarrow> y \<in> set ((f(i := remove1 x (f i))) k)"
  "k \<noteq> i \<Longrightarrow> y \<in> set (f k) \<Longrightarrow> y \<in> set ((f(i := remove1 x (f i))) k)"
  "distinct (f k) \<Longrightarrow> distinct ((f(i := remove1 x (f i))) k)"
  "distinct (f i) \<Longrightarrow> x \<notin> set ((f(i := remove1 x (f i))) i)"
  "once x (f i) \<Longrightarrow> x \<notin> set ((f(i := remove1 x (f i))) i)"
  by (auto simp: in_set_remove1 once_def split: if_splits dest: set_remove1_subset [THEN subsetD])

text \<open>Dropping all links between \<open>i\<close> and an identifier that is not alive.\<close>

lemma links_inv_drop:
  assumes inv: "links_inv ep live out inl" and x: "\<And>j. live j \<Longrightarrow> ep j \<noteq> x"
  shows "links_inv ep live (out(i := remove1 x (out i))) (inl(i := remove1 x (inl i)))"
proof (rule links_invI)
  show "distinct ((out(i := remove1 x (out i))) k) \<and> (\<forall>j. once (ep j) ((inl(i := remove1 x (inl i))) k))" if "live k" for k
    using links_invD(1,2) [OF inv that] by auto
  show "sendable l" if "live k" "l \<in> set ((inl(i := remove1 x (inl i))) k)" for k l
    using links_invD(6) [OF inv that(1) upd_remove(1) [OF that(2)]] .
  show "live j \<and> ep k \<in> set ((inl(i := remove1 x (inl i))) j)"
    if "live k" "ep j \<in> set ((out(i := remove1 x (out i))) k)" for k j
    using links_invD(3,4) [OF inv that(1) upd_remove(1) [OF that(2)]]
    by (intro conjI upd_remove(2) [OF x [OF that(1)]])
  show "ep k \<in> set ((out(i := remove1 x (out i))) j)"
    if "live k" "live j" "ep j \<in> set ((inl(i := remove1 x (inl i))) k)" for k j
    using links_invD(5) [OF inv that(1,2) upd_remove(1) [OF that(3)]] by (rule upd_remove(2) [OF x [OF that(1)]])
qed

text \<open>A new link from \<open>i\<close> to the live endpoint \<open>j\<close>, and its removal.\<close>

lemma links_inv_link:
  assumes inv: "links_inv ep live out inl" and "live i" and "live j" and new: "ep j \<notin> set (out i)" and ep: "inj ep"
    and "sendable (ep i)"
  shows "links_inv ep live (out(i := ep j # out i)) (inl(j := ep i # inl j))"
proof (rule links_invI)
  have "ep i \<notin> set (inl j)" using links_invD(5) [OF inv assms(3,2)] new by blast
  then show "distinct ((out(i := ep j # out i)) k) \<and> (\<forall>b. once (ep b) ((inl(j := ep i # inl j)) k))" if "live k" for k
    using links_invD(1,2) [OF inv that] new by auto
  show "sendable l" if "live k" "l \<in> set ((inl(j := ep i # inl j)) k)" for k l
    using links_invD(6) [OF inv that(1)] that(2) assms(6) by (auto split: if_splits)
  show "live b \<and> ep k \<in> set ((inl(j := ep i # inl j)) b)" if "live k" "ep b \<in> set ((out(i := ep j # out i)) k)" for k b
  proof (cases "k = i \<and> b = j")
    case False
    then have "ep b \<in> set (out k)" using that(2) ep by (auto simp: inj_eq split: if_splits)
    then show ?thesis using links_invD(3,4) [OF inv that(1)] by auto
  qed (use assms(3) in simp)
  show "ep k \<in> set ((out(i := ep j # out i)) b)" if "live k" "live b" "ep b \<in> set ((inl(j := ep i # inl j)) k)" for k b
  proof (cases "b = i \<and> k = j")
    case False
    then have "ep b \<in> set (inl k)" using that(3) ep by (auto simp: inj_eq split: if_splits)
    then show ?thesis using links_invD(5) [OF inv that(1,2)] by auto
  qed simp
qed

lemma links_inv_unlink:
  assumes inv: "links_inv ep live out inl" and "live i" and ep: "inj ep"
  shows "links_inv ep live (out(i := remove1 (ep j) (out i))) (inl(j := remove1 (ep i) (inl j)))"
proof (rule links_invI)
  show "distinct ((out(i := remove1 (ep j) (out i))) k) \<and> (\<forall>b. once (ep b) ((inl(j := remove1 (ep i) (inl j))) k))" if "live k" for k
    using links_invD(1,2) [OF inv that] by auto
  show "sendable l" if "live k" "l \<in> set ((inl(j := remove1 (ep i) (inl j))) k)" for k l
    using links_invD(6) [OF inv that(1) upd_remove(1) [OF that(2)]] .
  show "live b \<and> ep k \<in> set ((inl(j := remove1 (ep i) (inl j))) b)"
    if k: "live k" "ep b \<in> set ((out(i := remove1 (ep j) (out i))) k)" for k b
  proof -
    note b = links_invD(3,4) [OF inv k(1) upd_remove(1) [OF k(2)]]
    have "k \<noteq> i \<or> b \<noteq> j" using k(2) upd_remove(5) links_invD(1) [OF inv \<open>live i\<close>] by metis
    then show ?thesis using b upd_remove(2,3) ep by (metis injD)
  qed
  show "ep k \<in> set ((out(i := remove1 (ep j) (out i))) b)"
    if k: "live k" "live b" "ep b \<in> set ((inl(j := remove1 (ep i) (inl j))) k)" for k b
  proof -
    note b = links_invD(5) [OF inv k(1,2) upd_remove(1) [OF k(3)]]
    have "k \<noteq> j \<or> b \<noteq> i" using k upd_remove(6) links_invD(2) [OF inv] by metis
    then show ?thesis using b upd_remove(2,3) ep by (metis injD)
  qed
qed

text \<open>A link to a remote endpoint.\<close>

lemma links_inv_remote:
  assumes inv: "links_inv ep live out inl" and "x \<notin> set (out i)" and x: "\<And>j. ep j \<noteq> x"
  shows "links_inv ep live (out(i := x # out i)) inl"
proof (rule links_invI)
  show "distinct ((out(i := x # out i)) k) \<and> (\<forall>j. once (ep j) (inl k))" if "live k" for k
    using links_invD(1,2) [OF inv that] assms(2) by auto
  show "sendable l" if "live k" "l \<in> set (inl k)" for k l
    using links_invD(6) [OF inv that] .
  show "live j \<and> ep k \<in> set (inl j)" if "live k" "ep j \<in> set ((out(i := x # out i)) k)" for k j
    using links_invD(3,4) [OF inv that(1)] that(2) x by (auto split: if_splits)
  show "ep k \<in> set ((out(i := x # out i)) j)" if "live k" "live j" "ep j \<in> set (inl k)" for k j
    using links_invD(5) [OF inv that] by auto
qed

lemma links_inv_remote_remove:
  assumes inv: "links_inv ep live out inl" and x: "\<And>j. ep j \<noteq> x"
  shows "links_inv ep live (out(i := remove1 x (out i))) inl"
proof (rule links_invI)
  show "distinct ((out(i := remove1 x (out i))) k) \<and> (\<forall>j. once (ep j) (inl k))" if "live k" for k
    using links_invD(1,2) [OF inv that] by auto
  show "sendable l" if "live k" "l \<in> set (inl k)" for k l
    using links_invD(6) [OF inv that] .
  show "live j \<and> ep k \<in> set (inl j)" if "live k" "ep j \<in> set ((out(i := remove1 x (out i))) k)" for k j
    using links_invD(3,4) [OF inv that(1) upd_remove(1) [OF that(2)]] by (rule conjI)
  show "ep k \<in> set ((out(i := remove1 x (out i))) j)" if "live k" "live j" "ep j \<in> set (inl k)" for k j
    using links_invD(5) [OF inv that] by (rule upd_remove(2) [OF x])
qed

text \<open>A remote endpoint starts or stops linking to \<open>i\<close>.\<close>

lemma links_inv_remote_in:
  assumes inv: "links_inv ep live out inl" and x: "\<And>j. ep j \<noteq> x" and "sendable x"
  shows "links_inv ep live out (inl(i := x # inl i))"
proof (rule links_invI)
  show "distinct (out k) \<and> (\<forall>j. once (ep j) ((inl(i := x # inl i)) k))" if "live k" for k
    using links_invD(1,2) [OF inv that] x by (cases "k = i") simp_all
  show "sendable l" if "live k" "l \<in> set ((inl(i := x # inl i)) k)" for k l
    using links_invD(6) [OF inv that(1)] that(2) assms(3) by (auto split: if_splits)
  show "live j \<and> ep k \<in> set ((inl(i := x # inl i)) j)" if "live k" "ep j \<in> set (out k)" for k j
    using links_invD(3,4) [OF inv that] by (cases "j = i") simp_all
  show "ep k \<in> set (out j)" if "live k" "live j" "ep j \<in> set ((inl(i := x # inl i)) k)" for k j
    using links_invD(5) [OF inv that(1,2)] that(3) x [of j] by (auto split: if_splits)
qed

lemma links_inv_remote_in_remove:
  assumes inv: "links_inv ep live out inl" and x: "\<And>j. ep j \<noteq> x"
  shows "links_inv ep live out (inl(i := remove1 x (inl i)))"
proof (rule links_invI)
  show "distinct (out k) \<and> (\<forall>j. once (ep j) ((inl(i := remove1 x (inl i))) k))" if "live k" for k
    using links_invD(1,2) [OF inv that] by auto
  show "sendable l" if "live k" "l \<in> set ((inl(i := remove1 x (inl i))) k)" for k l
    using links_invD(6) [OF inv that(1) upd_remove(1) [OF that(2)]] .
  show "live j \<and> ep k \<in> set ((inl(i := remove1 x (inl i))) j)" if "live k" "ep j \<in> set (out k)" for k j
    using links_invD(3,4) [OF inv that] by (intro conjI upd_remove(2) [OF x])
  show "ep k \<in> set (out j)" if "live k" "live j" "ep j \<in> set ((inl(i := remove1 x (inl i))) k)" for k j
    using links_invD(5) [OF inv that(1,2) upd_remove(1) [OF that(3)]] .
qed

text \<open>When \<open>b\<close> is gone and everyone it knew of has dropped its links to it.\<close>

lemma links_inv_exit:
  assumes inv: "links_inv ep live out inl" and b: "live b" and ep: "inj ep"
    and known: "\<And>i. live i \<Longrightarrow> i \<noteq> b \<Longrightarrow> ep i \<in> set (inl b) \<Longrightarrow> out' i = remove1 (ep b) (out i) \<and> inl' i = remove1 (ep b) (inl i)"
    and other: "\<And>i. live i \<Longrightarrow> i \<noteq> b \<Longrightarrow> ep i \<notin> set (inl b) \<Longrightarrow> out' i = out i \<and> inl' i = inl i"
  shows "links_inv ep (live(b := False)) out' inl'"
proof (rule links_invI)
  have sub: "set (out' i) \<subseteq> set (out i) \<and> set (inl' i) \<subseteq> set (inl i) \<and>
      (\<forall>y. y \<noteq> ep b \<longrightarrow> (y \<in> set (out' i) \<longleftrightarrow> y \<in> set (out i)) \<and> (y \<in> set (inl' i) \<longleftrightarrow> y \<in> set (inl i)))"
    if "live i" "i \<noteq> b" for i
    using known [OF that] other [OF that] set_remove1_subset [of "ep b"] in_set_remove1 [of _ "ep b"]
    by (cases "ep i \<in> set (inl b)") auto
  have gone: "ep b \<notin> set (out' i)" if "live i" "i \<noteq> b" for i
  proof (cases "ep i \<in> set (inl b)")
    case True
    then show ?thesis using known [OF that] links_invD(1) [OF inv that(1)] by simp
  next
    case False
    then show ?thesis using other [OF that] links_invD(4) [OF inv that(1), of b] by auto
  qed
  fix i j
  assume "(live(b := False)) i"
  then have i: "live i" "i \<noteq> b" by (auto split: if_splits)
  show "distinct (out' i) \<and> (\<forall>k. once (ep k) (inl' i))"
    using known [OF i] other [OF i] links_invD(1,2) [OF inv i(1)] by (cases "ep i \<in> set (inl b)") auto
  show "sendable l" if "l \<in> set (inl' i)" for l
    using links_invD(6) [OF inv i(1)] that sub [OF i] by blast
  have ib: "ep i \<noteq> ep b" using ep i(2) by (simp add: inj_eq)
  show "(live(b := False)) j \<and> ep i \<in> set (inl' j)" if "ep j \<in> set (out' i)"
  proof -
    have "j \<noteq> b" using that gone [OF i] by auto
    moreover have "live j" "ep i \<in> set (inl j)" using that sub [OF i] links_invD(3,4) [OF inv i(1)] by blast+
    ultimately show ?thesis using sub [of j] ib by auto
  qed
  show "ep i \<in> set (out' j)" if "(live(b := False)) j" "ep j \<in> set (inl' i)"
  proof -
    have j: "live j" "j \<noteq> b" using that(1) by (auto split: if_splits)
    have "ep i \<in> set (out j)" using links_invD(5) [OF inv i(1) j(1)] that(2) sub [OF i] by blast
    then show ?thesis using sub [OF j] ib by blast
  qed
qed

text \<open>A new endpoint that nobody has heard of.\<close>

lemma links_inv_new:
  assumes inv: "links_inv ep live out inl" and k: "\<not> live k"
    and "\<And>i. live i \<Longrightarrow> ep k \<notin> set (out i)" and "\<And>i. live i \<Longrightarrow> ep k \<notin> set (inl i)"
  shows "links_inv ep (live(k := True)) (out(k := [])) (inl(k := []))"
proof (rule links_invI)
  fix i j l
  assume i: "(live(k := True)) i"
  show "distinct ((out(k := [])) i) \<and> (\<forall>b. once (ep b) ((inl(k := [])) i))"
    using links_invD(1,2) [OF inv, of i] i by auto
  show "sendable l" if "l \<in> set ((inl(k := [])) i)" for l
    using links_invD(6) [OF inv, of i l] i that by (auto split: if_splits)
  show "(live(k := True)) j \<and> ep i \<in> set ((inl(k := [])) j)" if "ep j \<in> set ((out(k := [])) i)"
    using links_invD(3,4) [OF inv, of i j] i k that assms(3) [of i] by (auto split: if_splits)
  show "ep i \<in> set ((out(k := [])) j)" if "(live(k := True)) j" "ep j \<in> set ((inl(k := [])) i)"
    using links_invD(5) [OF inv, of i j] i that assms(4) [of i] by (auto split: if_splits)
qed

subsection \<open>Every operation returns and keeps the invariant\<close>

lemma inj_epid_of [simp]: "inj (epid_of n)"
  by (rule injI) simp

definition local_id :: "node \<Rightarrow> endpointid \<Rightarrow> bool" where
  "local_id n e \<longleftrightarrow> ep_ip e = listenip n \<and> ep_port e = listenport n"

lemma local_id_iff: "local_id n e \<longleftrightarrow> (\<exists>j. e = epid_of n j)"
  by (cases e) (auto simp: local_id_def epid_of_def)

definition node_inv :: "node \<Rightarrow> bool" where
  "node_inv n \<longleftrightarrow> node_ok n \<and> links_ok n"

text \<open>Of this node's identifiers, only those of live endpoints get known for linking to others.\<close>

definition ins_grow :: "node \<Rightarrow> node \<Rightarrow> bool" where
  "ins_grow n n' \<longleftrightarrow> (\<forall>k. set (ins n' k) \<subseteq> set (ins n k) \<union> {epid_of n i |i. alive n i} \<union> {e. \<not> local_id n e})"

lemma ins_grow_eq: "ins n' = ins n \<Longrightarrow> ins_grow n n'"
  by (auto simp: ins_grow_def)

lemma ins_grow_remove: "ins n' = (ins n)(i := remove1 x (ins n i)) \<Longrightarrow> ins_grow n n'"
  by (auto simp: ins_grow_def dest: set_remove1_subset [THEN subsetD] split: if_splits)

text \<open>The invariant after a change to one endpoint that keeps its links.\<close>

lemma node_inv_upd:
  assumes "node_inv n" and "same_node n n'" and A: "find_endpoint n i = Some A"
    and f: "find_endpoint n' = (find_endpoint n)(i \<mapsto> A')" and "e_epid A' = e_epid A"
    and "e_outlinks A' = e_outlinks A" and "e_inlinks A' = e_inlinks A"
  shows "node_inv n' \<and> alive n' = alive n \<and> ins_grow n n'"
proof -
  have "outs n' = outs n" "ins n' = ins n"
    using view_upd(2,3) [OF f A] view_some [OF A] assms(6,7) by (simp_all add: fun_eq_iff)
  moreover have "node_ok n'" using node_ok_upd [OF _ assms(2) f A assms(5)] assms(1) by (simp add: node_inv_def)
  ultimately show ?thesis using assms(1) view_upd(1) [OF f A] same_node_epid [OF assms(2)]
    by (simp add: node_inv_def ins_grow_eq)
qed

lemma send_data_inv:
  assumes inv: "node_inv n" and dest: "sendable dest"
    and tag: "tag \<noteq> MSG_LINK" "tag \<noteq> MSG_UNLINK" "tag \<noteq> MSG_ENDPOINT_EXIT"
  shows "\<exists>n'. node_send_locked n src dest tag data = Some n' \<and> same_node n n' \<and> node_inv n' \<and>
    alive n' = alive n \<and> ins_grow n n'"
proof (cases "local_id n dest")
  case False
  then obtain n' where "node_send_locked n src dest tag data = Some n'" "same_node n n'" "find_endpoint n' = find_endpoint n"
    using send_remote [of dest n src tag data] dest by (auto simp: sendable_def local_id_def)
  then show ?thesis using inv node_ok_cong [of n n'] view_cong [of n' n] same_node_epid [of n n'] by (simp add: node_inv_def ins_grow_eq)
next
  case True
  then obtain j where j: "dest = epid_of n j" by (auto simp: local_id_iff)
  have ok: "node_ok n" using inv by (simp add: node_inv_def)
  show ?thesis
  proof (cases "find_endpoint n j")
    case None
    then show ?thesis using send_dead [OF ok None tag(1)] inv view_cong [of "n\<lparr>clock := clock n + 1\<rparr>" n]
      by (simp add: j node_inv_def ins_grow_eq)
  next
    case (Some B)
    let ?msg = "\<lparr>m_source = epid_of n src, m_dest = epid_of n j, m_tag = tag, m_data = data\<rparr>"
    obtain n' where n': "endpoint_add_message (n\<lparr>clock := clock n + 1\<rparr>) B ?msg = Some n'" "same_node n n'"
      "find_endpoint n' = (find_endpoint n)(j \<mapsto> deliver ?msg B)"
      using endpoint_add_message_data [of "n\<lparr>clock := clock n + 1\<rparr>" j B ?msg] Some tag by auto
    have "node_inv n' \<and> alive n' = alive n \<and> ins_grow n n'" by (rule node_inv_upd [OF inv n'(2) Some n'(3)]) simp_all
    then show ?thesis using n' send_local [OF ok Some] j by auto
  qed
qed

lemma send_exit_inv:
  assumes inv: "node_inv n" and x: "\<And>j. alive n j \<Longrightarrow> x \<noteq> epid_of n j"
  shows "\<exists>n'. node_send_locked n src (epid_of n i) MSG_ENDPOINT_EXIT (exit_bytes x r) = Some n' \<and>
    same_node n n' \<and> node_inv n' \<and> alive n' = alive n"
proof -
  have ok: "node_ok n" using inv by (simp add: node_inv_def)
  from send_exit [OF ok, of src i x r] obtain n' msg where
    n': "node_send_locked n src (epid_of n i) MSG_ENDPOINT_EXIT (exit_bytes x r) = Some n'" "same_node n n'" "node_ok n'"
      "find_endpoint n' = (case find_endpoint n i of None \<Rightarrow> find_endpoint n
                           | Some A \<Rightarrow> (find_endpoint n)(i \<mapsto> deliver msg (drop_links x A)))" by blast
  have "links_ok n' \<and> alive n' = alive n"
  proof (cases "find_endpoint n i")
    case None
    then show ?thesis using n'(4) view_cong [of n' n] inv same_node_epid [OF n'(2)] by (simp add: node_inv_def)
  next
    case (Some A)
    then have f: "find_endpoint n' = (find_endpoint n)(i \<mapsto> deliver msg (drop_links x A))" using n'(4) by simp
    have "links_inv (epid_of n) (alive n) ((outs n)(i := remove1 x (outs n i))) ((ins n)(i := remove1 x (ins n i)))"
      using links_inv_drop inv x unfolding node_inv_def by metis
    then show ?thesis using view_upd [OF f Some] view_some [OF Some] same_node_epid [OF n'(2)] by simp
  qed
  with n' show ?thesis by (auto simp: node_inv_def)
qed

lemma send_link_live:
  assumes ok: "node_ok n" and B: "find_endpoint n j = Some B" and e: "\<not> endpointid_isnull e"
  shows "\<exists>n'. node_send_locked n src (epid_of n j) MSG_LINK (epid_bytes e) = Some n' \<and> same_node n n' \<and>
    remote n' = remote n \<and> find_endpoint n' = (find_endpoint n)(j \<mapsto> B\<lparr>e_inlinks := e # e_inlinks B\<rparr>)"
proof -
  let ?n = "n\<lparr>clock := clock n + 1\<rparr>"
  have j: "ep_localid (e_epid B) = j" using find_endpoint_id [OF B] .
  have "find_endpoint (update_endpoint ?n j (\<lambda>e'. e'\<lparr>e_inlinks := e # e_inlinks e'\<rparr>)) =
      (find_endpoint n)(j \<mapsto> B\<lparr>e_inlinks := e # e_inlinks B\<rparr>)"
    using find_update_fun [of "\<lambda>e'. e'\<lparr>e_inlinks := e # e_inlinks e'\<rparr>" ?n j B] B by simp
  then show ?thesis using e j unfolding send_local [OF ok B]
    by (simp add: endpoint_add_message_def Let_def) (simp add: update_endpoint_def)
qed

lemma send_link_dead:
  assumes ok: "node_ok n" and "find_endpoint n j = None"
  shows "node_send_locked n src (epid_of n j) MSG_LINK (epid_bytes e) =
    node_send_locked (n\<lparr>clock := clock n + 1\<rparr>) j e MSG_ENDPOINT_EXIT (exit_bytes (epid_of n j) 0)"
  using assms
  by (subst node_send_locked.simps) (simp add: got_message.simps Let_def node_ok_def epid_of_def)

lemma send_unlink:
  assumes ok: "node_ok n"
  shows "\<exists>n'. node_send_locked n src (epid_of n j) MSG_UNLINK (epid_bytes e) = Some n' \<and> same_node n n' \<and>
    remote n' = remote n \<and>
    find_endpoint n' = (case find_endpoint n j of None \<Rightarrow> find_endpoint n
                        | Some B \<Rightarrow> (find_endpoint n)(j \<mapsto> B\<lparr>e_inlinks := remove1 e (e_inlinks B)\<rparr>))"
proof (cases "find_endpoint n j")
  case None
  then show ?thesis using send_dead [OF ok None, of MSG_UNLINK] by simp
next
  case (Some B)
  let ?n = "n\<lparr>clock := clock n + 1\<rparr>"
  have j: "ep_localid (e_epid B) = j" using find_endpoint_id [OF Some] .
  have "find_endpoint (update_endpoint ?n j (\<lambda>e'. e'\<lparr>e_inlinks := remove1 e (e_inlinks e')\<rparr>)) =
      (find_endpoint n)(j \<mapsto> B\<lparr>e_inlinks := remove1 e (e_inlinks B)\<rparr>)"
    using find_update_fun [of "\<lambda>e'. e'\<lparr>e_inlinks := remove1 e (e_inlinks e')\<rparr>" ?n j B] Some by simp
  then show ?thesis using Some j unfolding send_local [OF ok Some]
    by (simp add: endpoint_add_message_def Let_def) (simp add: update_endpoint_def)
qed

lemma node_ok_find:
  assumes "node_ok n" and "same_node n n'" and "find_endpoint n' = (find_endpoint n)(i \<mapsto> A')"
    and "e_epid A' = epid_of n i" and "i \<noteq> 0"
  shows "node_ok n'"
  using assms same_node_epid [OF assms(2)] by (auto simp: node_ok_def same_node_def)

lemma node_ok_alive: "node_ok n \<Longrightarrow> find_endpoint n i = Some A \<Longrightarrow> e_epid A = epid_of n i \<and> i \<noteq> 0"
  by (auto simp: node_ok_def)

lemma endpoint_link_inv:
  assumes inv: "node_inv n" and A: "find_endpoint n i = Some A" and to: "sendable to" "\<not> endpointid_isnull to"
  shows "\<exists>n'. endpoint_link n i to = Some n' \<and> same_node n n' \<and> node_inv n' \<and> alive n' = alive n \<and> ins_grow n n'"
proof (cases "to \<in> set (e_outlinks A)")
  case True
  then show ?thesis using inv A to by (simp add: endpoint_link_def endpoint_link_locked_def ins_grow_eq)
next
  case new: False
  have ok: "node_ok n" and links: "links_ok n" using inv by (simp_all add: node_inv_def)
  have A': "e_epid A = epid_of n i" "i \<noteq> 0" using node_ok_alive [OF ok A] by simp_all
  let ?A1 = "A\<lparr>e_outlinks := to # e_outlinks A\<rparr>"
  let ?n1 = "update_endpoint n i (\<lambda>e. e\<lparr>e_outlinks := to # e_outlinks e\<rparr>)"
  have f1: "find_endpoint ?n1 = (find_endpoint n)(i \<mapsto> ?A1)" by (rule find_update_fun [OF _ A]) simp
  have s1: "same_node n ?n1" and ep1: "epid_of ?n1 = epid_of n" by (simp, rule same_node_epid) simp
  have ok1: "node_ok ?n1" by (rule node_ok_find [OF ok s1 f1]) (use A' in simp_all)
  have link: "endpoint_link n i to = node_send_locked ?n1 i to MSG_LINK (epid_bytes (epid_of n i))"
    using A new to A' by (simp add: endpoint_link_def endpoint_link_locked_def)
  note v1 = view_upd [OF f1 A, simplified] and vA = view_some [OF A]
  show ?thesis
  proof (cases "local_id n to")
    case False
    then obtain n' where n': "node_send_locked ?n1 i to MSG_LINK (epid_bytes (epid_of n i)) = Some n'" "same_node ?n1 n'"
      "find_endpoint n' = find_endpoint ?n1"
      using send_remote [of to ?n1 i MSG_LINK "epid_bytes (epid_of n i)"] to s1
      by (auto simp: sendable_def local_id_def same_node_def)
    have "links_inv (epid_of n) (alive n) ((outs n)(i := to # outs n i)) (ins n)"
      using links_inv_remote [OF links, of to i] new vA False by (auto simp: local_id_iff)
    moreover have "same_node n n'" using same_node_trans [OF s1 n'(2)] .
    moreover have "(ins n)(i := ins n i) = ins n" by simp
    ultimately show ?thesis using n'(1) link view_cong [OF n'(3)] v1 vA node_ok_cong [OF n'(2,3)] ok1 same_node_epid [of n n']
      by (simp add: node_inv_def ins_grow_eq)
  next
    case True
    then obtain j where j: "to = epid_of n j" by (auto simp: local_id_iff)
    show ?thesis
    proof (cases "find_endpoint n j")
      case None
      let ?n1c = "?n1\<lparr>clock := clock ?n1 + 1\<rparr>"
      have "find_endpoint ?n1 j = None" using f1 None A by auto
      then have "endpoint_link n i to = node_send_locked ?n1c j (epid_of ?n1c i) MSG_ENDPOINT_EXIT (exit_bytes to 0)"
        using send_link_dead [OF ok1, of j] link j ep1 by simp
      moreover obtain n' msg where n': "node_send_locked ?n1c j (epid_of ?n1c i) MSG_ENDPOINT_EXIT (exit_bytes to 0) = Some n'"
        "same_node ?n1c n'" "node_ok n'" "find_endpoint n' = (find_endpoint ?n1c)(i \<mapsto> deliver msg (drop_links to ?A1))"
        using send_exit [of ?n1c j i to 0] ok1 f1 by auto
      moreover have f': "find_endpoint n' = (find_endpoint n)(i \<mapsto> deliver msg (drop_links to ?A1))" using n'(4) f1 by simp
      moreover have s': "same_node n n'" using same_node_trans [OF s1] n'(2) by simp
      moreover have "links_inv (epid_of n) (alive n) ((outs n)(i := remove1 to (outs n i))) ((ins n)(i := remove1 to (ins n i)))"
        by (rule links_inv_drop [OF links]) (use None j in \<open>auto simp: alive_def\<close>)
      then have "links_ok n'" using view_upd [OF f' A] vA new same_node_epid [OF s'] by (simp add: remove1_idem)
      moreover have "ins_grow n n'"
        by (rule ins_grow_remove [of n' n i to]) (use view_upd(3) [OF f' A] vA in simp)
      ultimately show ?thesis using view_upd(1) [OF f' A] by (auto simp: node_inv_def)
    next
      case (Some B)
      let ?B1 = "if j = i then ?A1 else B"
      have "find_endpoint ?n1 j = Some ?B1" using f1 Some A by auto
      from send_link_live [OF ok1 this, of "epid_of n i" i] A'(2) obtain n' where
        n': "node_send_locked ?n1 i (epid_of n j) MSG_LINK (epid_bytes (epid_of n i)) = Some n'" "same_node ?n1 n'"
          "find_endpoint n' = (find_endpoint ?n1)(j \<mapsto> ?B1\<lparr>e_inlinks := epid_of n i # e_inlinks ?B1\<rparr>)"
        using ep1 by auto
      have "find_endpoint ?n1 j = Some ?B1" by fact
      note v' = view_upd [OF n'(3) this]
      have s': "same_node n n'" using same_node_trans [OF s1 n'(2)] .
      have "outs n' = (outs n)(i := epid_of n j # outs n i)" "ins n' = (ins n)(j := epid_of n i # ins n j)" "alive n' = alive n"
        using v' v1 vA view_some [OF Some] j Some A by (auto simp: fun_eq_iff)
      moreover have "links_inv (epid_of n) (alive n) ((outs n)(i := epid_of n j # outs n i)) ((ins n)(j := epid_of n i # ins n j))"
        by (rule links_inv_link [OF links])
          (use view_some [OF A] view_some [OF Some] new j sendable_epid_of [OF ok] in simp_all)
      moreover have "node_ok n'"
        by (rule node_ok_find [OF ok1 n'(2,3)]) (use node_ok_alive [OF ok Some] node_ok_alive [OF ok A] ep1 in auto)
      moreover from calculation(2) vA have "ins_grow n n'" by (auto simp: ins_grow_def split: if_splits)
      ultimately show ?thesis using link n'(1) s' same_node_epid [OF s'] j by (simp add: node_inv_def)
    qed
  qed
qed

lemma endpoint_unlink_inv:
  assumes inv: "node_inv n" and A: "find_endpoint n i = Some A" and to: "sendable to"
  shows "\<exists>n'. endpoint_unlink_locked n i to = Some n' \<and> same_node n n' \<and> node_inv n' \<and> alive n' = alive n \<and> ins_grow n n'"
proof -
  have ok: "node_ok n" and links: "links_ok n" using inv by (simp_all add: node_inv_def)
  have A': "e_epid A = epid_of n i" "i \<noteq> 0" using node_ok_alive [OF ok A] by simp_all
  let ?A1 = "A\<lparr>e_outlinks := remove1 to (e_outlinks A)\<rparr>"
  let ?n1 = "update_endpoint n i (\<lambda>e. e\<lparr>e_outlinks := remove1 to (e_outlinks e)\<rparr>)"
  have f1: "find_endpoint ?n1 = (find_endpoint n)(i \<mapsto> ?A1)" by (rule find_update_fun [OF _ A]) simp
  have s1: "same_node n ?n1" and ep1: "epid_of ?n1 = epid_of n" by (simp, rule same_node_epid) simp
  have ok1: "node_ok ?n1" by (rule node_ok_find [OF ok s1 f1]) (use A' in simp_all)
  have unlink: "endpoint_unlink_locked n i to = node_send_locked ?n1 i to MSG_UNLINK (epid_bytes (epid_of n i))"
    using A A' by (simp add: endpoint_unlink_locked_def)
  note v1 = view_upd [OF f1 A, simplified] and vA = view_some [OF A]
  show ?thesis
  proof (cases "local_id n to")
    case False
    then obtain n' where n': "node_send_locked ?n1 i to MSG_UNLINK (epid_bytes (epid_of n i)) = Some n'" "same_node ?n1 n'"
      "find_endpoint n' = find_endpoint ?n1"
      using send_remote [of to ?n1 i MSG_UNLINK "epid_bytes (epid_of n i)"] to s1
      by (auto simp: sendable_def local_id_def same_node_def)
    have "links_inv (epid_of n) (alive n) ((outs n)(i := remove1 to (outs n i))) (ins n)"
      using links_inv_remote_remove [OF links, of to i] False by (auto simp: local_id_iff)
    moreover have "same_node n n'" using same_node_trans [OF s1 n'(2)] .
    moreover have "(ins n)(i := ins n i) = ins n" by simp
    ultimately show ?thesis using n'(1) unlink view_cong [OF n'(3)] v1 vA node_ok_cong [OF n'(2,3)] ok1 same_node_epid [of n n']
      by (simp add: node_inv_def ins_grow_eq)
  next
    case True
    then obtain j where j: "to = epid_of n j" by (auto simp: local_id_iff)
    from send_unlink [OF ok1, of i j "epid_of n i"] obtain n' where
      n': "node_send_locked ?n1 i (epid_of n j) MSG_UNLINK (epid_bytes (epid_of n i)) = Some n'" "same_node ?n1 n'"
        "find_endpoint n' = (case find_endpoint ?n1 j of None \<Rightarrow> find_endpoint ?n1
           | Some B \<Rightarrow> (find_endpoint ?n1)(j \<mapsto> B\<lparr>e_inlinks := remove1 (epid_of n i) (e_inlinks B)\<rparr>))"
      using ep1 by auto
    have s': "same_node n n'" using same_node_trans [OF s1 n'(2)] .
    have "outs n' = (outs n)(i := remove1 (epid_of n j) (outs n i)) \<and> alive n' = alive n \<and>
        ins n' = (ins n)(j := remove1 (epid_of n i) (ins n j)) \<and> node_ok n'"
    proof (cases "find_endpoint ?n1 j")
      case None
      then have "find_endpoint n j = None" "ins n j = []" using f1 by (auto simp: ins_def split: if_splits)
      then show ?thesis using None n'(3) view_cong [of n' ?n1] v1 vA j node_ok_cong [OF n'(2)] ok1 by (auto simp: fun_eq_iff)
    next
      case (Some B)
      then have f': "find_endpoint n' = (find_endpoint ?n1)(j \<mapsto> B\<lparr>e_inlinks := remove1 (epid_of n i) (e_inlinks B)\<rparr>)"
        using n'(3) by simp
      have "node_ok n'" by (rule node_ok_upd [OF ok1 n'(2) f' Some]) simp
      then show ?thesis using view_upd [OF f' Some] view_some [OF Some] v1 vA j by (auto simp: fun_eq_iff)
    qed
    moreover have "links_inv (epid_of n) (alive n) ((outs n)(i := remove1 (epid_of n j) (outs n i)))
        ((ins n)(j := remove1 (epid_of n i) (ins n j)))"
      by (rule links_inv_unlink [OF links]) (use vA in simp_all)
    ultimately show ?thesis using unlink n'(1) s' same_node_epid [OF s'] j ins_grow_remove [of n' n j "epid_of n i"]
      by (simp add: node_inv_def)
  qed
qed

text \<open>The exit messages of an endpoint reach everyone who has a link to it, once each.\<close>

definition exit_msg :: "node \<Rightarrow> u32 \<Rightarrow> u32 \<Rightarrow> u32 \<Rightarrow> message" where
  "exit_msg n b i r =
     \<lparr>m_source = epid_of n b, m_dest = epid_of n i, m_tag = MSG_ENDPOINT_EXIT, m_data = exit_bytes (epid_of n b) r\<rparr>"

definition told :: "node \<Rightarrow> u32 \<Rightarrow> endpointid list \<Rightarrow> u32 \<Rightarrow> endpoint option" where
  "told n b links i =
     (if i \<noteq> b \<and> epid_of n i \<in> set links
      then map_option (\<lambda>A. deliver (exit_msg n b i 1) (drop_links (epid_of n b) A)) (find_endpoint n i)
      else find_endpoint n i)"

text \<open>What goes to other nodes: the exit message, once per entry of the list.\<close>

definition exit_sent :: "node \<Rightarrow> u32 \<Rightarrow> endpointid \<times> msgheader \<times> byte list \<Rightarrow> bool" where
  "exit_sent n b m \<longleftrightarrow>
     (case m of (dest, hdr, data) \<Rightarrow>
        h_sourcelocalid hdr = b \<and> h_destlocalid hdr = ep_localid dest \<and> h_tag hdr = MSG_ENDPOINT_EXIT \<and>
        h_size hdr = word_of_nat (length data) \<and> data = exit_bytes (epid_of n b) 1)"

lemma send_exits_told:
  assumes "node_ok n" and "\<forall>j. once (epid_of n j) links" and "\<forall>l \<in> set links. sendable l"
  shows "\<exists>n' ms. send_exits n (epid_of n b) links = Some n' \<and> same_node n n' \<and> node_ok n' \<and>
    find_endpoint n' = told n b links \<and> remote n' = remote n @ ms \<and>
    map fst ms = filter (\<lambda>l. \<not> local_id n l) links \<and> list_all (exit_sent n b) ms"
  using assms
proof (induction links arbitrary: n)
  case Nil
  then show ?case by (simp add: told_def fun_eq_iff)
next
  case (Cons l links)
  have "\<exists>n1 m1. (if epid_of n b = l then Some n
       else node_send_locked n b l MSG_ENDPOINT_EXIT (exit_bytes (epid_of n b) 1)) = Some n1 \<and>
     same_node n n1 \<and> node_ok n1 \<and> find_endpoint n1 = told n b [l] \<and> remote n1 = remote n @ m1 \<and>
     map fst m1 = filter (\<lambda>l. \<not> local_id n l) [l] \<and> list_all (exit_sent n b) m1"
  proof (cases "epid_of n b = l")
    case True
    then have "local_id n l" by (auto simp: local_id_iff)
    then show ?thesis using Cons.prems(1) True by (auto simp: told_def fun_eq_iff)
  next
    case other: False
    show ?thesis
    proof (cases "local_id n l")
      case True
      then obtain i where i: "l = epid_of n i" by (auto simp: local_id_iff)
      from send_exit [OF Cons.prems(1), of b i "epid_of n b" 1] show ?thesis
        using other i True by (auto simp: told_def fun_eq_iff exit_msg_def split: option.splits)
    next
      case False
      then obtain n1 hdr where "node_send_locked n b l MSG_ENDPOINT_EXIT (exit_bytes (epid_of n b) 1) = Some n1"
        "same_node n n1" "find_endpoint n1 = find_endpoint n"
        "remote n1 = remote n @ [(l, hdr, exit_bytes (epid_of n b) 1)]" "exit_sent n b (l, hdr, exit_bytes (epid_of n b) 1)"
        using send_remote [of l n b MSG_ENDPOINT_EXIT "exit_bytes (epid_of n b) 1"] Cons.prems(3)
        by (auto simp: sendable_def local_id_def exit_sent_def)
      moreover have "told n b [l] = find_endpoint n" using False by (auto simp: told_def fun_eq_iff local_id_iff)
      ultimately show ?thesis using other node_ok_cong [of n n1] Cons.prems(1) False
        by (intro exI [of _ n1] exI [of _ "[(l, hdr, exit_bytes (epid_of n b) 1)]"]) simp
    qed
  qed
  then obtain n1 m1 where n1: "(if epid_of n b = l then Some n
       else node_send_locked n b l MSG_ENDPOINT_EXIT (exit_bytes (epid_of n b) 1)) = Some n1"
     "same_node n n1" "node_ok n1" "find_endpoint n1 = told n b [l]" and m1: "remote n1 = remote n @ m1"
     "map fst m1 = filter (\<lambda>l. \<not> local_id n l) [l]" "list_all (exit_sent n b) m1" by blast
  have ep: "epid_of n1 = epid_of n" "exit_sent n1 = exit_sent n" "local_id n1 = local_id n"
    using same_node_epid [OF n1(2)] n1(2) by (simp_all add: exit_sent_def [abs_def] local_id_def [abs_def] same_node_def)
  have once: "\<forall>j. once (epid_of n1 j) links"
    using Cons.prems(2) ep(1) by (auto intro: once_fresh split: if_splits)
  have "\<forall>l \<in> set links. sendable l" using Cons.prems(3) by simp
  from Cons.IH [OF n1(3) once this] obtain n' ms where
    n': "send_exits n1 (epid_of n b) links = Some n'" "same_node n1 n'" "node_ok n'" "find_endpoint n' = told n1 b links"
    "remote n' = remote n1 @ ms" "map fst ms = filter (\<lambda>l. \<not> local_id n l) links" "list_all (exit_sent n b) ms"
    unfolding ep by blast
  have "epid_of n i \<noteq> l \<or> epid_of n i \<notin> set links" for i using Cons.prems(2) by (auto split: if_splits)
  then have told: "told n1 b links = told n b (l # links)"
    by (auto simp: fun_eq_iff told_def ep n1(4) exit_msg_def)
  have run: "send_exits n (epid_of n b) (l # links) = Some n'"
    using n1(1) n'(1) by (cases "epid_of n b = l") simp_all
  moreover have "remote n' = remote n @ (m1 @ ms)" "map fst (m1 @ ms) = filter (\<lambda>l. \<not> local_id n l) (l # links)"
    "list_all (exit_sent n b) (m1 @ ms)" using m1 n'(5,6,7) by simp_all
  ultimately show ?case using told n'(3,4) same_node_trans [OF n1(2) n'(2)] by metis
qed

lemma find_filter_endpoints:
  "find_endpoint (n\<lparr>endpoints := filter (\<lambda>e. ep_localid (e_epid e) \<noteq> b) (endpoints n)\<rparr>) = (find_endpoint n)(b := None)"
proof -
  have *: "find (\<lambda>e. ep_localid (e_epid e) = i) (filter (\<lambda>e. ep_localid (e_epid e) \<noteq> b) es) =
      (if i = b then None else find (\<lambda>e. ep_localid (e_epid e) = i) es)" for i es
    by (induction es) auto
  show ?thesis by (simp add: find_endpoint_def fun_eq_iff *)
qed

lemma endpoint_exit_effect:
  assumes inv: "node_inv n" and B: "find_endpoint n b = Some B"
  shows "\<exists>n' ms. endpoint_thread_exit n b = Some n' \<and> same_node n n' \<and> node_inv n' \<and>
    find_endpoint n' = (told n b (e_inlinks B))(b := None) \<and> remote n' = remote n @ ms \<and>
    map fst ms = filter (\<lambda>l. \<not> local_id n l) (e_inlinks B) \<and> list_all (exit_sent n b) ms"
proof -
  have ok: "node_ok n" and links: "links_ok n" using inv by (simp_all add: node_inv_def)
  have B': "e_epid B = epid_of n b" using node_ok_alive [OF ok B] by simp
  have lB: "alive n b" "\<forall>j. once (epid_of n j) (e_inlinks B)" "\<forall>l \<in> set (e_inlinks B). sendable l"
    using links_invD(2,6) [OF links, of b] view_some [OF B] by auto
  from send_exits_told [OF ok lB(2,3), of b] obtain n1 ms where
    n1: "send_exits n (epid_of n b) (e_inlinks B) = Some n1" "same_node n n1" "node_ok n1"
      "find_endpoint n1 = told n b (e_inlinks B)" "remote n1 = remote n @ ms"
      "map fst ms = filter (\<lambda>l. \<not> local_id n l) (e_inlinks B)" "list_all (exit_sent n b) ms" by blast
  let ?n' = "n1\<lparr>endpoints := filter (\<lambda>e. ep_localid (e_epid e) \<noteq> b) (endpoints n1)\<rparr>"
  have f': "find_endpoint ?n' = (told n b (e_inlinks B))(b := None)" using find_filter_endpoints n1(4) by simp
  have s': "same_node n ?n'" using n1(2) by (simp add: same_node_def)
  have "node_ok ?n'"
    using n1(3) f' same_node_epid [OF n1(2)] same_node_epid [OF s'] n1(4)
    by (auto simp: node_ok_def split: if_splits)
  moreover have "links_inv (epid_of n) ((alive n)(b := False)) (outs ?n') (ins ?n')"
    by (rule links_inv_exit [OF links lB(1)])
      (use view_some [OF B] in \<open>auto simp: outs_def ins_def f' told_def alive_def\<close>)
  moreover have "alive ?n' = (alive n)(b := False)"
    by (auto simp: fun_eq_iff alive_def f' told_def)
  ultimately have "node_inv ?n'" using same_node_epid [OF s'] by (simp add: node_inv_def)
  moreover have "endpoint_thread_exit n b = Some ?n'" "remote ?n' = remote n @ ms"
    using B B' n1(1,5) by (simp_all add: endpoint_thread_exit_def)
  ultimately show ?thesis using s' f' n1(6,7) by blast
qed

subsection \<open>Losing a node\<close>

definition lost_msg :: "node \<Rightarrow> u32 \<Rightarrow> endpointid \<Rightarrow> message" where
  "lost_msg n i x =
     \<lparr>m_source = epid_of n i, m_dest = epid_of n i, m_tag = MSG_ENDPOINT_EXIT, m_data = exit_bytes x 0\<rparr>"

definition lose :: "node \<Rightarrow> u32 \<Rightarrow> endpointid list \<Rightarrow> endpoint \<Rightarrow> endpoint" where
  "lose n i ls A = foldl (\<lambda>A x. deliver (lost_msg n i x) (drop_links x A)) A ls"

lemma lose_simps [simp]: "lose n i [] A = A"
  "lose n i (x # ls) A = lose n i ls (deliver (lost_msg n i x) (drop_links x A))"
  by (simp_all add: lose_def)

lemma lose_keeps [simp]: "e_epid (lose n i ls A) = e_epid A" "e_closed (lose n i ls A) = e_closed A"
  by (induction ls arbitrary: A) auto

lemma lose_outlinks: "distinct (e_outlinks A) \<Longrightarrow> e_outlinks (lose n i ls A) = filter (\<lambda>l. l \<notin> set ls) (e_outlinks A)"
proof (induction ls arbitrary: A)
  case (Cons x ls)
  then show ?case by (simp add: distinct_remove1_removeAll removeAll_filter_not_eq conj_commute eq_commute)
qed simp

lemma lose_mailbox: "\<not> e_closed A \<Longrightarrow> e_mailbox (lose n i ls A) = e_mailbox A @ map (lost_msg n i) ls"
  by (induction ls arbitrary: A) auto

lemma lose_cong: "same_node n n' \<Longrightarrow> lose n' = lose n"
  by (simp add: fun_eq_iff lose_def lost_msg_def same_node_epid)

lemma send_lost_effect:
  assumes "node_inv n" and "find_endpoint n i = Some A" and "\<forall>x \<in> set ls. \<not> local_id n x"
  shows "\<exists>n'. send_lost n (epid_of n i) ls = Some n' \<and> same_node n n' \<and> node_inv n' \<and>
    find_endpoint n' = (find_endpoint n)(i \<mapsto> lose n i ls A)"
  using assms
proof (induction ls arbitrary: n A)
  case Nil
  then show ?case by (auto simp: fun_eq_iff)
next
  case (Cons x ls)
  have ok: "node_ok n" using Cons.prems(1) by (simp add: node_inv_def)
  have x: "x \<noteq> epid_of n j" for j using Cons.prems(3) by (auto simp: local_id_iff)
  from send_exit [OF ok, of i i x 0] Cons.prems(2) obtain n1 where
    n1: "node_send_locked n i (epid_of n i) MSG_ENDPOINT_EXIT (exit_bytes x 0) = Some n1" "same_node n n1"
      "find_endpoint n1 = (find_endpoint n)(i \<mapsto> deliver (lost_msg n i x) (drop_links x A))"
    by (auto simp: lost_msg_def)
  have "node_inv n1" using send_exit_inv [OF Cons.prems(1) x, of i i 0] n1(1) by auto
  moreover have "\<forall>x \<in> set ls. \<not> local_id n1 x" using Cons.prems(3) n1(2) by (simp add: local_id_def same_node_def)
  ultimately obtain n' where "send_lost n1 (epid_of n1 i) ls = Some n'" "same_node n1 n'" "node_inv n'"
    "find_endpoint n' = (find_endpoint n1)(i \<mapsto> lose n1 i ls (deliver (lost_msg n i x) (drop_links x A)))"
    using Cons.IH [of n1 "deliver (lost_msg n i x) (drop_links x A)"] n1(3) by (metis fun_upd_same)
  then show ?case using n1 same_node_trans [OF n1(2)] same_node_epid [OF n1(2)] lose_cong [OF n1(2)]
    by (auto simp: fun_eq_iff)
qed

definition on_host :: "u32 \<Rightarrow> u16 \<Rightarrow> endpointid \<Rightarrow> bool" where
  "on_host ip port l \<longleftrightarrow> ep_ip l = ip \<and> ep_port l = port"

lemma lose_host:
  assumes "distinct (e_outlinks A)"
  shows "e_outlinks (lose n i (filter H (e_outlinks A)) A) = filter (\<lambda>l. \<not> H l) (e_outlinks A)"
  using lose_outlinks [OF assms] by (auto intro: filter_cong)

definition lost_host :: "node \<Rightarrow> (endpointid \<Rightarrow> bool) \<Rightarrow> u32 set \<Rightarrow> u32 \<Rightarrow> endpoint option" where
  "lost_host n H ids i =
     (if i \<in> ids then map_option (\<lambda>A. lose n i (filter H (e_outlinks A)) A) (find_endpoint n i) else find_endpoint n i)"

lemma disconnect_endpoints_effect:
  assumes "node_inv n" and "\<forall>i \<in> set ids. alive n i" and "\<not> (listenip n = ip \<and> listenport n = port)"
  shows "\<exists>n'. disconnect_endpoints n ip port ids = Some n' \<and> same_node n n' \<and> node_inv n' \<and>
    find_endpoint n' = lost_host n (on_host ip port) (set ids)"
  using assms
proof (induction ids arbitrary: n)
  case Nil
  then show ?case by (simp add: lost_host_def fun_eq_iff)
next
  case (Cons i ids)
  let ?H = "on_host ip port"
  obtain A where A: "find_endpoint n i = Some A" using Cons.prems(2) by (auto simp: alive_def)
  have ok: "node_ok n" and links: "links_ok n" using Cons.prems(1) by (simp_all add: node_inv_def)
  have dist: "distinct (outs n k)" for k
    using links_invD(1) [OF links, of k] by (cases "alive n k") (auto simp: outs_def alive_def split: option.splits)
  have "\<forall>x \<in> set (filter ?H (e_outlinks A)). \<not> local_id n x" using Cons.prems(3) by (auto simp: on_host_def local_id_def)
  from send_lost_effect [OF Cons.prems(1) A this] obtain n1 where
    n1: "send_lost n (epid_of n i) (filter ?H (e_outlinks A)) = Some n1" "same_node n n1" "node_inv n1"
      "find_endpoint n1 = (find_endpoint n)(i \<mapsto> lose n i (filter ?H (e_outlinks A)) A)" by blast
  have "\<forall>i \<in> set ids. alive n1 i" using Cons.prems(2) view_upd(1) [OF n1(4) A] by simp
  moreover have "\<not> (listenip n1 = ip \<and> listenport n1 = port)" using Cons.prems(3) n1(2) by (simp add: same_node_def)
  ultimately obtain n' where n': "disconnect_endpoints n1 ip port ids = Some n'" "same_node n1 n'" "node_inv n'"
    "find_endpoint n' = lost_host n1 ?H (set ids)" using Cons.IH [OF n1(3)] by blast
  have "e_outlinks A = outs n i" using A by (simp add: outs_def)
  then have "filter ?H (e_outlinks (lose n i (filter ?H (e_outlinks A)) A)) = []"
    using lose_host [of A n i ?H] dist [of i] by simp
  then have "lost_host n1 ?H (set ids) = lost_host n ?H (set (i # ids))"
    using A n1(4) lose_cong [OF n1(2)] by (auto simp: lost_host_def fun_eq_iff)
  moreover have "filter (\<lambda>l. ep_ip l = ip \<and> ep_port l = port) (e_outlinks A) = filter ?H (e_outlinks A)"
    by (simp add: on_host_def [abs_def])
  ultimately show ?case using A n1(1) n' same_node_trans [OF n1(2) n'(2)] node_ok_alive [OF ok A] by simp
qed

lemma handle_disconnection_effect:
  assumes inv: "node_inv n" and "\<not> (listenip n = ip \<and> listenport n = port)"
  shows "\<exists>n'. handle_disconnection n False ip port = Some n' \<and> same_node n n' \<and> node_inv n' \<and>
    find_endpoint n' = lost_host n (on_host ip port) UNIV"
proof -
  let ?ids = "map (\<lambda>e. ep_localid (e_epid e)) (endpoints n)"
  have alive: "alive n i \<longleftrightarrow> i \<in> set ?ids" for i
    by (auto simp: alive_def find_endpoint_def find_None_iff)
  have "lost_host n (on_host ip port) (set ?ids) = lost_host n (on_host ip port) UNIV"
    using alive unfolding lost_host_def alive_def fun_eq_iff by (metis UNIV_I option.map_disc_iff)
  with disconnect_endpoints_effect [OF inv _ assms(2), of ?ids] alive show ?thesis
    by (simp add: handle_disconnection_def)
qed

subsection \<open>Sequences of operations\<close>

datatype nodeop =
    Spawn string
  | Send u32 endpointid u32 "byte list"
  | Receive u32
  | Link u32 endpointid
  | Unlink u32 endpointid
  | Exit u32
  | Disconnected u32 u16
  | Arrive msgheader endpointid "byte list"

fun node_op :: "nodeop \<Rightarrow> node \<Rightarrow> node option" where
  "node_op (Spawn type) n = map_option snd (node_add_thread_locked n type 0)"
| "node_op (Send i dest tag data) n = node_send_locked n i dest tag data"
| "node_op (Receive i) n = map_option snd (endpoint_receive n i)"
| "node_op (Link i to) n = endpoint_link n i to"
| "node_op (Unlink i to) n = endpoint_unlink_locked n i to"
| "node_op (Exit i) n = endpoint_thread_exit n i"
| "node_op (Disconnected ip port) n = handle_disconnection n False ip port"
| "node_op (Arrive hdr source data) n = got_message n hdr source (h_tag hdr) data"

text \<open>What the callers keep to: they act for a live endpoint, use real addresses and no control
  tags, and a lost connection is one to another node. A message that \<^verbatim>\<open>process_received\<close> takes from
  a connection comes from a node that runs the same code: its control messages have the layout
  that \<^verbatim>\<open>endpoint_link_locked\<close>, \<^verbatim>\<open>endpoint_unlink_locked\<close> and the exit path send and name an endpoint of
  that node. Nothing is assumed of its other messages, of the endpoint it addresses, or of how
  often it links.\<close>

definition from_peer :: "node \<Rightarrow> endpointid \<Rightarrow> bool" where
  "from_peer n e \<longleftrightarrow> \<not> local_id n e \<and> sendable e \<and> \<not> endpointid_isnull e"

definition peer_message :: "node \<Rightarrow> u32 \<Rightarrow> byte list \<Rightarrow> bool" where
  "peer_message n tag data \<longleftrightarrow>
     (if tag = MSG_LINK \<or> tag = MSG_UNLINK then \<exists>e. from_peer n e \<and> data = epid_bytes e
      else tag = MSG_ENDPOINT_EXIT \<longrightarrow> (\<exists>e r. from_peer n e \<and> data = exit_bytes e r))"

fun legal :: "nodeop \<Rightarrow> node \<Rightarrow> bool" where
  "legal (Spawn type) n \<longleftrightarrow> nextlocalid n \<noteq> - 1"
| "legal (Send i dest tag data) n \<longleftrightarrow>
     sendable dest \<and> tag \<noteq> MSG_LINK \<and> tag \<noteq> MSG_UNLINK \<and> tag \<noteq> MSG_ENDPOINT_EXIT"
| "legal (Receive i) n \<longleftrightarrow> alive n i"
| "legal (Link i to) n \<longleftrightarrow> alive n i \<and> sendable to \<and> \<not> endpointid_isnull to"
| "legal (Unlink i to) n \<longleftrightarrow> alive n i \<and> sendable to"
| "legal (Exit i) n \<longleftrightarrow> alive n i"
| "legal (Disconnected ip port) n \<longleftrightarrow> \<not> (listenip n = ip \<and> listenport n = port)"
| "legal (Arrive hdr source data) n \<longleftrightarrow> peer_message n (h_tag hdr) data"

text \<open>New identifiers are fresh as long as the counter is ahead of every identifier in use.\<close>

definition ids_below :: "node \<Rightarrow> bool" where
  "ids_below n \<longleftrightarrow> nextlocalid n \<noteq> 0 \<and>
     (\<forall>i. alive n i \<longrightarrow> i < nextlocalid n \<and> (\<forall>j. epid_of n j \<in> set (ins n i) \<longrightarrow> j < nextlocalid n))"

inductive reachable :: "node \<Rightarrow> node \<Rightarrow> bool" for n0 where
  start: "reachable n0 n0"
| step: "reachable n0 n \<Longrightarrow> legal op n \<Longrightarrow> node_op op n = Some n' \<Longrightarrow> reachable n0 n'"

lemma spawn_effect:
  assumes inv: "node_inv n" and ids: "ids_below n" and next_id: "nextlocalid n \<noteq> - 1"
  shows "\<exists>n'. node_op (Spawn type) n = Some n' \<and> node_inv n' \<and> ids_below n' \<and>
    listenip n' = listenip n \<and> listenport n' = listenport n"
proof -
  have ok: "node_ok n" and links: "links_ok n" using inv by (simp_all add: node_inv_def)
  let ?k = "nextlocalid n"
  let ?E = "\<lparr>e_epid = epid_of n ?k, e_interrupt = False, e_type = type, e_closed = False,
             e_mailbox = [], e_inlinks = [], e_outlinks = []\<rparr>"
  let ?n' = "n\<lparr>nextlocalid := ?k + 1, endpoints := endpoints n @ [?E]\<rparr>"
  have run: "node_op (Spawn type) n = Some ?n'"
    using ok next_id by (simp add: node_add_thread_locked_def Let_def node_ok_def epid_of_def)
  have k: "\<not> alive n ?k" "?k \<noteq> 0" using ids by (auto simp: ids_below_def)
  have "find P (es @ [e]) = (case find P es of None \<Rightarrow> if P e then Some e else None | r \<Rightarrow> r)" for P es and e :: endpoint
    by (induction es) auto
  then have f: "find_endpoint ?n' = (find_endpoint n)(?k \<mapsto> ?E)"
    using k(1) by (auto simp: find_endpoint_def alive_def fun_eq_iff split: option.splits)
  have ep: "epid_of ?n' = epid_of n" by (simp add: epid_of_def fun_eq_iff)
  have v: "alive ?n' = (alive n)(?k := True)" "outs ?n' = (outs n)(?k := [])" "ins ?n' = (ins n)(?k := [])"
    using f by (auto simp: alive_def outs_def ins_def fun_eq_iff)
  have less: "?k < ?k + 1" using next_id by (rule word_less_Suc)
  have "ids_below ?n'"
    using ids less unfolding ids_below_def ep v by (auto intro: less_trans split: if_splits)
  moreover have "node_ok ?n'" using ok k(2) f ep by (auto simp: node_ok_def)
  moreover have "epid_of n ?k \<notin> set (outs n i)" "epid_of n ?k \<notin> set (ins n i)" if "alive n i" for i
    using links_invD(3) [OF links that] k(1) ids that by (auto simp: ids_below_def)
  then have "links_inv (epid_of n) ((alive n)(?k := True)) ((outs n)(?k := [])) ((ins n)(?k := []))"
    by (intro links_inv_new [OF links k(1)])
  ultimately have "node_inv ?n'" "ids_below ?n'" using ep v by (simp_all add: node_inv_def)
  with run show ?thesis by (intro exI [of _ ?n']) (simp del: node_op.simps)
qed

lemma ids_below_keep:
  assumes ids: "ids_below n" and same: "same_node n n'" and live: "\<And>i. alive n' i \<Longrightarrow> alive n i" and grow: "ins_grow n n'"
  shows "ids_below n'"
proof -
  have nxt: "nextlocalid n' = nextlocalid n" using same by (simp add: same_node_def)
  have "i < nextlocalid n \<and> (\<forall>j. epid_of n j \<in> set (ins n' i) \<longrightarrow> j < nextlocalid n)" if "alive n' i" for i
  proof -
    have below: "k < nextlocalid n" if "alive n k" for k using ids that by (simp add: ids_below_def)
    have "j < nextlocalid n" if "epid_of n j \<in> set (ins n' i)" for j
    proof -
      have "local_id n (epid_of n j)" by (auto simp: local_id_iff)
      then have "epid_of n j \<in> set (ins n i) \<or> (\<exists>k. epid_of n j = epid_of n k \<and> alive n k)"
        using grow that unfolding ins_grow_def by blast
      then show ?thesis using ids live [OF \<open>alive n' i\<close>] below by (auto simp: ids_below_def)
    qed
    then show ?thesis using below live that by blast
  qed
  then show ?thesis using ids nxt same_node_epid [OF same] by (simp add: ids_below_def)
qed

lemma ids_below_same:
  "ids_below n \<Longrightarrow> same_node n n' \<Longrightarrow> alive n' = alive n \<Longrightarrow> ins_grow n n' \<Longrightarrow> ids_below n'"
  by (rule ids_below_keep) simp_all

lemma lose_inlinks: "set (e_inlinks (lose n i ls A)) \<subseteq> set (e_inlinks A)"
proof (induction ls arbitrary: A)
  case (Cons x ls)
  from Cons [of "deliver (lost_msg n i x) (drop_links x A)"] set_remove1_subset [of x "e_inlinks A"]
  show ?case by auto
qed simp

lemma endpoint_receive_inv:
  assumes inv: "node_inv n" and A: "find_endpoint n i = Some A"
  shows "\<exists>n'. endpoint_receive n i = Some (case e_mailbox A of [] \<Rightarrow> None | m # ms \<Rightarrow> Some m, n') \<and> same_node n n' \<and>
    node_inv n' \<and> alive n' = alive n \<and> ins_grow n n' \<and>
    find_endpoint n' = (find_endpoint n)(i \<mapsto> A\<lparr>e_mailbox := tl (e_mailbox A)\<rparr>)"
proof (cases "e_mailbox A")
  case Nil
  then have "(find_endpoint n)(i \<mapsto> A\<lparr>e_mailbox := tl (e_mailbox A)\<rparr>) = find_endpoint n" using A by (auto simp: fun_eq_iff)
  then show ?thesis using Nil A inv by (simp add: endpoint_receive_def ins_grow_eq)
next
  case (Cons m ms)
  let ?n' = "update_endpoint n i (\<lambda>e. e\<lparr>e_mailbox := ms\<rparr>)"
  have f: "find_endpoint ?n' = (find_endpoint n)(i \<mapsto> A\<lparr>e_mailbox := ms\<rparr>)" by (rule find_update_fun [OF _ A]) simp
  have "node_inv ?n' \<and> alive ?n' = alive n \<and> ins_grow n ?n'" by (rule node_inv_upd [OF inv _ A f]) simp_all
  then show ?thesis using Cons A f by (simp add: endpoint_receive_def)
qed

lemma clock_view [simp]: "alive (n\<lparr>clock := c\<rparr>) = alive n" "outs (n\<lparr>clock := c\<rparr>) = outs n" "ins (n\<lparr>clock := c\<rparr>) = ins n"
  by (rule view_cong; simp)+

lemma node_inv_clock [simp]: "node_inv (n\<lparr>clock := c\<rparr>) = node_inv n"
  by (simp add: node_inv_def)

lemma node_inv_links:
  assumes "node_inv n" and "same_node n n'" and A: "find_endpoint n i = Some A"
    and f: "find_endpoint n' = (find_endpoint n)(i \<mapsto> A')" and "e_epid A' = e_epid A"
    and "links_inv (epid_of n) (alive n) ((outs n)(i := e_outlinks A')) ((ins n)(i := e_inlinks A'))"
  shows "node_inv n' \<and> alive n' = alive n \<and> ins n' = (ins n)(i := e_inlinks A')"
  using assms view_upd [OF f A] node_ok_upd [OF _ assms(2) f A assms(5)] same_node_epid [OF assms(2)]
  by (simp add: node_inv_def)

text \<open>A message from another node.\<close>

lemma got_message_split:
  "\<exists>c. got_message n hdr source tag data =
    (case find_endpoint n (h_destlocalid hdr) of
       None \<Rightarrow> if MSG_LINK = tag then
                 if length data = 10
                 then node_send_locked (n\<lparr>clock := c\<rparr>) (h_destlocalid hdr) (of_epid_bytes data) MSG_ENDPOINT_EXIT
                        (exit_bytes (epid_of n (h_destlocalid hdr)) 0)
                 else None
               else Some (n\<lparr>clock := c\<rparr>)
     | Some A \<Rightarrow> endpoint_add_message (n\<lparr>clock := c\<rparr>) A
                   \<lparr>m_source = source, m_dest = epid_of n (h_destlocalid hdr), m_tag = tag, m_data = data\<rparr>)"
proof -
  have "(if clock n < h_timestamp hdr + 1 then n\<lparr>clock := h_timestamp hdr + 1\<rparr> else n) =
      n\<lparr>clock := if clock n < h_timestamp hdr + 1 then h_timestamp hdr + 1 else clock n\<rparr>" by simp
  then show ?thesis
    by (intro exI [of _ "if clock n < h_timestamp hdr + 1 then h_timestamp hdr + 1 else clock n"], subst got_message.simps)
      (simp only: Let_def find_endpoint_fields epid_of_def node.simps)
qed

lemma add_link_effect:
  assumes A: "find_endpoint n i = Some A" and "\<not> endpointid_isnull e"
  shows "\<exists>n'. endpoint_add_message n A \<lparr>m_source = s, m_dest = t, m_tag = MSG_LINK, m_data = epid_bytes e\<rparr> = Some n' \<and>
    same_node n n' \<and> find_endpoint n' = (find_endpoint n)(i \<mapsto> A\<lparr>e_inlinks := e # e_inlinks A\<rparr>)"
  using assms find_update_fun [of "\<lambda>e'. e'\<lparr>e_inlinks := e # e_inlinks e'\<rparr>", OF _ A] find_endpoint_id [OF A]
  by (simp add: endpoint_add_message_def Let_def)

lemma add_unlink_effect:
  assumes A: "find_endpoint n i = Some A"
  shows "\<exists>n'. endpoint_add_message n A \<lparr>m_source = s, m_dest = t, m_tag = MSG_UNLINK, m_data = epid_bytes e\<rparr> = Some n' \<and>
    same_node n n' \<and> find_endpoint n' = (find_endpoint n)(i \<mapsto> A\<lparr>e_inlinks := remove1 e (e_inlinks A)\<rparr>)"
  using find_update_fun [of "\<lambda>e'. e'\<lparr>e_inlinks := remove1 e (e_inlinks e')\<rparr>", OF _ A] find_endpoint_id [OF A]
  by (simp add: endpoint_add_message_def Let_def)

lemma arrive_live_inv:
  assumes inv: "node_inv n" and A: "find_endpoint n i = Some A" and peer: "peer_message n tag data"
  shows "\<exists>n'. endpoint_add_message n A \<lparr>m_source = s, m_dest = t, m_tag = tag, m_data = data\<rparr> = Some n' \<and>
    same_node n n' \<and> node_inv n' \<and> alive n' = alive n \<and> ins_grow n n'"
proof -
  have links: "links_ok n" using inv by (simp add: node_inv_def)
  have vA: "outs n i = e_outlinks A" "ins n i = e_inlinks A" using view_some [OF A] by simp_all
  have far: "epid_of n j \<noteq> e" if "from_peer n e" for e j using that by (auto simp: from_peer_def local_id_iff)
  consider (link) e where "tag = MSG_LINK" "data = epid_bytes e" "from_peer n e"
    | (unlink) e where "tag = MSG_UNLINK" "data = epid_bytes e" "from_peer n e"
    | (exit) e r where "tag = MSG_ENDPOINT_EXIT" "data = exit_bytes e r" "from_peer n e"
    | (data) "tag \<noteq> MSG_LINK" "tag \<noteq> MSG_UNLINK" "tag \<noteq> MSG_ENDPOINT_EXIT"
    using peer unfolding peer_message_def by (metis control_tags)
  then show ?thesis
  proof cases
    case link
    obtain n' where n': "endpoint_add_message n A \<lparr>m_source = s, m_dest = t, m_tag = tag, m_data = data\<rparr> = Some n'"
      "same_node n n'" "find_endpoint n' = (find_endpoint n)(i \<mapsto> A\<lparr>e_inlinks := e # e_inlinks A\<rparr>)"
      using add_link_effect [OF A, of e s t] link by (auto simp: from_peer_def)
    have "links_inv (epid_of n) (alive n) (outs n) ((ins n)(i := e # ins n i))"
      using links_inv_remote_in [OF links far [OF link(3)]] link(3) by (simp add: from_peer_def)
    then have "node_inv n' \<and> alive n' = alive n \<and> ins n' = (ins n)(i := e # ins n i)"
      using node_inv_links [OF inv n'(2) A n'(3)] vA [symmetric] by simp
    moreover from this have "ins_grow n n'" using link(3) by (auto simp: ins_grow_def from_peer_def split: if_splits)
    ultimately show ?thesis using n' by blast
  next
    case unlink
    obtain n' where n': "endpoint_add_message n A \<lparr>m_source = s, m_dest = t, m_tag = tag, m_data = data\<rparr> = Some n'"
      "same_node n n'" "find_endpoint n' = (find_endpoint n)(i \<mapsto> A\<lparr>e_inlinks := remove1 e (e_inlinks A)\<rparr>)"
      using add_unlink_effect [OF A, of s t e] unlink by auto
    have "links_inv (epid_of n) (alive n) (outs n) ((ins n)(i := remove1 e (ins n i)))"
      using links_inv_remote_in_remove [OF links far [OF unlink(3)]] .
    then have "node_inv n' \<and> alive n' = alive n \<and> ins n' = (ins n)(i := remove1 e (ins n i))"
      using node_inv_links [OF inv n'(2) A n'(3)] vA [symmetric] by simp
    moreover from this have "ins_grow n n'" using ins_grow_remove by blast
    ultimately show ?thesis using n' by blast
  next
    case exit
    let ?msg = "\<lparr>m_source = s, m_dest = t, m_tag = tag, m_data = data\<rparr>"
    obtain n' where n': "endpoint_add_message n A ?msg = Some n'" "same_node n n'"
      "find_endpoint n' = (find_endpoint n)(i \<mapsto> deliver ?msg (drop_links e A))"
      using endpoint_add_message_exit [OF A, of ?msg e r] exit by auto
    have "links_inv (epid_of n) (alive n) ((outs n)(i := remove1 e (outs n i))) ((ins n)(i := remove1 e (ins n i)))"
      using links_inv_drop [OF links far [OF exit(3)]] .
    then have "node_inv n' \<and> alive n' = alive n \<and> ins n' = (ins n)(i := remove1 e (ins n i))"
      using node_inv_links [OF inv n'(2) A n'(3)] vA [symmetric] by simp
    moreover from this have "ins_grow n n'" using ins_grow_remove by blast
    ultimately show ?thesis using n' by blast
  next
    case data
    let ?msg = "\<lparr>m_source = s, m_dest = t, m_tag = tag, m_data = data\<rparr>"
    obtain n' where n': "endpoint_add_message n A ?msg = Some n'" "same_node n n'"
      "find_endpoint n' = (find_endpoint n)(i \<mapsto> deliver ?msg A)"
      using endpoint_add_message_data [OF A, of ?msg] data by auto
    have "node_inv n' \<and> alive n' = alive n \<and> ins_grow n n'" by (rule node_inv_upd [OF inv n'(2) A n'(3)]) simp_all
    then show ?thesis using n' by blast
  qed
qed

lemma arrive_inv:
  assumes inv: "node_inv n" and peer: "peer_message n tag data"
  shows "\<exists>n'. got_message n hdr source tag data = Some n' \<and> same_node n n' \<and> node_inv n' \<and> alive n' = alive n \<and> ins_grow n n'"
proof -
  let ?i = "h_destlocalid hdr"
  from got_message_split [of n hdr source tag data] obtain c where c: "got_message n hdr source tag data =
    (case find_endpoint n ?i of
       None \<Rightarrow> if MSG_LINK = tag then
                 if length data = 10
                 then node_send_locked (n\<lparr>clock := c\<rparr>) ?i (of_epid_bytes data) MSG_ENDPOINT_EXIT (exit_bytes (epid_of n ?i) 0)
                 else None
               else Some (n\<lparr>clock := c\<rparr>)
     | Some A \<Rightarrow> endpoint_add_message (n\<lparr>clock := c\<rparr>) A
                   \<lparr>m_source = source, m_dest = epid_of n ?i, m_tag = tag, m_data = data\<rparr>)" ..
  let ?n = "n\<lparr>clock := c\<rparr>"
  have "from_peer ?n = from_peer n" "node_inv ?n = node_inv n" by (simp_all add: from_peer_def local_id_def fun_eq_iff)
  then have n: "node_inv ?n" "peer_message ?n tag data" using inv peer unfolding peer_message_def by metis+
  have grow: "ins_grow n n'" if "ins_grow ?n n'" for n' using that by (simp add: ins_grow_def local_id_def)
  show ?thesis
  proof (cases "find_endpoint n ?i")
    case (Some A)
    then have "find_endpoint ?n ?i = Some A" by simp
    from arrive_live_inv [OF n(1) this n(2), of source "epid_of n ?i"] show ?thesis using c Some grow by auto
  next
    case None
    show ?thesis
    proof (cases "tag = MSG_LINK")
      case False
      then show ?thesis using c None inv by (auto simp: ins_grow_eq)
    next
      case True
      then obtain e where e: "from_peer n e" "data = epid_bytes e" using peer by (auto simp: peer_message_def)
      have "ep_ip e \<noteq> listenip ?n \<or> ep_port e \<noteq> listenport ?n" "ep_ip e \<noteq> 0" "ep_port e \<noteq> 0"
        using e(1) by (auto simp: from_peer_def local_id_def sendable_def)
      from send_remote [OF this(2,3,1)] obtain n' where
        n': "node_send_locked ?n ?i e MSG_ENDPOINT_EXIT (exit_bytes (epid_of n ?i) 0) = Some n'" "same_node n n'"
        "find_endpoint n' = find_endpoint n" by fastforce
      have "got_message n hdr source tag data = Some n'" using c None True e n'(1) of_epid_bytes_append [of e "[]"] by simp
      then show ?thesis using n' inv view_cong [OF n'(3)] node_ok_cong [OF n'(2,3)] same_node_epid [OF n'(2)]
        by (simp add: node_inv_def ins_grow_eq)
    qed
  qed
qed

lemma node_op_inv:
  assumes inv: "node_inv n" and ids: "ids_below n" and legal: "legal op n"
  shows "\<exists>n'. node_op op n = Some n' \<and> node_inv n' \<and> ids_below n'"
proof (cases op)
  case (Spawn type)
  then show ?thesis using spawn_effect [OF inv ids] legal by (simp del: node_op.simps) blast
next
  case (Send i dest tag data)
  then show ?thesis using send_data_inv [OF inv, of dest tag i data] legal ids_below_same [OF ids] by auto
next
  case (Receive i)
  then obtain A where A: "find_endpoint n i = Some A" using legal by (auto simp: alive_def)
  from endpoint_receive_inv [OF inv this] show ?thesis using Receive ids_below_same [OF ids] by auto
next
  case (Link i to)
  then obtain A where A: "find_endpoint n i = Some A" using legal by (auto simp: alive_def)
  from endpoint_link_inv [OF inv this, of to] show ?thesis using Link legal ids_below_same [OF ids] by auto
next
  case (Unlink i to)
  then obtain A where A: "find_endpoint n i = Some A" using legal by (auto simp: alive_def)
  from endpoint_unlink_inv [OF inv this, of to] show ?thesis using Unlink legal ids_below_same [OF ids] by auto
next
  case (Exit b)
  then obtain B where B: "find_endpoint n b = Some B" using legal by (auto simp: alive_def)
  from endpoint_exit_effect [OF inv this] obtain n' where n': "endpoint_thread_exit n b = Some n'" "same_node n n'" "node_inv n'"
    "find_endpoint n' = (told n b (e_inlinks B))(b := None)" by blast
  have "set (ins n' k) \<subseteq> set (ins n k)" for k
    using n'(4) set_remove1_subset [of "epid_of n b"] by (cases "find_endpoint n k") (auto simp: ins_def told_def)
  then have "ins_grow n n'" unfolding ins_grow_def by blast
  moreover have "alive n' i \<Longrightarrow> alive n i" for i using n'(4) by (auto simp: alive_def told_def split: if_splits)
  ultimately show ?thesis using Exit n' ids_below_keep [OF ids n'(2)] by auto
next
  case (Disconnected ip port)
  then obtain n' where n': "handle_disconnection n False ip port = Some n'" "same_node n n'" "node_inv n'"
    "find_endpoint n' = lost_host n (on_host ip port) UNIV"
    using handle_disconnection_effect [OF inv] legal by auto
  have "set (ins n' k) \<subseteq> set (ins n k)" for k
    using n'(4) lose_inlinks by (cases "find_endpoint n k") (auto simp: ins_def lost_host_def)
  then have "ins_grow n n'" unfolding ins_grow_def by blast
  moreover have "alive n' i \<Longrightarrow> alive n i" for i using n'(4) by (auto simp: alive_def lost_host_def)
  ultimately show ?thesis using Disconnected n' ids_below_keep [OF ids n'(2)] by auto
next
  case (Arrive hdr source data)
  from arrive_inv [OF inv, of "h_tag hdr" data hdr source] show ?thesis using Arrive legal ids_below_same [OF ids] by auto
qed

lemma reachable_inv: "reachable n0 n \<Longrightarrow> node_inv n0 \<Longrightarrow> ids_below n0 \<Longrightarrow> node_inv n \<and> ids_below n"
  by (induction rule: reachable.induct) (use node_op_inv in fastforce)+

subsection \<open>Properties\<close>


definition node_example :: node where
  "node_example =
     \<lparr>listenip = 1, listenport = 6879, clock = 0, endpoints = [], nextlocalid = 5, notified = False,
      is_shutdown = False, remote = []\<rparr>"

lemma node_example_inv: "node_inv node_example" "ids_below node_example"
  by (simp_all add: node_example_def node_inv_def node_ok_def links_inv_def ids_below_def alive_def find_endpoint_def)

definition endpoint_example :: "u32 \<Rightarrow> endpointid list \<Rightarrow> endpointid list \<Rightarrow> endpoint" where
  "endpoint_example i inl outl =
     \<lparr>e_epid = \<lparr>ep_ip = 1, ep_port = 6879, ep_localid = i\<rparr>, e_interrupt = False, e_type = ''task'', e_closed = False,
      e_mailbox = [], e_inlinks = inl, e_outlinks = outl\<rparr>"

lemma spawn_example:
  "node_op (Spawn ''task'') node_example =
     Some (node_example\<lparr>nextlocalid := 6, endpoints := [endpoint_example 5 [] []]\<rparr>)"
  by (simp add: node_example_def node_add_thread_locked_def Let_def endpoint_example_def)

text \<open>Another node links to endpoint 5 twice, so its identifier is recorded twice.\<close>

definition far_endpoint :: endpointid where
  "far_endpoint = \<lparr>ep_ip = 2, ep_port = 6879, ep_localid = 9\<rparr>"

definition link_header :: msgheader where
  "link_header = \<lparr>h_sourcelocalid = 9, h_destlocalid = 5, h_size = 10, h_tag = MSG_LINK, h_timestamp = 3\<rparr>"

definition linked_example :: "endpointid list \<Rightarrow> node" where
  "linked_example inl =
     node_example\<lparr>clock := 4, nextlocalid := 6, endpoints := [endpoint_example 5 inl []]\<rparr>"

lemma far_link_legal:
  "listenip n = 1 \<Longrightarrow> legal (Arrive link_header far_endpoint (epid_bytes far_endpoint)) n"
  unfolding legal.simps peer_message_def
  by (auto simp: link_header_def from_peer_def local_id_def sendable_def endpointid_isnull_def far_endpoint_def
      intro!: exI [of _ far_endpoint])

lemma arrive_example:
  "node_op (Arrive link_header far_endpoint (epid_bytes far_endpoint))
     (node_example\<lparr>nextlocalid := 6, endpoints := [endpoint_example 5 [] []]\<rparr>) = Some (linked_example [far_endpoint])"
  "node_op (Arrive link_header far_endpoint (epid_bytes far_endpoint)) (linked_example [far_endpoint]) =
     Some (linked_example [far_endpoint, far_endpoint])"
  by (simp_all add: got_message.simps Let_def find_endpoint_def linked_example_def link_header_def endpoint_example_def
      node_example_def endpoint_add_message_def update_endpoint_def endpointid_isnull_def)
    (simp_all add: far_endpoint_def)



text \<open>Endpoint 6 and an endpoint of another node link to endpoint 5.\<close>

definition pair_example :: node where
  "pair_example =
     node_example\<lparr>nextlocalid := 7,
       endpoints := [endpoint_example 5 [\<lparr>ep_ip = 1, ep_port = 6879, ep_localid = 6\<rparr>, far_endpoint] [],
                     endpoint_example 6 [] [\<lparr>ep_ip = 1, ep_port = 6879, ep_localid = 5\<rparr>, far_endpoint]]\<rparr>"

lemma pair_example_find:
  "find_endpoint pair_example i =
     (if i = 5 then Some (endpoint_example 5 [epid_of pair_example 6, far_endpoint] [])
      else if i = 6 then Some (endpoint_example 6 [] [epid_of pair_example 5, far_endpoint]) else None)"
  by (auto simp: pair_example_def find_endpoint_def endpoint_example_def epid_of_def node_example_def)

lemma pair_example_node [simp]: "listenip pair_example = 1" "listenport pair_example = 6879"
  by (simp_all add: pair_example_def node_example_def)

lemma pair_example_peer [simp]: "\<not> local_id pair_example far_endpoint" "sendable far_endpoint"
  "far_endpoint \<noteq> epid_of pair_example i" "epid_of pair_example i \<noteq> far_endpoint"
  by (auto simp: local_id_def sendable_def epid_of_def far_endpoint_def)

lemma pair_example_local [simp]: "local_id pair_example (epid_of pair_example i)" "sendable (epid_of pair_example i)"
  by (auto simp: local_id_def sendable_def epid_of_def)

lemma pair_example_inv: "node_inv pair_example"
proof -
  have "e_epid (endpoint_example i a b) = epid_of pair_example i" for i a b
    by (simp add: endpoint_example_def epid_of_def)
  moreover have "e_inlinks (endpoint_example i a b) = a" "e_outlinks (endpoint_example i a b) = b" for i a b
    by (simp_all add: endpoint_example_def)
  ultimately show ?thesis unfolding node_inv_def node_ok_def links_inv_def alive_def outs_def ins_def
    by (auto simp: pair_example_find)
qed


text \<open>C30: a mailbox is a queue. A message sent to a live local endpoint is appended to its mailbox
  with the right source and destination and reaches no other mailbox; receiving takes the
  oldest message out of the mailbox and leaves the other endpoints alone, and on an empty
  mailbox it returns nothing.\<close>

theorem mailbox_fifo:
  assumes "node_inv n" and "find_endpoint n j = Some B" and "\<not> e_closed B"
    and "tag \<noteq> MSG_LINK" and "tag \<noteq> MSG_UNLINK" and "tag \<noteq> MSG_ENDPOINT_EXIT"
  shows "(\<exists>n1 B1. node_send_locked n i (epid_of n j) tag data = Some n1 \<and>
            find_endpoint n1 = (find_endpoint n)(j \<mapsto> B1) \<and>
            e_mailbox B1 = e_mailbox B @ [\<lparr>m_source = epid_of n i, m_dest = epid_of n j, m_tag = tag, m_data = data\<rparr>]) \<and>
         (\<exists>n2. endpoint_receive n j = Some (case e_mailbox B of [] \<Rightarrow> None | m # ms \<Rightarrow> Some m, n2) \<and>
            find_endpoint n2 = (find_endpoint n)(j \<mapsto> B\<lparr>e_mailbox := tl (e_mailbox B)\<rparr>))"
proof -
  let ?msg = "\<lparr>m_source = epid_of n i, m_dest = epid_of n j, m_tag = tag, m_data = data\<rparr>"
  have "node_ok n" using assms(1) by (simp add: node_inv_def)
  then obtain n1 where "node_send_locked n i (epid_of n j) tag data = Some n1"
    "find_endpoint n1 = (find_endpoint n)(j \<mapsto> deliver ?msg B)"
    using send_local [of n j B i tag data] endpoint_add_message_data [of "n\<lparr>clock := clock n + 1\<rparr>" j B ?msg] assms by auto
  then show ?thesis using endpoint_receive_inv [OF assms(1,2)] deliver_simps(5) [OF assms(3)] by blast
qed

theorem mailbox_fifo_witness:
  "\<exists>n1 B1. node_send_locked pair_example 6 (epid_of pair_example 5) 600 [1, 2] = Some n1 \<and>
     find_endpoint n1 5 = Some B1 \<and> map m_data (e_mailbox B1) = [[1, 2]]"
proof -
  have "find_endpoint pair_example 5 = Some (endpoint_example 5 [epid_of pair_example 6, far_endpoint] [])"
    by (simp add: pair_example_find)
  from mailbox_fifo [OF pair_example_inv this, of 600 6 "[1, 2]"]
  show ?thesis by (auto simp: endpoint_example_def MSG_LINK_def MSG_UNLINK_def MSG_ENDPOINT_EXIT_def)
qed

text \<open>C29: a lost connection is announced once. When the connection to another node is lost, every
  local endpoint gets one exit message for each of its links to that node, in the order of the
  links, and keeps exactly its other links; handling the same loss again, as reading the end of
  the stream and closing the connection both do, changes nothing.\<close>

theorem disconnection_announced_once:
  assumes "node_inv n" and "\<not> (listenip n = ip \<and> listenport n = port)"
  shows "\<exists>n'. handle_disconnection n False ip port = Some n' \<and> node_inv n' \<and>
    (\<forall>i A. find_endpoint n i = Some A \<longrightarrow> \<not> e_closed A \<longrightarrow>
       (\<exists>A'. find_endpoint n' i = Some A' \<and> e_outlinks A' = filter (\<lambda>l. \<not> on_host ip port l) (e_outlinks A) \<and>
          e_mailbox A' = e_mailbox A @ map (lost_msg n i) (filter (on_host ip port) (e_outlinks A)))) \<and>
    (\<exists>n''. handle_disconnection n' False ip port = Some n'' \<and> find_endpoint n'' = find_endpoint n')"
proof -
  let ?H = "on_host ip port"
  obtain n' where n': "handle_disconnection n False ip port = Some n'" "same_node n n'" "node_inv n'"
    "find_endpoint n' = lost_host n ?H UNIV" using handle_disconnection_effect [OF assms] by blast
  have links: "links_ok n" using assms(1) by (simp add: node_inv_def)
  have dist: "distinct (e_outlinks A)" if "find_endpoint n i = Some A" for i A
    using links_invD(1) [OF links, of i] view_some [OF that] by simp
  have 1: "\<exists>A'. find_endpoint n' i = Some A' \<and> e_outlinks A' = filter (\<lambda>l. \<not> ?H l) (e_outlinks A) \<and>
          e_mailbox A' = e_mailbox A @ map (lost_msg n i) (filter ?H (e_outlinks A))"
    if "find_endpoint n i = Some A" "\<not> e_closed A" for i A
    using that n'(4) lose_host [OF dist [OF that(1)]] lose_mailbox [OF that(2)] by (simp add: lost_host_def)
  have "\<not> (listenip n' = ip \<and> listenport n' = port)" using assms(2) n'(2) by (simp add: same_node_def)
  from handle_disconnection_effect [OF n'(3) this] obtain n'' where
    n'': "handle_disconnection n' False ip port = Some n''" "find_endpoint n'' = lost_host n' ?H UNIV" by blast
  have "lost_host n' ?H UNIV i = find_endpoint n' i" for i
  proof (cases "find_endpoint n i")
    case (Some A)
    then show ?thesis using n'(4) lose_host [OF dist [OF Some], of n i ?H] by (simp add: lost_host_def)
  qed (use n'(4) in \<open>simp add: lost_host_def\<close>)
  with n'' have "find_endpoint n'' = find_endpoint n'" by (simp add: fun_eq_iff)
  with n' n'' 1 show ?thesis by blast
qed

theorem disconnection_announced_once_witness:
  "\<exists>n' A'. handle_disconnection pair_example False 2 6879 = Some n' \<and> find_endpoint n' 6 = Some A' \<and>
     e_outlinks A' = [epid_of pair_example 5] \<and> e_mailbox A' = [lost_msg pair_example 6 far_endpoint]"
proof -
  let ?A = "endpoint_example 6 [] [epid_of pair_example 5, far_endpoint]"
  have A: "find_endpoint pair_example 6 = Some ?A" "\<not> e_closed ?A" "e_mailbox ?A = []"
    "e_outlinks ?A = [epid_of pair_example 5, far_endpoint]"
    by (simp_all add: pair_example_find) (simp_all add: endpoint_example_def)
  have H: "on_host 2 6879 far_endpoint" "\<not> on_host 2 6879 (epid_of pair_example 5)"
    by (simp_all add: on_host_def far_endpoint_def)
  have "\<not> (listenip pair_example = 2 \<and> listenport pair_example = 6879)" by simp
  from disconnection_announced_once [OF pair_example_inv this] obtain n' where
    "handle_disconnection pair_example False 2 6879 = Some n'"
    "\<forall>i A. find_endpoint pair_example i = Some A \<longrightarrow> \<not> e_closed A \<longrightarrow>
       (\<exists>A'. find_endpoint n' i = Some A' \<and> e_outlinks A' = filter (\<lambda>l. \<not> on_host 2 6879 l) (e_outlinks A) \<and>
          e_mailbox A' = e_mailbox A @ map (lost_msg pair_example i) (filter (on_host 2 6879) (e_outlinks A)))"
    by blast
  then obtain A' where "handle_disconnection pair_example False 2 6879 = Some n'" "find_endpoint n' 6 = Some A'"
    "e_outlinks A' = filter (\<lambda>l. \<not> on_host 2 6879 l) (e_outlinks ?A)"
    "e_mailbox A' = e_mailbox ?A @ map (lost_msg pair_example 6) (filter (on_host 2 6879) (e_outlinks ?A))"
    using A(1,2) by blast
  then show ?thesis using H by (simp add: A(3,4))
qed

end
