(* ===== verification/Chord.thy ===== *)
theory Chord
  imports Endpoints
begin

text \<open>
  The distributed hash table (\<^verbatim>\<open>runtime/chord.c\<close>): identifier arithmetic on the ring, the
  finger table with the endpoint links that shadow it, and one function per message handler.

  A handler returns the new state and the messages it sends, in order; \<open>None\<close> is a failed
  assertion or an index outside a table. A message is a value of a datatype instead of the
  bytes of the C struct. Where the code calls \<^verbatim>\<open>rand()\<close>, the value is an argument. The links
  of the Chord endpoint are kept in \<open>c_links\<close>, with the effect that \<^verbatim>\<open>endpoint_link\<close> and
  \<^verbatim>\<open>endpoint_unlink\<close> have on them. Entry 0 of a successor list in a message, which the code
  leaves unset and never reads, is the null node.
\<close>

subsection \<open>Data\<close>

definition MBITS :: nat where "MBITS = 8"
definition KEYSPACE :: nat where "KEYSPACE = 2 ^ MBITS"
definition NSUCCESSORS :: nat where "NSUCCESSORS = MBITS"

type_synonym chordid = u32

record chordnode =
  cn_id :: chordid
  cn_epid :: endpointid

definition null_node :: chordnode where
  "null_node = \<lparr>cn_id = 0, cn_epid = \<lparr>ep_ip = 0, ep_port = 0, ep_localid = 0\<rparr>\<rparr>"

datatype chord_msg =
    FIND_SUCCESSOR chordid endpointid int int
  | GOT_SUCCESSOR chordnode int int
  | INSERT endpointid chordnode
  | SET_NEXT chordnode chordnode
  | GET_SUCCLIST endpointid
  | REPLY_SUCCLIST endpointid "chordnode list"
  | STABILIZE
  | GET_TABLE endpointid
  | REPLY_TABLE chordnode "chordnode list" "chordnode list" bool
  | FIND_ALL
  | ENDPOINT_EXIT endpointid
  | KILL
  | CHORD_STARTED chordnode
  | ID_CHANGED chordnode chordid
  | JOINED chordnode

record chord =
  c_caller :: endpointid
  c_initial :: endpointid
  c_self :: chordnode
  c_fingers :: "chordnode list"
  c_successors :: "chordnode list"
  c_links :: "endpointid list"
  c_shutdown :: bool

type_synonym sent = "(endpointid \<times> chord_msg) list"

subsection \<open>Ring arithmetic\<close>

definition chordnode_isnull :: "chordnode \<Rightarrow> bool" where
  "chordnode_isnull n \<longleftrightarrow> 0 = ep_ip (cn_epid n) \<and> 0 = ep_port (cn_epid n)"

definition inrange_open :: "chordid \<Rightarrow> chordid \<Rightarrow> chordid \<Rightarrow> bool" where
  "inrange_open val lo hi = (if lo < hi then val > lo \<and> val < hi else val > lo \<or> val < hi)"

definition inrange_open_closed :: "chordid \<Rightarrow> chordid \<Rightarrow> chordid \<Rightarrow> bool" where
  "inrange_open_closed val lo hi = (if lo < hi then val > lo \<and> val \<le> hi else val > lo \<or> val \<le> hi)"

text \<open>The loop from the last finger to the first.\<close>

fun closest_from :: "chord \<Rightarrow> chordid \<Rightarrow> nat \<Rightarrow> chordnode" where
  "closest_from crd key 0 = c_self crd"
| "closest_from crd key (Suc findex) =
     (let f = c_fingers crd ! Suc findex
      in if \<not> chordnode_isnull f \<and> inrange_open (cn_id f) (cn_id (c_self crd)) key then f
         else closest_from crd key findex)"

definition closest_preceding_finger :: "chord \<Rightarrow> chordid \<Rightarrow> chordnode" where
  "closest_preceding_finger crd key = closest_from crd key MBITS"

subsection \<open>Fingers and links\<close>

definition check_links :: "chord \<Rightarrow> bool" where
  "check_links crd =
     (let epids = map (\<lambda>i. cn_epid (c_fingers crd ! i)) [1 ..< MBITS]
      in list_all (\<lambda>e. endpointid_isnull e \<or> list_ex (\<lambda>l. endpointid_equals l e) (c_links crd)) epids \<and>
         list_all (link_ok_to_have epids) (c_links crd))"

definition count_instances :: "chord \<Rightarrow> endpointid \<Rightarrow> nat" where
  "count_instances crd epid =
     length (filter (\<lambda>i. \<not> chordnode_isnull (c_fingers crd ! i) \<and>
                         endpointid_equals (cn_epid (c_fingers crd ! i)) epid) [1 ..< MBITS])"

definition add_link :: "endpointid \<Rightarrow> endpointid list \<Rightarrow> endpointid list" where
  "add_link e ls = (if list_ex (\<lambda>l. endpointid_equals l e) ls then ls else e # ls)"

definition set_finger :: "chord \<Rightarrow> nat \<Rightarrow> chordnode \<Rightarrow> chord option" where
  "set_finger crd i cn =
     (if length (c_fingers crd) \<le> i then None
      else
        let old = c_fingers crd ! i
        in if cn_id old = cn_id cn \<and> endpointid_equals (cn_epid old) (cn_epid cn) then Some crd
           else
             let oldinst = (if \<not> chordnode_isnull old then count_instances crd (cn_epid old) else 0);
                 links1 = (if 1 = oldinst then endpoint_list_remove (c_links crd) (cn_epid old) else c_links crd);
                 crd1 = crd\<lparr>c_fingers := (c_fingers crd)[i := cn], c_links := links1\<rparr>
             in if chordnode_isnull cn then Some crd1
                else if endpointid_isnull (cn_epid cn) then None
                else Some (crd1\<lparr>c_links := add_link (cn_epid cn) (c_links crd1)\<rparr>))"

definition set_successor :: "chord \<Rightarrow> chordnode \<Rightarrow> chord option" where
  "set_successor crd cn = set_finger crd 1 cn"

fun set_fingers :: "chord \<Rightarrow> nat list \<Rightarrow> chordnode \<Rightarrow> chord option" where
  "set_fingers crd [] cn = Some crd"
| "set_fingers crd (i # js) cn = do { crd1 \<leftarrow> set_finger crd i cn; set_fingers crd1 js cn }"

definition chord_clear_tables :: "chord \<Rightarrow> chord option" where
  "chord_clear_tables crd =
     do { crd1 \<leftarrow> set_fingers crd [1 ..< Suc MBITS] null_node;
          Some (crd1\<lparr>c_successors := replicate (Suc NSUCCESSORS) null_node\<rparr>) }"

subsection \<open>Handlers\<close>

definition chord_notify_joined :: "chord \<Rightarrow> sent" where
  "chord_notify_joined crd =
     (if 0 \<noteq> ep_localid (c_caller crd) then [(c_caller crd, JOINED (c_self crd))] else [])"

definition chord_join :: "chord \<Rightarrow> (chord \<times> sent) option" where
  "chord_join crd =
     do { crd1 \<leftarrow> chord_clear_tables crd;
          if 0 = ep_localid (c_initial crd1)
          then do { crd2 \<leftarrow> set_successor crd1 (c_self crd1); Some (crd2, chord_notify_joined crd2) }
          else Some (crd1, [(c_initial crd1, FIND_SUCCESSOR (cn_id (c_self crd1)) (cn_epid (c_self crd1)) 0 1)]) }"

definition chord_find_successor :: "chord \<Rightarrow> chordid \<Rightarrow> endpointid \<Rightarrow> int \<Rightarrow> int \<Rightarrow> (chord \<times> sent) option" where
  "chord_find_successor crd key sender hops payload =
     (let successor = c_fingers crd ! 1
      in if chordnode_isnull successor then None
         else if inrange_open_closed key (cn_id (c_self crd)) (cn_id successor)
         then if 1 = payload then Some (crd, [(sender, INSERT (cn_epid (c_self crd)) successor)])
              else Some (crd, [(sender, GOT_SUCCESSOR successor hops payload)])
         else Some (crd, [(cn_epid (closest_preceding_finger crd key), FIND_SUCCESSOR key sender (hops + 1) payload)]))"

definition duplicate_detected :: "chord \<Rightarrow> nat \<Rightarrow> (chord \<times> sent) option" where
  "duplicate_detected crd rand =
     (let oldid = cn_id (c_self crd);
          crd1 = crd\<lparr>c_self := (c_self crd)\<lparr>cn_id := word_of_nat (rand mod KEYSPACE)\<rparr>\<rparr>;
          changed = (if 0 \<noteq> ep_localid (c_caller crd1) then [(c_caller crd1, ID_CHANGED (c_self crd1) oldid)] else [])
      in do { (crd2, joins) \<leftarrow> chord_join crd1; Some (crd2, changed @ joins) })"

definition chord_insert :: "chord \<Rightarrow> nat \<Rightarrow> endpointid \<Rightarrow> chordnode \<Rightarrow> (chord \<times> sent) option" where
  "chord_insert crd rand predecessor successor =
     (if cn_id successor = cn_id (c_self crd) then duplicate_detected crd rand
      else do { crd1 \<leftarrow> set_successor crd successor;
                Some (crd1, [(predecessor, SET_NEXT (c_self crd1) successor)]) })"

definition chord_set_next :: "chord \<Rightarrow> chordnode \<Rightarrow> chordnode \<Rightarrow> (chord \<times> sent) option" where
  "chord_set_next crd new_successor old_successor =
     (let successor = c_fingers crd ! 1
      in if \<not> endpointid_equals (cn_epid old_successor) (cn_epid successor) then
           if cn_id old_successor = cn_id successor \<or> cn_id new_successor = cn_id (c_self crd) then None
           else if inrange_open_closed (cn_id new_successor) (cn_id (c_self crd)) (cn_id successor)
           then Some (crd, [(cn_epid new_successor, INSERT (cn_epid (c_self crd)) successor)])
           else Some (crd, [(cn_epid new_successor, INSERT (cn_epid successor) old_successor)])
         else if cn_id old_successor \<noteq> cn_id successor then None
         else do { crd1 \<leftarrow> set_successor crd new_successor; Some (crd1, chord_notify_joined crd1) })"

definition chord_get_succlist :: "chord \<Rightarrow> endpointid \<Rightarrow> (chord \<times> sent) option" where
  "chord_get_succlist crd sender =
     Some (crd, [(sender, REPLY_SUCCLIST (cn_epid (c_self crd))
       (null_node # c_fingers crd ! 1 # map (\<lambda>i. c_successors crd ! (i - 1)) [2 ..< Suc NSUCCESSORS]))])"

definition chord_reply_succlist :: "chord \<Rightarrow> endpointid \<Rightarrow> chordnode list \<Rightarrow> (chord \<times> sent) option" where
  "chord_reply_succlist crd sender succs =
     (if \<not> endpointid_equals sender (cn_epid (c_fingers crd ! 1)) then Some (crd, [])
      else Some (crd\<lparr>c_successors := succs\<rparr>, []))"

definition chord_got_successor :: "chord \<Rightarrow> chordnode \<Rightarrow> int \<Rightarrow> (chord \<times> sent) option" where
  "chord_got_successor crd successor payload =
     (if \<not> 1 < payload \<or> chordnode_isnull successor \<or>
         (cn_id successor = cn_id (c_self crd) \<and> \<not> endpointid_equals (cn_epid successor) (cn_epid (c_self crd)))
      then None
      else do { crd1 \<leftarrow> set_finger crd (nat payload) successor; Some (crd1, []) })"

definition chord_stabilize :: "chord \<Rightarrow> nat \<Rightarrow> (chord \<times> sent) option" where
  "chord_stabilize crd rand =
     (let successor = c_fingers crd ! 1; self = c_self crd; k = 2 + rand mod (MBITS - 2)
      in if chordnode_isnull successor then Some (crd, [])
         else Some (crd, [(cn_epid successor, GET_SUCCLIST (cn_epid self)),
                          (cn_epid self, FIND_SUCCESSOR (cn_id self + 2 ^ (k - 1)) (cn_epid self) 0 (int k))]))"

definition chord_get_table :: "chord \<Rightarrow> endpointid \<Rightarrow> (chord \<times> sent) option" where
  "chord_get_table crd sender =
     Some (crd, [(sender, REPLY_TABLE (c_self crd) (c_fingers crd) (c_successors crd) (check_links crd))])"

fun clear_exited :: "chord \<Rightarrow> nat list \<Rightarrow> endpointid \<Rightarrow> chord option" where
  "clear_exited crd [] epid = Some crd"
| "clear_exited crd (i # js) epid =
     do { crd1 \<leftarrow> (if endpointid_equals epid (cn_epid (c_fingers crd ! i)) then set_finger crd i null_node else Some crd);
          clear_exited crd1 js epid }"

definition chord_endpoint_exit :: "chord \<Rightarrow> endpointid \<Rightarrow> (chord \<times> sent) option" where
  "chord_endpoint_exit crd epid =
     (if endpointid_equals epid (cn_epid (c_fingers crd ! 1)) then
        if \<not> chordnode_isnull (c_successors crd ! 1) then
          do { crd1 \<leftarrow> set_finger crd 1 (c_successors crd ! 1);
               let s = c_successors crd1;
               let crd2 = crd1\<lparr>c_successors := hd s # drop 2 s @ [last s]\<rparr>;
               crd3 \<leftarrow> clear_exited crd2 [2 ..< Suc MBITS] epid;
               Some (crd3, []) }
        else Some (crd\<lparr>c_shutdown := True\<rparr>, [])
      else do { crd1 \<leftarrow> clear_exited crd [2 ..< Suc MBITS] epid; Some (crd1, []) })"

definition chord_start :: "chord \<Rightarrow> nat \<Rightarrow> endpointid \<Rightarrow> (chord \<times> sent) option" where
  "chord_start crd rand epid =
     (let crd1 = crd\<lparr>c_self := \<lparr>cn_id = word_of_nat (rand mod KEYSPACE), cn_epid = epid\<rparr>\<rparr>;
          started = (if 0 \<noteq> ep_localid (c_caller crd1) then [(c_caller crd1, CHORD_STARTED (c_self crd1))] else [])
      in do { (crd2, joins) \<leftarrow> chord_join crd1; Some (crd2, started @ joins) })"

text \<open>One turn of the receive loop of \<^verbatim>\<open>chord_thread\<close>; the flag says whether the loop ends.\<close>

fun chord_step :: "chord \<Rightarrow> nat \<Rightarrow> chord_msg \<Rightarrow> (chord \<times> sent \<times> bool) option" where
  "chord_step crd rand (FIND_SUCCESSOR key sender hops payload) =
     map_option (\<lambda>(c, s). (c, s, False)) (chord_find_successor crd key sender hops payload)"
| "chord_step crd rand (INSERT predecessor successor) =
     map_option (\<lambda>(c, s). (c, s, False)) (chord_insert crd rand predecessor successor)"
| "chord_step crd rand (SET_NEXT new_successor old_successor) =
     map_option (\<lambda>(c, s). (c, s, False)) (chord_set_next crd new_successor old_successor)"
| "chord_step crd rand (GET_SUCCLIST sender) = map_option (\<lambda>(c, s). (c, s, False)) (chord_get_succlist crd sender)"
| "chord_step crd rand (REPLY_SUCCLIST sender succs) =
     map_option (\<lambda>(c, s). (c, s, False)) (chord_reply_succlist crd sender succs)"
| "chord_step crd rand (GOT_SUCCESSOR successor hops payload) =
     map_option (\<lambda>(c, s). (c, s, False)) (chord_got_successor crd successor payload)"
| "chord_step crd rand STABILIZE = map_option (\<lambda>(c, s). (c, s, False)) (chord_stabilize crd rand)"
| "chord_step crd rand (GET_TABLE sender) = map_option (\<lambda>(c, s). (c, s, False)) (chord_get_table crd sender)"
| "chord_step crd rand FIND_ALL = Some (crd, [], False)"
| "chord_step crd rand (ENDPOINT_EXIT epid) = map_option (\<lambda>(c, s). (c, s, False)) (chord_endpoint_exit crd epid)"
| "chord_step crd rand KILL = Some (crd, [], True)"
| "chord_step crd rand msg = None"

definition start_chord :: "endpointid \<Rightarrow> endpointid \<Rightarrow> chord" where
  "start_chord initial caller =
     \<lparr>c_caller = caller, c_initial = initial, c_self = null_node,
      c_fingers = replicate (Suc MBITS) null_node, c_successors = replicate (Suc NSUCCESSORS) null_node,
      c_links = [], c_shutdown = False\<rparr>"

subsection \<open>Ring order\<close>

text \<open>
  Walking clockwise, \<open>rdist a b\<close> steps lead from \<open>a\<close> to \<open>b\<close>, a full turn when they are equal;
  \<open>ahead a b\<close> is the same with no step for equal identifiers.
\<close>

definition rdist :: "chordid \<Rightarrow> chordid \<Rightarrow> nat" where
  "rdist a b = (if unat a < unat b then unat b - unat a else unat b + KEYSPACE - unat a)"

definition ahead :: "chordid \<Rightarrow> chordid \<Rightarrow> nat" where
  "ahead a b = (if unat a \<le> unat b then unat b - unat a else unat b + KEYSPACE - unat a)"

definition key_ok :: "chordid \<Rightarrow> bool" where
  "key_ok k \<longleftrightarrow> unat k < KEYSPACE"

lemma rdist_le: "key_ok a \<Longrightarrow> key_ok b \<Longrightarrow> rdist a b \<le> KEYSPACE" "key_ok a \<Longrightarrow> key_ok b \<Longrightarrow> 0 < rdist a b"
  by (auto simp: rdist_def key_ok_def)

lemma inrange_open_rdist:
  assumes "key_ok v" "key_ok a" "key_ok b"
  shows "inrange_open v a b \<longleftrightarrow> rdist a v < rdist a b"
  using assms by (auto simp: inrange_open_def rdist_def key_ok_def word_less_nat_alt)

lemma inrange_open_closed_rdist:
  assumes "key_ok v" "key_ok a" "key_ok b"
  shows "inrange_open_closed v a b \<longleftrightarrow> rdist a v \<le> rdist a b"
  using assms by (auto simp: inrange_open_closed_def rdist_def key_ok_def word_less_nat_alt word_le_nat_alt)

lemma rdist_hop:
  assumes "key_ok v" "key_ok a" "key_ok b" "rdist a v < rdist a b"
  shows "rdist v b < rdist a b"
  using assms by (auto simp: rdist_def key_ok_def split: if_splits)

lemma ahead_succ:
  assumes "key_ok k" "key_ok a" "key_ok s" "key_ok m" "rdist a k \<le> rdist a s" "rdist a s \<le> rdist a m"
  shows "ahead k s \<le> ahead k m"
  using assms by (auto simp: rdist_def ahead_def key_ok_def split: if_splits)

subsection \<open>Lookup on a stable ring\<close>

text \<open>
  \<open>find_node\<close> is the delivery of a message to the Chord process with an endpoint identifier.
  \<open>lookup\<close> follows a \<open>FIND_SUCCESSOR\<close> message from process to process until one answers; the
  result is that answer.
\<close>

definition find_node :: "chord list \<Rightarrow> endpointid \<Rightarrow> chord option" where
  "find_node net e = find (\<lambda>crd. cn_epid (c_self crd) = e) net"

fun relayed :: "sent \<Rightarrow> (endpointid \<times> chordid \<times> endpointid \<times> int \<times> int) option" where
  "relayed [(to, FIND_SUCCESSOR key sender hops payload)] = Some (to, key, sender, hops, payload)"
| "relayed _ = None"

fun lookup :: "nat \<Rightarrow> chord list \<Rightarrow> endpointid \<Rightarrow> chordid \<Rightarrow> endpointid \<Rightarrow> int \<Rightarrow> int \<Rightarrow> sent option" where
  "lookup 0 net at key sender hops payload = None"
| "lookup (Suc fuel) net at key sender hops payload =
     do { crd \<leftarrow> find_node net at;
          (_, out) \<leftarrow> chord_find_successor crd key sender hops payload;
          (case relayed out of
             Some (to, key1, sender1, hops1, payload1) \<Rightarrow> lookup fuel net to key1 sender1 hops1 payload1
           | None \<Rightarrow> Some out) }"

text \<open>
  A stable ring: every process has its own endpoint and a valid identifier, its successor is the
  next process clockwise, and its other fingers are null or name some process of the ring. Nothing
  is assumed about which process a finger names.
\<close>

definition members :: "chord list \<Rightarrow> chordnode set" where
  "members net = c_self ` set net"

definition stable_node :: "chord list \<Rightarrow> chord \<Rightarrow> bool" where
  "stable_node net crd \<longleftrightarrow>
     key_ok (cn_id (c_self crd)) \<and> length (c_fingers crd) = Suc MBITS \<and>
     (\<forall>i \<in> {1..MBITS}. chordnode_isnull (c_fingers crd ! i) \<or> c_fingers crd ! i \<in> members net) \<and>
     \<not> chordnode_isnull (c_fingers crd ! 1) \<and>
     (\<forall>m \<in> members net. rdist (cn_id (c_self crd)) (cn_id (c_fingers crd ! 1)) \<le> rdist (cn_id (c_self crd)) (cn_id m))"

definition stable_ring :: "chord list \<Rightarrow> bool" where
  "stable_ring net \<longleftrightarrow> distinct (map (\<lambda>crd. cn_epid (c_self crd)) net) \<and> (\<forall>crd \<in> set net. stable_node net crd)"

lemma find_node_member:
  assumes "stable_ring net" "crd \<in> set net"
  shows "find_node net (cn_epid (c_self crd)) = Some crd"
proof -
  have "distinct (map (\<lambda>crd. cn_epid (c_self crd)) net)" using assms by (simp add: stable_ring_def)
  then show ?thesis using assms(2) unfolding find_node_def
    by (induction net) (auto simp: image_iff)
qed

lemma find_node_Some:
  assumes "find_node net e = Some crd"
  shows "crd \<in> set net" "cn_epid (c_self crd) = e"
  using assms by (auto simp: find_node_def find_Some_iff)

lemma stable_nodeD:
  assumes "stable_ring net" "crd \<in> set net"
  shows "key_ok (cn_id (c_self crd))" "\<not> chordnode_isnull (c_fingers crd ! 1)" "c_fingers crd ! 1 \<in> members net"
    and "\<And>m. m \<in> members net \<Longrightarrow> rdist (cn_id (c_self crd)) (cn_id (c_fingers crd ! 1)) \<le> rdist (cn_id (c_self crd)) (cn_id m)"
    and "\<And>i. 1 \<le> i \<Longrightarrow> i \<le> MBITS \<Longrightarrow> \<not> chordnode_isnull (c_fingers crd ! i) \<Longrightarrow> c_fingers crd ! i \<in> members net"
proof -
  have S: "stable_node net crd" using assms by (simp add: stable_ring_def)
  show k: "key_ok (cn_id (c_self crd))" and n: "\<not> chordnode_isnull (c_fingers crd ! 1)" using S by (simp_all add: stable_node_def)
  show f: "c_fingers crd ! i \<in> members net" if "1 \<le> i" "i \<le> MBITS" "\<not> chordnode_isnull (c_fingers crd ! i)" for i
    using S that by (auto simp: stable_node_def)
  show "c_fingers crd ! 1 \<in> members net" using f [of 1] n by (simp add: MBITS_def)
  show "rdist (cn_id (c_self crd)) (cn_id (c_fingers crd ! 1)) \<le> rdist (cn_id (c_self crd)) (cn_id m)" if "m \<in> members net" for m
    using S that by (simp add: stable_node_def)
qed

lemma member_key: "stable_ring net \<Longrightarrow> m \<in> members net \<Longrightarrow> key_ok (cn_id m)"
  by (auto simp: members_def stable_nodeD(1))

text \<open>The search returns the first matching finger, counted down, and the process itself when there is none.\<close>

lemma closest_from_finger:
  assumes "1 \<le> i" "i \<le> k" "\<not> chordnode_isnull (c_fingers crd ! i)" "inrange_open (cn_id (c_fingers crd ! i)) (cn_id (c_self crd)) key"
  obtains j where "1 \<le> j" "j \<le> k" "closest_from crd key k = c_fingers crd ! j" "\<not> chordnode_isnull (c_fingers crd ! j)"
    "inrange_open (cn_id (c_fingers crd ! j)) (cn_id (c_self crd)) key"
proof -
  have "\<exists>j. 1 \<le> j \<and> j \<le> k \<and> closest_from crd key k = c_fingers crd ! j \<and> \<not> chordnode_isnull (c_fingers crd ! j) \<and>
            inrange_open (cn_id (c_fingers crd ! j)) (cn_id (c_self crd)) key"
    using assms
  proof (induction k)
    case (Suc k)
    show ?case
    proof (cases "\<not> chordnode_isnull (c_fingers crd ! Suc k) \<and> inrange_open (cn_id (c_fingers crd ! Suc k)) (cn_id (c_self crd)) key")
      case True then show ?thesis by (intro exI [of _ "Suc k"]) simp
    next
      case False
      then have "i \<le> k" using Suc.prems le_Suc_eq by auto
      then obtain j where "1 \<le> j" "j \<le> k" "closest_from crd key k = c_fingers crd ! j" "\<not> chordnode_isnull (c_fingers crd ! j)"
          "inrange_open (cn_id (c_fingers crd ! j)) (cn_id (c_self crd)) key" using Suc by blast
      with False show ?thesis by (intro exI [of _ j]) auto
    qed
  qed simp
  then show ?thesis using that by blast
qed

text \<open>A process that cannot answer forwards the message to a process closer to the key.\<close>

lemma forward_closer:
  assumes ring: "stable_ring net" and crd: "crd \<in> set net" and key: "key_ok key"
    and far: "\<not> inrange_open_closed key (cn_id (c_self crd)) (cn_id (c_fingers crd ! 1))"
  obtains nxt where "nxt \<in> set net" "closest_preceding_finger crd key = c_self nxt"
    "rdist (cn_id (c_self nxt)) key < rdist (cn_id (c_self crd)) key"
proof -
  note N = stable_nodeD [OF ring crd]
  have "inrange_open (cn_id (c_fingers crd ! 1)) (cn_id (c_self crd)) key"
    using far N(1) key member_key [OF ring N(3)] by (simp add: inrange_open_rdist inrange_open_closed_rdist)
  then obtain j where j: "1 \<le> j" "j \<le> MBITS" "closest_from crd key MBITS = c_fingers crd ! j"
      "\<not> chordnode_isnull (c_fingers crd ! j)" "inrange_open (cn_id (c_fingers crd ! j)) (cn_id (c_self crd)) key"
    using closest_from_finger [of 1 MBITS crd key] N(2) by (auto simp: MBITS_def)
  then have m: "c_fingers crd ! j \<in> members net" using N(5) by blast
  then obtain nxt where nxt: "nxt \<in> set net" "c_fingers crd ! j = c_self nxt" by (auto simp: members_def)
  show ?thesis
  proof (rule that [OF nxt(1)])
    show "closest_preceding_finger crd key = c_self nxt" using j nxt by (simp add: closest_preceding_finger_def)
    show "rdist (cn_id (c_self nxt)) key < rdist (cn_id (c_self crd)) key"
      using j(5) member_key [OF ring m] N(1) key nxt by (simp add: inrange_open_rdist rdist_hop)
  qed
qed

text \<open>The answer to a lookup with payload \<open>payload\<close> that names the process \<open>s\<close>.\<close>

definition lookup_answer :: "chord_msg \<Rightarrow> int \<Rightarrow> chordnode \<Rightarrow> bool" where
  "lookup_answer m payload s \<longleftrightarrow>
     (if payload = 1 then \<exists>p. m = INSERT p s else \<exists>h. m = GOT_SUCCESSOR s h payload)"

lemma lookup_finds:
  assumes ring: "stable_ring net" and key: "key_ok key"
  shows "crd \<in> set net \<Longrightarrow> rdist (cn_id (c_self crd)) key \<le> fuel \<Longrightarrow>
    \<exists>m s. lookup fuel net (cn_epid (c_self crd)) key sender hops payload = Some [(sender, m)] \<and>
          lookup_answer m payload s \<and> s \<in> members net \<and> (\<forall>t \<in> members net. ahead key (cn_id s) \<le> ahead key (cn_id t))"
proof (induction fuel arbitrary: crd hops)
  case 0
  then show ?case using rdist_le(2) [OF stable_nodeD(1) [OF ring 0(1)] key] by simp
next
  case (Suc fuel)
  note N = stable_nodeD [OF ring Suc.prems(1)]
  note F = find_node_member [OF ring Suc.prems(1)]
  let ?s = "c_fingers crd ! 1"
  show ?case
  proof (cases "inrange_open_closed key (cn_id (c_self crd)) (cn_id ?s)")
    case True
    then have "\<forall>t \<in> members net. ahead key (cn_id ?s) \<le> ahead key (cn_id t)"
      using N(1,3,4) key member_key [OF ring] by (auto simp: inrange_open_closed_rdist intro: ahead_succ)
    then show ?thesis using True N(2,3) F
      by (cases "payload = 1") (auto simp: chord_find_successor_def lookup_answer_def)
  next
    case False
    obtain nxt where nxt: "nxt \<in> set net" "closest_preceding_finger crd key = c_self nxt"
        "rdist (cn_id (c_self nxt)) key < rdist (cn_id (c_self crd)) key"
      using forward_closer [OF ring Suc.prems(1) key False] .
    have "lookup (Suc fuel) net (cn_epid (c_self crd)) key sender hops payload =
          lookup fuel net (cn_epid (c_self nxt)) key sender (hops + 1) payload"
      using False N(2) F nxt(2) by (simp add: chord_find_successor_def)
    then show ?thesis using Suc.IH [OF nxt(1), of "hops + 1"] nxt(3) Suc.prems(2) by simp
  qed
qed

subsection \<open>Links follow fingers\<close>

text \<open>
  What the finger table relies on in the link operations of an endpoint. A link list tracks a set
  of endpoints up to the pending exits \<open>P\<close> when it holds only members of the set, and all of
  them but those whose exit has already cut the link.
\<close>

locale link_table =
  fixes add del :: "endpointid \<Rightarrow> 'l \<Rightarrow> 'l" and elems :: "'l \<Rightarrow> endpointid set" and ok :: "'l \<Rightarrow> bool"
  assumes elems_add: "ok l \<Longrightarrow> elems (add e l) = insert e (elems l)"
    and elems_del: "ok l \<Longrightarrow> elems (del e l) = elems l - {e}"
    and ok_add: "ok l \<Longrightarrow> ok (add e l)"
    and ok_del: "ok l \<Longrightarrow> ok (del e l)"
begin

definition tracks :: "endpointid set \<Rightarrow> 'l \<Rightarrow> endpointid set \<Rightarrow> bool" where
  "tracks P l S \<longleftrightarrow> ok l \<and> elems l \<subseteq> S \<and> S - P \<subseteq> elems l"

lemma tracks_add: "tracks P l S \<Longrightarrow> tracks P (add e l) (insert e S)"
  by (auto simp: tracks_def elems_add ok_add)

lemma tracks_del: "tracks P l S \<Longrightarrow> tracks P (del e l) (S - {e})"
  by (auto simp: tracks_def elems_del ok_del)

lemma tracks_lost: "tracks P l S \<Longrightarrow> tracks (insert e P) (del e l) S"
  by (auto simp: tracks_def elems_del ok_del)

lemma tracks_handled: "tracks P l S \<Longrightarrow> e \<notin> S \<Longrightarrow> tracks (P - {e}) l S"
  by (auto simp: tracks_def)

lemma tracks_mono: "tracks P l S \<Longrightarrow> P \<subseteq> Q \<Longrightarrow> tracks Q l S"
  by (auto simp: tracks_def)

lemma tracks_exact: "tracks {} l S \<Longrightarrow> elems l = S"
  by (auto simp: tracks_def)

end

interpretation lk: link_table add_link "\<lambda>e l. endpoint_list_remove l e" set distinct
  by unfold_locales (auto simp: add_link_def list_ex_iff)

text \<open>The endpoints that the fingers watched by \<open>count_instances\<close> name.\<close>

definition finger_ix :: "chordnode list \<Rightarrow> nat set" where
  "finger_ix fs = {i. 1 \<le> i \<and> i < MBITS \<and> \<not> chordnode_isnull (fs ! i)}"

definition finger_set :: "chordnode list \<Rightarrow> endpointid set" where
  "finger_set fs = (\<lambda>i. cn_epid (fs ! i)) ` finger_ix fs"

text \<open>The two null tests of the code agree.\<close>

definition node_wf :: "chordnode \<Rightarrow> bool" where
  "node_wf n \<longleftrightarrow> (chordnode_isnull n \<longleftrightarrow> endpointid_isnull (cn_epid n))"

definition table_inv :: "endpointid set \<Rightarrow> chord \<Rightarrow> bool" where
  "table_inv P crd \<longleftrightarrow>
     length (c_fingers crd) = Suc MBITS \<and> length (c_successors crd) = Suc NSUCCESSORS \<and>
     list_all node_wf (c_fingers crd) \<and> list_all node_wf (c_successors crd) \<and>
     c_fingers crd ! MBITS = null_node \<and> node_wf (c_self crd) \<and>
     lk.tracks P (c_links crd) (finger_set (c_fingers crd))"

lemma null_node_null [simp]: "chordnode_isnull null_node" "endpointid_isnull (cn_epid null_node)" "node_wf null_node"
  by (simp_all add: chordnode_isnull_def endpointid_isnull_def null_node_def node_wf_def)

lemma finger_set_update:
  assumes "1 \<le> i" "i < MBITS" "MBITS < length fs"
  shows "finger_set (fs[i := cn]) =
    (if chordnode_isnull cn then {} else {cn_epid cn}) \<union> (\<lambda>j. cn_epid (fs ! j)) ` (finger_ix fs - {i})"
proof -
  have "finger_ix (fs[i := cn]) = (if chordnode_isnull cn then {} else {i}) \<union> (finger_ix fs - {i})"
    using assms by (auto simp: finger_ix_def nth_list_update)
  moreover have "(\<lambda>j. cn_epid (fs[i := cn] ! j)) ` (finger_ix fs - {i}) = (\<lambda>j. cn_epid (fs ! j)) ` (finger_ix fs - {i})"
    by (intro image_cong) auto
  ultimately show ?thesis using assms by (simp add: finger_set_def image_Un)
qed

lemma count_instances_card:
  "count_instances crd e = card {i \<in> finger_ix (c_fingers crd). cn_epid (c_fingers crd ! i) = e}"
proof -
  have "distinct (filter (\<lambda>i. \<not> chordnode_isnull (c_fingers crd ! i) \<and> cn_epid (c_fingers crd ! i) = e) [1 ..< MBITS])" by simp
  then have "count_instances crd e = card (set (filter (\<lambda>i. \<not> chordnode_isnull (c_fingers crd ! i) \<and> cn_epid (c_fingers crd ! i) = e) [1 ..< MBITS]))"
    unfolding count_instances_def endpointid_equals_iff by (rule distinct_card [symmetric])
  then show ?thesis by (simp add: finger_ix_def conj_ac)
qed

lemma other_element: "x \<in> A \<Longrightarrow> A \<noteq> {x} \<Longrightarrow> \<exists>y. y \<in> A \<and> y \<noteq> x"
  by blast

lemma finger_set_others:
  assumes i: "i \<in> finger_ix (c_fingers crd)"
  shows "(\<lambda>j. cn_epid (c_fingers crd ! j)) ` (finger_ix (c_fingers crd) - {i}) =
    (if count_instances crd (cn_epid (c_fingers crd ! i)) = 1 then finger_set (c_fingers crd) - {cn_epid (c_fingers crd ! i)}
     else finger_set (c_fingers crd))"
proof -
  let ?f = "\<lambda>j. cn_epid (c_fingers crd ! j)" and ?I = "finger_ix (c_fingers crd)"
  let ?S = "{j \<in> ?I. ?f j = ?f i}"
  have i': "i \<in> ?S" using i by simp
  show ?thesis
  proof (cases "card ?S = 1")
    case True
    then have "?S = {i}" using i' by (metis card_1_singletonE singletonD)
    then have "?f j = ?f i \<longleftrightarrow> j = i" if "j \<in> ?I" for j using that i by blast
    then have "?f ` (?I - {i}) = ?f ` ?I - {?f i}" using i by (auto simp: image_iff)
    then show ?thesis using True by (simp add: count_instances_card finger_set_def)
  next
    case False
    then have "?S \<noteq> {i}" by auto
    from other_element [OF i' this] obtain k where "k \<in> ?S \<and> k \<noteq> i" ..
    then have "k \<in> ?I - {i}" "?f i = ?f k" by auto
    then have "?f i \<in> ?f ` (?I - {i})" by (rule rev_image_eqI)
    then have "?f ` ?I = ?f ` (?I - {i})" using i by (metis image_insert insert_Diff insert_absorb)
    then show ?thesis using False by (simp add: count_instances_card finger_set_def)
  qed
qed

lemma set_finger_table_inv:
  assumes inv: "table_inv P crd" and i: "1 \<le> i" "i < MBITS" and cn: "node_wf cn" and S: "set_finger crd i cn = Some crd'"
  shows "table_inv P crd'"
proof -
  let ?fs = "c_fingers crd" and ?old = "c_fingers crd ! i"
  have L: "length ?fs = Suc MBITS" and T: "lk.tracks P (c_links crd) (finger_set ?fs)" using inv by (simp_all add: table_inv_def)
  let ?l = "if \<not> chordnode_isnull ?old \<and> count_instances crd (cn_epid ?old) = 1 then endpoint_list_remove (c_links crd) (cn_epid ?old) else c_links crd"
  let ?rest = "(\<lambda>j. cn_epid (?fs ! j)) ` (finger_ix ?fs - {i})"
  have rest: "lk.tracks P ?l ?rest"
  proof (cases "chordnode_isnull ?old")
    case True
    then have "finger_ix ?fs - {i} = finger_ix ?fs" by (auto simp: finger_ix_def)
    then show ?thesis using True T by (simp add: finger_set_def)
  next
    case False
    then have "i \<in> finger_ix ?fs" using i by (simp add: finger_ix_def)
    note O = finger_set_others [OF this]
    show ?thesis unfolding O using False T lk.tracks_del [OF T] by simp
  qed
  have fs: "list_all node_wf (?fs[i := cn])"
    using inv cn set_update_subset_insert [of ?fs i cn] by (auto simp: table_inv_def list_all_iff)
  show ?thesis
  proof (cases "cn_id ?old = cn_id cn \<and> cn_epid ?old = cn_epid cn")
    case True
    then show ?thesis using S inv L i by (auto simp: set_finger_def)
  next
    case False
    then have S': "crd' = crd\<lparr>c_fingers := ?fs[i := cn], c_links := (if chordnode_isnull cn then ?l else add_link (cn_epid cn) ?l)\<rparr>"
      using S L i by (auto simp: set_finger_def Let_def split: if_splits)
    have "lk.tracks P (c_links crd') (finger_set (?fs[i := cn]))"
      using rest lk.tracks_add [OF rest, of "cn_epid cn"] L i by (auto simp: S' finger_set_update)
    then show ?thesis using inv fs i unfolding S' by (simp add: table_inv_def)
  qed
qed

lemma table_inv_lengths:
  assumes "table_inv P crd"
  shows "length (c_fingers crd) = Suc MBITS" "length (c_successors crd) = Suc NSUCCESSORS" "node_wf (c_self crd)"
    "\<And>i. i \<le> NSUCCESSORS \<Longrightarrow> node_wf (c_successors crd ! i)" "c_fingers crd ! MBITS = null_node"
  using assms by (auto simp: table_inv_def list_all_length)

lemma finger_range:
  "\<forall>i \<in> set [1 ..< Suc MBITS]. 0 < i \<and> i \<le> MBITS" "\<forall>i \<in> set [2 ..< Suc MBITS]. 0 < i \<and> i \<le> MBITS"
  by auto

lemma set_finger_last_null: "table_inv P crd \<Longrightarrow> set_finger crd MBITS null_node = Some crd"
  by (simp add: set_finger_def table_inv_lengths)

text \<open>Clearing a range of fingers, as \<open>chord_clear_tables\<close> and the exit handler do.\<close>

lemma set_finger_null_table_inv:
  assumes "table_inv P crd" "0 < i" "i \<le> MBITS" "set_finger crd i null_node = Some crd'"
  shows "table_inv P crd'"
  using assms set_finger_last_null [OF assms(1)] set_finger_table_inv [OF assms(1), of i null_node crd']
  by (cases "i = MBITS") auto

lemma set_fingers_null_table_inv:
  assumes "table_inv P crd" "\<forall>i \<in> set js. 0 < i \<and> i \<le> MBITS" "set_fingers crd js null_node = Some crd'"
  shows "table_inv P crd'"
  using assms by (induction js arbitrary: crd) (auto split: Option.bind_splits intro: set_finger_null_table_inv)

lemma set_finger_same_fields:
  assumes "set_finger crd i cn = Some crd'"
  shows "c_self crd' = c_self crd" "c_successors crd' = c_successors crd" "c_initial crd' = c_initial crd"
    "c_caller crd' = c_caller crd" "c_shutdown crd' = c_shutdown crd" "length (c_fingers crd') = length (c_fingers crd)"
    "i < length (c_fingers crd)"
  using assms by (auto simp: set_finger_def Let_def split: if_splits)

lemma set_fingers_shutdown: "set_fingers crd js cn = Some crd' \<Longrightarrow> c_shutdown crd' = c_shutdown crd"
  by (induction js arbitrary: crd) (auto split: Option.bind_splits dest!: set_finger_same_fields(5))

lemma chord_clear_tables_table_inv:
  assumes "table_inv P crd" "chord_clear_tables crd = Some crd'"
  shows "table_inv P crd'"
proof -
  obtain crd1 where S: "set_fingers crd [1 ..< Suc MBITS] null_node = Some crd1"
      and crd': "crd' = crd1\<lparr>c_successors := replicate (Suc NSUCCESSORS) null_node\<rparr>"
    using assms(2) by (auto simp: chord_clear_tables_def split: Option.bind_splits)
  have "table_inv P crd1" using set_fingers_null_table_inv [OF assms(1) finger_range(1) S] .
  then show ?thesis by (simp add: table_inv_def crd' list_all_iff)
qed

lemma set_successor_table_inv:
  "table_inv P crd \<Longrightarrow> node_wf cn \<Longrightarrow> set_successor crd cn = Some crd' \<Longrightarrow> table_inv P crd'"
  unfolding set_successor_def by (rule set_finger_table_inv [of _ _ 1]) (simp_all add: MBITS_def)

lemma chord_join_table_inv:
  assumes "table_inv P crd" "chord_join crd = Some (crd', out)"
  shows "table_inv P crd'"
  using assms(2) chord_clear_tables_table_inv [OF assms(1)]
  by (auto simp: chord_join_def split: Option.bind_splits if_splits intro: set_successor_table_inv table_inv_lengths)

lemma duplicate_detected_table_inv:
  assumes "table_inv P crd" "duplicate_detected crd rand = Some (crd', out)"
  shows "table_inv P crd'"
proof -
  let ?crd = "crd\<lparr>c_self := (c_self crd)\<lparr>cn_id := word_of_nat (rand mod KEYSPACE)\<rparr>\<rparr>"
  have "table_inv P ?crd" using assms(1) by (simp add: table_inv_def node_wf_def chordnode_isnull_def)
  moreover obtain joins where "chord_join ?crd = Some (crd', joins)"
    using assms(2) by (auto simp: duplicate_detected_def Let_def split: Option.bind_splits)
  ultimately show ?thesis by (rule chord_join_table_inv)
qed

subsection \<open>Exits\<close>

lemma clear_exited_table_inv:
  assumes "table_inv P crd" "\<forall>i \<in> set js. 0 < i \<and> i \<le> MBITS" "clear_exited crd js e = Some crd'"
  shows "table_inv P crd'"
  using assms
  by (induction js arbitrary: crd) (auto split: Option.bind_splits if_splits intro: set_finger_null_table_inv)

lemma set_finger_nth:
  assumes "set_finger crd i cn = Some crd'" "j < length (c_fingers crd)"
  shows "cn_epid (c_fingers crd' ! j) = (if j = i then cn_epid cn else cn_epid (c_fingers crd ! j))"
  using assms by (auto simp: set_finger_def Let_def nth_list_update split: if_splits)

lemma clear_exited_nth:
  assumes "clear_exited crd js e = Some crd'" "j < length (c_fingers crd)" "e \<noteq> cn_epid null_node"
  shows "cn_epid (c_fingers crd' ! j) =
    (if j \<in> set js \<and> cn_epid (c_fingers crd ! j) = e then cn_epid null_node else cn_epid (c_fingers crd ! j))"
  using assms(1,2)
proof (induction js arbitrary: crd)
  case (Cons i js)
  show ?case
  proof (cases "cn_epid (c_fingers crd ! i) = e")
    case True
    then obtain crd1 where S: "set_finger crd i null_node = Some crd1" and C: "clear_exited crd1 js e = Some crd'"
      using Cons.prems(1) by (auto split: Option.bind_splits)
    then show ?thesis
      using Cons.IH [OF C] Cons.prems(2) assms(3) True set_finger_same_fields(6) [OF S] set_finger_nth [OF S Cons.prems(2)] by auto
  next
    case False
    then show ?thesis using Cons by auto
  qed
qed simp

text \<open>
  An exit leaves no finger naming the endpoint, provided the first spare successor is another
  endpoint: with the same one, \<open>set_noderef\<close> finds nothing to change.
\<close>

definition spare_ok :: "chord \<Rightarrow> endpointid \<Rightarrow> bool" where
  "spare_ok crd e \<longleftrightarrow> cn_epid (c_successors crd ! 1) \<noteq> e"

lemma finger_set_no:
  assumes "\<And>i. 1 \<le> i \<Longrightarrow> i < MBITS \<Longrightarrow> cn_epid (fs ! i) \<noteq> e"
  shows "e \<notin> finger_set fs"
  using assms by (auto simp: finger_set_def finger_ix_def)

lemma clear_exited_gone:
  assumes C: "clear_exited crd [2 ..< Suc MBITS] e = Some crd'" and L: "length (c_fingers crd) = Suc MBITS"
    and first: "cn_epid (c_fingers crd ! 1) \<noteq> e" and e: "e \<noteq> cn_epid null_node"
  shows "e \<notin> finger_set (c_fingers crd')"
proof (rule finger_set_no)
  fix i assume i: "1 \<le> i" "i < MBITS"
  then show "cn_epid (c_fingers crd' ! i) \<noteq> e"
    using clear_exited_nth [OF C _ e, of i] L e first by (cases "i = 1") (auto simp: MBITS_def)
qed

lemma chord_endpoint_exit_table_inv:
  assumes inv: "table_inv P crd" and S: "chord_endpoint_exit crd e = Some (crd', out)"
    and e: "e \<noteq> cn_epid null_node" and up: "\<not> c_shutdown crd'"
  shows "table_inv P crd' \<and> (spare_ok crd e \<longrightarrow> e \<notin> finger_set (c_fingers crd'))"
proof (cases "e = cn_epid (c_fingers crd ! 1)")
  case False
  then have C: "clear_exited crd [2 ..< Suc MBITS] e = Some crd'"
    using S by (auto simp: chord_endpoint_exit_def split: Option.bind_splits)
  show ?thesis using clear_exited_table_inv [OF inv finger_range(2) C] clear_exited_gone [OF C] table_inv_lengths(1) [OF inv] False e by auto
next
  case True
  have nn: "\<not> chordnode_isnull (c_successors crd ! 1)"
    using S True up by (auto simp: chord_endpoint_exit_def)
  let ?mv = "\<lambda>s. hd s # drop 2 s @ [last s]"
  obtain crd1 where F: "set_finger crd 1 (c_successors crd ! 1) = Some crd1"
      and C: "clear_exited (crd1\<lparr>c_successors := ?mv (c_successors crd1)\<rparr>) [2 ..< Suc MBITS] e = Some crd'"
    using S True nn by (auto simp: chord_endpoint_exit_def Let_def split: Option.bind_splits)
  note L = table_inv_lengths [OF inv]
  have I1: "table_inv P crd1"
    using F set_successor_table_inv [OF inv, of "c_successors crd ! 1"] L(4) [of 1] by (simp add: set_successor_def NSUCCESSORS_def MBITS_def)
  have ne: "c_successors crd1 \<noteq> []" using table_inv_lengths(2) [OF I1] by auto
  have "length (?mv (c_successors crd1)) = Suc NSUCCESSORS" "list_all node_wf (?mv (c_successors crd1))"
    using table_inv_lengths(2) [OF I1] I1 hd_in_set [OF ne] last_in_set [OF ne]
    by (auto simp: NSUCCESSORS_def MBITS_def table_inv_def list_all_iff dest: in_set_dropD)
  then have I2: "table_inv P (crd1\<lparr>c_successors := ?mv (c_successors crd1)\<rparr>)" using I1 by (simp add: table_inv_def)
  moreover have "cn_epid (c_fingers crd1 ! 1) \<noteq> e" if "spare_ok crd e"
    using set_finger_nth [OF F, of 1] L(1) that by (simp add: MBITS_def spare_ok_def)
  ultimately show ?thesis
    using clear_exited_table_inv [OF I2 finger_range(2) C] clear_exited_gone [OF C] table_inv_lengths(1) [OF I2] e by auto
qed

subsection \<open>A run of a Chord process\<close>

text \<open>
  What a message may carry: nodes for which the two null tests agree, tables of the right size,
  and a finger number that \<open>chord_stabilize\<close> asks for (lemma \<open>stabilize_payload\<close>).
\<close>

fun msg_ok :: "chord_msg \<Rightarrow> bool" where
  "msg_ok (INSERT predecessor successor) \<longleftrightarrow> node_wf successor"
| "msg_ok (SET_NEXT new_successor old_successor) \<longleftrightarrow> node_wf new_successor"
| "msg_ok (GOT_SUCCESSOR successor hops payload) \<longleftrightarrow> node_wf successor \<and> payload < int MBITS"
| "msg_ok (REPLY_SUCCLIST sender succs) \<longleftrightarrow> length succs = Suc NSUCCESSORS \<and> list_all node_wf succs"
| "msg_ok (ENDPOINT_EXIT e) \<longleftrightarrow> False"
| "msg_ok m \<longleftrightarrow> True"

lemma stabilize_payload:
  assumes "chord_stabilize crd rand = Some (crd', out)" "(to, FIND_SUCCESSOR key sender hops payload) \<in> set out"
  shows "1 < payload \<and> payload < int MBITS"
proof -
  have "rand mod (MBITS - 2) < MBITS - 2" by (rule mod_less_divisor) (simp add: MBITS_def)
  then show ?thesis using assms by (auto simp: chord_stabilize_def Let_def MBITS_def split: if_splits)
qed

text \<open>
  The events of a process, with the exits that its endpoint has been told of and that are still
  in its mailbox: the endpoint drops the link when the notice arrives, the process acts when it
  reads it. The last component collects the endpoints whose exit was handled while the first
  spare successor was the same endpoint.
\<close>

inductive chord_run :: "chord \<Rightarrow> endpointid multiset \<Rightarrow> endpointid set \<Rightarrow> bool" where
  start: "node_wf \<lparr>cn_id = 0, cn_epid = epid\<rparr> \<Longrightarrow> chord_start (start_chord initial caller) rand epid = Some (crd, out) \<Longrightarrow>
    chord_run crd {#} {}"
| receive: "chord_run crd P Z \<Longrightarrow> \<not> c_shutdown crd \<Longrightarrow> msg_ok m \<Longrightarrow> chord_step crd rand m = Some (crd', out, stop) \<Longrightarrow>
    chord_run crd' P Z"
| lose: "chord_run crd P Z \<Longrightarrow> \<not> c_shutdown crd \<Longrightarrow> e \<noteq> cn_epid null_node \<Longrightarrow>
    chord_run (crd\<lparr>c_links := endpoint_list_remove (c_links crd) e\<rparr>) (add_mset e P) Z"
| exit: "chord_run crd P Z \<Longrightarrow> \<not> c_shutdown crd \<Longrightarrow> e \<in># P \<Longrightarrow> e \<noteq> cn_epid null_node \<Longrightarrow>
    chord_step crd rand (ENDPOINT_EXIT e) = Some (crd', out, stop) \<Longrightarrow>
    chord_run crd' (P - {#e#}) (if spare_ok crd e then Z else insert e Z)"

lemma start_table_inv:
  assumes "node_wf \<lparr>cn_id = 0, cn_epid = epid\<rparr>" "chord_start (start_chord initial caller) rand epid = Some (crd, out)"
  shows "table_inv {} crd"
proof -
  let ?crd = "(start_chord initial caller)\<lparr>c_self := \<lparr>cn_id = word_of_nat (rand mod KEYSPACE), cn_epid = epid\<rparr>\<rparr>"
  have "finger_set (replicate (Suc MBITS) null_node) = {}"
    by (auto simp: finger_set_def finger_ix_def simp del: replicate_Suc)
  then have "table_inv {} ?crd"
    using assms(1) by (simp add: table_inv_def start_chord_def list_all_iff lk.tracks_def node_wf_def chordnode_isnull_def null_node_def endpointid_isnull_def MBITS_def)
  moreover obtain joins where "chord_join ?crd = Some (crd, joins)"
    using assms(2) by (auto simp: chord_start_def Let_def split: Option.bind_splits)
  ultimately show ?thesis by (rule chord_join_table_inv)
qed

lemma chord_step_table_inv:
  assumes inv: "table_inv P crd" and m: "msg_ok m" and S: "chord_step crd rand m = Some (crd', out, stop)"
  shows "table_inv P crd'"
proof (cases m)
  case (INSERT p s)
  then show ?thesis using S m duplicate_detected_table_inv [OF inv] set_successor_table_inv [OF inv]
    by (auto simp: chord_insert_def split: if_splits Option.bind_splits)
next
  case (SET_NEXT n old)
  then show ?thesis using S m inv set_successor_table_inv [OF inv]
    by (auto simp: chord_set_next_def Let_def split: if_splits Option.bind_splits)
next
  case (GOT_SUCCESSOR s h p)
  then show ?thesis using S m set_finger_table_inv [OF inv, of "nat p" s]
    by (auto simp: chord_got_successor_def split: if_splits Option.bind_splits)
next
  case (REPLY_SUCCLIST sender succs)
  then show ?thesis using S m inv by (auto simp: chord_reply_succlist_def table_inv_def split: if_splits)
qed (use S m inv in \<open>auto simp: chord_find_successor_def chord_get_succlist_def chord_stabilize_def chord_get_table_def Let_def split: if_splits\<close>)

lemma chord_run_table_inv:
  assumes "chord_run crd P Z"
  shows "c_shutdown crd \<or> table_inv (set_mset P \<union> Z) crd"
  using assms
proof (induction rule: chord_run.induct)
  case (start epid initial caller rand crd out)
  then show ?case using start_table_inv by simp
next
  case (receive crd P Z m rand crd' out stop)
  then show ?case using chord_step_table_inv by blast
next
  case (lose crd P Z e)
  then show ?case using lk.tracks_lost [of "set_mset P \<union> Z" "c_links crd" "finger_set (c_fingers crd)" e]
    by (auto simp: table_inv_def simp del: endpoint_list_remove_remove1)
next
  case (exit crd P Z e rand crd' out stop)
  then have "chord_endpoint_exit crd e = Some (crd', out)" "table_inv (set_mset P \<union> Z) crd" by auto
  note E = chord_endpoint_exit_table_inv [OF this(2,1) exit.hyps(4)]
  let ?Z = "if spare_ok crd e then Z else insert e Z"
  have "table_inv (set_mset (P - {#e#}) \<union> ?Z) crd'" if "\<not> c_shutdown crd'"
  proof -
    have T: "lk.tracks (set_mset P \<union> Z) (c_links crd') (finger_set (c_fingers crd'))" using E [OF that] by (simp add: table_inv_def)
    have rest: "set_mset P - {e} \<subseteq> set_mset (P - {#e#})" by (auto simp: in_diff_count split: if_splits)
    have "lk.tracks (set_mset (P - {#e#}) \<union> ?Z) (c_links crd') (finger_set (c_fingers crd'))"
    proof (cases "spare_ok crd e")
      case True
      then have "e \<notin> finger_set (c_fingers crd')" using E [OF that] by simp
      from lk.tracks_handled [OF T this] show ?thesis by (rule lk.tracks_mono) (use True rest in auto)
    next
      case False
      show ?thesis by (rule lk.tracks_mono [OF T]) (use False rest in auto)
    qed
    then show ?thesis using E [OF that] by (simp add: table_inv_def)
  qed
  then show ?case by blast
qed

lemma table_inv_check_links:
  assumes "table_inv {} crd"
  shows "check_links crd"
proof -
  let ?epids = "map (\<lambda>i. cn_epid (c_fingers crd ! i)) [1 ..< MBITS]"
  have wf: "chordnode_isnull (c_fingers crd ! i) \<longleftrightarrow> endpointid_isnull (cn_epid (c_fingers crd ! i))" if "i < MBITS" for i
    using assms that by (simp add: table_inv_def list_all_length node_wf_def)
  have "set (c_links crd) = finger_set (c_fingers crd)"
    using assms lk.tracks_exact by (simp add: table_inv_def)
  also have "\<dots> = {e \<in> set ?epids. \<not> endpointid_isnull e}"
    using wf by (auto simp: finger_set_def finger_ix_def)
  finally show ?thesis by (auto simp: check_links_def Let_def link_ok_to_have_def list_all_iff list_ex_iff)
qed

subsection \<open>Two limits of the code\<close>

definition ring_node :: "nat \<Rightarrow> chordnode" where
  "ring_node n = \<lparr>cn_id = word_of_nat n, cn_epid = \<lparr>ep_ip = 1, ep_port = word_of_nat n, ep_localid = 5\<rparr>\<rparr>"

definition ring_chord :: "nat \<Rightarrow> nat list \<Rightarrow> chord" where
  "ring_chord n fs =
     (start_chord (cn_epid null_node) (cn_epid null_node))
       \<lparr>c_self := ring_node n, c_fingers := null_node # map ring_node fs @ replicate (MBITS - length fs) null_node\<rparr>"

text \<open>
  \<open>chord_stabilize\<close> does not reduce the key of a finger modulo the key space. Process 200 asks
  for 264 instead of 8 and is told 5, which precedes 8 on the ring.
\<close>

lemma stabilize_key_not_reduced:
  "chord_stabilize (ring_chord 200 [5]) 5 =
     Some (ring_chord 200 [5],
       [(cn_epid (ring_node 5), GET_SUCCLIST (cn_epid (ring_node 200))),
        (cn_epid (ring_node 200), FIND_SUCCESSOR 264 (cn_epid (ring_node 200)) 0 7)])"
  "lookup 3 [ring_chord 5 [10], ring_chord 10 [200], ring_chord 200 [5]] (cn_epid (ring_node 200)) 264 (cn_epid (ring_node 200)) 0 7 =
     Some [(cn_epid (ring_node 200), GOT_SUCCESSOR (ring_node 5) 0 7)]"
  "lookup 3 [ring_chord 5 [10], ring_chord 10 [200], ring_chord 200 [5]] (cn_epid (ring_node 200)) 8 (cn_epid (ring_node 200)) 0 7 =
     Some [(cn_epid (ring_node 200), GOT_SUCCESSOR (ring_node 10) 1 7)]"
  by code_simp+

text \<open>When the first spare successor is the process that exited, the exit leaves the finger as it
  is, without a link, and the lookups it answers keep naming the dead process.\<close>

lemma stale_spare_keeps_finger:
  "map_option (\<lambda>(crd, out). (c_fingers crd ! 1, c_links crd))
     (chord_endpoint_exit ((ring_chord 10 [100])\<lparr>c_successors := null_node # replicate NSUCCESSORS (ring_node 100)\<rparr>)
       (cn_epid (ring_node 100))) = Some (ring_node 100, [])"
  by code_simp

subsection \<open>Properties\<close>


text \<open>Three processes on the ring; the first one also has a finger that names the third.\<close>

definition ring_example :: "chord list" where
  "ring_example = [ring_chord 10 [100, 100, 250], ring_chord 100 [250], ring_chord 250 [10]]"



text \<open>A process that joins through another one, learns a successor, and loses it again.\<close>

definition run_example :: "(chord \<times> sent \<times> bool) option" where
  "run_example =
     do { (crd, out) \<leftarrow> chord_start (start_chord (cn_epid (ring_node 100)) (cn_epid null_node)) 10 (cn_epid (ring_node 10));
          chord_step crd 0 (INSERT (cn_epid (ring_node 250)) (ring_node 100)) }"

lemma run_example_links:
  "map_option (\<lambda>(crd, out, stop). (c_links crd, c_shutdown crd)) run_example = Some ([cn_epid (ring_node 100)], False)"
  by code_simp


end
