(* ===== verification/Ports.thy ===== *)
theory Ports
  imports Prelude
begin

text \<open>
  The pool of client-side ports (\<^verbatim>\<open>portset\<close> of \<^verbatim>\<open>network/connection.c\<close>): ports never used so far,
  then a ring buffer of released ports. It is shown to refine a set of free ports, and the
  contract that the connections rely on is the locale \<open>port_pool\<close>.
\<close>

subsection \<open>Code\<close>

record portset =
  ps_min :: int
  ps_max :: int
  ps_upto :: int
  ps_size :: int
  ps_count :: nat
  ps_ports :: "int list"
  ps_start :: nat
  ps_end :: nat

definition portset_init :: "int \<Rightarrow> int \<Rightarrow> portset" where
  "portset_init lo hi =
     \<lparr>ps_min = lo, ps_max = hi, ps_upto = lo, ps_size = hi + 1 - lo, ps_count = 0,
      ps_ports = replicate (nat (hi + 1 - lo)) 0, ps_start = 0, ps_end = 0\<rparr>"

definition portset_allocport :: "portset \<Rightarrow> int \<times> portset" where
  "portset_allocport pb =
     (if ps_upto pb \<le> ps_max pb then (ps_upto pb, pb\<lparr>ps_upto := ps_upto pb + 1\<rparr>)
      else if 0 < ps_count pb
      then (ps_ports pb ! ps_start pb,
            pb\<lparr>ps_start := (ps_start pb + 1) mod nat (ps_size pb), ps_count := ps_count pb - 1\<rparr>)
      else (- 1, pb))"

definition portset_releaseport :: "portset \<Rightarrow> int \<Rightarrow> portset option" where
  "portset_releaseport pb port =
     (if length (ps_ports pb) \<le> ps_end pb then None
      else
        let pb1 = pb\<lparr>ps_ports := (ps_ports pb)[ps_end pb := port],
                     ps_end := (ps_end pb + 1) mod nat (ps_size pb), ps_count := ps_count pb + 1\<rparr>
        in if int (ps_count pb1) \<le> ps_size pb1 then Some pb1 else None)"

text \<open>The answer of \<^verbatim>\<open>bind\<close> for a port is an argument. Every round takes a port out of the pool.\<close>

datatype bind_result = Bound | Addr_In_Use | Bind_Failed

function bind_client_port :: "(int \<Rightarrow> bind_result) \<Rightarrow> portset \<Rightarrow> int \<times> portset" where
  "bind_client_port os_bind pb =
     (case portset_allocport pb of (clientport, pb1) \<Rightarrow>
        if clientport < 0 then (- 1, pb1)
        else case os_bind clientport of
               Bound \<Rightarrow> (clientport, pb1)
             | Addr_In_Use \<Rightarrow> bind_client_port os_bind pb1
             | Bind_Failed \<Rightarrow> (- 1, pb1))"
  by pat_completeness auto
termination
  by (relation "measure (\<lambda>(os_bind, pb). nat (ps_max pb + 1 - ps_upto pb) + ps_count pb)")
    (auto simp: portset_allocport_def split: if_splits)

declare bind_client_port.simps [simp del]

subsection \<open>Abstraction\<close>

text \<open>The queue of released ports, oldest first.\<close>

definition released :: "portset \<Rightarrow> int list" where
  "released pb = map (\<lambda>i. ps_ports pb ! ((ps_start pb + i) mod nat (ps_size pb))) [0 ..< ps_count pb]"

definition free_ports :: "portset \<Rightarrow> int set" where
  "free_ports pb = {ps_upto pb .. ps_max pb} \<union> set (released pb)"

definition port_range :: "portset \<Rightarrow> int set" where
  "port_range pb = {ps_min pb .. ps_max pb}"

definition portset_ok :: "portset \<Rightarrow> bool" where
  "portset_ok pb \<longleftrightarrow>
     0 \<le> ps_min pb \<and> ps_min pb \<le> ps_max pb \<and> ps_min pb \<le> ps_upto pb \<and> ps_upto pb \<le> ps_max pb + 1 \<and>
     ps_size pb = ps_max pb + 1 - ps_min pb \<and> length (ps_ports pb) = nat (ps_size pb) \<and>
     ps_start pb < nat (ps_size pb) \<and> ps_count pb \<le> nat (ps_size pb) \<and>
     ps_end pb = (ps_start pb + ps_count pb) mod nat (ps_size pb) \<and>
     distinct (released pb) \<and> set (released pb) \<subseteq> {ps_min pb ..< ps_upto pb}"

lemma length_released [simp]: "length (released pb) = ps_count pb"
  by (simp add: released_def)

lemma portset_init_ok: "0 \<le> lo \<Longrightarrow> lo \<le> hi \<Longrightarrow> portset_ok (portset_init lo hi)"
  by (auto simp: portset_ok_def portset_init_def released_def)

text \<open>Taking the oldest port and adding a port are the queue operations.\<close>

lemma released_take:
  assumes "portset_ok pb" "0 < ps_count pb"
  shows "released pb = ps_ports pb ! ps_start pb #
    released (pb\<lparr>ps_start := (ps_start pb + 1) mod nat (ps_size pb), ps_count := ps_count pb - 1\<rparr>)"
proof -
  obtain c where c: "ps_count pb = Suc c" using assms(2) by (cases "ps_count pb") auto
  have "ps_start pb mod nat (ps_size pb) = ps_start pb"
    by (rule mod_less) (use assms(1) in \<open>unfold portset_ok_def, blast\<close>)
  then show ?thesis
    unfolding released_def c by (simp add: upt_rec [of 0] map_Suc_upt [symmetric] mod_add_left_eq del: upt_Suc)
qed

lemma ring_index_other:
  assumes "i < c" "c < (m :: nat)"
  shows "(s + i) mod m \<noteq> (s + c) mod m"
proof
  assume "(s + i) mod m = (s + c) mod m"
  then have "m dvd (s + c) - (s + i)" using assms by (metis add_le_cancel_left less_or_eq_imp_le mod_eq_dvd_iff_nat)
  then have "m \<le> c - i" using assms by (intro dvd_imp_le) auto
  then show False using assms by simp
qed

lemma ring_index_next:
  assumes "0 < c"
  shows "((s + 1) mod m + (c - 1)) mod m = (s + c) mod (m :: nat)"
  using assms by (cases c) (simp_all add: mod_add_left_eq)

lemma released_add:
  assumes ok: "portset_ok pb" and room: "ps_count pb < nat (ps_size pb)"
  shows "released (pb\<lparr>ps_ports := (ps_ports pb)[ps_end pb := port], ps_end := e, ps_count := ps_count pb + 1\<rparr>) =
    released pb @ [port]"
proof -
  let ?m = "nat (ps_size pb)"
  have e: "ps_end pb = (ps_start pb + ps_count pb) mod ?m" "ps_end pb < length (ps_ports pb)"
    using ok room by (auto simp: portset_ok_def)
  have "(ps_ports pb)[ps_end pb := port] ! ((ps_start pb + i) mod ?m) = ps_ports pb ! ((ps_start pb + i) mod ?m)"
    if "i < ps_count pb" for i
    using ring_index_other [OF that room, of "ps_start pb"] e by (simp add: nth_list_update_neq)
  then show ?thesis using e by (simp add: released_def)
qed
subsection \<open>Contract\<close>

text \<open>
  What a user of the pool relies on. A port that \<open>alloc\<close> returns was free and no longer is; it
  can be given back while it is neither free nor outside the range. \<open>held\<close> relates the pool to
  the ports its users hold.
\<close>

locale port_pool =
  fixes alloc :: "'s \<Rightarrow> int \<times> 's" and release :: "'s \<Rightarrow> int \<Rightarrow> 's option"
    and free range :: "'s \<Rightarrow> int set" and ok :: "'s \<Rightarrow> bool"
  assumes alloc_none: "ok s \<Longrightarrow> alloc s = (p, s') \<Longrightarrow> p < 0 \<Longrightarrow> s' = s \<and> free s = {}"
    and alloc_port: "ok s \<Longrightarrow> alloc s = (p, s') \<Longrightarrow> 0 \<le> p \<Longrightarrow>
      p \<in> free s \<and> free s' = free s - {p} \<and> range s' = range s \<and> ok s'"
    and release_port: "ok s \<Longrightarrow> p \<in> range s \<Longrightarrow> p \<notin> free s \<Longrightarrow>
      \<exists>s'. release s p = Some s' \<and> free s' = insert p (free s) \<and> range s' = range s \<and> ok s'"
    and free_range: "ok s \<Longrightarrow> free s \<subseteq> range s"
begin

definition held :: "'s \<Rightarrow> int set \<Rightarrow> bool" where
  "held s U \<longleftrightarrow> ok s \<and> U \<subseteq> range s \<and> U \<inter> free s = {}"

lemma held_alloc: "held s U \<Longrightarrow> alloc s = (p, s') \<Longrightarrow> 0 \<le> p \<Longrightarrow> held s' (insert p U) \<and> p \<notin> U"
  using alloc_port [of s p s'] free_range [of s] by (auto simp: held_def)

lemma held_mono: "held s U \<Longrightarrow> V \<subseteq> U \<Longrightarrow> held s V"
  by (auto simp: held_def)

lemma held_release:
  assumes "held s U" "p \<in> U"
  shows "\<exists>s'. release s p = Some s' \<and> held s' (U - {p})"
proof -
  have "ok s" "p \<in> range s" "p \<notin> free s" using assms by (auto simp: held_def)
  from release_port [OF this] obtain s' where "release s p = Some s'" "free s' = insert p (free s)" "range s' = range s" "ok s'"
    by blast
  then show ?thesis using assms by (intro exI [of _ s']) (auto simp: held_def)
qed

end

lemma released_bound: "portset_ok pb \<Longrightarrow> set (released pb) \<subseteq> {ps_min pb ..< ps_upto pb} \<and> distinct (released pb)"
  by (simp add: portset_ok_def)

lemma portset_okD:
  assumes "portset_ok pb"
  shows "ps_count pb \<le> nat (ps_size pb)" "ps_end pb = (ps_start pb + ps_count pb) mod nat (ps_size pb)"
    "0 < nat (ps_size pb)" "length (ps_ports pb) = nat (ps_size pb)" "ps_end pb < length (ps_ports pb)"
proof -
  note ok = assms [unfolded portset_ok_def]
  show "ps_count pb \<le> nat (ps_size pb)" "length (ps_ports pb) = nat (ps_size pb)" using ok by blast+
  show e: "ps_end pb = (ps_start pb + ps_count pb) mod nat (ps_size pb)" using ok by blast
  show m: "0 < nat (ps_size pb)" using ok by linarith
  show "ps_end pb < length (ps_ports pb)" using ok e m by (metis mod_less_divisor)
qed

lemma portset_okI:
  assumes "portset_ok pb" "ps_min pb' = ps_min pb" "ps_max pb' = ps_max pb" "ps_upto pb' = ps_upto pb" "ps_size pb' = ps_size pb"
    "length (ps_ports pb') = length (ps_ports pb)" "ps_start pb' < nat (ps_size pb)" "ps_count pb' \<le> nat (ps_size pb)"
    "ps_end pb' = (ps_start pb' + ps_count pb') mod nat (ps_size pb)" "distinct (released pb')"
    "set (released pb') \<subseteq> {ps_min pb ..< ps_upto pb}"
  shows "portset_ok pb'"
  using assms unfolding portset_ok_def by auto

lemma portset_alloc_port:
  assumes ok: "portset_ok pb" and A: "portset_allocport pb = (p, pb')" and p: "0 \<le> p"
  shows "p \<in> free_ports pb \<and> free_ports pb' = free_ports pb - {p} \<and> port_range pb' = port_range pb \<and> portset_ok pb'"
proof (cases "ps_upto pb \<le> ps_max pb")
  case True
  then have "p = ps_upto pb" "pb' = pb\<lparr>ps_upto := ps_upto pb + 1\<rparr>" using A by (auto simp: portset_allocport_def)
  moreover have "released (pb\<lparr>ps_upto := ps_upto pb + 1\<rparr>) = released pb" by (simp add: released_def)
  moreover have "portset_ok (pb\<lparr>ps_upto := ps_upto pb + 1\<rparr>)"
    using ok True by (auto simp: portset_ok_def released_def)
  ultimately show ?thesis using released_bound [OF ok] True by (auto simp: free_ports_def port_range_def)
next
  case False
  then have c: "0 < ps_count pb" using A p by (auto simp: portset_allocport_def split: if_splits)
  let ?pb = "pb\<lparr>ps_start := (ps_start pb + 1) mod nat (ps_size pb), ps_count := ps_count pb - 1\<rparr>"
  have pb': "p = ps_ports pb ! ps_start pb" "pb' = ?pb" using A False c by (auto simp: portset_allocport_def)
  have R: "released pb = p # released ?pb" using released_take [OF ok c] pb' by simp
  then have "distinct (p # released ?pb)" "set (p # released ?pb) \<subseteq> {ps_min pb ..< ps_upto pb}" using released_bound [OF ok] by simp_all
  moreover note D = portset_okD [OF ok]
  ultimately have "portset_ok ?pb"
    using ring_index_next [OF c, of "ps_start pb" "nat (ps_size pb)"]
    by (intro portset_okI [OF ok]) (simp_all add: le_diff_conv trans_le_add1)
  moreover have "p \<notin> {ps_upto pb .. ps_max pb}" using False by simp
  ultimately show ?thesis using pb'(2) R \<open>distinct (p # released ?pb)\<close> by (auto simp: free_ports_def port_range_def)
qed

lemma portset_alloc_none:
  assumes "portset_ok pb" "portset_allocport pb = (p, pb')" "p < 0"
  shows "pb' = pb \<and> free_ports pb = {}"
proof -
  have "ps_ports pb ! ps_start pb \<in> set (released pb)" if "0 < ps_count pb"
    using released_take [OF assms(1) that] by simp
  then have "0 \<le> ps_ports pb ! ps_start pb" if "0 < ps_count pb"
    using released_bound [OF assms(1)] that assms(1) by (fastforce simp: portset_ok_def)
  then have "\<not> ps_upto pb \<le> ps_max pb \<and> ps_count pb = 0 \<and> pb' = pb"
    using assms by (auto simp: portset_allocport_def portset_ok_def split: if_splits)
  then show ?thesis by (simp add: free_ports_def released_def)
qed

lemma release_room:
  assumes ok: "portset_ok pb" and p: "p \<in> port_range pb" "p \<notin> free_ports pb"
  shows "ps_count pb < nat (ps_size pb)"
proof -
  have pr: "p \<in> {ps_min pb ..< ps_upto pb}" "p \<notin> set (released pb)"
    using p by (auto simp: port_range_def free_ports_def)
  have "card (set (p # released pb)) \<le> card {ps_min pb ..< ps_upto pb}"
    using pr released_bound [OF ok] by (intro card_mono) auto
  then have "Suc (ps_count pb) \<le> nat (ps_upto pb - ps_min pb)"
    using pr released_bound [OF ok] by (simp add: distinct_card)
  then show ?thesis using ok by (auto simp: portset_ok_def)
qed

lemma portset_release_port:
  assumes ok: "portset_ok pb" and p: "p \<in> port_range pb" "p \<notin> free_ports pb"
  shows "\<exists>pb'. portset_releaseport pb p = Some pb' \<and> free_ports pb' = insert p (free_ports pb) \<and>
    port_range pb' = port_range pb \<and> portset_ok pb'"
proof -
  let ?m = "nat (ps_size pb)"
  have pr: "p \<in> {ps_min pb ..< ps_upto pb}" "p \<notin> set (released pb)"
    using p by (auto simp: port_range_def free_ports_def)
  have room: "ps_count pb < ?m" "ps_count pb + 1 \<le> ?m" using release_room [OF ok p] by simp_all
  let ?pb = "pb\<lparr>ps_ports := (ps_ports pb)[ps_end pb := p], ps_end := (ps_end pb + 1) mod ?m, ps_count := ps_count pb + 1\<rparr>"
  have R: "released ?pb = released pb @ [p]" by (rule released_add [OF ok room(1)])
  have "portset_releaseport pb p = Some ?pb"
    using room portset_okD(5) [OF ok] by (auto simp: portset_releaseport_def)
  moreover have "portset_ok ?pb"
    using room pr R released_bound [OF ok] ok portset_okD(2) [OF ok]
    by (intro portset_okI [OF ok]) (auto simp: portset_ok_def mod_add_left_eq add.assoc simp del: One_nat_def)
  ultimately show ?thesis using R by (auto simp: free_ports_def port_range_def)
qed

interpretation pp: port_pool portset_allocport portset_releaseport free_ports port_range portset_ok
proof unfold_locales
  show "free_ports pb \<subseteq> port_range pb" if "portset_ok pb" for pb
    using that by (auto simp: free_ports_def port_range_def portset_ok_def)
qed (use portset_alloc_none portset_alloc_port portset_release_port in blast)+

text \<open>A bound port was free, and the system accepted it; the ports tried before it are used by
  other programs and leave the pool.\<close>

lemma bind_client_port_held:
  assumes "pp.held pb U" "bind_client_port os_bind pb = (p, pb')"
  shows "pp.held pb' U \<and> (0 \<le> p \<longrightarrow> pp.held pb' (insert p U) \<and> p \<notin> U \<and> os_bind p = Bound)"
  using assms
proof (induction os_bind pb arbitrary: U rule: bind_client_port.induct)
  case (1 os_bind pb)
  obtain q pb1 where A: "portset_allocport pb = (q, pb1)" by force
  show ?case
  proof (cases "q < 0")
    case True
    then show ?thesis using 1(2,3) A pp.alloc_none [OF _ A] by (auto simp: bind_client_port.simps pp.held_def)
  next
    case False
    then have H: "pp.held pb1 (insert q U)" "q \<notin> U" using pp.held_alloc [OF 1(2) A] by auto
    then have U: "pp.held pb1 U" by (auto intro: pp.held_mono)
    show ?thesis
    proof (cases "os_bind q")
      case Bound
      then show ?thesis using 1(3) A False H U by (auto simp: bind_client_port.simps)
    next
      case Addr_In_Use
      then show ?thesis using 1(1) [OF A [symmetric] False Addr_In_Use U] 1(3) A False
        by (simp add: bind_client_port.simps [of os_bind pb])
    next
      case Bind_Failed
      then show ?thesis using 1(3) A False U by (auto simp: bind_client_port.simps)
    qed
  qed
qed

lemma bind_client_port_max: "bind_client_port os_bind pb = (p, pb') \<Longrightarrow> ps_max pb' = ps_max pb"
proof (induction os_bind pb rule: bind_client_port.induct)
  case (1 os_bind pb)
  obtain q pb1 where A: "portset_allocport pb = (q, pb1)" by force
  then have m: "ps_max pb1 = ps_max pb" by (auto simp: portset_allocport_def split: if_splits)
  show ?case using 1(1) [OF A [symmetric]] 1(2) A m
    by (cases "os_bind q") (auto simp: bind_client_port.simps [of os_bind pb] split: if_splits)
qed

subsection \<open>Properties\<close>

text \<open>C20: Choosing a client port always ends. The port it returns lies in the configured range,
  is one the system accepted, is held by no other connection, and can later be given back; on
  failure no port held by a connection is lost.\<close>

theorem bind_client_port_correct:
  assumes "portset_ok pb" "U \<subseteq> port_range pb" "U \<inter> free_ports pb = {}" "bind_client_port os_bind pb = (p, pb')"
  shows "portset_ok pb' \<and> U \<inter> free_ports pb' = {} \<and>
    (p < 0 \<or> p \<in> port_range pb' \<and> os_bind p = Bound \<and> p \<notin> U \<and> p \<notin> free_ports pb' \<and>
      (\<exists>pb2. portset_releaseport pb' p = Some pb2 \<and> portset_ok pb2 \<and> free_ports pb2 = insert p (free_ports pb')))"
proof -
  have "pp.held pb U" using assms by (simp add: pp.held_def)
  note B = bind_client_port_held [OF this assms(4)]
  then show ?thesis using pp.release_port [of pb' p] by (cases "p < 0") (auto simp: pp.held_def)
qed

text \<open>Ports 5000 to 5002: the first is held, the second is used by another program.\<close>

definition ports_example :: portset where
  "ports_example = snd (portset_allocport (portset_init 5000 5002))"

theorem bind_client_port_correct_witness:
  "bind_client_port (\<lambda>p. if p = 5001 then Addr_In_Use else Bound) ports_example = (5002, (portset_init 5000 5002)\<lparr>ps_upto := 5003\<rparr>) \<and>
   (5002 :: int) \<notin> {5000}"
proof -
  let ?b = "\<lambda>p. if p = 5001 then Addr_In_Use else Bound"
  have B: "bind_client_port ?b ports_example = (5002, (portset_init 5000 5002)\<lparr>ps_upto := 5003\<rparr>)" by code_simp
  have f: "free_ports ports_example = {5001 .. 5002}" by (simp add: ports_example_def portset_init_def portset_allocport_def free_ports_def released_def)
  have "portset_ok ports_example" "{5000} \<subseteq> port_range ports_example" "{5000} \<inter> free_ports ports_example = {}"
    unfolding f by (auto simp: ports_example_def portset_init_def portset_allocport_def portset_ok_def released_def port_range_def)
  from bind_client_port_correct [OF this B] B show ?thesis by simp
qed

text \<open>C25: The pool refines a queue: a release appends the port, and an allocation takes the next
  port never used while there is one, then the oldest released port, and fails only when none
  is left.\<close>

theorem portset_refines_queue:
  assumes "portset_ok pb"
  shows "(p \<in> port_range pb \<and> p \<notin> free_ports pb \<longrightarrow>
      map_option (\<lambda>pb'. (ps_upto pb', released pb')) (portset_releaseport pb p) = Some (ps_upto pb, released pb @ [p])) \<and>
    (case portset_allocport pb of (q, pb') \<Rightarrow> (q, ps_upto pb', released pb')) =
      (if ps_upto pb \<le> ps_max pb then (ps_upto pb, ps_upto pb + 1, released pb)
       else case released pb of [] \<Rightarrow> (- 1, ps_upto pb, []) | q # qs \<Rightarrow> (q, ps_upto pb, qs))"
proof (intro conjI impI)
  assume "p \<in> port_range pb \<and> p \<notin> free_ports pb"
  then have room: "ps_count pb < nat (ps_size pb)" "ps_end pb < length (ps_ports pb)"
    using release_room [OF assms, of p] portset_okD(5) [OF assms] by auto
  then show "map_option (\<lambda>pb'. (ps_upto pb', released pb')) (portset_releaseport pb p) = Some (ps_upto pb, released pb @ [p])"
    using released_add [OF assms room(1)] by (auto simp: portset_releaseport_def)
next
  show "(case portset_allocport pb of (q, pb') \<Rightarrow> (q, ps_upto pb', released pb')) =
      (if ps_upto pb \<le> ps_max pb then (ps_upto pb, ps_upto pb + 1, released pb)
       else case released pb of [] \<Rightarrow> (- 1, ps_upto pb, []) | q # qs \<Rightarrow> (q, ps_upto pb, qs))"
    using released_take [OF assms] by (cases "ps_count pb") (auto simp: portset_allocport_def released_def)
qed

theorem portset_refines_queue_witness:
  "map_option (\<lambda>pb'. (ps_upto pb', released pb')) (portset_releaseport ports_example 5000) = Some (5001, [5000])"
proof -
  have ok: "portset_ok ports_example"
    by (auto simp: ports_example_def portset_init_def portset_allocport_def portset_ok_def released_def)
  have "5000 \<in> port_range ports_example \<and> 5000 \<notin> free_ports ports_example" "released ports_example = []" "ps_upto ports_example = 5001"
    by (auto simp: ports_example_def portset_init_def portset_allocport_def free_ports_def port_range_def released_def)
  then show ?thesis using portset_refines_queue [OF ok, of 5000] by simp
qed

end
