(* ===== verification/Connections.thy ===== *)
theory Connections
  imports Ports Endpoints
begin

text \<open>
  Sockets of a node and their state machine (\<^verbatim>\<open>network/connection.c\<close>, \<^verbatim>\<open>network/notify.c\<close>, the
  connection table and the per-server queues of \<^verbatim>\<open>network/node.c\<close>).

  A pointer to a connection is its socket number, the key of \<open>n_store\<close>; a pointer to a
  \<^verbatim>\<open>serverinfo\<close> is the address of its server. Doubly linked lists are lists of pointers.
  What the operating system answers is an argument. Messages to owners, the disconnection of a
  peer node and \<^verbatim>\<open>shutdown\<close> calls are appended to \<open>n_out\<close> in the order of the calls; error
  texts and log output are left out. \<open>None\<close> is a failed assertion or \<^verbatim>\<open>fatal\<close>.
\<close>

subsection \<open>Data\<close>

datatype conn_state =
    CS_START | CS_WAITING | CS_READY | CS_FAILED | CS_CONNECTING | CS_CONNECTED | CS_CONNECTED_DONE_WRITING
  | CS_ACCEPTED | CS_ACCEPTED_DONE_WRITING | CS_ACCEPTED_DONE_READING | CS_FINISHED | CS_END

datatype conn_event =
    CE_AUTO | CE_REQUESTED | CE_SLOT_AVAILABLE | CE_ATTEMPT_FAILED | CE_ASYNC_STARTED | CE_ASYNC_FAILED | CE_ASYNC_OK
  | CE_FINWRITE | CE_FINREAD | CE_ERROR | CE_DELETE | CE_READ | CE_CLIENT_CONNECTED

record socketid =
  so_coordid :: endpointid
  so_sid :: u32

record connection =
  k_sockid :: socketid
  k_ip :: u32
  k_port :: int
  k_sock :: int
  k_outport :: int
  k_listener :: "u32 option"
  k_recvbuf :: "byte list option"
  k_sendbuf :: "byte list option"
  k_outgoing :: bool
  k_donewelcome :: bool
  k_donehandshake :: bool
  k_isreg :: bool
  k_finwrite :: bool
  k_collected :: bool
  k_dontread :: bool
  k_connect_frame :: int
  k_read_frame :: int
  k_write_frame :: int
  k_totalread :: int
  k_totalwritten :: int
  k_owner :: endpointid
  k_errn :: int
  k_iswaiting :: bool
  k_isopening :: bool
  k_isaccepted :: bool
  k_state :: conn_state
  k_haderror :: bool

record serverinfo =
  s_ip :: u32
  s_nwaiting :: int
  s_nopening :: int
  s_naccepted :: int
  s_waiting :: "u32 list"

record netstats =
  ns_ip :: u32
  ns_port :: int
  ns_totalread :: int
  ns_totalwritten :: int

record listener =
  l_sockid :: socketid
  l_ip :: u32
  l_port :: int
  l_fd :: int
  l_dontaccept :: bool
  l_accept_frame :: int
  l_owner :: endpointid
  l_notify :: bool

datatype io_out =
    ConnectResponse endpointid int bool int socketid
  | ReadResponse endpointid int socketid "byte list"
  | WriteResponse endpointid int
  | AcceptResponse endpointid int socketid int
  | ListenResponse endpointid int bool socketid
  | ConnpairResponse endpointid int bool socketid socketid
  | ConnectionClosed endpointid socketid bool
  | Disconnected u32 int
  | ShutdownRead socketid
  | ShutdownWrite socketid
  | Received msgheader endpointid "byte list"
  | LinkOwner endpointid
  | ConsoleStarted socketid

record net =
  n_iothid :: endpointid
  n_listenport :: u16
  n_iosize :: nat
  n_mainl :: u32
  n_connections :: "u32 list"
  n_listeners :: "listener list"
  n_servers :: "serverinfo list"
  n_store :: "u32 \<Rightarrow> connection option"
  n_connhash :: "nat \<Rightarrow> u32 list"
  n_outports :: portset
  n_toclose :: "int list"
  n_stats :: "netstats list"
  n_nextsid :: u32
  n_out :: "io_out list"

definition CONNECTION_HASH_SIZE :: nat where "CONNECTION_HASH_SIZE = 7919"
definition MAX_OPENING :: int where "MAX_OPENING = 3"

definition null_sockid :: socketid where
  "null_sockid = \<lparr>so_coordid = \<lparr>ep_ip = 0, ep_port = 0, ep_localid = 0\<rparr>, so_sid = 0\<rparr>"

definition socketid_equals :: "socketid \<Rightarrow> socketid \<Rightarrow> bool" where
  "socketid_equals a b \<longleftrightarrow> endpointid_equals (so_coordid a) (so_coordid b) \<and> so_sid a = so_sid b"

definition socketid_isnull :: "socketid \<Rightarrow> bool" where
  "socketid_isnull a \<longleftrightarrow> 0 = so_sid a"

definition WAITING_STATE :: "conn_state \<Rightarrow> bool" where
  "WAITING_STATE s \<longleftrightarrow> s = CS_WAITING"

definition OPENING_STATE :: "conn_state \<Rightarrow> bool" where
  "OPENING_STATE s \<longleftrightarrow> s = CS_READY \<or> s = CS_CONNECTING \<or> s = CS_CONNECTED \<or> s = CS_CONNECTED_DONE_WRITING"

definition ACCEPTED_STATE :: "conn_state \<Rightarrow> bool" where
  "ACCEPTED_STATE s \<longleftrightarrow> s = CS_ACCEPTED \<or> s = CS_ACCEPTED_DONE_READING \<or> s = CS_ACCEPTED_DONE_WRITING"

definition CANREAD :: "connection \<Rightarrow> bool" where
  "CANREAD c \<longleftrightarrow> k_state c = CS_CONNECTED \<or> k_state c = CS_CONNECTED_DONE_WRITING \<or>
     k_state c = CS_ACCEPTED \<or> k_state c = CS_ACCEPTED_DONE_WRITING"

definition CANWRITE :: "connection \<Rightarrow> bool" where
  "CANWRITE c \<longleftrightarrow> k_state c = CS_CONNECTED \<or> k_state c = CS_ACCEPTED \<or> k_state c = CS_ACCEPTED_DONE_READING"

subsection \<open>Lists, servers and the connection table\<close>

definition llist_remove :: "'a \<Rightarrow> 'a list \<Rightarrow> 'a list option" where
  "llist_remove x xs = (if x \<in> set xs then Some (remove1 x xs) else None)"

definition set_conn :: "net \<Rightarrow> u32 \<Rightarrow> connection \<Rightarrow> net" where
  "set_conn n sid c = n\<lparr>n_store := (n_store n)(sid \<mapsto> c)\<rparr>"

definition emit :: "net \<Rightarrow> io_out list \<Rightarrow> net" where
  "emit n os = n\<lparr>n_out := n_out n @ os\<rparr>"

definition find_server :: "net \<Rightarrow> u32 \<Rightarrow> serverinfo option" where
  "find_server n ip = find (\<lambda>si. s_ip si = ip) (n_servers n)"

definition set_server :: "net \<Rightarrow> serverinfo \<Rightarrow> net" where
  "set_server n si = n\<lparr>n_servers := map (\<lambda>s. if s_ip s = s_ip si then si else s) (n_servers n)\<rparr>"

definition get_serverinfo :: "net \<Rightarrow> u32 \<Rightarrow> net" where
  "get_serverinfo n ip =
     (case find_server n ip of
        Some si \<Rightarrow> n
      | None \<Rightarrow> n\<lparr>n_servers := \<lparr>s_ip = ip, s_nwaiting = 0, s_nopening = 0, s_naccepted = 0, s_waiting = []\<rparr> # n_servers n\<rparr>)"

definition connhash_slot :: "u32 \<Rightarrow> nat" where
  "connhash_slot sid = unat sid mod CONNECTION_HASH_SIZE"

definition connhash_lookup :: "net \<Rightarrow> socketid \<Rightarrow> u32 option" where
  "connhash_lookup n sockid =
     find (\<lambda>sid. case n_store n sid of Some c \<Rightarrow> socketid_equals (k_sockid c) sockid | None \<Rightarrow> False)
       (n_connhash n (connhash_slot (so_sid sockid)))"

definition connhash_add :: "net \<Rightarrow> u32 \<Rightarrow> net option" where
  "connhash_add n sid =
     do { c \<leftarrow> n_store n sid;
          let h = connhash_slot (so_sid (k_sockid c));
          if connhash_lookup n (k_sockid c) \<noteq> None then None
          else Some (n\<lparr>n_connhash := (n_connhash n)(h := sid # n_connhash n h)\<rparr>) }"

definition connhash_remove :: "net \<Rightarrow> u32 \<Rightarrow> net option" where
  "connhash_remove n sid =
     do { c \<leftarrow> n_store n sid;
          let h = connhash_slot (so_sid (k_sockid c));
          chain \<leftarrow> llist_remove sid (n_connhash n h);
          Some (n\<lparr>n_connhash := (n_connhash n)(h := chain)\<rparr>) }"

definition find_connection :: "net \<Rightarrow> bool \<Rightarrow> u32 \<Rightarrow> u16 \<Rightarrow> u32 option" where
  "find_connection n outgoing_only ip port =
     find (\<lambda>sid. case n_store n sid of
                   Some c \<Rightarrow> k_ip c = ip \<and> k_port c = int (unat port) \<and> (outgoing_only \<longrightarrow> k_outgoing c)
                 | None \<Rightarrow> False) (n_connections n)"

definition create_connection_buffers :: "connection \<Rightarrow> connection" where
  "create_connection_buffers c =
     c\<lparr>k_recvbuf := (case k_recvbuf c of None \<Rightarrow> Some [] | Some b \<Rightarrow> Some b),
       k_sendbuf := (case k_sendbuf c of None \<Rightarrow> Some [] | Some b \<Rightarrow> Some b)\<rparr>"
definition WELCOME_MESSAGE :: "byte list" where
  "WELCOME_MESSAGE =
     map of_char (''Welcome to the nreduce 0.1 debug console. Enter commands below:'' @ [CHR 0x0A, CHR 0x0A, CHR 0x3E, CHR 0x20])"

definition connection_new :: "net \<Rightarrow> u32 \<Rightarrow> u32 option \<Rightarrow> connection" where
  "connection_new n ip l =
     \<lparr>k_sockid = \<lparr>so_coordid = n_iothid n, so_sid = n_nextsid n\<rparr>, k_ip = ip, k_port = - 1, k_sock = - 1, k_outport = - 1,
      k_listener = l, k_recvbuf = None, k_sendbuf = None, k_outgoing = False, k_donewelcome = False,
      k_donehandshake = False, k_isreg = False, k_finwrite = False, k_collected = False, k_dontread = False,
      k_connect_frame = 0, k_read_frame = 0, k_write_frame = 0, k_totalread = 0, k_totalwritten = 0,
      k_owner = \<lparr>ep_ip = 0, ep_port = 0, ep_localid = 0\<rparr>, k_errn = 0, k_iswaiting = False, k_isopening = False,
      k_isaccepted = False, k_state = CS_START, k_haderror = False\<rparr>"

definition add_connection :: "net \<Rightarrow> u32 \<Rightarrow> u32 option \<Rightarrow> (u32 \<times> net) option" where
  "add_connection n ip l =
     (let sid = n_nextsid n;
          c = connection_new n ip l;
          n1 = get_serverinfo (n\<lparr>n_nextsid := sid + 1\<rparr>) ip;
          c1 = (if l = Some (n_mainl n)
                then (create_connection_buffers c)\<lparr>k_sendbuf := Some WELCOME_MESSAGE\<rparr> else c);
          n2 = (set_conn n1 sid c1)\<lparr>n_connections := n_connections n1 @ [sid]\<rparr>
      in if n_store n sid \<noteq> None then None
         else do { n3 \<leftarrow> connhash_add n2 sid; Some (sid, n3) })"

definition add_connection_stats :: "net \<Rightarrow> connection \<Rightarrow> net" where
  "add_connection_stats n c =
     (let ns = (case find (\<lambda>s. ns_ip s = k_ip c \<and> ns_port s = k_port c) (n_stats n) of
                  Some s \<Rightarrow> n_stats n
                | None \<Rightarrow> \<lparr>ns_ip = k_ip c, ns_port = k_port c, ns_totalread = 0, ns_totalwritten = 0\<rparr> # n_stats n)
      in n\<lparr>n_stats := map (\<lambda>s. if ns_ip s = k_ip c \<and> ns_port s = k_port c
                               then s\<lparr>ns_totalread := ns_totalread s + k_totalread c,
                                      ns_totalwritten := ns_totalwritten s + k_totalwritten c\<rparr> else s) ns\<rparr>)"

subsection \<open>Notices to the owner\<close>

definition lost_peer :: "connection \<Rightarrow> io_out list" where
  "lost_peer c = (if k_isreg c then [] else [Disconnected (k_ip c) (k_port c)])"

definition notify_connect :: "net \<Rightarrow> u32 \<Rightarrow> bool \<Rightarrow> net option" where
  "notify_connect n sid error =
     do { c \<leftarrow> n_store n sid;
          let n1 = (if 0 < k_connect_frame c
                    then emit (set_conn n sid (c\<lparr>k_connect_frame := 0\<rparr>))
                           [ConnectResponse (k_owner c) (k_connect_frame c) error (k_errn c)
                              (if error then null_sockid else k_sockid c)]
                    else n);
          Some (if error then emit n1 (lost_peer c) else n1) }"

definition notify_closed :: "net \<Rightarrow> u32 \<Rightarrow> bool \<Rightarrow> net option" where
  "notify_closed n sid error =
     do { c \<leftarrow> n_store n sid;
          let n1 = (if 0 \<noteq> ep_localid (k_owner c) then emit n [ConnectionClosed (k_owner c) (k_sockid c) error] else n);
          Some (emit n1 (lost_peer c)) }"

definition notify_read :: "connection \<Rightarrow> (connection \<times> io_out list) option" where
  "notify_read c =
     (if k_isreg c \<and> 0 < k_read_frame c
      then do { buf \<leftarrow> k_recvbuf c;
                Some (c\<lparr>k_read_frame := 0, k_recvbuf := Some [], k_dontread := True\<rparr>,
                      [ReadResponse (k_owner c) (k_read_frame c) (k_sockid c) buf]) }
      else Some (c, []))"

definition notify_write :: "nat \<Rightarrow> connection \<Rightarrow> (connection \<times> io_out list) option" where
  "notify_write iosize c =
     (if 0 < k_write_frame c
      then do { buf \<leftarrow> k_sendbuf c;
                Some (if length buf < iosize
                      then (c\<lparr>k_write_frame := 0\<rparr>, [WriteResponse (k_owner c) (k_write_frame c)])
                      else (c, [])) }
      else Some (c, []))"

subsection \<open>State machine\<close>

record os_connect =
  os_socket :: int
  os_socket_errno :: int
  os_nonblock :: bool
  os_reuseaddr :: bool
  os_bind :: "int \<Rightarrow> bind_result"
  os_connected :: bool
  os_connect_errno :: int

definition EINPROGRESS :: int where "EINPROGRESS = 115"

definition initiate_connection :: "net \<Rightarrow> os_connect \<Rightarrow> u32 \<Rightarrow> (bool \<times> net) option" where
  "initiate_connection n os sid =
     do { c \<leftarrow> n_store n sid;
          let c1 = c\<lparr>k_sock := os_socket os\<rparr>;
          if os_socket os < 0 then Some (False, set_conn n sid (c1\<lparr>k_errn := os_socket_errno os\<rparr>))
          else if \<not> os_nonblock os then Some (False, set_conn n sid c1)
          else if 0 < ps_max (n_outports n) \<and> \<not> os_reuseaddr os then Some (False, set_conn n sid c1)
          else
            let (port, ports) = (if 0 < ps_max (n_outports n) then bind_client_port (os_bind os) (n_outports n)
                                 else (k_outport c1, n_outports n));
                c2 = c1\<lparr>k_outport := port\<rparr>;
                n1 = n\<lparr>n_outports := ports\<rparr>
            in if 0 < ps_max (n_outports n) \<and> port < 0 then Some (False, set_conn n1 sid c2)
               else if os_connected os then None
               else if os_connect_errno os \<noteq> EINPROGRESS
               then Some (False, set_conn n1 sid (c2\<lparr>k_errn := os_connect_errno os\<rparr>))
               else Some (True, set_conn n1 sid (c2\<lparr>k_outgoing := True\<rparr>)) }"

definition enter_waiting :: "net \<Rightarrow> u32 \<Rightarrow> net option" where
  "enter_waiting n sid =
     do { c \<leftarrow> n_store n sid;
          si \<leftarrow> find_server n (k_ip c);
          if s_nwaiting si < 0 \<or> k_iswaiting c then None
          else do { conns \<leftarrow> llist_remove sid (n_connections n);
                    Some (set_server (set_conn (n\<lparr>n_connections := conns\<rparr>) sid (c\<lparr>k_iswaiting := True\<rparr>))
                            (si\<lparr>s_nwaiting := s_nwaiting si + 1, s_waiting := s_waiting si @ [sid]\<rparr>)) } }"

definition exit_waiting :: "net \<Rightarrow> u32 \<Rightarrow> net option" where
  "exit_waiting n sid =
     do { c \<leftarrow> n_store n sid;
          si \<leftarrow> find_server n (k_ip c);
          if s_nwaiting si - 1 < 0 \<or> \<not> k_iswaiting c then None
          else do { waiting \<leftarrow> llist_remove sid (s_waiting si);
                    Some (set_server (set_conn (n\<lparr>n_connections := n_connections n @ [sid]\<rparr>) sid (c\<lparr>k_iswaiting := False\<rparr>))
                            (si\<lparr>s_nwaiting := s_nwaiting si - 1, s_waiting := waiting\<rparr>)) } }"

definition enter_opening :: "net \<Rightarrow> u32 \<Rightarrow> net option" where
  "enter_opening n sid =
     do { c \<leftarrow> n_store n sid;
          si \<leftarrow> find_server n (k_ip c);
          if s_nopening si < 0 \<or> k_isopening c then None
          else Some (set_server (set_conn n sid (c\<lparr>k_isopening := True\<rparr>)) (si\<lparr>s_nopening := s_nopening si + 1\<rparr>)) }"

definition exit_opening :: "net \<Rightarrow> u32 \<Rightarrow> net option" where
  "exit_opening n sid =
     do { c \<leftarrow> n_store n sid;
          si \<leftarrow> find_server n (k_ip c);
          if s_nopening si - 1 < 0 \<or> \<not> k_isopening c then None
          else Some (set_server (set_conn n sid (c\<lparr>k_isopening := False\<rparr>)) (si\<lparr>s_nopening := s_nopening si - 1\<rparr>)) }"

definition enter_active :: "net \<Rightarrow> u32 \<Rightarrow> net option" where
  "enter_active n sid =
     do { c \<leftarrow> n_store n sid;
          si \<leftarrow> find_server n (k_ip c);
          if s_naccepted si < 0 \<or> k_isaccepted c then None
          else Some (set_server (set_conn n sid (c\<lparr>k_isaccepted := True\<rparr>)) (si\<lparr>s_naccepted := s_naccepted si + 1\<rparr>)) }"

definition exit_active :: "net \<Rightarrow> u32 \<Rightarrow> net option" where
  "exit_active n sid =
     do { c \<leftarrow> n_store n sid;
          si \<leftarrow> find_server n (k_ip c);
          if s_naccepted si - 1 < 0 \<or> \<not> k_isaccepted c then None
          else Some (set_server (set_conn n sid (c\<lparr>k_isaccepted := False\<rparr>)) (si\<lparr>s_naccepted := s_naccepted si - 1\<rparr>)) }"

text \<open>\<^verbatim>\<open>connection_state\<close> up to the final event.\<close>

definition switch_state :: "net \<Rightarrow> u32 \<Rightarrow> conn_state \<Rightarrow> net option" where
  "switch_state n sid newstate =
     do { c \<leftarrow> n_store n sid;
          let old = k_state c;
          n1 \<leftarrow> (if WAITING_STATE newstate \<and> \<not> WAITING_STATE old then enter_waiting n sid
                 else if \<not> WAITING_STATE newstate \<and> WAITING_STATE old then exit_waiting n sid else Some n);
          n2 \<leftarrow> (if OPENING_STATE newstate \<and> \<not> OPENING_STATE old then enter_opening n1 sid
                 else if \<not> OPENING_STATE newstate \<and> OPENING_STATE old then exit_opening n1 sid else Some n1);
          n3 \<leftarrow> (if ACCEPTED_STATE newstate \<and> \<not> ACCEPTED_STATE old then enter_active n2 sid
                 else if \<not> ACCEPTED_STATE newstate \<and> ACCEPTED_STATE old then exit_active n2 sid else Some n2);
          c3 \<leftarrow> n_store n3 sid;
          let c4 = (if newstate = CS_CONNECTED then create_connection_buffers c3 else c3);
          Some (set_conn n3 sid (c4\<lparr>k_state := newstate\<rparr>)) }"

definition remove_connection :: "net \<Rightarrow> u32 \<Rightarrow> net option" where
  "remove_connection n sid =
     do { c \<leftarrow> n_store n sid;
          let n1 = add_connection_stats n c;
          let n2 = (if 0 \<le> k_sock c then n1\<lparr>n_toclose := k_sock c # n_toclose n1\<rparr> else n1);
          n3 \<leftarrow> connhash_remove n2 sid;
          n4 \<leftarrow> (if k_state c = CS_WAITING
                 then do { si \<leftarrow> find_server n3 (k_ip c);
                           waiting \<leftarrow> llist_remove sid (s_waiting si);
                           Some (set_server n3 (si\<lparr>s_waiting := waiting\<rparr>)) }
                 else do { conns \<leftarrow> llist_remove sid (n_connections n3); Some (n3\<lparr>n_connections := conns\<rparr>) });
          ports \<leftarrow> (if 0 \<le> k_outport c then portset_releaseport (n_outports n4) (k_outport c) else Some (n_outports n4));
          Some (n4\<lparr>n_outports := ports, n_store := (n_store n4)(sid := None)\<rparr>) }"

definition do_shutdown :: "net \<Rightarrow> u32 \<Rightarrow> (socketid \<Rightarrow> io_out) \<Rightarrow> net option" where
  "do_shutdown n sid how = do { c \<leftarrow> n_store n sid; Some (emit n [how (k_sockid c)]) }"

definition set_haderror :: "net \<Rightarrow> u32 \<Rightarrow> net option" where
  "set_haderror n sid = do { c \<leftarrow> n_store n sid; Some (set_conn n sid (c\<lparr>k_haderror := True\<rparr>)) }"

definition no_event :: "conn_event \<Rightarrow> net \<Rightarrow> net option" where
  "no_event event n = (if event \<noteq> CE_AUTO then None else Some n)"

text \<open>
  The state machine. A state entered without an event of its own is left again through
  \<open>CE_AUTO\<close>; \<open>auto_rank\<close> bounds how often.
\<close>

fun auto_rank :: "conn_state \<Rightarrow> nat" where
  "auto_rank CS_FAILED = 2"
| "auto_rank CS_FINISHED = 2"
| "auto_rank _ = 0"

definition state_rank :: "net \<Rightarrow> u32 \<Rightarrow> nat" where
  "state_rank n sid = (case n_store n sid of None \<Rightarrow> 0 | Some c \<Rightarrow> auto_rank (k_state c))"

lemma switch_state_rank:
  "switch_state n sid s = Some n1 \<Longrightarrow> state_rank n1 sid = auto_rank s"
  by (auto simp: switch_state_def state_rank_def set_conn_def Let_def split: Option.bind_splits)

definition fsm_rank :: "net \<times> os_connect \<times> u32 \<times> conn_event + net \<times> os_connect \<times> u32 \<times> conn_state \<Rightarrow> nat" where
  "fsm_rank = case_sum
     (\<lambda>(n, os, sid, event). if event = CE_AUTO then state_rank n sid else if event = CE_SLOT_AVAILABLE then 8 else 6)
     (\<lambda>(n, os, sid, newstate). auto_rank newstate + 1)"

function connection_fsm :: "net \<Rightarrow> os_connect \<Rightarrow> u32 \<Rightarrow> conn_event \<Rightarrow> net option"
  and connection_state :: "net \<Rightarrow> os_connect \<Rightarrow> u32 \<Rightarrow> conn_state \<Rightarrow> net option" where
  "connection_fsm n os sid event =
     do { c \<leftarrow> n_store n sid;
       case k_state c of
         CS_START \<Rightarrow>
           (case event of
              CE_REQUESTED \<Rightarrow> connection_state n os sid CS_WAITING
            | CE_DELETE \<Rightarrow> connection_state n os sid CS_END
            | CE_CLIENT_CONNECTED \<Rightarrow> connection_state n os sid CS_CONNECTED
            | _ \<Rightarrow> no_event event n)
       | CS_WAITING \<Rightarrow>
           (case event of
              CE_SLOT_AVAILABLE \<Rightarrow>
                do { n1 \<leftarrow> connection_state n os sid CS_READY;
                     (ok, n2) \<leftarrow> initiate_connection n1 os sid;
                     connection_fsm n2 os sid (if ok then CE_ASYNC_STARTED else CE_ATTEMPT_FAILED) }
            | CE_DELETE \<Rightarrow> connection_state n os sid CS_END
            | _ \<Rightarrow> no_event event n)
       | CS_READY \<Rightarrow>
           (case event of
              CE_ASYNC_STARTED \<Rightarrow> connection_state n os sid CS_CONNECTING
            | CE_ATTEMPT_FAILED \<Rightarrow> connection_state n os sid CS_FAILED
            | CE_DELETE \<Rightarrow> connection_state n os sid CS_END
            | _ \<Rightarrow> no_event event n)
       | CS_FAILED \<Rightarrow>
           (case event of
              CE_AUTO \<Rightarrow> do { n1 \<leftarrow> notify_connect n sid True; connection_state n1 os sid CS_END }
            | _ \<Rightarrow> no_event event n)
       | CS_CONNECTING \<Rightarrow>
           (case event of
              CE_ASYNC_OK \<Rightarrow> do { n1 \<leftarrow> connection_state n os sid CS_CONNECTED; notify_connect n1 sid False }
            | CE_ASYNC_FAILED \<Rightarrow> connection_state n os sid CS_FAILED
            | CE_DELETE \<Rightarrow> connection_state n os sid CS_END
            | _ \<Rightarrow> no_event event n)
       | CS_CONNECTED \<Rightarrow>
           (case event of
              CE_ERROR \<Rightarrow> do { n1 \<leftarrow> set_haderror n sid; connection_state n1 os sid CS_FINISHED }
            | CE_DELETE \<Rightarrow> connection_state n os sid CS_FINISHED
            | CE_READ \<Rightarrow> connection_state n os sid CS_ACCEPTED
            | CE_FINREAD \<Rightarrow> do { n1 \<leftarrow> do_shutdown n sid ShutdownRead; connection_state n1 os sid CS_ACCEPTED_DONE_READING }
            | CE_FINWRITE \<Rightarrow> do { n1 \<leftarrow> do_shutdown n sid ShutdownWrite; connection_state n1 os sid CS_CONNECTED_DONE_WRITING }
            | _ \<Rightarrow> no_event event n)
       | CS_CONNECTED_DONE_WRITING \<Rightarrow>
           (case event of
              CE_ERROR \<Rightarrow> do { n1 \<leftarrow> set_haderror n sid; connection_state n1 os sid CS_FINISHED }
            | CE_DELETE \<Rightarrow> connection_state n os sid CS_FINISHED
            | CE_FINREAD \<Rightarrow> do { n1 \<leftarrow> do_shutdown n sid ShutdownRead; connection_state n1 os sid CS_FINISHED }
            | CE_FINWRITE \<Rightarrow> Some n
            | CE_READ \<Rightarrow> connection_state n os sid CS_ACCEPTED_DONE_WRITING
            | _ \<Rightarrow> no_event event n)
       | CS_ACCEPTED \<Rightarrow>
           (case event of
              CE_ERROR \<Rightarrow> do { n1 \<leftarrow> set_haderror n sid; connection_state n1 os sid CS_FINISHED }
            | CE_DELETE \<Rightarrow> connection_state n os sid CS_FINISHED
            | CE_READ \<Rightarrow> Some n
            | CE_FINREAD \<Rightarrow> do { n1 \<leftarrow> do_shutdown n sid ShutdownRead; connection_state n1 os sid CS_ACCEPTED_DONE_READING }
            | CE_FINWRITE \<Rightarrow> do { n1 \<leftarrow> do_shutdown n sid ShutdownWrite; connection_state n1 os sid CS_ACCEPTED_DONE_WRITING }
            | _ \<Rightarrow> no_event event n)
       | CS_ACCEPTED_DONE_WRITING \<Rightarrow>
           (case event of
              CE_ERROR \<Rightarrow> do { n1 \<leftarrow> set_haderror n sid; connection_state n1 os sid CS_FINISHED }
            | CE_DELETE \<Rightarrow> connection_state n os sid CS_FINISHED
            | CE_FINWRITE \<Rightarrow> Some n
            | CE_READ \<Rightarrow> Some n
            | CE_FINREAD \<Rightarrow> do { n1 \<leftarrow> do_shutdown n sid ShutdownRead; connection_state n1 os sid CS_FINISHED }
            | _ \<Rightarrow> no_event event n)
       | CS_ACCEPTED_DONE_READING \<Rightarrow>
           (case event of
              CE_ERROR \<Rightarrow> do { n1 \<leftarrow> set_haderror n sid; connection_state n1 os sid CS_FINISHED }
            | CE_DELETE \<Rightarrow> connection_state n os sid CS_FINISHED
            | CE_FINREAD \<Rightarrow> Some n
            | CE_FINWRITE \<Rightarrow> do { n1 \<leftarrow> do_shutdown n sid ShutdownWrite; connection_state n1 os sid CS_FINISHED }
            | _ \<Rightarrow> no_event event n)
       | CS_FINISHED \<Rightarrow>
           (case event of
              CE_AUTO \<Rightarrow> do { n1 \<leftarrow> notify_closed n sid (k_haderror c); connection_state n1 os sid CS_END }
            | _ \<Rightarrow> no_event event n)
       | CS_END \<Rightarrow>
           (case event of
              CE_AUTO \<Rightarrow> remove_connection n sid
            | _ \<Rightarrow> no_event event n) }"
| "connection_state n os sid newstate =
     do { n1 \<leftarrow> switch_state n sid newstate; connection_fsm n1 os sid CE_AUTO }"
  by pat_completeness auto

termination
  by (relation "measure fsm_rank") (auto simp: fsm_rank_def state_rank_def [of n sid for n sid] dest: switch_state_rank)

declare connection_fsm.simps [simp del] connection_state.simps [simp del]

subsection \<open>Operations on all connections\<close>

text \<open>\<^verbatim>\<open>connect_pending\<close>: the inner loop opens waiting connections of one server while it has a free
  slot, the outer loop goes over the servers. What the system answers for a connection is the
  function \<open>os\<close>.\<close>

partial_function (option) open_waiting :: "(u32 \<Rightarrow> os_connect) \<Rightarrow> u32 \<Rightarrow> net \<Rightarrow> net option" where
  [code]: "open_waiting os ip n =
     do { si \<leftarrow> find_server n ip;
          if s_nopening si < MAX_OPENING \<and> s_waiting si \<noteq> []
          then do { let sid = hd (s_waiting si);
                    c \<leftarrow> n_store n sid;
                    if k_iswaiting c
                    then do { n1 \<leftarrow> connection_fsm n (os sid) sid CE_SLOT_AVAILABLE; open_waiting os ip n1 }
                    else None }
          else Some n }"

fun connect_servers :: "(u32 \<Rightarrow> os_connect) \<Rightarrow> u32 list \<Rightarrow> net \<Rightarrow> net option" where
  "connect_servers os [] n = Some n"
| "connect_servers os (ip # ips) n = do { n1 \<leftarrow> open_waiting os ip n; connect_servers os ips n1 }"

definition connect_pending :: "(u32 \<Rightarrow> os_connect) \<Rightarrow> net \<Rightarrow> net option" where
  "connect_pending os n = connect_servers os (map s_ip (n_servers n)) n"

partial_function (option) close_active :: "os_connect \<Rightarrow> net \<Rightarrow> net option" where
  [code]: "close_active os n =
     (if n_connections n = [] then Some n
      else do { n1 \<leftarrow> connection_fsm n os (hd (n_connections n)) CE_DELETE; close_active os n1 })"

partial_function (option) close_waiting :: "os_connect \<Rightarrow> u32 \<Rightarrow> net \<Rightarrow> net option" where
  [code]: "close_waiting os ip n =
     do { si \<leftarrow> find_server n ip;
          if s_waiting si = [] then Some n
          else do { n1 \<leftarrow> connection_fsm n os (hd (s_waiting si)) CE_DELETE; close_waiting os ip n1 } }"

fun close_servers :: "os_connect \<Rightarrow> u32 list \<Rightarrow> net \<Rightarrow> net option" where
  "close_servers os [] n = Some n"
| "close_servers os (ip # ips) n = do { n1 \<leftarrow> close_waiting os ip n; close_servers os ips n1 }"

definition node_close_connections :: "os_connect \<Rightarrow> net \<Rightarrow> net option" where
  "node_close_connections os n =
     do { n1 \<leftarrow> close_active os n; close_servers os (map s_ip (n_servers n1)) n1 }"

text \<open>The loops over all connections keep the next pointer before they delete the current one.\<close>

fun delete_each :: "os_connect \<Rightarrow> (connection \<Rightarrow> bool) \<Rightarrow> u32 list \<Rightarrow> net \<Rightarrow> net option" where
  "delete_each os P [] n = Some n"
| "delete_each os P (sid # sids) n =
     do { c \<leftarrow> n_store n sid;
          n1 \<leftarrow> (if P c then connection_fsm n os sid CE_DELETE else Some n);
          delete_each os P sids n1 }"

definition node_remove_listener :: "os_connect \<Rightarrow> net \<Rightarrow> listener \<Rightarrow> net option" where
  "node_remove_listener os n l =
     do { n1 \<leftarrow> delete_each os (\<lambda>c. k_listener c = Some (so_sid (l_sockid l))) (n_connections n) n;
          ls \<leftarrow> llist_remove l (n_listeners n1);
          Some (n1\<lparr>n_listeners := ls, n_toclose := l_fd l # n_toclose n1\<rparr>) }"

fun remove_listeners :: "os_connect \<Rightarrow> endpointid \<Rightarrow> listener list \<Rightarrow> net \<Rightarrow> net option" where
  "remove_listeners os epid [] n = Some n"
| "remove_listeners os epid (l # ls) n =
     do { n1 \<leftarrow> (if \<not> endpointid_isnull (l_owner l) \<and> endpointid_equals (l_owner l) epid
                 then node_remove_listener os n l else Some n);
          remove_listeners os epid ls n1 }"

definition node_handle_endpoint_exit :: "os_connect \<Rightarrow> net \<Rightarrow> endpointid \<Rightarrow> net option" where
  "node_handle_endpoint_exit os n epid =
     do { n1 \<leftarrow> delete_each os (\<lambda>c. \<not> endpointid_isnull (k_owner c) \<and> endpointid_equals (k_owner c) epid) (n_connections n) n;
          remove_listeners os epid (n_listeners n1) n1 }"

subsection \<open>Invariant\<close>

text \<open>The connections to a server whose state satisfies \<open>P\<close>.\<close>

definition in_class :: "(conn_state \<Rightarrow> bool) \<Rightarrow> net \<Rightarrow> u32 \<Rightarrow> u32 set" where
  "in_class P n ip = {sid. \<exists>c. n_store n sid = Some c \<and> k_ip c = ip \<and> P (k_state c)}"

text \<open>A connection knows its own number, its flags agree with its state, its server is known, and
  it has buffers when it can be read from or written to.\<close>

definition conn_ok :: "net \<Rightarrow> u32 \<Rightarrow> connection \<Rightarrow> bool" where
  "conn_ok n sid c \<longleftrightarrow>
     k_sockid c = \<lparr>so_coordid = n_iothid n, so_sid = sid\<rparr> \<and>
     k_iswaiting c = WAITING_STATE (k_state c) \<and> k_isopening c = OPENING_STATE (k_state c) \<and>
     k_isaccepted c = ACCEPTED_STATE (k_state c) \<and> find_server n (k_ip c) \<noteq> None \<and>
     (CANREAD c \<or> CANWRITE c \<longrightarrow> k_recvbuf c \<noteq> None \<and> k_sendbuf c \<noteq> None)"

definition server_ok :: "net \<Rightarrow> serverinfo \<Rightarrow> bool" where
  "server_ok n si \<longleftrightarrow>
     s_nwaiting si = int (card (in_class WAITING_STATE n (s_ip si))) \<and>
     s_nopening si = int (card (in_class OPENING_STATE n (s_ip si))) \<and>
     s_naccepted si = int (card (in_class ACCEPTED_STATE n (s_ip si))) \<and>
     distinct (s_waiting si) \<and> set (s_waiting si) = in_class WAITING_STATE n (s_ip si)"

definition hash_ok :: "net \<Rightarrow> bool" where
  "hash_ok n \<longleftrightarrow> (\<forall>h. distinct (n_connhash n h) \<and>
     set (n_connhash n h) = {sid \<in> dom (n_store n). connhash_slot sid = h})"

definition holds_port :: "net \<Rightarrow> u32 \<Rightarrow> int \<Rightarrow> bool" where
  "holds_port n sid p \<longleftrightarrow> (\<exists>c. n_store n sid = Some c \<and> k_outport c = p)"

definition ports_ok :: "net \<Rightarrow> bool" where
  "ports_ok n \<longleftrightarrow>
     (\<forall>s t p. 0 \<le> p \<and> holds_port n s p \<and> holds_port n t p \<longrightarrow> s = t) \<and>
     (if 0 < ps_max (n_outports n) then pp.held (n_outports n) {p. 0 \<le> p \<and> (\<exists>s. holds_port n s p)}
      else \<forall>s p. holds_port n s p \<longrightarrow> p < 0)"

definition net_core :: "net \<Rightarrow> bool" where
  "net_core n \<longleftrightarrow>
     finite (dom (n_store n)) \<and> (\<forall>sid c. n_store n sid = Some c \<longrightarrow> conn_ok n sid c) \<and>
     distinct (map s_ip (n_servers n)) \<and> (\<forall>si \<in> set (n_servers n). server_ok n si) \<and>
     distinct (n_connections n) \<and>
     set (n_connections n) = {sid. \<exists>c. n_store n sid = Some c \<and> \<not> WAITING_STATE (k_state c)} \<and>
     hash_ok n"

definition net_inv :: "net \<Rightarrow> bool" where
  "net_inv n \<longleftrightarrow> net_core n \<and> ports_ok n"

subsection \<open>Access lemmas\<close>

lemma store_set_conn [simp]: "n_store (set_conn n sid c) = (n_store n)(sid \<mapsto> c)"
  by (simp add: set_conn_def)

lemma fields_set_conn [simp]:
  "n_connections (set_conn n sid c) = n_connections n" "n_servers (set_conn n sid c) = n_servers n"
  "n_connhash (set_conn n sid c) = n_connhash n" "n_outports (set_conn n sid c) = n_outports n"
  "n_iothid (set_conn n sid c) = n_iothid n" "n_out (set_conn n sid c) = n_out n" "n_toclose (set_conn n sid c) = n_toclose n"
  "n_nextsid (set_conn n sid c) = n_nextsid n" "n_iosize (set_conn n sid c) = n_iosize n" "n_listeners (set_conn n sid c) = n_listeners n"
  "n_listenport (set_conn n sid c) = n_listenport n" "n_mainl (set_conn n sid c) = n_mainl n" "n_stats (set_conn n sid c) = n_stats n"
  by (simp_all add: set_conn_def)

lemma fields_set_server [simp]:
  "n_connections (set_server n si) = n_connections n" "n_store (set_server n si) = n_store n"
  "n_connhash (set_server n si) = n_connhash n" "n_outports (set_server n si) = n_outports n"
  "n_iothid (set_server n si) = n_iothid n" "n_out (set_server n si) = n_out n" "n_toclose (set_server n si) = n_toclose n"
  "n_nextsid (set_server n si) = n_nextsid n" "n_iosize (set_server n si) = n_iosize n" "n_listeners (set_server n si) = n_listeners n"
  "n_listenport (set_server n si) = n_listenport n" "n_mainl (set_server n si) = n_mainl n" "n_stats (set_server n si) = n_stats n"
  by (simp_all add: set_server_def)

lemma fields_emit [simp]:
  "n_connections (emit n os) = n_connections n" "n_store (emit n os) = n_store n" "n_servers (emit n os) = n_servers n"
  "n_connhash (emit n os) = n_connhash n" "n_outports (emit n os) = n_outports n" "n_iothid (emit n os) = n_iothid n"
  "n_out (emit n os) = n_out n @ os" "n_toclose (emit n os) = n_toclose n" "n_nextsid (emit n os) = n_nextsid n"
  "n_iosize (emit n os) = n_iosize n" "n_listeners (emit n os) = n_listeners n" "n_listenport (emit n os) = n_listenport n"
  "n_mainl (emit n os) = n_mainl n"
  by (simp_all add: emit_def)

lemma find_server_fields [simp]:
  "find_server (set_conn n sid c) ip = find_server n ip" "find_server (emit n os) ip = find_server n ip"
  "find_server (n\<lparr>n_connections := cs\<rparr>) ip = find_server n ip" "find_server (n\<lparr>n_out := os\<rparr>) ip = find_server n ip"
  "find_server (n\<lparr>n_store := st\<rparr>) ip = find_server n ip" "find_server (n\<lparr>n_connhash := h\<rparr>) ip = find_server n ip"
  "find_server (n\<lparr>n_toclose := t\<rparr>) ip = find_server n ip" "find_server (n\<lparr>n_stats := s\<rparr>) ip = find_server n ip"
  "find_server (n\<lparr>n_outports := ps\<rparr>) ip = find_server n ip" "find_server (n\<lparr>n_nextsid := k\<rparr>) ip = find_server n ip"
  by (simp_all add: find_server_def)

lemma find_server_ip: "find_server n ip = Some si \<Longrightarrow> s_ip si = ip \<and> si \<in> set (n_servers n)"
  by (auto simp: find_server_def find_Some_iff)

lemma find_server_set_server:
  assumes "find_server n (s_ip si) \<noteq> None"
  shows "find_server (set_server n si) ip = (if ip = s_ip si then Some si else find_server n ip)"
proof -
  let ?m = "\<lambda>s. if s_ip s = s_ip si then si else s"
  have "find (\<lambda>s. s_ip s = s_ip si) (map ?m xs) = Some si" if "find (\<lambda>s. s_ip s = s_ip si) xs \<noteq> None" for xs
    using that by (induction xs) (auto split: if_splits)
  moreover have "find (\<lambda>s. s_ip s = ip) (map ?m xs) = find (\<lambda>s. s_ip s = ip) xs" if "ip \<noteq> s_ip si" for xs
    using that by (induction xs) auto
  ultimately show ?thesis using assms by (auto simp: find_server_def set_server_def)
qed

lemma find_server_set_server_None: "find_server (set_server n si) ip = None \<longleftrightarrow> find_server n ip = None"
proof -
  have "find (\<lambda>s. s_ip s = ip) (map (\<lambda>s. if s_ip s = s_ip si then si else s) xs) = None \<longleftrightarrow> find (\<lambda>s. s_ip s = ip) xs = None" for xs
    by (induction xs) auto
  then show ?thesis by (simp add: find_server_def set_server_def)
qed

lemma set_server_set_server: "s_ip a = s_ip b \<Longrightarrow> set_server (set_server n a) b = set_server n b"
  by (auto simp: set_server_def)

lemma set_server_same: "find_server n ip = Some si \<Longrightarrow> distinct (map s_ip (n_servers n)) \<Longrightarrow> set_server n si = n"
proof -
  assume F: "find_server n ip = Some si" and D: "distinct (map s_ip (n_servers n))"
  have "map (\<lambda>s. if s_ip s = s_ip si then si else s) (n_servers n) = n_servers n"
    using find_server_ip [OF F] D by (intro map_idI) (auto simp: distinct_map inj_on_def)
  then show ?thesis by (simp add: set_server_def)
qed

lemma set_conn_set_server: "set_conn (set_server n si) sid c = set_server (set_conn n sid c) si"
  by (simp add: set_conn_def set_server_def)

lemma set_conn_set_conn: "set_conn (set_conn n sid c) sid d = set_conn n sid d"
  by (simp add: set_conn_def)

lemma set_conn_same: "n_store n sid = Some c \<Longrightarrow> set_conn n sid c = n"
  by (simp add: set_conn_def fun_upd_idem)

lemmas net_access = find_server_set_server find_server_set_server_None set_server_set_server set_conn_set_server set_conn_set_conn

end
