(* ===== verification/Connection_Invariant.thy ===== *)
theory Connection_Invariant
  imports Connections
begin

text \<open>
  Correctness of the connection state machine: \<open>net_inv\<close> holds after every event, legal events
  never fail, and the machine follows the transition table \<open>fsm_next\<close>.
\<close>

subsection \<open>Changing the state of a connection\<close>

abbreviation ob :: "bool \<Rightarrow> int" where
  "ob b \<equiv> (if b then 1 else 0)"

definition retag :: "connection \<Rightarrow> conn_state \<Rightarrow> connection" where
  "retag c s =
     (if s = CS_CONNECTED then create_connection_buffers c else c)
       \<lparr>k_iswaiting := WAITING_STATE s, k_isopening := OPENING_STATE s, k_isaccepted := ACCEPTED_STATE s, k_state := s\<rparr>"

definition recount :: "serverinfo \<Rightarrow> u32 \<Rightarrow> conn_state \<Rightarrow> conn_state \<Rightarrow> serverinfo" where
  "recount si sid old s =
     si\<lparr>s_nwaiting := s_nwaiting si + ob (WAITING_STATE s) - ob (WAITING_STATE old),
        s_nopening := s_nopening si + ob (OPENING_STATE s) - ob (OPENING_STATE old),
        s_naccepted := s_naccepted si + ob (ACCEPTED_STATE s) - ob (ACCEPTED_STATE old),
        s_waiting := (if WAITING_STATE s \<and> \<not> WAITING_STATE old then s_waiting si @ [sid]
                      else if \<not> WAITING_STATE s \<and> WAITING_STATE old then remove1 sid (s_waiting si) else s_waiting si)\<rparr>"

definition relist :: "u32 list \<Rightarrow> u32 \<Rightarrow> conn_state \<Rightarrow> conn_state \<Rightarrow> u32 list" where
  "relist cs sid old s =
     (if WAITING_STATE s \<and> \<not> WAITING_STATE old then remove1 sid cs
      else if \<not> WAITING_STATE s \<and> WAITING_STATE old then cs @ [sid] else cs)"

definition switched :: "net \<Rightarrow> u32 \<Rightarrow> conn_state \<Rightarrow> net" where
  "switched n sid s =
     (let c = the (n_store n sid); si = the (find_server n (k_ip c))
      in set_server (set_conn (n\<lparr>n_connections := relist (n_connections n) sid (k_state c) s\<rparr>) sid (retag c s))
           (recount si sid (k_state c) s))"

text \<open>What the invariant says of one connection and its server.\<close>

definition conn_at :: "net \<Rightarrow> u32 \<Rightarrow> connection \<Rightarrow> serverinfo \<Rightarrow> bool" where
  "conn_at n sid c si \<longleftrightarrow>
     n_store n sid = Some c \<and> find_server n (k_ip c) = Some si \<and> conn_ok n sid c \<and> server_ok n si \<and> s_ip si = k_ip c \<and>
     distinct (map s_ip (n_servers n)) \<and>
     0 \<le> s_nwaiting si \<and> 0 \<le> s_nopening si \<and> 0 \<le> s_naccepted si \<and>
     (WAITING_STATE (k_state c) \<longrightarrow> sid \<in> set (s_waiting si) \<and> 0 < s_nwaiting si \<and> sid \<notin> set (n_connections n)) \<and>
     (\<not> WAITING_STATE (k_state c) \<longrightarrow> sid \<in> set (n_connections n) \<and> sid \<notin> set (s_waiting si)) \<and>
     (OPENING_STATE (k_state c) \<longrightarrow> 0 < s_nopening si) \<and> (ACCEPTED_STATE (k_state c) \<longrightarrow> 0 < s_naccepted si)"

lemma finite_in_class: "finite (dom (n_store n)) \<Longrightarrow> finite (in_class P n ip)"
  by (rule finite_subset [of _ "dom (n_store n)"]) (auto simp: in_class_def)

lemma net_inv_conn_at:
  assumes inv: "net_inv n" and c: "n_store n sid = Some c"
  obtains si where "conn_at n sid c si"
proof -
  have ok: "conn_ok n sid c" using inv c by (simp add: net_inv_def net_core_def)
  then obtain si where si: "find_server n (k_ip c) = Some si" by (auto simp: conn_ok_def)
  have so: "server_ok n si" and ip: "s_ip si = k_ip c" using inv find_server_ip [OF si] by (auto simp: net_inv_def net_core_def)
  have fin: "finite (in_class P n ip)" for P ip using inv finite_in_class by (simp add: net_inv_def net_core_def)
  have pos: "0 < card (in_class P n (s_ip si))" if "P (k_state c)" for P
    using fin [of P "s_ip si"] c ip that by (auto simp: card_gt_0_iff in_class_def)
  have "conn_at n sid c si"
    using inv c ok si so ip pos [of WAITING_STATE] pos [of OPENING_STATE] pos [of ACCEPTED_STATE]
    by (auto simp: conn_at_def net_inv_def net_core_def server_ok_def in_class_def)
  then show ?thesis by (rule that)
qed

lemma class_disjoint [simp]:
  "WAITING_STATE s \<Longrightarrow> \<not> OPENING_STATE s" "WAITING_STATE s \<Longrightarrow> \<not> ACCEPTED_STATE s" "OPENING_STATE s \<Longrightarrow> \<not> ACCEPTED_STATE s"
  by (auto simp: WAITING_STATE_def OPENING_STATE_def ACCEPTED_STATE_def)

text \<open>The three steps of a state change, each also right when nothing changes.\<close>

lemma nothing_changes:
  assumes "n_store n sid = Some c" "find_server n ip = Some si" "distinct (map s_ip (n_servers n))"
  shows "set_server (set_conn n sid c) si = n"
  using assms by (simp add: set_conn_same set_server_same)

lemma enter_waiting_eq:
  "n_store n sid = Some c \<Longrightarrow> find_server n (k_ip c) = Some si \<Longrightarrow> \<not> k_iswaiting c \<Longrightarrow> 0 \<le> s_nwaiting si \<Longrightarrow>
   sid \<in> set (n_connections n) \<Longrightarrow>
   enter_waiting n sid =
     Some (set_server (set_conn (n\<lparr>n_connections := remove1 sid (n_connections n)\<rparr>) sid (c\<lparr>k_iswaiting := True\<rparr>))
       (si\<lparr>s_nwaiting := s_nwaiting si + 1, s_waiting := s_waiting si @ [sid]\<rparr>))"
  by (simp add: enter_waiting_def llist_remove_def)

lemma exit_waiting_eq:
  "n_store n sid = Some c \<Longrightarrow> find_server n (k_ip c) = Some si \<Longrightarrow> k_iswaiting c \<Longrightarrow> 0 < s_nwaiting si \<Longrightarrow>
   sid \<in> set (s_waiting si) \<Longrightarrow>
   exit_waiting n sid =
     Some (set_server (set_conn (n\<lparr>n_connections := n_connections n @ [sid]\<rparr>) sid (c\<lparr>k_iswaiting := False\<rparr>))
       (si\<lparr>s_nwaiting := s_nwaiting si - 1, s_waiting := remove1 sid (s_waiting si)\<rparr>))"
  by (simp add: exit_waiting_def llist_remove_def)

lemma opening_eqs:
  "n_store n sid = Some c \<Longrightarrow> find_server n (k_ip c) = Some si \<Longrightarrow> \<not> k_isopening c \<Longrightarrow> 0 \<le> s_nopening si \<Longrightarrow>
   enter_opening n sid = Some (set_server (set_conn n sid (c\<lparr>k_isopening := True\<rparr>)) (si\<lparr>s_nopening := s_nopening si + 1\<rparr>))"
  "n_store n sid = Some c \<Longrightarrow> find_server n (k_ip c) = Some si \<Longrightarrow> k_isopening c \<Longrightarrow> 0 < s_nopening si \<Longrightarrow>
   exit_opening n sid = Some (set_server (set_conn n sid (c\<lparr>k_isopening := False\<rparr>)) (si\<lparr>s_nopening := s_nopening si - 1\<rparr>))"
  by (simp_all add: enter_opening_def exit_opening_def)

lemma active_eqs:
  "n_store n sid = Some c \<Longrightarrow> find_server n (k_ip c) = Some si \<Longrightarrow> \<not> k_isaccepted c \<Longrightarrow> 0 \<le> s_naccepted si \<Longrightarrow>
   enter_active n sid = Some (set_server (set_conn n sid (c\<lparr>k_isaccepted := True\<rparr>)) (si\<lparr>s_naccepted := s_naccepted si + 1\<rparr>))"
  "n_store n sid = Some c \<Longrightarrow> find_server n (k_ip c) = Some si \<Longrightarrow> k_isaccepted c \<Longrightarrow> 0 < s_naccepted si \<Longrightarrow>
   exit_active n sid = Some (set_server (set_conn n sid (c\<lparr>k_isaccepted := False\<rparr>)) (si\<lparr>s_naccepted := s_naccepted si - 1\<rparr>))"
  by (simp_all add: enter_active_def exit_active_def)

lemma waiting_step:
  assumes c: "n_store n sid = Some c" and si: "find_server n (k_ip c) = Some si" and D: "distinct (map s_ip (n_servers n))"
    and w: "k_iswaiting c = w" and pos: "0 \<le> s_nwaiting si" "w \<Longrightarrow> 0 < s_nwaiting si \<and> sid \<in> set (s_waiting si)"
    and cs: "\<not> w \<Longrightarrow> sid \<in> set (n_connections n)"
  shows "(if w' \<and> \<not> w then enter_waiting n sid else if \<not> w' \<and> w then exit_waiting n sid else Some n) =
    Some (set_server (set_conn (n\<lparr>n_connections :=
              (if w' \<and> \<not> w then remove1 sid (n_connections n) else if \<not> w' \<and> w then n_connections n @ [sid] else n_connections n)\<rparr>)
            sid (c\<lparr>k_iswaiting := w'\<rparr>))
      (si\<lparr>s_nwaiting := s_nwaiting si + ob w' - ob w,
          s_waiting := (if w' \<and> \<not> w then s_waiting si @ [sid] else if \<not> w' \<and> w then remove1 sid (s_waiting si) else s_waiting si)\<rparr>))"
proof (cases "w' = w")
  case True
  have "c\<lparr>k_iswaiting := w\<rparr> = c" unfolding w [symmetric] by simp
  then show ?thesis using True nothing_changes [OF c si D] by simp
next
  case False
  then show ?thesis using enter_waiting_eq [OF c si] exit_waiting_eq [OF c si] w pos cs by (cases w) simp_all
qed

lemma opening_step:
  assumes c: "n_store n sid = Some c" and si: "find_server n (k_ip c) = Some si" and D: "distinct (map s_ip (n_servers n))"
    and w: "k_isopening c = w" and pos: "0 \<le> s_nopening si" "w \<Longrightarrow> 0 < s_nopening si"
  shows "(if w' \<and> \<not> w then enter_opening n sid else if \<not> w' \<and> w then exit_opening n sid else Some n) =
    Some (set_server (set_conn n sid (c\<lparr>k_isopening := w'\<rparr>)) (si\<lparr>s_nopening := s_nopening si + ob w' - ob w\<rparr>))"
proof (cases "w' = w")
  case True
  have "c\<lparr>k_isopening := w\<rparr> = c" unfolding w [symmetric] by simp
  then show ?thesis using True nothing_changes [OF c si D] by simp
next
  case False
  then show ?thesis using opening_eqs [OF c si] w pos by (cases w) simp_all
qed

lemma active_step:
  assumes c: "n_store n sid = Some c" and si: "find_server n (k_ip c) = Some si" and D: "distinct (map s_ip (n_servers n))"
    and w: "k_isaccepted c = w" and pos: "0 \<le> s_naccepted si" "w \<Longrightarrow> 0 < s_naccepted si"
  shows "(if w' \<and> \<not> w then enter_active n sid else if \<not> w' \<and> w then exit_active n sid else Some n) =
    Some (set_server (set_conn n sid (c\<lparr>k_isaccepted := w'\<rparr>)) (si\<lparr>s_naccepted := s_naccepted si + ob w' - ob w\<rparr>))"
proof (cases "w' = w")
  case True
  have "c\<lparr>k_isaccepted := w\<rparr> = c" unfolding w [symmetric] by simp
  then show ?thesis using True nothing_changes [OF c si D] by simp
next
  case False
  then show ?thesis using active_eqs [OF c si] w pos by (cases w) simp_all
qed

lemma servers_ips [simp]: "map s_ip (n_servers (set_server n si)) = map s_ip (n_servers n)"
  by (simp add: set_server_def)

lemma switch_state_switched:
  assumes at: "conn_at n sid c si"
  shows "switch_state n sid s = Some (switched n sid s)"
proof -
  have c: "n_store n sid = Some c" and si: "find_server n (k_ip c) = Some si" "s_ip si = k_ip c"
    and ok: "conn_ok n sid c" and D: "distinct (map s_ip (n_servers n))"
    and pos: "0 \<le> s_nwaiting si" "0 \<le> s_nopening si" "0 \<le> s_naccepted si"
      "WAITING_STATE (k_state c) \<Longrightarrow> 0 < s_nwaiting si \<and> sid \<in> set (s_waiting si)"
      "\<not> WAITING_STATE (k_state c) \<Longrightarrow> sid \<in> set (n_connections n)"
      "OPENING_STATE (k_state c) \<Longrightarrow> 0 < s_nopening si" "ACCEPTED_STATE (k_state c) \<Longrightarrow> 0 < s_naccepted si"
    using at by (simp_all add: conn_at_def)
  have fl: "k_iswaiting c = WAITING_STATE (k_state c)" "k_isopening c = OPENING_STATE (k_state c)"
    "k_isaccepted c = ACCEPTED_STATE (k_state c)" using ok by (simp_all add: conn_ok_def)
  let ?r = "recount si sid (k_state c) s"
  define m where "m = n\<lparr>n_connections := relist (n_connections n) sid (k_state c) s\<rparr>"
  define c1 where "c1 = c\<lparr>k_iswaiting := WAITING_STATE s\<rparr>"
  define s1 where "s1 = si\<lparr>s_nwaiting := s_nwaiting ?r, s_waiting := s_waiting ?r\<rparr>"
  define c2 where "c2 = c1\<lparr>k_isopening := OPENING_STATE s\<rparr>"
  define s2 where "s2 = s1\<lparr>s_nopening := s_nopening ?r\<rparr>"
  define c3 where "c3 = c2\<lparr>k_isaccepted := ACCEPTED_STATE s\<rparr>"
  define s3 where "s3 = s2\<lparr>s_naccepted := s_naccepted ?r\<rparr>"
  have ip: "s_ip s1 = k_ip c" "s_ip s2 = k_ip c" "k_ip c1 = k_ip c" "k_ip c2 = k_ip c"
    using si by (simp_all add: s1_def s2_def c1_def c2_def)
  have fm: "find_server m (k_ip c) = Some si" by (simp add: m_def si)
  have W: "(if WAITING_STATE s \<and> \<not> WAITING_STATE (k_state c) then enter_waiting n sid
            else if \<not> WAITING_STATE s \<and> WAITING_STATE (k_state c) then exit_waiting n sid else Some n) =
           Some (set_server (set_conn m sid c1) s1)"
    unfolding m_def c1_def s1_def recount_def relist_def
    using waiting_step [OF c si(1) D fl(1) pos(1,4,5)] by simp
  have O: "(if OPENING_STATE s \<and> \<not> OPENING_STATE (k_state c) then enter_opening (set_server (set_conn m sid c1) s1) sid
            else if \<not> OPENING_STATE s \<and> OPENING_STATE (k_state c) then exit_opening (set_server (set_conn m sid c1) s1) sid
            else Some (set_server (set_conn m sid c1) s1)) = Some (set_server (set_conn m sid c2) s2)"
  proof -
    let ?n = "set_server (set_conn m sid c1) s1"
    have "n_store ?n sid = Some c1" "find_server ?n (k_ip c1) = Some s1" "distinct (map s_ip (n_servers ?n))"
      "k_isopening c1 = OPENING_STATE (k_state c)" "0 \<le> s_nopening s1" "OPENING_STATE (k_state c) \<Longrightarrow> 0 < s_nopening s1"
      using fm ip D fl pos by (simp_all add: find_server_set_server) (simp_all add: c1_def s1_def m_def)
    from opening_step [OF this, of "OPENING_STATE s"] ip show ?thesis
      by (simp add: net_access c2_def s2_def recount_def) (simp add: s1_def)
  qed
  have A: "(if ACCEPTED_STATE s \<and> \<not> ACCEPTED_STATE (k_state c) then enter_active (set_server (set_conn m sid c2) s2) sid
            else if \<not> ACCEPTED_STATE s \<and> ACCEPTED_STATE (k_state c) then exit_active (set_server (set_conn m sid c2) s2) sid
            else Some (set_server (set_conn m sid c2) s2)) = Some (set_server (set_conn m sid c3) s3)"
  proof -
    let ?n = "set_server (set_conn m sid c2) s2"
    have "n_store ?n sid = Some c2" "find_server ?n (k_ip c2) = Some s2" "distinct (map s_ip (n_servers ?n))"
      "k_isaccepted c2 = ACCEPTED_STATE (k_state c)" "0 \<le> s_naccepted s2" "ACCEPTED_STATE (k_state c) \<Longrightarrow> 0 < s_naccepted s2"
      using fm ip D fl pos by (simp_all add: find_server_set_server) (simp_all add: c1_def c2_def s1_def s2_def m_def)
    from active_step [OF this, of "ACCEPTED_STATE s"] ip show ?thesis
      by (simp add: net_access c3_def s3_def recount_def) (simp add: s2_def s1_def)
  qed
  have "switch_state n sid s =
      Some (set_conn (set_server (set_conn m sid c3) s3) sid ((if s = CS_CONNECTED then create_connection_buffers c3 else c3)\<lparr>k_state := s\<rparr>))"
    unfolding switch_state_def by (simp add: c Let_def W O A)
  also have "(if s = CS_CONNECTED then create_connection_buffers c3 else c3)\<lparr>k_state := s\<rparr> = retag c s"
    by (cases "s = CS_CONNECTED") (simp_all add: retag_def create_connection_buffers_def c1_def c2_def c3_def)
  also have "s3 = ?r"
    unfolding s1_def s2_def s3_def by (rule serverinfo.equality) (simp_all add: recount_def)
  also have "set_conn (set_server (set_conn m sid c3) ?r) sid (retag c s) = switched n sid s"
    unfolding switched_def Let_def c si option.sel m_def by (simp only: set_conn_set_server set_conn_set_conn)
  finally show ?thesis .
qed

subsection \<open>The invariant after a change of one connection\<close>

lemma in_class_upd:
  assumes "n_store n' = (n_store n)(sid \<mapsto> d)" "n_store n sid = Some c" "k_ip d = k_ip c"
  shows "in_class P n' ip =
    (if ip = k_ip c then (if P (k_state d) then insert sid (in_class P n ip) else in_class P n ip - {sid}) else in_class P n ip)"
  using assms by (auto simp: in_class_def)

lemma card_class_upd:
  assumes "n_store n' = (n_store n)(sid \<mapsto> d)" "n_store n sid = Some c" "k_ip d = k_ip c" "finite (dom (n_store n))"
  shows "int (card (in_class P n' (k_ip c))) = int (card (in_class P n (k_ip c))) + ob (P (k_state d)) - ob (P (k_state c))"
proof -
  have fin: "finite (in_class P n (k_ip c))" by (rule finite_in_class [OF assms(4)])
  have m: "sid \<in> in_class P n (k_ip c) \<longleftrightarrow> P (k_state c)" using assms(2) by (simp add: in_class_def)
  have "0 < card (in_class P n (k_ip c))" if "P (k_state c)" using fin m that by (auto simp: card_gt_0_iff)
  then show ?thesis unfolding in_class_upd [OF assms(1-3)] using fin m
    by (auto simp: card_insert_if card_Diff_singleton_if)
qed

definition put :: "net \<Rightarrow> u32 \<Rightarrow> connection \<Rightarrow> connection \<Rightarrow> serverinfo \<Rightarrow> net" where
  "put n sid c d si =
     set_server (set_conn (n\<lparr>n_connections := relist (n_connections n) sid (k_state c) (k_state d)\<rparr>) sid d)
       (recount si sid (k_state c) (k_state d))"

lemma put_fields [simp]:
  "n_store (put n sid c d si) = (n_store n)(sid \<mapsto> d)" "n_connhash (put n sid c d si) = n_connhash n"
  "n_outports (put n sid c d si) = n_outports n" "n_iothid (put n sid c d si) = n_iothid n"
  "n_connections (put n sid c d si) = relist (n_connections n) sid (k_state c) (k_state d)"
  "map s_ip (n_servers (put n sid c d si)) = map s_ip (n_servers n)"
  by (simp_all add: put_def)

lemma recount_ip [simp]: "s_ip (recount si sid a b) = s_ip si"
  by (simp add: recount_def)

lemma conn_ok_put [simp]: "conn_ok (put n sid c d si) s e \<longleftrightarrow> conn_ok n s e"
  by (simp add: conn_ok_def put_def find_server_set_server_None del: not_None_eq)

lemma server_ok_other:
  assumes "server_ok n t" "\<And>P. in_class P n' (s_ip t) = in_class P n (s_ip t)"
  shows "server_ok n' t"
  using assms by (simp add: server_ok_def)

lemma server_ok_recount:
  assumes at: "conn_at n sid c si" and fin: "finite (dom (n_store n))"
    and st: "n_store n' = (n_store n)(sid \<mapsto> d)" and ip: "k_ip d = k_ip c"
  shows "server_ok n' (recount si sid (k_state c) (k_state d))"
proof -
  have c: "n_store n sid = Some c" and so: "server_ok n si" and si: "s_ip si = k_ip c" using at by (simp_all add: conn_at_def)
  have W: "sid \<in> set (s_waiting si) \<longleftrightarrow> WAITING_STATE (k_state c)" using at by (auto simp: conn_at_def)
  note K = card_class_upd [OF st c ip fin]
  have "distinct (s_waiting (recount si sid (k_state c) (k_state d)))"
    using so W by (auto simp: recount_def server_ok_def)
  moreover have "set (s_waiting (recount si sid (k_state c) (k_state d))) = in_class WAITING_STATE n' (k_ip c)"
    using so W si unfolding in_class_upd [OF st c ip] by (auto simp: recount_def server_ok_def)
  ultimately show ?thesis using so si K [of WAITING_STATE] K [of OPENING_STATE] K [of ACCEPTED_STATE]
    by (simp add: server_ok_def recount_def)
qed

lemma net_core_put:
  assumes inv: "net_core n" and at: "conn_at n sid c si" and ip: "k_ip d = k_ip c" and d: "conn_ok n sid d"
  shows "net_core (put n sid c d si)"
proof -
  let ?n = "put n sid c d si"
  have c: "n_store n sid = Some c" and fs: "find_server n (k_ip c) = Some si" and si: "s_ip si = k_ip c" using at by (simp_all add: conn_at_def)
  have fin: "finite (dom (n_store n))" and dis: "distinct (map s_ip (n_servers n))" and so: "\<And>t. t \<in> set (n_servers n) \<Longrightarrow> server_ok n t"
    and dc: "distinct (n_connections n)"
    and sc: "set (n_connections n) = {sid. \<exists>c. n_store n sid = Some c \<and> \<not> WAITING_STATE (k_state c)}"
    and ho: "hash_ok n" and co: "\<And>s e. n_store n s = Some e \<Longrightarrow> conn_ok n s e"
    using inv by (simp_all add: net_core_def)
  have "server_ok ?n t" if "t \<in> set (n_servers ?n)" for t
  proof (cases "s_ip t = s_ip si")
    case True
    then have "t = recount si sid (k_state c) (k_state d)" using that by (auto simp: put_def set_server_def split: if_splits)
    then show ?thesis using server_ok_recount [OF at fin _ ip, of ?n] by simp
  next
    case False
    then have "t \<in> set (n_servers n)" using that by (auto simp: put_def set_server_def split: if_splits)
    then show ?thesis using so False si by (intro server_ok_other [OF so]) (simp_all add: in_class_upd [OF _ c ip])
  qed
  moreover have "conn_ok ?n s e" if "n_store ?n s = Some e" for s e
    using that d co by (auto split: if_splits)
  moreover have "set (n_connections ?n) = {s. \<exists>e. n_store ?n s = Some e \<and> \<not> WAITING_STATE (k_state e)}" "distinct (n_connections ?n)"
    using sc dc c by (auto simp: relist_def)
  moreover have "hash_ok ?n" using ho c by (auto simp: hash_ok_def)
  ultimately show ?thesis using fin dis by (simp add: net_core_def)
qed

lemma net_inv_put:
  "net_inv n \<Longrightarrow> conn_at n sid c si \<Longrightarrow> k_ip d = k_ip c \<Longrightarrow> conn_ok n sid d \<Longrightarrow> ports_ok (put n sid c d si) \<Longrightarrow>
   net_inv (put n sid c d si)"
  by (simp add: net_inv_def net_core_put)

lemma switched_put: "conn_at n sid c si \<Longrightarrow> switched n sid s = put n sid c (retag c s) si"
  by (simp add: switched_def put_def conn_at_def retag_def)

lemma ports_ok_same:
  assumes "ports_ok n" "n_store n sid = Some c" "n_store n' = (n_store n)(sid \<mapsto> d)" "k_outport d = k_outport c" "n_outports n' = n_outports n"
  shows "ports_ok n'"
proof -
  have "holds_port n' = holds_port n" using assms(2-4) by (auto simp: holds_port_def fun_eq_iff)
  then show ?thesis using assms(1,5) by (simp add: ports_ok_def)
qed

lemma retag_simps [simp]:
  "k_ip (retag c s) = k_ip c" "k_outport (retag c s) = k_outport c" "k_state (retag c s) = s" "k_sockid (retag c s) = k_sockid c"
  "k_sock (retag c s) = k_sock c" "k_owner (retag c s) = k_owner c" "k_isreg (retag c s) = k_isreg c" "k_port (retag c s) = k_port c"
  "k_connect_frame (retag c s) = k_connect_frame c" "k_haderror (retag c s) = k_haderror c" "k_errn (retag c s) = k_errn c"
  by (simp_all add: retag_def create_connection_buffers_def)

definition io_state :: "conn_state \<Rightarrow> bool" where
  "io_state s \<longleftrightarrow> s = CS_CONNECTED \<or> s = CS_CONNECTED_DONE_WRITING \<or> s = CS_ACCEPTED \<or> s = CS_ACCEPTED_DONE_WRITING \<or> s = CS_ACCEPTED_DONE_READING"

lemma can_io: "CANREAD c \<or> CANWRITE c \<longleftrightarrow> io_state (k_state c)"
  by (auto simp: CANREAD_def CANWRITE_def io_state_def)

definition buffered :: "connection \<Rightarrow> bool" where
  "buffered c \<longleftrightarrow> k_recvbuf c \<noteq> None \<and> k_sendbuf c \<noteq> None"

lemma conn_ok_alt:
  "conn_ok n sid c \<longleftrightarrow>
     k_sockid c = \<lparr>so_coordid = n_iothid n, so_sid = sid\<rparr> \<and>
     k_iswaiting c = WAITING_STATE (k_state c) \<and> k_isopening c = OPENING_STATE (k_state c) \<and>
     k_isaccepted c = ACCEPTED_STATE (k_state c) \<and> find_server n (k_ip c) \<noteq> None \<and> (io_state (k_state c) \<longrightarrow> buffered c)"
  unfolding conn_ok_def can_io buffered_def ..

lemma net_invD: "net_inv n \<Longrightarrow> n_store n sid = Some c \<Longrightarrow> conn_ok n sid c"
  by (simp add: net_inv_def net_core_def)

lemma net_inv_ports: "net_inv n \<Longrightarrow> ports_ok n"
  by (simp add: net_inv_def net_core_def)

lemma switched_inv:
  assumes inv: "net_inv n" and c: "n_store n sid = Some c" and b: "io_state s \<Longrightarrow> s = CS_CONNECTED \<or> buffered c"
  shows "switch_state n sid s = Some (switched n sid s)" "net_inv (switched n sid s)" "n_store (switched n sid s) = (n_store n)(sid \<mapsto> retag c s)"
proof -
  obtain si where at: "conn_at n sid c si" using net_inv_conn_at [OF inv c] .
  show "switch_state n sid s = Some (switched n sid s)" by (rule switch_state_switched [OF at])
  have "buffered (retag c s)" if "io_state s"
    using b [OF that] by (auto simp: buffered_def retag_def create_connection_buffers_def split: option.splits)
  then have "conn_ok n sid (retag c s)"
    using net_invD [OF inv c] unfolding conn_ok_alt by (simp add: retag_def create_connection_buffers_def)
  then show "net_inv (switched n sid s)" unfolding switched_put [OF at]
    using net_inv_ports [OF inv] c by (intro net_inv_put [OF inv at]) (auto intro: ports_ok_same)
  show "n_store (switched n sid s) = (n_store n)(sid \<mapsto> retag c s)" by (simp add: switched_put [OF at])
qed

lemma recount_same [simp]: "recount si sid s s = si"
  by (rule serverinfo.equality) (simp_all add: recount_def)

lemma put_same:
  assumes "conn_at n sid c si" "k_state d = k_state c"
  shows "put n sid c d si = set_conn n sid d"
proof -
  have "set_server (set_conn n sid d) si = set_conn n sid d"
    using assms(1) by (intro set_server_same [of _ "k_ip c"]) (simp_all add: conn_at_def)
  then show ?thesis using assms(2) by (simp add: put_def relist_def)
qed

text \<open>The fields of a connection that the invariant does not look at.\<close>

definition same_role :: "connection \<Rightarrow> connection \<Rightarrow> bool" where
  "same_role c d \<longleftrightarrow> k_sockid d = k_sockid c \<and> k_ip d = k_ip c \<and> k_state d = k_state c \<and> k_iswaiting d = k_iswaiting c \<and>
     k_isopening d = k_isopening c \<and> k_isaccepted d = k_isaccepted c \<and> (buffered c \<longrightarrow> buffered d)"

lemma same_role_ok: "same_role c d \<Longrightarrow> conn_ok n sid c \<Longrightarrow> conn_ok n sid d"
  by (auto simp: same_role_def conn_ok_alt)

lemma set_conn_inv:
  assumes "net_inv n" "n_store n sid = Some c" "same_role c d" "ports_ok (set_conn n sid d)"
  shows "net_inv (set_conn n sid d)"
proof -
  obtain si where at: "conn_at n sid c si" using net_inv_conn_at [OF assms(1,2)] .
  have P: "put n sid c d si = set_conn n sid d" by (rule put_same [OF at]) (use assms(3) in \<open>simp add: same_role_def\<close>)
  have "net_inv (put n sid c d si)"
    using assms(3,4) same_role_ok [OF assms(3) net_invD [OF assms(1,2)]] unfolding P [symmetric]
    by (intro net_inv_put [OF assms(1) at]) (simp_all add: same_role_def)
  then show ?thesis by (simp add: P)
qed

lemma set_conn_inv':
  assumes "net_inv n" "n_store n sid = Some c" "same_role c d" "k_outport d = k_outport c"
  shows "net_inv (set_conn n sid d)"
  using assms by (intro set_conn_inv) (auto intro: ports_ok_same [OF net_inv_ports])

lemma net_core_cong:
  assumes "n_store n' = n_store n" "n_connections n' = n_connections n" "n_servers n' = n_servers n"
    "n_connhash n' = n_connhash n" "n_iothid n' = n_iothid n"
  shows "net_core n' \<longleftrightarrow> net_core n"
proof -
  have "in_class P n' = in_class P n" for P using assms by (simp add: in_class_def fun_eq_iff)
  moreover have "find_server n' = find_server n" using assms by (simp add: find_server_def fun_eq_iff)
  ultimately show ?thesis using assms by (simp add: net_core_def conn_ok_def server_ok_def hash_ok_def)
qed

lemma net_inv_cong:
  assumes "n_store n' = n_store n" "n_connections n' = n_connections n" "n_servers n' = n_servers n"
    "n_connhash n' = n_connhash n" "n_outports n' = n_outports n" "n_iothid n' = n_iothid n"
  shows "net_inv n' \<longleftrightarrow> net_inv n"
proof -
  have "holds_port n' = holds_port n" using assms by (simp add: holds_port_def fun_eq_iff)
  then show ?thesis using assms net_core_cong [of n' n] by (simp add: net_inv_def ports_ok_def)
qed

lemma emit_inv [simp]: "net_inv (emit n os) \<longleftrightarrow> net_inv n"
  by (rule net_inv_cong) simp_all

text \<open>The parts of a node that no event of a connection changes.\<close>

definition frame :: "net \<Rightarrow> net \<Rightarrow> bool" where
  "frame n n' \<longleftrightarrow> n_iothid n' = n_iothid n \<and> n_listenport n' = n_listenport n \<and> n_iosize n' = n_iosize n \<and> n_mainl n' = n_mainl n \<and>
     n_listeners n' = n_listeners n \<and> n_nextsid n' = n_nextsid n"

lemma frame_refl [simp]: "frame n n" "frame n (emit n os)" "frame n (set_conn n sid c)"
  by (simp_all add: frame_def)

lemma frame_trans: "frame a b \<Longrightarrow> frame b c \<Longrightarrow> frame a c"
  by (simp add: frame_def)

lemma frame_switched [simp]: "frame n (switched n sid s)"
  by (simp add: frame_def switched_def Let_def)

lemma emit_emit [simp]: "emit (emit n a) b = emit n (a @ b)" "emit n [] = n"
  by (simp_all add: emit_def)

subsection \<open>Opening a socket\<close>

lemma new_port_ok:
  assumes ok: "ports_ok n" and m: "0 < ps_max (n_outports n)" and B: "bind_client_port f (n_outports n) = (p, pb)"
    and st: "n_store n' = (n_store n)(sid \<mapsto> d)" "k_outport d = p" "n_outports n' = pb"
  shows "ports_ok n'"
proof -
  let ?U = "{p. 0 \<le> p \<and> (\<exists>s. holds_port n s p)}"
  have H: "pp.held (n_outports n) ?U" using ok m by (simp add: ports_ok_def)
  note R = bind_client_port_held [OF H B]
  have hp: "holds_port n' s q \<longleftrightarrow> (if s = sid then q = p else holds_port n s q)" for s q
    using st by (auto simp: holds_port_def)
  have U': "{q. 0 \<le> q \<and> (\<exists>s. holds_port n' s q)} \<subseteq> (if 0 \<le> p then insert p ?U else ?U)"
    by (auto simp: hp split: if_splits)
  have "pp.held pb {q. 0 \<le> q \<and> (\<exists>s. holds_port n' s q)}"
    using R by (intro pp.held_mono [OF _ U']) auto
  moreover have "s = t" if "0 \<le> q" "holds_port n' s q" "holds_port n' t q" for s t q
    using that R ok unfolding hp ports_ok_def by (cases "s = sid"; cases "t = sid") auto
  moreover have "ps_max pb = ps_max (n_outports n)" by (rule bind_client_port_max [OF B])
  ultimately show ?thesis using m st(3) by (auto simp: ports_ok_def)
qed

lemma outports_inv:
  assumes inv: "net_inv n" and c: "n_store n sid = Some c" and r: "same_role c d" and p: "ports_ok (set_conn (n\<lparr>n_outports := pb\<rparr>) sid d)"
  shows "net_inv (set_conn (n\<lparr>n_outports := pb\<rparr>) sid d)"
proof -
  obtain si where at: "conn_at n sid c si" using net_inv_conn_at [OF inv c] .
  have "net_core (put n sid c d si)"
    using inv r same_role_ok [OF r net_invD [OF inv c]] by (intro net_core_put [OF _ at]) (simp_all add: net_inv_def same_role_def)
  also have "put n sid c d si = set_conn n sid d" by (rule put_same [OF at]) (use r in \<open>simp add: same_role_def\<close>)
  finally have "net_core (set_conn (n\<lparr>n_outports := pb\<rparr>) sid d)"
    by (subst net_core_cong [of _ "set_conn n sid d"]) simp_all
  then show ?thesis using p by (simp add: net_inv_def)
qed

text \<open>What an event never changes in a connection that survives it; a buffer may be created.\<close>

definition keeps :: "connection \<Rightarrow> connection \<Rightarrow> bool" where
  "keeps c d \<longleftrightarrow> k_sockid d = k_sockid c \<and> k_listener d = k_listener c \<and> k_ip d = k_ip c \<and> k_port d = k_port c \<and> k_owner d = k_owner c \<and> k_isreg d = k_isreg c \<and>
     k_donewelcome d = k_donewelcome c \<and> k_donehandshake d = k_donehandshake c \<and>
     (\<forall>b. k_sendbuf c = Some b \<longrightarrow> k_sendbuf d = Some b) \<and> (\<forall>b. k_recvbuf c = Some b \<longrightarrow> k_recvbuf d = Some b)"

lemma keeps_refl [simp]: "keeps c c"
  by (simp add: keeps_def)

lemma keeps_trans: "keeps a b \<Longrightarrow> keeps b c \<Longrightarrow> keeps a c"
  by (simp add: keeps_def)

lemma keeps_retag [simp]: "keeps c (retag c s)"
  by (simp add: keeps_def retag_def create_connection_buffers_def)

text \<open>The part of a connection that opening its socket does not touch.\<close>

definition same_owner :: "connection \<Rightarrow> connection \<Rightarrow> bool" where
  "same_owner c d \<longleftrightarrow> k_owner d = k_owner c \<and> k_isreg d = k_isreg c \<and> k_connect_frame d = k_connect_frame c \<and>
     k_port d = k_port c \<and> k_haderror d = k_haderror c \<and> keeps c d"

lemma initiate_connection_cases:
  assumes c: "n_store n sid = Some c" and os: "\<not> os_connected os"
  obtains (keep) ok d where "initiate_connection n os sid = Some (ok, set_conn n sid d)" "same_role c d" "same_owner c d" "k_outport d = k_outport c"
  | (bound) ok d pb where "initiate_connection n os sid = Some (ok, set_conn (n\<lparr>n_outports := pb\<rparr>) sid d)" "same_role c d" "same_owner c d"
      "0 < ps_max (n_outports n)" "bind_client_port (os_bind os) (n_outports n) = (k_outport d, pb)"
proof (cases "os_socket os < 0 \<or> \<not> os_nonblock os \<or> (0 < ps_max (n_outports n) \<and> \<not> os_reuseaddr os)")
  case True
  let ?d = "if os_socket os < 0 then c\<lparr>k_sock := os_socket os, k_errn := os_socket_errno os\<rparr> else c\<lparr>k_sock := os_socket os\<rparr>"
  have "initiate_connection n os sid = Some (False, set_conn n sid ?d)"
    using True c by (auto simp: initiate_connection_def Let_def)
  then show ?thesis by (rule keep) (simp_all add: same_role_def same_owner_def buffered_def keeps_def)
next
  case False
  let ?c = "\<lambda>p. c\<lparr>k_sock := os_socket os, k_outport := p\<rparr>"
  show ?thesis
  proof (cases "0 < ps_max (n_outports n)")
    case True
    obtain p pb where B: "bind_client_port (os_bind os) (n_outports n) = (p, pb)" by force
    let ?d = "if p < 0 then ?c p else if os_connect_errno os \<noteq> EINPROGRESS then (?c p)\<lparr>k_errn := os_connect_errno os\<rparr> else (?c p)\<lparr>k_outgoing := True\<rparr>"
    have "initiate_connection n os sid = Some (\<not> p < 0 \<and> os_connect_errno os = EINPROGRESS, set_conn (n\<lparr>n_outports := pb\<rparr>) sid ?d)"
      using False True c B os by (simp add: initiate_connection_def Let_def)
    then show ?thesis by (rule bound) (use True B in \<open>simp_all add: same_role_def same_owner_def buffered_def keeps_def\<close>)
  next
    case max: False
    let ?d = "if os_connect_errno os \<noteq> EINPROGRESS then (?c (k_outport c))\<lparr>k_errn := os_connect_errno os\<rparr> else (?c (k_outport c))\<lparr>k_outgoing := True\<rparr>"
    have "initiate_connection n os sid = Some (os_connect_errno os = EINPROGRESS, set_conn n sid ?d)"
      using False max c os by (simp add: initiate_connection_def Let_def)
    then show ?thesis by (rule keep) (simp_all add: same_role_def same_owner_def buffered_def keeps_def)
  qed
qed

lemma initiate_connection_inv:
  assumes inv: "net_inv n" and c: "n_store n sid = Some c" and os: "\<not> os_connected os"
  obtains ok n' d where "initiate_connection n os sid = Some (ok, n')" "net_inv n'" "n_store n' = (n_store n)(sid \<mapsto> d)"
    "same_role c d" "same_owner c d" "n_out n' = n_out n" "n_servers n' = n_servers n" "frame n n'"
  using c os
proof (cases rule: initiate_connection_cases)
  case (keep ok d)
  then show ?thesis using set_conn_inv' [OF inv c keep(2,4)] by (intro that [OF keep(1)]) (simp_all add: frame_def)
next
  case (bound ok d pb)
  then show ?thesis using outports_inv [OF inv c bound(2) new_port_ok [OF net_inv_ports [OF inv] bound(4,5)]] by (intro that [OF bound(1)]) (simp_all add: frame_def)
qed

subsection \<open>Removing a connection\<close>

lemma released_port_ok:
  assumes ok: "ports_ok n" and c: "n_store n sid = Some c" and n': "n_store n' = (n_store n)(sid := None)"
  shows "\<exists>pb. (if 0 \<le> k_outport c then portset_releaseport (n_outports n) (k_outport c) else Some (n_outports n)) = Some pb \<and>
    (n_outports n' = pb \<longrightarrow> ports_ok n')"
proof (cases "0 \<le> k_outport c")
  case False
  have hp: "holds_port n' s q \<longleftrightarrow> s \<noteq> sid \<and> holds_port n s q" for s q using n' by (auto simp: holds_port_def)
  have "pp.held pb {q. 0 \<le> q \<and> (\<exists>s. s \<noteq> sid \<and> holds_port n s q)}" if "pp.held pb {q. 0 \<le> q \<and> (\<exists>s. holds_port n s q)}" for pb
    by (rule pp.held_mono [OF that]) auto
  then have "n_outports n' = n_outports n \<longrightarrow> ports_ok n'"
    using ok unfolding ports_ok_def hp by (cases "0 < ps_max (n_outports n)") auto
  then show ?thesis using False by simp
next
  case True
  let ?U = "{q. 0 \<le> q \<and> (\<exists>s. holds_port n s q)}" and ?p = "k_outport c"
  have own: "holds_port n sid ?p" using c by (simp add: holds_port_def)
  then have m: "0 < ps_max (n_outports n)" using ok True by (force simp: ports_ok_def split: if_splits)
  then have "pp.held (n_outports n) ?U" using ok by (simp add: ports_ok_def)
  from pp.held_release [OF this, of ?p] own True obtain pb where
    R: "portset_releaseport (n_outports n) ?p = Some pb" "pp.held pb (?U - {?p})" by blast
  have hp: "holds_port n' s q \<longleftrightarrow> s \<noteq> sid \<and> holds_port n s q" for s q using n' by (auto simp: holds_port_def)
  have "{q. 0 \<le> q \<and> (\<exists>s. holds_port n' s q)} \<subseteq> ?U - {?p}"
    using ok own True by (auto simp: hp ports_ok_def)
  then have "pp.held pb {q. 0 \<le> q \<and> (\<exists>s. holds_port n' s q)}" by (rule pp.held_mono [OF R(2)])
  moreover have "ps_max pb = ps_max (n_outports n)"
    using R(1) by (auto simp: portset_releaseport_def Let_def split: if_splits)
  ultimately have "n_outports n' = pb \<longrightarrow> ports_ok n'" using ok m by (auto simp: ports_ok_def hp)
  then show ?thesis using R(1) True by auto
qed

lemma remove_connection_inv:
  assumes inv: "net_inv n" and c: "n_store n sid = Some c" and e: "k_state c = CS_END"
  obtains n' where "remove_connection n sid = Some n'" "net_inv n'" "n_store n' = (n_store n)(sid := None)"
    "n_out n' = n_out n" "n_servers n' = n_servers n" "frame n n'"
    "n_toclose n' = (if 0 \<le> k_sock c then k_sock c # n_toclose n else n_toclose n)"
proof -
  have nc: "\<not> WAITING_STATE (k_state c)" "\<not> OPENING_STATE (k_state c)" "\<not> ACCEPTED_STATE (k_state c)"
    using e by (simp_all add: WAITING_STATE_def OPENING_STATE_def ACCEPTED_STATE_def)
  have mem: "sid \<in> set (n_connections n)" using inv c nc(1) by (auto simp: net_inv_def net_core_def)
  have sid: "so_sid (k_sockid c) = sid" using net_invD [OF inv c] by (simp add: conn_ok_def)
  let ?h = "connhash_slot sid"
  have hm: "sid \<in> set (n_connhash n ?h)" using inv c by (auto simp: net_inv_def net_core_def hash_ok_def)
  let ?n1 = "add_connection_stats n c"
  let ?n2 = "if 0 \<le> k_sock c then ?n1\<lparr>n_toclose := k_sock c # n_toclose ?n1\<rparr> else ?n1"
  have f: "n_store ?n1 = n_store n" "n_connections ?n1 = n_connections n" "n_connhash ?n1 = n_connhash n" "n_outports ?n1 = n_outports n"
    "n_out ?n1 = n_out n" "n_servers ?n1 = n_servers n" "n_toclose ?n1 = n_toclose n" "n_iothid ?n1 = n_iothid n" "n_listenport ?n1 = n_listenport n" "n_iosize ?n1 = n_iosize n"
    "n_mainl ?n1 = n_mainl n" "n_listeners ?n1 = n_listeners n" "n_nextsid ?n1 = n_nextsid n"
    by (simp_all add: add_connection_stats_def Let_def)
  let ?rel = "if 0 \<le> k_outport c then portset_releaseport (n_outports n) (k_outport c) else Some (n_outports n)"
  obtain pb where P: "?rel = Some pb"
    and pok: "\<And>n'. n_store n' = (n_store n)(sid := None) \<Longrightarrow> n_outports n' = pb \<Longrightarrow> ports_ok n'"
  proof -
    obtain pb where P: "?rel = Some pb" using released_port_ok [OF net_inv_ports [OF inv] c, of "n\<lparr>n_store := (n_store n)(sid := None)\<rparr>"] by auto
    then show thesis using released_port_ok [OF net_inv_ports [OF inv] c] that [of pb] by auto
  qed
  let ?n' = "?n2\<lparr>n_connhash := (n_connhash n)(?h := remove1 sid (n_connhash n ?h)), n_connections := remove1 sid (n_connections n),
      n_outports := pb, n_store := (n_store n)(sid := None)\<rparr>"
  have R: "remove_connection n sid = Some ?n'"
    using c e mem hm f P sid
    by (cases "0 \<le> k_outport c") (simp_all add: remove_connection_def connhash_remove_def llist_remove_def Let_def)
  show ?thesis
  proof (rule that [OF R])
    have cl: "in_class P ?n' ip = in_class P n ip" if "\<not> P CS_END" for P ip using that c e by (auto simp: in_class_def)
    have fs: "find_server ?n' = find_server n" using f by (simp add: find_server_def fun_eq_iff)
    have so: "server_ok ?n' si \<longleftrightarrow> server_ok n si" for si
      using cl [of WAITING_STATE] cl [of OPENING_STATE] cl [of ACCEPTED_STATE] e nc by (simp add: server_ok_def)
    have "hash_ok ?n'" using inv by (auto simp: net_inv_def net_core_def hash_ok_def)
    moreover have "ports_ok ?n'" by (rule pok) simp_all
    moreover have "n_iothid ?n' = n_iothid n" "n_servers ?n' = n_servers n" using f by simp_all
    ultimately show "net_inv ?n'"
      using inv c nc so unfolding net_inv_def net_core_def conn_ok_def fs by (auto split: if_splits)
  qed (use f in \<open>simp_all add: frame_def\<close>)
qed

subsection \<open>The state machine\<close>

text \<open>Outcomes of an event: the connection is replaced by \<open>d\<close>, or gone; \<open>notes\<close> are the notices sent.\<close>

definition moved :: "net \<Rightarrow> u32 \<Rightarrow> connection option \<Rightarrow> io_out list \<Rightarrow> net \<Rightarrow> bool" where
  "moved n sid d notes n' \<longleftrightarrow>
     net_inv n' \<and> n_store n' = (n_store n)(sid := d) \<and> n_out n' = n_out n @ notes \<and> map s_ip (n_servers n') = map s_ip (n_servers n) \<and>
     frame n n'"

definition closed_notes :: "connection \<Rightarrow> bool \<Rightarrow> io_out list" where
  "closed_notes c error =
     (if 0 \<noteq> ep_localid (k_owner c) then [ConnectionClosed (k_owner c) (k_sockid c) error] else []) @ lost_peer c"

definition connect_notes :: "connection \<Rightarrow> bool \<Rightarrow> io_out list" where
  "connect_notes c error =
     (if 0 < k_connect_frame c
      then [ConnectResponse (k_owner c) (k_connect_frame c) error (k_errn c) (if error then null_sockid else k_sockid c)] else [])"

definition stable :: "conn_state \<Rightarrow> bool" where
  "stable s \<longleftrightarrow> s \<noteq> CS_FAILED \<and> s \<noteq> CS_FINISHED \<and> s \<noteq> CS_END"

lemma fsm_auto_stable: "n_store n sid = Some c \<Longrightarrow> stable (k_state c) \<Longrightarrow> connection_fsm n os sid CE_AUTO = Some n"
  by (cases "k_state c") (simp_all add: connection_fsm.simps stable_def no_event_def)

lemma moved_trans: "moved n sid d notes n1 \<Longrightarrow> moved n1 sid e notes' n2 \<Longrightarrow> moved n sid e (notes @ notes') n2"
  by (auto simp: moved_def intro: frame_trans)

lemma moved_step: "moved n sid d notes n1 \<Longrightarrow> \<exists>n2. f n1 = Some n2 \<and> moved n1 sid e notes' n2 \<Longrightarrow> \<exists>n2. f n1 = Some n2 \<and> moved n sid e (notes @ notes') n2"
  using moved_trans by blast

lemma switched_moved:
  assumes inv: "net_inv n" and c: "n_store n sid = Some c" and b: "io_state s \<Longrightarrow> s = CS_CONNECTED \<or> buffered c"
  shows "switch_state n sid s = Some (switched n sid s)" "moved n sid (Some (retag c s)) [] (switched n sid s)"
proof -
  note S = switched_inv [OF inv c b]
  show "switch_state n sid s = Some (switched n sid s)" using S(1) by simp
  have "n_out (switched n sid s) = n_out n" "map s_ip (n_servers (switched n sid s)) = map s_ip (n_servers n)"
    by (simp_all add: switched_def Let_def)
  then show "moved n sid (Some (retag c s)) [] (switched n sid s)" using S(2,3) by (simp add: moved_def)
qed

lemma state_stable:
  assumes "net_inv n" "n_store n sid = Some c" "io_state s \<Longrightarrow> s = CS_CONNECTED \<or> buffered c" "stable s"
  shows "\<exists>n'. connection_state n os sid s = Some n' \<and> moved n sid (Some (retag c s)) [] n'"
proof -
  note S = switched_moved [OF assms(1-3)]
  then have "n_store (switched n sid s) sid = Some (retag c s)" by (simp add: moved_def)
  then show ?thesis using S assms(4) by (simp add: connection_state.simps fsm_auto_stable)
qed

lemma not_io [simp]: "\<not> io_state CS_END" "\<not> io_state CS_FINISHED" "\<not> io_state CS_FAILED" "\<not> io_state CS_WAITING"
  "\<not> io_state CS_READY" "\<not> io_state CS_CONNECTING"
  by (simp_all add: io_state_def)

lemma state_end:
  assumes inv: "net_inv n" and c: "n_store n sid = Some c"
  shows "\<exists>n'. connection_state n os sid CS_END = Some n' \<and> moved n sid None [] n' \<and>
    n_toclose n' = (if 0 \<le> k_sock c then k_sock c # n_toclose n else n_toclose n)"
proof -
  note S = switched_moved [OF inv c, of CS_END, simplified]
  have I: "net_inv (switched n sid CS_END)" and c1: "n_store (switched n sid CS_END) sid = Some (retag c CS_END)"
    using S(2) by (simp_all add: moved_def)
  obtain n' where R: "remove_connection (switched n sid CS_END) sid = Some n'" "net_inv n'"
      "n_store n' = (n_store (switched n sid CS_END))(sid := None)" "n_out n' = n_out (switched n sid CS_END)"
      "n_servers n' = n_servers (switched n sid CS_END)" "frame (switched n sid CS_END) n'"
      "n_toclose n' = (if 0 \<le> k_sock (retag c CS_END) then k_sock (retag c CS_END) # n_toclose (switched n sid CS_END) else n_toclose (switched n sid CS_END))"
    using remove_connection_inv [OF I c1] by auto
  have "n_toclose (switched n sid CS_END) = n_toclose n" by (simp add: switched_def Let_def)
  then show ?thesis using S R c1 frame_trans [OF frame_switched R(6)] by (simp add: connection_state.simps connection_fsm.simps moved_def)
qed

lemma state_finished:
  assumes inv: "net_inv n" and c: "n_store n sid = Some c"
  shows "\<exists>n'. connection_state n os sid CS_FINISHED = Some n' \<and> moved n sid None (closed_notes c (k_haderror c)) n' \<and>
    n_toclose n' = (if 0 \<le> k_sock c then k_sock c # n_toclose n else n_toclose n)"
proof -
  let ?n = "switched n sid CS_FINISHED" and ?d = "retag c CS_FINISHED"
  note S = switched_moved [OF inv c, of CS_FINISHED, simplified]
  have st: "n_store ?n sid = Some ?d" using S(2) by (simp add: moved_def)
  let ?m = "emit ?n (closed_notes c (k_haderror c))"
  have N: "notify_closed ?n sid (k_haderror ?d) = Some ?m"
    using st by (simp add: notify_closed_def closed_notes_def lost_peer_def Let_def)
  have M: "moved n sid (Some ?d) (closed_notes c (k_haderror c)) ?m" using S(2) by (simp add: moved_def frame_def)
  have I: "net_inv ?m" "n_store ?m sid = Some ?d" using M by (simp_all add: moved_def)
  from state_end [OF this, of os] obtain n' where E: "connection_state ?m os sid CS_END = Some n'" "moved ?m sid None [] n'"
      "n_toclose n' = (if 0 \<le> k_sock c then k_sock c # n_toclose ?m else n_toclose ?m)" by auto
  have "n_toclose ?m = n_toclose n" by (simp add: switched_def Let_def)
  then show ?thesis using S(1) st N E moved_trans [OF M E(2)] by (simp add: connection_state.simps [of n] connection_fsm.simps)
qed

lemma notify_connect_moved:
  assumes inv: "net_inv n" and c: "n_store n sid = Some c"
  shows "\<exists>n' d. notify_connect n sid error = Some n' \<and> moved n sid (Some d) (connect_notes c error @ (if error then lost_peer c else [])) n' \<and>
    same_role c d \<and> keeps c d \<and> k_connect_frame d \<le> 0 \<and> k_sock d = k_sock c \<and> n_toclose n' = n_toclose n"
proof (cases "0 < k_connect_frame c")
  case True
  let ?d = "c\<lparr>k_connect_frame := 0\<rparr>"
  have "same_role c ?d" by (simp add: same_role_def buffered_def)
  then show ?thesis using True c set_conn_inv' [OF inv c, of ?d]
    by (intro exI [of _ "emit (set_conn n sid ?d) (connect_notes c error @ (if error then lost_peer c else []))"] exI [of _ ?d])
      (simp add: notify_connect_def connect_notes_def moved_def frame_def keeps_def Let_def)
next
  case False
  then show ?thesis using c inv
    by (intro exI [of _ "emit n (if error then lost_peer c else [])"] exI [of _ c])
      (simp add: notify_connect_def connect_notes_def moved_def same_role_def fun_upd_idem Let_def)
qed

lemma state_failed:
  assumes inv: "net_inv n" and c: "n_store n sid = Some c"
  shows "\<exists>n'. connection_state n os sid CS_FAILED = Some n' \<and> moved n sid None (connect_notes c True @ lost_peer c) n' \<and>
    n_toclose n' = (if 0 \<le> k_sock c then k_sock c # n_toclose n else n_toclose n)"
proof -
  let ?n = "switched n sid CS_FAILED" and ?d = "retag c CS_FAILED"
  note S = switched_moved [OF inv c, of CS_FAILED, simplified]
  have st: "net_inv ?n" "n_store ?n sid = Some ?d" using S(2) by (simp_all add: moved_def)
  from notify_connect_moved [OF this, of True] obtain m d where
    N: "notify_connect ?n sid True = Some m" "moved ?n sid (Some d) (connect_notes ?d True @ lost_peer ?d) m" "k_sock d = k_sock ?d" "n_toclose m = n_toclose ?n"
    by auto
  have I: "net_inv m" "n_store m sid = Some d" using N(2) by (simp_all add: moved_def)
  from state_end [OF this, of os] obtain n' where E: "connection_state m os sid CS_END = Some n'" "moved m sid None [] n'"
      "n_toclose n' = (if 0 \<le> k_sock d then k_sock d # n_toclose m else n_toclose m)" by auto
  have "n_toclose ?n = n_toclose n" by (simp add: switched_def Let_def)
  moreover have "connect_notes ?d True = connect_notes c True" "lost_peer ?d = lost_peer c" by (simp_all add: connect_notes_def lost_peer_def)
  ultimately show ?thesis using S(1) st N E moved_trans [OF moved_trans [OF S(2) N(2)] E(2)]
    by (simp add: connection_state.simps [of n] connection_fsm.simps)
qed

subsection \<open>Refinement of the transition table\<close>

text \<open>
  What each event does to a connection, as a relation between the connection, the event, the
  next state (\<open>None\<close> when the connection is removed) and the notices sent.
\<close>

inductive fsm_spec :: "connection \<Rightarrow> conn_event \<Rightarrow> conn_state option \<Rightarrow> io_out list \<Rightarrow> bool" where
  requested: "k_state c = CS_START \<Longrightarrow> fsm_spec c CE_REQUESTED (Some CS_WAITING) []"
| client: "k_state c = CS_START \<Longrightarrow> fsm_spec c CE_CLIENT_CONNECTED (Some CS_CONNECTED) []"
| abandoned: "k_state c \<in> {CS_START, CS_WAITING, CS_READY, CS_CONNECTING} \<Longrightarrow> fsm_spec c CE_DELETE None []"
| opened: "k_state c = CS_WAITING \<Longrightarrow> fsm_spec c CE_SLOT_AVAILABLE (Some CS_CONNECTING) []"
| refused: "k_state c = CS_WAITING \<Longrightarrow> fsm_spec c CE_SLOT_AVAILABLE None (connect_notes (c\<lparr>k_errn := e\<rparr>) True @ lost_peer c)"
| started: "k_state c = CS_READY \<Longrightarrow> fsm_spec c CE_ASYNC_STARTED (Some CS_CONNECTING) []"
| attempt: "k_state c = CS_READY \<Longrightarrow> fsm_spec c CE_ATTEMPT_FAILED None (connect_notes c True @ lost_peer c)"
| connected: "k_state c = CS_CONNECTING \<Longrightarrow> fsm_spec c CE_ASYNC_OK (Some CS_CONNECTED) (connect_notes c False)"
| failed: "k_state c = CS_CONNECTING \<Longrightarrow> fsm_spec c CE_ASYNC_FAILED None (connect_notes c True @ lost_peer c)"
| closed: "io_state (k_state c) \<Longrightarrow> fsm_spec c CE_DELETE None (closed_notes c (k_haderror c))"
| broken: "io_state (k_state c) \<Longrightarrow> fsm_spec c CE_ERROR None (closed_notes c True)"
| accepted: "k_state c = CS_CONNECTED \<Longrightarrow> fsm_spec c CE_READ (Some CS_ACCEPTED) []"
| accepted_late: "k_state c = CS_CONNECTED_DONE_WRITING \<Longrightarrow> fsm_spec c CE_READ (Some CS_ACCEPTED_DONE_WRITING) []"
| more: "k_state c \<in> {CS_ACCEPTED, CS_ACCEPTED_DONE_WRITING} \<Longrightarrow> fsm_spec c CE_READ (Some (k_state c)) []"
| half_read: "k_state c \<in> {CS_CONNECTED, CS_ACCEPTED} \<Longrightarrow> fsm_spec c CE_FINREAD (Some CS_ACCEPTED_DONE_READING) [ShutdownRead (k_sockid c)]"
| half_write1: "k_state c = CS_CONNECTED \<Longrightarrow> fsm_spec c CE_FINWRITE (Some CS_CONNECTED_DONE_WRITING) [ShutdownWrite (k_sockid c)]"
| half_write2: "k_state c = CS_ACCEPTED \<Longrightarrow> fsm_spec c CE_FINWRITE (Some CS_ACCEPTED_DONE_WRITING) [ShutdownWrite (k_sockid c)]"
| fin_read: "k_state c \<in> {CS_CONNECTED_DONE_WRITING, CS_ACCEPTED_DONE_WRITING} \<Longrightarrow>
    fsm_spec c CE_FINREAD None (ShutdownRead (k_sockid c) # closed_notes c (k_haderror c))"
| fin_write: "k_state c = CS_ACCEPTED_DONE_READING \<Longrightarrow>
    fsm_spec c CE_FINWRITE None (ShutdownWrite (k_sockid c) # closed_notes c (k_haderror c))"
| again_write: "k_state c \<in> {CS_CONNECTED_DONE_WRITING, CS_ACCEPTED_DONE_WRITING} \<Longrightarrow> fsm_spec c CE_FINWRITE (Some (k_state c)) []"
| again_read: "k_state c = CS_ACCEPTED_DONE_READING \<Longrightarrow> fsm_spec c CE_FINREAD (Some CS_ACCEPTED_DONE_READING) []"
| idle: "stable (k_state c) \<Longrightarrow> fsm_spec c CE_AUTO (Some (k_state c)) []"

inductive_simps fsm_spec_event:
  "fsm_spec c CE_AUTO r notes" "fsm_spec c CE_REQUESTED r notes" "fsm_spec c CE_SLOT_AVAILABLE r notes" "fsm_spec c CE_ATTEMPT_FAILED r notes"
  "fsm_spec c CE_ASYNC_STARTED r notes" "fsm_spec c CE_ASYNC_FAILED r notes" "fsm_spec c CE_ASYNC_OK r notes" "fsm_spec c CE_FINWRITE r notes"
  "fsm_spec c CE_FINREAD r notes" "fsm_spec c CE_ERROR r notes" "fsm_spec c CE_DELETE r notes" "fsm_spec c CE_READ r notes"
  "fsm_spec c CE_CLIENT_CONNECTED r notes"

text \<open>One outcome of an event that the specification allows.\<close>

definition refines :: "net \<Rightarrow> u32 \<Rightarrow> connection \<Rightarrow> conn_event \<Rightarrow> net option \<Rightarrow> bool" where
  "refines n sid c event r \<longleftrightarrow>
     (\<exists>n' d notes. r = Some n' \<and> moved n sid d notes n' \<and> fsm_spec c event (map_option k_state d) notes \<and>
        (\<forall>e. d = Some e \<longrightarrow> keeps c e))"

lemma refinesI: "\<exists>n'. r = Some n' \<and> moved n sid d notes n' \<Longrightarrow> fsm_spec c event (map_option k_state d) notes \<Longrightarrow>
   (\<And>e. d = Some e \<Longrightarrow> keeps c e) \<Longrightarrow> refines n sid c event r"
  by (auto simp: refines_def)

lemma refinesI': "\<exists>n'. r = Some n' \<and> moved n sid d notes n' \<and> Q n' \<Longrightarrow> fsm_spec c event (map_option k_state d) notes \<Longrightarrow>
   (\<And>e. d = Some e \<Longrightarrow> keeps c e) \<Longrightarrow> refines n sid c event r"
  by (auto simp: refines_def)

lemma moved_refl: "net_inv n \<Longrightarrow> n_store n sid = Some c \<Longrightarrow> moved n sid (Some c) [] n"
  by (simp add: moved_def fun_upd_idem)

lemma do_shutdown_moved:
  assumes "net_inv n" "n_store n sid = Some c"
  shows "do_shutdown n sid how = Some (emit n [how (k_sockid c)])" "moved n sid (Some c) [how (k_sockid c)] (emit n [how (k_sockid c)])"
  using assms by (simp_all add: do_shutdown_def moved_def fun_upd_idem)

lemma shutdown_then:
  assumes inv: "net_inv n" and c: "n_store n sid = Some c"
    and step: "\<And>m. net_inv m \<Longrightarrow> n_store m sid = Some c \<Longrightarrow> \<exists>n'. f m = Some n' \<and> moved m sid d notes n' \<and> Q m n'"
  shows "\<exists>n'. do_shutdown n sid how \<bind> f = Some n' \<and> moved n sid d (how (k_sockid c) # notes) n' \<and> True"
proof -
  note D = do_shutdown_moved [OF inv c, of how]
  have I: "net_inv (emit n [how (k_sockid c)])" "n_store (emit n [how (k_sockid c)]) sid = Some c" using inv c by simp_all
  from step [OF I] obtain n' where "f (emit n [how (k_sockid c)]) = Some n'" "moved (emit n [how (k_sockid c)]) sid d notes n'" by blast
  then show ?thesis using D(1) moved_trans [OF D(2)] by auto
qed

lemma error_then_finished:
  assumes inv: "net_inv n" and c: "n_store n sid = Some c"
  shows "\<exists>n'. set_haderror n sid \<bind> (\<lambda>n1. connection_state n1 os sid CS_FINISHED) = Some n' \<and> moved n sid None (closed_notes c True) n' \<and> True"
proof -
  let ?d = "c\<lparr>k_haderror := True\<rparr>" and ?n = "set_conn n sid (c\<lparr>k_haderror := True\<rparr>)"
  have "same_role c ?d" by (simp add: same_role_def buffered_def)
  then have I: "net_inv ?n" using set_conn_inv' [OF inv c] by simp
  have M: "moved n sid (Some ?d) [] ?n" using I by (simp add: moved_def)
  have cn: "closed_notes ?d (k_haderror ?d) = closed_notes c True" by (simp add: closed_notes_def lost_peer_def)
  from state_finished [OF I, of sid ?d os] obtain n' where
    "connection_state ?n os sid CS_FINISHED = Some n'" "moved ?n sid None (closed_notes c True) n'" unfolding cn by auto
  then show ?thesis using c moved_trans [OF M] by (auto simp: set_haderror_def)
qed

lemma connected_then_notify:
  assumes inv: "net_inv n" and c: "n_store n sid = Some c"
  shows "\<exists>n' d. connection_state n os sid CS_CONNECTED \<bind> (\<lambda>n1. notify_connect n1 sid False) = Some n' \<and>
    moved n sid (Some d) (connect_notes c False) n' \<and> k_state d = CS_CONNECTED \<and> keeps c d"
proof -
  obtain m where M: "connection_state n os sid CS_CONNECTED = Some m" "moved n sid (Some (retag c CS_CONNECTED)) [] m"
    using state_stable [OF inv c, of CS_CONNECTED os] by (auto simp: stable_def)
  then have I: "net_inv m" "n_store m sid = Some (retag c CS_CONNECTED)" by (simp_all add: moved_def)
  from notify_connect_moved [OF I, of False] obtain n' d where
    N: "notify_connect m sid False = Some n'" "moved m sid (Some d) (connect_notes (retag c CS_CONNECTED) False) n'" "same_role (retag c CS_CONNECTED) d" "keeps (retag c CS_CONNECTED) d"
    by auto
  have "connect_notes (retag c CS_CONNECTED) False = connect_notes c False" by (simp add: connect_notes_def)
  then have "moved n sid (Some d) (connect_notes c False) n'" using moved_trans [OF M(2) N(2)] by simp
  then show ?thesis using M N keeps_trans [OF keeps_retag N(4)] by (intro exI [of _ n'] exI [of _ d]) (simp add: same_role_def)
qed

lemma slot_available:
  assumes inv: "net_inv n" and c: "n_store n sid = Some c" and w: "k_state c = CS_WAITING" and os: "\<not> os_connected os"
  shows "refines n sid c CE_SLOT_AVAILABLE (connection_fsm n os sid CE_SLOT_AVAILABLE)"
proof -
  obtain m where M: "connection_state n os sid CS_READY = Some m" "moved n sid (Some (retag c CS_READY)) [] m"
    using state_stable [OF inv c, of CS_READY os] by (auto simp: stable_def)
  then have I: "net_inv m" "n_store m sid = Some (retag c CS_READY)" by (simp_all add: moved_def)
  obtain ok k d where O: "initiate_connection m os sid = Some (ok, k)" "net_inv k" "n_store k = (n_store m)(sid \<mapsto> d)"
      "same_role (retag c CS_READY) d" "same_owner (retag c CS_READY) d" "n_out k = n_out m" "n_servers k = n_servers m" "frame m k"
    using initiate_connection_inv [OF I os] by metis
  have K: "moved n sid (Some d) [] k" using M(2) O by (auto simp: moved_def intro: frame_trans)
  have d: "n_store k sid = Some d" "k_state d = CS_READY" using O by (simp_all add: same_role_def)
  have F: "connection_fsm n os sid CE_SLOT_AVAILABLE = connection_fsm k os sid (if ok then CE_ASYNC_STARTED else CE_ATTEMPT_FAILED)"
    using c w M(1) O(1) by (simp add: connection_fsm.simps [of n])
  show ?thesis
  proof (cases ok)
    case True
    obtain n' where "connection_state k os sid CS_CONNECTING = Some n'" "moved k sid (Some (retag d CS_CONNECTING)) [] n'"
      using state_stable [OF O(2) d(1), of CS_CONNECTING os] by (auto simp: stable_def)
    moreover have "keeps c (retag d CS_CONNECTING)"
      using O(5) by (auto simp: same_owner_def intro: keeps_trans [OF keeps_trans [OF keeps_retag [of c CS_READY], of d]])
    ultimately show ?thesis using F True d moved_trans [OF K]
      by (intro refinesI [of _ _ _ "Some (retag d CS_CONNECTING)" "[]"]) (use O(4) in \<open>auto simp: connection_fsm.simps [of k] fsm_spec_event w same_role_def\<close>)
  next
    case False
    obtain n' where A: "connection_state k os sid CS_FAILED = Some n'" "moved k sid None (connect_notes d True @ lost_peer d) n'"
      using state_failed [OF O(2) d(1), of os] by auto
    have e: "connect_notes d True = connect_notes (c\<lparr>k_errn := k_errn d\<rparr>) True" "lost_peer d = lost_peer c"
      using O(4,5) by (simp_all add: connect_notes_def lost_peer_def same_role_def same_owner_def)
    show ?thesis using F False d A moved_trans [OF K A(2)] w
      by (intro refinesI [of _ _ _ None "connect_notes (c\<lparr>k_errn := k_errn d\<rparr>) True @ lost_peer c"])
        (auto simp: connection_fsm.simps [of k] e intro: fsm_spec.refused)
  qed
qed

text \<open>The stable states, one lemma per group of states with the same events.\<close>

lemma refines_same:
  assumes "net_inv n" "n_store n sid = Some c" "fsm_spec c event (Some (k_state c)) []"
  shows "refines n sid c event (Some n)"
  using assms moved_refl [OF assms(1,2)] by (intro refinesI [of _ _ _ "Some c" "[]"]) auto

lemma refines_state:
  assumes "net_inv n" "n_store n sid = Some c" "io_state s \<Longrightarrow> s = CS_CONNECTED \<or> buffered c" "stable s" "fsm_spec c event (Some s) []"
  shows "refines n sid c event (connection_state n os sid s)"
  using refinesI [OF state_stable [OF assms(1-4)], of c event] assms(5) by auto

lemma refines_end:
  "net_inv n \<Longrightarrow> n_store n sid = Some c \<Longrightarrow> fsm_spec c event None [] \<Longrightarrow> refines n sid c event (connection_state n os sid CS_END)"
  by (rule refinesI' [OF state_end]) simp_all

lemma refines_finished:
  "net_inv n \<Longrightarrow> n_store n sid = Some c \<Longrightarrow> fsm_spec c event None (closed_notes c (k_haderror c)) \<Longrightarrow>
   refines n sid c event (connection_state n os sid CS_FINISHED)"
  by (rule refinesI' [OF state_finished]) simp_all

lemma refines_failed:
  "net_inv n \<Longrightarrow> n_store n sid = Some c \<Longrightarrow> fsm_spec c event None (connect_notes c True @ lost_peer c) \<Longrightarrow>
   refines n sid c event (connection_state n os sid CS_FAILED)"
  by (rule refinesI' [OF state_failed]) simp_all

lemma refines_error:
  "net_inv n \<Longrightarrow> n_store n sid = Some c \<Longrightarrow> fsm_spec c event None (closed_notes c True) \<Longrightarrow>
   refines n sid c event (set_haderror n sid \<bind> (\<lambda>n1. connection_state n1 os sid CS_FINISHED))"
  by (rule refinesI' [OF error_then_finished]) simp_all

lemma refines_shutdown_state:
  assumes "net_inv n" "n_store n sid = Some c" "buffered c" "stable s" "fsm_spec c event (Some s) [how (k_sockid c)]"
  shows "refines n sid c event (do_shutdown n sid how \<bind> (\<lambda>n1. connection_state n1 os sid s))"
proof (rule refinesI')
  show "\<exists>n'. do_shutdown n sid how \<bind> (\<lambda>n1. connection_state n1 os sid s) = Some n' \<and> moved n sid (Some (retag c s)) [how (k_sockid c)] n' \<and> True"
    using state_stable [of _ sid c s os] assms(3,4) by (intro shutdown_then [OF assms(1,2), where Q = "\<lambda>_ _. True"]) auto
qed (simp_all add: assms(5))

lemma refines_shutdown_finished:
  assumes "net_inv n" "n_store n sid = Some c" "fsm_spec c event None (how (k_sockid c) # closed_notes c (k_haderror c))"
  shows "refines n sid c event (do_shutdown n sid how \<bind> (\<lambda>n1. connection_state n1 os sid CS_FINISHED))"
  using refinesI' [OF shutdown_then [OF assms(1,2) state_finished]] assms(3) by auto

lemma refines_connected:
  assumes "net_inv n" "n_store n sid = Some c" "fsm_spec c event (Some CS_CONNECTED) (connect_notes c False)"
  shows "refines n sid c event (connection_state n os sid CS_CONNECTED \<bind> (\<lambda>n1. notify_connect n1 sid False))"
  using connected_then_notify [OF assms(1,2), of os] assms(3) by (fastforce simp: refines_def)

lemmas refines_rules = refines_same refines_state refines_end refines_finished refines_failed refines_error
  refines_shutdown_state refines_shutdown_finished refines_connected

lemma fsm_refines:
  assumes inv: "net_inv n" and c: "n_store n sid = Some c" and st: "stable (k_state c)"
    and os: "event = CE_SLOT_AVAILABLE \<Longrightarrow> \<not> os_connected os"
  shows "if \<exists>r notes. fsm_spec c event r notes then refines n sid c event (connection_fsm n os sid event)
    else connection_fsm n os sid event = None"
proof -
  have b: "buffered c" if "io_state (k_state c)" using net_invD [OF inv c] that by (simp add: conn_ok_alt)
  note R = refines_rules [OF inv c] and S = slot_available [OF inv c] and F = connection_fsm.simps [of n os sid]
  show ?thesis
  proof (cases "k_state c")
    case CS_START
    then show ?thesis by (cases event) (auto simp: F c no_event_def fsm_spec_event stable_def io_state_def intro!: R)
  next
    case CS_WAITING
    show ?thesis
    proof (cases "event = CE_SLOT_AVAILABLE")
      case True
      then show ?thesis using S [OF CS_WAITING os] CS_WAITING fsm_spec.opened by auto
    next
      case False
      then show ?thesis using CS_WAITING
        by (cases event) (auto simp: F c no_event_def fsm_spec_event stable_def io_state_def intro!: R)
    qed
  next
    case CS_READY
    then show ?thesis by (cases event) (auto simp: F c no_event_def fsm_spec_event stable_def io_state_def intro!: R)
  next
    case CS_CONNECTING
    then show ?thesis by (cases event) (auto simp: F c no_event_def fsm_spec_event stable_def io_state_def intro!: R)
  next
    case CS_CONNECTED
    then show ?thesis using b by (cases event) (auto simp: F c no_event_def fsm_spec_event stable_def io_state_def intro!: R)
  next
    case CS_CONNECTED_DONE_WRITING
    then show ?thesis using b by (cases event) (auto simp: F c no_event_def fsm_spec_event stable_def io_state_def intro!: R)
  next
    case CS_ACCEPTED
    then show ?thesis using b by (cases event) (auto simp: F c no_event_def fsm_spec_event stable_def io_state_def intro!: R)
  next
    case CS_ACCEPTED_DONE_WRITING
    then show ?thesis using b by (cases event) (auto simp: F c no_event_def fsm_spec_event stable_def io_state_def intro!: R)
  next
    case CS_ACCEPTED_DONE_READING
    then show ?thesis using b by (cases event) (auto simp: F c no_event_def fsm_spec_event stable_def io_state_def intro!: R)
  qed (use st in \<open>simp_all add: stable_def\<close>)
qed

end
