(* ===== verification/Connection_Service.thy ===== *)
theory Connection_Service
  imports Connection_Invariant
begin

text \<open>
  Properties of the connection layer as a whole: new connections, the slots of a server, closing
  everything, the exit of an owner, and the hash table.
\<close>

subsection \<open>Adding a connection\<close>

text \<open>The start of a node, before any connection.\<close>

definition net_start :: "endpointid \<Rightarrow> u16 \<Rightarrow> nat \<Rightarrow> portset \<Rightarrow> net" where
  "net_start iothid port iosize ports =
     \<lparr>n_iothid = iothid, n_listenport = port, n_iosize = iosize, n_mainl = 1, n_connections = [], n_listeners = [],
      n_servers = [], n_store = (\<lambda>_. None), n_connhash = (\<lambda>_. []), n_outports = ports, n_toclose = [], n_stats = [],
      n_nextsid = 2, n_out = []\<rparr>"

lemma net_start_inv: "ps_max ports \<le> 0 \<or> portset_ok ports \<Longrightarrow> net_inv (net_start iothid port iosize ports)"
  by (auto simp: net_inv_def net_core_def net_start_def hash_ok_def ports_ok_def holds_port_def pp.held_def)

lemma connhash_lookup_eq:
  assumes "net_inv n"
  shows "connhash_lookup n sockid =
    (if so_coordid sockid = n_iothid n \<and> n_store n (so_sid sockid) \<noteq> None then Some (so_sid sockid) else None)"
proof -
  let ?P = "\<lambda>sid. case n_store n sid of Some c \<Rightarrow> socketid_equals (k_sockid c) sockid | None \<Rightarrow> False"
  let ?l = "n_connhash n (connhash_slot (so_sid sockid))"
  have P: "?P sid \<longleftrightarrow> sid = so_sid sockid \<and> so_coordid sockid = n_iothid n \<and> n_store n (so_sid sockid) \<noteq> None" for sid
    using assms by (auto simp: net_inv_def net_core_def conn_ok_def socketid_equals_def split: option.splits)
  have m: "so_sid sockid \<in> set ?l" if "n_store n (so_sid sockid) \<noteq> None"
    using assms that by (auto simp: net_inv_def net_core_def hash_ok_def)
  show ?thesis
  proof (cases "so_coordid sockid = n_iothid n \<and> n_store n (so_sid sockid) \<noteq> None")
    case True
    then have "\<exists>x \<in> set ?l. ?P x" using P m by blast
    then obtain x where "find ?P ?l = Some x" by (metis find_None_iff not_None_eq)
    then show ?thesis using True P by (metis (no_types, lifting) connhash_lookup_def find_Some_iff)
  next
    case False
    then have "find ?P ?l = None" using P by (auto simp: find_None_iff)
    then show ?thesis using False by (simp add: connhash_lookup_def)
  qed
qed

lemma get_serverinfo_fields [simp]:
  "n_store (get_serverinfo n ip) = n_store n" "n_connections (get_serverinfo n ip) = n_connections n"
  "n_connhash (get_serverinfo n ip) = n_connhash n" "n_outports (get_serverinfo n ip) = n_outports n"
  "n_iothid (get_serverinfo n ip) = n_iothid n" "n_out (get_serverinfo n ip) = n_out n" "n_nextsid (get_serverinfo n ip) = n_nextsid n"
  "find_server (get_serverinfo n ip) ip \<noteq> None" "n_iosize (get_serverinfo n ip) = n_iosize n"
  "n_listenport (get_serverinfo n ip) = n_listenport n" "n_mainl (get_serverinfo n ip) = n_mainl n" "n_toclose (get_serverinfo n ip) = n_toclose n"
  "n_listeners (get_serverinfo n ip) = n_listeners n"
  by (auto simp: get_serverinfo_def find_server_def split: option.splits)

lemma find_server_get: "find_server n ip \<noteq> None \<Longrightarrow> find_server (get_serverinfo n ip') ip \<noteq> None"
  by (auto simp: get_serverinfo_def find_server_def split: option.splits)

lemma get_serverinfo_core:
  assumes "net_core n"
  shows "net_core (get_serverinfo n ip)"
proof (cases "find_server n ip")
  case (Some si)
  then show ?thesis using assms by (simp add: get_serverinfo_def)
next
  case None
  let ?si = "\<lparr>s_ip = ip, s_nwaiting = 0, s_nopening = 0, s_naccepted = 0, s_waiting = []\<rparr>"
  have g: "n_servers (get_serverinfo n ip) = ?si # n_servers n" using None by (simp add: get_serverinfo_def)
  have e: "in_class P n ip = {}" for P using assms None by (fastforce simp: net_core_def conn_ok_def in_class_def)
  have cl: "in_class P (get_serverinfo n ip) = in_class P n" for P by (simp add: in_class_def fun_eq_iff)
  have so: "server_ok (get_serverinfo n ip) s \<longleftrightarrow> server_ok n s" for s by (simp add: server_ok_def cl)
  have "server_ok n ?si" by (simp add: server_ok_def e)
  moreover have "ip \<notin> s_ip ` set (n_servers n)" using None by (auto simp: find_server_def find_None_iff)
  moreover have "conn_ok (get_serverinfo n ip) s c" if "n_store n s = Some c" for s c
    using assms that find_server_get [of n "k_ip c" ip] by (simp add: net_core_def conn_ok_def)
  ultimately show ?thesis using assms g so by (simp add: net_core_def hash_ok_def)
qed

lemma ports_ok_new:
  assumes ok: "ports_ok n" and n': "n_store n sid = None" "n_store n' = (n_store n)(sid \<mapsto> c)" "k_outport c = - 1" "n_outports n' = n_outports n"
  shows "ports_ok n'"
proof -
  have hp: "holds_port n' s q \<longleftrightarrow> s = sid \<and> q = - 1 \<or> holds_port n s q" for s q
    using n' by (auto simp: holds_port_def)
  have "{q. 0 \<le> q \<and> (\<exists>s. holds_port n' s q)} = {q. 0 \<le> q \<and> (\<exists>s. holds_port n s q)}" by (auto simp: hp)
  moreover have "s = t" if "0 \<le> q" "holds_port n' s q" "holds_port n' t q" for s t q
    using that ok unfolding hp ports_ok_def by auto
  moreover have "\<forall>s q. holds_port n' s q \<longrightarrow> q < 0" if "\<forall>s q. holds_port n s q \<longrightarrow> q < 0" using that by (auto simp: hp)
  ultimately show ?thesis using ok n'(4) unfolding ports_ok_def by metis
qed

lemma add_connection_inv:
  assumes inv: "net_inv n" and fresh: "n_store n (n_nextsid n) = None"
  obtains n' where "add_connection n ip l = Some (n_nextsid n, n')" "net_inv n'"
    "n_store n' = (n_store n)(n_nextsid n \<mapsto>
      (if l = Some (n_mainl n) then (create_connection_buffers (connection_new n ip l))\<lparr>k_sendbuf := Some WELCOME_MESSAGE\<rparr>
       else connection_new n ip l))"
    "n_nextsid n' = n_nextsid n + 1" "n_out n' = n_out n" "n_iothid n' = n_iothid n"
proof -
  let ?sid = "n_nextsid n"
  let ?c = "if l = Some (n_mainl n) then (create_connection_buffers (connection_new n ip l))\<lparr>k_sendbuf := Some WELCOME_MESSAGE\<rparr>
       else connection_new n ip l"
  let ?n1 = "get_serverinfo (n\<lparr>n_nextsid := ?sid + 1\<rparr>) ip"
  let ?n2 = "(set_conn ?n1 ?sid ?c)\<lparr>n_connections := n_connections ?n1 @ [?sid]\<rparr>"
  let ?h = "connhash_slot ?sid"
  let ?n' = "?n2\<lparr>n_connhash := (n_connhash ?n2)(?h := ?sid # n_connhash ?n2 ?h)\<rparr>"
  have core: "net_core ?n1" using inv by (intro get_serverinfo_core) (simp add: net_inv_def net_core_cong [of "n\<lparr>n_nextsid := _\<rparr>" n])
  have k: "k_sockid ?c = \<lparr>so_coordid = n_iothid n, so_sid = ?sid\<rparr>" "k_ip ?c = ip" "k_state ?c = CS_START" "k_outport ?c = - 1"
    "\<not> k_iswaiting ?c" "\<not> k_isopening ?c" "\<not> k_isaccepted ?c"
    by (simp_all add: connection_new_def create_connection_buffers_def)
  have "?sid \<notin> set (n_connhash n ?h)" using inv fresh by (auto simp: net_inv_def net_core_def hash_ok_def)
  then have "connhash_lookup ?n2 (k_sockid ?c) = None"
    using inv k by (auto simp: connhash_lookup_def find_None_iff net_inv_def net_core_def hash_ok_def conn_ok_def socketid_equals_def)
  then have A: "add_connection n ip l = Some (?sid, ?n')"
    using fresh k by (simp add: add_connection_def connhash_add_def Let_def)
  show ?thesis
  proof (rule that [OF A])
    have cl: "in_class P ?n' i = in_class P ?n1 i" if "\<not> P CS_START" for P i
      using that fresh k by (auto simp: in_class_def)
    have fs: "find_server ?n' = find_server ?n1" by (simp add: fun_eq_iff)
    have so: "server_ok ?n' s \<longleftrightarrow> server_ok ?n1 s" for s
      using cl [of WAITING_STATE] cl [of OPENING_STATE] cl [of ACCEPTED_STATE]
      by (simp add: server_ok_def WAITING_STATE_def OPENING_STATE_def ACCEPTED_STATE_def)
    have "conn_ok ?n' ?sid ?c"
      using k by (simp add: conn_ok_alt fs WAITING_STATE_def OPENING_STATE_def ACCEPTED_STATE_def io_state_def del: not_None_eq)
    moreover have "conn_ok ?n' s e" if "n_store n s = Some e" for s e
      using core that by (simp add: net_core_def conn_ok_def fs)
    ultimately have co: "conn_ok ?n' s e" if "n_store ?n' s = Some e" for s e using that by (auto split: if_splits)
    have "hash_ok ?n'" using core fresh by (auto simp: net_core_def hash_ok_def)
    moreover have "ports_ok ?n'" by (rule ports_ok_new [OF net_inv_ports [OF inv] fresh _ k(4)]) simp_all
    moreover have "n_servers ?n' = n_servers ?n1" by simp
    ultimately show "net_inv ?n'"
      using core co so k fresh unfolding net_inv_def net_core_def
      by (auto simp: WAITING_STATE_def split: if_splits)
  qed simp_all
qed
subsection \<open>Single events\<close>

definition settled :: "net \<Rightarrow> bool" where
  "settled n \<longleftrightarrow> (\<forall>sid c. n_store n sid = Some c \<longrightarrow> stable (k_state c))"

lemma spec_stable: "fsm_spec c event (Some s) ev \<Longrightarrow> stable s"
  by (cases event) (auto simp: fsm_spec_event stable_def)

lemma fsm_event:
  assumes inv: "net_inv n" "settled n" and c: "n_store n sid = Some c" and legal: "\<exists>r ev. fsm_spec c event r ev"
    and os: "event = CE_SLOT_AVAILABLE \<Longrightarrow> \<not> os_connected os"
  obtains n' d ev where "connection_fsm n os sid event = Some n'" "moved n sid d ev n'" "fsm_spec c event (map_option k_state d) ev"
    "\<And>e. d = Some e \<Longrightarrow> keeps c e" "net_inv n'" "settled n'"
proof -
  have "stable (k_state c)" using inv(2) c by (simp add: settled_def)
  from fsm_refines [OF inv(1) c this os] legal have "refines n sid c event (connection_fsm n os sid event)" by auto
  then obtain n' d ev where R: "connection_fsm n os sid event = Some n'" "moved n sid d ev n'"
      "fsm_spec c event (map_option k_state d) ev" "\<And>e. d = Some e \<Longrightarrow> keeps c e" by (auto simp: refines_def)
  have "stable (k_state e)" if "d = Some e" for e using R(3) that spec_stable by auto
  then have "settled n'" using inv(2) R(2) by (auto simp: settled_def moved_def split: if_splits)
  then show ?thesis using R by (intro that) (auto simp: moved_def)
qed

text \<open>\<open>CE_DELETE\<close> is accepted in every stable state, closes the socket and removes the connection.\<close>

lemma delete_connection:
  assumes inv: "net_inv n" "settled n" and c: "n_store n sid = Some c"
  obtains n' where "connection_fsm n os sid CE_DELETE = Some n'" "net_inv n'" "settled n'" "n_store n' = (n_store n)(sid := None)"
    "map s_ip (n_servers n') = map s_ip (n_servers n)" "frame n n'"
    "n_out n' = n_out n @ (if io_state (k_state c) then closed_notes c (k_haderror c) else [])"
    "n_toclose n' = (if 0 \<le> k_sock c then k_sock c # n_toclose n else n_toclose n)"
proof -
  have st: "stable (k_state c)" using inv(2) c by (simp add: settled_def)
  let ?t = "if 0 \<le> k_sock c then k_sock c # n_toclose n else n_toclose n"
  have "\<exists>n'. connection_fsm n os sid CE_DELETE = Some n' \<and>
      moved n sid None (if io_state (k_state c) then closed_notes c (k_haderror c) else []) n' \<and> n_toclose n' = ?t"
    using st state_end [OF inv(1) c, of os] state_finished [OF inv(1) c, of os]
    by (cases "k_state c") (auto simp: connection_fsm.simps [of n] c stable_def io_state_def)
  moreover have "settled n'" if "n_store n' = (n_store n)(sid := None)" for n'
    using inv(2) that by (auto simp: settled_def split: if_splits)
  ultimately show ?thesis using that by (auto simp: moved_def)
qed

subsection \<open>Free slots\<close>

text \<open>A server has no free slot, or nothing is waiting for it.\<close>

definition slots_used :: "net \<Rightarrow> u32 \<Rightarrow> bool" where
  "slots_used n ip \<longleftrightarrow> MAX_OPENING \<le> int (card (in_class OPENING_STATE n ip)) \<or> in_class WAITING_STATE n ip = {}"

definition same_elsewhere :: "u32 \<Rightarrow> net \<Rightarrow> net \<Rightarrow> bool" where
  "same_elsewhere ip n n' \<longleftrightarrow> frame n n' \<and> map s_ip (n_servers n') = map s_ip (n_servers n) \<and> (\<forall>P i. i \<noteq> ip \<longrightarrow> in_class P n' i = in_class P n i)"

lemma same_elsewhere_trans: "same_elsewhere ip a b \<Longrightarrow> same_elsewhere ip b c \<Longrightarrow> same_elsewhere ip a c"
  by (auto simp: same_elsewhere_def intro: frame_trans)

lemma net_inv_finite: "net_inv n \<Longrightarrow> finite (dom (n_store n))"
  by (simp add: net_inv_def net_core_def)

lemma server_of:
  assumes "net_inv n" "ip \<in> s_ip ` set (n_servers n)"
  obtains si where "find_server n ip = Some si" "server_ok n si" "s_ip si = ip"
proof -
  obtain si where "find_server n ip = Some si" using assms(2) by (cases "find_server n ip") (auto simp: find_server_def find_None_iff)
  then show ?thesis using find_server_ip assms(1) by (intro that) (auto simp: net_inv_def net_core_def)
qed

lemma moved_elsewhere:
  assumes "moved n sid d ev n'" "n_store n sid = Some c" "\<And>e. d = Some e \<Longrightarrow> keeps c e"
  shows "same_elsewhere (k_ip c) n n'"
  using assms by (cases d) (auto simp: moved_def same_elsewhere_def in_class_def keeps_def)

lemma slot_taken:
  assumes "moved n sid d ev n'" "n_store n sid = Some c" "k_state c = CS_WAITING" "fsm_spec c CE_SLOT_AVAILABLE (map_option k_state d) ev"
    "\<And>e. d = Some e \<Longrightarrow> keeps c e"
  shows "in_class WAITING_STATE n' (k_ip c) = in_class WAITING_STATE n (k_ip c) - {sid}"
    "in_class OPENING_STATE n' (k_ip c) \<subseteq> insert sid (in_class OPENING_STATE n (k_ip c))"
proof -
  have st: "n_store n' = (n_store n)(sid := d)" using assms(1) by (simp add: moved_def)
  have d: "k_state e = CS_CONNECTING \<and> k_ip e = k_ip c" if "d = Some e" for e using assms(4) assms(5) [OF that] that by (simp add: fsm_spec_event keeps_def)
  show "in_class WAITING_STATE n' (k_ip c) = in_class WAITING_STATE n (k_ip c) - {sid}"
    using d by (auto simp: in_class_def st WAITING_STATE_def split: if_splits)
  show "in_class OPENING_STATE n' (k_ip c) \<subseteq> insert sid (in_class OPENING_STATE n (k_ip c))"
    by (auto simp: in_class_def st split: if_splits)
qed

lemma open_waiting_slots:
  assumes "net_inv n" "settled n" "ip \<in> s_ip ` set (n_servers n)" "\<And>sid. \<not> os_connected (os sid)"
  shows "\<exists>n'. open_waiting os ip n = Some n' \<and> net_inv n' \<and> settled n' \<and> slots_used n' ip \<and> same_elsewhere ip n n' \<and>
    int (card (in_class OPENING_STATE n' ip)) \<le> max MAX_OPENING (int (card (in_class OPENING_STATE n ip)))"
  using assms(1-3)
proof (induction "card (in_class WAITING_STATE n ip)" arbitrary: n rule: less_induct)
  case less
  obtain si where si: "find_server n ip = Some si" "server_ok n si" "s_ip si = ip" using server_of [OF less.prems(1,3)] .
  show ?case
  proof (cases "s_nopening si < MAX_OPENING \<and> s_waiting si \<noteq> []")
    case False
    then have "slots_used n ip" using si by (auto simp: slots_used_def server_ok_def)
    then show ?thesis using False si(1) less.prems by (subst open_waiting.simps) (auto simp: same_elsewhere_def)
  next
    case True
    let ?sid = "hd (s_waiting si)"
    have W: "?sid \<in> in_class WAITING_STATE n ip" 
    proof -
      have "?sid \<in> set (s_waiting si)" using True by simp
      then show ?thesis using si(2,3) by (simp add: server_ok_def)
    qed
    then obtain c where c: "n_store n ?sid = Some c" "k_ip c = ip" "k_state c = CS_WAITING" by (auto simp: in_class_def WAITING_STATE_def)
    have iw: "k_iswaiting c" using net_invD [OF less.prems(1) c(1)] c(3) by (simp add: conn_ok_def WAITING_STATE_def)
    obtain n1 d ev where E: "connection_fsm n (os ?sid) ?sid CE_SLOT_AVAILABLE = Some n1" "moved n ?sid d ev n1"
        "fsm_spec c CE_SLOT_AVAILABLE (map_option k_state d) ev" "\<And>e. d = Some e \<Longrightarrow> keeps c e" "net_inv n1" "settled n1"
    proof -
      have "\<exists>r ev. fsm_spec c CE_SLOT_AVAILABLE r ev" using fsm_spec.opened [OF c(3)] by blast
      from fsm_event [OF less.prems(1,2) c(1) this assms(4)] that show thesis .
    qed
    have T: "in_class WAITING_STATE n1 ip = in_class WAITING_STATE n ip - {?sid}"
        "in_class OPENING_STATE n1 ip \<subseteq> insert ?sid (in_class OPENING_STATE n ip)"
      using slot_taken [OF E(2) c(1,3) E(3,4)] by (simp_all add: c(2))
    have el: "same_elsewhere ip n n1" using moved_elsewhere [OF E(2) c(1) E(4)] by (simp add: c(2))
    have fin: "finite (in_class P n ip)" "finite (in_class P n1 ip)" for P
      by (simp_all add: finite_in_class net_inv_finite less.prems(1) E(5))
    have "card (in_class WAITING_STATE n1 ip) < card (in_class WAITING_STATE n ip)"
      unfolding T(1) using W fin(1) by (intro psubset_card_mono) auto
    moreover have "ip \<in> s_ip ` set (n_servers n1)"
      using el less.prems(3) by (metis same_elsewhere_def list.set_map)
    ultimately obtain n' where R: "open_waiting os ip n1 = Some n'" "net_inv n'" "settled n'" "slots_used n' ip" "same_elsewhere ip n1 n'"
        "int (card (in_class OPENING_STATE n' ip)) \<le> max MAX_OPENING (int (card (in_class OPENING_STATE n1 ip)))"
      using less.hyps [OF _ E(5,6)] by blast
    have "card (in_class OPENING_STATE n1 ip) \<le> Suc (card (in_class OPENING_STATE n ip))"
      using card_mono [OF _ T(2)] fin(1) by (simp add: card_insert_if split: if_splits)
    moreover have "int (card (in_class OPENING_STATE n ip)) < MAX_OPENING" using True si by (simp add: server_ok_def)
    ultimately have "int (card (in_class OPENING_STATE n' ip)) \<le> max MAX_OPENING (int (card (in_class OPENING_STATE n ip)))"
      using R(6) by linarith
    moreover have "open_waiting os ip n = Some n'"
      using si(1) True c(1) iw E(1) R(1) by (subst open_waiting.simps) simp
    ultimately show ?thesis using R(2-4) same_elsewhere_trans [OF el R(5)] by blast
  qed
qed

lemma slots_used_elsewhere: "same_elsewhere ip n n' \<Longrightarrow> i \<noteq> ip \<Longrightarrow> slots_used n' i \<longleftrightarrow> slots_used n i"
  by (simp add: same_elsewhere_def slots_used_def)

lemma connect_servers_slots:
  assumes "net_inv n" "settled n" "set ips \<subseteq> s_ip ` set (n_servers n)" "\<And>sid. \<not> os_connected (os sid)" "distinct ips"
  shows "\<exists>n'. connect_servers os ips n = Some n' \<and> net_inv n' \<and> settled n' \<and> (\<forall>ip \<in> set ips. slots_used n' ip) \<and>
    map s_ip (n_servers n') = map s_ip (n_servers n) \<and> (\<forall>P i. i \<notin> set ips \<longrightarrow> in_class P n' i = in_class P n i) \<and> frame n n' \<and>
    (\<forall>ip. int (card (in_class OPENING_STATE n' ip)) \<le> max MAX_OPENING (int (card (in_class OPENING_STATE n ip))))"
  using assms(1-3,5)
proof (induction ips arbitrary: n)
  case (Cons ip ips)
  obtain n1 where A: "open_waiting os ip n = Some n1" "net_inv n1" "settled n1" "slots_used n1 ip" "same_elsewhere ip n n1"
      "int (card (in_class OPENING_STATE n1 ip)) \<le> max MAX_OPENING (int (card (in_class OPENING_STATE n ip)))"
    using open_waiting_slots [of n ip os] Cons.prems assms(4) by auto
  have ips1: "s_ip ` set (n_servers n1) = s_ip ` set (n_servers n)" using A(5) by (metis same_elsewhere_def list.set_map)
  obtain n' where B: "connect_servers os ips n1 = Some n'" "net_inv n'" "settled n'" "\<forall>ip \<in> set ips. slots_used n' ip"
      "map s_ip (n_servers n') = map s_ip (n_servers n1)" "\<forall>P i. i \<notin> set ips \<longrightarrow> in_class P n' i = in_class P n1 i"
      "\<forall>ip. int (card (in_class OPENING_STATE n' ip)) \<le> max MAX_OPENING (int (card (in_class OPENING_STATE n1 ip)))" "frame n1 n'"
    using Cons.IH [OF A(2,3)] Cons.prems(3,4) ips1 by auto
  have "slots_used n' ip" using A(4) B(6) Cons.prems(4) by (simp add: slots_used_def)
  moreover have "int (card (in_class OPENING_STATE n' i)) \<le> max MAX_OPENING (int (card (in_class OPENING_STATE n i)))" for i
  proof (cases "i = ip")
    case True
    then show ?thesis using B(6) A(6) Cons.prems(4) by simp
  next
    case False
    then show ?thesis using B(7) [rule_format, of i] A(5) by (simp add: same_elsewhere_def)
  qed
  ultimately show ?case using A B by (auto simp: same_elsewhere_def intro: frame_trans)
qed simp

lemma connect_pending_slots:
  assumes "net_inv n" "settled n" "\<And>sid. \<not> os_connected (os sid)"
  shows "\<exists>n'. connect_pending os n = Some n' \<and> net_inv n' \<and> settled n' \<and> frame n n' \<and>
    (\<forall>ip \<in> s_ip ` set (n_servers n). slots_used n' ip) \<and>
    (\<forall>ip. int (card (in_class OPENING_STATE n' ip)) \<le> max MAX_OPENING (int (card (in_class OPENING_STATE n ip))))"
  using connect_servers_slots [of n "map s_ip (n_servers n)" os] assms by (auto simp: connect_pending_def net_inv_def net_core_def)

subsection \<open>Closing all connections\<close>

lemma net_inv_active: "net_inv n \<Longrightarrow> set (n_connections n) = {sid. \<exists>c. n_store n sid = Some c \<and> \<not> WAITING_STATE (k_state c)}"
  by (simp add: net_inv_def net_core_def)

lemma active_stored:
  assumes "net_inv n" "sid \<in> set (n_connections n)"
  obtains c where "n_store n sid = Some c" "\<not> WAITING_STATE (k_state c)"
  using assms by (auto simp: net_inv_def net_core_def)

lemma dom_card_less:
  assumes "net_inv n" "n_store n sid = Some c" "n_store n' = (n_store n)(sid := None)"
  shows "card (dom (n_store n')) < card (dom (n_store n))"
  using net_inv_finite [OF assms(1)] assms(2,3) by (auto intro!: psubset_card_mono)

lemma close_active_ok:
  assumes "net_inv n" "settled n"
  shows "\<exists>n'. close_active os n = Some n' \<and> net_inv n' \<and> settled n' \<and> n_connections n' = [] \<and> n_store n' \<subseteq>\<^sub>m n_store n"
  using assms
proof (induction "card (dom (n_store n))" arbitrary: n rule: less_induct)
  case less
  show ?case
  proof (cases "n_connections n = []")
    case True
    then show ?thesis using less.prems by (subst close_active.simps) simp
  next
    case False
    let ?sid = "hd (n_connections n)"
    obtain c where c: "n_store n ?sid = Some c" using active_stored [OF less.prems(1), of ?sid] False by auto
    obtain n1 where D: "connection_fsm n os ?sid CE_DELETE = Some n1" "net_inv n1" "settled n1" "n_store n1 = (n_store n)(?sid := None)"
      using delete_connection [OF less.prems c] by metis
    obtain n' where "close_active os n1 = Some n'" "net_inv n'" "settled n'" "n_connections n' = []" "n_store n' \<subseteq>\<^sub>m n_store n1"
      using less.hyps [OF dom_card_less [OF less.prems(1) c D(4)] D(2,3)] by blast
    moreover have "n_store n1 \<subseteq>\<^sub>m n_store n" unfolding D(4) by (auto simp: map_le_def)
    ultimately show ?thesis using False D(1) map_le_trans by (subst close_active.simps) auto
  qed
qed

lemma close_waiting_ok:
  assumes "net_inv n" "settled n" "n_connections n = []" "ip \<in> s_ip ` set (n_servers n)"
  shows "\<exists>n'. close_waiting os ip n = Some n' \<and> net_inv n' \<and> settled n' \<and> n_connections n' = [] \<and> n_store n' \<subseteq>\<^sub>m n_store n \<and>
    map s_ip (n_servers n') = map s_ip (n_servers n) \<and> in_class WAITING_STATE n' ip = {}"
  using assms
proof (induction "card (dom (n_store n))" arbitrary: n rule: less_induct)
  case less
  obtain si where si: "find_server n ip = Some si" "server_ok n si" "s_ip si = ip" using server_of [OF less.prems(1,4)] .
  show ?case
  proof (cases "s_waiting si = []")
    case True
    then show ?thesis using less.prems si by (subst close_waiting.simps) (simp add: server_ok_def)
  next
    case False
    let ?sid = "hd (s_waiting si)"
    have "?sid \<in> set (s_waiting si)" using False by simp
    then have "?sid \<in> in_class WAITING_STATE n ip" using si(2,3) by (simp add: server_ok_def)
    then obtain c where c: "n_store n ?sid = Some c" by (auto simp: in_class_def)
    obtain n1 where D: "connection_fsm n os ?sid CE_DELETE = Some n1" "net_inv n1" "settled n1" "n_store n1 = (n_store n)(?sid := None)"
        "map s_ip (n_servers n1) = map s_ip (n_servers n)"
      using delete_connection [OF less.prems(1,2) c] by metis
    have "set (n_connections n1) \<subseteq> set (n_connections n)"
      using net_inv_active [OF D(2)] net_inv_active [OF less.prems(1)] D(4) by (auto split: if_splits)
    then have e: "n_connections n1 = []" using less.prems(3) by simp
    have "ip \<in> s_ip ` set (n_servers n1)" using D(5) less.prems(4) by (metis list.set_map)
    then obtain n' where "close_waiting os ip n1 = Some n'" "net_inv n'" "settled n'" "n_connections n' = []" "n_store n' \<subseteq>\<^sub>m n_store n1"
        "map s_ip (n_servers n') = map s_ip (n_servers n1)" "in_class WAITING_STATE n' ip = {}"
      using less.hyps [OF dom_card_less [OF less.prems(1) c D(4)] D(2,3) e] by blast
    moreover have "n_store n1 \<subseteq>\<^sub>m n_store n" unfolding D(4) by (auto simp: map_le_def)
    ultimately show ?thesis using False si(1) D(1,5) map_le_trans by (subst close_waiting.simps) auto
  qed
qed

lemma in_class_map_le: "n_store n' \<subseteq>\<^sub>m n_store n \<Longrightarrow> in_class P n' ip \<subseteq> in_class P n ip"
  by (force simp: in_class_def map_le_def dom_def)

lemma close_servers_ok:
  assumes "net_inv n" "settled n" "n_connections n = []" "set ips \<subseteq> s_ip ` set (n_servers n)"
  shows "\<exists>n'. close_servers os ips n = Some n' \<and> net_inv n' \<and> settled n' \<and> n_connections n' = [] \<and> n_store n' \<subseteq>\<^sub>m n_store n \<and>
    map s_ip (n_servers n') = map s_ip (n_servers n) \<and> (\<forall>ip \<in> set ips. in_class WAITING_STATE n' ip = {})"
  using assms
proof (induction ips arbitrary: n)
  case (Cons ip ips)
  obtain n1 where A: "close_waiting os ip n = Some n1" "net_inv n1" "settled n1" "n_connections n1 = []" "n_store n1 \<subseteq>\<^sub>m n_store n"
      "map s_ip (n_servers n1) = map s_ip (n_servers n)" "in_class WAITING_STATE n1 ip = {}"
    using close_waiting_ok [OF Cons.prems(1-3), of ip os] Cons.prems(4) by auto
  have "set ips \<subseteq> s_ip ` set (n_servers n1)" using A(6) Cons.prems(4) by (metis list.set_map set_subset_Cons subset_trans)
  then obtain n' where B: "close_servers os ips n1 = Some n'" "net_inv n'" "settled n'" "n_connections n' = []" "n_store n' \<subseteq>\<^sub>m n_store n1"
      "map s_ip (n_servers n') = map s_ip (n_servers n1)" "\<forall>ip \<in> set ips. in_class WAITING_STATE n' ip = {}"
    using Cons.IH [OF A(2-4)] by blast
  have "in_class WAITING_STATE n' ip = {}" using in_class_map_le [OF B(5), of WAITING_STATE ip] A(7) by blast
  then show ?case using A(1,6) B map_le_trans [OF B(5) A(5)] by auto
qed simp

lemma close_connections_ok:
  assumes "net_inv n" "settled n"
  shows "\<exists>n'. node_close_connections os n = Some n' \<and> net_inv n' \<and> n_store n' = (\<lambda>_. None)"
proof -
  obtain n1 where A: "close_active os n = Some n1" "net_inv n1" "settled n1" "n_connections n1 = []"
    using close_active_ok [OF assms] by blast
  obtain n' where B: "close_servers os (map s_ip (n_servers n1)) n1 = Some n'" "net_inv n'" "n_connections n' = []"
      "map s_ip (n_servers n') = map s_ip (n_servers n1)" "\<forall>ip \<in> set (map s_ip (n_servers n1)). in_class WAITING_STATE n' ip = {}"
    using close_servers_ok [OF A(2-4), of "map s_ip (n_servers n1)" os] by auto
  have "n_store n' sid = None" for sid
  proof (rule ccontr)
    assume "n_store n' sid \<noteq> None"
    then obtain c where c: "n_store n' sid = Some c" by auto
    then have W: "WAITING_STATE (k_state c)" using B(2,3) by (force simp: net_inv_def net_core_def)
    obtain si where "conn_at n' sid c si" using net_inv_conn_at [OF B(2) c] .
    then have "k_ip c \<in> set (map s_ip (n_servers n'))" using find_server_ip by (force simp: conn_at_def)
    then have "in_class WAITING_STATE n' (k_ip c) = {}" using B(4,5) by auto
    then show False using c W by (auto simp: in_class_def)
  qed
  then show ?thesis using A(1) B(1,2) by (auto simp: node_close_connections_def)
qed

subsection \<open>Exit of an owner\<close>

lemma delete_each_ok:
  assumes "net_inv n" "settled n" "\<forall>sid \<in> set sids. n_store n sid \<noteq> None" "distinct sids"
  shows "\<exists>n'. delete_each os P sids n = Some n' \<and> net_inv n' \<and> settled n' \<and> frame n n' \<and>
    n_store n' = (\<lambda>s. if s \<in> set sids \<and> (\<exists>c. n_store n s = Some c \<and> P c) then None else n_store n s)"
  using assms
proof (induction sids arbitrary: n)
  case (Cons sid sids)
  obtain c where c: "n_store n sid = Some c" using Cons.prems(3) by auto
  obtain n1 where A: "(if P c then connection_fsm n os sid CE_DELETE else Some n) = Some n1" "net_inv n1" "settled n1" "frame n n1"
      "n_store n1 = (if P c then (n_store n)(sid := None) else n_store n)"
  proof (cases "P c")
    case True
    show thesis by (rule delete_connection [OF Cons.prems(1,2) c, of os], rule that) (simp_all add: True)
  next
    case False
    with that [of n] Cons.prems(1,2) show thesis by simp
  qed
  have "\<forall>s \<in> set sids. n_store n1 s \<noteq> None" using A(5) Cons.prems(3,4) by auto
  then obtain n' where B: "delete_each os P sids n1 = Some n'" "net_inv n'" "settled n'" "frame n1 n'"
      "n_store n' = (\<lambda>s. if s \<in> set sids \<and> (\<exists>c. n_store n1 s = Some c \<and> P c) then None else n_store n1 s)"
    using Cons.IH [OF A(2,3)] Cons.prems(4) by auto
  have "n_store n' = (\<lambda>s. if s \<in> set (sid # sids) \<and> (\<exists>c. n_store n s = Some c \<and> P c) then None else n_store n s)"
    unfolding B(5) A(5) using c Cons.prems(4) by (auto simp: fun_eq_iff)
  then show ?case using A(1) B(1-3) c frame_trans [OF A(4) B(4)] by auto
qed simp

lemma listeners_inv: "net_inv (n\<lparr>n_listeners := ls, n_toclose := fds\<rparr>) \<longleftrightarrow> net_inv n"
  by (rule net_inv_cong) simp_all

lemma remove_listener_ok:
  assumes "net_inv n" "settled n" "l \<in> set (n_listeners n)"
  shows "\<exists>n'. node_remove_listener os n l = Some n' \<and> net_inv n' \<and> settled n' \<and> n_listeners n' = remove1 l (n_listeners n) \<and>
    n_store n' \<subseteq>\<^sub>m n_store n"
proof -
  have "\<forall>sid \<in> set (n_connections n). n_store n sid \<noteq> None" "distinct (n_connections n)"
    using assms(1) by (auto simp: net_inv_def net_core_def)
  from delete_each_ok [OF assms(1,2) this, of os] obtain n1 where
    D: "delete_each os (\<lambda>c. k_listener c = Some (so_sid (l_sockid l))) (n_connections n) n = Some n1" "net_inv n1" "settled n1" "frame n n1"
      "n_store n1 = (\<lambda>s. if s \<in> set (n_connections n) \<and> (\<exists>c. n_store n s = Some c \<and> k_listener c = Some (so_sid (l_sockid l))) then None else n_store n s)"
    by blast
  have "n_store n1 \<subseteq>\<^sub>m n_store n" unfolding D(5) by (auto simp: map_le_def split: if_splits)
  then show ?thesis using D assms(3) by (auto simp: node_remove_listener_def llist_remove_def listeners_inv frame_def settled_def)
qed

lemma remove_listeners_ok:
  assumes "net_inv n" "settled n" "n_listeners n = xs @ ls" "distinct (n_listeners n)"
  shows "\<exists>n'. remove_listeners os epid ls n = Some n' \<and> net_inv n' \<and> settled n' \<and> n_store n' \<subseteq>\<^sub>m n_store n \<and>
    n_listeners n' = xs @ filter (\<lambda>l. endpointid_isnull (l_owner l) \<or> l_owner l \<noteq> epid) ls"
  using assms
proof (induction ls arbitrary: n xs)
  case (Cons l ls)
  show ?case
  proof (cases "endpointid_isnull (l_owner l) \<or> l_owner l \<noteq> epid")
    case True
    then show ?thesis using Cons.IH [of n "xs @ [l]"] Cons.prems by auto
  next
    case False
    obtain n1 where A: "node_remove_listener os n l = Some n1" "net_inv n1" "settled n1" "n_listeners n1 = remove1 l (n_listeners n)" "n_store n1 \<subseteq>\<^sub>m n_store n"
      using remove_listener_ok [OF Cons.prems(1,2), of l os] Cons.prems(3) by auto
    have "n_listeners n1 = xs @ ls" using A(4) Cons.prems(3,4) by (simp add: remove1_append)
    then show ?thesis using Cons.IH [OF A(2,3), of xs] A Cons.prems(3,4) False map_le_trans by fastforce
  qed
qed simp

lemma endpoint_exit_ok:
  assumes "net_inv n" "settled n" "distinct (n_listeners n)"
  shows "\<exists>n'. node_handle_endpoint_exit os n epid = Some n' \<and> net_inv n' \<and> settled n' \<and>
    n_listeners n' = filter (\<lambda>l. endpointid_isnull (l_owner l) \<or> l_owner l \<noteq> epid) (n_listeners n) \<and>
    (\<forall>sid c. n_store n' sid = Some c \<longrightarrow> n_store n sid = Some c \<and>
      (\<not> endpointid_isnull epid \<and> k_owner c = epid \<longrightarrow> k_state c = CS_WAITING)) \<and>
    (\<forall>l \<in> set (n_listeners n'). endpointid_isnull epid \<or> l_owner l \<noteq> epid)"
proof -
  let ?P = "\<lambda>c. \<not> endpointid_isnull (k_owner c) \<and> endpointid_equals (k_owner c) epid"
  have "\<forall>sid \<in> set (n_connections n). n_store n sid \<noteq> None" "distinct (n_connections n)"
    using assms(1) by (auto simp: net_inv_def net_core_def)
  from delete_each_ok [OF assms(1,2) this, of os ?P] obtain n1 where D: "delete_each os ?P (n_connections n) n = Some n1" "net_inv n1" "settled n1" "frame n n1"
      "n_store n1 = (\<lambda>s. if s \<in> set (n_connections n) \<and> (\<exists>c. n_store n s = Some c \<and> ?P c) then None else n_store n s)"
    by blast
  have "n_listeners n1 = [] @ n_listeners n1" "distinct (n_listeners n1)" using D(4) assms(3) by (simp_all add: frame_def)
  from remove_listeners_ok [OF D(2,3) this, of os epid] obtain n' where R: "remove_listeners os epid (n_listeners n1) n1 = Some n'" "net_inv n'" "settled n'"
      "n_store n' \<subseteq>\<^sub>m n_store n1" "n_listeners n' = filter (\<lambda>l. endpointid_isnull (l_owner l) \<or> l_owner l \<noteq> epid) (n_listeners n1)"
    by auto
  have S: "n_store n sid = Some c \<and> (\<not> endpointid_isnull epid \<and> k_owner c = epid \<longrightarrow> k_state c = CS_WAITING)" if "n_store n' sid = Some c" for sid c
  proof -
    have "n_store n1 sid = Some c" using R(4) that by (auto simp: map_le_def dom_def)
    then show ?thesis using net_inv_active [OF assms(1)] unfolding D(5) by (auto simp: WAITING_STATE_def split: if_splits)
  qed
  have "\<forall>l \<in> set (n_listeners n'). endpointid_isnull epid \<or> l_owner l \<noteq> epid" using R(5) by auto
  then show ?thesis using D(1,4) R(1-3,5) S by (auto simp: node_handle_endpoint_exit_def frame_def)
qed

subsection \<open>Properties\<close>

text \<open>C2: The connection state machine implements its transition table. In a consistent node an
  event either matches no entry and is a fatal error, or it takes the connection to the next
  state of a matching entry (or removes it), sends exactly the notices of that entry, leaves
  every other connection alone and keeps the node consistent: the waiting, opening and
  accepted counters, the lists, the hash table and the ports in use.\<close>

theorem connection_fsm_refines_table:
  assumes "net_inv n" "n_store n sid = Some c" "stable (k_state c)" "event = CE_SLOT_AVAILABLE \<longrightarrow> \<not> os_connected os"
  shows "(connection_fsm n os sid event = None \<longleftrightarrow> (\<nexists>r notices. fsm_spec c event r notices)) \<and>
    (\<forall>n'. connection_fsm n os sid event = Some n' \<longrightarrow>
       (\<exists>d notices. n_store n' = (n_store n)(sid := d) \<and> n_out n' = n_out n @ notices \<and>
          fsm_spec c event (map_option k_state d) notices \<and> net_inv n'))"
  using fsm_refines [OF assms(1-3), of event os] assms(4) by (auto simp: refines_def moved_def split: if_splits)

text \<open>A node with one listening connection that has been asked for.\<close>

definition io_epid :: endpointid where
  "io_epid = \<lparr>ep_ip = 1, ep_port = 2000, ep_localid = IO_ID\<rparr>"

definition net_empty :: net where
  "net_empty = net_start io_epid 2000 1024 (portset_init 0 0)"

definition net_one :: net where
  "net_one = snd (the (add_connection net_empty 5 None))"

lemma net_one_ok: "net_inv net_one" "settled net_one" "n_store net_one = [2 \<mapsto> connection_new net_empty 5 None]"
proof -
  have I: "net_inv net_empty" unfolding net_empty_def by (rule net_start_inv) (simp add: portset_init_def)
  have f: "n_store net_empty (n_nextsid net_empty) = None" "n_nextsid net_empty = 2" "n_store net_empty = Map.empty" "n_mainl net_empty = 1"
    by (simp_all add: net_empty_def net_start_def)
  obtain n' where A: "add_connection net_empty 5 None = Some (n_nextsid net_empty, n')" "net_inv n'"
      "n_store n' = (n_store net_empty)(n_nextsid net_empty \<mapsto> connection_new net_empty 5 None)"
    using add_connection_inv [OF I f(1), of 5 None] by (auto simp: f)
  then show "net_inv net_one" "n_store net_one = [2 \<mapsto> connection_new net_empty 5 None]" by (simp_all add: net_one_def f)
  then show "settled net_one" by (simp add: settled_def connection_new_def stable_def split: if_splits)
qed

definition os_fine :: os_connect where
  "os_fine = \<lparr>os_socket = 7, os_socket_errno = 0, os_nonblock = True, os_reuseaddr = True, os_bind = (\<lambda>_. Bound),
     os_connected = False, os_connect_errno = EINPROGRESS\<rparr>"

theorem connection_fsm_refines_table_witness:
  "\<exists>n' d. connection_fsm net_one os_fine 2 CE_REQUESTED = Some n' \<and> n_store n' = (n_store net_one)(2 := Some d) \<and>
     k_state d = CS_WAITING \<and> n_out n' = n_out net_one \<and> net_inv n'"
proof -
  let ?c = "connection_new net_empty 5 None"
  have s: "n_store net_one 2 = Some ?c" "k_state ?c = CS_START" by (simp_all add: net_one_ok(3) connection_new_def)
  have spec: "fsm_spec ?c CE_REQUESTED r notices \<longleftrightarrow> r = Some CS_WAITING \<and> notices = []" for r notices
    by (simp add: fsm_spec_event s)
  have "stable (k_state ?c)" by (simp add: s stable_def)
  from connection_fsm_refines_table [OF net_one_ok(1) s(1) this, of CE_REQUESTED os_fine]
  show ?thesis by (auto simp: spec map_option_case split: option.splits)
qed

text \<open>C21: Opening the waiting connections always ends. Afterwards every server has its slots used or
  nothing waiting, no server has more than \<open>MAX_OPENING\<close> connections opening that had not
  more before, and the node is consistent.\<close>

theorem connect_pending_uses_slots:
  assumes "net_inv n" "settled n" "\<forall>sid. \<not> os_connected (os sid)"
  shows "\<exists>n'. connect_pending os n = Some n' \<and> net_inv n' \<and> settled n' \<and>
    (\<forall>si \<in> set (n_servers n). MAX_OPENING \<le> int (card (in_class OPENING_STATE n' (s_ip si))) \<or> in_class WAITING_STATE n' (s_ip si) = {}) \<and>
    (\<forall>ip. int (card (in_class OPENING_STATE n' ip)) \<le> max MAX_OPENING (int (card (in_class OPENING_STATE n ip))))"
  using connect_pending_slots [OF assms(1,2), of os] assms(3) by (auto simp: slots_used_def)

definition net_waiting :: net where
  "net_waiting = the (connection_fsm net_one os_fine 2 CE_REQUESTED)"

lemma net_waiting_ok: "net_inv net_waiting" "settled net_waiting" "\<exists>d. n_store net_waiting = [2 \<mapsto> d] \<and> k_state d = CS_WAITING"
proof -
  have c: "n_store net_one 2 = Some (connection_new net_empty 5 None)" by (simp add: net_one_ok(3))
  have s: "k_state (connection_new net_empty 5 None) = CS_START" by (simp add: connection_new_def)
  have "\<exists>r notices. fsm_spec (connection_new net_empty 5 None) CE_REQUESTED r notices" using fsm_spec.requested [OF s] by blast
  then obtain n' d ev where
    E: "connection_fsm net_one os_fine 2 CE_REQUESTED = Some n'" "moved net_one 2 d ev n'"
      "fsm_spec (connection_new net_empty 5 None) CE_REQUESTED (map_option k_state d) ev" "net_inv n'" "settled n'"
    by (rule fsm_event [OF net_one_ok(1,2) c, of CE_REQUESTED os_fine]) simp_all
  then show "net_inv net_waiting" "settled net_waiting" by (simp_all add: net_waiting_def)
  show "\<exists>d. n_store net_waiting = [2 \<mapsto> d] \<and> k_state d = CS_WAITING"
    using E by (cases d) (auto simp: net_waiting_def moved_def fsm_spec_event net_one_ok(3))
qed

theorem connect_pending_uses_slots_witness:
  "\<exists>n'. connect_pending (\<lambda>_. os_fine) net_waiting = Some n' \<and> net_inv n' \<and> settled n' \<and>
    (\<forall>si \<in> set (n_servers net_waiting). MAX_OPENING \<le> int (card (in_class OPENING_STATE n' (s_ip si))) \<or> in_class WAITING_STATE n' (s_ip si) = {}) \<and>
    (\<forall>ip. int (card (in_class OPENING_STATE n' ip)) \<le> max MAX_OPENING (int (card (in_class OPENING_STATE net_waiting ip))))"
  by (rule connect_pending_uses_slots [OF net_waiting_ok(1,2)]) (simp add: os_fine_def)

text \<open>C22: Closing all connections always ends, and no connection is left in the store, the lists,
  the queues of the servers or the hash table.\<close>

theorem close_connections_leaves_none:
  assumes "net_inv n" "settled n"
  shows "\<exists>n'. node_close_connections os n = Some n' \<and> n_store n' = (\<lambda>_. None) \<and> n_connections n' = [] \<and>
    (\<forall>si \<in> set (n_servers n'). s_waiting si = [] \<and> s_nwaiting si = 0 \<and> s_nopening si = 0 \<and> s_naccepted si = 0) \<and>
    (\<forall>h. n_connhash n' h = [])"
proof -
  obtain n' where A: "node_close_connections os n = Some n'" "net_inv n'" "n_store n' = (\<lambda>_. None)"
    using close_connections_ok [OF assms] by blast
  then have "in_class P n' ip = {}" for P ip by (simp add: in_class_def)
  then show ?thesis using A by (auto simp: net_inv_def net_core_def server_ok_def hash_ok_def)
qed

theorem close_connections_leaves_none_witness:
  "\<exists>n'. node_close_connections os_fine net_waiting = Some n' \<and> n_store n' = (\<lambda>_. None) \<and> n_connections n' = [] \<and>
    (\<forall>si \<in> set (n_servers n'). s_waiting si = [] \<and> s_nwaiting si = 0 \<and> s_nopening si = 0 \<and> s_naccepted si = 0) \<and>
    (\<forall>h. n_connhash n' h = [])"
  by (rule close_connections_leaves_none [OF net_waiting_ok(1,2)])



text \<open>C27: The hash table of connections agrees with the store: a lookup finds a socket exactly when
  it names an existing connection of this node.\<close>

theorem connhash_lookup_correct:
  assumes "net_inv n"
  shows "connhash_lookup n sockid =
    (if so_coordid sockid = n_iothid n \<and> n_store n (so_sid sockid) \<noteq> None then Some (so_sid sockid) else None)"
  by (rule connhash_lookup_eq [OF assms])

theorem connhash_lookup_correct_witness:
  "connhash_lookup net_one \<lparr>so_coordid = io_epid, so_sid = 2\<rparr> = Some 2"
proof -
  have "n_iothid net_one = io_epid" by code_simp
  then show ?thesis by (subst connhash_lookup_correct [OF net_one_ok(1)]) (simp add: net_one_ok(3))
qed

end
