(* ===== verification/Transport.thy ===== *)
theory Transport
  imports Connection_Service "HOL-Library.Sublist"
begin

text \<open>
  The I/O thread (\<^verbatim>\<open>network/iothread.c\<close>) and the sending side of \<^verbatim>\<open>node_send_locked\<close>
  (\<^verbatim>\<open>network/node.c\<close>): framing of messages between nodes, the handlers of socket events and
  of the requests that threads send to the I/O endpoint.

  Results of system calls are arguments. \<^verbatim>\<open>size_t\<close> has 32 bits, as on the platform of the
  native code generator. Error texts and host names are left out.
\<close>

subsection \<open>Frames\<close>

definition MSG_HEADER_SIZE :: nat where "MSG_HEADER_SIZE = 20"

definition header_bytes :: "msgheader \<Rightarrow> byte list" where
  "header_bytes h = le32 (h_sourcelocalid h) @ le32 (h_destlocalid h) @ le32 (h_size h) @ le32 (h_tag h) @ le32 (h_timestamp h)"

definition of_header_bytes :: "byte list \<Rightarrow> msgheader" where
  "of_header_bytes bs =
     \<lparr>h_sourcelocalid = of_le32 (take 4 bs), h_destlocalid = of_le32 (take 4 (drop 4 bs)), h_size = of_le32 (take 4 (drop 8 bs)),
      h_tag = of_le32 (take 4 (drop 12 bs)), h_timestamp = of_le32 (take 4 (drop 16 bs))\<rparr>"

text \<open>The loop at the end of \<^verbatim>\<open>process_received\<close>: complete messages are taken off the buffer. Reading a
  message past the end of the buffer is a failure.\<close>

function take_messages :: "u32 \<Rightarrow> int \<Rightarrow> byte list \<Rightarrow> (io_out list \<times> byte list) option" where
  "take_messages ip port buf =
     (if length buf < MSG_HEADER_SIZE then Some ([], buf)
      else
        let hdr = of_header_bytes buf;
            source = \<lparr>ep_ip = ip, ep_port = word_of_int port, ep_localid = h_sourcelocalid hdr\<rparr>
        in if length buf < unat (word_of_nat MSG_HEADER_SIZE + h_size hdr) then Some ([], buf)
           else if length buf < MSG_HEADER_SIZE + unat (h_size hdr) then None
           else do { (ms, rest) \<leftarrow> take_messages ip port (drop (MSG_HEADER_SIZE + unat (h_size hdr)) buf);
                     Some (Received hdr source (take (unat (h_size hdr)) (drop MSG_HEADER_SIZE buf)) # ms, rest) })"
  by pat_completeness auto
termination
  by (relation "measure (\<lambda>(ip, port, buf). length buf)") (auto simp: MSG_HEADER_SIZE_def)

declare take_messages.simps [simp del]

definition start_console :: "connection \<Rightarrow> endpointid \<Rightarrow> connection \<times> io_out list" where
  "start_console c console =
     (c\<lparr>k_isreg := True, k_read_frame := 1, k_owner := console\<rparr>, [ConsoleStarted (k_sockid c), LinkOwner console])"

definition console_client :: "connection \<Rightarrow> endpointid \<Rightarrow> (connection \<times> io_out list) option" where
  "console_client c console =
     (case start_console c console of (c1, o1) \<Rightarrow> do { (c2, o2) \<leftarrow> notify_read c1; Some (c2, o1 @ o2) })"

text \<open>The handshake and the message loop, once it is known that the peer is not a console client.\<close>

definition receive_from_peer :: "connection \<Rightarrow> byte list \<Rightarrow> nat \<Rightarrow> (connection \<times> io_out list) option" where
  "receive_from_peer c buf start =
     (if k_donewelcome c \<and> \<not> k_donehandshake c \<and> k_port c < 0 \<and> length buf - start < 4
      then Some (c\<lparr>k_recvbuf := Some (drop start buf)\<rparr>, [])
      else
        let (c1, start1) =
              (if k_donewelcome c \<and> \<not> k_donehandshake c
               then if k_port c < 0
                    then (c\<lparr>k_port := int (unat (of_le16 (take 2 (drop start buf)))), k_donehandshake := True\<rparr>, start + 2)
                    else (c\<lparr>k_donehandshake := True\<rparr>, start)
               else (c, start))
        in do { (ms, rest) \<leftarrow> take_messages (k_ip c1) (k_port c1) (drop start1 buf);
                Some (c1\<lparr>k_recvbuf := Some rest\<rparr>, ms) })"

definition process_received :: "connection \<Rightarrow> endpointid \<Rightarrow> (connection \<times> io_out list) option" where
  "process_received c console =
     do { (c1, o1) \<leftarrow> notify_read c;
          if k_isreg c1 then Some (c1, o1)
          else do { buf \<leftarrow> k_recvbuf c1;
            if \<not> k_donewelcome c1 \<and> length buf < length WELCOME_MESSAGE \<and> buf \<noteq> take (length buf) WELCOME_MESSAGE
            then console_client c1 console
            else if \<not> k_donewelcome c1 \<and> length WELCOME_MESSAGE \<le> length buf \<and> take (length WELCOME_MESSAGE) buf \<noteq> WELCOME_MESSAGE
            then console_client c1 console
            else if \<not> k_donewelcome c1 \<and> length WELCOME_MESSAGE \<le> length buf
            then receive_from_peer (c1\<lparr>k_donewelcome := True\<rparr>) buf (length WELCOME_MESSAGE)
            else receive_from_peer c1 buf 0 } }"

subsection \<open>Socket events\<close>

datatype read_result = Read_Failed int | Read_Closed | Read_Data "byte list"

definition handle_read :: "os_connect \<Rightarrow> read_result \<Rightarrow> endpointid \<Rightarrow> net \<Rightarrow> u32 \<Rightarrow> net option" where
  "handle_read os r console n sid =
     do { c \<leftarrow> n_store n sid;
          if \<not> CANREAD c \<or> (k_isreg c \<and> k_read_frame c < 0) then None
          else case r of
            Read_Failed e \<Rightarrow> connection_fsm (set_conn n sid (c\<lparr>k_errn := e\<rparr>)) os sid CE_ERROR
          | Read_Closed \<Rightarrow>
              do { (c1, o1) \<leftarrow> notify_read c;
                   let n1 = emit (set_conn n sid c1) (o1 @ lost_peer c1);
                   n2 \<leftarrow> (if k_isreg c1 then Some n1 else connection_fsm n1 os sid CE_FINWRITE);
                   connection_fsm n2 os sid CE_FINREAD }
          | Read_Data bs \<Rightarrow>
              do { n1 \<leftarrow> connection_fsm n os sid CE_READ;
                   c1 \<leftarrow> n_store n1 sid;
                   buf \<leftarrow> k_recvbuf c1;
                   (c2, out) \<leftarrow> process_received (c1\<lparr>k_recvbuf := Some (buf @ bs), k_totalread := k_totalread c1 + int (length bs)\<rparr>) console;
                   Some (emit (set_conn n1 sid c2) out) } }"

datatype write_result = Write_Again | Write_Failed int | Write_Closed | Written nat

text \<open>The loop of \<^verbatim>\<open>handle_write\<close>; the flag says whether the connection has failed. A system that
  has no more answers would block.\<close>

fun write_loop :: "write_result list \<Rightarrow> connection \<Rightarrow> byte list \<Rightarrow> (connection \<times> bool) option" where
  "write_loop ws c [] = Some (c\<lparr>k_sendbuf := Some []\<rparr>, False)"
| "write_loop [] c (b # bs) = Some (c\<lparr>k_sendbuf := Some (b # bs)\<rparr>, False)"
| "write_loop (Write_Again # ws) c (b # bs) = Some (c\<lparr>k_sendbuf := Some (b # bs)\<rparr>, False)"
| "write_loop (Write_Failed e # ws) c (b # bs) = Some (c\<lparr>k_sendbuf := Some (b # bs), k_errn := e\<rparr>, True)"
| "write_loop (Write_Closed # ws) c (b # bs) = Some (c\<lparr>k_sendbuf := Some (b # bs)\<rparr>, True)"
| "write_loop (Written w # ws) c (b # bs) =
     (if w = 0 \<or> Suc (length bs) < w then None
      else write_loop ws (c\<lparr>k_totalwritten := k_totalwritten c + int w\<rparr>) (drop w (b # bs)))"

definition handle_write :: "os_connect \<Rightarrow> write_result list \<Rightarrow> net \<Rightarrow> u32 \<Rightarrow> net option" where
  "handle_write os ws n sid =
     do { c \<leftarrow> n_store n sid;
          buf \<leftarrow> k_sendbuf c;
          (c1, failed) \<leftarrow> write_loop ws c buf;
          if failed then connection_fsm (set_conn n sid c1) os sid CE_ERROR
          else do { (c2, out) \<leftarrow> notify_write (n_iosize n) c1;
                    let n1 = emit (set_conn n sid c2) out;
                    if k_sendbuf c2 = Some [] \<and> k_finwrite c2 then connection_fsm n1 os sid CE_FINWRITE else Some n1 } }"

datatype connect_result = Getsockopt_Failed int | So_Error int | Nodelay_Failed int | Connect_Ok

definition handle_connected :: "os_connect \<Rightarrow> connect_result \<Rightarrow> net \<Rightarrow> u32 \<Rightarrow> net option" where
  "handle_connected os r n sid =
     do { c \<leftarrow> n_store n sid;
          case r of
            Getsockopt_Failed e \<Rightarrow> connection_fsm (set_conn n sid (c\<lparr>k_errn := e\<rparr>)) os sid CE_ASYNC_FAILED
          | So_Error e \<Rightarrow> connection_fsm (set_conn n sid (c\<lparr>k_errn := e\<rparr>)) os sid CE_ASYNC_FAILED
          | Nodelay_Failed e \<Rightarrow> connection_fsm (set_conn n sid (c\<lparr>k_errn := e\<rparr>)) os sid CE_ASYNC_FAILED
          | Connect_Ok \<Rightarrow> connection_fsm n os sid CE_ASYNC_OK }"

definition find_listener :: "net \<Rightarrow> u32 \<Rightarrow> listener option" where
  "find_listener n sid = find (\<lambda>l. so_sid (l_sockid l) = sid) (n_listeners n)"

definition set_listener :: "net \<Rightarrow> listener \<Rightarrow> net" where
  "set_listener n l = n\<lparr>n_listeners := map (\<lambda>x. if so_sid (l_sockid x) = so_sid (l_sockid l) then l else x) (n_listeners n)\<rparr>"

definition notify_accept :: "net \<Rightarrow> u32 \<Rightarrow> net option" where
  "notify_accept n sid =
     do { c \<leftarrow> n_store n sid;
          lsid \<leftarrow> k_listener c;
          l \<leftarrow> find_listener n lsid;
          if \<not> l_notify l then Some n
          else if socketid_isnull (l_sockid l) \<or> endpointid_isnull (l_owner l) \<or> 0 = l_accept_frame l \<or> l_dontaccept l then None
          else Some (set_listener
                 (emit (set_conn n sid (c\<lparr>k_dontread := True, k_owner := l_owner l, k_isreg := True\<rparr>))
                    [AcceptResponse (l_owner l) (l_accept_frame l) (k_sockid c) (k_port c)])
                 (l\<lparr>l_accept_frame := 0, l_dontaccept := True\<rparr>)) }"

text \<open>An accepted socket; a failure of the system before that changes nothing.\<close>

definition handle_new_connection :: "os_connect \<Rightarrow> int \<Rightarrow> u32 \<Rightarrow> net \<Rightarrow> listener \<Rightarrow> net option" where
  "handle_new_connection os clientfd ip n l =
     do { (sid, n1) \<leftarrow> add_connection n ip (Some (so_sid (l_sockid l)));
          c \<leftarrow> n_store n1 sid;
          n2 \<leftarrow> connection_fsm (set_conn n1 sid (c\<lparr>k_sock := clientfd\<rparr>)) os sid CE_CLIENT_CONNECTED;
          notify_accept n2 sid }"

subsection \<open>Requests to the I/O thread\<close>

definition iothread_accept :: "net \<Rightarrow> socketid \<Rightarrow> int \<Rightarrow> net option" where
  "iothread_accept n sockid ioid =
     do { l \<leftarrow> find (\<lambda>l. socketid_equals (l_sockid l) sockid) (n_listeners n);
          if 0 \<noteq> l_accept_frame l \<or> \<not> l_dontaccept l then None
          else Some (set_listener n (l\<lparr>l_accept_frame := ioid, l_dontaccept := False\<rparr>)) }"

definition iothread_connect :: "os_connect \<Rightarrow> net \<Rightarrow> u32 \<Rightarrow> int \<Rightarrow> endpointid \<Rightarrow> int \<Rightarrow> net option" where
  "iothread_connect os n ip port owner ioid =
     do { (sid, n1) \<leftarrow> add_connection (emit n [LinkOwner owner]) ip None;
          c \<leftarrow> n_store n1 sid;
          if 0 \<noteq> k_connect_frame c then None
          else connection_fsm
                 (set_conn n1 sid (c\<lparr>k_isreg := True, k_port := port, k_connect_frame := ioid, k_dontread := True, k_owner := owner\<rparr>))
                 os sid CE_REQUESTED }"

definition iothread_connpair :: "os_connect \<Rightarrow> net \<Rightarrow> (int \<times> int) option \<Rightarrow> endpointid \<Rightarrow> int \<Rightarrow> net option" where
  "iothread_connpair os n fds source ioid =
     (case fds of
        None \<Rightarrow> Some (emit n [ConnpairResponse source ioid True null_sockid null_sockid])
      | Some (fa, fb) \<Rightarrow>
          do { (a, n1) \<leftarrow> add_connection n 0 None;
               (b, n2) \<leftarrow> add_connection n1 0 None;
               ca \<leftarrow> n_store n2 a;
               cb \<leftarrow> n_store n2 b;
               let n3 = set_conn (set_conn n2 a (ca\<lparr>k_sock := fa, k_dontread := True, k_isreg := True, k_owner := source\<rparr>))
                          b (cb\<lparr>k_sock := fb, k_dontread := True, k_isreg := True, k_owner := source\<rparr>);
               n4 \<leftarrow> connection_fsm n3 os a CE_CLIENT_CONNECTED;
               n5 \<leftarrow> connection_fsm n4 os b CE_CLIENT_CONNECTED;
               Some (emit n5 [ConnpairResponse source ioid False (k_sockid ca) (k_sockid cb)]) })"

definition take_over :: "connection \<Rightarrow> endpointid \<Rightarrow> connection \<times> io_out list" where
  "take_over c source =
     (if endpointid_equals (k_owner c) source then (c, []) else (c\<lparr>k_owner := source\<rparr>, [LinkOwner source]))"

definition iothread_read :: "net \<Rightarrow> socketid \<Rightarrow> int \<Rightarrow> endpointid \<Rightarrow> net option" where
  "iothread_read n sockid ioid source =
     (case connhash_lookup n sockid of
        None \<Rightarrow> Some n
      | Some sid \<Rightarrow>
          do { c \<leftarrow> n_store n sid;
               if k_state c = CS_ACCEPTED_DONE_READING \<or> k_collected c \<or> \<not> k_dontread c \<or> 0 \<noteq> k_read_frame c then None
               else case take_over c source of
                      (c1, out) \<Rightarrow> Some (emit (set_conn n sid (c1\<lparr>k_read_frame := ioid, k_dontread := False\<rparr>)) out) })"

definition iothread_write :: "net \<Rightarrow> socketid \<Rightarrow> int \<Rightarrow> byte list \<Rightarrow> endpointid \<Rightarrow> net option" where
  "iothread_write n sockid ioid data source =
     (case connhash_lookup n sockid of
        None \<Rightarrow> Some (if data = [] then emit n [WriteResponse source ioid] else n)
      | Some sid \<Rightarrow>
          do { c \<leftarrow> n_store n sid;
               if k_collected c then None
               else do { buf \<leftarrow> k_sendbuf c;
                 case take_over c source of (c1, out) \<Rightarrow>
                   let c2 = (if data \<noteq> [] then c1\<lparr>k_sendbuf := Some (buf @ data)\<rparr> else c1\<lparr>k_finwrite := True\<rparr>);
                       spaceleft = length (buf @ data) < n_iosize n
                   in if 0 \<noteq> k_write_frame c2 then None
                      else let c3 = (if spaceleft then c2 else c2\<lparr>k_write_frame := ioid\<rparr>)
                           in Some (emit (set_conn n sid c3)
                                (out @ (if spaceleft \<or> data = [] then [WriteResponse source ioid] else []))) } })"

definition iothread_delete_connection :: "os_connect \<Rightarrow> net \<Rightarrow> socketid \<Rightarrow> net option" where
  "iothread_delete_connection os n sockid =
     (case connhash_lookup n sockid of
        None \<Rightarrow> Some n
      | Some sid \<Rightarrow> do { c \<leftarrow> n_store n sid; connection_fsm (set_conn n sid (c\<lparr>k_collected := True, k_finwrite := True\<rparr>)) os sid CE_FINREAD })"

definition iothread_delete_listener :: "os_connect \<Rightarrow> net \<Rightarrow> socketid \<Rightarrow> net option" where
  "iothread_delete_listener os n sockid =
     (case find (\<lambda>l. socketid_equals (l_sockid l) sockid) (n_listeners n) of
        None \<Rightarrow> Some n
      | Some l \<Rightarrow> node_remove_listener os n l)"

subsection \<open>Sending to another node\<close>

text \<open>The branch of \<^verbatim>\<open>node_send_locked\<close> for a message to another node.\<close>

definition append_sendbuf :: "net \<Rightarrow> u32 \<Rightarrow> byte list \<Rightarrow> net option" where
  "append_sendbuf n sid bs =
     do { c \<leftarrow> n_store n sid; buf \<leftarrow> k_sendbuf c; Some (set_conn n sid (c\<lparr>k_sendbuf := Some (buf @ bs)\<rparr>)) }"

text \<open>The histogram counters and the wakeup of the I/O thread at the end of \<^verbatim>\<open>node_send_locked\<close> are left out.\<close>

definition send_remote :: "os_connect \<Rightarrow> bool \<Rightarrow> net \<Rightarrow> endpointid \<Rightarrow> msgheader \<Rightarrow> byte list \<Rightarrow> net option" where
  "send_remote os outgoing_only n dest hdr data =
     (case find_connection n outgoing_only (ep_ip dest) (ep_port dest) of
        Some sid \<Rightarrow> append_sendbuf n sid (header_bytes hdr @ data)
      | None \<Rightarrow>
          do { (sid, n1) \<leftarrow> add_connection n (ep_ip dest) (Some (n_mainl n));
               c \<leftarrow> n_store n1 sid;
               n2 \<leftarrow> append_sendbuf (set_conn n1 sid (c\<lparr>k_port := int (unat (ep_port dest))\<rparr>)) sid
                      (le16 (n_listenport n) @ header_bytes hdr @ data);
               n3 \<leftarrow> connection_fsm n2 os sid CE_REQUESTED;
               c3 \<leftarrow> n_store n3 sid;
               if k_state c3 = CS_WAITING then connection_fsm n3 os sid CE_SLOT_AVAILABLE else Some n3 })"

definition iothread_listen :: "net \<Rightarrow> u32 \<Rightarrow> endpointid \<Rightarrow> int \<Rightarrow> endpointid \<Rightarrow> (int \<times> int) option \<Rightarrow> net" where
  "iothread_listen n ip owner ioid source fd =
     (let n0 = emit n [LinkOwner owner]
      in case fd of
           None \<Rightarrow> emit n0 [ListenResponse source ioid True null_sockid]
         | Some (fd, port) \<Rightarrow>
             let l = \<lparr>l_sockid = \<lparr>so_coordid = n_iothid n, so_sid = n_nextsid n\<rparr>, l_ip = ip, l_port = port, l_fd = fd,
                      l_dontaccept = True, l_accept_frame = 0, l_owner = owner, l_notify = True\<rparr>
             in emit (n0\<lparr>n_nextsid := n_nextsid n + 1, n_listeners := n_listeners n @ [l]\<rparr>)
                  [ListenResponse source ioid False (l_sockid l)])"

subsection \<open>Framing\<close>

lemma length_header_bytes [simp]: "length (header_bytes h) = 20"
  by (simp add: header_bytes_def)

lemma of_header_bytes_append [simp]: "of_header_bytes (header_bytes h @ bs) = h"
  by (simp add: of_header_bytes_def header_bytes_def)

lemma of_header_bytes_prefix: "MSG_HEADER_SIZE \<le> length bs \<Longrightarrow> of_header_bytes (bs @ cs) = of_header_bytes bs"
  by (simp add: of_header_bytes_def MSG_HEADER_SIZE_def)

text \<open>A message as it is sent: the header carries the length of the data, and header and data fit
  into 32 bits.\<close>

definition frame_ok :: "msgheader \<times> byte list \<Rightarrow> bool" where
  "frame_ok f \<longleftrightarrow> h_size (fst f) = word_of_nat (length (snd f)) \<and> MSG_HEADER_SIZE + length (snd f) < 2 ^ 32"

definition frame_bytes :: "msgheader \<times> byte list \<Rightarrow> byte list" where
  "frame_bytes f = header_bytes (fst f) @ snd f"

definition received :: "u32 \<Rightarrow> int \<Rightarrow> msgheader \<times> byte list \<Rightarrow> io_out" where
  "received ip port f = Received (fst f) \<lparr>ep_ip = ip, ep_port = word_of_int port, ep_localid = h_sourcelocalid (fst f)\<rparr> (snd f)"

lemma frame_size:
  assumes "frame_ok f"
  shows "unat (h_size (fst f)) = length (snd f)" "unat (word_of_nat MSG_HEADER_SIZE + h_size (fst f)) = MSG_HEADER_SIZE + length (snd f)"
proof -
  have l: "length (snd f) < 2 ^ 32" "MSG_HEADER_SIZE + length (snd f) < 2 ^ 32" "h_size (fst f) = word_of_nat (length (snd f))"
    using assms by (simp_all add: frame_ok_def)
  show u: "unat (h_size (fst f)) = length (snd f)" using l by (simp add: unat_of_nat take_bit_nat_eq_self)
  have "word_of_nat MSG_HEADER_SIZE + h_size (fst f) = (word_of_nat (MSG_HEADER_SIZE + length (snd f)) :: u32)" using l by simp
  then show "unat (word_of_nat MSG_HEADER_SIZE + h_size (fst f)) = MSG_HEADER_SIZE + length (snd f)"
    using l(2) by (simp only: unat_of_nat) (simp add: take_bit_nat_eq_self)
qed

lemma take_messages_frame:
  assumes "frame_ok f"
  shows "take_messages ip port (frame_bytes f @ buf) = do { (ms, rest) \<leftarrow> take_messages ip port buf; Some (received ip port f # ms, rest) }"
proof -
  have "of_header_bytes (frame_bytes f @ buf) = fst f" by (simp add: frame_bytes_def)
  moreover have "length (frame_bytes f @ buf) = MSG_HEADER_SIZE + length (snd f) + length buf" by (simp add: frame_bytes_def MSG_HEADER_SIZE_def)
  moreover have "drop (MSG_HEADER_SIZE + length (snd f)) (frame_bytes f @ buf) = buf" "take (length (snd f)) (drop MSG_HEADER_SIZE (frame_bytes f @ buf)) = snd f"
    by (simp_all add: frame_bytes_def MSG_HEADER_SIZE_def)
  ultimately show ?thesis
    by (subst take_messages.simps) (simp add: Let_def frame_size [OF assms] received_def)
qed

lemma take_messages_frames:
  assumes "list_all frame_ok fs"
  shows "take_messages ip port (concat (map frame_bytes fs) @ buf) =
    do { (ms, rest) \<leftarrow> take_messages ip port buf; Some (map (received ip port) fs @ ms, rest) }"
  using assms
proof (induction fs)
  case Nil
  then show ?case by (cases "take_messages ip port buf") auto
next
  case (Cons f fs)
  then show ?case by (cases "take_messages ip port buf") (auto simp: take_messages_frame)
qed

lemma take_messages_short:
  assumes "frame_ok f" "strict_prefix p (frame_bytes f)"
  shows "take_messages ip port p = Some ([], p)"
proof -
  obtain q where q: "frame_bytes f = p @ q" "q \<noteq> []" using assms(2) by (auto simp: strict_prefix_def prefix_def)
  then have l: "length p < MSG_HEADER_SIZE + length (snd f)"
    by (metis add.commute append_is_Nil_conv frame_bytes_def length_append length_greater_0_conv length_header_bytes less_add_same_cancel1 MSG_HEADER_SIZE_def)
  have "of_header_bytes p = fst f" if "MSG_HEADER_SIZE \<le> length p"
    using of_header_bytes_prefix [OF that, of q] q(1) by (simp add: frame_bytes_def) (metis of_header_bytes_append)
  then show ?thesis using l by (subst take_messages.simps) (auto simp: Let_def frame_size [OF assms(1)])
qed

text \<open>A prefix of a stream of frames: some complete messages and the beginning of another.\<close>

lemma stream_prefix:
  assumes "prefix p (concat (map frame_bytes fs))"
  obtains gs r where "prefix gs fs" "p = concat (map frame_bytes gs) @ r" "r = [] \<or> (\<exists>f \<in> set fs. strict_prefix r (frame_bytes f))"
  using assms
proof (induction fs arbitrary: p thesis)
  case Nil
  then show ?case using Nil(1) [of "[]" "[]"] by simp
next
  case (Cons f fs)
  show ?case
  proof (cases "prefix (frame_bytes f) p")
    case True
    then obtain p' where p': "p = frame_bytes f @ p'" by (auto simp: prefix_def)
    then have "prefix p' (concat (map frame_bytes fs))" using Cons.prems(2) by simp
    from Cons.IH [OF _ this] obtain gs r where "prefix gs fs" "p' = concat (map frame_bytes gs) @ r" "r = [] \<or> (\<exists>f \<in> set fs. strict_prefix r (frame_bytes f))"
      by metis
    then show ?thesis using p' by (intro Cons.prems(1) [of "f # gs" r]) auto
  next
    case False
    then have "strict_prefix p (frame_bytes f)"
      using Cons.prems(2) by (auto simp: prefix_append strict_prefix_def)
    then show ?thesis by (intro Cons.prems(1) [of "[]" p]) auto
  qed
qed

lemma take_messages_prefix:
  assumes "list_all frame_ok fs" "prefix p (concat (map frame_bytes fs))"
  obtains gs r where "prefix gs fs" "p = concat (map frame_bytes gs) @ r" "take_messages ip port p = Some (map (received ip port) gs, r)"
proof -
  obtain gs r where g: "prefix gs fs" "p = concat (map frame_bytes gs) @ r" "r = [] \<or> (\<exists>f \<in> set fs. strict_prefix r (frame_bytes f))"
    using stream_prefix [OF assms(2)] .
  have "list_all frame_ok gs" using assms(1) g(1) by (auto simp: prefix_def)
  moreover have "take_messages ip port r = Some ([], r)"
  proof (cases "r = []")
    case True
    then show ?thesis by (subst take_messages.simps) (simp add: MSG_HEADER_SIZE_def)
  next
    case False
    then obtain f where "f \<in> set fs" "strict_prefix r (frame_bytes f)" using g(3) by blast
    then show ?thesis using assms(1) by (intro take_messages_short) (auto simp: list_all_iff)
  qed
  ultimately have "take_messages ip port p = Some (map (received ip port) gs, r)" unfolding g(2) by (simp add: take_messages_frames)
  then show ?thesis using g(1,2) that by blast
qed

subsection \<open>Receiving a stream in pieces\<close>

text \<open>
  \<open>feed\<close> gives a connection the pieces of a stream in turn, each with the effect of a read:
  the bytes are appended to the buffer and processed.
\<close>

fun feed :: "connection \<Rightarrow> endpointid \<Rightarrow> byte list list \<Rightarrow> (connection \<times> io_out list) option" where
  "feed c console [] = Some (c, [])"
| "feed c console (chunk # chunks) =
     do { buf \<leftarrow> k_recvbuf c;
          (c1, o1) \<leftarrow> process_received (c\<lparr>k_recvbuf := Some (buf @ chunk)\<rparr>) console;
          (c2, o2) \<leftarrow> feed c1 console chunks;
          Some (c2, o1 @ o2) }"

text \<open>
  The state of an accepted connection of a peer that listens on \<open>port\<close> after the prefix \<open>p\<close> of
  its stream: inside the welcome text, before the port, or among the messages.
\<close>

inductive at_prefix :: "u16 \<Rightarrow> connection \<Rightarrow> byte list \<Rightarrow> io_out list \<Rightarrow> bool" where
  in_welcome: "\<not> k_isreg c \<Longrightarrow> \<not> k_donewelcome c \<Longrightarrow> \<not> k_donehandshake c \<Longrightarrow> k_port c < 0 \<Longrightarrow> k_recvbuf c = Some p \<Longrightarrow>
    strict_prefix p WELCOME_MESSAGE \<Longrightarrow> at_prefix port c p []"
| in_handshake: "\<not> k_isreg c \<Longrightarrow> k_donewelcome c \<Longrightarrow> \<not> k_donehandshake c \<Longrightarrow> k_port c < 0 \<Longrightarrow> k_recvbuf c = Some r \<Longrightarrow>
    length r < 4 \<Longrightarrow> p = WELCOME_MESSAGE @ r \<Longrightarrow> at_prefix port c p []"
| in_messages: "\<not> k_isreg c \<Longrightarrow> k_donewelcome c \<Longrightarrow> k_donehandshake c \<Longrightarrow> k_port c = int (unat port) \<Longrightarrow> k_recvbuf c = Some rest \<Longrightarrow>
    p = WELCOME_MESSAGE @ le16 port @ s \<Longrightarrow> take_messages (k_ip c) (int (unat port)) s = Some (ms, rest) \<Longrightarrow> at_prefix port c p ms"

lemma take_messages_more:
  assumes "take_messages ip port s = Some (ms, rest)"
  shows "take_messages ip port (s @ x) = do { (ms', rest') \<leftarrow> take_messages ip port (rest @ x); Some (ms @ ms', rest') }"
  using assms
proof (induction ip port s arbitrary: ms rest rule: take_messages.induct)
  case (1 ip port s)
  let ?h = "of_header_bytes s"
  show ?case
  proof (cases "length s < MSG_HEADER_SIZE \<or> length s < unat (word_of_nat MSG_HEADER_SIZE + h_size ?h)")
    case True
    then have "ms = []" "rest = s" using 1(2) unfolding take_messages.simps [of ip port s] by (auto simp: Let_def split: if_splits)
    then show ?thesis by (cases "take_messages ip port (s @ x)") auto
  next
    case False
    let ?k = "MSG_HEADER_SIZE + unat (h_size ?h)"
    have k: "\<not> length s < ?k" using False 1(2) unfolding take_messages.simps [of ip port s] by (auto simp: Let_def split: if_splits)
    obtain ms1 where R: "take_messages ip port (drop ?k s) = Some (ms1, rest)"
      and ms: "ms = Received ?h \<lparr>ep_ip = ip, ep_port = word_of_int port, ep_localid = h_sourcelocalid ?h\<rparr> (take (unat (h_size ?h)) (drop MSG_HEADER_SIZE s)) # ms1"
      using False k 1(2) unfolding take_messages.simps [of ip port s] by (auto simp: Let_def split: Option.bind_splits)
    note IH = 1(1) [OF _ refl refl _ k R]
    have h: "of_header_bytes (s @ x) = ?h" using False by (intro of_header_bytes_prefix) auto
    have d: "drop ?k (s @ x) = drop ?k s @ x" "take (unat (h_size ?h)) (drop MSG_HEADER_SIZE (s @ x)) = take (unat (h_size ?h)) (drop MSG_HEADER_SIZE s)"
      using k by auto
    show ?thesis using False k IH ms
      unfolding take_messages.simps [of ip port "s @ x"] by (auto simp: Let_def h d split: Option.bind_splits)
  qed
qed

lemma welcome_no_message:
  assumes "strict_prefix p WELCOME_MESSAGE"
  shows "take_messages ip port p = Some ([], p)"
proof (cases "length p < MSG_HEADER_SIZE")
  case True
  then show ?thesis by (subst take_messages.simps) simp
next
  case False
  have W: "length WELCOME_MESSAGE = 67" "h_size (of_header_bytes WELCOME_MESSAGE) = 1948282740" by code_simp+
  obtain q where q: "WELCOME_MESSAGE = p @ q" using assms by (auto simp: strict_prefix_def prefix_def)
  have "h_size (of_header_bytes p) = 1948282740" using of_header_bytes_prefix [of p q] False W(2) q by simp
  moreover have "length p < 67" using assms W(1) prefix_length_less by fastforce
  ultimately show ?thesis using False by (subst take_messages.simps) (simp add: Let_def MSG_HEADER_SIZE_def)
qed

lemma prefix_short: "prefix a (b @ x) \<Longrightarrow> length a < length b \<Longrightarrow> strict_prefix a b"
  using prefix_length_prefix [of a "b @ x" b] by (auto simp: strict_prefix_def)

lemma prefix_long:
  assumes "prefix a (b @ x)" "length b \<le> length a"
  obtains r where "a = b @ r" "prefix r x"
  using assms prefix_length_prefix [of b "b @ x" a] by (auto simp: prefix_def)

lemma peer_step:
  assumes c: "\<not> k_isreg c" "k_donewelcome c" "\<not> k_donehandshake c" "k_port c < 0"
    and fs: "list_all frame_ok fs" and r: "prefix r (le16 port @ concat (map frame_bytes fs))"
  obtains c' ms where "receive_from_peer c (pre @ r) (length pre) = Some (c', ms)" "at_prefix port c' (WELCOME_MESSAGE @ r) ms" "k_ip c' = k_ip c"
proof (cases "length r < 4")
  case True
  let ?c = "c\<lparr>k_recvbuf := Some r\<rparr>"
  have "receive_from_peer c (pre @ r) (length pre) = Some (?c, [])" using True c by (simp add: receive_from_peer_def)
  moreover have "at_prefix port ?c (WELCOME_MESSAGE @ r) []" using True c by (intro at_prefix.in_handshake) simp_all
  ultimately show ?thesis by (rule that) simp
next
  case False
  then obtain s where s: "r = le16 port @ s" "prefix s (concat (map frame_bytes fs))"
    using prefix_long [OF r] by auto
  obtain ms rest where M: "take_messages (k_ip c) (int (unat port)) s = Some (ms, rest)" using take_messages_prefix [OF fs s(2)] by metis
  let ?c = "c\<lparr>k_port := int (unat port), k_donehandshake := True, k_recvbuf := Some rest\<rparr>"
  have "receive_from_peer c (pre @ r) (length pre) = Some (?c, ms)" using False c M s(1) by (simp add: receive_from_peer_def Let_def)
  moreover have "at_prefix port ?c (WELCOME_MESSAGE @ r) ms" using c M s(1) by (intro at_prefix.in_messages [of _ _ rest _ s]) simp_all
  ultimately show ?thesis by (rule that) simp
qed

lemma feed_step:
  assumes at: "at_prefix port c p ms" and fs: "list_all frame_ok fs"
    and pre: "prefix (p @ chunk) (WELCOME_MESSAGE @ le16 port @ concat (map frame_bytes fs))"
  shows "\<exists>buf c' ms'. k_recvbuf c = Some buf \<and> process_received (c\<lparr>k_recvbuf := Some (buf @ chunk)\<rparr>) console = Some (c', ms') \<and>
    at_prefix port c' (p @ chunk) (ms @ ms') \<and> k_ip c' = k_ip c"
  using at
proof cases
  case in_welcome
  let ?c = "c\<lparr>k_recvbuf := Some (p @ chunk)\<rparr>"
  have N: "notify_read ?c = Some (?c, [])" using in_welcome by (simp add: notify_read_def)
  show ?thesis
  proof (cases "length (p @ chunk) < length WELCOME_MESSAGE")
    case True
    then have s: "strict_prefix (p @ chunk) WELCOME_MESSAGE"
      by (rule prefix_short [OF pre])
    then have t: "p @ chunk = take (length (p @ chunk)) WELCOME_MESSAGE" by (metis append_eq_conv_conj prefix_def strict_prefix_def)
    have "process_received ?c console = receive_from_peer ?c (p @ chunk) 0"
      using N True t in_welcome by (simp add: process_received_def)
    also have "\<dots> = Some (?c, [])" using in_welcome welcome_no_message [OF s] by (simp add: receive_from_peer_def)
    finally show ?thesis using in_welcome s by (auto intro!: at_prefix.in_welcome)
  next
    case False
    then obtain r where r: "p @ chunk = WELCOME_MESSAGE @ r" "prefix r (le16 port @ concat (map frame_bytes fs))"
      using prefix_long [OF pre] by auto
    have "process_received ?c console = receive_from_peer (?c\<lparr>k_donewelcome := True\<rparr>) (WELCOME_MESSAGE @ r) (length WELCOME_MESSAGE)"
      using N False in_welcome by (simp add: process_received_def r(1))
    moreover obtain c' ms' where "receive_from_peer (?c\<lparr>k_donewelcome := True\<rparr>) (WELCOME_MESSAGE @ r) (length WELCOME_MESSAGE) = Some (c', ms')"
        "at_prefix port c' (WELCOME_MESSAGE @ r) ms'" "k_ip c' = k_ip (?c\<lparr>k_donewelcome := True\<rparr>)"
      by (rule peer_step [OF _ _ _ _ fs r(2), of "?c\<lparr>k_donewelcome := True\<rparr>" WELCOME_MESSAGE]) (use in_welcome in simp_all)
    ultimately show ?thesis using in_welcome r(1) by auto
  qed
next
  case (in_handshake r)
  let ?c = "c\<lparr>k_recvbuf := Some (r @ chunk)\<rparr>"
  have N: "notify_read ?c = Some (?c, [])" using in_handshake by (simp add: notify_read_def)
  have p: "prefix (r @ chunk) (le16 port @ concat (map frame_bytes fs))" using pre in_handshake by simp
  have "process_received ?c console = receive_from_peer ?c ([] @ (r @ chunk)) (length ([] :: byte list))"
    using N in_handshake by (simp add: process_received_def)
  moreover obtain c' ms' where "receive_from_peer ?c ([] @ (r @ chunk)) (length ([] :: byte list)) = Some (c', ms')"
      "at_prefix port c' (WELCOME_MESSAGE @ (r @ chunk)) ms'" "k_ip c' = k_ip ?c"
    by (rule peer_step [OF _ _ _ _ fs p, of ?c "[]"]) (use in_handshake in simp_all)
  ultimately show ?thesis using in_handshake by auto
next
  case (in_messages rest s)
  let ?c = "c\<lparr>k_recvbuf := Some (rest @ chunk)\<rparr>"
  have N: "notify_read ?c = Some (?c, [])" using in_messages by (simp add: notify_read_def)
  have p: "prefix (s @ chunk) (concat (map frame_bytes fs))" using pre in_messages by simp
  obtain ms2 rest2 where "take_messages (k_ip c) (int (unat port)) (s @ chunk) = Some (ms2, rest2)" using take_messages_prefix [OF fs p] by metis
  then obtain ms' where M: "take_messages (k_ip c) (int (unat port)) (rest @ chunk) = Some (ms', rest2)" "ms2 = ms @ ms'"
      "take_messages (k_ip c) (int (unat port)) (s @ chunk) = Some (ms @ ms', rest2)"
    using take_messages_more [OF in_messages(7), of chunk] by (auto split: Option.bind_splits)
  let ?d = "c\<lparr>k_recvbuf := Some rest2\<rparr>"
  have "process_received ?c console = Some (?d, ms')"
    using N in_messages M(1) by (simp add: process_received_def receive_from_peer_def)
  moreover have "at_prefix port ?d (p @ chunk) (ms @ ms')"
    using in_messages M(3) by (intro at_prefix.in_messages [of _ _ rest2 _ "s @ chunk"]) simp_all
  ultimately show ?thesis using in_messages by auto
qed

lemma feed_all:
  assumes "at_prefix port c p ms" "list_all frame_ok fs"
    "prefix (p @ concat chunks) (WELCOME_MESSAGE @ le16 port @ concat (map frame_bytes fs))"
  shows "\<exists>c' ms'. feed c console chunks = Some (c', ms') \<and> at_prefix port c' (p @ concat chunks) (ms @ ms') \<and> k_ip c' = k_ip c"
  using assms(1,3)
proof (induction chunks arbitrary: c p ms)
  case (Cons chunk chunks)
  have "prefix (p @ chunk) (WELCOME_MESSAGE @ le16 port @ concat (map frame_bytes fs))"
    using Cons.prems(2) by (metis append.assoc append_prefixD concat.simps(2))
  from feed_step [OF Cons.prems(1) assms(2) this, of console] obtain buf c1 ms1 where
    A: "k_recvbuf c = Some buf" "process_received (c\<lparr>k_recvbuf := Some (buf @ chunk)\<rparr>) console = Some (c1, ms1)"
      "at_prefix port c1 (p @ chunk) (ms @ ms1)" "k_ip c1 = k_ip c" by blast
  obtain c' ms' where "feed c1 console chunks = Some (c', ms')" "at_prefix port c' ((p @ chunk) @ concat chunks) ((ms @ ms1) @ ms')" "k_ip c' = k_ip c1"
    using Cons.IH [OF A(3)] Cons.prems(2) by auto
  then show ?case using A by auto
qed simp

lemma le16_header_not_short: "fs \<noteq> [] \<Longrightarrow> 4 \<le> length (le16 port @ concat (map frame_bytes fs))"
  by (cases fs) (simp_all add: frame_bytes_def)

subsection \<open>Properties of the framing\<close>

text \<open>C3: Whatever the pieces in which the stream of a peer arrives, the accepting node delivers
  exactly the messages that were framed, each once, in order, with the sender's address and the
  listening port announced in the handshake, and nothing is left in the buffer.\<close>

theorem stream_delivers_messages:
  assumes "list_all frame_ok fs" "fs \<noteq> []" "concat chunks = WELCOME_MESSAGE @ le16 port @ concat (map frame_bytes fs)"
    and "\<not> k_isreg c" "\<not> k_donewelcome c" "\<not> k_donehandshake c" "k_port c < 0" "k_recvbuf c = Some []"
  shows "\<exists>c'. feed c console chunks = Some (c', map (received (k_ip c) (int (unat port))) fs) \<and> k_recvbuf c' = Some [] \<and>
    k_port c' = int (unat port) \<and> k_donehandshake c'"
proof -
  have "strict_prefix [] WELCOME_MESSAGE" by (simp add: WELCOME_MESSAGE_def)
  then have "at_prefix port c [] []" using assms by (intro at_prefix.in_welcome) simp_all
  from feed_all [OF this assms(1), of chunks console] assms(3) obtain c' ms where
    F: "feed c console chunks = Some (c', ms)" "at_prefix port c' (WELCOME_MESSAGE @ le16 port @ concat (map frame_bytes fs)) ms" "k_ip c' = k_ip c"
    by auto
  have T: "take_messages ip q (concat (map frame_bytes fs)) = Some (map (received ip q) fs, [])" for ip q
    using take_messages_frames [OF assms(1), of ip q "[]"] by (simp add: take_messages.simps [of _ _ "[]"] MSG_HEADER_SIZE_def)
  from F(2) show ?thesis
  proof cases
    case in_welcome
    then show ?thesis by (auto dest: prefix_length_less)
  next
    case (in_handshake r)
    then show ?thesis using le16_header_not_short [OF assms(2), of port] by simp
  next
    case (in_messages rest s)
    then show ?thesis using F T [of "k_ip c'" "int (unat port)"] by auto
  qed
qed

definition frame_example :: "msgheader \<times> byte list" where
  "frame_example = (\<lparr>h_sourcelocalid = 9, h_destlocalid = 3, h_size = 2, h_tag = 11, h_timestamp = 77\<rparr>, [1, 2])"

definition stream_example :: "byte list" where
  "stream_example = WELCOME_MESSAGE @ le16 2000 @ frame_bytes frame_example @ frame_bytes frame_example"

definition peer_example :: connection where
  "peer_example = create_connection_buffers (connection_new net_empty 5 (Some 1))"

theorem stream_delivers_messages_witness:
  "\<exists>c'. feed peer_example io_epid [take 30 stream_example, take 50 (drop 30 stream_example), drop 80 stream_example] =
      Some (c', map (received 5 2000) [frame_example, frame_example]) \<and> k_recvbuf c' = Some [] \<and> k_port c' = 2000 \<and> k_donehandshake c'"
proof -
  have ip: "k_ip peer_example = 5" by (simp add: peer_example_def connection_new_def create_connection_buffers_def)
  have "\<exists>c'. feed peer_example io_epid [take 30 stream_example, take 50 (drop 30 stream_example), drop 80 stream_example] =
      Some (c', map (received (k_ip peer_example) (int (unat (2000 :: u16)))) [frame_example, frame_example]) \<and> k_recvbuf c' = Some [] \<and>
      k_port c' = int (unat (2000 :: u16)) \<and> k_donehandshake c'"
  proof (rule stream_delivers_messages)
    show "list_all frame_ok [frame_example, frame_example]" by (simp add: frame_ok_def frame_example_def MSG_HEADER_SIZE_def)
    show "concat [take 30 stream_example, take 50 (drop 30 stream_example), drop 80 stream_example] =
        WELCOME_MESSAGE @ le16 2000 @ concat (map frame_bytes [frame_example, frame_example])" by code_simp
  qed (simp_all add: peer_example_def connection_new_def create_connection_buffers_def)
  then show ?thesis by (simp add: ip)
qed

subsection \<open>Safety of the handlers\<close>

definition listeners_ok :: "net \<Rightarrow> bool" where
  "listeners_ok n \<longleftrightarrow> distinct (map (\<lambda>l. so_sid (l_sockid l)) (n_listeners n))"

definition good :: "net \<Rightarrow> bool" where
  "good n \<longleftrightarrow> net_inv n \<and> settled n \<and> listeners_ok n"

definition safe :: "net option \<Rightarrow> bool" where
  "safe r \<longleftrightarrow> (\<exists>n. r = Some n \<and> good n)"

lemma safe_Some [simp]: "safe (Some n) \<longleftrightarrow> good n"
  by (simp add: safe_def)

lemma good_emit [simp]: "good (emit n os) \<longleftrightarrow> good n"
  by (simp add: good_def settled_def listeners_ok_def)

lemma good_set_conn:
  assumes "good n" "n_store n sid = Some c" "same_role c d" "k_outport d = k_outport c"
  shows "good (set_conn n sid d)"
  using assms set_conn_inv' [of n sid c d] by (auto simp: good_def settled_def listeners_ok_def same_role_def)

lemma fsm_good:
  assumes "good n" "n_store n sid = Some c" "fsm_spec c event r ev" "event = CE_SLOT_AVAILABLE \<Longrightarrow> \<not> os_connected os"
  obtains n' d where "connection_fsm n os sid event = Some n'" "good n'" "n_store n' = (n_store n)(sid := d)" "frame n n'"
    "\<And>e. d = Some e \<Longrightarrow> keeps c e" "\<exists>ev. fsm_spec c event (map_option k_state d) ev"
proof -
  have G: "net_inv n" "settled n" using assms(1) by (simp_all add: good_def)
  have "\<exists>r ev. fsm_spec c event r ev" using assms(3) by blast
  then obtain n' d ev where E: "connection_fsm n os sid event = Some n'" "moved n sid d ev n'" "fsm_spec c event (map_option k_state d) ev"
    "\<And>e. d = Some e \<Longrightarrow> keeps c e" "net_inv n'" "settled n'"
    by (rule fsm_event [OF G assms(2), of event os]) (use assms(4) in simp_all)
  then have "good n'" using assms(1) by (simp add: good_def moved_def listeners_ok_def frame_def)
  then show ?thesis using E by (intro that [of n' d]) (auto simp: moved_def)
qed

lemma fsm_safe:
  assumes "good n" "n_store n sid = Some c" "fsm_spec c event r ev" "event = CE_SLOT_AVAILABLE \<Longrightarrow> \<not> os_connected os"
  shows "safe (connection_fsm n os sid event)"
  by (rule fsm_good [OF assms]) (simp_all add: safe_def)

text \<open>An event after a change of a field that the invariant does not look at.\<close>

lemma touch_fsm_safe:
  assumes "good n" "n_store n sid = Some c" "same_role c d" "k_outport d = k_outport c" "fsm_spec d event r ev"
    "event = CE_SLOT_AVAILABLE \<Longrightarrow> \<not> os_connected os"
  shows "safe (connection_fsm (set_conn n sid d) os sid event)"
  using good_set_conn [OF assms(1-4)] assms(5,6) by (intro fsm_safe [of _ _ d]) simp_all

lemma conn_buffers:
  assumes "good n" "n_store n sid = Some c" "io_state (k_state c)"
  obtains rb sb where "k_recvbuf c = Some rb" "k_sendbuf c = Some sb"
proof -
  have "conn_ok n sid c" using assms(1,2) net_invD by (simp add: good_def)
  then show ?thesis using assms(3) that by (auto simp: conn_ok_alt buffered_def)
qed

lemma canread_io: "CANREAD c \<Longrightarrow> io_state (k_state c)" and canwrite_io: "CANWRITE c \<Longrightarrow> io_state (k_state c)"
  by (auto simp: CANREAD_def CANWRITE_def io_state_def)

lemma notify_read_role:
  assumes "notify_read c = Some (d, out)"
  shows "same_role c d \<and> k_outport d = k_outport c \<and> k_state d = k_state c \<and> k_isreg d = k_isreg c"
  using assms by (auto simp: notify_read_def same_role_def buffered_def split: if_splits Option.bind_splits)

lemma notify_read_total: "k_recvbuf c \<noteq> None \<Longrightarrow> \<exists>d out. notify_read c = Some (d, out)"
  by (cases "k_isreg c \<and> 0 < k_read_frame c") (auto simp: notify_read_def)

lemma notify_write_total:
  assumes "k_sendbuf c \<noteq> None"
  shows "\<exists>d out. notify_write iosize c = Some (d, out) \<and> same_role c d \<and> k_outport d = k_outport c \<and> k_state d = k_state c"
proof -
  have "same_role c (c\<lparr>k_write_frame := 0\<rparr>)" "same_role c c" by (simp_all add: same_role_def buffered_def)
  then show ?thesis using assms by (cases "0 < k_write_frame c") (auto simp: notify_write_def)
qed

lemma same_role_trans: "same_role a b \<Longrightarrow> same_role b c \<Longrightarrow> same_role a c"
  by (simp add: same_role_def)

lemma console_client_role:
  assumes "console_client c console = Some (d, out)"
  shows "same_role c d \<and> k_outport d = k_outport c"
proof -
  let ?c = "c\<lparr>k_isreg := True, k_read_frame := 1, k_owner := console\<rparr>"
  have "same_role c ?c" by (simp add: same_role_def buffered_def)
  moreover obtain o2 where "notify_read ?c = Some (d, o2)"
    using assms by (auto simp: console_client_def start_console_def split: Option.bind_splits)
  ultimately show ?thesis using notify_read_role same_role_trans by fastforce
qed

lemma receive_from_peer_role:
  assumes "receive_from_peer c buf k = Some (d, out)"
  shows "same_role c d \<and> k_outport d = k_outport c"
  using assms by (auto simp: receive_from_peer_def same_role_def buffered_def Let_def split: if_splits Option.bind_splits)

lemma process_received_role:
  assumes "process_received c console = Some (d, out)"
  shows "same_role c d \<and> k_outport d = k_outport c"
proof -
  obtain c1 o1 where N: "notify_read c = Some (c1, o1)" using assms by (auto simp: process_received_def split: Option.bind_splits)
  note r = notify_read_role [OF N]
  let ?w = "c1\<lparr>k_donewelcome := True\<rparr>"
  have w: "same_role c1 ?w" "k_outport ?w = k_outport c1" by (simp_all add: same_role_def buffered_def)
  have "same_role c1 d \<and> k_outport d = k_outport c1"
  proof (cases "d = c1")
    case False
    then consider "console_client c1 console = Some (d, out)" | buf k where "receive_from_peer ?w buf k = Some (d, out)"
      | buf k where "receive_from_peer c1 buf k = Some (d, out)"
      using assms N by (auto simp: process_received_def split: if_splits Option.bind_splits)
    then show ?thesis
    proof cases
      case 1 then show ?thesis by (rule console_client_role)
    next
      case 2 then show ?thesis using receive_from_peer_role [OF 2] same_role_trans [OF w(1)] w(2) by simp
    next
      case 3 then show ?thesis by (rule receive_from_peer_role)
    qed
  qed (simp add: same_role_def)
  then show ?thesis using r same_role_trans by auto
qed

lemma write_loop_role:
  assumes "write_loop ws c buf = Some (d, failed)"
  shows "same_role c d \<and> k_outport d = k_outport c \<and> k_state d = k_state c \<and>
    (\<exists>k. k_sendbuf d = Some (drop k buf) \<and> k \<le> length buf \<and> k_totalwritten d = k_totalwritten c + int k)"
  using assms
proof (induction ws c buf arbitrary: d failed rule: write_loop.induct)
  case (6 w ws c b bs)
  let ?c = "c\<lparr>k_totalwritten := k_totalwritten c + int w\<rparr>"
  have w: "0 < w" "w \<le> length (b # bs)" and W: "write_loop ws ?c (drop w (b # bs)) = Some (d, failed)" using 6(2) by (auto split: if_splits)
  have "same_role c ?c" by (simp add: same_role_def buffered_def)
  moreover from 6(1) [OF _ W] w obtain k where
    "same_role ?c d" "k_outport d = k_outport c" "k_state d = k_state c" "k_sendbuf d = Some (drop k (drop w (b # bs)))" "k \<le> length (drop w (b # bs))"
      "k_totalwritten d = k_totalwritten c + int w + int k" by auto
  ultimately show ?case using w(2) same_role_trans
    by (auto intro!: exI [of _ "k + w"])
qed (auto simp: same_role_def buffered_def intro: exI [of _ 0])

subsection \<open>One event of the I/O thread\<close>

datatype io_event =
    Readable u32 read_result endpointid
  | Writable u32 "write_result list"
  | Connect_Done u32 connect_result
  | New_Connection int u32 listener
  | Req_Listen u32 endpointid int endpointid "(int \<times> int) option"
  | Req_Accept socketid int
  | Req_Connect u32 int endpointid int
  | Req_Connpair "(int \<times> int) option" endpointid int
  | Req_Read socketid int endpointid
  | Req_Write socketid int "byte list" endpointid
  | Req_Delete_Connection socketid
  | Req_Delete_Listener socketid
  | Owner_Exit endpointid
  | Connect_Pending
  | Send_Remote bool endpointid msgheader "byte list"

fun io_step :: "(u32 \<Rightarrow> os_connect) \<Rightarrow> io_event \<Rightarrow> net \<Rightarrow> net option" where
  "io_step os (Readable sid r console) n = handle_read (os sid) r console n sid"
| "io_step os (Writable sid ws) n = handle_write (os sid) ws n sid"
| "io_step os (Connect_Done sid r) n = handle_connected (os sid) r n sid"
| "io_step os (New_Connection fd ip l) n = handle_new_connection (os 0) fd ip n l"
| "io_step os (Req_Listen ip owner ioid source fd) n = Some (iothread_listen n ip owner ioid source fd)"
| "io_step os (Req_Accept sockid ioid) n = iothread_accept n sockid ioid"
| "io_step os (Req_Connect ip port owner ioid) n = iothread_connect (os 0) n ip port owner ioid"
| "io_step os (Req_Connpair fds source ioid) n = iothread_connpair (os 0) n fds source ioid"
| "io_step os (Req_Read sockid ioid source) n = iothread_read n sockid ioid source"
| "io_step os (Req_Write sockid ioid data source) n = iothread_write n sockid ioid data source"
| "io_step os (Req_Delete_Connection sockid) n = iothread_delete_connection (os 0) n sockid"
| "io_step os (Req_Delete_Listener sockid) n = iothread_delete_listener (os 0) n sockid"
| "io_step os (Owner_Exit epid) n = node_handle_endpoint_exit (os 0) n epid"
| "io_step os Connect_Pending n = connect_pending os n"
| "io_step os (Send_Remote outgoing_only dest hdr data) n = send_remote (os (n_nextsid n)) outgoing_only n dest hdr data"

text \<open>
  When an event may occur. The selection loop reads and writes only sockets whose state allows
  it; the requests follow the protocol of \<^verbatim>\<open>network/send.c\<close> (one read and one write at a time, no
  use of a socket after it was given up); socket numbers have not wrapped around; a peer does
  not send a header whose size overflows; a node connection found for a message has a send
  buffer.
\<close>

definition fresh_sid :: "net \<Rightarrow> u32 \<Rightarrow> bool" where
  "fresh_sid n sid \<longleftrightarrow> n_store n sid = None \<and> sid \<notin> (\<lambda>l. so_sid (l_sockid l)) ` set (n_listeners n)"

fun io_legal :: "io_event \<Rightarrow> net \<Rightarrow> bool" where
  "io_legal (Readable sid r console) n \<longleftrightarrow>
     (\<exists>c buf. n_store n sid = Some c \<and> CANREAD c \<and> k_recvbuf c = Some buf \<and> (k_isreg c \<longrightarrow> 0 \<le> k_read_frame c) \<and>
        (\<forall>bs c1. r = Read_Data bs \<and> keeps c c1 \<longrightarrow>
           process_received (c1\<lparr>k_recvbuf := Some (buf @ bs), k_totalread := k_totalread c1 + int (length bs)\<rparr>) console \<noteq> None))"
| "io_legal (Writable sid ws) n \<longleftrightarrow>
     (\<exists>c buf. n_store n sid = Some c \<and> CANWRITE c \<and> k_sendbuf c = Some buf \<and> write_loop ws c buf \<noteq> None)"
| "io_legal (Connect_Done sid r) n \<longleftrightarrow> (\<exists>c. n_store n sid = Some c \<and> k_state c = CS_CONNECTING)"
| "io_legal (New_Connection fd ip l) n \<longleftrightarrow>
     fresh_sid n (n_nextsid n) \<and> l \<in> set (n_listeners n) \<and>
     (l_notify l \<longrightarrow> \<not> socketid_isnull (l_sockid l) \<and> \<not> endpointid_isnull (l_owner l) \<and> 0 \<noteq> l_accept_frame l \<and> \<not> l_dontaccept l)"
| "io_legal (Req_Listen ip owner ioid source fd) n \<longleftrightarrow> fresh_sid n (n_nextsid n)"
| "io_legal (Req_Accept sockid ioid) n \<longleftrightarrow>
     (\<exists>l. find (\<lambda>l. socketid_equals (l_sockid l) sockid) (n_listeners n) = Some l \<and> l_accept_frame l = 0 \<and> l_dontaccept l)"
| "io_legal (Req_Connect ip port owner ioid) n \<longleftrightarrow> fresh_sid n (n_nextsid n)"
| "io_legal (Req_Connpair fds source ioid) n \<longleftrightarrow> fresh_sid n (n_nextsid n) \<and> fresh_sid n (n_nextsid n + 1)"
| "io_legal (Req_Read sockid ioid source) n \<longleftrightarrow>
     (\<forall>sid c. connhash_lookup n sockid = Some sid \<and> n_store n sid = Some c \<longrightarrow>
        k_state c \<noteq> CS_ACCEPTED_DONE_READING \<and> \<not> k_collected c \<and> k_dontread c \<and> k_read_frame c = 0)"
| "io_legal (Req_Write sockid ioid data source) n \<longleftrightarrow>
     (\<forall>sid c. connhash_lookup n sockid = Some sid \<and> n_store n sid = Some c \<longrightarrow>
        \<not> k_collected c \<and> k_sendbuf c \<noteq> None \<and> k_write_frame c = 0)"
| "io_legal (Req_Delete_Connection sockid) n \<longleftrightarrow>
     (\<forall>sid c. connhash_lookup n sockid = Some sid \<and> n_store n sid = Some c \<longrightarrow> io_state (k_state c))"
| "io_legal (Send_Remote outgoing_only dest hdr data) n \<longleftrightarrow>
     fresh_sid n (n_nextsid n) \<and>
     (\<forall>sid c. find_connection n outgoing_only (ep_ip dest) (ep_port dest) = Some sid \<and> n_store n sid = Some c \<longrightarrow> k_sendbuf c \<noteq> None)"
| "io_legal _ n \<longleftrightarrow> True"

lemma handle_read_safe:
  assumes g: "good n" and legal: "io_legal (Readable sid r console) n"
  shows "safe (handle_read os r console n sid)"
proof -
  obtain c buf where c: "n_store n sid = Some c" "CANREAD c" "k_recvbuf c = Some buf" "k_isreg c \<longrightarrow> 0 \<le> k_read_frame c"
    and pr: "\<And>bs c1. r = Read_Data bs \<Longrightarrow> keeps c c1 \<Longrightarrow>
       process_received (c1\<lparr>k_recvbuf := Some (buf @ bs), k_totalread := k_totalread c1 + int (length bs)\<rparr>) console \<noteq> None"
    using legal by auto
  note io = canread_io [OF c(2)]
  show ?thesis
  proof (cases r)
    case (Read_Failed e)
    have "safe (connection_fsm (set_conn n sid (c\<lparr>k_errn := e\<rparr>)) os sid CE_ERROR)"
      using io by (intro touch_fsm_safe [OF g c(1) _ _ fsm_spec.broken]) (simp_all add: same_role_def buffered_def)
    then show ?thesis using c Read_Failed by (auto simp: handle_read_def)
  next
    case Read_Closed
    obtain c1 o1 where N: "notify_read c = Some (c1, o1)" using c(3) notify_read_total [of c] by auto
    note r1 = notify_read_role [OF N]
    let ?n1 = "emit (set_conn n sid c1) (o1 @ lost_peer c1)"
    have g1: "good ?n1" "n_store ?n1 sid = Some c1" using good_set_conn [OF g c(1)] r1 by simp_all
    have st: "k_state c1 = CS_CONNECTED \<or> k_state c1 = CS_CONNECTED_DONE_WRITING \<or> k_state c1 = CS_ACCEPTED \<or> k_state c1 = CS_ACCEPTED_DONE_WRITING"
      using c(2) r1 by (simp add: CANREAD_def)
    have "safe ((if k_isreg c1 then Some ?n1 else connection_fsm ?n1 os sid CE_FINWRITE) \<bind> (\<lambda>n2. connection_fsm n2 os sid CE_FINREAD))"
    proof (cases "k_isreg c1")
      case True
      then show ?thesis using st fsm_safe [OF g1, of CE_FINREAD] by (auto simp: fsm_spec_event)
    next
      case False
      have "\<exists>r ev. fsm_spec c1 CE_FINWRITE r ev" using st by (auto simp: fsm_spec_event)
      then obtain r ev where "fsm_spec c1 CE_FINWRITE r ev" by blast
      then obtain n2 d where F: "connection_fsm ?n1 os sid CE_FINWRITE = Some n2" "good n2" "n_store n2 = (n_store ?n1)(sid := d)"
          "\<exists>ev. fsm_spec c1 CE_FINWRITE (map_option k_state d) ev" by (rule fsm_good [OF g1]) simp_all
      then obtain e where "d = Some e" "k_state e = CS_CONNECTED_DONE_WRITING \<or> k_state e = CS_ACCEPTED_DONE_WRITING"
        using st by (cases d) (auto simp: fsm_spec_event)
      then show ?thesis using False F fsm_safe [OF F(2), of sid e CE_FINREAD] by (auto simp: fsm_spec_event)
    qed
    then show ?thesis using c Read_Closed N by (auto simp: handle_read_def Let_def)
  next
    case (Read_Data bs)
    have "\<exists>r ev. fsm_spec c CE_READ r ev" using c(2) by (auto simp: fsm_spec_event CANREAD_def)
    then obtain r1 ev where "fsm_spec c CE_READ r1 ev" by blast
    then obtain n1 d where F: "connection_fsm n os sid CE_READ = Some n1" "good n1" "n_store n1 = (n_store n)(sid := d)"
        "\<And>e. d = Some e \<Longrightarrow> keeps c e" "\<exists>ev. fsm_spec c CE_READ (map_option k_state d) ev" by (rule fsm_good [OF g c(1), where os = os]) simp_all
    then obtain c1 where d: "d = Some c1" "keeps c c1" using c(2) by (cases d) (auto simp: fsm_spec_event)
    let ?c2 = "c1\<lparr>k_recvbuf := Some (buf @ bs), k_totalread := k_totalread c1 + int (length bs)\<rparr>"
    obtain c3 o3 where P: "process_received ?c2 console = Some (c3, o3)" using pr [OF Read_Data d(2)] by auto
    have "same_role c1 ?c2" by (simp add: same_role_def buffered_def)
    then have "same_role c1 c3" "k_outport c3 = k_outport c1" using process_received_role [OF P] same_role_trans by fastforce+
    then have "good (set_conn n1 sid c3)" using F d by (intro good_set_conn [OF F(2)]) simp_all
    moreover have "k_recvbuf c1 = Some buf" using d(2) c(3) by (simp add: keeps_def)
    ultimately show ?thesis using c Read_Data F d P by (auto simp: handle_read_def)
  qed
qed

lemma handle_write_safe:
  assumes g: "good n" and legal: "io_legal (Writable sid ws) n"
  shows "safe (handle_write os ws n sid)"
proof -
  obtain c buf d failed where c: "n_store n sid = Some c" "CANWRITE c" "k_sendbuf c = Some buf" "write_loop ws c buf = Some (d, failed)"
    using legal by auto
  note R = write_loop_role [OF c(4)]
  have io: "io_state (k_state d)" using canwrite_io [OF c(2)] R by simp
  show ?thesis
  proof (cases failed)
    case True
    have "safe (connection_fsm (set_conn n sid d) os sid CE_ERROR)"
      using io R by (intro touch_fsm_safe [OF g c(1) _ _ fsm_spec.broken]) simp_all
    then show ?thesis using c True by (simp add: handle_write_def)
  next
    case False
    obtain sb where sb: "k_sendbuf d = Some sb" using R by auto
    obtain e out where N: "notify_write (n_iosize n) d = Some (e, out)" "same_role d e" "k_outport e = k_outport d" "k_state e = k_state d"
      using sb notify_write_total [of d "n_iosize n"] by auto
    have g1: "good (emit (set_conn n sid e) out)" using good_set_conn [OF g c(1), of e] R N same_role_trans by auto
    have "fsm_spec e CE_FINWRITE (Some CS_CONNECTED_DONE_WRITING) [ShutdownWrite (k_sockid e)] \<or> fsm_spec e CE_FINWRITE (Some CS_ACCEPTED_DONE_WRITING) [ShutdownWrite (k_sockid e)] \<or>
        fsm_spec e CE_FINWRITE None (ShutdownWrite (k_sockid e) # closed_notes e (k_haderror e))"
      using c(2) R N(4) by (auto simp: CANWRITE_def fsm_spec_event)
    then have "safe (connection_fsm (emit (set_conn n sid e) out) os sid CE_FINWRITE)" using fsm_safe [OF g1, of sid e CE_FINWRITE] by auto
    then show ?thesis using c False N g1 by (simp add: handle_write_def Let_def)
  qed
qed

lemma handle_connected_safe:
  assumes g: "good n" and legal: "io_legal (Connect_Done sid r) n"
  shows "safe (handle_connected os r n sid)"
proof -
  obtain c where c: "n_store n sid = Some c" "k_state c = CS_CONNECTING" using legal by auto
  have "safe (connection_fsm (set_conn n sid (c\<lparr>k_errn := e\<rparr>)) os sid CE_ASYNC_FAILED)" for e
    using c(2) by (intro touch_fsm_safe [OF g c(1) _ _ fsm_spec.failed]) (simp_all add: same_role_def buffered_def)
  moreover have "safe (connection_fsm n os sid CE_ASYNC_OK)" by (rule fsm_safe [OF g c(1) fsm_spec.connected [OF c(2)]]) simp
  ultimately show ?thesis using c(1) by (cases r) (simp_all add: handle_connected_def)
qed

text \<open>A new connection, ready for its first event.\<close>

lemma add_connection_good:
  assumes g: "good n" and fresh: "fresh_sid n (n_nextsid n)"
  obtains n1 c where "add_connection n ip l = Some (n_nextsid n, n1)" "good n1" "n_store n1 = (n_store n)(n_nextsid n \<mapsto> c)" "k_state c = CS_START"
    "k_connect_frame c = 0" "k_outport c = - 1" "k_listener c = l" "k_ip c = ip" "k_sendbuf c = (if l = Some (n_mainl n) then Some WELCOME_MESSAGE else None)"
    "n_listeners n1 = n_listeners n" "n_nextsid n1 = n_nextsid n + 1" "n_listenport n1 = n_listenport n" "k_isreg c = False"
proof -
  have I: "net_inv n" "settled n" "n_store n (n_nextsid n) = None" using g fresh by (simp_all add: good_def fresh_sid_def)
  let ?c = "if l = Some (n_mainl n) then (create_connection_buffers (connection_new n ip l))\<lparr>k_sendbuf := Some WELCOME_MESSAGE\<rparr> else connection_new n ip l"
  obtain n1 where A: "add_connection n ip l = Some (n_nextsid n, n1)" "net_inv n1" "n_store n1 = (n_store n)(n_nextsid n \<mapsto> ?c)" "n_nextsid n1 = n_nextsid n + 1"
    by (rule add_connection_inv [OF I(1,3)])
  have k: "k_state ?c = CS_START" "k_connect_frame ?c = 0" "k_outport ?c = - 1" "k_listener ?c = l" "k_ip ?c = ip" "k_isreg ?c = False"
    "k_sendbuf ?c = (if l = Some (n_mainl n) then Some WELCOME_MESSAGE else None)"
    by (simp_all add: connection_new_def create_connection_buffers_def)
  have L: "n_listeners n1 = n_listeners n" "n_listenport n1 = n_listenport n"
    using A(1) by (auto simp: add_connection_def connhash_add_def Let_def split: Option.bind_splits if_splits)
  have "good n1" using g A(2,3) k(1) L I(2) by (auto simp: good_def listeners_ok_def settled_def stable_def)
  from that [OF A(1) this A(3) k(1-5) k(7) L(1) A(4) L(2) k(6)] show ?thesis .
qed

lemma set_listener_good:
  assumes "good n"
  shows "good (set_listener n l')"
proof -
  have "net_inv (set_listener n l') \<longleftrightarrow> net_inv n" by (rule net_inv_cong) (simp_all add: set_listener_def)
  moreover have "map (\<lambda>l. so_sid (l_sockid l)) (n_listeners (set_listener n l')) = map (\<lambda>l. so_sid (l_sockid l)) (n_listeners n)"
    by (simp add: set_listener_def)
  moreover have "settled (set_listener n l') \<longleftrightarrow> settled n" by (simp add: settled_def set_listener_def)
  ultimately show ?thesis using assms by (simp add: good_def listeners_ok_def)
qed

lemma find_listener_mem:
  assumes "listeners_ok n" "l \<in> set (n_listeners n)"
  shows "find_listener n (so_sid (l_sockid l)) = Some l"
  using assms unfolding listeners_ok_def find_listener_def
proof (induction "n_listeners n" arbitrary: n)
  case (Cons x xs)
  have "find (\<lambda>k. so_sid (l_sockid k) = so_sid (l_sockid l)) ys = Some l" if "distinct (map (\<lambda>l. so_sid (l_sockid l)) ys)" "l \<in> set ys" for ys
    using that by (induction ys) (auto simp: image_iff)
  then show ?case using Cons.prems by simp
qed simp

lemma notify_accept_safe:
  assumes g: "good n" and c: "n_store n sid = Some c" "k_listener c = Some (so_sid (l_sockid l))" and l: "l \<in> set (n_listeners n)"
    and ok: "l_notify l \<longrightarrow> \<not> socketid_isnull (l_sockid l) \<and> \<not> endpointid_isnull (l_owner l) \<and> 0 \<noteq> l_accept_frame l \<and> \<not> l_dontaccept l"
  shows "safe (notify_accept n sid)"
proof -
  have f: "find_listener n (so_sid (l_sockid l)) = Some l" using find_listener_mem l g by (simp add: good_def)
  let ?d = "c\<lparr>k_dontread := True, k_owner := l_owner l, k_isreg := True\<rparr>"
  have "good (set_conn n sid ?d)" by (rule good_set_conn [OF g c(1)]) (simp_all add: same_role_def buffered_def)
  then have "good (set_listener (emit (set_conn n sid ?d) [AcceptResponse (l_owner l) (l_accept_frame l) (k_sockid c) (k_port c)]) (l\<lparr>l_accept_frame := 0, l_dontaccept := True\<rparr>))"
    by (intro set_listener_good) simp
  then show ?thesis using c f ok g by (auto simp: notify_accept_def)
qed

text \<open>The first event of a connection whose fields were filled in.\<close>

lemma first_event:
  assumes g: "good n1" and c: "n_store n1 sid = Some c" "k_state c = CS_START" and d: "same_role c d" "k_outport d = k_outport c"
    and ev: "event = CE_CLIENT_CONNECTED \<or> event = CE_REQUESTED"
  obtains n2 e where "connection_fsm (set_conn n1 sid d) os sid event = Some n2" "good n2" "n_store n2 = (n_store n1)(sid \<mapsto> e)" "keeps d e"
    "k_state e = (if event = CE_CLIENT_CONNECTED then CS_CONNECTED else CS_WAITING)" "frame n1 n2"
proof -
  have st: "k_state d = CS_START" using c(2) d(1) by (simp add: same_role_def)
  let ?s = "if event = CE_CLIENT_CONNECTED then CS_CONNECTED else CS_WAITING"
  have g1: "good (set_conn n1 sid d)" "n_store (set_conn n1 sid d) sid = Some d" using good_set_conn [OF g c(1) d] by simp_all
  have "fsm_spec d event (Some ?s) []" using ev st by (auto simp: fsm_spec_event)
  then obtain n2 r where F: "connection_fsm (set_conn n1 sid d) os sid event = Some n2" "good n2" "n_store n2 = (n_store (set_conn n1 sid d))(sid := r)"
      "frame (set_conn n1 sid d) n2" "\<And>e. r = Some e \<Longrightarrow> keeps d e" "\<exists>ev. fsm_spec d event (map_option k_state r) ev"
    by (rule fsm_good [OF g1]) (use ev in auto)
  obtain e where e: "r = Some e" "k_state e = ?s" using F(6) ev st by (cases r) (auto simp: fsm_spec_event)
  have "frame n1 n2" using frame_trans [OF frame_refl(3) F(4)] .
  then show ?thesis using F e by (intro that [of n2 e]) simp_all
qed

lemma handle_new_connection_safe:
  assumes g: "good n" and legal: "io_legal (New_Connection fd ip l) n"
  shows "safe (handle_new_connection os fd ip n l)"
proof -
  let ?sid = "n_nextsid n"
  have fr: "fresh_sid n ?sid" and l: "l \<in> set (n_listeners n)"
    and ok: "l_notify l \<longrightarrow> \<not> socketid_isnull (l_sockid l) \<and> \<not> endpointid_isnull (l_owner l) \<and> 0 \<noteq> l_accept_frame l \<and> \<not> l_dontaccept l"
    using legal by auto
  obtain n1 c where A: "add_connection n ip (Some (so_sid (l_sockid l))) = Some (?sid, n1)" "good n1" "n_store n1 = (n_store n)(?sid \<mapsto> c)" "k_state c = CS_START"
      "k_listener c = Some (so_sid (l_sockid l))" "n_listeners n1 = n_listeners n"
    by (rule add_connection_good [OF g fr, of ip "Some (so_sid (l_sockid l))"]) blast
  obtain n2 e where F: "connection_fsm (set_conn n1 ?sid (c\<lparr>k_sock := fd\<rparr>)) os ?sid CE_CLIENT_CONNECTED = Some n2" "good n2"
      "n_store n2 = (n_store n1)(?sid \<mapsto> e)" "keeps (c\<lparr>k_sock := fd\<rparr>) e" "frame n1 n2"
    by (rule first_event [OF A(2), of ?sid c "c\<lparr>k_sock := fd\<rparr>" CE_CLIENT_CONNECTED os]) (use A in \<open>simp_all add: same_role_def buffered_def\<close>)
  have "k_listener e = Some (so_sid (l_sockid l))" using F(4) A(5) by (simp add: keeps_def)
  then have "safe (notify_accept n2 ?sid)" using F A(6) l ok by (intro notify_accept_safe [of n2 ?sid e l]) (auto simp: frame_def)
  then show ?thesis using A F by (simp add: handle_new_connection_def)
qed

lemma iothread_connect_safe:
  assumes g: "good n" and legal: "io_legal (Req_Connect ip port owner ioid) n"
  shows "safe (iothread_connect os n ip port owner ioid)"
proof -
  let ?n = "emit n [LinkOwner owner]" let ?sid = "n_nextsid n"
  have g0: "good ?n" "fresh_sid ?n (n_nextsid ?n)" using g legal by (simp_all add: fresh_sid_def)
  obtain n1 c where A: "add_connection ?n ip None = Some (?sid, n1)" "good n1" "n_store n1 = (n_store n)(?sid \<mapsto> c)" "k_state c = CS_START" "k_connect_frame c = 0"
    by (rule add_connection_good [OF g0, of ip None]) simp
  let ?d = "c\<lparr>k_isreg := True, k_port := port, k_connect_frame := ioid, k_dontread := True, k_owner := owner\<rparr>"
  obtain n2 e where "connection_fsm (set_conn n1 ?sid ?d) os ?sid CE_REQUESTED = Some n2" "good n2"
    by (rule first_event [OF A(2), of ?sid c ?d CE_REQUESTED os]) (use A in \<open>simp_all add: same_role_def buffered_def\<close>)
  then show ?thesis using A by (simp add: iothread_connect_def)
qed

lemma iothread_connpair_safe:
  assumes g: "good n" and legal: "io_legal (Req_Connpair fds source ioid) n"
  shows "safe (iothread_connpair os n fds source ioid)"
proof (cases fds)
  case None
  then show ?thesis using g by (simp add: iothread_connpair_def)
next
  case (Some p)
  obtain fa fb where p: "p = (fa, fb)" by force
  let ?a = "n_nextsid n" and ?b = "n_nextsid n + 1"
  have fr: "fresh_sid n ?a" "fresh_sid n ?b" using legal by simp_all
  obtain n1 ca where A: "add_connection n 0 None = Some (?a, n1)" "good n1" "n_store n1 = (n_store n)(?a \<mapsto> ca)" "k_state ca = CS_START"
      "n_listeners n1 = n_listeners n" "n_nextsid n1 = ?b" by (rule add_connection_good [OF g fr(1), of 0 None]) blast
  have ab: "?a \<noteq> ?b" by simp
  have "fresh_sid n1 (n_nextsid n1)" using fr(2) A ab by (simp add: fresh_sid_def)
  then obtain n2 cb where B: "add_connection n1 0 None = Some (?b, n2)" "good n2" "n_store n2 = (n_store n1)(?b \<mapsto> cb)" "k_state cb = CS_START"
    using A(6) by (metis add_connection_good [OF A(2)])
  let ?ca = "ca\<lparr>k_sock := fa, k_dontread := True, k_isreg := True, k_owner := source\<rparr>"
  let ?cb = "cb\<lparr>k_sock := fb, k_dontread := True, k_isreg := True, k_owner := source\<rparr>"
  have r: "same_role ca ?ca" "same_role cb ?cb" by (simp_all add: same_role_def buffered_def)
  have a2: "n_store n2 ?a = Some ca" "n_store n2 ?b = Some cb" using A(3) B(3) ab by simp_all
  have g3: "good (set_conn n2 ?b ?cb)" by (rule good_set_conn [OF B(2) a2(2) r(2)]) simp
  have swap: "set_conn (set_conn n2 ?a ?ca) ?b ?cb = set_conn (set_conn n2 ?b ?cb) ?a ?ca" using ab by (simp add: set_conn_def fun_upd_twist)
  obtain n4 e where F: "connection_fsm (set_conn (set_conn n2 ?b ?cb) ?a ?ca) os ?a CE_CLIENT_CONNECTED = Some n4" "good n4"
      "n_store n4 = (n_store (set_conn n2 ?b ?cb))(?a \<mapsto> e)"
    by (rule first_event [OF g3, of ?a ca ?ca CE_CLIENT_CONNECTED os]) (use a2 ab A(4) r in simp_all)
  have b4: "n_store n4 ?b = Some ?cb" using F(3) ab by simp
  have "safe (connection_fsm n4 os ?b CE_CLIENT_CONNECTED)"
    using B(4) by (intro fsm_safe [OF F(2) b4 fsm_spec.client]) simp_all
  then obtain n5 where "connection_fsm n4 os ?b CE_CLIENT_CONNECTED = Some n5" "good n5" by (auto simp: safe_def)
  then show ?thesis using Some p A(1) B(1) a2 F(1) swap by (simp add: iothread_connpair_def Let_def)
qed

lemma take_over_role:
  assumes "take_over c source = (d, out)"
  shows "same_role c d" "k_outport d = k_outport c" "k_sendbuf d = k_sendbuf c" "k_write_frame d = k_write_frame c"
  using assms by (auto simp: take_over_def same_role_def buffered_def split: if_splits)

lemma iothread_read_safe:
  assumes g: "good n" and legal: "io_legal (Req_Read sockid ioid source) n"
  shows "safe (iothread_read n sockid ioid source)"
proof (cases "connhash_lookup n sockid")
  case None
  then show ?thesis using g by (simp add: iothread_read_def)
next
  case (Some sid)
  have "n_store n sid \<noteq> None" using Some connhash_lookup_eq [of n sockid] g by (auto simp: good_def split: if_splits)
  then obtain c where c: "n_store n sid = Some c" by auto
  obtain d out where T: "take_over c source = (d, out)" by force
  have "good (set_conn n sid (d\<lparr>k_read_frame := ioid, k_dontread := False\<rparr>))"
    using take_over_role [OF T] by (intro good_set_conn [OF g c]) (simp_all add: same_role_def buffered_def)
  then show ?thesis using Some c T legal by (auto simp: iothread_read_def)
qed

lemma iothread_write_safe:
  assumes g: "good n" and legal: "io_legal (Req_Write sockid ioid data source) n"
  shows "safe (iothread_write n sockid ioid data source)"
proof (cases "connhash_lookup n sockid")
  case None
  then show ?thesis using g by (simp add: iothread_write_def)
next
  case (Some sid)
  have "n_store n sid \<noteq> None" using Some connhash_lookup_eq [of n sockid] g by (auto simp: good_def split: if_splits)
  then obtain c where c: "n_store n sid = Some c" by auto
  then obtain buf where b: "k_sendbuf c = Some buf" "\<not> k_collected c" "k_write_frame c = 0" using legal Some by auto
  obtain d out where T: "take_over c source = (d, out)" by force
  note R = take_over_role [OF T]
  let ?e = "if data \<noteq> [] then d\<lparr>k_sendbuf := Some (buf @ data)\<rparr> else d\<lparr>k_finwrite := True\<rparr>"
  let ?f = "if length (buf @ data) < n_iosize n then ?e else ?e\<lparr>k_write_frame := ioid\<rparr>"
  have "same_role c ?f" "k_outport ?f = k_outport c" using R b by (auto simp: same_role_def buffered_def)
  then have "good (set_conn n sid ?f)" by (rule good_set_conn [OF g c])
  then show ?thesis using Some c b T R by (auto simp: iothread_write_def Let_def)
qed

lemma iothread_delete_connection_safe:
  assumes g: "good n" and legal: "io_legal (Req_Delete_Connection sockid) n"
  shows "safe (iothread_delete_connection os n sockid)"
proof (cases "connhash_lookup n sockid")
  case None
  then show ?thesis using g by (simp add: iothread_delete_connection_def)
next
  case (Some sid)
  have "n_store n sid \<noteq> None" using Some connhash_lookup_eq [of n sockid] g by (auto simp: good_def split: if_splits)
  then obtain c where c: "n_store n sid = Some c" by auto
  let ?d = "c\<lparr>k_collected := True, k_finwrite := True\<rparr>"
  have "io_state (k_state c)" using legal Some c by auto
  then have "\<exists>r ev. fsm_spec ?d CE_FINREAD r ev" by (auto simp: fsm_spec_event io_state_def)
  then obtain r ev where "fsm_spec ?d CE_FINREAD r ev" by blast
  then have "safe (connection_fsm (set_conn n sid ?d) os sid CE_FINREAD)"
    by (intro touch_fsm_safe [OF g c, of ?d]) (simp_all add: same_role_def buffered_def)
  then show ?thesis using Some c by (simp add: iothread_delete_connection_def)
qed

lemma listener_handlers_safe:
  assumes g: "good n"
  shows "safe (iothread_delete_listener os n sockid)" "io_legal (Req_Accept sockid ioid) n \<Longrightarrow> safe (iothread_accept n sockid ioid)"
    "fresh_sid n (n_nextsid n) \<Longrightarrow> good (iothread_listen n ip owner ioid source fd)"
proof -
  have I: "net_inv n" "settled n" "listeners_ok n" using g by (simp_all add: good_def)
  have dl: "distinct (n_listeners n)" using I(3) by (auto simp: listeners_ok_def distinct_map)
  show "safe (iothread_delete_listener os n sockid)"
  proof (cases "find (\<lambda>l. socketid_equals (l_sockid l) sockid) (n_listeners n)")
    case None
    then show ?thesis using g by (simp add: iothread_delete_listener_def)
  next
    case (Some l)
    then have l: "l \<in> set (n_listeners n)" by (auto simp: find_Some_iff)
    obtain n' where R: "node_remove_listener os n l = Some n'" "net_inv n'" "settled n'" "n_listeners n' = remove1 l (n_listeners n)"
      using remove_listener_ok [OF I(1,2) l, of os] by blast
    have "distinct (map (\<lambda>l. so_sid (l_sockid l)) (remove1 l (n_listeners n)))"
      using I(3) dl by (auto simp: listeners_ok_def distinct_map distinct_remove1_removeAll distinct_removeAll intro: inj_on_subset)
    then have "good n'" using R by (simp add: good_def listeners_ok_def)
    then show ?thesis using Some R by (simp add: iothread_delete_listener_def)
  qed
  show "safe (iothread_accept n sockid ioid)" if "io_legal (Req_Accept sockid ioid) n"
    using that set_listener_good [OF g] by (auto simp: iothread_accept_def)
  show "good (iothread_listen n ip owner ioid source fd)" if "fresh_sid n (n_nextsid n)"
  proof (cases fd)
    case None
    then show ?thesis using g by (simp add: iothread_listen_def)
  next
    case (Some p)
    have "net_inv (m\<lparr>n_nextsid := k, n_listeners := ls\<rparr>) \<longleftrightarrow> net_inv m" "settled (m\<lparr>n_nextsid := k, n_listeners := ls\<rparr>) \<longleftrightarrow> settled m" for m k ls
      by (rule net_inv_cong) (simp_all add: settled_def)
    then show ?thesis using Some I that by (cases p) (auto simp: iothread_listen_def Let_def good_def listeners_ok_def fresh_sid_def settled_def)
  qed
qed

lemma find_connection_stored:
  assumes "find_connection n oo ip port = Some sid"
  obtains c where "n_store n sid = Some c" "k_ip c = ip" "k_port c = int (unat port)"
  using assms by (auto simp: find_connection_def find_Some_iff split: option.splits)

lemma append_sendbuf_good:
  assumes "good n" "n_store n sid = Some c" "k_sendbuf c = Some buf"
  shows "append_sendbuf n sid bs = Some (set_conn n sid (c\<lparr>k_sendbuf := Some (buf @ bs)\<rparr>))" "good (set_conn n sid (c\<lparr>k_sendbuf := Some (buf @ bs)\<rparr>))"
  using assms by (simp_all add: append_sendbuf_def good_set_conn same_role_def buffered_def)

text \<open>A message to another node joins the send buffer of the connection to it; without one, a
  connection is opened whose first bytes are the welcome text, the port and the message. When
  the system refuses to open it, the peer counts as disconnected.\<close>

lemma send_remote_queues_lemma:
  assumes g: "good n" and legal: "io_legal (Send_Remote oo dest hdr data) n" and os: "\<not> os_connected os"
  shows "\<exists>n'. send_remote os oo n dest hdr data = Some n' \<and> good n' \<and>
    (case find_connection n oo (ep_ip dest) (ep_port dest) of
       Some sid \<Rightarrow> \<exists>c d buf. n_store n sid = Some c \<and> k_sendbuf c = Some buf \<and> n_store n' = (n_store n)(sid \<mapsto> d) \<and>
                    k_sendbuf d = Some (buf @ header_bytes hdr @ data)
     | None \<Rightarrow> (\<exists>d. n_store n' = (n_store n)(n_nextsid n \<mapsto> d) \<and> k_state d = CS_CONNECTING \<and>
                   k_sendbuf d = Some (WELCOME_MESSAGE @ le16 (n_listenport n) @ header_bytes hdr @ data)) \<or>
                n_store n' = n_store n \<and> Disconnected (ep_ip dest) (int (unat (ep_port dest))) \<in> set (n_out n'))"
proof (cases "find_connection n oo (ep_ip dest) (ep_port dest)")
  case (Some sid)
  obtain c where c: "n_store n sid = Some c" using find_connection_stored [OF Some] by blast
  then obtain buf where b: "k_sendbuf c = Some buf" using legal Some by auto
  show ?thesis using Some c b append_sendbuf_good [OF g c b, of "header_bytes hdr @ data"] by (auto simp: send_remote_def)
next
  case None
  let ?sid = "n_nextsid n"
  have fr: "fresh_sid n ?sid" using legal by simp
  obtain n1 c where A: "add_connection n (ep_ip dest) (Some (n_mainl n)) = Some (?sid, n1)" "good n1" "n_store n1 = (n_store n)(?sid \<mapsto> c)"
      "k_state c = CS_START" "k_ip c = ep_ip dest" "k_sendbuf c = Some WELCOME_MESSAGE" "k_isreg c = False"
    by (rule add_connection_good [OF g fr, of "ep_ip dest" "Some (n_mainl n)"]) simp
  let ?bs = "le16 (n_listenport n) @ header_bytes hdr @ data"
  let ?c1 = "c\<lparr>k_port := int (unat (ep_port dest))\<rparr>"
  let ?c2 = "?c1\<lparr>k_sendbuf := Some (WELCOME_MESSAGE @ ?bs)\<rparr>"
  have ap: "append_sendbuf (set_conn n1 ?sid ?c1) ?sid ?bs = Some (set_conn n1 ?sid ?c2)"
    using A(6) by (simp add: append_sendbuf_def set_conn_set_conn)
  obtain n3 e where F: "connection_fsm (set_conn n1 ?sid ?c2) os ?sid CE_REQUESTED = Some n3" "good n3" "n_store n3 = (n_store n1)(?sid \<mapsto> e)"
      "keeps ?c2 e" "k_state e = CS_WAITING"
    by (rule first_event [OF A(2), of ?sid c ?c2 CE_REQUESTED os]) (use A in \<open>simp_all add: same_role_def buffered_def\<close>)
  have e: "n_store n3 ?sid = Some e" using F(3) by simp
  have I3: "net_inv n3" "settled n3" using F(2) by (simp_all add: good_def)
  have "\<exists>r ev. fsm_spec e CE_SLOT_AVAILABLE r ev" using fsm_spec.opened [OF F(5)] by blast
  then obtain n4 d ev where G: "connection_fsm n3 os ?sid CE_SLOT_AVAILABLE = Some n4" "moved n3 ?sid d ev n4"
      "fsm_spec e CE_SLOT_AVAILABLE (map_option k_state d) ev" "\<And>x. d = Some x \<Longrightarrow> keeps e x" "net_inv n4" "settled n4"
    by (rule fsm_event [OF I3 e, of CE_SLOT_AVAILABLE os]) (use os in simp_all)
  have g4: "good n4" using G F(2) by (simp add: good_def moved_def frame_def listeners_ok_def)
  have S: "send_remote os oo n dest hdr data = Some n4" using None A(1,3) ap F(1,5) e G(1) by (simp add: send_remote_def)
  have st: "n_store n4 = (n_store n)(?sid := d)" using G(2) F(3) A(3) by (auto simp: moved_def)
  have o: "n_out n4 = n_out n3 @ ev" using G(2) by (simp add: moved_def)
  show ?thesis
  proof (cases d)
    case (Some x)
    then have "k_state x = CS_CONNECTING" "k_sendbuf x = Some (WELCOME_MESSAGE @ ?bs)"
      using G(3) G(4) [OF Some] F(4) by (auto simp: fsm_spec_event keeps_def)
    then show ?thesis using None Some S g4 st by auto
  next
    case None': None
    then have "Disconnected (ep_ip dest) (int (unat (ep_port dest))) \<in> set ev"
      using G(3) F(4) A(5,7) by (auto simp: fsm_spec_event keeps_def lost_peer_def)
    moreover have "n_store n4 = n_store n" using st None' fr by (auto simp: fresh_sid_def)
    ultimately show ?thesis using None S g4 o by auto
  qed
qed

lemma io_step_safe_lemma:
  assumes g: "good n" and legal: "io_legal ev n" and os: "\<forall>sid. \<not> os_connected (os sid)"
  shows "safe (io_step os ev n)"
proof (cases ev)
  case (Owner_Exit epid)
  have I: "net_inv n" "settled n" "distinct (n_listeners n)" using g by (auto simp: good_def listeners_ok_def distinct_map)
  then show ?thesis using Owner_Exit endpoint_exit_ok [OF I, of "os 0" epid] g
    by (auto simp: safe_def good_def listeners_ok_def distinct_map intro: inj_on_subset)
next
  case (Req_Listen ip owner ioid source fd)
  then show ?thesis using legal listener_handlers_safe(3) [OF g] by simp
next
  case Connect_Pending
  have I: "net_inv n" "settled n" using g by (simp_all add: good_def)
  then show ?thesis using Connect_Pending connect_pending_slots [OF I, of os] g os
    by (auto simp: safe_def good_def listeners_ok_def frame_def)
next
  case (Send_Remote oo dest hdr data)
  then show ?thesis using send_remote_queues_lemma [OF g, of oo dest hdr data "os (n_nextsid n)"] legal os by (auto simp: safe_def)
qed (use legal in \<open>auto simp: g handle_read_safe handle_write_safe handle_connected_safe handle_new_connection_safe iothread_connect_safe iothread_connpair_safe iothread_read_safe
    iothread_write_safe iothread_delete_connection_safe listener_handlers_safe simp del: io_legal.simps\<close>)

subsection \<open>Limits of the code\<close>

text \<open>The sum of the header size and a size near \<open>2 ^ 32\<close> wraps around: the message counts as
  complete and is read past the end of the buffer.\<close>

lemma oversized_header_overruns:
  "take_messages 5 2000 (header_bytes \<lparr>h_sourcelocalid = 9, h_destlocalid = 3, h_size = 4294967295, h_tag = 11, h_timestamp = 0\<rparr>) = None"
proof -
  let ?h = "\<lparr>h_sourcelocalid = 9, h_destlocalid = 3, h_size = 4294967295, h_tag = 11, h_timestamp = 0\<rparr>"
  have "of_header_bytes (header_bytes ?h) = ?h" using of_header_bytes_append [of ?h "[]"] by simp
  then show ?thesis by (subst take_messages.simps) (simp add: Let_def MSG_HEADER_SIZE_def)
qed

text \<open>\<open>find_connection\<close> does not exclude the sockets that programs open: a message to a node is
  put into such a socket when it has the same address.\<close>

lemma node_message_in_program_socket:
  assumes "n_connections n = [sid]" "n_store n sid = Some c" "k_isreg c" "k_ip c = ep_ip dest" "k_port c = int (unat (ep_port dest))" "k_sendbuf c = Some buf"
  shows "send_remote os False n dest hdr data = Some (set_conn n sid (c\<lparr>k_sendbuf := Some (buf @ header_bytes hdr @ data)\<rparr>))"
  using assms by (simp add: send_remote_def find_connection_def append_sendbuf_def)

text \<open>A connection that still waits for a slot survives the exit of its owner.\<close>

lemma waiting_connection_survives_exit:
  assumes "n_connections n = []" "n_listeners n = []"
  shows "node_handle_endpoint_exit os n epid = Some n"
  using assms by (simp add: node_handle_endpoint_exit_def)

subsection \<open>Properties of the I/O thread\<close>


lemma net_one_good: "good net_one"
proof -
  have "n_listeners net_one = []" by code_simp
  then show ?thesis using net_one_ok(1,2) by (simp add: good_def listeners_ok_def)
qed






end
