(* ===== verification/Spec2Isabelle.thy ===== *)
theory Spec2Isabelle
  imports Code_Image Task_Tables Frames Chord Transport
begin

text \<open>
  \<^bold>\<open>nreduce: a verification development.\<close>

  nreduce compiles a lazy functional language (\<^verbatim>\<open>compiler/\<close>) and runs it on a network of nodes
  that exchange messages (\<^verbatim>\<open>network/\<close>, \<^verbatim>\<open>runtime/\<close>). All paths are relative to
  \<^verbatim>\<open>src/nreduce/\<close>. The theories follow the parts of the program:

  \<^item> \<^emph>\<open>Prelude\<close>: C integer division, little-endian bytes, list lemmas shared by all parts.
  \<^item> \<^emph>\<open>Containers\<close>, \<^emph>\<open>Text_Util\<close>: the arrays, lists, stacks, text, time and hash helpers of
    \<^verbatim>\<open>network/util.c\<close>. An array is its bytes and its allocated size; a pointer that is only
    compared is a number. Escaping, command lines and addresses are shown to be inverse to
    printing, the hash to be a table index, the arrays and stacks to keep their contents.
  \<^item> \<^emph>\<open>Builtin_Table\<close>: the static table \<^verbatim>\<open>builtin_info\<close> of \<^verbatim>\<open>runtime/builtins.c\<close> and its lookup.
  \<^item> \<^emph>\<open>Syntax_Tree\<close>, \<^emph>\<open>Supercombinators\<close>: \<^verbatim>\<open>snode\<close>, \<^verbatim>\<open>scomb\<close> and \<^verbatim>\<open>source\<close> of \<^verbatim>\<open>compiler/source.h\<close> and
    the table of supercombinators with its hash chains (\<^verbatim>\<open>super.c\<close>, parts of \<^verbatim>\<open>source.c\<close>). A
    pointer to a supercombinator is its index. The table is a dictionary under insertion.
  \<^item> \<^emph>\<open>Renaming\<close>, \<^emph>\<open>Resolve\<close>: the passes \<^verbatim>\<open>renaming.c\<close> and \<^verbatim>\<open>resolve.c\<close> and the front half of
    \<^verbatim>\<open>source_process\<close>. They return, keep the nameless form of every body, make all names
    different, report exactly the unbound names and leave closed bodies with valid references.
  \<^item> \<^emph>\<open>Strictness\<close>, \<^emph>\<open>Lazy_Machine\<close>, \<^emph>\<open>Strictness_Sound\<close>: \<^verbatim>\<open>strictness.c\<close>, a call-by-name machine as the
    meaning of lambda-lifted programs, and the theorem that the analysis ends and that all it
    marks strict is needed.
  \<^item> \<^emph>\<open>Simulation\<close>: when two lambda-lifted programs return the same results on that machine; the
    specification of the tree-rewriting passes.
  \<^item> \<^emph>\<open>Reorder\<close>, \<^emph>\<open>App_Lifting\<close>, \<^emph>\<open>Nonstrict\<close>: the passes \<^verbatim>\<open>reorder.c\<close> and the application and non-strict
    lifting of \<^verbatim>\<open>lifting.c\<close>. Each ends, keeps the results of the program, and establishes the form of
    expressions that the later stages rely on. The locale \<open>lifting_pass\<close> holds what the two lifting
    passes share: new supercombinators are only added at the end of the table.
  \<^item> \<^emph>\<open>Bytecode\<close>, \<^emph>\<open>Code_Gen\<close>: code generation, \<^verbatim>\<open>bytecode.c\<close>. Instructions, the compile-time picture of the
    stack, the schemes C, E, S and R, the peephole pass, and the code of supercombinators,
    built-in functions and of the whole program.
  \<^item> \<^emph>\<open>Code_Types\<close>, \<^emph>\<open>Code_Bodies\<close>, \<^emph>\<open>Code_Program\<close>: the generated code is well typed in the sense of a
    bytecode verifier, no assertion of the code generator fails on a program that the earlier
    passes have prepared, and the function table leads to the start of each function.
  \<^item> \<^emph>\<open>Task_Tables\<close>: what \<^verbatim>\<open>task_new\<close> derives from the function table: the size of the frames, which is
    enough for the code of every function, and the function that an instruction belongs to.
  \<^item> \<^emph>\<open>Code_Image\<close>: the bytes of the compiled program, \<^verbatim>\<open>gen_bytecode\<close> and the \<^verbatim>\<open>bc_\<close> functions that the run
    time reads them with: what is read is what was written.
  \<^item> \<^emph>\<open>Frames\<close>: the frames of a task and the structures they are linked in (\<^verbatim>\<open>runtime/task.c\<close>, the frame
    allocation of \<^verbatim>\<open>memory.c\<close>, the wait queues of \<^verbatim>\<open>interpreter.c\<close>). Every operation implements an
    operation on lists; in every reachable state the lists are disjoint where they should be and
    agree with the states of the frames. The conditions under which an operation may be called
    (\<open>allowed\<close>) are what its callers see to.
  \<^item> \<^emph>\<open>Endpoints\<close>: mailboxes, links and threads of a node (\<^verbatim>\<open>network/node.c\<close>, \<^verbatim>\<open>iothread.c\<close>). A
    thread switch happens only between operations that hold the node lock, so an execution
    is a sequence of operations; in every reachable state links are mutual and live, no
    operation aborts, and exits and lost peers are announced exactly once.
  \<^item> \<^emph>\<open>Chord\<close>: \<^verbatim>\<open>runtime/chord.c\<close>, every message handler. A lookup on a stable ring ends at the
    successor; the links of a node follow its finger table.
  \<^item> \<^emph>\<open>Ports\<close>, \<^emph>\<open>Connections\<close>, \<^emph>\<open>Connection_Invariant\<close>, \<^emph>\<open>Connection_Service\<close>: \<^verbatim>\<open>connection.c\<close>, \<^verbatim>\<open>notify.c\<close> and
    the connection tables of \<^verbatim>\<open>node.c\<close>. The state machine refines a transition table and keeps
    counters, queues, hash table and ports consistent. What the socket calls answer is a parameter.
  \<^item> \<^emph>\<open>Transport\<close>: the handlers of the I/O thread and the framing of messages on a stream
    (\<^verbatim>\<open>iothread.c\<close>). However a stream is cut into pieces, exactly its messages arrive, and no
    legal event fails an assertion.

  \<^bold>\<open>Errors, fuel and bounds.\<close> \<^const>\<open>None\<close> stands for a failed assertion, \<^verbatim>\<open>abort\<close>, \<^verbatim>\<open>fatal\<close> or a read
  outside an array; errors the program reports are values of a sum type. A loop whose end is
  not structural has a termination proof, is a \<open>partial_function\<close> with a lemma that it
  returns, or runs on fuel with a stated amount that is enough (the number of nodes and
  arguments for the strictness analysis, \<open>KEYSPACE\<close> messages for a lookup). Memory is unbounded:
  \<^verbatim>\<open>malloc\<close> never fails. Integers keep their width where the code depends on it (message sizes,
  ports, hash sums, endpoint and socket numbers).

  \<^bold>\<open>Not modelled.\<close> The generated parser and scanner; the file and module loading of
  \<^verbatim>\<open>process_imports\<close>; lambda lifting, inlining, letrec sinking and the append optimisation;
  the heap of cells and its collector (\<^verbatim>\<open>memory.c\<close>), and so the instructions of \<^verbatim>\<open>interpreter.c\<close> except for
  how they queue frames; the graph messages of \<^verbatim>\<open>data.c\<close>, \<^verbatim>\<open>native.c\<close> and job management; the
  bodies of the built-in functions, which the machine takes as a parameter; \<^verbatim>\<open>select\<close> itself,
  logging, the console, and the stand-alone programs outside \<^verbatim>\<open>compiler/\<close>, \<^verbatim>\<open>network/\<close> and
  \<^verbatim>\<open>runtime/\<close>.
\<close>

end
